(* ===== verification/Prelude.thy ===== *)
theory Prelude
  imports Main "HOL-Library.Word"
begin

text \<open>
  Shared vocabulary of the development: the machine types of the 68030/68040 kernel
  (32-bit words, 16-bit and 12-bit bit-fields), the Mach return codes of
  \<^verbatim>\<open>sys/kern_return.h\<close>, the result type of code that can panic, and the generic
  lemmas on lists, functions and words the component theories use.  The collections
  \<open>mem_simps\<close> and \<open>word_facts\<close> gather the rewriting rules for pointer stores and
  machine words.
\<close>

unbundle bit_operations_syntax

named_theorems mem_simps "reading a pointer store after a write"
named_theorems word_facts "values of machine words"

type_synonym u32 = "32 word"
type_synonym u16 = "16 word"
type_synonym u12 = "12 word"

text \<open>A pointer is an address; the null pointer is 0.\<close>

type_synonym ptr = nat

text \<open>The return codes of \<^verbatim>\<open>sys/kern_return.h\<close>.\<close>

datatype kern_return =
    KERN_SUCCESS
  | KERN_INVALID_ADDRESS
  | KERN_PROTECTION_FAILURE
  | KERN_NO_SPACE
  | KERN_INVALID_ARGUMENT
  | KERN_FAILURE
  | KERN_RESOURCE_SHORTAGE
  | KERN_NOT_RECEIVER
  | KERN_NO_ACCESS
  | KERN_MEMORY_FAILURE
  | KERN_MEMORY_ERROR
  | KERN_ALREADY_IN_SET
  | KERN_NOT_IN_SET
  | KERN_NAME_EXISTS
  | KERN_ABORTED

text \<open>
  A call of \<^verbatim>\<open>panic\<close> (or a failed \<^verbatim>\<open>assert\<close>) stops the kernel: it is the left
  value of the result, carrying the message.
\<close>

type_synonym 'a kresult = "string + 'a"

definition kbind :: "'a kresult \<Rightarrow> ('a \<Rightarrow> 'b kresult) \<Rightarrow> 'b kresult" where
  "kbind r f = (case r of Inl e \<Rightarrow> Inl e | Inr a \<Rightarrow> f a)"

lemma kbind_simps [simp]:
  "kbind (Inl e) f = Inl e"
  "kbind (Inr a) f = f a"
  by (simp_all add: kbind_def)

lemma kbind_eq_Inr:
  "kbind r f = Inr b \<longleftrightarrow> (\<exists>a. r = Inr a \<and> f a = Inr b)"
  by (cases r) auto

subsection \<open>Chains through a successor function\<close>

text \<open>
  \<open>nseg N a xs b\<close>: following the successor function \<open>N\<close> from \<open>a\<close> visits \<open>xs\<close> in
  order and arrives at \<open>b\<close>.
\<close>

fun nseg :: "('a \<Rightarrow> 'a) \<Rightarrow> 'a \<Rightarrow> 'a list \<Rightarrow> 'a \<Rightarrow> bool" where
  "nseg N a [] b = (N a = b)"
| "nseg N a (x # xs) b = (N a = x \<and> nseg N x xs b)"

lemma nseg_append:
  "nseg N a (xs @ x # ys) b \<longleftrightarrow> nseg N a xs x \<and> nseg N x ys b"
  by (induction xs arbitrary: a) auto

lemma nseg_cong:
  "(\<And>x. x \<in> set (a # xs) \<Longrightarrow> N x = N' x) \<Longrightarrow> nseg N a xs b = nseg N' a xs b"
  by (induction xs arbitrary: a) auto

lemma nseg_last:
  "nseg N a xs b \<Longrightarrow> N (last (a # xs)) = b"
  by (induction xs arbitrary: a) auto

lemma nseg_first:
  "nseg N a xs b \<Longrightarrow> N a = hd (xs @ [b])"
  by (cases xs) auto

lemma nseg_unique:
  "nseg N a xs b \<Longrightarrow> nseg N a ys b \<Longrightarrow> b \<notin> set xs \<Longrightarrow> b \<notin> set ys \<Longrightarrow> xs = ys"
proof (induction xs arbitrary: a ys)
  case Nil
  then show ?case by (cases ys) auto
next
  case (Cons x xs)
  then show ?case by (cases ys) auto
qed

text \<open>Splicing a fresh node into a chain, and taking a node out.\<close>

lemma nseg_insert:
  assumes "nseg N a (xs @ ys) b" and "distinct (a # xs @ ys)" and "e \<notin> set (a # xs @ ys)"
    and "p = last (a # xs)"
  shows "nseg (N(e := N p, p := e)) a (xs @ e # ys) b"
  using assms
proof (induction xs arbitrary: a)
  case Nil
  then have p: "p = a" by simp
  have "nseg (N(e := N a, a := e)) e ys b"
  proof (cases ys)
    case (Cons y zs)
    have "nseg (N(e := N a, a := e)) y zs b = nseg N y zs b"
      using Nil.prems Cons by (intro nseg_cong) auto
    with Nil.prems Cons show ?thesis by auto
  qed (use Nil.prems in auto)
  then show ?case unfolding p by (simp add: fun_upd_def)
next
  case (Cons x xs)
  have p: "p = last (x # xs)" using Cons.prems by simp
  then have "p \<in> set (x # xs)" by (simp only: last_in_set) simp
  with Cons.prems have "a \<noteq> p" "a \<noteq> e" "N a = x" by auto
  moreover have "nseg (N(e := N p, p := e)) x (xs @ e # ys) b"
    using Cons.prems p by (intro Cons.IH) auto
  ultimately show ?case by (simp add: fun_upd_def)
qed

lemma nseg_remove:
  assumes "nseg N a (xs @ e # ys) b" and "distinct (a # xs @ e # ys)"
    and "p = last (a # xs)"
  shows "nseg (N(p := N e)) a (xs @ ys) b"
  using assms
proof (induction xs arbitrary: a)
  case Nil
  then have p: "p = a" by simp
  show ?case
  proof (cases ys)
    case (Cons y zs)
    have "nseg (N(a := N e)) y zs b = nseg N y zs b"
      using Nil.prems Cons by (intro nseg_cong) auto
    with Nil.prems Cons show ?thesis unfolding p by (auto simp: fun_upd_def)
  qed (use Nil.prems in auto)
next
  case (Cons x xs)
  have p: "p = last (x # xs)" using Cons.prems by simp
  then have "p \<in> set (x # xs)" by (simp only: last_in_set) simp
  with Cons.prems have "a \<noteq> p" "N a = x" by auto
  moreover have "nseg (N(p := N e)) x (xs @ ys) b"
    using Cons.prems p by (intro Cons.IH) auto
  ultimately show ?case by (simp add: fun_upd_def)
qed

subsection \<open>Words\<close>

lemma u32_bound [word_facts]: "unat (w :: u32) < 4294967296"
  using unsigned_less [of w] by simp

lemma bit31_iff: "bit (w :: u32) 31 \<longleftrightarrow> 2 ^ 31 \<le> unat w"
proof -
  have "bit (unat w) 31 = bit w 31" by (simp add: bit_unsigned_iff)
  then have "bit w 31 \<longleftrightarrow> odd (unat w div 2 ^ 31)" by (simp add: bit_iff_odd [of "unat w"])
  moreover have "unat w div 2 ^ 31 < 2"
    using u32_bound [of w] by (simp add: div_less_iff_less_mult)
  ultimately show ?thesis
    by (cases "unat w div 2 ^ 31 = 0") (auto simp: div_eq_0_iff less_2_cases_iff)
qed

lemma sint_neg_iff: "sint (w :: u32) < 0 \<longleftrightarrow> 2 ^ 31 \<le> unat w"
  using bit_last_iff [of w] bit31_iff [of w] by simp

lemma unat_of_nat_small [word_facts]: "n < 2 ^ 32 \<Longrightarrow> unat (of_nat n :: u32) = n"
  by (simp add: unat_of_nat)

lemma unat_2pow [word_facts]: "k < 32 \<Longrightarrow> unat (2 ^ k :: u32) = 2 ^ k"
proof -
  assume "k < 32"
  then have "(2 :: nat) ^ k < 2 ^ 32" by (simp only: power_strict_increasing_iff)
  then show ?thesis using unat_of_nat_small [of "2 ^ k"] by simp
qed

lemma unat_inc [word_facts]:
  fixes w :: "'a::len word"
  shows "Suc (unat w) < 2 ^ LENGTH('a) \<Longrightarrow> unat (w + 1) = Suc (unat w)"
  by (simp add: unat_word_ariths)

lemma unat_dec [word_facts]:
  fixes w :: "'a::len word"
  shows "w \<noteq> 0 \<Longrightarrow> unat (w - 1) = unat w - 1"
  by (simp add: unat_minus_one)

lemma unat_pos [word_facts]:
  fixes w :: "'a::len word"
  shows "w \<noteq> 0 \<longleftrightarrow> 0 < unat w"
  by (simp add: unat_gt_0)

end
