(* ===== verification/Queue.thy ===== *)
theory Queue
  imports Prelude
begin

text \<open>
  The generic doubly-linked queue package, \<^verbatim>\<open>kern/queue.c\<close> and \<^verbatim>\<open>kern/queue.h\<close>.
  Memory is a store from the addresses of \<^verbatim>\<open>struct queue_entry\<close> objects to their two
  links, written field by field in the order of the C statements.  The functions of
  \<^verbatim>\<open>queue.c\<close> link the entries themselves; the macros of \<^verbatim>\<open>queue.h\<close> link elements
  through a chain field, which lies at the byte offset \<open>off\<close> of the element.  The
  representation predicate \<open>queue_rep\<close> says that a head and its elements form a closed
  doubly-linked ring; every operation is shown to be the list operation it stands for,
  and the two families of operations implement one first-in first-out interface.
\<close>

subsection \<open>The store and the operations of \<^verbatim>\<open>queue.c\<close>\<close>

record queue_entry =
  qe_next :: ptr
  qe_prev :: ptr

type_synonym qmem = "ptr \<Rightarrow> queue_entry"

definition set_next :: "ptr \<Rightarrow> ptr \<Rightarrow> qmem \<Rightarrow> qmem" where
  "set_next a v m = m(a := (m a)\<lparr>qe_next := v\<rparr>)"

definition set_prev :: "ptr \<Rightarrow> ptr \<Rightarrow> qmem \<Rightarrow> qmem" where
  "set_prev a v m = m(a := (m a)\<lparr>qe_prev := v\<rparr>)"

definition enqueue_head :: "ptr \<Rightarrow> ptr \<Rightarrow> qmem \<Rightarrow> qmem" where
  "enqueue_head que elt m =
    (let m = set_next elt (qe_next (m que)) m;
         m = set_prev elt que m;
         m = set_prev (qe_next (m elt)) elt m
     in set_next que elt m)"

definition enqueue_tail :: "ptr \<Rightarrow> ptr \<Rightarrow> qmem \<Rightarrow> qmem" where
  "enqueue_tail que elt m =
    (let m = set_next elt que m;
         m = set_prev elt (qe_prev (m que)) m;
         m = set_next (qe_prev (m elt)) elt m
     in set_prev que elt m)"

text \<open>The C routine returns a null pointer for an empty queue: here \<open>None\<close>.\<close>

definition dequeue_head :: "ptr \<Rightarrow> qmem \<Rightarrow> ptr option \<times> qmem" where
  "dequeue_head que m =
    (if qe_next (m que) = que then (None, m)
     else let elt = qe_next (m que);
              m = set_prev (qe_next (m elt)) que m;
              m = set_next que (qe_next (m elt)) m
          in (Some elt, m))"

definition dequeue_tail :: "ptr \<Rightarrow> qmem \<Rightarrow> ptr option \<times> qmem" where
  "dequeue_tail que m =
    (if qe_prev (m que) = que then (None, m)
     else let elt = qe_prev (m que);
              m = set_next (qe_prev (m elt)) que m;
              m = set_prev que (qe_prev (m elt)) m
          in (Some elt, m))"

definition remqueue :: "ptr \<Rightarrow> ptr \<Rightarrow> qmem \<Rightarrow> qmem" where
  "remqueue que elt m =
    (let m = set_prev (qe_next (m elt)) (qe_prev (m elt)) m
     in set_next (qe_prev (m elt)) (qe_next (m elt)) m)"

definition insque :: "ptr \<Rightarrow> ptr \<Rightarrow> qmem \<Rightarrow> qmem" where
  "insque entry pred m =
    (let m = set_next entry (qe_next (m pred)) m;
         m = set_prev entry pred m;
         m = set_prev (qe_next (m pred)) entry m
     in set_next pred entry m)"

definition remque :: "ptr \<Rightarrow> qmem \<Rightarrow> ptr \<times> qmem" where
  "remque elt m =
    (let m = set_prev (qe_next (m elt)) (qe_prev (m elt)) m;
         m = set_next (qe_prev (m elt)) (qe_next (m elt)) m
     in (elt, m))"

subsection \<open>The macros of \<^verbatim>\<open>queue.h\<close>\<close>

definition queue_init :: "ptr \<Rightarrow> qmem \<Rightarrow> qmem" where
  "queue_init q m = set_next q q (set_prev q q m)"

definition queue_first :: "qmem \<Rightarrow> ptr \<Rightarrow> ptr" where
  "queue_first m q = qe_next (m q)"

definition queue_last :: "qmem \<Rightarrow> ptr \<Rightarrow> ptr" where
  "queue_last m q = qe_prev (m q)"

definition queue_next :: "qmem \<Rightarrow> ptr \<Rightarrow> ptr" where
  "queue_next m qc = qe_next (m qc)"

definition queue_prev :: "qmem \<Rightarrow> ptr \<Rightarrow> ptr" where
  "queue_prev m qc = qe_prev (m qc)"

definition queue_end :: "ptr \<Rightarrow> ptr \<Rightarrow> bool" where
  "queue_end q qe = (q = qe)"

definition queue_empty :: "qmem \<Rightarrow> ptr \<Rightarrow> bool" where
  "queue_empty m q = queue_end q (queue_first m q)"

text \<open>\<^verbatim>\<open>&((type)(thing))->field\<close>, for a chain field at byte offset \<open>off\<close>.\<close>

definition chain_addr :: "nat \<Rightarrow> ptr \<Rightarrow> ptr" where
  "chain_addr off thing = thing + off"

definition queue_field :: "nat \<Rightarrow> ptr \<Rightarrow> ptr \<Rightarrow> ptr" where
  "queue_field off head thing = (if head = thing then head else chain_addr off thing)"

definition queue_enter :: "nat \<Rightarrow> ptr \<Rightarrow> ptr \<Rightarrow> qmem \<Rightarrow> qmem" where
  "queue_enter off head elt m =
    (if queue_empty m head then
       (let m = set_next head elt m;
            m = set_prev head elt m;
            m = set_next (chain_addr off elt) head m
        in set_prev (chain_addr off elt) head m)
     else
       (let prev = qe_prev (m head);
            m = set_prev (chain_addr off elt) prev m;
            m = set_next (chain_addr off elt) head m;
            m = set_prev head elt m
        in set_next (chain_addr off prev) elt m))"

definition queue_enter_first :: "nat \<Rightarrow> ptr \<Rightarrow> ptr \<Rightarrow> qmem \<Rightarrow> qmem" where
  "queue_enter_first off head elt m =
    (if queue_empty m head then
       (let m = set_next head elt m;
            m = set_prev head elt m;
            m = set_next (chain_addr off elt) head m
        in set_prev (chain_addr off elt) head m)
     else
       (let nxt = qe_next (m head);
            m = set_prev (chain_addr off elt) head m;
            m = set_next (chain_addr off elt) nxt m;
            m = set_next head elt m
        in set_prev (chain_addr off nxt) elt m))"

definition queue_remove :: "nat \<Rightarrow> ptr \<Rightarrow> ptr \<Rightarrow> qmem \<Rightarrow> qmem" where
  "queue_remove off head elt m =
    (let nxt = qe_next (m (chain_addr off elt));
         prev = qe_prev (m (chain_addr off elt));
         m = set_prev (queue_field off head nxt) prev m
     in set_next (queue_field off head prev) nxt m)"

definition queue_assign :: "nat \<Rightarrow> ptr \<Rightarrow> ptr \<Rightarrow> qmem \<Rightarrow> qmem" where
  "queue_assign off to from m =
    (let m = set_next (chain_addr off (qe_prev (m from))) to m;
         m = set_prev (chain_addr off (qe_next (m from))) to m
     in m(to := m from))"

definition queue_remove_first :: "nat \<Rightarrow> ptr \<Rightarrow> qmem \<Rightarrow> ptr \<times> qmem" where
  "queue_remove_first off h m =
    (let e = queue_first m h in (e, queue_remove off h e m))"

definition queue_remove_last :: "nat \<Rightarrow> ptr \<Rightarrow> qmem \<Rightarrow> ptr \<times> qmem" where
  "queue_remove_last off h m =
    (let e = queue_last m h in (e, queue_remove off h e m))"

subsection \<open>Rings\<close>

text \<open>
  \<open>queue_rep off m q xs\<close>: the head at \<open>q\<close> and the elements \<open>xs\<close> form a ring, the
  successor chain visiting \<open>xs\<close> and the predecessor chain its reverse.
\<close>

definition ring_next :: "nat \<Rightarrow> ptr \<Rightarrow> qmem \<Rightarrow> ptr \<Rightarrow> ptr" where
  "ring_next off q m a = qe_next (m (queue_field off q a))"

definition ring_prev :: "nat \<Rightarrow> ptr \<Rightarrow> qmem \<Rightarrow> ptr \<Rightarrow> ptr" where
  "ring_prev off q m a = qe_prev (m (queue_field off q a))"

definition queue_rep :: "nat \<Rightarrow> qmem \<Rightarrow> ptr \<Rightarrow> ptr list \<Rightarrow> bool" where
  "queue_rep off m q xs \<longleftrightarrow>
     nseg (ring_next off q m) q xs q \<and> nseg (ring_prev off q m) q (rev xs) q \<and>
     q \<notin> set xs \<and> distinct xs \<and> q \<notin> chain_addr off ` set xs"

text \<open>An element that may be put on a queue: neither it nor its chain field is in use there.\<close>

definition queue_fresh :: "nat \<Rightarrow> ptr \<Rightarrow> ptr list \<Rightarrow> ptr \<Rightarrow> bool" where
  "queue_fresh off q xs e \<longleftrightarrow> e \<noteq> q \<and> e \<notin> set xs \<and> chain_addr off e \<noteq> q"

lemma set_next_read [mem_simps]:
  "qe_next (set_next a v m b) = (if b = a then v else qe_next (m b))"
  "qe_prev (set_next a v m b) = qe_prev (m b)"
  by (simp_all add: set_next_def)

lemma set_prev_read [mem_simps]:
  "qe_prev (set_prev a v m b) = (if b = a then v else qe_prev (m b))"
  "qe_next (set_prev a v m b) = qe_next (m b)"
  by (simp_all add: set_prev_def)

lemma chain_addr_inj [simp]: "chain_addr off a = chain_addr off b \<longleftrightarrow> a = b"
  by (simp add: chain_addr_def)

lemma chain_addr_0 [simp]: "chain_addr 0 a = a"
  by (simp add: chain_addr_def)

lemma queue_field_0 [simp]: "queue_field 0 q a = a"
  by (simp add: queue_field_def)

lemma queue_field_head [simp]: "queue_field off q q = q"
  by (simp add: queue_field_def)

text \<open>
  The two link patterns every routine performs, with the neighbours made explicit:
  putting \<open>e\<close> between \<open>p\<close> and \<open>n\<close>, and closing the gap between \<open>p\<close> and \<open>n\<close>.
\<close>

definition q_splice :: "nat \<Rightarrow> ptr \<Rightarrow> ptr \<Rightarrow> ptr \<Rightarrow> ptr \<Rightarrow> qmem \<Rightarrow> qmem" where
  "q_splice off q p e n m =
     set_next (queue_field off q p) e (set_prev (queue_field off q n) e
       (set_next (chain_addr off e) n (set_prev (chain_addr off e) p m)))"

definition q_unsplice :: "nat \<Rightarrow> ptr \<Rightarrow> ptr \<Rightarrow> ptr \<Rightarrow> qmem \<Rightarrow> qmem" where
  "q_unsplice off q p n m =
     set_next (queue_field off q p) n (set_prev (queue_field off q n) p m)"

lemma queue_field_eq_iff:
  assumes "q \<notin> chain_addr off ` S" and "a \<in> insert q S" and "b \<in> insert q S"
  shows "queue_field off q a = queue_field off q b \<longleftrightarrow> a = b"
  using assms by (auto simp: queue_field_def)

lemma last_in_ring: "p = last (q # xs) \<Longrightarrow> p \<in> insert q (set xs)"
  using last_in_set [of "q # xs"] by auto

lemma hd_in_ring: "n = hd (ys @ [q]) \<Longrightarrow> n \<in> insert q (set ys)"
  by (cases ys) auto

lemma last_rev_ring: "n = hd (ys @ [q]) \<Longrightarrow> n = last (q # rev ys)"
  by (cases ys) auto

lemma queue_rep_rev:
  "queue_rep off m q xs \<Longrightarrow> nseg (ring_prev off q m) q (rev xs) q"
  by (simp add: queue_rep_def)

lemma queue_rep_neighbours:
  assumes rep: "queue_rep off m q (xs @ ys)" and p: "p = last (q # xs)" and n: "n = hd (ys @ [q])"
  shows "ring_next off q m p = n" and "ring_prev off q m n = p"
proof -
  show "ring_next off q m p = n"
  proof (cases ys)
    case Nil
    then show ?thesis using rep nseg_last [of _ q xs q] p n by (simp add: queue_rep_def)
  next
    case (Cons y zs)
    then have "nseg (ring_next off q m) q xs y" using rep by (simp add: queue_rep_def nseg_append)
    then show ?thesis using nseg_last [of _ q xs y] Cons p n by simp
  qed
  have n': "n = last (q # rev ys)" using n by (rule last_rev_ring)
  show "ring_prev off q m n = p"
  proof (cases xs rule: rev_cases)
    case Nil
    then show ?thesis using rep nseg_last [of _ q "rev ys" q] n' p by (simp add: queue_rep_def)
  next
    case (snoc zs z)
    then have "nseg (ring_prev off q m) q (rev ys) z" using rep by (simp add: queue_rep_def nseg_append)
    then show ?thesis using nseg_last [of _ q "rev ys" z] snoc n' p by simp
  qed
qed

lemma queue_rep_insert:
  assumes rep: "queue_rep off m q (xs @ ys)" and fr: "queue_fresh off q (xs @ ys) e"
    and p: "p = last (q # xs)" and n: "n = hd (ys @ [q])"
  shows "queue_rep off (q_splice off q p e n m) q (xs @ e # ys)" (is "queue_rep off ?m q ?zs")
proof -
  have S: "q \<notin> chain_addr off ` set ?zs" using rep fr by (auto simp: queue_rep_def queue_fresh_def)
  have pS: "p \<in> insert q (set ?zs)" and pe: "p \<noteq> e"
    using fr last_in_ring [OF p] by (auto simp: queue_fresh_def)
  have nS: "n \<in> insert q (set ?zs)" and ne: "n \<noteq> e"
    using fr hd_in_ring [OF n] by (auto simp: queue_fresh_def)
  have e: "chain_addr off e = queue_field off q e" and eS: "e \<in> insert q (set ?zs)"
    using fr by (auto simp: queue_field_def queue_fresh_def)
  note inj = queue_field_eq_iff [OF S] and nb = queue_rep_neighbours [OF rep p n]
  have N: "ring_next off q ?m x = ((ring_next off q m)(e := n, p := e)) x" if "x \<in> insert q (set ?zs)" for x
    using inj [OF that pS] inj [OF that eS] pe by (simp add: ring_next_def q_splice_def e mem_simps)
  have P: "ring_prev off q ?m x = ((ring_prev off q m)(e := p, n := e)) x" if "x \<in> insert q (set ?zs)" for x
    using inj [OF that nS] inj [OF that eS] ne by (simp add: ring_prev_def q_splice_def e mem_simps)
  have "nseg ((ring_next off q m)(e := n, p := e)) q ?zs q"
    using nseg_insert [of "ring_next off q m" q xs ys q e p] rep fr p nb
    by (auto simp: queue_rep_def queue_fresh_def)
  then have 1: "nseg (ring_next off q ?m) q ?zs q"
    by (subst nseg_cong [where N' = "(ring_next off q m)(e := n, p := e)", OF N]) auto
  have "nseg ((ring_prev off q m)(e := p, n := e)) q (rev ys @ e # rev xs) q"
    using nseg_insert [of "ring_prev off q m" q "rev ys" "rev xs" q e n] rep fr last_rev_ring [OF n] nb
    by (auto simp: queue_rep_def queue_fresh_def Int_commute)
  then have 2: "nseg (ring_prev off q ?m) q (rev ?zs) q"
    by (subst nseg_cong [where N' = "(ring_prev off q m)(e := p, n := e)", OF P]) auto
  show ?thesis using 1 2 rep fr S by (auto simp: queue_rep_def queue_fresh_def)
qed

lemma queue_rep_delete:
  assumes rep: "queue_rep off m q (xs @ e # ys)" and p: "p = last (q # xs)" and n: "n = hd (ys @ [q])"
  shows "queue_rep off (q_unsplice off q p n m) q (xs @ ys)" (is "queue_rep off ?m q ?zs")
proof -
  have S: "q \<notin> chain_addr off ` set ?zs" using rep by (auto simp: queue_rep_def)
  have pS: "p \<in> insert q (set ?zs)" using last_in_ring [OF p] by auto
  have nS: "n \<in> insert q (set ?zs)" using hd_in_ring [OF n] by auto
  note inj = queue_field_eq_iff [OF S]
  have en: "ring_next off q m e = n"
    using queue_rep_neighbours(1) [of off m q "xs @ [e]" ys e n] rep n by simp
  have ep: "ring_prev off q m e = p"
    using queue_rep_neighbours(2) [of off m q xs "e # ys" p e] rep p by simp
  have N: "ring_next off q ?m x = ((ring_next off q m)(p := n)) x" if "x \<in> insert q (set ?zs)" for x
    using inj [OF that pS] by (simp add: ring_next_def q_unsplice_def mem_simps)
  have P: "ring_prev off q ?m x = ((ring_prev off q m)(n := p)) x" if "x \<in> insert q (set ?zs)" for x
    using inj [OF that nS] by (simp add: ring_prev_def q_unsplice_def mem_simps)
  have "nseg ((ring_next off q m)(p := n)) q ?zs q"
    using nseg_remove [of "ring_next off q m" q xs e ys q p] rep p en by (auto simp: queue_rep_def)
  then have 1: "nseg (ring_next off q ?m) q ?zs q"
    by (subst nseg_cong [where N' = "(ring_next off q m)(p := n)", OF N]) auto
  have "nseg ((ring_prev off q m)(n := p)) q (rev ys @ rev xs) q"
    using nseg_remove [of "ring_prev off q m" q "rev ys" e "rev xs" q n] rep last_rev_ring [OF n] ep
    by (auto simp: queue_rep_def Int_commute)
  then have 2: "nseg (ring_prev off q ?m) q (rev ?zs) q"
    by (subst nseg_cong [where N' = "(ring_prev off q m)(n := p)", OF P]) auto
  show ?thesis using 1 2 rep S by (auto simp: queue_rep_def)
qed

subsection \<open>Each routine is the list operation it stands for\<close>

lemma qmem_eqI:
  assumes "\<And>x. qe_next (m x) = qe_next (m' x)" and "\<And>x. qe_prev (m x) = qe_prev (m' x)"
  shows "(m :: qmem) = m'"
  using assms by (intro ext queue_entry.equality) auto

lemma queue_first_rep:
  assumes "queue_rep off m q xs"
  shows "queue_first m q = hd (xs @ [q])" and "qe_next (m q) = hd (xs @ [q])"
  using queue_rep_neighbours(1) [of off m q "[]" xs q "hd (xs @ [q])"] assms
  by (simp_all add: ring_next_def queue_first_def)

lemma queue_last_rep:
  assumes "queue_rep off m q xs"
  shows "queue_last m q = last (q # xs)" and "qe_prev (m q) = last (q # xs)"
  using queue_rep_neighbours(2) [of off m q xs "[]" "last (q # xs)" q] assms
  by (simp_all add: ring_prev_def queue_last_def)

lemma queue_empty_rep:
  "queue_rep off m q xs \<Longrightarrow> queue_empty m q \<longleftrightarrow> xs = []"
  using queue_first_rep(1) [of off m q xs]
  by (cases xs) (auto simp: queue_empty_def queue_end_def queue_rep_def)

lemma queue_init_rep: "queue_rep off (queue_init q m) q []"
  by (simp add: queue_rep_def ring_next_def ring_prev_def queue_init_def mem_simps)

lemma queue_rep_elem:
  assumes "queue_rep off m q (xs @ e # ys)"
  shows "qe_next (m (chain_addr off e)) = hd (ys @ [q])"
    and "qe_prev (m (chain_addr off e)) = last (q # xs)"
    and "e \<noteq> q" and "e \<notin> set xs" and "e \<notin> set ys"
proof -
  show d: "e \<noteq> q" "e \<notin> set xs" "e \<notin> set ys" using assms by (auto simp: queue_rep_def)
  have "queue_rep off m q ((xs @ [e]) @ ys)" using assms by simp
  from queue_rep_neighbours(1) [OF this refl refl]
  show "qe_next (m (chain_addr off e)) = hd (ys @ [q])" using d by (simp add: ring_next_def queue_field_def)
  from queue_rep_neighbours(2) [OF assms refl refl]
  show "qe_prev (m (chain_addr off e)) = last (q # xs)" using d by (simp add: ring_prev_def queue_field_def)
qed

lemma queue_links_rep:
  assumes "queue_rep off m q xs" and "i < length xs"
  shows "queue_next m (chain_addr off (xs ! i)) = (xs @ [q]) ! Suc i \<and>
    queue_prev m (chain_addr off (xs ! i)) = (q # xs) ! i"
proof -
  have xs: "xs = take i xs @ xs ! i # drop (Suc i) xs" using assms(2) by (simp add: id_take_nth_drop)
  have "hd (drop (Suc i) xs @ [q]) = (xs @ [q]) ! Suc i"
    using assms(2) by (cases "Suc i < length xs") (auto simp: hd_drop_conv_nth nth_append)
  moreover have "last (q # take i xs) = (q # xs) ! i"
    using assms(2) by (cases i) (auto simp: last_conv_nth)
  ultimately show ?thesis
    using queue_rep_elem(1,2) [of off m q "take i xs" "xs ! i" "drop (Suc i) xs"] xs assms(1)
    by (simp add: queue_next_def queue_prev_def)
qed

lemma queue_field_elem: "x \<noteq> q \<Longrightarrow> queue_field off q x = chain_addr off x"
  by (auto simp: queue_field_def)

lemma queue_enter_splice:
  assumes "queue_rep off m q xs" and "queue_fresh off q xs e"
  shows "queue_enter off q e m = q_splice off q (last (q # xs)) e q m"
proof (cases xs rule: rev_cases)
  case Nil
  then show ?thesis using assms queue_empty_rep [OF assms(1)]
    by (intro qmem_eqI) (auto simp: queue_enter_def q_splice_def queue_fresh_def mem_simps)
next
  case (snoc zs z)
  with assms have "z \<noteq> q" "z \<noteq> e" "chain_addr off z \<noteq> q" "chain_addr off e \<noteq> q"
    by (auto simp: queue_rep_def queue_fresh_def)
  then show ?thesis using snoc queue_empty_rep [OF assms(1)] queue_last_rep [OF assms(1)]
    by (intro qmem_eqI) (auto simp: queue_enter_def q_splice_def queue_field_elem mem_simps)
qed

lemma queue_enter_first_splice:
  assumes "queue_rep off m q xs" and "queue_fresh off q xs e"
  shows "queue_enter_first off q e m = q_splice off q q e (hd (xs @ [q])) m"
proof (cases xs)
  case Nil
  then show ?thesis using assms queue_empty_rep [OF assms(1)]
    by (intro qmem_eqI) (auto simp: queue_enter_first_def q_splice_def queue_fresh_def mem_simps)
next
  case (Cons z zs)
  with assms have "z \<noteq> q" "z \<noteq> e" "chain_addr off z \<noteq> q" "chain_addr off e \<noteq> q"
    by (auto simp: queue_rep_def queue_fresh_def)
  then show ?thesis using Cons queue_empty_rep [OF assms(1)] queue_first_rep [OF assms(1)]
    by (intro qmem_eqI) (auto simp: queue_enter_first_def q_splice_def queue_field_elem mem_simps)
qed

lemma queue_remove_unsplice:
  assumes "queue_rep off m q (xs @ e # ys)"
  shows "queue_remove off q e m = q_unsplice off q (last (q # xs)) (hd (ys @ [q])) m"
  using queue_rep_elem [OF assms] by (simp add: queue_remove_def q_unsplice_def Let_def)

lemma queue_enter_rep:
  "queue_rep off m q xs \<Longrightarrow> queue_fresh off q xs e \<Longrightarrow> queue_rep off (queue_enter off q e m) q (xs @ [e])"
  using queue_rep_insert [of off m q xs "[]" e] by (simp add: queue_enter_splice)

lemma queue_enter_first_rep:
  "queue_rep off m q xs \<Longrightarrow> queue_fresh off q xs e \<Longrightarrow> queue_rep off (queue_enter_first off q e m) q (e # xs)"
  using queue_rep_insert [of off m q "[]" xs e] by (simp add: queue_enter_first_splice)

lemma queue_remove_rep:
  assumes "queue_rep off m q xs" and "e \<in> set xs"
  shows "queue_rep off (queue_remove off q e m) q (remove1 e xs)"
proof -
  from assms(2) obtain ys zs where xs: "xs = ys @ e # zs" and "e \<notin> set ys"
    using split_list_first by metis
  then show ?thesis
    using queue_rep_delete [of off m q ys e zs] assms(1)
    by (simp add: queue_remove_unsplice remove1_append)
qed

lemma queue_remove_first_rep:
  assumes "queue_rep off m q (x # xs)"
  shows "fst (queue_remove_first off q m) = x"
    and "queue_rep off (snd (queue_remove_first off q m)) q xs"
  using queue_first_rep [OF assms] queue_remove_rep [OF assms, of x]
  by (simp_all add: queue_remove_first_def)

lemma queue_remove_last_rep:
  assumes "queue_rep off m q (xs @ [x])"
  shows "fst (queue_remove_last off q m) = x"
    and "queue_rep off (snd (queue_remove_last off q m)) q xs"
  using queue_last_rep [OF assms] queue_rep_elem [OF assms] queue_remove_rep [OF assms, of x]
  by (simp_all add: queue_remove_last_def remove1_append)

text \<open>The routines of \<^verbatim>\<open>queue.c\<close> are the same splices with a chain field at offset 0.\<close>

lemma enqueue_head_splice:
  assumes "queue_rep 0 m q xs" and "queue_fresh 0 q xs e"
  shows "enqueue_head q e m = q_splice 0 q q e (hd (xs @ [q])) m"
proof -
  have "hd (xs @ [q]) \<noteq> e" "q \<noteq> e" using assms by (cases xs; auto simp: queue_fresh_def)+
  then show ?thesis using queue_first_rep [OF assms(1)]
    by (intro qmem_eqI) (auto simp: enqueue_head_def q_splice_def Let_def mem_simps)
qed

lemma enqueue_tail_splice:
  assumes "queue_rep 0 m q xs" and "queue_fresh 0 q xs e"
  shows "enqueue_tail q e m = q_splice 0 q (last (q # xs)) e q m"
proof -
  have "last (q # xs) \<noteq> e" "q \<noteq> e"
    using assms last_in_ring [OF refl, of q xs] by (auto simp: queue_fresh_def)
  then show ?thesis using queue_last_rep [OF assms(1)]
    by (intro qmem_eqI) (auto simp: enqueue_tail_def q_splice_def Let_def mem_simps)
qed

lemma enqueue_head_rep:
  "queue_rep 0 m q xs \<Longrightarrow> queue_fresh 0 q xs e \<Longrightarrow> queue_rep 0 (enqueue_head q e m) q (e # xs)"
  using queue_rep_insert [of 0 m q "[]" xs e] by (simp add: enqueue_head_splice)

lemma enqueue_tail_rep:
  "queue_rep 0 m q xs \<Longrightarrow> queue_fresh 0 q xs e \<Longrightarrow> queue_rep 0 (enqueue_tail q e m) q (xs @ [e])"
  using queue_rep_insert [of 0 m q xs "[]" e] by (simp add: enqueue_tail_splice)

lemma remqueue_rep:
  assumes "queue_rep 0 m q xs" and "e \<in> set xs"
  shows "queue_rep 0 (remqueue q e m) q (remove1 e xs)"
proof -
  have "qe_next (m e) \<noteq> e"
    using assms split_list [OF assms(2)] queue_rep_elem [of 0 m q _ e]
    by (metis chain_addr_0 hd_append2 hd_in_set list.sel(1) append_Nil)
  then have "remqueue q e m = queue_remove 0 q e m"
    by (intro qmem_eqI) (auto simp: remqueue_def queue_remove_def Let_def mem_simps)
  then show ?thesis using queue_remove_rep [OF assms] by simp
qed

lemma remque_rep:
  assumes "queue_rep 0 m q xs" and "e \<in> set xs"
  shows "fst (remque e m) = e" and "queue_rep 0 (snd (remque e m)) q (remove1 e xs)"
  using remqueue_rep [OF assms] by (simp_all add: remque_def remqueue_def Let_def)

lemma insque_rep:
  assumes rep: "queue_rep 0 m q (xs @ ys)" and fr: "queue_fresh 0 q (xs @ ys) e" and p: "p = last (q # xs)"
  shows "queue_rep 0 (insque e p m) q (xs @ e # ys)"
proof -
  have "hd (ys @ [q]) \<noteq> e" "p \<noteq> e"
    using fr last_in_ring [OF p] hd_in_ring [OF refl, of ys q] by (auto simp: queue_fresh_def)
  moreover have "qe_next (m p) = hd (ys @ [q])"
    using queue_rep_neighbours(1) [OF rep p refl] by (simp add: ring_next_def)
  ultimately have "insque e p m = q_splice 0 q p e (hd (ys @ [q])) m"
    by (intro qmem_eqI) (auto simp: insque_def q_splice_def Let_def mem_simps)
  then show ?thesis using queue_rep_insert [OF rep fr p refl] by simp
qed

lemma dequeue_head_rep:
  assumes "queue_rep 0 m q xs"
  shows "case xs of [] \<Rightarrow> dequeue_head q m = (None, m)
    | x # ys \<Rightarrow> fst (dequeue_head q m) = Some x \<and> queue_rep 0 (snd (dequeue_head q m)) q ys"
proof (cases xs)
  case Nil
  then show ?thesis using queue_first_rep [OF assms] by (simp add: dequeue_head_def)
next
  case (Cons x ys)
  have "dequeue_head q m = (Some x, q_unsplice 0 q q (hd (ys @ [q])) m)"
    using queue_first_rep [OF assms] queue_rep_elem [of 0 m q "[]" x ys] assms Cons
    by (auto simp: dequeue_head_def q_unsplice_def Let_def mem_simps)
  then show ?thesis using queue_rep_delete [of 0 m q "[]" x ys] assms Cons by simp
qed

lemma dequeue_tail_rep:
  assumes "queue_rep 0 m q xs"
  shows "if xs = [] then dequeue_tail q m = (None, m)
    else fst (dequeue_tail q m) = Some (last xs) \<and> queue_rep 0 (snd (dequeue_tail q m)) q (butlast xs)"
proof (cases xs rule: rev_cases)
  case Nil
  then show ?thesis using queue_last_rep [OF assms] by (simp add: dequeue_tail_def)
next
  case (snoc ys x)
  have "dequeue_tail q m = (Some x, q_unsplice 0 q (last (q # ys)) q m)"
    using queue_last_rep [OF assms] queue_rep_elem [of 0 m q ys x "[]"] assms snoc
    by (intro prod_eqI qmem_eqI) (auto simp: dequeue_tail_def q_unsplice_def Let_def mem_simps)
  then show ?thesis using queue_rep_delete [of 0 m q ys x "[]"] assms snoc by simp
qed

subsection \<open>Moving a whole queue to another head\<close>

lemma nseg_retarget:
  assumes "nseg N a xs b" and "distinct (a # xs)" and "p = last (a # xs)"
  shows "nseg (N(p := c)) a xs c"
  using assms
proof (induction xs arbitrary: a)
  case (Cons x xs)
  have p: "p = last (x # xs)" using Cons.prems by simp
  then have "p \<in> set (x # xs)" by (simp only: last_in_set) simp
  with Cons.prems have "a \<noteq> p" "N a = x" by auto
  moreover have "nseg (N(p := c)) x xs c" using Cons.prems p by (intro Cons.IH) auto
  ultimately show ?case by (simp add: fun_upd_def)
qed simp

lemma queue_assign_rep:
  assumes rep: "queue_rep off m from xs" and ne: "xs \<noteq> []"
    and to: "to \<notin> set xs" "to \<notin> chain_addr off ` set xs"
  shows "queue_rep off (queue_assign off to from m) to xs" (is "queue_rep off ?m to xs")
proof -
  define l where "l = last xs"
  define h where "h = hd xs"
  have lh: "l \<in> set xs" "h \<in> set xs" using ne by (simp_all add: l_def h_def)
  have d: "from \<notin> set xs" "from \<notin> chain_addr off ` set xs" "distinct xs"
    using rep by (auto simp: queue_rep_def)
  have fl: "qe_prev (m from) = l" "qe_next (m from) = h"
    using queue_last_rep(2) [OF rep] queue_first_rep(2) [OF rep] ne by (simp_all add: l_def h_def)
  have m: "?m = (set_prev (chain_addr off h) to (set_next (chain_addr off l) to m))
      (to := set_prev (chain_addr off h) to (set_next (chain_addr off l) to m) from)"
    using d lh fl by (auto simp: queue_assign_def Let_def mem_simps)
  have from': "chain_addr off l \<noteq> from" "chain_addr off h \<noteq> from" using d lh by auto
  have N: "ring_next off to ?m x = ((ring_next off from m)(l := to)) x" if "x \<in> set xs" for x
  proof -
    have "x \<noteq> to" "x \<noteq> from" "chain_addr off x \<noteq> to" using that to d by auto
    then show ?thesis by (auto simp: m ring_next_def queue_field_elem mem_simps)
  qed
  have P: "ring_prev off to ?m x = ((ring_prev off from m)(h := to)) x" if "x \<in> set xs" for x
  proof -
    have "x \<noteq> to" "x \<noteq> from" "chain_addr off x \<noteq> to" using that to d by auto
    then show ?thesis by (auto simp: m ring_prev_def queue_field_elem mem_simps)
  qed
  have head: "ring_next off to ?m to = h" "ring_prev off to ?m to = l"
    using from' fl by (simp_all add: m ring_next_def ring_prev_def mem_simps)
  obtain ys where xs: "xs = h # ys" using ne by (cases xs) (auto simp: h_def)
  have "nseg ((ring_next off from m)(l := to)) h ys to"
    using rep d(3) xs by (intro nseg_retarget) (auto simp: queue_rep_def l_def)
  then have 1: "nseg (ring_next off to ?m) to xs to"
    using head xs by (simp, subst nseg_cong [where N' = "(ring_next off from m)(l := to)", OF N]) auto
  obtain zs where rxs: "rev xs = l # zs" using ne by (cases xs rule: rev_cases) (auto simp: l_def)
  have "nseg ((ring_prev off from m)(h := to)) l zs to"
    using rep d(3) rxs last_rev [of xs] distinct_rev [of xs]
    by (intro nseg_retarget) (auto simp: queue_rep_def h_def simp del: distinct_rev last_rev)
  then have 2: "nseg (ring_prev off to ?m) to (rev xs) to"
    using head rxs set_rev [of xs]
    by (simp, subst nseg_cong [where N' = "(ring_prev off from m)(h := to)", OF P]) auto
  show ?thesis using 1 2 to d by (auto simp: queue_rep_def)
qed

subsection \<open>Separation: a queue is undisturbed by writes outside its ring\<close>

definition ring_addrs :: "nat \<Rightarrow> ptr \<Rightarrow> ptr list \<Rightarrow> ptr set" where
  "ring_addrs off q xs = insert q (chain_addr off ` set xs)"

lemma queue_rep_frame:
  assumes "queue_rep off m q xs" and "\<And>a. a \<in> ring_addrs off q xs \<Longrightarrow> m' a = m a"
  shows "queue_rep off m' q xs"
proof -
  have "queue_field off q x \<in> ring_addrs off q xs" if "x \<in> insert q (set xs)" for x
    using that by (auto simp: queue_field_def ring_addrs_def)
  then have N: "ring_next off q m' x = ring_next off q m x" and P: "ring_prev off q m' x = ring_prev off q m x"
    if "x \<in> insert q (set xs)" for x
    using that assms(2) by (simp_all add: ring_next_def ring_prev_def)
  have "nseg (ring_next off q m') q xs q"
    using assms(1) N by (subst nseg_cong [where N' = "ring_next off q m", OF N]) (auto simp: queue_rep_def)
  moreover have "nseg (ring_prev off q m') q (rev xs) q"
    using assms(1) P by (subst nseg_cong [where N' = "ring_prev off q m", OF P]) (auto simp: queue_rep_def)
  ultimately show ?thesis using assms(1) by (simp add: queue_rep_def)
qed

lemma q_splice_outside:
  assumes "a \<notin> ring_addrs off q xs" and "a \<noteq> chain_addr off e"
    and "p \<in> insert q (set xs)" and "n \<in> insert q (set xs)"
  shows "q_splice off q p e n m a = m a"
  using assms by (auto simp: q_splice_def ring_addrs_def queue_field_def set_next_def set_prev_def)

lemma q_unsplice_outside:
  assumes "a \<notin> ring_addrs off q xs" and "p \<in> insert q (set xs)" and "n \<in> insert q (set xs)"
  shows "q_unsplice off q p n m a = m a"
  using assms by (auto simp: q_unsplice_def ring_addrs_def queue_field_def set_next_def set_prev_def)

lemma queue_enter_outside:
  assumes "queue_rep off m q xs" and "queue_fresh off q xs e"
    and "a \<notin> ring_addrs off q (e # xs)"
  shows "queue_enter off q e m a = m a"
proof -
  have "q_splice off q (last (q # xs)) e q m a = m a"
    using assms(3) last_in_ring [OF refl, of q xs]
    by (intro q_splice_outside [where xs = xs]) (auto simp: ring_addrs_def)
  then show ?thesis using assms by (simp add: queue_enter_splice)
qed

lemma queue_remove_outside:
  assumes "queue_rep off m q xs" and "e \<in> set xs" and "a \<notin> ring_addrs off q xs"
  shows "queue_remove off q e m a = m a"
proof -
  from assms(2) obtain ys zs where xs: "xs = ys @ e # zs" using split_list by metis
  have "q_unsplice off q (last (q # ys)) (hd (zs @ [q])) m a = m a"
    using assms(3) xs last_in_ring [OF refl, of q ys] hd_in_ring [OF refl, of zs q]
    by (intro q_unsplice_outside [where xs = xs]) auto
  then show ?thesis using assms(1) xs by (simp add: queue_remove_unsplice)
qed

subsection \<open>The first-in first-out interface\<close>

definition enq_all :: "(ptr \<Rightarrow> ptr \<Rightarrow> 'm \<Rightarrow> 'm) \<Rightarrow> ptr \<Rightarrow> ptr list \<Rightarrow> 'm \<Rightarrow> 'm" where
  "enq_all enq q es m = fold (enq q) es m"

fun drain :: "(ptr \<Rightarrow> 'm \<Rightarrow> ptr option \<times> 'm) \<Rightarrow> nat \<Rightarrow> ptr \<Rightarrow> 'm \<Rightarrow> ptr list \<times> 'm" where
  "drain deq 0 q m = ([], m)"
| "drain deq (Suc n) q m =
    (case deq q m of
       (None, m') \<Rightarrow> ([], m')
     | (Some e, m') \<Rightarrow> (let (es, m'') = drain deq n q m' in (e # es, m'')))"

locale fifo_queue =
  fixes rep :: "'m \<Rightarrow> ptr \<Rightarrow> ptr list \<Rightarrow> bool"
    and fresh :: "ptr \<Rightarrow> ptr list \<Rightarrow> ptr \<Rightarrow> bool"
    and init :: "ptr \<Rightarrow> 'm \<Rightarrow> 'm"
    and enq :: "ptr \<Rightarrow> ptr \<Rightarrow> 'm \<Rightarrow> 'm"
    and deq :: "ptr \<Rightarrow> 'm \<Rightarrow> ptr option \<times> 'm"
  assumes rep_init: "rep (init q m) q []"
    and rep_enq: "rep m q xs \<Longrightarrow> fresh q xs e \<Longrightarrow> rep (enq q e m) q (xs @ [e])"
    and deq_Nil: "rep m q [] \<Longrightarrow> deq q m = (None, m)"
    and deq_Cons: "rep m q (x # xs) \<Longrightarrow> fst (deq q m) = Some x \<and> rep (snd (deq q m)) q xs"
    and fresh_append: "fresh q (xs @ ys) e \<longleftrightarrow> fresh q xs e \<and> e \<notin> set ys"
begin

lemma rep_enq_all:
  "rep m q xs \<Longrightarrow> distinct es \<Longrightarrow> \<forall>e\<in>set es. fresh q xs e \<Longrightarrow> rep (enq_all enq q es m) q (xs @ es)"
proof (induction es arbitrary: m xs)
  case (Cons e es)
  have "rep (enq q e m) q (xs @ [e])" using Cons.prems by (simp add: rep_enq)
  moreover have "\<forall>e'\<in>set es. fresh q (xs @ [e]) e'" using Cons.prems by (auto simp: fresh_append)
  ultimately have "rep (enq_all enq q es (enq q e m)) q ((xs @ [e]) @ es)"
    using Cons.prems by (intro Cons.IH) auto
  then show ?case by (simp add: enq_all_def)
qed (simp add: enq_all_def)

lemma drain_rep:
  "rep m q xs \<Longrightarrow> length xs \<le> n \<Longrightarrow> fst (drain deq n q m) = xs \<and> rep (snd (drain deq n q m)) q []"
proof (induction n arbitrary: m xs)
  case (Suc n)
  show ?case
  proof (cases xs)
    case Nil
    then show ?thesis using Suc.prems deq_Nil by simp
  next
    case (Cons x ys)
    then have d: "fst (deq q m) = Some x" "rep (snd (deq q m)) q ys" using Suc.prems deq_Cons by auto
    then have "fst (drain deq n q (snd (deq q m))) = ys \<and> rep (snd (drain deq n q (snd (deq q m)))) q []"
      using Suc.prems Cons by (intro Suc.IH) auto
    with d Cons show ?thesis by (cases "deq q m") (auto split: prod.splits)
  qed
qed simp

lemma fifo_order:
  assumes "distinct es" and "\<forall>e\<in>set es. fresh q [] e" and "length es \<le> n"
  shows "fst (drain deq n q (enq_all enq q es (init q m))) = es"
  using drain_rep [OF rep_enq_all [OF rep_init [of q m] assms(1,2)]] assms(3) by simp

end

text \<open>
  \<^verbatim>\<open>mpdequeue_head\<close> checks for an empty queue before it dequeues; with the macros
  the same guard precedes \<^verbatim>\<open>queue_remove_first\<close>.  The \<^verbatim>\<open>simple_lock\<close> around the
  multiprocessor variants is empty on a uniprocessor.
\<close>

definition mpqueue_init :: "ptr \<Rightarrow> qmem \<Rightarrow> qmem" where
  "mpqueue_init q m = queue_init q m"

definition mpenqueue_tail :: "ptr \<Rightarrow> ptr \<Rightarrow> qmem \<Rightarrow> qmem" where
  "mpenqueue_tail q elt m = enqueue_tail q elt m"

definition mpdequeue_head :: "ptr \<Rightarrow> qmem \<Rightarrow> ptr option \<times> qmem" where
  "mpdequeue_head q m = (if queue_empty m q then (None, m) else dequeue_head q m)"

definition guarded_remove_first :: "nat \<Rightarrow> ptr \<Rightarrow> qmem \<Rightarrow> ptr option \<times> qmem" where
  "guarded_remove_first off q m =
    (if queue_empty m q then (None, m)
     else let (e, m') = queue_remove_first off q m in (Some e, m'))"

interpretation mpq: fifo_queue "queue_rep 0" "queue_fresh 0" mpqueue_init mpenqueue_tail mpdequeue_head
proof (unfold_locales, goal_cases)
  case (4 m q x xs)
  then show ?case
    using dequeue_head_rep [of m q "x # xs"] queue_empty_rep [of 0 m q "x # xs"]
    by (simp add: mpdequeue_head_def)
qed (auto simp: mpqueue_init_def mpenqueue_tail_def mpdequeue_head_def queue_init_rep enqueue_tail_rep
      queue_empty_rep queue_fresh_def)

interpretation macroq: fifo_queue "queue_rep off" "queue_fresh off" queue_init
  "queue_enter off" "guarded_remove_first off"
proof (unfold_locales, goal_cases)
  case (4 m q x xs)
  then show ?case
    using queue_remove_first_rep [of off m q x xs] queue_empty_rep [of off m q "x # xs"]
    by (cases "queue_remove_first off q m") (simp add: guarded_remove_first_def)
qed (auto simp: guarded_remove_first_def queue_init_rep queue_enter_rep queue_empty_rep queue_fresh_def)

subsection \<open>Properties\<close>

text \<open>The queue package is first-in first-out.  Whatever memory held before, after a
  queue is initialised and distinct elements (whose chain fields do not overlap the head) are
  put on it, taking them off again returns exactly those elements in the order they went on,
  both for \<^verbatim>\<open>queue_enter\<close>/\<^verbatim>\<open>queue_remove_first\<close> and for the
  \<^verbatim>\<open>mpenqueue_tail\<close>/\<^verbatim>\<open>mpdequeue_head\<close> pair built on \<^verbatim>\<open>queue.c\<close>.\<close>

lemma queue_fifo:
  assumes "distinct es" and "\<forall>e\<in>set es. e \<noteq> q \<and> chain_addr off e \<noteq> q"
  shows "fst (drain (guarded_remove_first off) (length es) q
           (enq_all (queue_enter off) q es (queue_init q m))) = es \<and>
         fst (drain mpdequeue_head (length es) q
           (enq_all mpenqueue_tail q es (mpqueue_init q m))) = es"
  using macroq.fifo_order [of es off q "length es" m] mpq.fifo_order [of es q "length es" m] assms
  by (auto simp: queue_fresh_def)

text \<open>C28: Every macro of \<^verbatim>\<open>queue.h\<close> refines the list operation it stands for: on a
  well-formed ring holding \<open>xs\<close>, entering a fresh element appends or prepends it, removing
  an element deletes exactly that element, the first and last element are removed by
  \<^verbatim>\<open>queue_remove_first\<close> and \<^verbatim>\<open>queue_remove_last\<close>, the emptiness test and the
  accessors read the list, and assigning a non-empty queue to a new head moves the whole list.\<close>

theorem queue_macros_refine:
  assumes rep: "queue_rep off m q xs"
  shows "(queue_fresh off q xs e \<longrightarrow> queue_rep off (queue_enter off q e m) q (xs @ [e]) \<and>
           queue_rep off (queue_enter_first off q e m) q (e # xs)) \<and>
     (x \<in> set xs \<longrightarrow> queue_rep off (queue_remove off q x m) q (remove1 x xs)) \<and>
     (xs \<noteq> [] \<longrightarrow>
        fst (queue_remove_first off q m) = hd xs \<and>
        queue_rep off (snd (queue_remove_first off q m)) q (tl xs) \<and>
        fst (queue_remove_last off q m) = last xs \<and>
        queue_rep off (snd (queue_remove_last off q m)) q (butlast xs)) \<and>
     queue_empty m q = (xs = []) \<and> queue_first m q = hd (xs @ [q]) \<and> queue_last m q = last (q # xs) \<and>
     (i < length xs \<longrightarrow>
        queue_next m (chain_addr off (xs ! i)) = (xs @ [q]) ! Suc i \<and>
        queue_prev m (chain_addr off (xs ! i)) = (q # xs) ! i) \<and>
     (xs \<noteq> [] \<longrightarrow> to \<notin> set xs \<longrightarrow> to \<notin> chain_addr off ` set xs \<longrightarrow>
        queue_rep off (queue_assign off to q m) to xs)"
  using queue_enter_rep [OF rep] queue_enter_first_rep [OF rep] queue_remove_rep [OF rep]
    queue_remove_first_rep [of off m q "hd xs" "tl xs"] queue_remove_last_rep [of off m q "butlast xs" "last xs"]
    queue_empty_rep [OF rep] queue_first_rep(1) [OF rep] queue_last_rep(1) [OF rep]
    queue_links_rep [OF rep] queue_assign_rep [OF rep] rep
  by (intro conjI impI) simp_all

theorem queue_macros_refine_witness:
  "queue_rep 4 (queue_enter 4 100 8 (queue_init 100 (\<lambda>_. \<lparr>qe_next = 0, qe_prev = 0\<rparr>))) 100 [8]"
  using queue_macros_refine [OF queue_init_rep, of 4 100 8]
  by (simp add: queue_fresh_def chain_addr_def)

text \<open>C29: Every routine of \<^verbatim>\<open>queue.c\<close> refines the list operation it stands for, on every
  branch: enqueuing at head or tail, dequeuing at either end (a null result exactly for the empty
  queue, which is then unchanged), removing an element from the middle, and the VAX-style
  \<^verbatim>\<open>insque\<close> and \<^verbatim>\<open>remque\<close>.\<close>

theorem queue_routines_refine:
  assumes rep: "queue_rep 0 m q (xs @ ys)"
  shows "(queue_fresh 0 q (xs @ ys) e \<longrightarrow>
        queue_rep 0 (enqueue_head q e m) q (e # xs @ ys) \<and>
        queue_rep 0 (enqueue_tail q e m) q (xs @ ys @ [e]) \<and>
        queue_rep 0 (insque e (last (q # xs)) m) q (xs @ e # ys)) \<and>
     (xs @ ys = [] \<longrightarrow> dequeue_head q m = (None, m) \<and> dequeue_tail q m = (None, m)) \<and>
     (xs @ ys \<noteq> [] \<longrightarrow>
        fst (dequeue_head q m) = Some (hd (xs @ ys)) \<and>
        queue_rep 0 (snd (dequeue_head q m)) q (tl (xs @ ys)) \<and>
        fst (dequeue_tail q m) = Some (last (xs @ ys)) \<and>
        queue_rep 0 (snd (dequeue_tail q m)) q (butlast (xs @ ys))) \<and>
     (x \<in> set (xs @ ys) \<longrightarrow>
        queue_rep 0 (remqueue q x m) q (remove1 x (xs @ ys)) \<and> fst (remque x m) = x \<and>
        queue_rep 0 (snd (remque x m)) q (remove1 x (xs @ ys)))"
  using enqueue_head_rep [OF rep] enqueue_tail_rep [OF rep] insque_rep [OF rep _ refl]
    dequeue_head_rep [OF rep] dequeue_tail_rep [OF rep] remqueue_rep [OF rep] remque_rep [OF rep]
  by (intro conjI impI) (simp_all split: list.splits if_splits)

theorem queue_routines_refine_witness:
  "queue_rep 0 (insque 8 100 (queue_init 100 (\<lambda>_. \<lparr>qe_next = 0, qe_prev = 0\<rparr>))) 100 [8]"
  using queue_routines_refine [of _ 100 "[]" "[]" 8] queue_init_rep [of 0 100 "\<lambda>_. \<lparr>qe_next = 0, qe_prev = 0\<rparr>"]
  by (simp add: queue_fresh_def)

text \<open>C35: Queues are separate: entering an element on one queue, or removing one from it,
  leaves every other queue exactly as it was, provided the two rings (and the entered element's
  chain field) occupy different memory.\<close>

theorem queue_separation:
  assumes "queue_rep off m q xs" and "queue_rep off' m r ys"
    and "ring_addrs off q (e # xs) \<inter> ring_addrs off' r ys = {}"
  shows "(queue_fresh off q xs e \<longrightarrow> queue_rep off' (queue_enter off q e m) r ys) \<and>
    (x \<in> set xs \<longrightarrow> queue_rep off' (queue_remove off q x m) r ys)"
proof -
  have "ring_addrs off q xs \<subseteq> ring_addrs off q (e # xs)" by (auto simp: ring_addrs_def)
  then have sep: "a \<notin> ring_addrs off q (e # xs) \<and> a \<notin> ring_addrs off q xs"
    if "a \<in> ring_addrs off' r ys" for a
    using that assms(3) by blast
  have "queue_rep off' (queue_enter off q e m) r ys" if "queue_fresh off q xs e"
    using queue_enter_outside [OF assms(1) that] sep by (intro queue_rep_frame [OF assms(2)]) blast
  moreover have "queue_rep off' (queue_remove off q x m) r ys" if "x \<in> set xs"
    using queue_remove_outside [OF assms(1) that] sep by (intro queue_rep_frame [OF assms(2)]) blast
  ultimately show ?thesis by blast
qed

theorem queue_separation_witness:
  "let m = queue_init 200 (queue_init 100 (\<lambda>_. \<lparr>qe_next = 0, qe_prev = 0\<rparr>))
   in queue_rep 4 (queue_enter 4 100 8 m) 200 []"
proof -
  let ?m = "queue_init 200 (queue_init 100 (\<lambda>_. \<lparr>qe_next = 0, qe_prev = 0\<rparr>))"
  have "queue_rep 4 ?m 100 []"
    by (rule queue_rep_frame [OF queue_init_rep [of 4 100]])
      (simp add: ring_addrs_def queue_init_def set_next_def set_prev_def)
  from queue_separation [OF this queue_init_rep [of 4 200], of 8]
  show ?thesis by (simp add: Let_def queue_fresh_def chain_addr_def ring_addrs_def)
qed

end
