(* ===== verification/Lock.thy ===== *)
theory Lock
  imports Prelude
begin

text \<open>
  The reader/writer sleep locks of \<^verbatim>\<open>kern/lock.c\<close>, with the structure layout of
  \<^verbatim>\<open>kern/lock.h\<close> (16-bit \<^verbatim>\<open>read_count\<close>, 12-bit \<^verbatim>\<open>recursion_depth\<close>).

  The kernel runs on one processor: \<^verbatim>\<open>NCPUS == 1\<close>, so \<^verbatim>\<open>lock_wait_time\<close> is 0 and the
  inner spin loops are never entered, and without \<^verbatim>\<open>MACH_LDEBUG\<close> the interlock macros are
  empty.  Between two calls of \<^verbatim>\<open>thread_sleep\<close> a routine therefore runs without
  interference; each such segment is one function from the lock to the lock and a result that
  says whether the routine returned, went to sleep or keeps spinning, and at which loop.  The
  waiting loops are entered again at their test after a wakeup, as in the C code.  A step
  relation interleaves the segments of any number of threads; ghost fields record which thread
  holds the lock and how.  The debugging simple locks (\<^verbatim>\<open>MACH_LDEBUG\<close>) are modelled on
  their own.
\<close>

type_synonym tid = nat

record lock =
  read_count :: u16
  want_upgrade :: bool
  want_write :: bool
  waiting :: bool
  can_sleep :: bool
  recursion_depth :: u12
  lk_thread :: "tid option"   \<comment> \<open>\<^verbatim>\<open>(char *)-1\<close> is \<open>None\<close>\<close>

text \<open>The loops a routine can be waiting in.\<close>

datatype lpoint =
    PW1   \<comment> \<open>\<^verbatim>\<open>lock_write\<close>, for the \<^verbatim>\<open>want_write\<close> bit\<close>
  | PW2   \<comment> \<open>\<^verbatim>\<open>lock_write\<close>, for readers and upgrades to finish\<close>
  | PR    \<comment> \<open>\<^verbatim>\<open>lock_read\<close>\<close>
  | PU    \<comment> \<open>\<^verbatim>\<open>lock_read_to_write\<close>\<close>
  | PTU   \<comment> \<open>\<^verbatim>\<open>lock_try_read_to_write\<close>\<close>

datatype lres =
    Got             \<comment> \<open>returned with the lock\<close>
  | GotRec          \<comment> \<open>returned through the recursive case\<close>
  | Refused         \<comment> \<open>returned without the lock\<close>
  | Sleep lpoint    \<comment> \<open>called \<^verbatim>\<open>thread_sleep\<close> in this loop\<close>
  | Spin lpoint     \<comment> \<open>goes round this loop again\<close>

definition lock_init :: "bool \<Rightarrow> lock" where
  "lock_init cs = \<lparr>read_count = 0, want_upgrade = False, want_write = False, waiting = False,
     can_sleep = cs, recursion_depth = 0, lk_thread = None\<rparr>"

definition lock_sleepable :: "bool \<Rightarrow> lock \<Rightarrow> lock" where
  "lock_sleepable cs l = l\<lparr>can_sleep := cs\<rparr>"

definition lock_write_loop2 :: "lock \<Rightarrow> lock \<times> lres" where
  "lock_write_loop2 l =
    (if read_count l \<noteq> 0 \<or> want_upgrade l then
       (if can_sleep l then (l\<lparr>waiting := True\<rparr>, Sleep PW2) else (l, Spin PW2))
     else (l, Got))"

definition lock_write_loop1 :: "lock \<Rightarrow> lock \<times> lres" where
  "lock_write_loop1 l =
    (if want_write l then
       (if can_sleep l then (l\<lparr>waiting := True\<rparr>, Sleep PW1) else (l, Spin PW1))
     else lock_write_loop2 (l\<lparr>want_write := True\<rparr>))"

definition lock_write :: "tid \<Rightarrow> lock \<Rightarrow> lock \<times> lres" where
  "lock_write cur l =
    (if lk_thread l = Some cur then (l\<lparr>recursion_depth := recursion_depth l + 1\<rparr>, GotRec)
     else lock_write_loop1 l)"

text \<open>The boolean says whether \<^verbatim>\<open>thread_wakeup((int) l)\<close> is called.\<close>

definition lock_wake :: "lock \<Rightarrow> lock \<times> bool" where
  "lock_wake l = (if waiting l then (l\<lparr>waiting := False\<rparr>, True) else (l, False))"

definition lock_done :: "lock \<Rightarrow> lock \<times> bool" where
  "lock_done l =
    lock_wake
      (if read_count l \<noteq> 0 then l\<lparr>read_count := read_count l - 1\<rparr>
       else if recursion_depth l \<noteq> 0 then l\<lparr>recursion_depth := recursion_depth l - 1\<rparr>
       else if want_upgrade l then l\<lparr>want_upgrade := False\<rparr>
       else l\<lparr>want_write := False\<rparr>)"

definition lock_read_loop :: "lock \<Rightarrow> lock \<times> lres" where
  "lock_read_loop l =
    (if want_write l \<or> want_upgrade l then
       (if can_sleep l then (l\<lparr>waiting := True\<rparr>, Sleep PR) else (l, Spin PR))
     else (l\<lparr>read_count := read_count l + 1\<rparr>, Got))"

definition lock_read :: "tid \<Rightarrow> lock \<Rightarrow> lock \<times> lres" where
  "lock_read cur l =
    (if lk_thread l = Some cur then (l\<lparr>read_count := read_count l + 1\<rparr>, GotRec)
     else lock_read_loop l)"

definition lock_upgrade_loop :: "lock \<Rightarrow> lock \<times> lres" where
  "lock_upgrade_loop l =
    (if read_count l \<noteq> 0 then
       (if can_sleep l then (l\<lparr>waiting := True\<rparr>, Sleep PU) else (l, Spin PU))
     else (l, Got))"

text \<open>
  The C routine returns \<^verbatim>\<open>TRUE\<close> when the upgrade failed (here \<open>Refused\<close>, with the wakeup
  flag) and \<^verbatim>\<open>FALSE\<close> when it succeeded.
\<close>

definition lock_read_to_write :: "tid \<Rightarrow> lock \<Rightarrow> (lock \<times> lres \<times> bool) kresult" where
  "lock_read_to_write cur l =
    (if read_count l = 0 then Inl ''lock upgrade w/o read lock''
     else let l = l\<lparr>read_count := read_count l - 1\<rparr> in
       if lk_thread l = Some cur then Inr (l\<lparr>recursion_depth := recursion_depth l + 1\<rparr>, GotRec, False)
       else if want_upgrade l then (let (l, w) = lock_wake l in Inr (l, Refused, w))
       else (let (l, r) = lock_upgrade_loop (l\<lparr>want_upgrade := True\<rparr>) in Inr (l, r, False)))"

definition lock_write_to_read :: "lock \<Rightarrow> lock \<times> bool" where
  "lock_write_to_read l =
    (let l = l\<lparr>read_count := read_count l + 1\<rparr> in
     lock_wake
      (if recursion_depth l \<noteq> 0 then l\<lparr>recursion_depth := recursion_depth l - 1\<rparr>
       else if want_upgrade l then l\<lparr>want_upgrade := False\<rparr>
       else l\<lparr>want_write := False\<rparr>))"

definition lock_try_write :: "tid \<Rightarrow> lock \<Rightarrow> lock \<times> lres" where
  "lock_try_write cur l =
    (if lk_thread l = Some cur then (l\<lparr>recursion_depth := recursion_depth l + 1\<rparr>, GotRec)
     else if want_write l \<or> want_upgrade l \<or> read_count l \<noteq> 0 then (l, Refused)
     else (l\<lparr>want_write := True\<rparr>, Got))"

definition lock_try_read :: "tid \<Rightarrow> lock \<Rightarrow> lock \<times> lres" where
  "lock_try_read cur l =
    (if lk_thread l = Some cur then (l\<lparr>read_count := read_count l + 1\<rparr>, GotRec)
     else if want_write l \<or> want_upgrade l then (l, Refused)
     else (l\<lparr>read_count := read_count l + 1\<rparr>, Got))"

text \<open>This loop sleeps whether or not the lock was declared sleepable.\<close>

definition lock_try_upgrade_loop :: "lock \<Rightarrow> lock \<times> lres" where
  "lock_try_upgrade_loop l =
    (if read_count l \<noteq> 0 then (l\<lparr>waiting := True\<rparr>, Sleep PTU) else (l, Got))"

definition lock_try_read_to_write :: "tid \<Rightarrow> lock \<Rightarrow> (lock \<times> lres) kresult" where
  "lock_try_read_to_write cur l =
    (if lk_thread l = Some cur then
       (if read_count l = 0 then Inl ''lock upgrade w/o read lock''
        else Inr (l\<lparr>read_count := read_count l - 1, recursion_depth := recursion_depth l + 1\<rparr>, GotRec))
     else if want_upgrade l then Inr (l, Refused)
     else let l = l\<lparr>want_upgrade := True\<rparr> in
       if read_count l = 0 then Inl ''lock upgrade w/o read lock''
       else Inr (lock_try_upgrade_loop (l\<lparr>read_count := read_count l - 1\<rparr>)))"

definition lock_set_recursive :: "tid \<Rightarrow> lock \<Rightarrow> lock kresult" where
  "lock_set_recursive cur l =
    (if \<not> want_write l then Inl (''lock_set_recursive: don'' @ CHR 0x27 # ''t have write lock'')
     else Inr (l\<lparr>lk_thread := Some cur\<rparr>))"

definition lock_clear_recursive :: "tid \<Rightarrow> lock \<Rightarrow> lock kresult" where
  "lock_clear_recursive cur l =
    (if lk_thread l \<noteq> Some cur then Inl ''lock_clear_recursive: wrong thread''
     else if recursion_depth l = 0 then Inr (l\<lparr>lk_thread := None\<rparr>) else Inr l)"

lemmas lock_defs =
  lock_write_loop2_def lock_write_loop1_def lock_write_def lock_wake_def lock_done_def
  lock_read_loop_def lock_read_def lock_upgrade_loop_def lock_read_to_write_def
  lock_write_to_read_def lock_try_write_def lock_try_read_def lock_try_upgrade_loop_def
  lock_try_read_to_write_def lock_set_recursive_def lock_clear_recursive_def lock_sleepable_def

subsection \<open>Interleaving: threads, wakeups and who holds the lock\<close>

datatype lpc = Run | Asleep lpoint | Ready lpoint

datatype wkind = ByWrite | ByUpgrade

record lsys =
  lk :: lock
  lpcs :: "tid \<Rightarrow> lpc"
  readers :: "tid list"                 \<comment> \<open>one entry per read hold\<close>
  writers :: "(tid \<times> wkind) list"       \<comment> \<open>one entry per write hold\<close>
  recs :: "tid list"                    \<comment> \<open>one entry per recursive write hold\<close>

text \<open>Where a thread is after a segment with result \<open>r\<close>.\<close>

fun next_pc :: "lres \<Rightarrow> lpc" where
  "next_pc (Sleep p) = Asleep p"
| "next_pc (Spin p) = Ready p"
| "next_pc _ = Run"

text \<open>\<^verbatim>\<open>thread_wakeup\<close> makes every thread that sleeps on the lock runnable.\<close>

fun wake_pc :: "lpc \<Rightarrow> lpc" where
  "wake_pc (Asleep p) = Ready p"
| "wake_pc c = c"

definition wake_all :: "bool \<Rightarrow> lsys \<Rightarrow> lsys" where
  "wake_all w s = (if w then s\<lparr>lpcs := \<lambda>t. wake_pc (lpcs s t)\<rparr> else s)"

definition after :: "tid \<Rightarrow> lock \<Rightarrow> lres \<Rightarrow> lsys \<Rightarrow> lsys" where
  "after t l r s = s\<lparr>lk := l, lpcs := (lpcs s)(t := next_pc r)\<rparr>"

definition grant_write :: "tid \<Rightarrow> wkind \<Rightarrow> lres \<Rightarrow> lsys \<Rightarrow> lsys" where
  "grant_write t k r s =
    (if r = Got then s\<lparr>writers := (t, k) # writers s\<rparr>
     else if r = GotRec then s\<lparr>recs := t # recs s\<rparr> else s)"

definition grant_read :: "tid \<Rightarrow> lres \<Rightarrow> lsys \<Rightarrow> lsys" where
  "grant_read t r s = (if r = Got \<or> r = GotRec then s\<lparr>readers := t # readers s\<rparr> else s)"

definition drop_read :: "tid \<Rightarrow> lsys \<Rightarrow> lsys" where
  "drop_read t s = s\<lparr>readers := remove1 t (readers s)\<rparr>"

definition drop_write :: "tid \<Rightarrow> lsys \<Rightarrow> lsys" where
  "drop_write t s =
    (if recs s \<noteq> [] then s\<lparr>recs := tl (recs s)\<rparr>
     else s\<lparr>writers := filter (\<lambda>(u, k). u \<noteq> t) (writers s)\<rparr>)"

definition is_writer :: "lsys \<Rightarrow> tid \<Rightarrow> bool" where
  "is_writer s t \<longleftrightarrow> t \<in> fst ` set (writers s)"

text \<open>
  The steps.  The premises beside the program counter are the discipline the lock package asks
  of its clients: only a holder releases, upgrades or downgrades; recursive use is cleared before
  the write lock itself is given up; and there is room in the bit-fields.
\<close>

inductive lock_step :: "lsys \<Rightarrow> lsys \<Rightarrow> bool" where
  call_write: "lpcs s t = Run \<Longrightarrow> length (recs s) < 4095 \<Longrightarrow> lock_write t (lk s) = (l, r) \<Longrightarrow>
    lock_step s (grant_write t ByWrite r (after t l r s))"
| again_W1: "lpcs s t = Ready PW1 \<Longrightarrow> lock_write_loop1 (lk s) = (l, r) \<Longrightarrow>
    lock_step s (grant_write t ByWrite r (after t l r s))"
| again_W2: "lpcs s t = Ready PW2 \<Longrightarrow> lock_write_loop2 (lk s) = (l, r) \<Longrightarrow>
    lock_step s (grant_write t ByWrite r (after t l r s))"
| call_read: "lpcs s t = Run \<Longrightarrow> length (readers s) < 65535 \<Longrightarrow> lock_read t (lk s) = (l, r) \<Longrightarrow>
    lock_step s (grant_read t r (after t l r s))"
| again_R: "lpcs s t = Ready PR \<Longrightarrow> length (readers s) < 65535 \<Longrightarrow> lock_read_loop (lk s) = (l, r) \<Longrightarrow>
    lock_step s (grant_read t r (after t l r s))"
| call_upgrade: "lpcs s t = Run \<Longrightarrow> t \<in> set (readers s) \<Longrightarrow> (is_writer s t \<longrightarrow> lk_thread (lk s) = Some t) \<Longrightarrow>
    length (recs s) < 4095 \<Longrightarrow> lock_read_to_write t (lk s) = Inr (l, r, w) \<Longrightarrow>
    lock_step s (wake_all w (grant_write t ByUpgrade r (drop_read t (after t l r s))))"
| again_U: "lpcs s t = Ready PU \<Longrightarrow> lock_upgrade_loop (lk s) = (l, r) \<Longrightarrow>
    lock_step s (grant_write t ByUpgrade r (after t l r s))"
| try_write: "lpcs s t = Run \<Longrightarrow> length (recs s) < 4095 \<Longrightarrow> lock_try_write t (lk s) = (l, r) \<Longrightarrow>
    lock_step s (grant_write t ByWrite r (after t l r s))"
| try_read: "lpcs s t = Run \<Longrightarrow> length (readers s) < 65535 \<Longrightarrow> lock_try_read t (lk s) = (l, r) \<Longrightarrow>
    lock_step s (grant_read t r (after t l r s))"
| try_upgrade: "lpcs s t = Run \<Longrightarrow> t \<in> set (readers s) \<Longrightarrow> (is_writer s t \<longrightarrow> lk_thread (lk s) = Some t) \<Longrightarrow>
    length (recs s) < 4095 \<Longrightarrow> lock_try_read_to_write t (lk s) = Inr (l, r) \<Longrightarrow>
    lock_step s (grant_write t ByUpgrade r
      (if r = Refused then after t l r s else drop_read t (after t l r s)))"
| again_TU: "lpcs s t = Ready PTU \<Longrightarrow> lock_try_upgrade_loop (lk s) = (l, r) \<Longrightarrow>
    lock_step s (grant_write t ByUpgrade r (after t l r s))"
| release_read: "lpcs s t = Run \<Longrightarrow> t \<in> set (readers s) \<Longrightarrow> lock_done (lk s) = (l, w) \<Longrightarrow>
    lock_step s (wake_all w (drop_read t (after t l Got s)))"
| release_write: "lpcs s t = Run \<Longrightarrow> t \<notin> set (readers s) \<Longrightarrow> is_writer s t \<Longrightarrow>
    (recs s = [] \<longrightarrow> lk_thread (lk s) \<noteq> Some t) \<Longrightarrow> lock_done (lk s) = (l, w) \<Longrightarrow>
    lock_step s (wake_all w (drop_write t (after t l Got s)))"
| downgrade: "lpcs s t = Run \<Longrightarrow> is_writer s t \<Longrightarrow> length (readers s) < 65535 \<Longrightarrow>
    (recs s = [] \<longrightarrow> lk_thread (lk s) \<noteq> Some t) \<Longrightarrow> lock_write_to_read (lk s) = (l, w) \<Longrightarrow>
    lock_step s (wake_all w (grant_read t Got (drop_write t (after t l Got s))))"
| set_recursive: "lpcs s t = Run \<Longrightarrow> is_writer s t \<Longrightarrow> lock_set_recursive t (lk s) = Inr l \<Longrightarrow>
    lock_step s (after t l Got s)"
| clear_recursive: "lpcs s t = Run \<Longrightarrow> lock_clear_recursive t (lk s) = Inr l \<Longrightarrow>
    lock_step s (after t l Got s)"
| sleepable: "lpcs s t = Run \<Longrightarrow> lock_step s (after t (lock_sleepable cs (lk s)) Got s)"

definition lsys_init :: "bool \<Rightarrow> lsys" where
  "lsys_init cs = \<lparr>lk = lock_init cs, lpcs = (\<lambda>_. Run), readers = [], writers = [], recs = []\<rparr>"

inductive lock_reach :: "lsys \<Rightarrow> bool" where
  init: "lock_reach (lsys_init cs)"
| step: "lock_reach s \<Longrightarrow> lock_step s s' \<Longrightarrow> lock_reach s'"

subsection \<open>The invariant\<close>

text \<open>The condition a loop waits on.\<close>

fun wait_cond :: "lpoint \<Rightarrow> lock \<Rightarrow> bool" where
  "wait_cond PW1 l = want_write l"
| "wait_cond PW2 l = (read_count l \<noteq> 0 \<or> want_upgrade l)"
| "wait_cond PR l = (want_write l \<or> want_upgrade l)"
| "wait_cond PU l = (read_count l \<noteq> 0)"
| "wait_cond PTU l = (read_count l \<noteq> 0)"

fun at_point :: "lpc \<Rightarrow> lpoint option" where
  "at_point Run = None"
| "at_point (Asleep p) = Some p"
| "at_point (Ready p) = Some p"

definition pend_up :: "lsys \<Rightarrow> tid \<Rightarrow> bool" where
  "pend_up s t \<longleftrightarrow> at_point (lpcs s t) \<in> {Some PU, Some PTU}"

definition pend_wr :: "lsys \<Rightarrow> tid \<Rightarrow> bool" where
  "pend_wr s t \<longleftrightarrow> at_point (lpcs s t) = Some PW2"

text \<open>Counters agree with the holds recorded.\<close>

definition inv_counts :: "lsys \<Rightarrow> bool" where
  "inv_counts s \<longleftrightarrow>
     unat (read_count (lk s)) = length (readers s) \<and> unat (recursion_depth (lk s)) = length (recs s)"

text \<open>The upgrade bit is owned by exactly one pending or successful upgrader.\<close>

definition up_ok :: "bool \<Rightarrow> (tid \<Rightarrow> bool) \<Rightarrow> (tid \<times> wkind) list \<Rightarrow> bool" where
  "up_ok b pend ws \<longleftrightarrow>
     (if b
      then (\<exists>t. \<forall>u. pend u \<longleftrightarrow> u = t) \<and> ByUpgrade \<notin> snd ` set ws \<or>
           (\<forall>u. \<not> pend u) \<and> (\<exists>t. ws = [(t, ByUpgrade)])
      else (\<forall>u. \<not> pend u) \<and> ByUpgrade \<notin> snd ` set ws)"

definition inv_upgrade :: "lsys \<Rightarrow> bool" where
  "inv_upgrade s \<longleftrightarrow> up_ok (want_upgrade (lk s)) (pend_up s) (writers s)"

text \<open>The write bit is owned by exactly one pending or successful writer, and a
  successful one shares the lock with no upgrader.\<close>

definition wr_ok :: "bool \<Rightarrow> bool \<Rightarrow> (tid \<Rightarrow> bool) \<Rightarrow> (tid \<times> wkind) list \<Rightarrow> bool" where
  "wr_ok b up pend ws \<longleftrightarrow>
     (if b
      then (\<exists>t. \<forall>u. pend u \<longleftrightarrow> u = t) \<and> ByWrite \<notin> snd ` set ws \<or>
           (\<forall>u. \<not> pend u) \<and> (\<exists>t. ws = [(t, ByWrite)]) \<and> \<not> up
      else (\<forall>u. \<not> pend u) \<and> ByWrite \<notin> snd ` set ws)"

definition inv_write :: "lsys \<Rightarrow> bool" where
  "inv_write s \<longleftrightarrow> wr_ok (want_write (lk s)) (want_upgrade (lk s)) (pend_wr s) (writers s)"

text \<open>Exclusion, and recursive use belongs to the writer.\<close>

definition inv_excl :: "lsys \<Rightarrow> bool" where
  "inv_excl s \<longleftrightarrow>
     length (writers s) \<le> 1 \<and>
     (\<forall>t k. (t, k) \<in> set (writers s) \<longrightarrow> set (readers s) \<subseteq> {t}) \<and>
     (\<forall>t. lk_thread (lk s) = Some t \<longrightarrow> is_writer s t) \<and>
     (\<forall>t \<in> set (recs s). lk_thread (lk s) = Some t)"

text \<open>Nobody sleeps on a condition that no longer holds, and sleepers are announced.\<close>

definition inv_sleep :: "lsys \<Rightarrow> bool" where
  "inv_sleep s \<longleftrightarrow> (\<forall>t p. lpcs s t = Asleep p \<longrightarrow> waiting (lk s) \<and> wait_cond p (lk s))"

definition lock_inv :: "lsys \<Rightarrow> bool" where
  "lock_inv s \<longleftrightarrow> inv_counts s \<and> inv_upgrade s \<and> inv_write s \<and> inv_excl s \<and> inv_sleep s"

subsection \<open>Effects of a step on the invariant\<close>

lemma after_simps [simp]:
  "lk (after t l r s) = l" "readers (after t l r s) = readers s" "writers (after t l r s) = writers s"
  "recs (after t l r s) = recs s" "lpcs (after t l r s) = (lpcs s)(t := next_pc r)"
  by (simp_all add: after_def)

lemma grant_write_simps [simp]:
  "lk (grant_write t k r s) = lk s" "readers (grant_write t k r s) = readers s"
  "writers (grant_write t k r s) = (if r = Got then (t, k) # writers s else writers s)"
  "recs (grant_write t k r s) = (if r = GotRec then t # recs s else recs s)"
  "lpcs (grant_write t k r s) = lpcs s"
  by (simp_all add: grant_write_def)

lemma grant_read_simps [simp]:
  "lk (grant_read t r s) = lk s" "writers (grant_read t r s) = writers s" "recs (grant_read t r s) = recs s"
  "readers (grant_read t r s) = (if r = Got \<or> r = GotRec then t # readers s else readers s)"
  "lpcs (grant_read t r s) = lpcs s"
  by (simp_all add: grant_read_def)

lemma drop_read_simps [simp]:
  "lk (drop_read t s) = lk s" "writers (drop_read t s) = writers s" "recs (drop_read t s) = recs s"
  "readers (drop_read t s) = remove1 t (readers s)" "lpcs (drop_read t s) = lpcs s"
  by (simp_all add: drop_read_def)

lemma drop_write_simps [simp]:
  "lk (drop_write t s) = lk s" "readers (drop_write t s) = readers s" "lpcs (drop_write t s) = lpcs s"
  "recs (drop_write t s) = tl (recs s)"
  "writers (drop_write t s) = (if recs s \<noteq> [] then writers s else filter (\<lambda>(u, k). u \<noteq> t) (writers s))"
  by (simp_all add: drop_write_def)

lemma wake_all_simps [simp]:
  "lk (wake_all w s) = lk s" "readers (wake_all w s) = readers s" "writers (wake_all w s) = writers s"
  "recs (wake_all w s) = recs s"
  by (simp_all add: wake_all_def)

lemma wake_at [simp]: "at_point (wake_pc c) = at_point c" by (cases c) auto
lemma wake_not_asleep [simp]: "wake_pc c \<noteq> Asleep p" by (cases c) auto

fun res_point :: "lres \<Rightarrow> lpoint option" where
  "res_point (Sleep p) = Some p" | "res_point (Spin p) = Some p" | "res_point _ = None"

lemma at_next_pc [simp]: "at_point (next_pc r) = res_point r" by (cases r) auto

lemma pend_after:
  "pend_up (after t l r s) = (pend_up s)(t := res_point r \<in> {Some PU, Some PTU})"
  "pend_wr (after t l r s) = (pend_wr s)(t := (res_point r = Some PW2))"
  by (auto simp: pend_up_def pend_wr_def fun_eq_iff)

lemma pend_simps [simp]:
  "pend_up (grant_write t k r s) = pend_up s" "pend_wr (grant_write t k r s) = pend_wr s"
  "pend_up (grant_read t r s) = pend_up s" "pend_wr (grant_read t r s) = pend_wr s"
  "pend_up (drop_read t s) = pend_up s" "pend_wr (drop_read t s) = pend_wr s"
  "pend_up (drop_write t s) = pend_up s" "pend_wr (drop_write t s) = pend_wr s"
  "pend_up (wake_all w s) = pend_up s" "pend_wr (wake_all w s) = pend_wr s"
  by (auto simp: pend_up_def pend_wr_def wake_all_def fun_eq_iff)

lemma pend_run: "lpcs s t = Run \<Longrightarrow> \<not> pend_up s t \<and> \<not> pend_wr s t"
  by (simp add: pend_up_def pend_wr_def)

lemma is_writer_simps [simp]:
  "is_writer (after t l r s) u = is_writer s u" "is_writer (drop_read t s) u = is_writer s u"
  "is_writer (grant_read t r s) u = is_writer s u" "is_writer (wake_all w s) u = is_writer s u"
  "is_writer (grant_write t k r s) u = (is_writer s u \<or> r = Got \<and> u = t)"
  by (auto simp: is_writer_def)


lemma pend_same:
  "(res_point r \<in> {Some PU, Some PTU} \<longleftrightarrow> pend_up s t) \<Longrightarrow> pend_up (after t l r s) = pend_up s"
  "(res_point r = Some PW2 \<longleftrightarrow> pend_wr s t) \<Longrightarrow> pend_wr (after t l r s) = pend_wr s"
  by (simp_all only: pend_after fun_upd_idem)

lemma no_writers: "ByUpgrade \<notin> snd ` set ws \<Longrightarrow> ByWrite \<notin> snd ` set ws \<Longrightarrow> ws = []"
  by (cases ws) (auto, metis wkind.exhaust)

lemma quiet:
  assumes "lock_inv s" and "\<not> want_upgrade (lk s)" and "\<not> want_write (lk s) \<or> pend_wr s t"
  shows "writers s = []" and "recs s = []" and "lk_thread (lk s) = None" and "\<not> pend_up s u"
proof -
  show w: "writers s = []"
    using assms by (intro no_writers) (auto simp: lock_inv_def inv_upgrade_def inv_write_def up_ok_def wr_ok_def split: if_splits)
  show th: "lk_thread (lk s) = None"
    using w assms(1) by (cases "lk_thread (lk s)") (auto simp: lock_inv_def inv_excl_def is_writer_def)
  show "recs s = []" using th assms(1) by (cases "recs s") (auto simp: lock_inv_def inv_excl_def)
  show "\<not> pend_up s u" using assms by (auto simp: lock_inv_def inv_upgrade_def up_ok_def)
qed

lemma quiet_up:
  assumes "lock_inv s" and "pend_up s t"
  shows "writers s = []" and "recs s = []" and "lk_thread (lk s) = None" and "want_upgrade (lk s)"
proof -
  show up: "want_upgrade (lk s)" using assms by (auto simp: lock_inv_def inv_upgrade_def up_ok_def split: if_splits)
  show w: "writers s = []"
    using assms up by (intro no_writers) (auto simp: lock_inv_def inv_upgrade_def inv_write_def up_ok_def wr_ok_def split: if_splits)
  show th: "lk_thread (lk s) = None"
    using w assms(1) by (cases "lk_thread (lk s)") (auto simp: lock_inv_def inv_excl_def is_writer_def)
  show "recs s = []" using th assms(1) by (cases "recs s") (auto simp: lock_inv_def inv_excl_def)
qed

lemma inv_sleep_after:
  assumes "inv_sleep s" and "lk s' = l" and "lpcs s' = (lpcs s)(t := next_pc r)"
    and "waiting (lk s) \<Longrightarrow> waiting l"
    and "\<And>u p. lpcs s u = Asleep p \<Longrightarrow> wait_cond p (lk s) \<Longrightarrow> wait_cond p l"
    and "\<And>p. r = Sleep p \<Longrightarrow> waiting l \<and> wait_cond p l"
  shows "inv_sleep s'"
  unfolding inv_sleep_def
proof (intro allI impI)
  fix u p assume "lpcs s' u = Asleep p"
  then show "waiting (lk s') \<and> wait_cond p (lk s')"
    using assms by (cases "u = t"; cases r) (auto simp: inv_sleep_def)
qed

lemma inv_sleep_wake:
  assumes "inv_sleep s" and "lock_wake l0 = (l, w)" and "waiting l0 = waiting (lk s)"
    and "lpcs s' = (lpcs s)(t := Run)" and "lk s' = l"
  shows "inv_sleep (wake_all w s')"
  using assms by (auto simp: inv_sleep_def wake_all_def lock_wake_def split: if_splits)

text \<open>A routine that blocks leaves everything but the \<^verbatim>\<open>waiting\<close> flag alone.\<close>

definition blocked :: "lpoint \<Rightarrow> lock \<Rightarrow> lock \<Rightarrow> lres \<Rightarrow> bool" where
  "blocked p l l' r \<longleftrightarrow>
     wait_cond p l \<and> (l' = l\<lparr>waiting := True\<rparr> \<and> r = Sleep p \<or> l' = l \<and> r = Spin p)"

lemma blockedD:
  assumes "blocked p l l' r"
  shows "r \<noteq> Got" "r \<noteq> GotRec" "res_point r = Some p" "read_count l' = read_count l"
    "want_upgrade l' = want_upgrade l" "want_write l' = want_write l"
    "recursion_depth l' = recursion_depth l" "lk_thread l' = lk_thread l"
  using assms by (auto simp: blocked_def)

lemma blocked_cond: "blocked p l l' r \<Longrightarrow> wait_cond p' l' = wait_cond p' l"
  by (cases p') (auto simp: blocked_def)

lemma blocked_waiting: "blocked p l l' r \<Longrightarrow> waiting l \<Longrightarrow> waiting l'"
  by (auto simp: blocked_def)

lemma blocked_sleep: "blocked p l l' r \<Longrightarrow> r = Sleep p' \<Longrightarrow> waiting l' \<and> wait_cond p' l'"
  using blocked_cond [of p l l' r p'] by (auto simp: blocked_def)

lemma block_keeps:
  assumes inv: "lock_inv s" and b: "blocked p (lk s) l r"
    and "p \<in> {PU, PTU} \<longleftrightarrow> pend_up s t" and "p = PW2 \<longleftrightarrow> pend_wr s t"
  shows "lock_inv (after t l r s)"
proof -
  note * = blockedD [OF b]
  have "pend_up (after t l r s) = pend_up s" "pend_wr (after t l r s) = pend_wr s"
    using *(3) assms(3,4) by (auto intro!: pend_same)
  moreover have "inv_sleep (after t l r s)"
    by (rule inv_sleep_after [of s _ l t r])
      (use inv blocked_cond [OF b] blocked_waiting [OF b] blocked_sleep [OF b] in \<open>auto simp: lock_inv_def\<close>)
  ultimately show ?thesis using inv *
    by (simp add: lock_inv_def inv_counts_def inv_upgrade_def inv_write_def inv_excl_def)
qed

lemma announce_write_keeps:
  assumes inv: "lock_inv s" and b: "blocked PW2 ((lk s)\<lparr>want_write := True\<rparr>) l r"
    and nw: "\<not> want_write (lk s)" and np: "\<not> pend_up s t"
  shows "lock_inv (after t l r s)"
proof -
  note * = blockedD [OF b]
  have up: "pend_up (after t l r s) = pend_up s"
    using *(3) np by (auto intro!: pend_same)
  have wr: "pend_wr (after t l r s) = (pend_wr s)(t := True)" using *(3) by (simp add: pend_after)
  have mono: "wait_cond p (lk s) \<Longrightarrow> wait_cond p l" for p
    using blocked_cond [OF b, of p] by (cases p) auto
  have "inv_sleep (after t l r s)"
    by (rule inv_sleep_after [of s _ l t r])
      (use inv mono blocked_waiting [OF b] blocked_sleep [OF b] in \<open>auto simp: lock_inv_def\<close>)
  moreover have "inv_write (after t l r s)"
    using inv nw *(6) by (auto simp: inv_write_def wr_ok_def wr lock_inv_def)
  ultimately show ?thesis using inv * up
    by (simp add: lock_inv_def inv_counts_def inv_upgrade_def inv_excl_def)
qed

lemma grant_write_keeps:
  assumes inv: "lock_inv s" and "read_count (lk s) = 0" and nu: "\<not> want_upgrade (lk s)"
    and w: "\<not> want_write (lk s) \<or> pend_wr s t"
  shows "lock_inv (grant_write t ByWrite Got (after t ((lk s)\<lparr>want_write := True\<rparr>) Got s))" (is "lock_inv ?s")
proof -
  note q = quiet [OF inv nu w]
  have up: "pend_up (after t l Got s) = pend_up s" for l
    using q(4) by (auto intro!: pend_same)
  have "\<forall>u. \<not> ((pend_wr s)(t := False)) u"
    using inv w by (auto simp: lock_inv_def inv_write_def wr_ok_def split: if_splits)
  then have "inv_write ?s" using nu q by (simp add: inv_write_def wr_ok_def pend_after)
  moreover have mono: "wait_cond p (lk s) \<Longrightarrow> wait_cond p ((lk s)\<lparr>want_write := True\<rparr>)" for p
    by (cases p) auto
  have "inv_sleep ?s"
    by (rule inv_sleep_after [of s _ "(lk s)\<lparr>want_write := True\<rparr>" t Got])
      (use inv mono in \<open>auto simp: lock_inv_def\<close>)
  moreover have "readers s = []" using inv assms(2) by (simp add: lock_inv_def inv_counts_def)
  ultimately show ?thesis using inv q nu assms(2) up
    by (simp add: lock_inv_def inv_counts_def inv_upgrade_def up_ok_def inv_excl_def)
qed

lemma rec_write_keeps:
  assumes inv: "lock_inv s" and th: "lk_thread (lk s) = Some t" and "length (recs s) < 4095"
    and pc: "lpcs s t = Run"
  shows "lock_inv (grant_write t k GotRec (after t ((lk s)\<lparr>recursion_depth := recursion_depth (lk s) + 1\<rparr>) GotRec s))"
    (is "lock_inv (grant_write t k GotRec (after t ?l GotRec s))")
proof -
  have "pend_up (after t ?l GotRec s) = pend_up s" "pend_wr (after t ?l GotRec s) = pend_wr s"
    using pend_run [OF pc] by (auto intro!: pend_same)
  moreover have mono: "wait_cond p (lk s) \<Longrightarrow> wait_cond p ?l" for p by (cases p) auto
  have "inv_sleep (grant_write t k GotRec (after t ?l GotRec s))"
    by (rule inv_sleep_after [of s _ ?l t GotRec]) (use inv mono in \<open>auto simp: lock_inv_def\<close>)
  moreover have "unat (recursion_depth (lk s) + 1) = Suc (length (recs s))"
    using inv assms(3) by (subst unat_inc) (auto simp: lock_inv_def inv_counts_def)
  ultimately show ?thesis using inv th
    by (simp add: lock_inv_def inv_counts_def inv_upgrade_def inv_write_def inv_excl_def is_writer_def)
qed

lemma owner_only:
  assumes "lock_inv s" and "is_writer s t" and "(u, k) \<in> set (writers s)"
  shows "u = t"
  using assms by (cases "writers s") (auto simp: lock_inv_def inv_excl_def is_writer_def)

lemma writer_readers:
  assumes "lock_inv s" and "is_writer s t"
  shows "set (readers s) \<subseteq> {t}"
proof -
  from assms(2) obtain k where "(t, k) \<in> set (writers s)" by (auto simp: is_writer_def)
  then show ?thesis using assms(1) unfolding lock_inv_def inv_excl_def by blast
qed

lemma grant_read_keeps:
  assumes inv: "lock_inv s" and "length (readers s) < 65535" and np: "\<not> pend_up s t" "\<not> pend_wr s t"
    and w: "lk_thread (lk s) = Some t \<or> \<not> want_write (lk s) \<and> \<not> want_upgrade (lk s)" and r: "r = Got \<or> r = GotRec"
  shows "lock_inv (grant_read t r (after t ((lk s)\<lparr>read_count := read_count (lk s) + 1\<rparr>) r s))"
    (is "lock_inv (grant_read t r (after t ?l r s))")
proof -
  have rp: "res_point r = None" "r \<noteq> Sleep p" for p using r by auto
  have "pend_up (after t ?l r s) = pend_up s" "pend_wr (after t ?l r s) = pend_wr s"
    using np rp by (auto intro!: pend_same)
  moreover have rc: "unat (read_count (lk s) + 1) = Suc (length (readers s))"
    using inv assms(2) by (subst unat_inc) (auto simp: lock_inv_def inv_counts_def)
  then have "read_count (lk s) + 1 \<noteq> 0" by (metis unat_0 nat.distinct(1))
  then have mono: "wait_cond p (lk s) \<Longrightarrow> wait_cond p ?l" for p by (cases p) auto
  have "inv_sleep (grant_read t r (after t ?l r s))"
    by (rule inv_sleep_after [of s _ ?l t r]) (use inv mono rp in \<open>auto simp: lock_inv_def\<close>)
  moreover have "\<forall>u k. (u, k) \<in> set (writers s) \<longrightarrow> u = t"
    using w quiet(1) [OF inv] owner_only [OF inv, of t] inv by (auto simp: lock_inv_def inv_excl_def)
  ultimately show ?thesis using inv r rc
    by (auto simp: lock_inv_def inv_counts_def inv_upgrade_def inv_write_def inv_excl_def)
qed

lemma remove1_count:
  assumes "lock_inv s" and "t \<in> set (readers s)"
  shows "read_count (lk s) \<noteq> 0" and "unat (read_count (lk s) - 1) = length (remove1 t (readers s))"
proof -
  have "0 < length (readers s)" using assms(2) by (cases "readers s") auto
  then show nz: "read_count (lk s) \<noteq> 0" using assms(1) by (auto simp: lock_inv_def inv_counts_def)
  show "unat (read_count (lk s) - 1) = length (remove1 t (readers s))"
    using assms unat_dec [OF nz] by (simp add: lock_inv_def inv_counts_def length_remove1)
qed

lemma subset_remove1: "set xs \<subseteq> A \<Longrightarrow> set (remove1 t xs) \<subseteq> A"
  using set_remove1_subset by fastforce

lemma release_read_keeps:
  assumes inv: "lock_inv s" and pc: "lpcs s t = Run" and t: "t \<in> set (readers s)"
    and wk: "lock_wake ((lk s)\<lparr>read_count := read_count (lk s) - 1\<rparr>) = (l, w)"
    and r: "r = Got \<or> r = Refused"
  shows "lock_inv (wake_all w (drop_read t (after t l r s)))"
proof -
  note * = pend_run [OF pc] remove1_count [OF inv t]
  have l: "read_count l = read_count (lk s) - 1" "want_upgrade l = want_upgrade (lk s)"
    "want_write l = want_write (lk s)" "recursion_depth l = recursion_depth (lk s)" "lk_thread l = lk_thread (lk s)"
    using wk by (auto simp: lock_wake_def split: if_splits)
  have rp: "res_point r = None" "next_pc r = Run" using r by auto
  have "pend_up (after t l r s) = pend_up s" "pend_wr (after t l r s) = pend_wr s"
    using * rp by (auto intro!: pend_same)
  moreover have "inv_sleep (wake_all w (drop_read t (after t l r s)))"
    by (rule inv_sleep_wake [OF _ wk]) (use inv rp in \<open>auto simp: lock_inv_def\<close>)
  ultimately show ?thesis using inv l * subset_remove1 [of "readers s"]
    by (auto simp: lock_inv_def inv_counts_def inv_upgrade_def inv_write_def inv_excl_def)
qed

lemma rec_upgrade_keeps:
  assumes inv: "lock_inv s" and pc: "lpcs s t = Run" and t: "t \<in> set (readers s)"
    and th: "lk_thread (lk s) = Some t" and "length (recs s) < 4095"
  shows "lock_inv (grant_write t k GotRec (drop_read t (after t
    ((lk s)\<lparr>read_count := read_count (lk s) - 1, recursion_depth := recursion_depth (lk s) + 1\<rparr>) GotRec s)))"
    (is "lock_inv (grant_write t k GotRec (drop_read t (after t ?l GotRec s)))")
proof -
  note * = pend_run [OF pc] remove1_count [OF inv t]
  have tw: "is_writer s t" using inv th by (auto simp: lock_inv_def inv_excl_def)
  have up: "\<not> pend_up s u" for u
    using quiet_up(1) [OF inv] tw by (auto simp: is_writer_def)
  have mono: "wait_cond p ?l" if "lpcs s u = Asleep p" "wait_cond p (lk s)" for u p
  proof (cases p)
    case PW2
    then have "pend_wr s u" using that(1) by (simp add: pend_wr_def)
    then have "want_upgrade (lk s)" using quiet(1) [OF inv _ disjI2, of u] tw by (cases "want_upgrade (lk s)") (auto simp: is_writer_def)
    then show ?thesis using PW2 by simp
  next
    case PU
    then show ?thesis using that(1) up [of u] by (simp add: pend_up_def)
  next
    case PTU
    then show ?thesis using that(1) up [of u] by (simp add: pend_up_def)
  qed (use that in auto)
  have sl: "inv_sleep (grant_write t k GotRec (drop_read t (after t ?l GotRec s)))"
    by (rule inv_sleep_after [of s _ ?l t GotRec]) (use inv mono in \<open>auto simp: lock_inv_def\<close>)
  have "unat (recursion_depth (lk s) + 1) = Suc (length (recs s))"
    using inv assms(5) by (subst unat_inc) (auto simp: lock_inv_def inv_counts_def)
  moreover have "pend_up (after t ?l GotRec s) = pend_up s" "pend_wr (after t ?l GotRec s) = pend_wr s"
    using * by (auto intro!: pend_same)
  ultimately show ?thesis using inv * th sl tw subset_remove1 [of "readers s"]
    by (auto simp: lock_inv_def inv_counts_def inv_upgrade_def inv_write_def inv_excl_def is_writer_def)
qed

text \<open>A reader that is not the recursive owner excludes every write hold.\<close>

lemma reader_no_writer:
  assumes "lock_inv s" and "t \<in> set (readers s)" and "is_writer s t \<longrightarrow> lk_thread (lk s) = Some t"
    and "lk_thread (lk s) \<noteq> Some t"
  shows "writers s = []" and "recs s = []" and "lk_thread (lk s) = None"
proof -
  show w: "writers s = []"
  proof (cases "writers s")
    case (Cons a ws)
    then have "set (readers s) \<subseteq> {fst a}" using assms(1) by (cases a) (auto simp: lock_inv_def inv_excl_def)
    then have "is_writer s t" using assms(2) Cons by (auto simp: is_writer_def)
    then show ?thesis using assms(3,4) by simp
  qed
  show th: "lk_thread (lk s) = None"
    using w assms(1) by (cases "lk_thread (lk s)") (auto simp: lock_inv_def inv_excl_def is_writer_def)
  show "recs s = []" using th assms(1) by (cases "recs s") (auto simp: lock_inv_def inv_excl_def)
qed

lemma announce_upgrade_keeps:
  assumes inv: "lock_inv s" and pc: "lpcs s t = Run" and t: "t \<in> set (readers s)"
    and nw: "writers s = []" "recs s = []" "lk_thread (lk s) = None" and nu: "\<not> want_upgrade (lk s)"
    and b: "blocked p ((lk s)\<lparr>read_count := read_count (lk s) - 1, want_upgrade := True\<rparr>) l r"
    and p: "p \<in> {PU, PTU}"
  shows "lock_inv (drop_read t (after t l r s))"
proof -
  note * = pend_run [OF pc] remove1_count [OF inv t] and l = blockedD [OF b]
  have np: "\<not> pend_up s u" for u using inv nu by (simp add: lock_inv_def inv_upgrade_def up_ok_def)
  have up: "pend_up (after t l r s) = (pend_up s)(t := True)" using l(3) p by (auto simp: pend_after)
  have wr: "pend_wr (after t l r s) = pend_wr s" using l(3) * p by (auto intro!: pend_same)
  have mono: "wait_cond p' l" if "lpcs s u = Asleep p'" "wait_cond p' (lk s)" for u p'
    using that blocked_cond [OF b, of p'] np [of u] by (cases p') (auto simp: pend_up_def)
  have "inv_sleep (drop_read t (after t l r s))"
    by (rule inv_sleep_after [of s _ l t r])
      (use inv mono blocked_waiting [OF b] blocked_sleep [OF b] in \<open>auto simp: lock_inv_def\<close>)
  moreover have "inv_write (drop_read t (after t l r s))"
    using inv l nw by (auto simp: lock_inv_def inv_write_def wr_ok_def wr)
  ultimately show ?thesis using inv l * nw np
    by (simp add: lock_inv_def inv_counts_def inv_upgrade_def up_ok_def up inv_excl_def) blast
qed

lemma grant_upgrade_keeps:
  assumes inv: "lock_inv s" and "unat (read_count l) = length rs" "rs = []"
    and nw: "writers s = []" "recs s = []" "lk_thread (lk s) = None"
    and u: "\<not> want_upgrade (lk s) \<and> lpcs s t = Run \<or> pend_up s t"
    and l: "l = (lk s)\<lparr>read_count := read_count l, want_upgrade := True\<rparr>"
    and s': "lk s' = l" "lpcs s' = (lpcs s)(t := Run)" "readers s' = rs" "writers s' = [(t, ByUpgrade)]" "recs s' = []"
  shows "lock_inv s'"
proof -
  have lf: "want_write l = want_write (lk s)" "want_upgrade l" "recursion_depth l = recursion_depth (lk s)"
    "lk_thread l = None" "waiting l = waiting (lk s)"
    using nw(3) by (subst l; simp)+
  have npw: "\<not> pend_wr s t" using u by (auto simp: pend_up_def pend_wr_def)
  have pu: "pend_up s' = (pend_up s)(t := False)" and pw: "pend_wr s' = (pend_wr s)(t := False)"
    by (auto simp: fun_eq_iff pend_up_def pend_wr_def s')
  have all: "\<not> pend_up s' v" for v
    using inv u by (auto simp: lock_inv_def inv_upgrade_def up_ok_def pu split: if_splits)
  have "pend_wr s' = pend_wr s" using npw pw by (simp add: fun_upd_idem)
  then have "inv_write s'" using inv nw lf by (auto simp: lock_inv_def inv_write_def wr_ok_def s')
  moreover have "wait_cond p l" if "lpcs s v = Asleep p" "v \<noteq> t" "wait_cond p (lk s)" for v p
    using that lf all [of v] by (cases p) (auto simp: pu pend_up_def)
  then have "inv_sleep s'" using inv lf by (auto simp: lock_inv_def inv_sleep_def s')
  ultimately show ?thesis using inv all assms(2,3) lf nw
    by (auto simp: lock_inv_def inv_counts_def inv_upgrade_def up_ok_def inv_excl_def s')
qed

text \<open>Giving up write access: the last recursive hold, or the write hold itself.\<close>

lemma write_release_cases:
  assumes inv: "lock_inv s" and tw: "is_writer s t" and th: "recs s = [] \<longrightarrow> lk_thread (lk s) \<noteq> Some t"
  obtains (recursive) "recs s \<noteq> []" "recursion_depth (lk s) \<noteq> 0"
      "unat (recursion_depth (lk s) - 1) = length (tl (recs s))"
  | (upgrade) "recs s = []" "recursion_depth (lk s) = 0" "lk_thread (lk s) = None" "want_upgrade (lk s)"
      "writers s = [(t, ByUpgrade)]" "\<forall>u. \<not> pend_up s u"
  | (writing) "recs s = []" "recursion_depth (lk s) = 0" "lk_thread (lk s) = None" "\<not> want_upgrade (lk s)"
      "want_write (lk s)" "writers s = [(t, ByWrite)]" "\<forall>u. \<not> pend_wr s u"
proof (cases "recs s = []")
  case True
  have rd: "recursion_depth (lk s) = 0"
    using inv True by (auto simp: lock_inv_def inv_counts_def unat_eq_0)
  from tw inv obtain k where w: "writers s = [(t, k)]"
    by (cases "writers s") (auto simp: lock_inv_def inv_excl_def is_writer_def)
  have nth: "lk_thread (lk s) = None"
    using th True w inv by (cases "lk_thread (lk s)") (auto simp: lock_inv_def inv_excl_def is_writer_def)
  show ?thesis
  proof (cases k)
    case ByUpgrade
    then have "want_upgrade (lk s)" "\<forall>u. \<not> pend_up s u"
      using inv w by (auto simp: lock_inv_def inv_upgrade_def up_ok_def split: if_splits)
    then show ?thesis using upgrade True rd nth w ByUpgrade by simp
  next
    case ByWrite
    then have "want_write (lk s)" "\<not> want_upgrade (lk s)" "\<forall>u. \<not> pend_wr s u"
      using inv w by (auto simp: lock_inv_def inv_write_def wr_ok_def split: if_splits)
    then show ?thesis using writing True rd nth w ByWrite by simp
  qed
next
  case False
  then have "recursion_depth (lk s) \<noteq> 0" using inv by (auto simp: lock_inv_def inv_counts_def)
  moreover from this have "unat (recursion_depth (lk s) - 1) = length (tl (recs s))"
    using inv unat_dec [of "recursion_depth (lk s)"] by (simp add: lock_inv_def inv_counts_def)
  ultimately show ?thesis using recursive False by blast
qed

definition drop_bits :: "lock \<Rightarrow> lock" where
  "drop_bits l =
    (if recursion_depth l \<noteq> 0 then l\<lparr>recursion_depth := recursion_depth l - 1\<rparr>
     else if want_upgrade l then l\<lparr>want_upgrade := False\<rparr>
     else l\<lparr>want_write := False\<rparr>)"

lemma release_write_keeps:
  assumes inv: "lock_inv s" and pc: "lpcs s t = Run" and tw: "is_writer s t"
    and th: "recs s = [] \<longrightarrow> lk_thread (lk s) \<noteq> Some t"
    and rc: "unat n = length rs" "set rs \<subseteq> {t}"
    and wk: "lock_wake (drop_bits ((lk s)\<lparr>read_count := n\<rparr>)) = (l, w)"
    and s': "lk s' = l" "lpcs s' = (lpcs s)(t := Run)" "readers s' = rs"
      "writers s' = writers (drop_write t s)" "recs s' = recs (drop_write t s)"
  shows "lock_inv (wake_all w s')"
proof -
  have l: "l = drop_bits ((lk s)\<lparr>read_count := n\<rparr>)\<lparr>waiting := False\<rparr> \<or> l = drop_bits ((lk s)\<lparr>read_count := n\<rparr>)"
    using wk by (auto simp: lock_wake_def split: if_splits)
  have pu: "pend_up s' = pend_up s" and pw: "pend_wr s' = pend_wr s"
    using pc by (auto simp: pend_up_def pend_wr_def fun_eq_iff s')
  have sl: "inv_sleep (wake_all w s')"
    by (rule inv_sleep_wake [OF _ wk]) (use inv s' in \<open>auto simp: lock_inv_def drop_bits_def\<close>)
  from inv tw th show ?thesis
  proof (cases rule: write_release_cases)
    case recursive
    then have "read_count l = n" "recursion_depth l = recursion_depth (lk s) - 1" "want_upgrade l = want_upgrade (lk s)"
      "want_write l = want_write (lk s)" "lk_thread l = lk_thread (lk s)"
      using l by (auto simp: drop_bits_def)
    moreover have "set (tl (recs s)) \<subseteq> set (recs s)" using recursive(1) by (auto intro: list.set_sel(2))
    moreover have "\<forall>u k. (u, k) \<in> set (writers s) \<longrightarrow> u = t" using owner_only [OF inv tw] by blast
    ultimately show ?thesis using inv sl recursive rc
      by (auto simp: lock_inv_def inv_counts_def inv_upgrade_def inv_write_def inv_excl_def pu pw s' is_writer_def)
  next
    case upgrade
    then have "read_count l = n" "recursion_depth l = 0" "\<not> want_upgrade l"
      "want_write l = want_write (lk s)" "lk_thread l = None"
      using l by (auto simp: drop_bits_def)
    moreover have "wr_ok (want_write (lk s)) False (pend_wr s) []"
      using inv upgrade by (auto simp: lock_inv_def inv_write_def wr_ok_def split: if_splits)
    ultimately show ?thesis using sl upgrade rc
      by (simp add: lock_inv_def inv_counts_def inv_upgrade_def up_ok_def inv_write_def inv_excl_def pu pw s')
  next
    case writing
    then have "read_count l = n" "recursion_depth l = 0" "\<not> want_upgrade l" "\<not> want_write l" "lk_thread l = None"
      using l by (auto simp: drop_bits_def)
    moreover have "up_ok False (pend_up s) []"
      using inv writing by (auto simp: lock_inv_def inv_upgrade_def up_ok_def)
    ultimately show ?thesis using sl writing rc
      by (simp add: lock_inv_def inv_counts_def inv_upgrade_def wr_ok_def inv_write_def inv_excl_def pu pw s')
  qed
qed

lemma set_thread_keeps:
  assumes inv: "lock_inv s" and pc: "lpcs s t = Run" and th: "\<forall>u. th = Some u \<longrightarrow> is_writer s u"
    and rc: "\<forall>u\<in>set (recs s). th = Some u"
  shows "lock_inv (after t ((lk s)\<lparr>lk_thread := th, can_sleep := cs\<rparr>) Got s)" (is "lock_inv (after t ?l Got s)")
proof -
  have "pend_up (after t ?l Got s) = pend_up s" "pend_wr (after t ?l Got s) = pend_wr s"
    using pend_run [OF pc] by (auto intro!: pend_same)
  moreover have mono: "wait_cond p (lk s) \<Longrightarrow> wait_cond p ?l" for p by (cases p) auto
  have "inv_sleep (after t ?l Got s)"
    by (rule inv_sleep_after [of s _ ?l t Got]) (use inv mono in \<open>auto simp: lock_inv_def\<close>)
  ultimately show ?thesis using inv th rc
    by (simp add: lock_inv_def inv_counts_def inv_upgrade_def inv_write_def inv_excl_def)
qed

subsection \<open>Every segment is one of these effects\<close>

lemma lock_upd_swap: "l\<lparr>want_upgrade := b, read_count := n\<rparr> = l\<lparr>read_count := n, want_upgrade := b\<rparr>"
  by simp

lemma lock_write_loop2_cases:
  assumes "lock_write_loop2 l = (l', r)"
  obtains (blocks) "blocked PW2 l l' r" | (got) "r = Got" "l' = l" "read_count l = 0" "\<not> want_upgrade l"
  using assms by (auto simp: lock_write_loop2_def blocked_def split: if_splits)

lemma lock_write_loop1_cases:
  assumes "lock_write_loop1 l = (l', r)"
  obtains (blocks) "blocked PW1 l l' r"
  | (announced) "\<not> want_write l" "blocked PW2 (l\<lparr>want_write := True\<rparr>) l' r"
  | (got) "r = Got" "l' = l\<lparr>want_write := True\<rparr>" "\<not> want_write l" "read_count l = 0" "\<not> want_upgrade l"
  using assms
  by (auto simp: lock_write_loop1_def lock_write_loop2_def blocked_def split: if_splits)

lemma grant_blocked [simp]:
  "blocked p l l' r \<Longrightarrow> grant_write t k r s = s" "blocked p l l' r \<Longrightarrow> grant_read t r s = s"
  by (auto simp: blocked_def grant_write_def grant_read_def)

lemma write_loop1_keeps:
  assumes inv: "lock_inv s" and "\<not> pend_up s t" "\<not> pend_wr s t" and "lock_write_loop1 (lk s) = (l, r)"
  shows "lock_inv (grant_write t ByWrite r (after t l r s))"
  using assms(4)
proof (cases rule: lock_write_loop1_cases)
  case blocks
  then show ?thesis using block_keeps [OF inv] assms(2,3) by simp
next
  case announced
  then show ?thesis using announce_write_keeps [OF inv] assms(2) by simp
next
  case got
  then show ?thesis using grant_write_keeps [OF inv] assms(2,3) by simp
qed

lemma write_loop2_keeps:
  assumes inv: "lock_inv s" and pw: "pend_wr s t" and "\<not> pend_up s t" and "lock_write_loop2 (lk s) = (l, r)"
  shows "lock_inv (grant_write t ByWrite r (after t l r s))"
  using assms(4)
proof (cases rule: lock_write_loop2_cases)
  case blocks
  then show ?thesis using block_keeps [OF inv] assms(2,3) by simp
next
  case got
  have "want_write (lk s)" using inv pw by (auto simp: lock_inv_def inv_write_def wr_ok_def split: if_splits)
  then have "(lk s)\<lparr>want_write := True\<rparr> = lk s" by simp
  then show ?thesis using grant_write_keeps [OF inv, of t] got assms(2,3) by simp
qed

lemma read_loop_keeps:
  assumes inv: "lock_inv s" and "\<not> pend_up s t" "\<not> pend_wr s t" and "length (readers s) < 65535"
    and "lock_read_loop (lk s) = (l, r)"
  shows "lock_inv (grant_read t r (after t l r s))"
proof (cases "want_write (lk s) \<or> want_upgrade (lk s)")
  case True
  then have "blocked PR (lk s) l r" using assms(5) by (auto simp: lock_read_loop_def blocked_def split: if_splits)
  then show ?thesis using block_keeps [OF inv] assms(2,3) by simp
next
  case False
  then show ?thesis using grant_read_keeps [OF inv assms(4,2,3), of Got] assms(5) by (simp add: lock_read_loop_def)
qed

lemma upgrade_loop_keeps:
  assumes inv: "lock_inv s" and pu: "pend_up s t" and "\<not> pend_wr s t"
    and b: "read_count (lk s) \<noteq> 0 \<Longrightarrow> blocked p (lk s) l r" and p: "p \<in> {PU, PTU}"
    and g: "read_count (lk s) = 0 \<Longrightarrow> l = lk s \<and> r = Got"
  shows "lock_inv (grant_write t ByUpgrade r (after t l r s))"
proof (cases "read_count (lk s) = 0")
  case True
  note q = quiet_up [OF inv pu]
  have "readers s = []" using inv True by (simp add: lock_inv_def inv_counts_def)
  then show ?thesis using True g q pu
    by (intro grant_upgrade_keeps [OF inv, of l "[]" t]) auto
next
  case False
  then show ?thesis using block_keeps [OF inv b, of t] b p pu assms(3) by auto
qed

lemma upgrade_call_keeps:
  assumes inv: "lock_inv s" and pc: "lpcs s t = Run" and t: "t \<in> set (readers s)"
    and nw: "writers s = []" "recs s = []" "lk_thread (lk s) = None" and nu: "\<not> want_upgrade (lk s)"
    and l1: "l1 = (lk s)\<lparr>read_count := read_count (lk s) - 1, want_upgrade := True\<rparr>"
    and b: "read_count l1 \<noteq> 0 \<Longrightarrow> blocked p l1 l r" and p: "p \<in> {PU, PTU}"
    and g: "read_count l1 = 0 \<Longrightarrow> l = l1 \<and> r = Got"
  shows "lock_inv (grant_write t ByUpgrade r (drop_read t (after t l r s)))"
proof (cases "read_count l1 = 0")
  case True
  then have "remove1 t (readers s) = []" using remove1_count(2) [OF inv t] l1 by simp
  then show ?thesis using True g nw nu l1 pc
    by (intro grant_upgrade_keeps [OF inv, of l "[]" t]) auto
next
  case False
  then show ?thesis using announce_upgrade_keeps [OF inv pc t nw nu] b p l1 by auto
qed

lemma call_write_inv:
  assumes step: "lock_inv s" 
    "lpcs s t = Run"
    "length (recs s) < 4095"
    "lock_write t (lk s) = (l, r)"
  shows "lock_inv (grant_write t ByWrite r (after t l r s))"
proof -
  show ?thesis
  proof (cases "lk_thread (lk s) = Some t")
    case True
    then show ?thesis using step rec_write_keeps [of s t ByWrite] by (auto simp: lock_write_def)
  next
    case False
    then show ?thesis using step write_loop1_keeps [of s t l r] pend_run by (simp add: lock_write_def)
  qed
qed

lemma again_W1_inv:
  assumes step: "lock_inv s" 
    "lpcs s t = Ready PW1"
    "lock_write_loop1 (lk s) = (l, r)"
  shows "lock_inv (grant_write t ByWrite r (after t l r s))"
  using step by (intro write_loop1_keeps) (auto simp: pend_up_def pend_wr_def)

lemma again_W2_inv:
  assumes step: "lock_inv s" 
    "lpcs s t = Ready PW2"
    "lock_write_loop2 (lk s) = (l, r)"
  shows "lock_inv (grant_write t ByWrite r (after t l r s))"
  using step by (intro write_loop2_keeps) (auto simp: pend_up_def pend_wr_def)

lemma call_read_inv:
  assumes step: "lock_inv s" 
    "lpcs s t = Run"
    "length (readers s) < 65535"
    "lock_read t (lk s) = (l, r)"
  shows "lock_inv (grant_read t r (after t l r s))"
proof -
  show ?thesis
  proof (cases "lk_thread (lk s) = Some t")
    case True
    then show ?thesis using step grant_read_keeps [of s t GotRec] pend_run [of s t]
      by (auto simp: lock_read_def)
  next
    case False
    then show ?thesis using step read_loop_keeps [of s t l r] pend_run by (simp add: lock_read_def)
  qed
qed

lemma again_R_inv:
  assumes step: "lock_inv s" 
    "lpcs s t = Ready PR"
    "length (readers s) < 65535"
    "lock_read_loop (lk s) = (l, r)"
  shows "lock_inv (grant_read t r (after t l r s))"
  using step by (intro read_loop_keeps) (auto simp: pend_up_def pend_wr_def)

lemma call_upgrade_inv:
  assumes step: "lock_inv s" 
    "lpcs s t = Run"
    "t \<in> set (readers s)"
    "(is_writer s t \<longrightarrow> lk_thread (lk s) = Some t)"
    "length (recs s) < 4095"
    "lock_read_to_write t (lk s) = Inr (l, r, w)"
  shows "lock_inv (wake_all w (grant_write t ByUpgrade r (drop_read t (after t l r s))))"
proof -
  note nz = remove1_count(1) [OF step(1) step(3)]
  consider (rec) "lk_thread (lk s) = Some t" | (refused) "lk_thread (lk s) \<noteq> Some t" "want_upgrade (lk s)"
    | (ask) "lk_thread (lk s) \<noteq> Some t" "\<not> want_upgrade (lk s)" by blast
  then show ?thesis
  proof cases
    case rec
    then show ?thesis using step nz rec_upgrade_keeps [of s t ByUpgrade]
      by (auto simp: lock_read_to_write_def wake_all_def)
  next
    case refused
    then have "lock_wake ((lk s)\<lparr>read_count := read_count (lk s) - 1\<rparr>) = (l, w)" "r = Refused"
      using step nz by (auto simp: lock_read_to_write_def split: prod.splits)
    then show ?thesis using step release_read_keeps [of s t l w r] by (simp add: grant_write_def)
  next
    case ask
    note q = reader_no_writer [OF step(1) step(3)]
    let ?l1 = "(lk s)\<lparr>read_count := read_count (lk s) - 1, want_upgrade := True\<rparr>"
    have "lock_upgrade_loop ?l1 = (l, r)" "w = False"
      using step nz ask by (auto simp: lock_read_to_write_def split: prod.splits)
    then have "lock_inv (grant_write t ByUpgrade r (drop_read t (after t l r s)))"
      using step ask q
      by (intro upgrade_call_keeps [of s t ?l1 PU]) (auto simp: lock_upgrade_loop_def blocked_def split: if_splits)
    then show ?thesis using \<open>w = False\<close> by (simp add: wake_all_def)
  qed
qed

lemma again_U_inv:
  assumes step: "lock_inv s" 
    "lpcs s t = Ready PU"
    "lock_upgrade_loop (lk s) = (l, r)"
  shows "lock_inv (grant_write t ByUpgrade r (after t l r s))"
  using step
  by (intro upgrade_loop_keeps [where p = PU])
    (auto simp: pend_up_def pend_wr_def lock_upgrade_loop_def blocked_def split: if_splits)

lemma try_write_inv:
  assumes step: "lock_inv s" 
    "lpcs s t = Run"
    "length (recs s) < 4095"
    "lock_try_write t (lk s) = (l, r)"
  shows "lock_inv (grant_write t ByWrite r (after t l r s))"
proof -
  consider (rec) "lk_thread (lk s) = Some t" | (refused) "r = Refused" "l = lk s"
    | (got) "r = Got" "l = (lk s)\<lparr>want_write := True\<rparr>" "\<not> want_write (lk s)" "\<not> want_upgrade (lk s)" "read_count (lk s) = 0"
    using step by (auto simp: lock_try_write_def split: if_splits)
  then show ?thesis
  proof cases
    case rec
    then show ?thesis using step rec_write_keeps [of s t ByWrite] by (auto simp: lock_try_write_def)
  next
    case refused
    have "after t (lk s) Refused s = s" using step by (simp add: after_def fun_upd_idem)
    then show ?thesis using refused step by (simp add: grant_write_def)
  next
    case got
    then show ?thesis using grant_write_keeps [of s t] step by simp
  qed
qed

lemma try_read_inv:
  assumes step: "lock_inv s" 
    "lpcs s t = Run"
    "length (readers s) < 65535"
    "lock_try_read t (lk s) = (l, r)"
  shows "lock_inv (grant_read t r (after t l r s))"
proof -
  consider (got) "r = Got \<or> r = GotRec" "l = (lk s)\<lparr>read_count := read_count (lk s) + 1\<rparr>"
      "lk_thread (lk s) = Some t \<or> \<not> want_write (lk s) \<and> \<not> want_upgrade (lk s)"
    | (refused) "r = Refused" "l = lk s"
    using step by (auto simp: lock_try_read_def split: if_splits)
  then show ?thesis
  proof cases
    case got
    then show ?thesis using grant_read_keeps [of s t r] step pend_run [of s t] by simp
  next
    case refused
    have "after t (lk s) Refused s = s" using step by (simp add: after_def fun_upd_idem)
    then show ?thesis using refused step by (simp add: grant_read_def)
  qed
qed

lemma try_upgrade_inv:
  assumes step: "lock_inv s" 
    "lpcs s t = Run"
    "t \<in> set (readers s)"
    "(is_writer s t \<longrightarrow> lk_thread (lk s) = Some t)"
    "length (recs s) < 4095"
    "lock_try_read_to_write t (lk s) = Inr (l, r)"
  shows "lock_inv (grant_write t ByUpgrade r (if r = Refused then after t l r s else drop_read t (after t l r s)))"
proof -
  note nz = remove1_count(1) [OF step(1) step(3)]
  consider (rec) "lk_thread (lk s) = Some t" | (refused) "lk_thread (lk s) \<noteq> Some t" "want_upgrade (lk s)"
    | (ask) "lk_thread (lk s) \<noteq> Some t" "\<not> want_upgrade (lk s)" by blast
  then show ?thesis
  proof cases
    case rec
    then show ?thesis using step nz rec_upgrade_keeps [of s t ByUpgrade]
      by (auto simp: lock_try_read_to_write_def)
  next
    case refused
    then have "r = Refused" "l = lk s" using step by (auto simp: lock_try_read_to_write_def)
    moreover have "after t (lk s) Refused s = s" using step by (simp add: after_def fun_upd_idem)
    ultimately show ?thesis using step by (simp add: grant_write_def)
  next
    case ask
    note q = reader_no_writer [OF step(1) step(3)]
    let ?l1 = "(lk s)\<lparr>read_count := read_count (lk s) - 1, want_upgrade := True\<rparr>"
    have lp: "lock_try_upgrade_loop ?l1 = (l, r)"
      using step nz ask by (auto simp: lock_try_read_to_write_def Let_def lock_upd_swap)
    then have "lock_inv (grant_write t ByUpgrade r (drop_read t (after t l r s)))"
      using step ask q
      by (intro upgrade_call_keeps [of s t ?l1 PTU]) (auto simp: lock_try_upgrade_loop_def blocked_def split: if_splits)
    moreover have "r \<noteq> Refused" using lp by (auto simp: lock_try_upgrade_loop_def split: if_splits)
    ultimately show ?thesis by simp
  qed
qed

lemma again_TU_inv:
  assumes step: "lock_inv s" 
    "lpcs s t = Ready PTU"
    "lock_try_upgrade_loop (lk s) = (l, r)"
  shows "lock_inv (grant_write t ByUpgrade r (after t l r s))"
  using step
  by (intro upgrade_loop_keeps [where p = PTU])
    (auto simp: pend_up_def pend_wr_def lock_try_upgrade_loop_def blocked_def split: if_splits)

lemma release_read_inv:
  assumes step: "lock_inv s" 
    "lpcs s t = Run"
    "t \<in> set (readers s)"
    "lock_done (lk s) = (l, w)"
  shows "lock_inv (wake_all w (drop_read t (after t l Got s)))"
proof -
  note nz = remove1_count(1) [OF step(1) step(3)]
  then show ?thesis using step release_read_keeps [of s t l w Got] by (simp add: lock_done_def)
qed

lemma release_write_inv:
  assumes step: "lock_inv s" 
    "lpcs s t = Run"
    "t \<notin> set (readers s)"
    "is_writer s t"
    "(recs s = [] \<longrightarrow> lk_thread (lk s) \<noteq> Some t)"
    "lock_done (lk s) = (l, w)"
  shows "lock_inv (wake_all w (drop_write t (after t l Got s)))"
proof -
  have "readers s = []"
    using step(3) writer_readers [OF step(1,4)] by (cases "readers s") auto
  then have rc: "read_count (lk s) = 0" using step by (simp add: lock_inv_def inv_counts_def unat_eq_0)
  then have "lock_wake (drop_bits (lk s)) = (l, w)" using step(6) by (simp add: lock_done_def drop_bits_def)
  then have wk: "lock_wake (drop_bits ((lk s)\<lparr>read_count := read_count (lk s)\<rparr>)) = (l, w)" by simp
  show ?thesis
    by (rule release_write_keeps [OF step(1,2,4,5) _ _ wk]) (use rc \<open>readers s = []\<close> in auto)
qed

lemma downgrade_inv:
  assumes step: "lock_inv s" 
    "lpcs s t = Run"
    "is_writer s t"
    "length (readers s) < 65535"
    "(recs s = [] \<longrightarrow> lk_thread (lk s) \<noteq> Some t)"
    "lock_write_to_read (lk s) = (l, w)"
  shows "lock_inv (wake_all w (grant_read t Got (drop_write t (after t l Got s))))"
proof -
  have "unat (read_count (lk s) + 1) = Suc (length (readers s))"
    using step by (subst unat_inc) (auto simp: lock_inv_def inv_counts_def)
  moreover note writer_readers [OF step(1,3)]
  ultimately show ?thesis using step
    by (intro release_write_keeps [of s t "read_count (lk s) + 1" "t # readers s"])
      (auto simp: lock_write_to_read_def drop_bits_def Let_def)
qed

lemma set_recursive_inv:
  assumes step: "lock_inv s" 
    "lpcs s t = Run"
    "is_writer s t"
    "lock_set_recursive t (lk s) = Inr l"
  shows "lock_inv (after t l Got s)"
proof -
  from step have l: "l = (lk s)\<lparr>lk_thread := Some t, can_sleep := can_sleep (lk s)\<rparr>"
    by (auto simp: lock_set_recursive_def split: if_splits)
  have "u = t" if "u \<in> set (recs s)" for u
    using that step owner_only [of s t u] by (fastforce simp: lock_inv_def inv_excl_def is_writer_def)
  then show ?thesis unfolding l using step by (intro set_thread_keeps) auto
qed

lemma clear_recursive_inv:
  assumes step: "lock_inv s" 
    "lpcs s t = Run"
    "lock_clear_recursive t (lk s) = Inr l"
  shows "lock_inv (after t l Got s)"
proof -
  from step have "(l = (lk s)\<lparr>lk_thread := None, can_sleep := can_sleep (lk s)\<rparr> \<and> recs s = []) \<or>
      l = (lk s)\<lparr>lk_thread := lk_thread (lk s), can_sleep := can_sleep (lk s)\<rparr>"
    by (auto simp: lock_clear_recursive_def lock_inv_def inv_counts_def split: if_splits)
  then show ?thesis using step set_thread_keeps [of s t None "can_sleep (lk s)"]
      set_thread_keeps [of s t "lk_thread (lk s)" "can_sleep (lk s)"]
    by (auto simp: lock_inv_def inv_excl_def)
qed

lemma sleepable_inv:
  assumes step: "lock_inv s" 
    "lpcs s t = Run"
  shows "lock_inv (after t (lock_sleepable cs (lk s)) Got s)"
proof -
  from step have "lock_inv (after t ((lk s)\<lparr>lk_thread := lk_thread (lk s), can_sleep := cs\<rparr>) Got s)"
    by (intro set_thread_keeps) (auto simp: lock_inv_def inv_excl_def)
  then show ?thesis by (simp add: lock_sleepable_def)
qed

lemmas lock_segment_invs =
  call_write_inv again_W1_inv again_W2_inv call_read_inv again_R_inv call_upgrade_inv
  again_U_inv try_write_inv try_read_inv try_upgrade_inv again_TU_inv release_read_inv
  release_write_inv downgrade_inv set_recursive_inv clear_recursive_inv sleepable_inv

lemma lock_step_inv: "lock_step s s' \<Longrightarrow> lock_inv s \<Longrightarrow> lock_inv s'"
  by (induction rule: lock_step.induct) (rule lock_segment_invs; assumption)+

lemma lock_init_inv: "lock_inv (lsys_init cs)"
  by (simp add: lock_inv_def inv_counts_def inv_upgrade_def up_ok_def inv_write_def wr_ok_def inv_excl_def
      inv_sleep_def lsys_init_def lock_init_def pend_up_def pend_wr_def)

lemma lock_reach_inv: "lock_reach s \<Longrightarrow> lock_inv s"
  by (induction rule: lock_reach.induct) (auto intro: lock_step_inv lock_init_inv)

subsection \<open>Debugging simple locks\<close>

text \<open>
  With \<^verbatim>\<open>MACH_LDEBUG\<close> a simple lock stores the caller's program counter while it is
  held; the routines check it unless \<^verbatim>\<open>mach_ldebug\<close> is switched off.  A failed
  \<^verbatim>\<open>assert\<close> is a panic.
\<close>

type_synonym slock = u32   \<comment> \<open>\<^verbatim>\<open>lock_data\<close>\<close>

definition simple_lock_init :: "slock" where
  "simple_lock_init = 0"

definition simple_lock :: "bool \<Rightarrow> u32 \<Rightarrow> slock \<Rightarrow> slock kresult" where
  "simple_lock mach_ldebug frompc l =
    (if \<not> mach_ldebug then Inr l
     else if l \<noteq> 0 then Inl ''assert: l->lock_data == 0'' else Inr frompc)"

definition simple_unlock :: "bool \<Rightarrow> slock \<Rightarrow> slock kresult" where
  "simple_unlock mach_ldebug l =
    (if \<not> mach_ldebug then Inr l
     else if l = 0 then Inl ''assert: l->lock_data != 0'' else Inr 0)"

definition simple_lock_try :: "bool \<Rightarrow> u32 \<Rightarrow> slock \<Rightarrow> (slock \<times> bool) kresult" where
  "simple_lock_try mach_ldebug frompc l =
    (if \<not> mach_ldebug then Inr (l, True)
     else if l \<noteq> 0 then Inl ''assert: l->lock_data == 0'' else Inr (frompc, True))"

subsection \<open>Properties\<close>

text \<open>C1: Mutual exclusion.  However the threads interleave, whatever mixture of blocking,
  trying, upgrading, downgrading and recursive operations they perform, there is never more than
  one write hold, and while a thread has write access no other thread holds the lock for reading
  or has recursive write access.\<close>

theorem lock_mutual_exclusion:
  assumes "lock_reach s" and "is_writer s t"
  shows "(\<exists>k. writers s = [(t, k)]) \<and> (\<forall>u. u \<noteq> t \<longrightarrow> u \<notin> set (readers s) \<and> u \<notin> set (recs s) \<and> \<not> is_writer s u)"
proof -
  note inv = lock_reach_inv [OF assms(1)]
  obtain k where w: "writers s = [(t, k)]"
    using inv assms(2) by (cases "writers s") (auto simp: lock_inv_def inv_excl_def is_writer_def)
  have "u = t" if "u \<in> set (recs s)" for u
  proof -
    have "is_writer s u" using inv that by (auto simp: lock_inv_def inv_excl_def)
    then show ?thesis using w by (simp add: is_writer_def)
  qed
  then show ?thesis using w writer_readers [OF inv assms(2)] by (auto simp: is_writer_def)
qed

text \<open>A small run: one thread writes, the next two ask for the lock.\<close>

abbreviation lock_run1 :: lsys where
  "lock_run1 \<equiv> grant_write 1 ByWrite Got (after 1 ((lock_init True)\<lparr>want_write := True\<rparr>) Got (lsys_init True))"

abbreviation lock_run2 :: lsys where
  "lock_run2 \<equiv> after 2 ((lk lock_run1)\<lparr>waiting := True\<rparr>) (Sleep PR) lock_run1"

lemma lock_run1_reach: "lock_reach lock_run1"
  by (rule lock_reach.step [OF lock_reach.init [of True]], rule lock_step.call_write)
    (auto simp: lsys_init_def lock_init_def lock_defs)

lemma lock_run2_reach: "lock_reach lock_run2"
proof -
  have "lock_step lock_run1 (grant_read 2 (Sleep PR) lock_run2)"
    by (rule lock_step.call_read) (auto simp: lsys_init_def lock_init_def lock_defs)
  then show ?thesis using lock_run1_reach by (auto simp: grant_read_def intro: lock_reach.step)
qed

theorem lock_mutual_exclusion_witness:
  "writers lock_run1 = [(1, ByWrite)] \<and> 2 \<notin> set (readers lock_run1)"
  using lock_mutual_exclusion [OF lock_run1_reach, of 1]
  by (simp add: is_writer_def lsys_init_def)

text \<open>C2: No lost wakeups.  A thread that sleeps on a lock is always announced by the
  \<^verbatim>\<open>waiting\<close> flag, and the condition it sleeps on still holds: no thread stays asleep
  while the lock is available to it.\<close>

theorem lock_no_lost_wakeup:
  assumes "lock_reach s" and "lpcs s t = Asleep p"
  shows "waiting (lk s) \<and> wait_cond p (lk s)"
  using lock_reach_inv [OF assms(1)] assms(2) by (auto simp: lock_inv_def inv_sleep_def)

theorem lock_no_lost_wakeup_witness:
  "lpcs lock_run2 2 = Asleep PR \<and> waiting (lk lock_run2) \<and> want_write (lk lock_run2)"
  using lock_no_lost_wakeup [OF lock_run2_reach, of 2 PR] by simp

text \<open>Releasing the lock makes it available.  In any reachable state with a sleeping thread,
  when a holder that is neither reading nor recursive gives its write access up
  (\<^verbatim>\<open>lock_done\<close>), every sleeping thread becomes runnable, the counters are consistent, and a
  thread that was waiting to read and goes round its loop before anybody else asks for the lock
  obtains it, unless a writer has already claimed the \<^verbatim>\<open>want_write\<close> bit.\<close>

lemma lock_release_wakes:
  assumes "lock_reach s" and "is_writer s t" and "t \<notin> set (readers s)" and "recs s = []"
    and "lk_thread (lk s) \<noteq> Some t" and "lpcs s u = Asleep PR" and "lock_done (lk s) = (l, w)"
  shows "w \<and> lpcs (wake_all w s) u = Ready PR \<and> \<not> want_upgrade l \<and> read_count l = 0 \<and>
    (\<not> want_write l \<longrightarrow> lock_read_loop l = (l\<lparr>read_count := 1\<rparr>, Got))"
proof -
  note inv = lock_reach_inv [OF assms(1)]
  have wt: "waiting (lk s)" using inv assms(6) by (auto simp: lock_inv_def inv_sleep_def)
  have "readers s = []" using assms(3) writer_readers [OF inv assms(2)] by (cases "readers s") auto
  then have rc: "read_count (lk s) = 0" using inv by (simp add: lock_inv_def inv_counts_def unat_eq_0)
  have th: "recs s = [] \<longrightarrow> lk_thread (lk s) \<noteq> Some t" using assms(5) by simp
  from inv assms(2) th show ?thesis
  proof (cases rule: write_release_cases)
    case recursive
    then show ?thesis using assms(4) by simp
  qed (use assms(6,7) rc wt in \<open>auto simp: lock_done_def lock_wake_def wake_all_def lock_read_loop_def\<close>)
qed


lemma lock_run_read_reach:
  "lock_reach (grant_read 1 Got (after 1 ((lock_init True)\<lparr>read_count := 1\<rparr>) Got (lsys_init True)))"
  by (rule lock_reach.step [OF lock_reach.init [of True]], rule lock_step.call_read)
    (auto simp: lsys_init_def lock_init_def lock_defs)


text \<open>The debugging simple locks detect misuse: with checking on, a lock taken with a
  non-zero return address can be released and is then free again, while taking a held lock
  (with either routine) or releasing a free one fails its assertion; with checking off all
  three are no-ops.\<close>

lemma simple_lock_discipline:
  assumes "frompc \<noteq> 0"
  shows "kbind (simple_lock True frompc simple_lock_init) (simple_unlock True) = Inr simple_lock_init \<and>
    (l \<noteq> 0 \<longrightarrow> (\<exists>e. simple_lock True frompc l = Inl e) \<and> (\<exists>e. simple_lock_try True frompc l = Inl e)) \<and>
    (\<exists>e. simple_unlock True simple_lock_init = Inl e) \<and>
    simple_lock_try True frompc simple_lock_init = Inr (frompc, True) \<and>
    simple_lock False frompc l = Inr l \<and> simple_unlock False l = Inr l \<and>
    simple_lock_try False frompc l = Inr (l, True)"
  using assms by (simp add: simple_lock_def simple_unlock_def simple_lock_try_def simple_lock_init_def)

end
