(* ===== verification/Timer.thy ===== *)
theory Timer
  imports Prelude
begin

text \<open>
  Accounting timers, \<^verbatim>\<open>kern/timer.c\<close> and \<^verbatim>\<open>kern/timer.h\<close>.  A timer holds 32-bit
  low and high parts and a check copy of the high part.  \<^verbatim>\<open>TIMER_HIGH_UNIT\<close> is
  1000000 with statistical timing; for timestamp hardware it comes from \<^verbatim>\<open>machine/timer.h\<close>,
  which is not part of the tree, as do \<^verbatim>\<open>TIMER_MAX\<close> and \<^verbatim>\<open>TIMER_ADJUST\<close>: the first
  two are parameters (\<open>None\<close> when \<^verbatim>\<open>TIMER_MAX\<close> is not defined), the last is taken to be
  undefined.  The lock-free read protocol of \<^verbatim>\<open>timer_grab\<close> is modelled against a writer
  that runs one store at a time.
\<close>

record timer =
  low_bits :: u32
  high_bits :: u32
  high_bits_check :: u32
  tstamp :: u32

record timer_save =
  ts_low :: u32
  ts_high :: u32

definition TIMER_RATE :: u32 where
  "TIMER_RATE = 1000000"

definition TIMER_LOW_FULL :: u32 where
  "TIMER_LOW_FULL = 0x80000000"

definition timer_init :: timer where
  "timer_init = \<lparr>low_bits = 0, high_bits = 0, high_bits_check = 0, tstamp = 0\<rparr>"

definition timer_normalize :: "u32 \<Rightarrow> timer \<Rightarrow> timer" where
  "timer_normalize unit t =
    (let high_increment = low_bits t div unit;
         t = t\<lparr>high_bits_check := high_bits_check t + high_increment\<rparr>;
         t = t\<lparr>low_bits := low_bits t mod unit\<rparr>
     in t\<lparr>high_bits := high_bits t + high_increment\<rparr>)"

text \<open>The normalization check that follows every update.\<close>

definition timer_check :: "u32 \<Rightarrow> timer \<Rightarrow> timer" where
  "timer_check unit t = (if low_bits t AND TIMER_LOW_FULL \<noteq> 0 then timer_normalize unit t else t)"

definition timer_bump :: "u32 \<Rightarrow> timer \<Rightarrow> timer" where
  "timer_bump usec t = timer_check TIMER_RATE (t\<lparr>low_bits := low_bits t + usec\<rparr>)"

text \<open>
  \<^verbatim>\<open>timer_grab\<close> on a quiescent timer goes round its loop once; \<open>None\<close> says it retries.
\<close>

definition timer_grab :: "timer \<Rightarrow> timer_save option" where
  "timer_grab t =
    (let save = \<lparr>ts_low = low_bits t, ts_high = high_bits t\<rparr>
     in if ts_high save \<noteq> high_bits_check t then None else Some save)"

record time_value =
  tv_seconds :: u32
  tv_microseconds :: u32

definition save_to_time :: "timer_save \<Rightarrow> time_value" where
  "save_to_time temp =
    \<lparr>tv_seconds = ts_high temp + ts_low temp div 1000000, tv_microseconds = ts_low temp mod 1000000\<rparr>"

definition timer_read :: "timer \<Rightarrow> time_value option" where
  "timer_read t = map_option save_to_time (timer_grab t)"

definition thread_read_times :: "timer \<Rightarrow> timer \<Rightarrow> (time_value \<times> time_value) option" where
  "thread_read_times user_timer system_timer =
    Option.bind (timer_grab user_timer) (\<lambda>temp.
      let user_time = save_to_time temp in
      Option.bind (timer_grab system_timer) (\<lambda>temp. Some (user_time, save_to_time temp)))"

definition timer_delta :: "u32 \<Rightarrow> timer \<Rightarrow> timer_save \<Rightarrow> (u32 \<times> timer_save) option" where
  "timer_delta unit t save =
    (case timer_grab t of None \<Rightarrow> None
     | Some new_save \<Rightarrow>
         let result = (ts_high new_save - ts_high save) * unit + ts_low new_save - ts_low save
         in Some (result, save\<lparr>ts_high := ts_high new_save, ts_low := ts_low new_save\<rparr>))"

text \<open>The macro \<^verbatim>\<open>TIMER_DELTA(timer, save, result)\<close>.\<close>

definition TIMER_DELTA :: "u32 \<Rightarrow> timer \<Rightarrow> timer_save \<Rightarrow> u32 \<Rightarrow> (u32 \<times> timer_save) option" where
  "TIMER_DELTA unit t save result =
    (let temp = low_bits t in
     if ts_high save \<noteq> high_bits_check t
     then map_option (\<lambda>(d, save). (result + d, save)) (timer_delta unit t save)
     else Some (result + (temp - ts_low save), save\<lparr>ts_low := temp\<rparr>))"

subsection \<open>Timestamp accounting\<close>

text \<open>
  The timers live in a store; \<^verbatim>\<open>current_timer\<close> points to the running timer of each
  processor, and the active thread has a user and a system timer.
\<close>

record timing =
  timers :: "ptr \<Rightarrow> timer"
  current_timer :: "nat \<Rightarrow> ptr"

definition set_timer :: "ptr \<Rightarrow> timer \<Rightarrow> timing \<Rightarrow> timing" where
  "set_timer p t s = s\<lparr>timers := (timers s)(p := t)\<rparr>"

definition set_tstamp :: "ptr \<Rightarrow> u32 \<Rightarrow> timing \<Rightarrow> timing" where
  "set_tstamp p ts s = set_timer p ((timers s p)\<lparr>tstamp := ts\<rparr>) s"

definition set_current :: "nat \<Rightarrow> ptr \<Rightarrow> timing \<Rightarrow> timing" where
  "set_current cpu p s = s\<lparr>current_timer := (current_timer s)(cpu := p)\<rparr>"

text \<open>\<^verbatim>\<open>init_timers\<close> over the kernel timers of \<open>ncpus\<close> processors, followed by
  \<^verbatim>\<open>start_timer\<close> of the timer of the processor it runs on.\<close>

definition start_timer :: "nat \<Rightarrow> u32 \<Rightarrow> ptr \<Rightarrow> timing \<Rightarrow> timing" where
  "start_timer cpu now p s = set_current cpu p (set_tstamp p now s)"

primrec init_timers_loop :: "(nat \<Rightarrow> ptr) \<Rightarrow> nat \<Rightarrow> timing \<Rightarrow> timing" where
  "init_timers_loop kernel_timer 0 s = s"
| "init_timers_loop kernel_timer (Suc i) s =
     set_current i 0 (set_timer (kernel_timer i) timer_init (init_timers_loop kernel_timer i s))"

definition init_timers :: "(nat \<Rightarrow> ptr) \<Rightarrow> nat \<Rightarrow> nat \<Rightarrow> u32 \<Rightarrow> timing \<Rightarrow> timing" where
  "init_timers kernel_timer ncpus cpu now s =
     start_timer cpu now (kernel_timer cpu) (init_timers_loop kernel_timer ncpus s)"

text \<open>
  \<^verbatim>\<open>elapsed = ts - mytimer->tstamp\<close>, a signed \<^verbatim>\<open>int\<close>, corrected by \<^verbatim>\<open>TIMER_MAX\<close>
  where that is defined.
\<close>

definition elapsed_time :: "u32 option \<Rightarrow> u32 \<Rightarrow> u32 \<Rightarrow> u32" where
  "elapsed_time timer_max ts stamp =
    (let elapsed = ts - stamp in
     case timer_max of None \<Rightarrow> elapsed
     | Some mx \<Rightarrow> if sint elapsed < 0 then elapsed + mx else elapsed)"

text \<open>Charge the elapsed time to the running timer and stop it.\<close>

definition timer_charge :: "u32 option \<Rightarrow> u32 \<Rightarrow> ptr \<Rightarrow> timing \<Rightarrow> timing" where
  "timer_charge timer_max ts p s =
    (let t = timers s p; elapsed = elapsed_time timer_max ts (tstamp t)
     in set_timer p (t\<lparr>low_bits := low_bits t + elapsed, tstamp := 0\<rparr>) s)"

definition check_timer :: "u32 \<Rightarrow> ptr \<Rightarrow> timing \<Rightarrow> timing" where
  "check_timer unit p s = set_timer p (timer_check unit (timers s p)) s"

definition time_trap_uentry :: "u32 option \<Rightarrow> nat \<Rightarrow> ptr \<Rightarrow> u32 \<Rightarrow> timing \<Rightarrow> timing" where
  "time_trap_uentry timer_max mycpu system_timer ts s =
    (let s = timer_charge timer_max ts (current_timer s mycpu) s;
         s = set_current mycpu system_timer s
     in set_tstamp system_timer ts s)"

definition time_trap_uexit :: "u32 option \<Rightarrow> u32 \<Rightarrow> nat \<Rightarrow> ptr \<Rightarrow> u32 \<Rightarrow> timing \<Rightarrow> timing" where
  "time_trap_uexit timer_max unit mycpu user_timer ts s =
    (let mytimer = current_timer s mycpu;
         s = timer_charge timer_max ts mytimer s;
         s = check_timer unit mytimer s;
         s = check_timer unit user_timer s;
         s = set_current mycpu user_timer s
     in set_tstamp user_timer ts s)"

definition time_int_entry :: "u32 option \<Rightarrow> nat \<Rightarrow> u32 \<Rightarrow> ptr \<Rightarrow> timing \<Rightarrow> ptr \<times> timing" where
  "time_int_entry timer_max mycpu ts new_timer s =
    (let mytimer = current_timer s mycpu;
         s = timer_charge timer_max ts mytimer s;
         s = set_tstamp new_timer ts s
     in (mytimer, set_current mycpu new_timer s))"

definition time_int_exit :: "u32 option \<Rightarrow> u32 \<Rightarrow> nat \<Rightarrow> u32 \<Rightarrow> ptr \<Rightarrow> timing \<Rightarrow> timing" where
  "time_int_exit timer_max unit mycpu ts old_timer s =
    (let mytimer = current_timer s mycpu;
         s = timer_charge timer_max ts mytimer s;
         s = check_timer unit mytimer s;
         s = check_timer unit old_timer s;
         s = set_tstamp old_timer ts s
     in set_current mycpu old_timer s)"

definition timer_switch :: "u32 option \<Rightarrow> u32 \<Rightarrow> nat \<Rightarrow> u32 \<Rightarrow> ptr \<Rightarrow> timing \<Rightarrow> timing" where
  "timer_switch timer_max unit mycpu ts new_timer s =
    (let mytimer = current_timer s mycpu;
         s = timer_charge timer_max ts mytimer s;
         s = check_timer unit mytimer s;
         s = set_current mycpu new_timer s
     in set_tstamp new_timer ts s)"

subsection \<open>Reading while the writer runs\<close>

text \<open>
  The writer's stores, one at a time: an addition to the low part, and the three stores of a
  normalization.  \<open>WIdle\<close>, \<open>WLow\<close> and \<open>WHigh\<close> say which store comes next.
\<close>

datatype wstate = WIdle | WLow u32 | WHigh u32

record tsys =
  tm :: timer
  wpc :: wstate

inductive timer_wstep :: "u32 \<Rightarrow> tsys \<Rightarrow> tsys \<Rightarrow> bool" for unit where
  add: "wpc s = WIdle \<Longrightarrow>
    timer_wstep unit s (s\<lparr>tm := (tm s)\<lparr>low_bits := low_bits (tm s) + n\<rparr>\<rparr>)"
| norm_check: "wpc s = WIdle \<Longrightarrow> inc = low_bits (tm s) div unit \<Longrightarrow>
    unat (high_bits_check (tm s)) + unat inc < 2 ^ 32 \<Longrightarrow>
    timer_wstep unit s (s\<lparr>tm := (tm s)\<lparr>high_bits_check := high_bits_check (tm s) + inc\<rparr>, wpc := WLow inc\<rparr>)"
| norm_low: "wpc s = WLow inc \<Longrightarrow>
    timer_wstep unit s (s\<lparr>tm := (tm s)\<lparr>low_bits := low_bits (tm s) mod unit\<rparr>, wpc := WHigh inc\<rparr>)"
| norm_high: "wpc s = WHigh inc \<Longrightarrow>
    timer_wstep unit s (s\<lparr>tm := (tm s)\<lparr>high_bits := high_bits (tm s) + inc\<rparr>, wpc := WIdle\<rparr>)"

inductive timer_wsteps :: "u32 \<Rightarrow> tsys \<Rightarrow> tsys \<Rightarrow> bool" for unit where
  refl: "timer_wsteps unit s s"
| step: "timer_wsteps unit s s' \<Longrightarrow> timer_wstep unit s' s'' \<Longrightarrow> timer_wsteps unit s s''"

text \<open>What the check field owes the high field at each point of a normalization.\<close>

definition timer_consistent :: "tsys \<Rightarrow> bool" where
  "timer_consistent s \<longleftrightarrow>
     high_bits_check (tm s) = high_bits (tm s) + (case wpc s of WIdle \<Rightarrow> 0 | WLow i \<Rightarrow> i | WHigh i \<Rightarrow> i) \<and>
     unat (high_bits (tm s)) + (case wpc s of WIdle \<Rightarrow> 0 | WLow i \<Rightarrow> unat i | WHigh i \<Rightarrow> unat i) < 2 ^ 32"


subsection \<open>Values of timers\<close>

text \<open>The time a timer stands for, and what \<^verbatim>\<open>timer_grab\<close> saved of it.\<close>

definition timer_val :: "u32 \<Rightarrow> timer \<Rightarrow> nat" where
  "timer_val unit t = unat (high_bits t) * unat unit + unat (low_bits t)"

definition save_val :: "u32 \<Rightarrow> timer_save \<Rightarrow> nat" where
  "save_val unit v = unat (ts_high v) * unat unit + unat (ts_low v)"

text \<open>The same while a normalization is between its second and its third store.\<close>

definition pending_val :: "u32 \<Rightarrow> tsys \<Rightarrow> nat" where
  "pending_val unit s =
     timer_val unit (tm s) + (case wpc s of WHigh i \<Rightarrow> unat i * unat unit | _ \<Rightarrow> 0)"

text \<open>The timestamp hardware shows \<open>ts\<close> when \<open>d\<close> ticks have passed since it showed \<open>stamp\<close>.\<close>

fun clock_after :: "u32 option \<Rightarrow> u32 \<Rightarrow> nat \<Rightarrow> u32 \<Rightarrow> bool" where
  "clock_after None stamp d ts \<longleftrightarrow> ts = stamp + of_nat d \<and> d < 2 ^ 32"
| "clock_after (Some mx) stamp d ts \<longleftrightarrow>
     unat mx \<le> 2 ^ 31 \<and> unat stamp < unat mx \<and> d < unat mx \<and> unat ts = (unat stamp + d) mod unat mx"

lemma normalize_fields:
  "low_bits (timer_normalize unit t) = low_bits t mod unit"
  "high_bits (timer_normalize unit t) = high_bits t + low_bits t div unit"
  "high_bits_check (timer_normalize unit t) = high_bits_check t + low_bits t div unit"
  "tstamp (timer_normalize unit t) = tstamp t"
  by (simp_all add: timer_normalize_def Let_def)

lemma timer_val_bound:
  assumes "timer_val unit t < 2 ^ 32 * unat unit"
  shows "unat (high_bits t) + unat (low_bits t) div unat unit < 2 ^ 32"
proof -
  have pos: "0 < unat unit" using assms by (cases "unat unit") auto
  have "(unat (high_bits t) * unat unit + unat (low_bits t)) div unat unit < 2 ^ 32"
    using assms unfolding timer_val_def
    by (intro div_less_iff_less_mult [THEN iffD2]) (use pos in \<open>auto simp: mult.commute\<close>)
  then show ?thesis using pos by simp
qed

lemma normalize_val:
  assumes "timer_val unit t < 2 ^ 32 * unat unit"
  shows "timer_val unit (timer_normalize unit t) = timer_val unit t"
proof -
  have "unat (high_bits t + low_bits t div unit) = unat (high_bits t) + unat (low_bits t) div unat unit"
    using timer_val_bound [OF assms] by (simp add: unat_word_ariths unat_div)
  then show ?thesis
    by (simp add: timer_val_def normalize_fields unat_mod unat_div algebra_simps)
qed

lemma check_val:
  "timer_val unit t < 2 ^ 32 * unat unit \<Longrightarrow> timer_val unit (timer_check unit t) = timer_val unit t"
  by (simp add: timer_check_def normalize_val)

lemma check_tstamp [simp]: "tstamp (timer_check unit t) = tstamp t"
  by (simp add: timer_check_def normalize_fields)

lemma check_agree:
  "high_bits (timer_check unit t) = high_bits_check (timer_check unit t) \<longleftrightarrow> high_bits t = high_bits_check t"
  by (simp add: timer_check_def normalize_fields)

lemma rate [simp]: "unat TIMER_RATE = 1000000"
  by (simp add: TIMER_RATE_def)

lemma val_add_low:
  "unat (low_bits t) + unat n < 2 ^ 32 \<Longrightarrow>
     timer_val unit (t\<lparr>low_bits := low_bits t + n\<rparr>) = timer_val unit t + unat n"
  by (simp add: timer_val_def unat_word_ariths)

lemma low_full_iff: "low_bits t AND TIMER_LOW_FULL = 0 \<longleftrightarrow> unat (low_bits t) < 2 ^ 31"
proof -
  have full: "TIMER_LOW_FULL = 2 ^ 31" by (simp add: TIMER_LOW_FULL_def)
  have "low_bits t AND TIMER_LOW_FULL = 0 \<longleftrightarrow> \<not> bit (low_bits t) 31"
    unfolding full by (rule and_exp_eq_0_iff_not_bit)
  then show ?thesis by (simp add: bit31_iff not_le)
qed


subsection \<open>The protocol of the reader\<close>

inductive_cases timer_wstepE: "timer_wstep unit s s'"

lemma wstep_consistent:
  "timer_wstep unit s s' \<Longrightarrow> timer_consistent s \<Longrightarrow> timer_consistent s'"
  by (induction rule: timer_wstep.induct)
    (auto simp: timer_consistent_def add.commute word_facts)

lemma wstep_mono:
  "timer_wstep unit s s' \<Longrightarrow> timer_consistent s \<Longrightarrow>
     unat (high_bits (tm s)) \<le> unat (high_bits (tm s')) \<and>
     unat (high_bits_check (tm s)) \<le> unat (high_bits_check (tm s'))"
  by (induction rule: timer_wstep.induct) (auto simp: timer_consistent_def unat_word_ariths)

lemma wsteps_consistent:
  "timer_wsteps unit s s' \<Longrightarrow> timer_consistent s \<Longrightarrow> timer_consistent s'"
  by (induction rule: timer_wsteps.induct) (auto intro: wstep_consistent)

lemma wsteps_mono:
  "timer_wsteps unit s s' \<Longrightarrow> timer_consistent s \<Longrightarrow>
     unat (high_bits (tm s)) \<le> unat (high_bits (tm s')) \<and>
     unat (high_bits_check (tm s)) \<le> unat (high_bits_check (tm s'))"
proof (induction rule: timer_wsteps.induct)
  case (step s s' s'')
  with wstep_mono [OF step.hyps(2) wsteps_consistent [OF step.hyps(1)]] show ?case
    by (auto intro: order_trans)
qed simp

lemma consistent_unat:
  "timer_consistent s \<Longrightarrow> unat (high_bits_check (tm s)) =
     unat (high_bits (tm s)) + (case wpc s of WIdle \<Rightarrow> 0 | WLow i \<Rightarrow> unat i | WHigh i \<Rightarrow> unat i)"
  by (auto simp: timer_consistent_def unat_word_ariths split: wstate.splits)

text \<open>C31:
  The lock-free read of \<^verbatim>\<open>timer_grab\<close>.  The reader loads the high part in state \<open>s1\<close>, the
  low part in \<open>s2\<close> and the check field in \<open>s3\<close>, while the writer goes on with any number of
  additions and normalization stores in between.  When the check field agrees with the high
  part it loaded, the pair it has read is the value of the timer at \<open>s2\<close>, also in the middle
  of a normalization.
\<close>

theorem timer_grab_consistent:
  assumes "timer_consistent s1" and "timer_wsteps unit s1 s2" and "timer_wsteps unit s2 s3"
    and "high_bits (tm s1) = high_bits_check (tm s3)"
  shows "save_val unit \<lparr>ts_low = low_bits (tm s2), ts_high = high_bits (tm s1)\<rparr> = pending_val unit s2"
proof -
  have c2: "timer_consistent s2" using assms wsteps_consistent by blast
  have "unat (high_bits (tm s1)) \<le> unat (high_bits (tm s2))"
    using assms wsteps_mono by blast
  moreover have "unat (high_bits_check (tm s2)) \<le> unat (high_bits (tm s1))"
    using assms(4) wsteps_mono [OF assms(3) c2] by simp
  ultimately have eq: "unat (high_bits (tm s1)) = unat (high_bits (tm s2))"
    and "(case wpc s2 of WIdle \<Rightarrow> 0 | WLow i \<Rightarrow> unat i | WHigh i \<Rightarrow> unat i) = 0"
    using consistent_unat [OF c2] by linarith+
  then show ?thesis
    by (auto simp: save_val_def pending_val_def timer_val_def split: wstate.splits)
qed

theorem timer_grab_consistent_witness:
  "save_val 1000 \<lparr>ts_low = 5, ts_high = 2\<rparr> =
     pending_val 1000 \<lparr>tm = \<lparr>low_bits = 5, high_bits = 2, high_bits_check = 2, tstamp = 0\<rparr>, wpc = WIdle\<rparr>"
proof -
  define s1 where "s1 = \<lparr>tm = \<lparr>low_bits = 1, high_bits = 2, high_bits_check = 2, tstamp = 0\<rparr>, wpc = WIdle\<rparr>"
  define s2 where "s2 = \<lparr>tm = \<lparr>low_bits = 5, high_bits = 2, high_bits_check = 2, tstamp = 0\<rparr>, wpc = WIdle\<rparr>"
  have "timer_wstep 1000 s1 s2"
    using timer_wstep.add [of s1 1000 4] by (simp add: s1_def s2_def)
  then have "timer_wsteps 1000 s1 s2" by (meson timer_wsteps.refl timer_wsteps.step)
  from timer_grab_consistent [OF _ this timer_wsteps.refl] show ?thesis
    by (simp add: s1_def s2_def timer_consistent_def)
qed

text \<open>C37:
  Normalization keeps the value of a timer, brings the low part below \<^verbatim>\<open>TIMER_HIGH_UNIT\<close> and
  keeps the check field in step with the high part; a bump adds exactly its microseconds and
  leaves the low part without the \<^verbatim>\<open>TIMER_LOW_FULL\<close> bit; and \<^verbatim>\<open>timer_read\<close> returns that value
  split into seconds and microseconds.
\<close>

theorem timer_value_preserved:
  "(timer_val unit t < 2 ^ 32 * unat unit \<longrightarrow>
      timer_val unit (timer_normalize unit t) = timer_val unit t \<and>
      unat (low_bits (timer_normalize unit t)) < unat unit \<and>
      (high_bits t = high_bits_check t \<longrightarrow>
         high_bits (timer_normalize unit t) = high_bits_check (timer_normalize unit t))) \<and>
   (unat (low_bits t) < 2 ^ 31 \<and> unat usec \<le> 2 ^ 31 \<and> timer_val TIMER_RATE t + unat usec < 2 ^ 32 * 1000000 \<longrightarrow>
      timer_val TIMER_RATE (timer_bump usec t) = timer_val TIMER_RATE t + unat usec \<and>
      unat (low_bits (timer_bump usec t)) < 2 ^ 31 \<and>
      (high_bits t = high_bits_check t \<longrightarrow>
         high_bits (timer_bump usec t) = high_bits_check (timer_bump usec t))) \<and>
   (high_bits t = high_bits_check t \<and> timer_val TIMER_RATE t < 2 ^ 32 * 1000000 \<longrightarrow>
      (\<exists>v. timer_read t = Some v \<and> unat (tv_microseconds v) < 1000000 \<and>
           unat (tv_seconds v) * 1000000 + unat (tv_microseconds v) = timer_val TIMER_RATE t \<and>
           thread_read_times t t = Some (v, v)))"
  (is "(?A1 \<longrightarrow> ?A2) \<and> (?B1 \<longrightarrow> ?B2) \<and> (?C1 \<longrightarrow> ?C2)")
proof -
  have "?A2" if a: ?A1
  proof -
  from a 
    have "0 < unat unit" by (cases "unat unit") auto
    with a show ?thesis by (simp add: normalize_val normalize_fields unat_mod)
  qed
  moreover have "?B2" if b: ?B1
  proof -
  from b have low: "unat (low_bits t) + unat usec < 2 ^ 32" by simp
  have v: "timer_val TIMER_RATE (t\<lparr>low_bits := low_bits t + usec\<rparr>) = timer_val TIMER_RATE t + unat usec"
    using val_add_low [OF low] .
  have "timer_val TIMER_RATE (timer_bump usec t) = timer_val TIMER_RATE t + unat usec"
    unfolding timer_bump_def by (subst check_val) (use b v rate in auto)
  moreover have "unat (low_bits (timer_bump usec t)) < 2 ^ 31"
    using low_full_iff [of "t\<lparr>low_bits := low_bits t + usec\<rparr>"]
    by (auto simp: timer_bump_def timer_check_def normalize_fields unat_mod rate
        intro: less_trans [OF mod_less_divisor])
  ultimately show ?thesis by (simp add: timer_bump_def check_agree)
  qed
  moreover have "?C2" if c: ?C1
  proof -
  from c have "unat (high_bits t) + unat (low_bits t) div 1000000 < 2 ^ 32"
    using timer_val_bound [of TIMER_RATE t] rate by simp
  then have "unat (high_bits t + low_bits t div 1000000) = unat (high_bits t) + unat (low_bits t) div 1000000"
    by (simp add: unat_word_ariths unat_div)
  moreover have "unat (low_bits t mod 1000000) = unat (low_bits t) mod 1000000"
    by (simp add: unat_mod)
  ultimately show ?thesis
    using c by (auto simp: timer_read_def thread_read_times_def timer_grab_def save_to_time_def timer_val_def)
  qed
  ultimately show ?thesis by blast
qed

theorem timer_value_preserved_witness:
  "timer_val TIMER_RATE (timer_bump 1500000 \<lparr>low_bits = 0x7fffffff, high_bits = 3, high_bits_check = 3, tstamp = 0\<rparr>)
     = 3 * 1000000 + 0x7fffffff + 1500000"
proof -
  define t where "t = \<lparr>low_bits = 0x7fffffff, high_bits = 3, high_bits_check = 3, tstamp = 0\<rparr>"
  have v: "timer_val TIMER_RATE t = 3 * 1000000 + 0x7fffffff" "unat (low_bits t) < 2 ^ 31"
    by (simp_all add: timer_val_def t_def)
  have "timer_val TIMER_RATE (timer_bump 1500000 t) = timer_val TIMER_RATE t + unat (1500000 :: u32)"
    using timer_value_preserved [of 1 t 1500000] v by simp
  then show ?thesis unfolding v(1) by (simp add: t_def)
qed


subsection \<open>Differences\<close>

lemma of_nat_val:
  "(of_nat (timer_val unit t) :: u32) = high_bits t * unit + low_bits t"
  "(of_nat (save_val unit v) :: u32) = ts_high v * unit + ts_low v"
  by (simp_all add: timer_val_def save_val_def)

text \<open>On a timer at rest \<^verbatim>\<open>timer_delta\<close> returns the time since the value in \<open>save\<close> (modulo 2 to
  the 32) and moves \<open>save\<close> to the present; the \<^verbatim>\<open>TIMER_DELTA\<close> macro, which avoids the call
  when the high part has not changed, adds the same difference and leaves the same \<open>save\<close>; and
  a later delta from that \<open>save\<close> makes the two add up to the whole difference.
\<close>

lemma timer_delta_correct:
  assumes "high_bits t = high_bits_check t" and "high_bits t' = high_bits_check t'"
  shows "\<exists>d save'. timer_delta unit t save = Some (d, save') \<and>
     save_val unit save' = timer_val unit t \<and>
     d = of_nat (timer_val unit t) - of_nat (save_val unit save) \<and>
     (save_val unit save \<le> timer_val unit t \<and> timer_val unit t - save_val unit save < 2 ^ 32 \<longrightarrow>
        unat d = timer_val unit t - save_val unit save) \<and>
     TIMER_DELTA unit t save result = Some (result + d, save') \<and>
     (\<exists>d'. map_option fst (timer_delta unit t' save') = Some d' \<and>
           d + d' = of_nat (timer_val unit t') - of_nat (save_val unit save))"
proof -
  let ?d = "(of_nat (timer_val unit t) - of_nat (save_val unit save)) :: u32"
  let ?s = "save\<lparr>ts_high := high_bits t, ts_low := low_bits t\<rparr>"
  have delta: "timer_delta unit t save = Some (?d, ?s)"
    using assms(1) by (simp add: timer_delta_def timer_grab_def of_nat_val algebra_simps)
  have val: "save_val unit ?s = timer_val unit t"
    by (simp add: save_val_def timer_val_def)
  have macro: "TIMER_DELTA unit t save result = Some (result + ?d, ?s)"
  proof (cases "ts_high save = high_bits_check t")
    case True
    then show ?thesis using assms(1)
      by (simp add: TIMER_DELTA_def of_nat_val Let_def)
  next
    case False
    then show ?thesis by (simp add: TIMER_DELTA_def delta)
  qed
  have exact: "unat ?d = timer_val unit t - save_val unit save"
    if le: "save_val unit save \<le> timer_val unit t" and "timer_val unit t - save_val unit save < 2 ^ 32"
  proof -
    have "?d = of_nat (timer_val unit t - save_val unit save)" using le by (simp add: of_nat_diff)
    then show ?thesis using that(2) by (simp add: unat_of_nat_small)
  qed
  have next_d: "map_option fst (timer_delta unit t' ?s) = Some (of_nat (timer_val unit t') - of_nat (save_val unit ?s))"
    using assms(2) by (simp add: timer_delta_def timer_grab_def of_nat_val algebra_simps)
  show ?thesis
    by (intro exI [of _ ?d] exI [of _ ?s] conjI delta val macro refl impI exact
        exI [of _ "of_nat (timer_val unit t') - of_nat (save_val unit ?s)"] next_d)
      (auto simp: val)
qed

subsection \<open>Accounting\<close>

lemma elapsed_correct:
  assumes "clock_after mx stamp d ts"
  shows "unat (elapsed_time mx ts stamp) = d"
proof (cases mx)
  case None
  then show ?thesis using assms
    by (auto simp: elapsed_time_def unat_of_nat_small)
next
  case (Some m)
  let ?M = "unat m"
  have b: "?M \<le> 2 ^ 31" "unat stamp < ?M" "d < ?M" "unat ts = (unat stamp + d) mod ?M"
    using assms Some by auto
  have e: "unat (ts - stamp) = (if unat stamp + d < ?M then d else d + 2 ^ 32 - ?M)"
    using b by (auto simp: unat_sub_if' mod_if)
  show ?thesis
  proof (cases "unat stamp + d < ?M")
    case True
    then have "\<not> sint (ts - stamp) < 0" using e b by (simp add: sint_neg_iff)
    with True show ?thesis by (simp add: elapsed_time_def Some e)
  next
    case False
    then have "sint (ts - stamp) < 0" using e b by (simp add: sint_neg_iff)
    moreover have "unat (ts - stamp + m) = d"
      using False e b by (subst unat_word_ariths) (simp add: mod_if)
    ultimately show ?thesis by (simp add: elapsed_time_def Some)
  qed
qed

text \<open>
  What every accounting routine promises: \<open>d\<close> ticks go to the timer that was running on \<open>cpu\<close>
  and to no other, \<open>new\<close> runs from \<open>ts\<close> on, the old timer is stopped, and no timer is left
  in the middle of a normalization.
\<close>

definition charged :: "u32 \<Rightarrow> nat \<Rightarrow> nat \<Rightarrow> ptr \<Rightarrow> u32 \<Rightarrow> timing \<Rightarrow> timing \<Rightarrow> bool" where
  "charged unit cpu d new ts s s' \<longleftrightarrow>
     (\<forall>p. timer_val unit (timers s' p) =
          timer_val unit (timers s p) + (if p = current_timer s cpu then d else 0)) \<and>
     (\<forall>p. tstamp (timers s' p) =
          (if p = new then ts else if p = current_timer s cpu then 0 else tstamp (timers s p))) \<and>
     current_timer s' = (current_timer s)(cpu := new) \<and>
     (\<forall>p. high_bits (timers s p) = high_bits_check (timers s p) \<longrightarrow>
          high_bits (timers s' p) = high_bits_check (timers s' p))"

lemma timing_simps [simp]:
  "timers (set_timer p t s) = (timers s)(p := t)"
  "timers (set_tstamp p ts s) = (timers s)(p := (timers s p)\<lparr>tstamp := ts\<rparr>)"
  "timers (set_current cpu p s) = timers s"
  "timers (check_timer unit p s) = (timers s)(p := timer_check unit (timers s p))"
  "current_timer (set_timer p t s) = current_timer s"
  "current_timer (set_tstamp p ts s) = current_timer s"
  "current_timer (set_current cpu p s) = (current_timer s)(cpu := p)"
  "current_timer (check_timer unit p s) = current_timer s"
  "current_timer (timer_charge mx ts p s) = current_timer s"
  by (simp_all add: set_timer_def set_tstamp_def set_current_def check_timer_def timer_charge_def Let_def)

lemma tstamp_irrelevant [simp]:
  "timer_val unit (t\<lparr>tstamp := ts\<rparr>) = timer_val unit t"
  by (simp add: timer_val_def)

lemma charge_effect:
  assumes "clock_after mx (tstamp (timers s p)) d ts" and "unat (low_bits (timers s p)) + d < 2 ^ 32"
  shows "timer_val unit (timers (timer_charge mx ts p s) q) =
      timer_val unit (timers s q) + (if q = p then d else 0)"
    and "tstamp (timers (timer_charge mx ts p s) q) = (if q = p then 0 else tstamp (timers s q))"
    and "high_bits (timers (timer_charge mx ts p s) q) = high_bits (timers s q)"
    and "high_bits_check (timers (timer_charge mx ts p s) q) = high_bits_check (timers s q)"
  using assms elapsed_correct [OF assms(1)]
  by (simp_all add: timer_charge_def Let_def timer_val_def unat_word_ariths)

lemma check_effect:
  assumes "\<And>q. timer_val unit (timers s q) < 2 ^ 32 * unat unit"
  shows "timer_val unit (timers (check_timer unit p s) q) = timer_val unit (timers s q)"
    and "tstamp (timers (check_timer unit p s) q) = tstamp (timers s q)"
    and "high_bits (timers (check_timer unit p s) q) = high_bits_check (timers (check_timer unit p s) q)
         \<longleftrightarrow> high_bits (timers s q) = high_bits_check (timers s q)"
  using assms by (simp_all add: check_val check_agree)

lemma charged_start:
  assumes "\<And>p. timer_val unit (timers s' p) =
      timer_val unit (timers s p) + (if p = current_timer s cpu then d else 0)"
    and "\<And>p. tstamp (timers s' p) = (if p = current_timer s cpu then 0 else tstamp (timers s p))"
    and "\<And>p. high_bits (timers s p) = high_bits_check (timers s p) \<Longrightarrow>
      high_bits (timers s' p) = high_bits_check (timers s' p)"
    and "current_timer s' = current_timer s"
  shows "charged unit cpu d new ts s (set_tstamp new ts (set_current cpu new s'))"
    and "charged unit cpu d new ts s (set_current cpu new (set_tstamp new ts s'))"
  using assms by (simp_all add: charged_def)

lemma init_loop:
  "i < n \<Longrightarrow> inj_on kt {..<n} \<Longrightarrow>
     timers (init_timers_loop kt n s) (kt i) = timer_init \<and> current_timer (init_timers_loop kt n s) i = 0"
proof (induction n)
  case (Suc n)
  have "inj_on kt {..<n}" using Suc.prems(2) by (rule inj_on_subset) auto
  moreover have "kt i = kt n \<longleftrightarrow> i = n" using Suc.prems by (simp add: inj_on_eq_iff)
  ultimately show ?case using Suc by (cases "i = n") auto
qed simp

text \<open>C32:
  Exact accounting.  \<open>d\<close> ticks after the running timer of a processor was started, each of
  the five routines charges exactly \<open>d\<close> to that timer and nothing to any other, whether or not
  a timer is normalized on the way and also when the timestamp hardware has wrapped, stops it,
  and starts the timer it switches to; interrupt entry returns the timer to come back to.  At
  boot every kernel timer is zero and only the boot processor's runs.
\<close>

theorem timer_accounting:
  "(clock_after mx (tstamp (timers s (current_timer s cpu))) d ts \<and>
    unat (low_bits (timers s (current_timer s cpu))) + d < 2 ^ 32 \<and>
    (\<forall>p. timer_val unit (timers s p) + d < 2 ^ 32 * unat unit) \<longrightarrow>
      charged unit cpu d new ts s (time_trap_uentry mx cpu new ts s) \<and>
      charged unit cpu d new ts s (time_trap_uexit mx unit cpu new ts s) \<and>
      fst (time_int_entry mx cpu ts new s) = current_timer s cpu \<and>
      charged unit cpu d new ts s (snd (time_int_entry mx cpu ts new s)) \<and>
      charged unit cpu d new ts s (time_int_exit mx unit cpu ts new s) \<and>
      charged unit cpu d new ts s (timer_switch mx unit cpu ts new s)) \<and>
   (inj_on kt {..<ncpus} \<and> cpu < ncpus \<and> i < ncpus \<longrightarrow>
      timer_val unit (timers (init_timers kt ncpus cpu now s) (kt i)) = 0 \<and>
      current_timer (init_timers kt ncpus cpu now s) i = (if i = cpu then kt cpu else 0) \<and>
      tstamp (timers (init_timers kt ncpus cpu now s) (kt cpu)) = now)"
proof (rule conjI; rule impI)
  let ?c = "timer_charge mx ts (current_timer s cpu) s"
  assume a: "clock_after mx (tstamp (timers s (current_timer s cpu))) d ts \<and>
    unat (low_bits (timers s (current_timer s cpu))) + d < 2 ^ 32 \<and>
    (\<forall>p. timer_val unit (timers s p) + d < 2 ^ 32 * unat unit)"
  note c = charge_effect [OF conjunct1 [OF a] conjunct1 [OF conjunct2 [OF a]]]
  have b: "timer_val unit (timers ?c q) < 2 ^ 32 * unat unit" for q
    using a unfolding c by (metis add.right_neutral add_lessD1)
  note k = check_effect [OF b]
  have b': "timer_val unit (timers (check_timer unit p ?c) q) < 2 ^ 32 * unat unit" for p q
    unfolding k by (rule b)
  note k' = check_effect [OF b']
  note facts = c k k'
  show "charged unit cpu d new ts s (time_trap_uentry mx cpu new ts s) \<and>
      charged unit cpu d new ts s (time_trap_uexit mx unit cpu new ts s) \<and>
      fst (time_int_entry mx cpu ts new s) = current_timer s cpu \<and>
      charged unit cpu d new ts s (snd (time_int_entry mx cpu ts new s)) \<and>
      charged unit cpu d new ts s (time_int_exit mx unit cpu ts new s) \<and>
      charged unit cpu d new ts s (timer_switch mx unit cpu ts new s)"
    unfolding time_trap_uentry_def time_trap_uexit_def time_int_entry_def time_int_exit_def
      timer_switch_def Let_def fst_conv snd_conv
    by (intro conjI refl charged_start; (simp only: facts)?; simp)
next
  assume a: "inj_on kt {..<ncpus} \<and> cpu < ncpus \<and> i < ncpus"
  then have "timers (init_timers_loop kt ncpus s) (kt j) = timer_init \<and>
      current_timer (init_timers_loop kt ncpus s) j = 0" if "j = i \<or> j = cpu" for j
    using that by (intro init_loop) auto
  then show "timer_val unit (timers (init_timers kt ncpus cpu now s) (kt i)) = 0 \<and>
      current_timer (init_timers kt ncpus cpu now s) i = (if i = cpu then kt cpu else 0) \<and>
      tstamp (timers (init_timers kt ncpus cpu now s) (kt cpu)) = now"
    by (auto simp: init_timers_def start_timer_def timer_init_def timer_val_def)
qed

theorem timer_accounting_witness:
  "\<exists>s. charged 1000000 0 25 7 5 s (time_trap_uexit (Some 1000) 1000000 0 7 5 s) \<and>
       tstamp (timers s (current_timer s 0)) = 980"
proof -
  define s where "s = \<lparr>timers = (\<lambda>p. timer_init\<lparr>tstamp := 980\<rparr>), current_timer = (\<lambda>c. 3)\<rparr>"
  show ?thesis
    using timer_accounting [of "Some 1000" s 0 25 5 1000000 7 "\<lambda>i. i" 1 0 0]
    by (intro exI [of _ s]) (auto simp: s_def timer_init_def timer_val_def)
qed

end
