(* ===== verification/VmResident.thy ===== *)
theory VmResident
  imports Prelude
begin

text \<open>
  Resident memory, \<^verbatim>\<open>vm/vm_resident.c\<close>, with the structures of \<^verbatim>\<open>vm/vm_page.h\<close> and
  \<^verbatim>\<open>vm/vm_object.h\<close> it works on.  Page cells and objects live in stores indexed by their
  address.  The queues a page is linked into (hash bucket, object list, free, active and
  inactive queue) are lists: theory Queue shows that \<^verbatim>\<open>queue_enter\<close> appends, that
  \<^verbatim>\<open>queue_remove\<close> takes the element out and that queues linked through different fields do
  not disturb each other.  Calls of the machine-dependent \<^verbatim>\<open>pmap\<close> module are recorded in
  order; the modify bits it reports are part of the state.  The configuration is the NeXT one,
  without \<^verbatim>\<open>MACH_XP\<close>.
\<close>

subsection \<open>Data\<close>

record vm_page =
  pg_object :: ptr
  pg_offset :: u32
  wire_count :: u16
  inactive :: bool
  active :: bool
  laundry :: bool
  pg_free :: bool
  clean :: bool
  busy :: bool
  wanted :: bool
  tabled :: bool
  pg_cow :: bool
  fictitious :: bool
  absent :: bool
  pg_error :: bool
  phys_addr :: u32
  page_lock :: u32
  unlock_request :: u32

record vm_object =
  memq :: "ptr list"
  o_size :: u32
  o_refs :: int
  resident_page_count :: int
  copy_obj :: ptr
  pager :: ptr
  pager_request :: ptr
  pager_name :: ptr
  paging_offset :: u32
  shadow :: ptr
  shadow_offset :: u32
  paging_in_progress :: u16
  can_persist :: bool
  internal :: bool
  pager_ready :: bool
  pager_creating :: bool
  last_alloc :: u32

datatype pmap_call =
    PmapClearReference u32
  | PmapZeroPage u32
  | PmapCopyPage u32 u32
  | PmapRemoveAll u32
  | PmapCopyOnWrite u32
  | PmapRemove ptr u32 u32
  | PmapProtect ptr u32 u32 u32
  | PmapCopy ptr ptr u32 u32 u32
  | PmapReference ptr
  | PmapDestroy ptr
  | PmapEnter ptr u32 u32 u32 bool

record vm_pages =
  page :: "ptr \<Rightarrow> vm_page"
  obj :: "ptr \<Rightarrow> vm_object"
  vm_page_buckets :: "nat \<Rightarrow> ptr list"
  vm_page_hash_mask :: u32
  page_size :: u32
  page_mask :: u32
  page_shift :: nat
  queue_free :: "ptr list"
  queue_active :: "ptr list"
  queue_inactive :: "ptr list"
  free_count :: int
  active_count :: int
  inactive_count :: int
  page_wire_count :: int
  free_target :: int
  free_min :: int
  inactive_target :: int
  free_reserved :: int
  pages_needed :: bool
  pmap_modified :: "u32 \<Rightarrow> bool"
  pmap_log :: "pmap_call list"

definition upd_page :: "ptr \<Rightarrow> (vm_page \<Rightarrow> vm_page) \<Rightarrow> 'a vm_pages_scheme \<Rightarrow> 'a vm_pages_scheme" where
  "upd_page p f s = s\<lparr>page := (page s)(p := f (page s p))\<rparr>"

definition upd_obj :: "ptr \<Rightarrow> (vm_object \<Rightarrow> vm_object) \<Rightarrow> 'a vm_pages_scheme \<Rightarrow> 'a vm_pages_scheme" where
  "upd_obj p f s = s\<lparr>obj := (obj s)(p := f (obj s p))\<rparr>"

definition pmap_do :: "pmap_call \<Rightarrow> 'a vm_pages_scheme \<Rightarrow> 'a vm_pages_scheme" where
  "pmap_do c s = s\<lparr>pmap_log := pmap_log s @ [c]\<rparr>"

subsection \<open>Page size arithmetic\<close>

definition atop :: "nat \<Rightarrow> u32 \<Rightarrow> u32" where
  "atop shift x = drop_bit shift x"

definition ptoa :: "nat \<Rightarrow> u32 \<Rightarrow> u32" where
  "ptoa shift x = push_bit shift x"

definition round_page :: "u32 \<Rightarrow> u32 \<Rightarrow> u32" where
  "round_page pmask x = (x + pmask) AND NOT pmask"

definition trunc_page :: "u32 \<Rightarrow> u32 \<Rightarrow> u32" where
  "trunc_page pmask x = x AND NOT pmask"

text \<open>
  The search for the shift; \<open>None\<close> stands for a shift by 32 or more, which C leaves undefined.
\<close>

function page_shift_loop :: "u32 \<Rightarrow> nat \<Rightarrow> nat option" where
  "page_shift_loop psize shift =
    (if 32 \<le> shift then None
     else if push_bit shift 1 = psize then Some shift
     else page_shift_loop psize (Suc shift))"
  by pat_completeness auto
termination by (relation "measure (\<lambda>(psize, shift). 32 - shift)") auto

declare page_shift_loop.simps [simp del]

definition vm_set_page_size :: "'a vm_pages_scheme \<Rightarrow> 'a vm_pages_scheme option kresult" where
  "vm_set_page_size s =
    (let s = s\<lparr>page_mask := page_size s - 1\<rparr> in
     if page_size s = 0 \<or> page_mask s AND page_size s \<noteq> 0
     then Inl ''vm_set_page_size: improper page size''
     else Inr (map_option (\<lambda>n. s\<lparr>page_shift := n\<rparr>) (page_shift_loop (page_size s) 0)))"

subsection \<open>The object/offset table\<close>

definition vm_page_hash :: "'a vm_pages_scheme \<Rightarrow> ptr \<Rightarrow> u32 \<Rightarrow> nat" where
  "vm_page_hash s object offset =
     unat ((of_nat object + atop (page_shift s) offset) AND vm_page_hash_mask s)"

definition vm_page_insert :: "ptr \<Rightarrow> ptr \<Rightarrow> u32 \<Rightarrow> 'a vm_pages_scheme \<Rightarrow> 'a vm_pages_scheme kresult" where
  "vm_page_insert mem object offset s =
    (if tabled (page s mem) then Inl ''vm_page_insert: already inserted''
     else
      (let s = upd_page mem (\<lambda>p. p\<lparr>pg_object := object, pg_offset := offset\<rparr>) s;
           bucket = vm_page_hash s object offset;
           s = s\<lparr>vm_page_buckets := (vm_page_buckets s)(bucket := vm_page_buckets s bucket @ [mem])\<rparr>;
           s = upd_obj object (\<lambda>ob. ob\<lparr>memq := memq ob @ [mem]\<rparr>) s;
           s = upd_page mem (\<lambda>p. p\<lparr>tabled := True\<rparr>) s
       in Inr (upd_obj object (\<lambda>ob. ob\<lparr>resident_page_count := resident_page_count ob + 1\<rparr>) s)))"

definition vm_page_remove :: "ptr \<Rightarrow> 'a vm_pages_scheme \<Rightarrow> 'a vm_pages_scheme" where
  "vm_page_remove mem s =
    (if \<not> tabled (page s mem) then s
     else
      (let object = pg_object (page s mem);
           bucket = vm_page_hash s object (pg_offset (page s mem));
           s = s\<lparr>vm_page_buckets := (vm_page_buckets s)(bucket := remove1 mem (vm_page_buckets s bucket))\<rparr>;
           s = upd_obj object (\<lambda>ob. ob\<lparr>memq := remove1 mem (memq ob)\<rparr>) s;
           s = upd_obj object (\<lambda>ob. ob\<lparr>resident_page_count := resident_page_count ob - 1\<rparr>) s
       in upd_page mem (\<lambda>p. p\<lparr>tabled := False\<rparr>) s))"

text \<open>The walk along a bucket; the null page is 0.\<close>

fun bucket_search :: "'a vm_pages_scheme \<Rightarrow> ptr \<Rightarrow> u32 \<Rightarrow> ptr list \<Rightarrow> ptr" where
  "bucket_search s object offset [] = 0"
| "bucket_search s object offset (mem # ms) =
     (if pg_object (page s mem) = object \<and> pg_offset (page s mem) = offset then mem
      else bucket_search s object offset ms)"

definition vm_page_lookup :: "ptr \<Rightarrow> u32 \<Rightarrow> 'a vm_pages_scheme \<Rightarrow> ptr" where
  "vm_page_lookup object offset s =
     bucket_search s object offset (vm_page_buckets s (vm_page_hash s object offset))"

definition vm_page_rename :: "ptr \<Rightarrow> ptr \<Rightarrow> u32 \<Rightarrow> 'a vm_pages_scheme \<Rightarrow> 'a vm_pages_scheme kresult" where
  "vm_page_rename mem new_object new_offset s =
    (if pg_object (page s mem) = new_object then Inr s
     else vm_page_insert mem new_object new_offset (vm_page_remove mem s))"

definition vm_page_template :: vm_page where
  "vm_page_template =
    \<lparr>pg_object = 0, pg_offset = 0, wire_count = 0, inactive = False, active = False, laundry = False,
     pg_free = False, clean = True, busy = True, wanted = False, tabled = False, pg_cow = False,
     fictitious = False, absent = False, pg_error = False, phys_addr = 0, page_lock = 0,
     unlock_request = 0\<rparr>"

definition vm_page_init :: "ptr \<Rightarrow> ptr \<Rightarrow> u32 \<Rightarrow> u32 \<Rightarrow> 'a vm_pages_scheme \<Rightarrow> 'a vm_pages_scheme kresult" where
  "vm_page_init mem object offset pa s =
     vm_page_insert mem object offset (upd_page mem (\<lambda>_. vm_page_template\<lparr>phys_addr := pa\<rparr>) s)"

subsection \<open>The paging queues\<close>

definition take_active :: "ptr \<Rightarrow> 'a vm_pages_scheme \<Rightarrow> 'a vm_pages_scheme" where
  "take_active mem s =
    (if active (page s mem)
     then (upd_page mem (\<lambda>p. p\<lparr>active := False\<rparr>) s)
            \<lparr>queue_active := remove1 mem (queue_active s), active_count := active_count s - 1\<rparr>
     else s)"

definition take_inactive :: "ptr \<Rightarrow> 'a vm_pages_scheme \<Rightarrow> 'a vm_pages_scheme" where
  "take_inactive mem s =
    (if inactive (page s mem)
     then (upd_page mem (\<lambda>p. p\<lparr>inactive := False\<rparr>) s)
            \<lparr>queue_inactive := remove1 mem (queue_inactive s), inactive_count := inactive_count s - 1\<rparr>
     else s)"

definition take_free :: "ptr \<Rightarrow> 'a vm_pages_scheme \<Rightarrow> 'a vm_pages_scheme" where
  "take_free mem s =
    (if pg_free (page s mem)
     then (upd_page mem (\<lambda>p. p\<lparr>pg_free := False\<rparr>) s)
            \<lparr>queue_free := remove1 mem (queue_free s), free_count := free_count s - 1\<rparr>
     else s)"

definition vm_page_addfree :: "ptr \<Rightarrow> 'a vm_pages_scheme \<Rightarrow> 'a vm_pages_scheme" where
  "vm_page_addfree mem s =
    (let s = take_inactive mem (take_active mem s) in
     if fictitious (page s mem) then s
     else (upd_page mem (\<lambda>p. p\<lparr>pg_free := True\<rparr>) s)
            \<lparr>queue_free := queue_free s @ [mem], free_count := free_count s + 1\<rparr>)"

definition vm_page_free :: "ptr \<Rightarrow> 'a vm_pages_scheme \<Rightarrow> 'a vm_pages_scheme" where
  "vm_page_free mem s =
    (let s = vm_page_remove mem s
     in if pg_free (page s mem) then s else vm_page_addfree mem s)"

definition vm_page_wire :: "ptr \<Rightarrow> 'a vm_pages_scheme \<Rightarrow> 'a vm_pages_scheme" where
  "vm_page_wire mem s =
    (let s = (if wire_count (page s mem) = 0
              then (let s = take_free mem (take_inactive mem (take_active mem s))
                    in s\<lparr>page_wire_count := page_wire_count s + 1\<rparr>)
              else s)
     in upd_page mem (\<lambda>p. p\<lparr>wire_count := wire_count p + 1\<rparr>) s)"

definition vm_page_unwire :: "ptr \<Rightarrow> 'a vm_pages_scheme \<Rightarrow> 'a vm_pages_scheme" where
  "vm_page_unwire mem s =
    (let s = upd_page mem (\<lambda>p. p\<lparr>wire_count := wire_count p - 1\<rparr>) s in
     if wire_count (page s mem) = 0
     then (upd_page mem (\<lambda>p. p\<lparr>active := True\<rparr>) s)
            \<lparr>queue_active := queue_active s @ [mem], active_count := active_count s + 1,
             page_wire_count := page_wire_count s - 1\<rparr>
     else s)"

definition vm_page_deactivate :: "ptr \<Rightarrow> 'a vm_pages_scheme \<Rightarrow> 'a vm_pages_scheme" where
  "vm_page_deactivate m s =
    (if active (page s m)
     then
      (let pa = phys_addr (page s m);
           s = pmap_do (PmapClearReference pa) s;
           s = s\<lparr>queue_active := remove1 m (queue_active s), queue_inactive := queue_inactive s @ [m]\<rparr>;
           s = upd_page m (\<lambda>p. p\<lparr>active := False, inactive := True\<rparr>) s;
           s = s\<lparr>active_count := active_count s - 1, inactive_count := inactive_count s + 1\<rparr>;
           s = (if clean (page s m) \<and> pmap_modified s pa
                then upd_page m (\<lambda>p. p\<lparr>clean := False\<rparr>) s else s)
       in upd_page m (\<lambda>p. p\<lparr>laundry := \<not> clean p\<rparr>) s)
     else s)"

definition vm_page_activate :: "ptr \<Rightarrow> 'a vm_pages_scheme \<Rightarrow> 'a vm_pages_scheme kresult" where
  "vm_page_activate m s =
    (let s = take_free m (take_inactive m s) in
     if wire_count (page s m) = 0
     then if active (page s m) then Inl ''vm_page_activate: already active''
          else Inr ((upd_page m (\<lambda>p. p\<lparr>active := True\<rparr>) s)
                 \<lparr>queue_active := queue_active s @ [m], active_count := active_count s + 1\<rparr>)
     else Inr s)"

definition vm_page_alloc :: "bool \<Rightarrow> ptr \<Rightarrow> u32 \<Rightarrow> 'a vm_pages_scheme \<Rightarrow> (ptr \<times> 'a vm_pages_scheme) kresult" where
  "vm_page_alloc vm_privilege object offset s =
    (if queue_free s = [] then Inr (0, s)
     else if free_count s < free_reserved s \<and> \<not> vm_privilege then Inr (0, s)
     else
      (let mem = hd (queue_free s);
           s = s\<lparr>queue_free := tl (queue_free s)\<rparr>;
           s = upd_page mem (\<lambda>p. p\<lparr>pg_free := False\<rparr>) s;
           s = s\<lparr>free_count := free_count s - 1\<rparr>;
           s = vm_page_remove mem s
       in kbind (vm_page_init mem object offset (phys_addr (page s mem)) s) (\<lambda>s.
          let s = (if free_count s < free_min s \<or>
                      free_count s < free_target s \<and> inactive_count s < inactive_target s
                   then s\<lparr>pages_needed := True\<rparr> else s);
              s = (if offset = last_alloc (obj s object) + page_size s
                   then let last_mem = vm_page_lookup object (last_alloc (obj s object)) s
                        in if last_mem \<noteq> 0 then vm_page_deactivate last_mem s else s
                   else s)
          in Inr (mem, upd_obj object (\<lambda>ob. ob\<lparr>last_alloc := offset\<rparr>) s))))"

definition vm_page_zero_fill :: "ptr \<Rightarrow> 'a vm_pages_scheme \<Rightarrow> bool \<times> 'a vm_pages_scheme" where
  "vm_page_zero_fill m s = (True, pmap_do (PmapZeroPage (phys_addr (page s m))) s)"

definition vm_page_copy :: "ptr \<Rightarrow> ptr \<Rightarrow> 'a vm_pages_scheme \<Rightarrow> 'a vm_pages_scheme" where
  "vm_page_copy src_m dest_m s =
     pmap_do (PmapCopyPage (phys_addr (page s src_m)) (phys_addr (page s dest_m))) s"


subsection \<open>Startup\<close>

text \<open>
  The number of hash buckets: the first power of two that is not below the number of pages.
\<close>

function bucket_count_loop :: "nat \<Rightarrow> nat \<Rightarrow> nat" where
  "bucket_count_loop n c = (if 0 < c \<and> c < n then bucket_count_loop n (2 * c) else c)"
  by pat_completeness auto
termination by (relation "measure (\<lambda>(n, c). n - c)") auto

declare bucket_count_loop.simps [simp del]

text \<open>A page cell after \<^verbatim>\<open>blkclr\<close>.\<close>

definition blank_page :: vm_page where
  "blank_page =
    \<lparr>pg_object = 0, pg_offset = 0, wire_count = 0, inactive = False, active = False, laundry = False,
     pg_free = False, clean = False, busy = False, wanted = False, tabled = False, pg_cow = False,
     fictitious = False, absent = False, pg_error = False, phys_addr = 0, page_lock = 0,
     unlock_request = 0\<rparr>"

text \<open>
  The loop that puts the cells of a region, \<open>sz\<close> bytes apart, on the free queue.
\<close>

primrec page_cells :: "nat \<Rightarrow> nat \<Rightarrow> ptr \<Rightarrow> u32 \<Rightarrow> 'a vm_pages_scheme \<Rightarrow> 'a vm_pages_scheme" where
  "page_cells 0 sz m pa s = s"
| "page_cells (Suc pages) sz m pa s =
     page_cells pages sz (m + sz) (pa + page_size s)
       ((upd_page m (\<lambda>p. p\<lparr>phys_addr := pa, pg_free := True\<rparr>) s)\<lparr>queue_free := queue_free s @ [m]\<rparr>)"

text \<open>
  \<^verbatim>\<open>vm_page_startup\<close> for one region of \<open>pages\<close> cells at \<open>m\<close>, once the memory it takes for
  itself has been laid out: empty queues and buckets, cleared cells, all of them free.
\<close>

definition vm_page_startup :: "nat \<Rightarrow> nat \<Rightarrow> ptr \<Rightarrow> u32 \<Rightarrow> 'a vm_pages_scheme \<Rightarrow> 'a vm_pages_scheme" where
  "vm_page_startup pages sz m pa s =
    (let s = s\<lparr>queue_free := [], queue_active := [], queue_inactive := []\<rparr>;
         vm_page_bucket_count = bucket_count_loop pages 1;
         s = s\<lparr>vm_page_hash_mask := of_nat (vm_page_bucket_count - 1)\<rparr>;
         s = s\<lparr>vm_page_buckets := (\<lambda>_. [])\<rparr>;
         s = s\<lparr>free_count := int pages\<rparr>;
         s = s\<lparr>page := (\<lambda>_. blank_page)\<rparr>
     in page_cells pages sz m pa s)"

subsection \<open>Invariants\<close>

text \<open>
  The object/offset table: hash buckets, object lists and the \<^verbatim>\<open>tabled\<close> bits describe the
  same set of pages, no two of them have the same object and offset, and every object counts
  its resident pages.
\<close>

definition table_inv :: "'a vm_pages_scheme \<Rightarrow> bool" where
  "table_inv s \<longleftrightarrow>
     (\<forall>q. distinct (memq (obj s q)) \<and>
          set (memq (obj s q)) = {p. tabled (page s p) \<and> pg_object (page s p) = q} \<and>
          resident_page_count (obj s q) = int (length (memq (obj s q)))) \<and>
     (\<forall>b. distinct (vm_page_buckets s b) \<and>
          set (vm_page_buckets s b) =
            {p. tabled (page s p) \<and> vm_page_hash s (pg_object (page s p)) (pg_offset (page s p)) = b}) \<and>
     (\<forall>p q. tabled (page s p) \<and> tabled (page s q) \<and> pg_object (page s p) = pg_object (page s q) \<and>
          pg_offset (page s p) = pg_offset (page s q) \<longrightarrow> p = q) \<and>
     \<not> tabled (page s 0)"

text \<open>
  The paging queues: each holds exactly the pages that carry its bit, a page is on at most one
  of them and a wired page on none, and the counters are the lengths.
\<close>

definition on_queue :: "(vm_page \<Rightarrow> bool) \<Rightarrow> ptr list \<Rightarrow> int \<Rightarrow> (ptr \<Rightarrow> vm_page) \<Rightarrow> bool" where
  "on_queue flag xs n pg \<longleftrightarrow> distinct xs \<and> set xs = {p. flag (pg p)} \<and> n = int (length xs)"

definition page_excl :: "vm_page \<Rightarrow> bool" where
  "page_excl v \<longleftrightarrow>
     \<not> (pg_free v \<and> active v) \<and> \<not> (pg_free v \<and> inactive v) \<and> \<not> (active v \<and> inactive v) \<and>
     (wire_count v \<noteq> 0 \<longrightarrow> \<not> pg_free v \<and> \<not> active v \<and> \<not> inactive v)"

definition wire_total :: "int \<Rightarrow> (ptr \<Rightarrow> vm_page) \<Rightarrow> bool" where
  "wire_total n pg \<longleftrightarrow> finite {p. wire_count (pg p) \<noteq> 0} \<and> n = int (card {p. wire_count (pg p) \<noteq> 0})"

definition queue_inv :: "'a vm_pages_scheme \<Rightarrow> bool" where
  "queue_inv s \<longleftrightarrow>
     on_queue pg_free (queue_free s) (free_count s) (page s) \<and>
     on_queue active (queue_active s) (active_count s) (page s) \<and>
     on_queue inactive (queue_inactive s) (inactive_count s) (page s) \<and>
     wire_total (page_wire_count s) (page s) \<and>
     (\<forall>p. page_excl (page s p)) \<and> \<not> pg_free (page s 0)"

text \<open>What the table stands for: a partial function from object and offset to pages.\<close>

definition page_at :: "'a vm_pages_scheme \<Rightarrow> ptr \<times> u32 \<Rightarrow> ptr option" where
  "page_at s k = (let p = vm_page_lookup (fst k) (snd k) s in if p = 0 then None else Some p)"

lemma upd_page_simps [simp]:
  "page (upd_page p f s) = (page s)(p := f (page s p))"
  "obj (upd_page p f s) = obj s"
  "vm_page_buckets (upd_page p f s) = vm_page_buckets s"
  "vm_page_hash_mask (upd_page p f s) = vm_page_hash_mask s"
  "page_shift (upd_page p f s) = page_shift s" "page_size (upd_page p f s) = page_size s"
  "queue_free (upd_page p f s) = queue_free s" "queue_active (upd_page p f s) = queue_active s"
  "queue_inactive (upd_page p f s) = queue_inactive s"
  "free_count (upd_page p f s) = free_count s" "active_count (upd_page p f s) = active_count s"
  "inactive_count (upd_page p f s) = inactive_count s"
  "page_wire_count (upd_page p f s) = page_wire_count s"
  "free_min (upd_page p f s) = free_min s" "free_target (upd_page p f s) = free_target s"
  "inactive_target (upd_page p f s) = inactive_target s" "free_reserved (upd_page p f s) = free_reserved s"
  "pmap_log (upd_page p f s) = pmap_log s" "pmap_modified (upd_page p f s) = pmap_modified s"
  by (simp_all add: upd_page_def)

lemma upd_obj_simps [simp]:
  "obj (upd_obj p g s) = (obj s)(p := g (obj s p))"
  "page (upd_obj p g s) = page s"
  "vm_page_buckets (upd_obj p g s) = vm_page_buckets s"
  "vm_page_hash_mask (upd_obj p g s) = vm_page_hash_mask s"
  "page_shift (upd_obj p g s) = page_shift s" "page_size (upd_obj p g s) = page_size s"
  "queue_free (upd_obj p g s) = queue_free s" "queue_active (upd_obj p g s) = queue_active s"
  "queue_inactive (upd_obj p g s) = queue_inactive s"
  "free_count (upd_obj p g s) = free_count s" "active_count (upd_obj p g s) = active_count s"
  "inactive_count (upd_obj p g s) = inactive_count s"
  "page_wire_count (upd_obj p g s) = page_wire_count s"
  "free_min (upd_obj p g s) = free_min s" "free_target (upd_obj p g s) = free_target s"
  "inactive_target (upd_obj p g s) = inactive_target s" "free_reserved (upd_obj p g s) = free_reserved s"
  "pmap_log (upd_obj p g s) = pmap_log s" "pmap_modified (upd_obj p g s) = pmap_modified s"
  by (simp_all add: upd_obj_def)

lemma pmap_do_simps [simp]:
  "page (pmap_do c s) = page s" "obj (pmap_do c s) = obj s"
  "vm_page_buckets (pmap_do c s) = vm_page_buckets s"
  "vm_page_hash_mask (pmap_do c s) = vm_page_hash_mask s" "page_shift (pmap_do c s) = page_shift s"
  "queue_free (pmap_do c s) = queue_free s" "queue_active (pmap_do c s) = queue_active s"
  "queue_inactive (pmap_do c s) = queue_inactive s" "free_count (pmap_do c s) = free_count s"
  "active_count (pmap_do c s) = active_count s" "inactive_count (pmap_do c s) = inactive_count s"
  "page_wire_count (pmap_do c s) = page_wire_count s" "pmap_modified (pmap_do c s) = pmap_modified s"
  "pmap_log (pmap_do c s) = pmap_log s @ [c]"
  by (simp_all add: pmap_do_def)

text \<open>Only the following parts of the state matter to the table.\<close>

definition table_same :: "'a vm_pages_scheme \<Rightarrow> 'b vm_pages_scheme \<Rightarrow> bool" where
  "table_same s t \<longleftrightarrow>
     (\<forall>p. tabled (page t p) = tabled (page s p) \<and> pg_object (page t p) = pg_object (page s p) \<and>
          pg_offset (page t p) = pg_offset (page s p)) \<and>
     (\<forall>q. memq (obj t q) = memq (obj s q) \<and> resident_page_count (obj t q) = resident_page_count (obj s q)) \<and>
     vm_page_buckets t = vm_page_buckets s \<and> vm_page_hash_mask t = vm_page_hash_mask s \<and>
     page_shift t = page_shift s"

lemma hash_cong:
  "vm_page_hash_mask t = vm_page_hash_mask s \<Longrightarrow> page_shift t = page_shift s \<Longrightarrow>
     vm_page_hash t = vm_page_hash s"
  by (intro ext) (simp add: vm_page_hash_def)

lemma bucket_search_cong:
  "(\<And>p. pg_object (page t p) = pg_object (page s p)) \<Longrightarrow> (\<And>p. pg_offset (page t p) = pg_offset (page s p)) \<Longrightarrow>
     bucket_search t q a ms = bucket_search s q a ms"
  by (induction ms) auto

lemma table_same_inv: "table_same s t \<Longrightarrow> table_inv t = table_inv s"
  by (simp add: table_same_def table_inv_def hash_cong [of t s])

lemma table_same_lookup: "table_same s t \<Longrightarrow> vm_page_lookup q a t = vm_page_lookup q a s"
  by (simp add: table_same_def vm_page_lookup_def hash_cong [of t s] bucket_search_cong [of t s])

lemma table_same_page_at: "table_same s t \<Longrightarrow> page_at t = page_at s"
  by (intro ext) (simp add: page_at_def table_same_lookup)

lemma bucket_search_found:
  "bucket_search s q a ms \<noteq> 0 \<Longrightarrow>
     bucket_search s q a ms \<in> set ms \<and> pg_object (page s (bucket_search s q a ms)) = q \<and>
     pg_offset (page s (bucket_search s q a ms)) = a"
  by (induction ms) auto

lemma bucket_search_member:
  "p \<in> set ms \<Longrightarrow> pg_object (page s p) = q \<Longrightarrow> pg_offset (page s p) = a \<Longrightarrow> 0 \<notin> set ms \<Longrightarrow>
     bucket_search s q a ms \<noteq> 0"
  by (induction ms) auto

lemma table_invD:
  assumes "table_inv s"
  shows "distinct (memq (obj s q))"
    and "set (memq (obj s q)) = {p. tabled (page s p) \<and> pg_object (page s p) = q}"
    and "resident_page_count (obj s q) = int (length (memq (obj s q)))"
    and "distinct (vm_page_buckets s b)"
    and "set (vm_page_buckets s b) =
      {p. tabled (page s p) \<and> vm_page_hash s (pg_object (page s p)) (pg_offset (page s p)) = b}"
    and "\<not> tabled (page s 0)"
  using assms by (simp_all add: table_inv_def)

lemma table_inv_inj:
  "table_inv s \<Longrightarrow> tabled (page s p) \<Longrightarrow> tabled (page s q) \<Longrightarrow> pg_object (page s p) = pg_object (page s q) \<Longrightarrow>
     pg_offset (page s p) = pg_offset (page s q) \<Longrightarrow> p = q"
  unfolding table_inv_def by (elim conjE) blast

lemma lookup_iff:
  assumes "table_inv s"
  shows "vm_page_lookup q a s = p \<and> p \<noteq> 0 \<longleftrightarrow>
     tabled (page s p) \<and> pg_object (page s p) = q \<and> pg_offset (page s p) = a"
proof -
  let ?b = "vm_page_buckets s (vm_page_hash s q a)"
  have b: "set ?b = {p. tabled (page s p) \<and> vm_page_hash s (pg_object (page s p)) (pg_offset (page s p)) = vm_page_hash s q a}"
    and z: "0 \<notin> set ?b"
    using table_invD [OF assms] by simp_all
  show ?thesis
  proof
    assume "vm_page_lookup q a s = p \<and> p \<noteq> 0"
    then show "tabled (page s p) \<and> pg_object (page s p) = q \<and> pg_offset (page s p) = a"
      using bucket_search_found [of s q a ?b] b by (auto simp: vm_page_lookup_def)
  next
    assume p: "tabled (page s p) \<and> pg_object (page s p) = q \<and> pg_offset (page s p) = a"
    then have "p \<in> set ?b" using b by auto
    then have nz: "bucket_search s q a ?b \<noteq> 0" using p z by (intro bucket_search_member) auto
    let ?r = "bucket_search s q a ?b"
    have "?r = p"
      by (rule table_inv_inj [OF assms]) (use bucket_search_found [OF nz] b p in auto)
    with nz show "vm_page_lookup q a s = p \<and> p \<noteq> 0" by (simp add: vm_page_lookup_def)
  qed
qed

lemma page_at_iff:
  "table_inv s \<Longrightarrow> page_at s (q, a) = Some p \<longleftrightarrow>
     tabled (page s p) \<and> pg_object (page s p) = q \<and> pg_offset (page s p) = a"
  using lookup_iff [of s q a p] by (auto simp: page_at_def Let_def)

lemma page_at_eqI:
  assumes "\<And>q a p. page_at s (q, a) = Some p \<longleftrightarrow> m (q, a) = Some p"
  shows "page_at s = m"
proof
  fix k show "page_at s k = m k"
    using assms [of "fst k" "snd k"] by (cases "m k"; cases "page_at s k") auto
qed


lemma insert_table:
  assumes inv: "table_inv s" and "\<not> tabled (page s mem)" and "mem \<noteq> 0"
    and free: "page_at s (q, a) = None"
  shows "\<exists>t. vm_page_insert mem q a s = Inr t \<and> table_inv t \<and> page_at t = (page_at s)((q, a) \<mapsto> mem)"
proof -
  obtain t where t: "vm_page_insert mem q a s = Inr t"
    using assms(2) by (simp add: vm_page_insert_def Let_def)
  have hash: "vm_page_hash t = vm_page_hash s"
    using t by (auto simp: vm_page_insert_def Let_def intro!: hash_cong split: if_splits)
  have pg: "page t = (page s)(mem := (page s mem)\<lparr>pg_object := q, pg_offset := a, tabled := True\<rparr>)"
    and bk: "vm_page_buckets t =
      (vm_page_buckets s)(vm_page_hash s q a := vm_page_buckets s (vm_page_hash s q a) @ [mem])"
    and ob: "memq (obj t q') = (if q' = q then memq (obj s q) @ [mem] else memq (obj s q'))"
    and rc: "resident_page_count (obj t q') = resident_page_count (obj s q') + (if q' = q then 1 else 0)" for q'
    using t hash_cong [of "upd_page mem (\<lambda>p. p\<lparr>pg_object := q, pg_offset := a\<rparr>) s" s] assms(2)
    by (auto simp: vm_page_insert_def Let_def split: if_splits)
  have nokey: "\<forall>p. tabled (page s p) \<longrightarrow> pg_object (page s p) = q \<longrightarrow> pg_offset (page s p) \<noteq> a"
    using free page_at_iff [OF inv, of q a] by simp
  have "table_inv t"
    unfolding table_inv_def hash pg bk ob rc
    using table_invD [OF inv] assms(2,3) nokey table_inv_inj [OF inv]
    by (intro conjI allI impI) (auto split: if_splits)
  moreover have "page_at t = (page_at s)((q, a) \<mapsto> mem)"
    using nokey assms(2)
    by (intro page_at_eqI) (auto simp: page_at_iff [OF \<open>table_inv t\<close>] page_at_iff [OF inv] pg)
  ultimately show ?thesis using t by blast
qed

lemma remove_fields:
  "page (vm_page_remove mem s) = (page s)(mem := (page s mem)\<lparr>tabled := False\<rparr>)"
  "queue_free (vm_page_remove mem s) = queue_free s" "queue_active (vm_page_remove mem s) = queue_active s"
  "queue_inactive (vm_page_remove mem s) = queue_inactive s" "free_count (vm_page_remove mem s) = free_count s"
  "active_count (vm_page_remove mem s) = active_count s" "inactive_count (vm_page_remove mem s) = inactive_count s"
  "page_wire_count (vm_page_remove mem s) = page_wire_count s"
  "pmap_log (vm_page_remove mem s) = pmap_log s" "vm_page_hash_mask (vm_page_remove mem s) = vm_page_hash_mask s"
  "page_shift (vm_page_remove mem s) = page_shift s"
  by (auto simp: vm_page_remove_def Let_def)

lemma remove_table:
  assumes inv: "table_inv s"
  shows "table_inv (vm_page_remove mem s)"
    and "page_at (vm_page_remove mem s) =
      (if tabled (page s mem) then (page_at s)((pg_object (page s mem), pg_offset (page s mem)) := None)
       else page_at s)"
proof -
  let ?t = "vm_page_remove mem s"
  have "table_inv ?t \<and> page_at ?t =
      (if tabled (page s mem) then (page_at s)((pg_object (page s mem), pg_offset (page s mem)) := None)
       else page_at s)"
  proof (cases "tabled (page s mem)")
    case False
    then show ?thesis using inv by (simp add: vm_page_remove_def)
  next
    case True
    let ?q = "pg_object (page s mem)" and ?a = "pg_offset (page s mem)"
    have hash: "vm_page_hash ?t = vm_page_hash s" by (rule hash_cong) (simp_all add: remove_fields)
    have bk: "vm_page_buckets ?t =
        (vm_page_buckets s)(vm_page_hash s ?q ?a := remove1 mem (vm_page_buckets s (vm_page_hash s ?q ?a)))"
      and ob: "memq (obj ?t q') = (if q' = ?q then remove1 mem (memq (obj s ?q)) else memq (obj s q'))"
      and rc: "resident_page_count (obj ?t q') = resident_page_count (obj s q') - (if q' = ?q then 1 else 0)" for q'
      using True by (auto simp: vm_page_remove_def Let_def)
    have "length (memq (obj s ?q)) \<noteq> 0" using table_invD(2) [OF inv, of ?q] True by auto
    then have len: "int (length (memq (obj s ?q)) - Suc 0) = int (length (memq (obj s ?q))) - 1"
      by (cases "memq (obj s ?q)") auto
    have "table_inv ?t"
      unfolding table_inv_def hash remove_fields bk ob rc
      using table_invD [OF inv] table_inv_inj [OF inv] True len
      by (intro conjI allI impI) (auto simp: length_remove1 split: if_splits)
    moreover have "page_at ?t = (page_at s)((?q, ?a) := None)"
      using True table_inv_inj [OF inv _ True]
      by (intro page_at_eqI) (auto simp: page_at_iff [OF \<open>table_inv ?t\<close>] page_at_iff [OF inv] remove_fields)
    ultimately show ?thesis using True by simp
  qed
  then show "table_inv ?t" "page_at ?t =
      (if tabled (page s mem) then (page_at s)((pg_object (page s mem), pg_offset (page s mem)) := None)
       else page_at s)" by blast+
qed


lemma rename_table:
  assumes inv: "table_inv s" and "tabled (page s mem)" and "pg_object (page s mem) \<noteq> q"
    and "page_at s (q, a) = None"
  shows "\<exists>t. vm_page_rename mem q a s = Inr t \<and> table_inv t \<and>
     page_at t = (page_at s)((pg_object (page s mem), pg_offset (page s mem)) := None, (q, a) \<mapsto> mem)"
proof -
  have "mem \<noteq> 0" using table_invD(6) [OF inv] assms(2) by (cases "mem = 0") auto
  then show ?thesis
    using insert_table [OF remove_table(1) [OF inv], of mem mem q a] remove_table(2) [OF inv, of mem] assms
    by (auto simp: vm_page_rename_def remove_fields)
qed

subsection \<open>Queues\<close>

lemma on_queue_upd:
  assumes "on_queue flag xs n pg"
  shows "flag v = flag (pg m) \<Longrightarrow> on_queue flag xs n (pg(m := v))"
    and "flag (pg m) \<Longrightarrow> \<not> flag v \<Longrightarrow> on_queue flag (remove1 m xs) (n - 1) (pg(m := v))"
    and "\<not> flag (pg m) \<Longrightarrow> flag v \<Longrightarrow> on_queue flag (xs @ [m]) (n + 1) (pg(m := v))"
proof -
  show "flag v = flag (pg m) \<Longrightarrow> on_queue flag xs n (pg(m := v))"
    using assms by (auto simp: on_queue_def)
  show "\<not> flag (pg m) \<Longrightarrow> flag v \<Longrightarrow> on_queue flag (xs @ [m]) (n + 1) (pg(m := v))"
    using assms by (auto simp: on_queue_def)
  assume *: "flag (pg m)" "\<not> flag v"
  then have m: "m \<in> set xs" using assms by (simp add: on_queue_def)
  then have "int (length xs - Suc 0) = int (length xs) - 1" by (cases xs) auto
  then show "on_queue flag (remove1 m xs) (n - 1) (pg(m := v))"
    using assms * m by (auto simp: on_queue_def length_remove1)
qed

lemma wire_total_upd:
  assumes "wire_total n pg"
  shows "(wire_count v = 0) = (wire_count (pg m) = 0) \<Longrightarrow> wire_total n (pg(m := v))"
    and "wire_count (pg m) = 0 \<Longrightarrow> wire_count v \<noteq> 0 \<Longrightarrow> wire_total (n + 1) (pg(m := v))"
    and "wire_count (pg m) \<noteq> 0 \<Longrightarrow> wire_count v = 0 \<Longrightarrow> wire_total (n - 1) (pg(m := v))"
proof -
  let ?W = "{p. wire_count (pg p) \<noteq> 0}" and ?W' = "{p. wire_count ((pg(m := v)) p) \<noteq> 0}"
  have fin: "finite ?W" "n = int (card ?W)" using assms by (simp_all add: wire_total_def)
  {
    assume "(wire_count v = 0) = (wire_count (pg m) = 0)"
    then have "?W' = ?W" by auto
    with fin show "wire_total n (pg(m := v))" by (simp add: wire_total_def)
  next
    assume "wire_count (pg m) = 0" "wire_count v \<noteq> 0"
    then have "?W' = insert m ?W" "m \<notin> ?W" by auto
    with fin show "wire_total (n + 1) (pg(m := v))" by (simp only: wire_total_def) simp
  next
    assume "wire_count (pg m) \<noteq> 0" "wire_count v = 0"
    then have "?W' = ?W - {m}" and m: "m \<in> ?W" by auto
    moreover have "int (card (?W - {m})) = int (card ?W) - 1"
      using card_Suc_Diff1 [OF fin(1) m] by linarith
    ultimately show "wire_total (n - 1) (pg(m := v))"
      using fin by (simp only: wire_total_def) simp
  }
qed

lemmas queue_upds = on_queue_upd wire_total_upd

lemma queue_invD:
  assumes "queue_inv s"
  shows "on_queue pg_free (queue_free s) (free_count s) (page s)"
    and "on_queue active (queue_active s) (active_count s) (page s)"
    and "on_queue inactive (queue_inactive s) (inactive_count s) (page s)"
    and "wire_total (page_wire_count s) (page s)" and "page_excl (page s p)" and "\<not> pg_free (page s 0)"
  using assms by (simp_all add: queue_inv_def)

text \<open>An update of one page that moves it between queues consistently keeps the invariant.\<close>

lemma queue_inv_upd:
  assumes inv: "queue_inv s" and pg: "page t = (page s)(m := v)" and ex: "page_excl v" "m = 0 \<longrightarrow> \<not> pg_free v"
    and fr: "(queue_free t, free_count t) =
      (if pg_free v = pg_free (page s m) then (queue_free s, free_count s)
       else if pg_free v then (queue_free s @ [m], free_count s + 1) else (remove1 m (queue_free s), free_count s - 1))"
    and ac: "(queue_active t, active_count t) =
      (if active v = active (page s m) then (queue_active s, active_count s)
       else if active v then (queue_active s @ [m], active_count s + 1) else (remove1 m (queue_active s), active_count s - 1))"
    and ia: "(queue_inactive t, inactive_count t) =
      (if inactive v = inactive (page s m) then (queue_inactive s, inactive_count s)
       else if inactive v then (queue_inactive s @ [m], inactive_count s + 1)
       else (remove1 m (queue_inactive s), inactive_count s - 1))"
    and wi: "page_wire_count t =
      page_wire_count s + (if wire_count v \<noteq> 0 then 1 else 0) - (if wire_count (page s m) \<noteq> 0 then 1 else 0)"
  shows "queue_inv t"
  unfolding queue_inv_def pg
proof (intro conjI)
  note D = queue_invD [OF inv]
  show "on_queue pg_free (queue_free t) (free_count t) ((page s)(m := v))"
    using fr on_queue_upd [OF D(1), where v = v and m = m] by (auto split: if_splits)
  show "on_queue active (queue_active t) (active_count t) ((page s)(m := v))"
    using ac on_queue_upd [OF D(2), where v = v and m = m] by (auto split: if_splits)
  show "on_queue inactive (queue_inactive t) (inactive_count t) ((page s)(m := v))"
    using ia on_queue_upd [OF D(3), where v = v and m = m] by (auto split: if_splits)
  show "wire_total (page_wire_count t) ((page s)(m := v))"
    using wi wire_total_upd [OF D(4), where v = v and m = m] by (auto split: if_splits)
  show "\<forall>p. page_excl (((page s)(m := v)) p)" using D(5) ex by simp
  show "\<not> pg_free (((page s)(m := v)) 0)" using D(6) ex by auto
qed


lemma excl_bits:
  "queue_inv s \<Longrightarrow> pg_free (page s m) \<Longrightarrow> \<not> active (page s m) \<and> \<not> inactive (page s m) \<and> wire_count (page s m) = 0"
  "queue_inv s \<Longrightarrow> active (page s m) \<Longrightarrow> \<not> pg_free (page s m) \<and> \<not> inactive (page s m) \<and> wire_count (page s m) = 0"
  "queue_inv s \<Longrightarrow> inactive (page s m) \<Longrightarrow> \<not> pg_free (page s m) \<and> \<not> active (page s m) \<and> wire_count (page s m) = 0"
  "queue_inv s \<Longrightarrow> wire_count (page s m) \<noteq> 0 \<Longrightarrow> \<not> pg_free (page s m) \<and> \<not> active (page s m) \<and> \<not> inactive (page s m)"
  using queue_invD(5) [of s m] by (auto simp: page_excl_def)

lemma take_inv:
  assumes "queue_inv s"
  shows "queue_inv (take_active m s)" "queue_inv (take_inactive m s)" "queue_inv (take_free m s)"
proof -
  show "queue_inv (take_active m s)"
    by (rule queue_inv_upd [OF assms, of _ m "(page s m)\<lparr>active := False\<rparr>"])
      (use queue_invD(5,6) [OF assms] in \<open>auto simp: take_active_def page_excl_def\<close>)
  show "queue_inv (take_inactive m s)"
    by (rule queue_inv_upd [OF assms, of _ m "(page s m)\<lparr>inactive := False\<rparr>"])
      (use queue_invD(5,6) [OF assms] in \<open>auto simp: take_inactive_def page_excl_def\<close>)
  show "queue_inv (take_free m s)"
    by (rule queue_inv_upd [OF assms, of _ m "(page s m)\<lparr>pg_free := False\<rparr>"])
      (use queue_invD(5,6) [OF assms] in \<open>auto simp: take_free_def page_excl_def\<close>)
qed

lemma take_page:
  "page (take_active m s) = (page s)(m := (page s m)\<lparr>active := False\<rparr>)"
  "page (take_inactive m s) = (page s)(m := (page s m)\<lparr>inactive := False\<rparr>)"
  "page (take_free m s) = (page s)(m := (page s m)\<lparr>pg_free := False\<rparr>)"
  by (auto simp: take_active_def take_inactive_def take_free_def)

lemma take_table:
  "table_same s (take_active m s)" "table_same s (take_inactive m s)" "table_same s (take_free m s)"
  by (simp_all add: table_same_def take_page)
    (auto simp: take_active_def take_inactive_def take_free_def)

lemma table_same_refl: "table_same s s"
  by (simp add: table_same_def)

lemma table_same_trans: "table_same s t \<Longrightarrow> table_same t u \<Longrightarrow> table_same s u"
  by (simp add: table_same_def)

lemma remove_queue_inv:
  assumes "queue_inv s" shows "queue_inv (vm_page_remove m s)"
  by (rule queue_inv_upd [OF assms, of _ m "(page s m)\<lparr>tabled := False\<rparr>"])
    (use queue_invD(5,6) [OF assms] in \<open>auto simp: remove_fields page_excl_def\<close>)

lemma addfree_inv:
  assumes "queue_inv s" "wire_count (page s m) = 0" "m \<noteq> 0" "\<not> pg_free (page s m)"
  shows "queue_inv (vm_page_addfree m s)"
proof -
  let ?t = "take_inactive m (take_active m s)"
  have inv: "queue_inv ?t" using assms(1) by (simp add: take_inv)
  have bits: "\<not> active (page ?t m)" "\<not> inactive (page ?t m)" "wire_count (page ?t m) = 0" "\<not> pg_free (page ?t m)"
    using assms(2,4) by (simp_all add: take_page)
  show ?thesis
  proof (cases "fictitious (page ?t m)")
    case True
    then show ?thesis using inv by (simp add: vm_page_addfree_def Let_def)
  next
    case False
    show ?thesis
      by (rule queue_inv_upd [OF inv, of _ m "(page ?t m)\<lparr>pg_free := True\<rparr>"])
        (use bits False assms(3) in \<open>auto simp: vm_page_addfree_def Let_def page_excl_def\<close>)
  qed
qed

lemma addfree_table: "table_same s (vm_page_addfree m s)"
proof -
  let ?t = "take_inactive m (take_active m s)"
  have "table_same ?t (vm_page_addfree m s)"
    by (auto simp: vm_page_addfree_def Let_def table_same_def)
  then show ?thesis by (meson table_same_trans take_table)
qed

lemma free_inv:
  assumes "queue_inv s" "wire_count (page s m) = 0" "m \<noteq> 0"
  shows "queue_inv (vm_page_free m s)"
  using remove_queue_inv [OF assms(1), of m] addfree_inv [OF remove_queue_inv [OF assms(1), of m], of m] assms(2,3)
  by (simp add: vm_page_free_def Let_def remove_fields)

lemma free_table:
  "table_same (vm_page_remove m s) (vm_page_free m s)"
  using addfree_table by (auto simp: vm_page_free_def Let_def table_same_def)

lemma wire_inv:
  assumes inv: "queue_inv s" and small: "wire_count (page s m) + 1 \<noteq> 0"
  shows "queue_inv (vm_page_wire m s)"
proof (cases "wire_count (page s m) = 0")
  case True
  let ?t = "take_free m (take_inactive m (take_active m s))"
  have t: "queue_inv ?t" using inv by (simp add: take_inv)
  show ?thesis
    by (rule queue_inv_upd [OF t, of _ m "(page ?t m)\<lparr>wire_count := wire_count (page ?t m) + 1\<rparr>"])
      (use True in \<open>auto simp: vm_page_wire_def Let_def take_page page_excl_def\<close>)
next
  case False
  then show ?thesis
    by (intro queue_inv_upd [OF inv, of _ m "(page s m)\<lparr>wire_count := wire_count (page s m) + 1\<rparr>"])
      (use False small queue_invD(5,6) [OF inv] in \<open>auto simp: vm_page_wire_def Let_def page_excl_def\<close>)
qed

lemma unwire_inv:
  assumes inv: "queue_inv s" and w: "wire_count (page s m) \<noteq> 0"
  shows "queue_inv (vm_page_unwire m s)"
proof (cases "wire_count (page s m) = 1")
  case True
  show ?thesis
    by (rule queue_inv_upd [OF inv, of _ m "(page s m)\<lparr>wire_count := 0, active := True\<rparr>"])
      (use True excl_bits(4) [OF inv w] in \<open>auto simp: vm_page_unwire_def Let_def page_excl_def\<close>)
next
  case False
  then have "wire_count (page s m) - 1 \<noteq> 0" by auto
  then show ?thesis
    by (intro queue_inv_upd [OF inv, of _ m "(page s m)\<lparr>wire_count := wire_count (page s m) - 1\<rparr>"])
      (use w queue_invD(5,6) [OF inv] in \<open>auto simp: vm_page_unwire_def Let_def page_excl_def\<close>)
qed

lemma deactivate_inv:
  assumes inv: "queue_inv s" shows "queue_inv (vm_page_deactivate m s)"
proof (cases "active (page s m)")
  case True
  let ?c = "clean (page s m) \<and> \<not> pmap_modified s (phys_addr (page s m))"
  show ?thesis
    by (rule queue_inv_upd [OF inv, of _ m
          "(page s m)\<lparr>active := False, inactive := True, clean := ?c, laundry := \<not> ?c\<rparr>"])
      (use True excl_bits(2) [OF inv True] in \<open>auto simp: vm_page_deactivate_def Let_def page_excl_def\<close>)
qed (use inv in \<open>simp add: vm_page_deactivate_def\<close>)

lemma deactivate_table: "table_same s (vm_page_deactivate m s)"
  by (auto simp: vm_page_deactivate_def Let_def table_same_def)

lemma activate_inv:
  assumes inv: "queue_inv s"
  shows "case vm_page_activate m s of Inl e \<Rightarrow> active (page s m)
     | Inr t \<Rightarrow> queue_inv t \<and> (active (page t m) \<longleftrightarrow> wire_count (page s m) = 0) \<and> table_same s t"
proof -
  let ?t = "take_free m (take_inactive m s)"
  have t: "queue_inv ?t" using inv by (simp add: take_inv)
  have ts: "table_same s ?t" by (meson table_same_trans take_table)
  consider (wired) "wire_count (page s m) \<noteq> 0" | (act) "wire_count (page s m) = 0" "active (page s m)"
    | (ok) "wire_count (page s m) = 0" "\<not> active (page s m)" by blast
  then show ?thesis
  proof cases
    case ok
    let ?u = "(upd_page m (\<lambda>p. p\<lparr>active := True\<rparr>) ?t)
      \<lparr>queue_active := queue_active ?t @ [m], active_count := active_count ?t + 1\<rparr>"
    have "queue_inv ?u"
      by (rule queue_inv_upd [OF t, of _ m "(page ?t m)\<lparr>active := True\<rparr>"])
        (use ok in \<open>auto simp: take_page page_excl_def\<close>)
    moreover have "table_same s ?u" using ts by (auto simp: table_same_def)
    ultimately show ?thesis using ok by (simp add: vm_page_activate_def Let_def take_page)
  qed (use t ts excl_bits(4) [OF inv] in \<open>auto simp: vm_page_activate_def Let_def take_page\<close>)
qed


subsection \<open>Allocation\<close>

lemma untabled_table:
  assumes "\<not> tabled v" "\<not> tabled (page s m)" "table_inv s"
  shows "table_inv (upd_page m (\<lambda>_. v) s)" "page_at (upd_page m (\<lambda>_. v) s) = page_at s"
proof -
  let ?t = "upd_page m (\<lambda>_. v) s"
  have hash: "vm_page_hash ?t = vm_page_hash s" by (rule hash_cong) simp_all
  have tab: "tabled (page ?t p) \<longleftrightarrow> tabled (page s p)" and eq: "tabled (page s p) \<Longrightarrow> page ?t p = page s p" for p
    using assms(1,2) by auto
  have mq: "{p. tabled (page ?t p) \<and> pg_object (page ?t p) = q} = {p. tabled (page s p) \<and> pg_object (page s p) = q}" for q
    unfolding tab by (intro Collect_cong conj_cong refl) (simp only: eq)
  have bk: "{p. tabled (page ?t p) \<and> vm_page_hash s (pg_object (page ?t p)) (pg_offset (page ?t p)) = b} =
      {p. tabled (page s p) \<and> vm_page_hash s (pg_object (page s p)) (pg_offset (page s p)) = b}" for b
    unfolding tab by (intro Collect_cong conj_cong refl) (simp only: eq)
  have inj: "p = q" if "tabled (page ?t p) \<and> tabled (page ?t q) \<and> pg_object (page ?t p) = pg_object (page ?t q) \<and>
      pg_offset (page ?t p) = pg_offset (page ?t q)" for p q
  proof -
    have t: "tabled (page s p)" "tabled (page s q)" using that tab by blast+
    show ?thesis
      by (rule table_inv_inj [OF assms(3) t]) (use that in \<open>simp_all only: eq [OF t(1)] eq [OF t(2)]\<close>)
  qed
  show inv: "table_inv ?t"
    unfolding table_inv_def hash mq bk
    by (intro conjI allI impI; (rule inj, assumption)?)
      (use table_invD [OF assms(3)] assms(1) in auto)
  have key: "tabled (page ?t p) \<and> pg_object (page ?t p) = q \<and> pg_offset (page ?t p) = a \<longleftrightarrow>
      tabled (page s p) \<and> pg_object (page s p) = q \<and> pg_offset (page s p) = a" for p q a
    unfolding tab by (intro conj_cong refl) (simp_all only: eq)
  show "page_at ?t = page_at s"
    by (intro page_at_eqI) (simp only: page_at_iff [OF inv] page_at_iff [OF assms(3)] key)
qed

lemma insert_queue_inv:
  assumes "queue_inv s" "vm_page_insert m q a s = Inr t"
  shows "queue_inv t"
  by (rule queue_inv_upd [OF assms(1), of _ m "(page s m)\<lparr>pg_object := q, pg_offset := a, tabled := True\<rparr>"])
    (use assms(2) queue_invD(5,6) [OF assms(1)] in
      \<open>auto simp: vm_page_insert_def Let_def page_excl_def split: if_splits\<close>)

lemma pop_free_inv:
  assumes inv: "queue_inv s" and q: "queue_free s = m # ms"
  shows "queue_inv ((upd_page m (\<lambda>p. p\<lparr>pg_free := False\<rparr>) (s\<lparr>queue_free := ms\<rparr>))\<lparr>free_count := free_count s - 1\<rparr>)"
proof -
  have "pg_free (page s m)" using queue_invD(1) [OF inv] q by (auto simp: on_queue_def)
  then show ?thesis
    by (intro queue_inv_upd [OF inv, of _ m "(page s m)\<lparr>pg_free := False\<rparr>"])
      (use excl_bits(1) [OF inv] q in \<open>auto simp: page_excl_def\<close>)
qed

lemma init_ok:
  assumes "queue_inv s" "table_inv s" "\<not> tabled (page s m)" "m \<noteq> 0" "page_at s (q, a) = None"
    "\<not> pg_free (page s m)" "\<not> active (page s m)" "\<not> inactive (page s m)" "wire_count (page s m) = 0"
  shows "\<exists>t. vm_page_init m q a pa s = Inr t \<and> queue_inv t \<and> table_inv t \<and>
     page_at t = (page_at s)((q, a) \<mapsto> m)"
proof -
  let ?s = "upd_page m (\<lambda>_. vm_page_template\<lparr>phys_addr := pa\<rparr>) s"
  have q: "queue_inv ?s"
    by (rule queue_inv_upd [OF assms(1), of _ m "vm_page_template\<lparr>phys_addr := pa\<rparr>"])
      (use assms in \<open>auto simp: vm_page_template_def page_excl_def\<close>)
  have t: "table_inv ?s" "page_at ?s = page_at s"
    using untabled_table [OF _ assms(3,2), of "vm_page_template\<lparr>phys_addr := pa\<rparr>"]
    by (simp_all add: vm_page_template_def)
  have "\<not> tabled (page ?s m)" by (simp add: vm_page_template_def)
  from insert_table [OF t(1) this assms(4), of q a] t(2) assms(5) insert_queue_inv [OF q]
  show ?thesis by (auto simp: vm_page_init_def)
qed

lemma table_same_upd:
  "table_same s (s\<lparr>pages_needed := b\<rparr>)"
  "table_same s (upd_obj q (\<lambda>ob. ob\<lparr>last_alloc := a\<rparr>) s)"
  by (auto simp: table_same_def)

lemma queue_inv_same:
  "queue_inv (s\<lparr>pages_needed := b\<rparr>) = queue_inv s"
  "queue_inv (upd_obj q g s) = queue_inv s"
  by (simp_all add: queue_inv_def)

lemma alloc_ok:
  assumes inv: "queue_inv s" "table_inv s" and q: "queue_free s = m # ms" and free: "page_at s (q, a) = None"
    and r: "\<not> (free_count s < free_reserved s \<and> \<not> priv)"
  shows "\<exists>t. vm_page_alloc priv q a s = Inr (m, t) \<and> queue_inv t \<and> table_inv t \<and>
     page_at t = (if tabled (page s m) then (page_at s)((pg_object (page s m), pg_offset (page s m)) := None)
                  else page_at s)((q, a) \<mapsto> m)"
proof -
  let ?s1 = "(upd_page m (\<lambda>p. p\<lparr>pg_free := False\<rparr>) (s\<lparr>queue_free := ms\<rparr>))\<lparr>free_count := free_count s - 1\<rparr>"
  let ?s2 = "vm_page_remove m ?s1"
  have m: "m \<noteq> 0" "\<not> active (page s m)" "\<not> inactive (page s m)" "wire_count (page s m) = 0"
  proof -
    have "pg_free (page s m)" using queue_invD(1) [OF inv(1)] q by (auto simp: on_queue_def)
    then show "m \<noteq> 0" "\<not> active (page s m)" "\<not> inactive (page s m)" "wire_count (page s m) = 0"
      using queue_invD(6) [OF inv(1)] excl_bits(1) [OF inv(1)] by (cases "m = 0", auto)
  qed
  have same: "table_same s ?s1" by (auto simp: table_same_def)
  then have tab1: "table_inv ?s1" "page_at ?s1 = page_at s"
    using inv(2) by (simp_all add: table_same_inv table_same_page_at)
  note tab2 = remove_table [OF tab1(1), of m]
  have at2: "page_at ?s2 = (if tabled (page s m)
      then (page_at s)((pg_object (page s m), pg_offset (page s m)) := None) else page_at s)"
    using tab2(2) tab1(2) by simp
  have "\<exists>t. vm_page_init m q a (phys_addr (page ?s2 m)) ?s2 = Inr t \<and> queue_inv t \<and> table_inv t \<and>
      page_at t = (page_at ?s2)((q, a) \<mapsto> m)"
    by (rule init_ok)
      (use m pop_free_inv [OF inv(1) q] tab2(1) free at2 in
        \<open>auto simp: remove_fields intro: remove_queue_inv\<close>)
  then obtain t where t: "vm_page_init m q a (phys_addr (page ?s2 m)) ?s2 = Inr t" "queue_inv t" "table_inv t"
      "page_at t = (page_at ?s2)((q, a) \<mapsto> m)" by blast
  let ?t1 = "if free_count t < free_min t \<or> free_count t < free_target t \<and> inactive_count t < inactive_target t
      then t\<lparr>pages_needed := True\<rparr> else t"
  let ?l = "vm_page_lookup q (last_alloc (obj ?t1 q)) ?t1"
  let ?t2 = "if a = last_alloc (obj ?t1 q) + page_size ?t1
      then if ?l \<noteq> 0 then vm_page_deactivate ?l ?t1 else ?t1 else ?t1"
  let ?u = "upd_obj q (\<lambda>ob. ob\<lparr>last_alloc := a\<rparr>) ?t2"
  have "table_same t ?t1" by (simp add: table_same_upd(1) table_same_refl)
  moreover have "table_same ?t1 ?t2" by (simp only: deactivate_table table_same_refl split: if_split) simp
  moreover have "table_same ?t2 ?u" by (rule table_same_upd)
  ultimately have "table_same t ?u" by (meson table_same_trans)
  moreover have "queue_inv ?u"
    using t(2) by (simp add: queue_inv_same deactivate_inv)
  moreover have "vm_page_alloc priv q a s = Inr (m, ?u)"
    using q t(1) by (simp add: vm_page_alloc_def Let_def if_not_P [OF r])
  ultimately show ?thesis
    using t at2 by (intro exI [of _ ?u]) (auto simp: table_same_inv table_same_page_at)
qed


subsection \<open>Startup and reachable states\<close>

lemma bucket_count_power:
  "0 < c \<Longrightarrow> \<exists>k. bucket_count_loop n c = c * 2 ^ k \<and> n \<le> bucket_count_loop n c"
proof (induction n c rule: bucket_count_loop.induct)
  case (1 n c)
  show ?case
  proof (cases "c < n")
    case True
    then obtain k where "bucket_count_loop n (2 * c) = 2 * c * 2 ^ k" "n \<le> bucket_count_loop n (2 * c)"
      using 1 by auto
    with True 1(2) show ?thesis by (intro exI [of _ "Suc k"]) (simp add: bucket_count_loop.simps)
  next
    case False
    then show ?thesis by (intro exI [of _ 0]) (simp add: bucket_count_loop.simps)
  qed
qed

lemma page_cells_free:
  "queue_free (page_cells n sz m pa s) = queue_free s @ map (\<lambda>i. m + i * sz) [0..<n]"
proof (induction n arbitrary: m pa s)
  case (Suc n)
  have up: "[0..<Suc n] = 0 # map Suc [0..<n]" by (simp add: map_Suc_upt upt_conv_Cons del: upt_Suc)
  show ?case unfolding up by (simp add: Suc algebra_simps)
qed simp

lemma page_cells_bits:
  "active (page (page_cells n sz m pa s) p) = active (page s p)"
  "inactive (page (page_cells n sz m pa s) p) = inactive (page s p)"
  "wire_count (page (page_cells n sz m pa s) p) = wire_count (page s p)"
  "tabled (page (page_cells n sz m pa s) p) = tabled (page s p)"
  by (induction n arbitrary: m pa s) auto

lemma page_cells_pg_free:
  "pg_free (page (page_cells n sz m pa s) p) \<longleftrightarrow> pg_free (page s p) \<or> (\<exists>i<n. p = m + i * sz)"
proof (induction n arbitrary: m pa s)
  case (Suc n)
  have "(\<exists>i<Suc n. p = m + i * sz) \<longleftrightarrow> p = m \<or> (\<exists>i<n. p = m + sz + i * sz)"
    by (auto simp: less_Suc_eq_0_disj algebra_simps)
  then show ?case using Suc by auto
qed simp

lemma page_cells_rest:
  "obj (page_cells n sz m pa s) = obj s" "vm_page_buckets (page_cells n sz m pa s) = vm_page_buckets s"
  "queue_active (page_cells n sz m pa s) = queue_active s"
  "queue_inactive (page_cells n sz m pa s) = queue_inactive s" "free_count (page_cells n sz m pa s) = free_count s"
  "active_count (page_cells n sz m pa s) = active_count s"
  "inactive_count (page_cells n sz m pa s) = inactive_count s"
  "page_wire_count (page_cells n sz m pa s) = page_wire_count s"
  by (induction n arbitrary: m pa s) simp_all

lemma startup_inv:
  assumes "0 < sz" "0 < m" "active_count s = 0" "inactive_count s = 0" "page_wire_count s = 0"
    and "\<And>q. memq (obj s q) = [] \<and> resident_page_count (obj s q) = 0"
  shows "queue_inv (vm_page_startup n sz m pa s)" "table_inv (vm_page_startup n sz m pa s)"
proof -
  let ?t = "vm_page_startup n sz m pa s"
  have pg: "\<not> active (page ?t p) \<and> \<not> inactive (page ?t p) \<and> wire_count (page ?t p) = 0 \<and> \<not> tabled (page ?t p) \<and>
      (pg_free (page ?t p) \<longleftrightarrow> (\<exists>i<n. p = m + i * sz))" for p
    by (auto simp: vm_page_startup_def Let_def page_cells_bits page_cells_pg_free blank_page_def)
  have q: "queue_free ?t = map (\<lambda>i. m + i * sz) [0..<n]"
    by (simp add: vm_page_startup_def Let_def page_cells_free)
  show "queue_inv ?t"
    unfolding queue_inv_def on_queue_def wire_total_def page_excl_def q
    using pg assms by (auto simp: vm_page_startup_def Let_def page_cells_rest distinct_map inj_on_def)
  show "table_inv ?t"
    unfolding table_inv_def using pg assms(6)
    by (auto simp: vm_page_startup_def Let_def page_cells_rest)
qed


text \<open>
  The states the module can reach from startup.  The callers' obligations: a page is allocated
  or renamed only to an object and offset that has no resident page, a wired page is not freed,
  and the 16-bit wire count of a page does not wrap.
\<close>

inductive page_reach :: "vm_pages \<Rightarrow> bool" where
  start: "0 < sz \<Longrightarrow> 0 < m \<Longrightarrow> active_count s = 0 \<Longrightarrow> inactive_count s = 0 \<Longrightarrow> page_wire_count s = 0 \<Longrightarrow>
    (\<And>q. memq (obj s q) = [] \<and> resident_page_count (obj s q) = 0) \<Longrightarrow>
    page_reach (vm_page_startup n sz m pa s)"
| alloc: "page_reach s \<Longrightarrow> vm_page_lookup q a s = 0 \<Longrightarrow> vm_page_alloc priv q a s = Inr (m, t) \<Longrightarrow> page_reach t"
| free: "page_reach s \<Longrightarrow> wire_count (page s m) = 0 \<Longrightarrow> m \<noteq> 0 \<Longrightarrow> page_reach (vm_page_free m s)"
| wire: "page_reach s \<Longrightarrow> wire_count (page s m) + 1 \<noteq> 0 \<Longrightarrow> page_reach (vm_page_wire m s)"
| unwire: "page_reach s \<Longrightarrow> wire_count (page s m) \<noteq> 0 \<Longrightarrow> page_reach (vm_page_unwire m s)"
| activate: "page_reach s \<Longrightarrow> vm_page_activate m s = Inr t \<Longrightarrow> page_reach t"
| deactivate: "page_reach s \<Longrightarrow> page_reach (vm_page_deactivate m s)"
| rename: "page_reach s \<Longrightarrow> tabled (page s m) \<Longrightarrow> vm_page_lookup q a s = 0 \<Longrightarrow>
    vm_page_rename m q a s = Inr t \<Longrightarrow> page_reach t"

lemma wire_table: "table_same s (vm_page_wire m s)"
proof -
  let ?t = "take_free m (take_inactive m (take_active m s))"
  have "table_same s ?t" by (meson table_same_trans take_table)
  then show ?thesis by (simp add: vm_page_wire_def Let_def table_same_def)
qed

lemma unwire_table: "table_same s (vm_page_unwire m s)"
  by (simp add: vm_page_unwire_def Let_def table_same_def)

lemma lookup_null: "vm_page_lookup q a s = 0 \<longleftrightarrow> page_at s (q, a) = None"
  by (simp add: page_at_def Let_def)

lemma alloc_null:
  "queue_free s = [] \<or> free_count s < free_reserved s \<and> \<not> priv \<Longrightarrow> vm_page_alloc priv q a s = Inr (0, s)"
  by (auto simp: vm_page_alloc_def)

lemma alloc_inv:
  assumes "queue_inv s" "table_inv s" "vm_page_lookup q a s = 0" "vm_page_alloc priv q a s = Inr (m, t)"
  shows "queue_inv t \<and> table_inv t"
proof (cases "queue_free s = [] \<or> free_count s < free_reserved s \<and> \<not> priv")
  case True
  then show ?thesis using assms alloc_null [OF True] by simp
next
  case False
  then obtain p ps where "queue_free s = p # ps" by (cases "queue_free s") auto
  then show ?thesis using alloc_ok [OF assms(1,2), of p ps q a priv] False assms(3,4)
    by (auto simp: lookup_null)
qed

lemma rename_inv:
  assumes "queue_inv s" "table_inv s" "tabled (page s m)" "vm_page_lookup q a s = 0"
    "vm_page_rename m q a s = Inr t"
  shows "queue_inv t \<and> table_inv t"
proof (cases "pg_object (page s m) = q")
  case True
  then show ?thesis using assms by (simp add: vm_page_rename_def)
next
  case False
  then show ?thesis
    using rename_table [OF assms(2,3), of q a] assms(4,5) insert_queue_inv [OF remove_queue_inv [OF assms(1), of m], of m q a t]
    by (auto simp: vm_page_rename_def lookup_null)
qed

text \<open>C16:
  In every reachable state the free, active and inactive queues hold exactly the pages that
  carry their bit, no page is on two of them, wired pages are on none, the four counters are
  exact; and the hash buckets, the object lists and the \<^verbatim>\<open>tabled\<close> bits agree on which pages
  are resident, with at most one page for an object and offset.
\<close>

theorem vm_page_invariant: "page_reach s \<Longrightarrow> queue_inv s \<and> table_inv s"
proof (induction rule: page_reach.induct)
  case (start sz m s n pa)
  then show ?case using startup_inv [of sz m s n pa] by blast
next
  case (free s m)
  then show ?case using free_inv table_same_inv [OF free_table] remove_table(1) by blast
next
  case (activate s m t)
  then show ?case using activate_inv [of s m] table_same_inv by fastforce
next
  case (deactivate s m)
  then show ?case using deactivate_inv deactivate_table table_same_inv by blast
next
  case (wire s m)
  then show ?case using wire_inv wire_table table_same_inv by blast
next
  case (unwire s m)
  then show ?case using unwire_inv unwire_table table_same_inv by blast
next
  case (alloc s q a priv m t)
  then show ?case using alloc_inv by blast
next
  case (rename s m q a t)
  then show ?case using rename_inv by blast
qed

definition demo_object :: vm_object where
  "demo_object =
    \<lparr>memq = [], o_size = 0, o_refs = 1, resident_page_count = 0, copy_obj = 0, pager = 0, pager_request = 0,
     pager_name = 0, paging_offset = 0, shadow = 0, shadow_offset = 0, paging_in_progress = 0,
     can_persist = False, internal = True, pager_ready = False, pager_creating = False, last_alloc = 0\<rparr>"

definition demo_pages :: vm_pages where
  "demo_pages =
    \<lparr>page = (\<lambda>_. blank_page), obj = (\<lambda>_. demo_object), vm_page_buckets = (\<lambda>_. []), vm_page_hash_mask = 0,
     page_size = 8192, page_mask = 8191, page_shift = 13, queue_free = [], queue_active = [],
     queue_inactive = [], free_count = 0, active_count = 0, inactive_count = 0, page_wire_count = 0,
     free_target = 2, free_min = 1, inactive_target = 1, free_reserved = 0, pages_needed = False,
     pmap_modified = (\<lambda>_. False), pmap_log = []\<rparr>"

lemma demo_start: "page_reach (vm_page_startup 3 100 1000 0 demo_pages)"
  by (rule page_reach.start) (simp_all add: demo_pages_def demo_object_def)

theorem vm_page_invariant_witness:
  "queue_inv (vm_page_wire 1100 (vm_page_startup 3 100 1000 0 demo_pages)) \<and>
   table_inv (vm_page_wire 1100 (vm_page_startup 3 100 1000 0 demo_pages))"
proof (rule vm_page_invariant, rule page_reach.wire [OF demo_start])
  show "wire_count (page (vm_page_startup 3 100 1000 0 demo_pages) 1100) + 1 \<noteq> 0"
    by (simp add: vm_page_startup_def Let_def page_cells_bits blank_page_def)
qed

text \<open>C26:
  The object/offset table is a partial function.  A lookup finds the page that was inserted for
  that object and offset and nothing else; insertion of an untabled page extends the function,
  removal takes the page's own key out, renaming moves it; inserting a page twice panics.
\<close>

theorem vm_page_table_refines:
  assumes "table_inv s"
  shows "(page_at s (q, a) = Some p \<longleftrightarrow> tabled (page s p) \<and> pg_object (page s p) = q \<and> pg_offset (page s p) = a) \<and>
     (tabled (page s m) \<longrightarrow> vm_page_insert m q a s = Inl ''vm_page_insert: already inserted'') \<and>
     (\<not> tabled (page s m) \<and> m \<noteq> 0 \<and> page_at s (q, a) = None \<longrightarrow>
        (\<exists>t. vm_page_insert m q a s = Inr t \<and> table_inv t \<and> page_at t = (page_at s)((q, a) \<mapsto> m))) \<and>
     (tabled (page s m) \<longrightarrow> table_inv (vm_page_remove m s) \<and>
        page_at (vm_page_remove m s) = (page_at s)((pg_object (page s m), pg_offset (page s m)) := None)) \<and>
     (tabled (page s m) \<and> pg_object (page s m) \<noteq> q \<and> page_at s (q, a) = None \<longrightarrow>
        (\<exists>t. vm_page_rename m q a s = Inr t \<and> table_inv t \<and>
             page_at t = (page_at s)((pg_object (page s m), pg_offset (page s m)) := None, (q, a) \<mapsto> m)))"
  using page_at_iff [OF assms, of q a p] insert_table [OF assms, of m q a] remove_table [OF assms, of m]
    rename_table [OF assms, of m q a]
  by (auto simp: vm_page_insert_def)

theorem vm_page_table_refines_witness:
  "\<exists>t. vm_page_insert 1100 5 8192 (vm_page_startup 3 100 1000 0 demo_pages) = Inr t \<and>
       page_at t (5, 8192) = Some 1100"
proof -
  let ?s = "vm_page_startup 3 100 1000 0 demo_pages"
  have "table_inv ?s" by (rule startup_inv) (simp_all add: demo_pages_def demo_object_def)
  moreover have "page_at ?s (5, 8192) = None"
    by (simp add: page_at_def vm_page_lookup_def vm_page_startup_def Let_def page_cells_rest)
  moreover have "\<not> tabled (page ?s 1100)"
    by (simp add: vm_page_startup_def Let_def page_cells_bits blank_page_def)
  ultimately show ?thesis
    using vm_page_table_refines [of ?s 5 8192 0 1100] by auto
qed

text \<open>C33:
  \<^verbatim>\<open>vm_page_alloc\<close> returns no page when the free queue is empty, or when only the reserve is
  left and the thread has no VM privilege, and then changes nothing.  Otherwise it returns the
  page that has been free longest, takes away whatever identity that page still had, and makes
  it the resident page of the object and offset asked for; \<^verbatim>\<open>vm_page_free\<close> of a page undoes
  that.
\<close>

theorem vm_page_alloc_spec:
  assumes inv: "queue_inv s" "table_inv s" and free: "vm_page_lookup q a s = 0"
  shows "(if queue_free s = [] \<or> free_count s < free_reserved s \<and> \<not> priv
          then vm_page_alloc priv q a s = Inr (0, s)
          else \<exists>t m. vm_page_alloc priv q a s = Inr (m, t) \<and> m = hd (queue_free s) \<and>
                 vm_page_lookup q a t = m \<and> m \<noteq> 0 \<and>
                 page_at t = (if tabled (page s m)
                    then (page_at s)((pg_object (page s m), pg_offset (page s m)) := None) else page_at s)((q, a) \<mapsto> m) \<and>
                 vm_page_lookup q a (vm_page_free m t) = 0)"
proof (cases "queue_free s = [] \<or> free_count s < free_reserved s \<and> \<not> priv")
  case True
  then show ?thesis using alloc_null [OF True] by simp
next
  case False
  then obtain m ms where q: "queue_free s = m # ms" by (cases "queue_free s") auto
  obtain t where t: "vm_page_alloc priv q a s = Inr (m, t)" "table_inv t"
      "page_at t = (if tabled (page s m) then (page_at s)((pg_object (page s m), pg_offset (page s m)) := None)
                  else page_at s)((q, a) \<mapsto> m)"
    using alloc_ok [OF inv q, of q a priv] False free by (auto simp: lookup_null)
  then have at: "page_at t (q, a) = Some m" by simp
  then have look: "vm_page_lookup q a t = m" "m \<noteq> 0"
    by (auto simp: page_at_def Let_def split: if_splits)
  have key: "tabled (page t m)" "pg_object (page t m) = q" "pg_offset (page t m) = a"
    using at page_at_iff [OF t(2)] by blast+
  have "page_at (vm_page_free m t) (q, a) = None"
    using remove_table(2) [OF t(2), of m] key table_same_page_at [OF free_table [of m t]] by simp
  then show ?thesis using t look q False by (auto simp: lookup_null)
qed

theorem vm_page_alloc_spec_witness:
  "\<exists>t. vm_page_alloc False 5 0 (vm_page_startup 3 100 1000 0 demo_pages) = Inr (1000, t) \<and>
       vm_page_lookup 5 0 t = 1000"
proof -
  let ?s = "vm_page_startup 3 100 1000 0 demo_pages"
  have i: "queue_inv ?s" "table_inv ?s" by (rule startup_inv; simp add: demo_pages_def demo_object_def)+
  have "vm_page_lookup 5 0 ?s = 0"
    by (simp add: vm_page_lookup_def vm_page_startup_def Let_def page_cells_rest)
  moreover have "queue_free ?s = [1000, 1100, 1200]"
    by (simp add: vm_page_startup_def Let_def page_cells_free upt_conv_Cons)
  moreover have "free_count ?s = 3" "free_reserved ?s = 0"
    by (simp_all add: vm_page_startup_def Let_def demo_pages_def numeral_3_eq_3)
  ultimately show ?thesis
    using vm_page_alloc_spec [OF i, of 5 0 False] by auto
qed


subsection \<open>Page arithmetic\<close>

lemma pow2_nat: "0 < n \<Longrightarrow> (n - 1) AND n = (0 :: nat) \<Longrightarrow> \<exists>k. n = 2 ^ k"
proof (induction n rule: less_induct)
  case (less n)
  show ?case
  proof (cases "even n")
    case True
    then obtain m where m: "n = 2 * m" by (auto elim: evenE)
    with less.prems have "0 < m" "n - 1 = Suc (2 * (m - 1))" by auto
    moreover have "(n - 1) AND n = 2 * ((m - 1) AND m)"
      unfolding calculation(2) unfolding m by (subst and_nat_rec) simp
    ultimately have "\<exists>k. m = 2 ^ k" using less.prems m by (intro less.IH) auto
    with m show ?thesis by (metis power_Suc)
  next
    case False
    then obtain m where m: "n = Suc (2 * m)" by (auto elim: oddE)
    have "(n - 1) AND n = 2 * m" unfolding m by (subst and_nat_rec) simp
    with less.prems m have "n = 2 ^ 0" by simp
    then show ?thesis by blast
  qed
qed

lemma pow2_word:
  assumes "w \<noteq> 0" "(w - 1) AND w = (0 :: u32)"
  shows "\<exists>k<32. w = 2 ^ k"
proof -
  have "unat ((w - 1) AND w) = 0" using assms by simp
  then have "(unat w - 1) AND unat w = 0" using assms(1) by (simp add: unsigned_and_eq unat_dec)
  then obtain k where k: "unat w = 2 ^ k" using pow2_nat [of "unat w"] assms(1) by (auto simp: unat_pos)
  then have "(2 :: nat) ^ k < 2 ^ 32" using u32_bound [of w] by simp
  then have "k < 32" by (simp only: power_strict_increasing_iff)
  moreover have "w = 2 ^ k"
  proof -
    have "w = of_nat (unat w)" by simp
    also have "\<dots> = 2 ^ k" unfolding k by simp
    finally show ?thesis .
  qed
  ultimately show ?thesis by blast
qed

lemma page_shift_found:
  "shift \<le> k \<Longrightarrow> k < 32 \<Longrightarrow> page_shift_loop (2 ^ k) shift = Some k"
proof (induction "k - shift" arbitrary: shift)
  case 0
  then show ?case by (simp add: page_shift_loop.simps push_bit_eq_mult)
next
  case (Suc d)
  then have "shift < k" by simp
  then have "bit ((2 :: u32) ^ shift) shift" "\<not> bit ((2 :: u32) ^ k) shift"
    using Suc.prems by (simp_all add: bit_exp_iff)
  then have "(2 :: u32) ^ shift \<noteq> 2 ^ k" by metis
  moreover have "page_shift_loop (2 ^ k) (Suc shift) = Some k" using Suc by simp
  ultimately show ?case using Suc.prems \<open>shift < k\<close> by (subst page_shift_loop.simps) (simp add: push_bit_eq_mult)
qed

lemma and_not_mask_unat:
  assumes "k < 32" shows "unat ((x :: u32) AND NOT (mask k)) = unat x div 2 ^ k * 2 ^ k"
proof -
  have "x AND NOT (mask k) = push_bit k (drop_bit k x)"
    by (rule bit_eqI) (auto simp: bit_simps)
  moreover have "unat (drop_bit k x) = unat x div 2 ^ k"
    unfolding unat_drop_bit_eq by (rule drop_bit_eq_div)
  moreover have "unat x div 2 ^ k * 2 ^ k < 2 ^ 32"
    using le_less_trans [OF div_times_less_eq_dividend [of "unat x" "2 ^ k"] u32_bound [of x]] by simp
  ultimately show ?thesis
    by (simp add: push_bit_eq_mult unat_word_ariths unat_2pow assms)
qed

lemma trunc_page_unat: "k < 32 \<Longrightarrow> unat (trunc_page (2 ^ k - 1) x) = unat x div 2 ^ k * 2 ^ k"
  using and_not_mask_unat [of k x] by (simp add: trunc_page_def mask_eq_exp_minus_1)

lemma round_page_unat:
  assumes "k < 32" and "unat x + 2 ^ k \<le> 2 ^ 32"
  shows "unat (round_page (2 ^ k - 1) x) = (unat x + 2 ^ k - 1) div 2 ^ k * 2 ^ k"
proof -
  have pos: "0 < (2 :: nat) ^ k" by simp
  have "(2 ^ k - 1 :: u32) = of_nat (2 ^ k - 1)" by (simp add: of_nat_diff)
  then have "unat (2 ^ k - 1 :: u32) = 2 ^ k - 1"
    using unat_of_nat_small [of "2 ^ k - 1"] assms(2) pos by (metis add_leD2 diff_less less_le_trans zero_less_one)
  moreover have "unat x + (2 ^ k - 1) < 2 ^ 32" using assms(2) pos by linarith
  ultimately have "unat (x + (2 ^ k - 1)) = unat x + 2 ^ k - 1" using pos by (simp add: unat_word_ariths)
  then show ?thesis
    using trunc_page_unat [OF assms(1), of "x + (2 ^ k - 1)"] by (simp add: round_page_def trunc_page_def)
qed


text \<open>C38:
  \<^verbatim>\<open>vm_set_page_size\<close> accepts exactly the powers of two, ends, and then the shift and the mask
  describe the page size; with them \<^verbatim>\<open>trunc_page\<close> rounds down, \<^verbatim>\<open>round_page\<close> rounds up to
  the least multiple of the page size (while the sum does not wrap), and \<^verbatim>\<open>ptoa\<close> and
  \<^verbatim>\<open>atop\<close> are the corresponding multiplication and division.
\<close>

theorem vm_page_size_arithmetic:
  "(if \<exists>k<32. page_size s = 2 ^ k
    then \<exists>k<32. page_size s = 2 ^ k \<and>
      vm_set_page_size s = Inr (Some (s\<lparr>page_mask := 2 ^ k - 1, page_shift := k\<rparr>)) \<and>
      unat (trunc_page (2 ^ k - 1) x) = unat x div 2 ^ k * 2 ^ k \<and>
      (unat x + 2 ^ k \<le> 2 ^ 32 \<longrightarrow>
         unat (round_page (2 ^ k - 1) x) = (unat x + 2 ^ k - 1) div 2 ^ k * 2 ^ k) \<and>
      unat (atop k x) = unat x div 2 ^ k \<and> ptoa k (atop k x) = trunc_page (2 ^ k - 1) x
    else vm_set_page_size s = Inl ''vm_set_page_size: improper page size'')"
proof (cases "\<exists>k<32. page_size s = 2 ^ k")
  case True
  then obtain k where k: "k < 32" "page_size s = 2 ^ k" by blast
  have m: "2 ^ k - 1 = (mask k :: u32)" by (simp add: mask_eq_exp_minus_1)
  have nz: "(2 :: u32) ^ k \<noteq> 0" using k(1) by simp
  have "mask k AND (2 ^ k :: u32) = 0" by (rule bit_eqI) (auto simp: bit_simps)
  then have set: "vm_set_page_size s = Inr (Some (s\<lparr>page_mask := 2 ^ k - 1, page_shift := k\<rparr>))"
    using page_shift_found [of 0 k] k nz by (simp add: vm_set_page_size_def Let_def m)
  note trunc = trunc_page_unat [OF k(1)] and round = round_page_unat [OF k(1)]
  have "ptoa k (atop k x) = trunc_page (2 ^ k - 1) x"
    unfolding ptoa_def atop_def trunc_page_def m by (rule bit_eqI) (auto simp: bit_simps)
  moreover have "unat (atop k x) = unat x div 2 ^ k"
    unfolding atop_def unat_drop_bit_eq by (rule drop_bit_eq_div)
  ultimately show ?thesis using True k set trunc round by auto
next
  case False
  then have "page_size s = 0 \<or> (page_size s - 1) AND page_size s \<noteq> 0" using pow2_word by blast
  then show ?thesis using False by (auto simp: vm_set_page_size_def Let_def)
qed

theorem vm_page_size_arithmetic_witness:
  "\<exists>k<32. page_size demo_pages = 2 ^ k \<and>
     unat (round_page (2 ^ k - 1) 8193) = (8193 + 2 ^ k - 1) div 2 ^ k * 2 ^ k"
proof -
  have "page_size demo_pages = 2 ^ 13" by (simp add: demo_pages_def)
  then have e: "\<exists>k<32. page_size demo_pages = 2 ^ k" by (intro exI [of _ 13]) simp
  obtain k where k: "k < 32" "page_size demo_pages = 2 ^ k" and
      r: "unat (8193 :: u32) + 2 ^ k \<le> 2 ^ 32 \<longrightarrow>
         unat (round_page (2 ^ k - 1) 8193) = (unat (8193 :: u32) + 2 ^ k - 1) div 2 ^ k * 2 ^ k"
    using vm_page_size_arithmetic [of demo_pages 8193] e by auto
  have "(2 :: nat) ^ k \<le> 2 ^ 31" using k(1) by (intro power_increasing) auto
  with k r show ?thesis by (intro exI [of _ k]) auto
qed

end
