(* ===== verification/VmObject.thy ===== *)
theory VmObject
  imports VmResident
begin

text \<open>
  Virtual memory objects, \<^verbatim>\<open>vm/vm_object.c\<close>, and \<^verbatim>\<open>pager_cache\<close> of \<^verbatim>\<open>vm/vm_pager.c\<close>, in
  the configuration without \<^verbatim>\<open>MACH_XP\<close>.  The object structures of \<^verbatim>\<open>vm_object_zone\<close> that are
  not in use are a list; the object cache is a list and a hash table of objects keyed by their
  pager (a hash entry holds one object pointer and nothing else).  Calls of
  \<^verbatim>\<open>vm_pager_deallocate\<close> are recorded.  Routines run with the locks they take held throughout.
  A routine that can wait for the pageout daemon, or whose loop is not bounded by the data it is
  given, returns an option: \<open>None\<close> says that it has not returned.
\<close>

record vm_objs = vm_pages +
  object_zone :: "ptr list"
  vm_object_list :: "ptr list"
  vm_object_count :: int
  cached_list :: "ptr list"
  vm_object_cached :: int
  vm_cache_max :: int
  hashtable :: "nat \<Rightarrow> ptr list"
  pager_log :: "ptr list"
  object_collapses :: int
  object_bypasses :: int
  collapse_allowed :: bool

text \<open>Sequencing of routines that may panic or not return.\<close>

definition rbind :: "'a option kresult \<Rightarrow> ('a \<Rightarrow> 'b option kresult) \<Rightarrow> 'b option kresult" where
  "rbind r f = kbind r (\<lambda>v. case v of None \<Rightarrow> Inr None | Some a \<Rightarrow> f a)"

definition VM_OBJECT_HASH_COUNT :: nat where
  "VM_OBJECT_HASH_COUNT = 521"

definition vm_object_template :: vm_object where
  "vm_object_template =
    \<lparr>memq = [], o_size = 0, o_refs = 1, resident_page_count = 0, copy_obj = 0, pager = 0, pager_request = 0,
     pager_name = 0, paging_offset = 0, shadow = 0, shadow_offset = 0, paging_in_progress = 0,
     can_persist = False, internal = True, pager_ready = False, pager_creating = False, last_alloc = 0\<rparr>"

subsection \<open>Creation and references\<close>

text \<open>\<^verbatim>\<open>_vm_object_allocate\<close>\<close>

definition vm_object_allocate_at :: "u32 \<Rightarrow> ptr \<Rightarrow> 'a vm_objs_scheme \<Rightarrow> 'a vm_objs_scheme" where
  "vm_object_allocate_at osize object s =
    (let s = upd_obj object (\<lambda>_. vm_object_template) s;
         s = upd_obj object (\<lambda>ob. ob\<lparr>memq := []\<rparr>) s;
         s = upd_obj object (\<lambda>ob. ob\<lparr>o_size := osize\<rparr>) s
     in s\<lparr>vm_object_list := vm_object_list s @ [object], vm_object_count := vm_object_count s + 1\<rparr>)"

definition vm_object_allocate :: "u32 \<Rightarrow> 'a vm_objs_scheme \<Rightarrow> (ptr \<times> 'a vm_objs_scheme) kresult" where
  "vm_object_allocate osize s =
    (case object_zone s of
       [] \<Rightarrow> Inl ''zalloc''
     | result # rest \<Rightarrow> Inr (result, vm_object_allocate_at osize result (s\<lparr>object_zone := rest\<rparr>)))"

definition vm_object_reference :: "ptr \<Rightarrow> 'a vm_objs_scheme \<Rightarrow> 'a vm_objs_scheme" where
  "vm_object_reference object s =
    (if object = 0 then s else upd_obj object (\<lambda>ob. ob\<lparr>o_refs := o_refs ob + 1\<rparr>) s)"

definition vm_object_shadow :: "ptr \<Rightarrow> u32 \<Rightarrow> u32 \<Rightarrow> 'a vm_objs_scheme \<Rightarrow> (ptr \<times> u32 \<times> 'a vm_objs_scheme) kresult" where
  "vm_object_shadow object offset len s =
    (let source = object in
     kbind (vm_object_allocate len s) (\<lambda>(result, s).
       if result = 0 then Inl ''vm_object_shadow: no object for shadowing''
       else
        (let s = upd_obj result (\<lambda>ob. ob\<lparr>shadow := source\<rparr>) s;
             s = upd_obj result (\<lambda>ob. ob\<lparr>shadow_offset := offset\<rparr>) s
         in Inr (result, 0, s))))"

definition vm_object_setpager :: "ptr \<Rightarrow> ptr \<Rightarrow> u32 \<Rightarrow> 'a vm_objs_scheme \<Rightarrow> 'a vm_objs_scheme" where
  "vm_object_setpager object pgr poffset s =
     upd_obj object (\<lambda>ob. ob\<lparr>pager := pgr, paging_offset := poffset\<rparr>) s"

subsection \<open>The object cache\<close>

definition vm_object_hash :: "ptr \<Rightarrow> nat" where
  "vm_object_hash pgr = unat (of_nat pgr :: u32) mod VM_OBJECT_HASH_COUNT"

fun hash_search :: "'a vm_objs_scheme \<Rightarrow> ptr \<Rightarrow> ptr list \<Rightarrow> ptr option" where
  "hash_search s pgr [] = None"
| "hash_search s pgr (object # es) = (if pager (obj s object) = pgr then Some object else hash_search s pgr es)"

definition vm_object_lookup :: "ptr \<Rightarrow> 'a vm_objs_scheme \<Rightarrow> ptr \<times> 'a vm_objs_scheme" where
  "vm_object_lookup pgr s =
    (case hash_search s pgr (hashtable s (vm_object_hash pgr)) of
       None \<Rightarrow> (0, s)
     | Some object \<Rightarrow>
        (let s = (if o_refs (obj s object) = 0
                  then s\<lparr>cached_list := remove1 object (cached_list s), vm_object_cached := vm_object_cached s - 1\<rparr>
                  else s)
         in (object, upd_obj object (\<lambda>ob. ob\<lparr>o_refs := o_refs ob + 1\<rparr>) s)))"

definition vm_object_enter :: "ptr \<Rightarrow> ptr \<Rightarrow> 'a vm_objs_scheme \<Rightarrow> 'a vm_objs_scheme" where
  "vm_object_enter object pgr s =
    (if object = 0 then s
     else if pgr = 0 then s
     else
      (let bucket = vm_object_hash pgr;
           s = upd_obj object (\<lambda>ob. ob\<lparr>can_persist := True\<rparr>) s
       in s\<lparr>hashtable := (hashtable s)(bucket := hashtable s bucket @ [object])\<rparr>))"

definition vm_object_remove :: "ptr \<Rightarrow> 'a vm_objs_scheme \<Rightarrow> 'a vm_objs_scheme" where
  "vm_object_remove pgr s =
    (let bucket = vm_object_hash pgr in
     case hash_search s pgr (hashtable s bucket) of
       None \<Rightarrow> s
     | Some object \<Rightarrow> s\<lparr>hashtable := (hashtable s)(bucket := remove1 object (hashtable s bucket))\<rparr>)"

subsection \<open>Walks over the pages of an object\<close>

primrec deactivate_walk :: "ptr list \<Rightarrow> 'a vm_objs_scheme \<Rightarrow> 'a vm_objs_scheme" where
  "deactivate_walk [] s = s"
| "deactivate_walk (p # ps) s =
     deactivate_walk ps (if \<not> inactive (page s p) then vm_page_deactivate p s else s)"

definition vm_object_deactivate_pages :: "ptr \<Rightarrow> 'a vm_objs_scheme \<Rightarrow> 'a vm_objs_scheme" where
  "vm_object_deactivate_pages object s = deactivate_walk (memq (obj s object)) s"

primrec pmap_copy_walk :: "u32 \<Rightarrow> u32 \<Rightarrow> ptr list \<Rightarrow> 'a vm_objs_scheme \<Rightarrow> 'a vm_objs_scheme" where
  "pmap_copy_walk start fin [] s = s"
| "pmap_copy_walk start fin (p # ps) s =
     pmap_copy_walk start fin ps
       (if start \<le> pg_offset (page s p) \<and> pg_offset (page s p) < fin \<and> \<not> pg_cow (page s p)
        then upd_page p (\<lambda>v. v\<lparr>pg_cow := True\<rparr>) (pmap_do (PmapCopyOnWrite (phys_addr (page s p))) s)
        else s)"

definition vm_object_pmap_copy :: "ptr \<Rightarrow> u32 \<Rightarrow> u32 \<Rightarrow> 'a vm_objs_scheme \<Rightarrow> 'a vm_objs_scheme" where
  "vm_object_pmap_copy object start fin s =
    (if object = 0 then s else pmap_copy_walk start fin (memq (obj s object)) s)"

primrec pmap_remove_walk :: "u32 \<Rightarrow> u32 \<Rightarrow> ptr list \<Rightarrow> 'a vm_objs_scheme \<Rightarrow> 'a vm_objs_scheme" where
  "pmap_remove_walk start fin [] s = s"
| "pmap_remove_walk start fin (p # ps) s =
     pmap_remove_walk start fin ps
       (if start \<le> pg_offset (page s p) \<and> pg_offset (page s p) < fin
        then pmap_do (PmapRemoveAll (phys_addr (page s p))) s else s)"

definition vm_object_pmap_remove :: "ptr \<Rightarrow> u32 \<Rightarrow> u32 \<Rightarrow> 'a vm_objs_scheme \<Rightarrow> 'a vm_objs_scheme" where
  "vm_object_pmap_remove object start fin s =
    (if object = 0 then s else pmap_remove_walk start fin (memq (obj s object)) s)"

primrec page_remove_walk :: "u32 \<Rightarrow> u32 \<Rightarrow> ptr list \<Rightarrow> 'a vm_objs_scheme \<Rightarrow> 'a vm_objs_scheme" where
  "page_remove_walk start fin [] s = s"
| "page_remove_walk start fin (p # ps) s =
     page_remove_walk start fin ps
       (if start \<le> pg_offset (page s p) \<and> pg_offset (page s p) < fin
        then vm_page_free p (pmap_do (PmapRemoveAll (phys_addr (page s p))) s) else s)"

definition vm_object_page_remove :: "ptr \<Rightarrow> u32 \<Rightarrow> u32 \<Rightarrow> 'a vm_objs_scheme \<Rightarrow> 'a vm_objs_scheme" where
  "vm_object_page_remove object start fin s =
    (if object = 0 then s else page_remove_walk start fin (memq (obj s object)) s)"

primrec mark_cow_walk :: "u32 \<Rightarrow> u32 \<Rightarrow> ptr list \<Rightarrow> 'a vm_objs_scheme \<Rightarrow> 'a vm_objs_scheme" where
  "mark_cow_walk start fin [] s = s"
| "mark_cow_walk start fin (p # ps) s =
     mark_cow_walk start fin ps
       (if start \<le> pg_offset (page s p) \<and> pg_offset (page s p) < fin
        then upd_page p (\<lambda>v. v\<lparr>pg_cow := True\<rparr>) s else s)"

subsection \<open>Collapse\<close>

text \<open>
  Emptying the backing object: each page is freed when the parent already has a page there or
  the page lies outside the parent, and moved to the parent otherwise.  Every round takes the
  first page off the list, so as many rounds as there are pages empty it.
\<close>

fun collapse_move :: "nat \<Rightarrow> ptr \<Rightarrow> ptr \<Rightarrow> u32 \<Rightarrow> u32 \<Rightarrow> 'a vm_objs_scheme \<Rightarrow> 'a vm_objs_scheme kresult" where
  "collapse_move 0 object backing_object backing_offset osize s = Inr s"
| "collapse_move (Suc n) object backing_object backing_offset osize s =
    (case memq (obj s backing_object) of
       [] \<Rightarrow> Inr s
     | p # _ \<Rightarrow>
        let new_offset = pg_offset (page s p) - backing_offset in
        if pg_offset (page s p) < backing_offset \<or> new_offset \<ge> osize
        then collapse_move n object backing_object backing_offset osize (vm_page_free p s)
        else
          let pp = vm_page_lookup object new_offset s in
          if pp \<noteq> 0
          then collapse_move n object backing_object backing_offset osize (vm_page_free p s)
          else kbind (vm_page_rename p object new_offset s)
                 (collapse_move n object backing_object backing_offset osize))"

text \<open>Whether some page of the backing object is still needed.\<close>

fun page_needed :: "ptr \<Rightarrow> u32 \<Rightarrow> u32 \<Rightarrow> 'a vm_objs_scheme \<Rightarrow> ptr list \<Rightarrow> bool" where
  "page_needed object backing_offset osize s [] = False"
| "page_needed object backing_offset osize s (p # ps) =
    (let new_offset = pg_offset (page s p) - backing_offset in
     if pg_offset (page s p) \<ge> backing_offset \<and> new_offset \<le> osize \<and> vm_page_lookup object new_offset s = 0
     then True else page_needed object backing_offset osize s ps)"

text \<open>
  One turn of the loop of \<^verbatim>\<open>vm_object_collapse\<close>: \<open>None\<close> when it returns, the new state when it
  goes round again.
\<close>

definition collapse_merge :: "ptr \<Rightarrow> ptr \<Rightarrow> 'a vm_objs_scheme \<Rightarrow> 'a vm_objs_scheme kresult" where
  "collapse_merge object backing_object s =
    (let backing_offset = shadow_offset (obj s object);
         osize = o_size (obj s object)
     in kbind (collapse_move (length (memq (obj s backing_object))) object backing_object backing_offset osize s)
      (\<lambda>s.
        let s = upd_obj object (\<lambda>ob. ob\<lparr>pager := pager (obj s backing_object)\<rparr>) s;
            s = upd_obj object (\<lambda>ob. ob\<lparr>paging_offset := paging_offset (obj s backing_object) + backing_offset\<rparr>) s;
            s = upd_obj backing_object (\<lambda>ob. ob\<lparr>pager := 0, pager_request := 0, pager_name := 0\<rparr>) s;
            s = upd_obj object (\<lambda>ob. ob\<lparr>shadow := shadow (obj s backing_object)\<rparr>) s;
            s = upd_obj object (\<lambda>ob. ob\<lparr>shadow_offset := shadow_offset ob + shadow_offset (obj s backing_object)\<rparr>) s
        in if shadow (obj s object) \<noteq> 0 \<and> copy_obj (obj s (shadow (obj s object))) \<noteq> 0
           then Inl ''vm_object_collapse: we collapsed a copy-object!''
           else
            (let s = s\<lparr>vm_object_list := remove1 backing_object (vm_object_list s),
                       vm_object_count := vm_object_count s - 1\<rparr>;
                 s = s\<lparr>object_zone := backing_object # object_zone s\<rparr>
             in Inr (s\<lparr>object_collapses := object_collapses s + 1\<rparr>))))"

definition collapse_bypass :: "ptr \<Rightarrow> ptr \<Rightarrow> 'a vm_objs_scheme \<Rightarrow> 'a vm_objs_scheme" where
  "collapse_bypass object backing_object s =
    (let s = upd_obj object (\<lambda>ob. ob\<lparr>shadow := shadow (obj s backing_object)\<rparr>) s;
         s = vm_object_reference (shadow (obj s object)) s;
         s = upd_obj object (\<lambda>ob. ob\<lparr>shadow_offset := shadow_offset ob + shadow_offset (obj s backing_object)\<rparr>) s;
         s = upd_obj backing_object (\<lambda>ob. ob\<lparr>o_refs := o_refs ob - 1\<rparr>) s
     in s\<lparr>object_bypasses := object_bypasses s + 1\<rparr>)"

definition collapse_step :: "ptr \<Rightarrow> 'a vm_objs_scheme \<Rightarrow> 'a vm_objs_scheme option kresult" where
  "collapse_step object s =
    (if object = 0 \<or> paging_in_progress (obj s object) \<noteq> 0 \<or> pager (obj s object) \<noteq> 0 then Inr None
     else if shadow (obj s object) = 0 then Inr None
     else
      (let backing_object = shadow (obj s object) in
       if \<not> internal (obj s backing_object) \<or> paging_in_progress (obj s backing_object) \<noteq> 0 then Inr None
       else if shadow (obj s backing_object) \<noteq> 0 \<and> copy_obj (obj s (shadow (obj s backing_object))) \<noteq> 0 then Inr None
       else if o_refs (obj s backing_object) = 1
       then kbind (collapse_merge object backing_object s) (\<lambda>s. Inr (Some s))
       else if pager (obj s backing_object) \<noteq> 0 then Inr None
       else if page_needed object (shadow_offset (obj s object)) (o_size (obj s object)) s (memq (obj s backing_object))
       then Inr None
       else Inr (Some (collapse_bypass object backing_object s))))"

fun collapse_loop :: "nat \<Rightarrow> ptr \<Rightarrow> 'a vm_objs_scheme \<Rightarrow> 'a vm_objs_scheme option kresult" where
  "collapse_loop 0 object s = Inr None"
| "collapse_loop (Suc n) object s =
     kbind (collapse_step object s) (\<lambda>r. case r of None \<Rightarrow> Inr (Some s) | Some t \<Rightarrow> collapse_loop n object t)"


text \<open>
  A chain of shadows visits each object of \<^verbatim>\<open>vm_object_list\<close> at most once and every turn makes
  the chain shorter, which bounds the number of turns.
\<close>

definition vm_object_collapse :: "ptr \<Rightarrow> 'a vm_objs_scheme \<Rightarrow> 'a vm_objs_scheme option kresult" where
  "vm_object_collapse object s =
    (if \<not> collapse_allowed s then Inr (Some s)
     else collapse_loop (Suc (length (vm_object_list s))) object s)"

subsection \<open>Coalescing and copying\<close>

definition vm_object_coalesce ::
    "ptr \<Rightarrow> ptr \<Rightarrow> u32 \<Rightarrow> u32 \<Rightarrow> u32 \<Rightarrow> u32 \<Rightarrow> 'a vm_objs_scheme \<Rightarrow> (bool \<times> 'a vm_objs_scheme) option kresult" where
  "vm_object_coalesce prev_object next_object prev_offset next_offset prev_size next_size s =
    (if next_object \<noteq> 0 then Inr (Some (False, s))
     else if prev_object = 0 then Inr (Some (True, s))
     else rbind (vm_object_collapse prev_object s) (\<lambda>s.
       if o_refs (obj s prev_object) > 1 \<or> pager (obj s prev_object) \<noteq> 0 \<or> shadow (obj s prev_object) \<noteq> 0 \<or>
          copy_obj (obj s prev_object) \<noteq> 0
       then Inr (Some (False, s))
       else
        (let s = vm_object_page_remove prev_object (prev_offset + prev_size) (prev_offset + prev_size + next_size) s;
             newsize = prev_offset + prev_size + next_size;
             s = (if newsize > o_size (obj s prev_object)
                  then upd_obj prev_object (\<lambda>ob. ob\<lparr>o_size := newsize\<rparr>) s else s)
         in Inr (Some (True, s)))))"

text \<open>The result is the destination object and offset and \<^verbatim>\<open>src_needs_copy\<close>.\<close>

definition copy_object_new :: "ptr \<Rightarrow> ptr \<Rightarrow> 'a vm_objs_scheme \<Rightarrow> 'a vm_objs_scheme kresult" where
  "copy_object_new src_object new_copy s =
    (let old_copy = copy_obj (obj s src_object) in
     kbind (if old_copy \<noteq> 0
            then if shadow (obj s old_copy) \<noteq> src_object \<or> shadow_offset (obj s old_copy) \<noteq> 0
                 then Inl ''vm_object_copy: copy/shadow inconsistency''
                 else
                  (let s = upd_obj src_object (\<lambda>ob. ob\<lparr>o_refs := o_refs ob - 1\<rparr>) s;
                       s = upd_obj old_copy (\<lambda>ob. ob\<lparr>shadow := new_copy\<rparr>) s
                   in Inr (upd_obj new_copy (\<lambda>ob. ob\<lparr>o_refs := o_refs ob + 1\<rparr>) s))
            else Inr s) (\<lambda>s.
       let new_start = 0;
           new_end = o_size (obj s new_copy);
           s = upd_obj new_copy (\<lambda>ob. ob\<lparr>shadow := src_object, shadow_offset := new_start\<rparr>) s;
           s = upd_obj src_object (\<lambda>ob. ob\<lparr>o_refs := o_refs ob + 1\<rparr>) s;
           s = upd_obj src_object (\<lambda>ob. ob\<lparr>copy_obj := new_copy\<rparr>) s
       in Inr (mark_cow_walk new_start new_end (memq (obj s src_object)) s)))"

definition vm_object_copy ::
    "ptr \<Rightarrow> u32 \<Rightarrow> u32 \<Rightarrow> 'a vm_objs_scheme \<Rightarrow> ((ptr \<times> u32 \<times> bool) \<times> 'a vm_objs_scheme) option kresult" where
  "vm_object_copy src_object src_offset csize s =
    (if src_object = 0 then Inr (Some ((0, 0, False), s))
     else if pager (obj s src_object) = 0 \<or> internal (obj s src_object)
     then
      (let s = upd_obj src_object (\<lambda>ob. ob\<lparr>o_refs := o_refs ob + 1\<rparr>) s;
           s = mark_cow_walk src_offset (src_offset + csize) (memq (obj s src_object)) s
       in Inr (Some ((src_object, src_offset, True), s)))
     else rbind (vm_object_collapse src_object s) (\<lambda>s.
       let old_copy = copy_obj (obj s src_object) in
       if old_copy \<noteq> 0 \<and> resident_page_count (obj s old_copy) = 0 \<and> pager (obj s old_copy) = 0
       then Inr (Some ((old_copy, src_offset, False), upd_obj old_copy (\<lambda>ob. ob\<lparr>o_refs := o_refs ob + 1\<rparr>) s))
       else kbind (vm_object_allocate (o_size (obj s src_object)) s) (\<lambda>(new_copy, s).
              kbind (copy_object_new src_object new_copy s) (\<lambda>s.
                Inr (Some ((new_copy, src_offset - 0, False), s))))))"

subsection \<open>Deallocation\<close>

primrec terminate_walk :: "ptr list \<Rightarrow> 'a vm_objs_scheme \<Rightarrow> 'a vm_objs_scheme" where
  "terminate_walk [] s = s"
| "terminate_walk (p # ps) s =
    (let s = take_inactive p (take_active p s)
     in terminate_walk ps (if pg_free (page s p) then vm_page_free p s else s))"

fun free_pages :: "nat \<Rightarrow> ptr \<Rightarrow> 'a vm_objs_scheme \<Rightarrow> 'a vm_objs_scheme" where
  "free_pages 0 object s = s"
| "free_pages (Suc n) object s =
    (case memq (obj s object) of [] \<Rightarrow> s | p # _ \<Rightarrow> free_pages n object (vm_page_free p s))"

definition vm_object_terminate :: "ptr \<Rightarrow> 'a vm_objs_scheme \<Rightarrow> 'a vm_objs_scheme option kresult" where
  "vm_object_terminate object s =
    (let shadow_object = shadow (obj s object) in
     kbind (if shadow_object \<noteq> 0
            then if copy_obj (obj s shadow_object) = object
                 then Inr (upd_obj shadow_object (\<lambda>ob. ob\<lparr>copy_obj := 0\<rparr>) s)
                 else if copy_obj (obj s shadow_object) \<noteq> 0
                 then Inl ''vm_object_terminate: copy/shadow inconsistency''
                 else Inr s
            else Inr s) (\<lambda>s.
       if paging_in_progress (obj s object) \<noteq> 0 then Inr None
       else
        (let s = terminate_walk (memq (obj s object)) s;
             s = (if pager (obj s object) \<noteq> 0 then s\<lparr>pager_log := pager_log s @ [pager (obj s object)]\<rparr> else s)
         in if paging_in_progress (obj s object) \<noteq> 0 then Inl ''vm_object_deallocate: pageout in progress''
            else
             (let s = free_pages (length (memq (obj s object))) object s;
                  s = s\<lparr>vm_object_list := remove1 object (vm_object_list s), vm_object_count := vm_object_count s - 1\<rparr>
              in Inr (Some (s\<lparr>object_zone := object # object_zone s\<rparr>))))))"

text \<open>
  Deallocation, trimming of the cache and \<^verbatim>\<open>pager_cache\<close> call each other; the first argument
  bounds the depth of the calls and the turns of the loops.
\<close>

fun vm_object_deallocate :: "nat \<Rightarrow> ptr \<Rightarrow> 'a vm_objs_scheme \<Rightarrow> 'a vm_objs_scheme option kresult"
  and vm_object_cache_trim :: "nat \<Rightarrow> 'a vm_objs_scheme \<Rightarrow> 'a vm_objs_scheme option kresult"
  and pager_cache :: "nat \<Rightarrow> ptr \<Rightarrow> bool \<Rightarrow> 'a vm_objs_scheme \<Rightarrow> (kern_return \<times> 'a vm_objs_scheme) option kresult" where
  "vm_object_deallocate 0 object s = Inr None"
| "vm_object_deallocate (Suc n) object s =
    (if object = 0 then Inr (Some s)
     else
      (let s = upd_obj object (\<lambda>ob. ob\<lparr>o_refs := o_refs ob - 1\<rparr>) s in
       if o_refs (obj s object) \<noteq> 0 then Inr (Some s)
       else if can_persist (obj s object)
       then
        (let s = s\<lparr>cached_list := cached_list s @ [object], vm_object_cached := vm_object_cached s + 1\<rparr>;
             s = vm_object_deactivate_pages object s
         in vm_object_cache_trim n s)
       else
        (let s = vm_object_remove (pager (obj s object)) s;
             temp = shadow (obj s object)
         in rbind (vm_object_terminate object s) (vm_object_deallocate n temp))))"
| "vm_object_cache_trim 0 s = Inr None"
| "vm_object_cache_trim (Suc n) s =
    (if vm_object_cached s > vm_cache_max s
     then
      (let object = hd (cached_list s);
           (found, s) = vm_object_lookup (pager (obj s object)) s
       in if object \<noteq> found then Inl ''vm_object_deactivate: I'm sooo confused.''
          else rbind (pager_cache n object False s) (\<lambda>(_, s). vm_object_cache_trim n s))
     else Inr (Some s))"
| "pager_cache 0 object should_cache s = Inr None"
| "pager_cache (Suc n) object should_cache s =
    (if object = 0 then Inr (Some (KERN_INVALID_ARGUMENT, s))
     else rbind (vm_object_deallocate n object (upd_obj object (\<lambda>ob. ob\<lparr>can_persist := should_cache\<rparr>) s))
            (\<lambda>s. Inr (Some (KERN_SUCCESS, s))))"


subsection \<open>What an object shows\<close>

text \<open>
  The shadow chain of an object, and where the data at an offset comes from: a resident page,
  the pager of the first object in the chain that has a copy there (\<open>has_page\<close> says what the
  pagers hold), or zero fill.  This is the order in which a fault searches.
\<close>

datatype source = Resident ptr | Paged ptr u32 | ZeroFill

fun chain :: "'a vm_pages_scheme \<Rightarrow> ptr \<Rightarrow> ptr list \<Rightarrow> bool" where
  "chain s q [] \<longleftrightarrow> q = 0"
| "chain s q (x # xs) \<longleftrightarrow> q = x \<and> x \<noteq> 0 \<and> chain s (shadow (obj s x)) xs"

fun visible :: "(ptr \<Rightarrow> u32 \<Rightarrow> bool) \<Rightarrow> 'a vm_pages_scheme \<Rightarrow> ptr list \<Rightarrow> u32 \<Rightarrow> source" where
  "visible has_page s [] a = ZeroFill"
| "visible has_page s (q # qs) a =
    (case page_at s (q, a) of Some p \<Rightarrow> Resident p
     | None \<Rightarrow>
        if pager (obj s q) \<noteq> 0 \<and> has_page (pager (obj s q)) (a + paging_offset (obj s q))
        then Paged (pager (obj s q)) (a + paging_offset (obj s q))
        else visible has_page s qs (a + shadow_offset (obj s q)))"

lemma rbind_simps:
  "rbind (Inr (Some a)) f = f a" "rbind (Inr None) f = Inr None" "rbind (Inl e) f = Inl e"
  by (simp_all add: rbind_def)

lemma chain_cong:
  "(\<And>x. x \<in> set xs \<Longrightarrow> shadow (obj t x) = shadow (obj s x)) \<Longrightarrow> chain t q xs = chain s q xs"
  by (induction xs arbitrary: q) auto

lemma chain_unique: "chain s q xs \<Longrightarrow> chain s q ys \<Longrightarrow> xs = ys"
proof (induction xs arbitrary: q ys)
  case Nil
  then show ?case by (cases ys) auto
next
  case (Cons x xs)
  then show ?case by (cases ys) auto
qed

lemma chain_suffix: "chain s q xs \<Longrightarrow> x \<in> set xs \<Longrightarrow> \<exists>ys. chain s x ys \<and> length ys \<le> length xs"
proof (induction xs arbitrary: q)
  case (Cons y ys)
  then show ?case by (cases "x = y") (auto intro: exI [of _ "y # ys"] le_SucI)
qed simp

lemma chain_distinct: "chain s q xs \<Longrightarrow> distinct xs"
proof (induction xs arbitrary: q)
  case (Cons x xs)
  have "x \<notin> set xs"
  proof
    assume "x \<in> set xs"
    then obtain ys where ys: "chain s x ys" "length ys \<le> length xs"
      using Cons.prems chain_suffix [of s "shadow (obj s x)" xs x] by auto
    with Cons.prems chain_unique [of s x ys "x # xs"] show False by auto
  qed
  with Cons show ?case by auto
qed simp

lemma visible_cong:
  assumes "\<And>x a. x \<in> set xs \<Longrightarrow> page_at t (x, a) = page_at s (x, a)"
    and "\<And>x. x \<in> set xs \<Longrightarrow> pager (obj t x) = pager (obj s x) \<and> paging_offset (obj t x) = paging_offset (obj s x) \<and>
      shadow_offset (obj t x) = shadow_offset (obj s x)"
  shows "visible h t xs a = visible h s xs a"
  using assms by (induction xs arbitrary: a) (auto split: option.splits)

subsection \<open>Frames\<close>

text \<open>The page module changes only the page list and the page count of an object.\<close>

definition obj_rest :: "vm_object \<Rightarrow> vm_object" where
  "obj_rest ob = ob\<lparr>memq := [], resident_page_count := 0\<rparr>"

definition page_frame :: "'a vm_pages_scheme \<Rightarrow> 'a vm_pages_scheme \<Rightarrow> bool" where
  "page_frame s t \<longleftrightarrow> vm_pages.more t = vm_pages.more s \<and> (\<forall>q. obj_rest (obj t q) = obj_rest (obj s q))"

lemma obj_restD:
  assumes "obj_rest u = obj_rest v"
  shows "o_size u = o_size v" "o_refs u = o_refs v" "copy_obj u = copy_obj v" "pager u = pager v"
    "paging_offset u = paging_offset v" "shadow u = shadow v" "shadow_offset u = shadow_offset v"
    "paging_in_progress u = paging_in_progress v" "can_persist u = can_persist v" "internal u = internal v"
  using assms by (cases u; cases v; simp add: obj_rest_def)+

lemma page_frame_refl: "page_frame s s"
  by (simp add: page_frame_def)

lemma page_frame_trans: "page_frame s t \<Longrightarrow> page_frame t u \<Longrightarrow> page_frame s u"
  by (simp add: page_frame_def)

lemma page_frameD:
  assumes "page_frame s t"
  shows "o_size (obj t q) = o_size (obj s q)" "o_refs (obj t q) = o_refs (obj s q)"
    "copy_obj (obj t q) = copy_obj (obj s q)" "pager (obj t q) = pager (obj s q)"
    "paging_offset (obj t q) = paging_offset (obj s q)" "shadow (obj t q) = shadow (obj s q)"
    "shadow_offset (obj t q) = shadow_offset (obj s q)"
    "paging_in_progress (obj t q) = paging_in_progress (obj s q)"
    "can_persist (obj t q) = can_persist (obj s q)" "internal (obj t q) = internal (obj s q)"
  using assms obj_restD [of "obj t q" "obj s q"] by (simp_all add: page_frame_def)

lemma page_frame_more:
  fixes s t :: "'a vm_objs_scheme"
  assumes "page_frame s t"
  shows "object_zone t = object_zone s" "vm_object_list t = vm_object_list s"
    "vm_object_count t = vm_object_count s" "cached_list t = cached_list s"
    "vm_object_cached t = vm_object_cached s" "vm_cache_max t = vm_cache_max s" "hashtable t = hashtable s"
    "pager_log t = pager_log s" "object_collapses t = object_collapses s"
    "object_bypasses t = object_bypasses s" "collapse_allowed t = collapse_allowed s"
  using assms by (cases s; cases t; simp add: page_frame_def)+

lemma frame_upd_page: "page_frame s (upd_page p f s)"
  by (simp add: page_frame_def upd_page_def)

lemma frame_upd_obj:
  "(\<And>ob. obj_rest (f ob) = obj_rest ob) \<Longrightarrow> page_frame s (upd_obj q f s)"
  by (simp add: page_frame_def upd_obj_def)

lemma frame_pages:
  "page_frame s (s\<lparr>vm_page_buckets := b\<rparr>)" "page_frame s (s\<lparr>queue_free := l\<rparr>)"
  "page_frame s (s\<lparr>queue_active := l\<rparr>)" "page_frame s (s\<lparr>queue_inactive := l\<rparr>)"
  "page_frame s (s\<lparr>free_count := n\<rparr>)" "page_frame s (s\<lparr>active_count := n\<rparr>)"
  "page_frame s (s\<lparr>inactive_count := n\<rparr>)" "page_frame s (pmap_do c s)"
  by (simp_all add: page_frame_def pmap_do_def)

lemma frame_remove: "page_frame s (vm_page_remove p s)"
  by (simp add: vm_page_remove_def Let_def page_frame_def upd_page_def upd_obj_def obj_rest_def)

lemma frame_insert: "vm_page_insert p q a s = Inr t \<Longrightarrow> page_frame s t"
  by (auto simp: vm_page_insert_def Let_def page_frame_def upd_page_def upd_obj_def obj_rest_def split: if_splits)

lemma frame_take: "page_frame s (take_active p s)" "page_frame s (take_inactive p s)"
  by (simp_all add: take_active_def take_inactive_def page_frame_def upd_page_def)

lemma frame_addfree: "page_frame s (vm_page_addfree p s)"
proof -
  have "page_frame t (if fictitious (page t p) then t
      else (upd_page p (\<lambda>v. v\<lparr>pg_free := True\<rparr>) t)\<lparr>queue_free := queue_free t @ [p], free_count := free_count t + 1\<rparr>)" for t
    by (simp add: page_frame_def upd_page_def)
  then show ?thesis
    unfolding vm_page_addfree_def Let_def
    by (rule page_frame_trans [OF page_frame_trans [OF frame_take]])
qed

lemma frame_free: "page_frame s (vm_page_free p s)"
  using frame_remove [of s p] page_frame_trans [OF frame_remove frame_addfree, of s p p]
  by (simp add: vm_page_free_def Let_def)

lemma frame_deactivate: "page_frame s (vm_page_deactivate p s)"
  by (simp add: vm_page_deactivate_def Let_def page_frame_def upd_page_def pmap_do_def)

lemma frame_rename: "vm_page_rename p q a s = Inr t \<Longrightarrow> page_frame s t"
proof (cases "pg_object (page s p) = q")
  case True
  then show "vm_page_rename p q a s = Inr t \<Longrightarrow> page_frame s t"
    by (simp add: vm_page_rename_def page_frame_refl)
next
  case False
  assume "vm_page_rename p q a s = Inr t"
  with False show ?thesis
    by (auto simp: vm_page_rename_def intro: page_frame_trans [OF frame_remove [of s p] frame_insert])
qed

subsection \<open>Moving the pages of the backing object\<close>

definition merged :: "ptr \<Rightarrow> ptr \<Rightarrow> u32 \<Rightarrow> u32 \<Rightarrow> (ptr \<times> u32 \<Rightarrow> ptr option) \<Rightarrow> ptr \<times> u32 \<Rightarrow> ptr option" where
  "merged object backing boff osize m =
    (\<lambda>(q, a). if q = backing then None
       else if q = object
       then (case m (object, a) of Some p \<Rightarrow> Some p
             | None \<Rightarrow> if boff \<le> a + boff \<and> a < osize then m (backing, a + boff) else None)
       else m (q, a))"

lemma merged_free:
  assumes "off < boff \<or> off - boff \<ge> osize \<or> m (object, off - boff) \<noteq> None" and "object \<noteq> backing"
  shows "merged object backing boff osize (m((backing, off) := None)) = merged object backing boff osize m"
  using assms by (intro ext) (auto simp: merged_def split: option.splits)

lemma merged_move:
  assumes "boff \<le> off" "off - boff < osize" "m (object, off - boff) = None" "m (backing, off) = Some p" "object \<noteq> backing"
  shows "merged object backing boff osize (m((backing, off) := None, (object, off - boff) \<mapsto> p)) =
    merged object backing boff osize m"
  using assms by (intro ext) (auto simp: merged_def split: option.splits)

lemma remove_memq:
  "tabled (page s p) \<Longrightarrow> memq (obj (vm_page_remove p s) q) =
     (if q = pg_object (page s p) then remove1 p (memq (obj s q)) else memq (obj s q))"
  by (simp add: vm_page_remove_def Let_def)

lemma free_memq:
  "tabled (page s p) \<Longrightarrow> memq (obj (vm_page_free p s) q) =
     (if q = pg_object (page s p) then remove1 p (memq (obj s q)) else memq (obj s q))"
  using free_table [of p s] remove_memq [of s p q] by (simp add: table_same_def)

lemma rename_memq:
  "tabled (page s p) \<Longrightarrow> pg_object (page s p) \<noteq> q \<Longrightarrow> vm_page_rename p q a s = Inr t \<Longrightarrow> q' \<noteq> q \<Longrightarrow>
     memq (obj t q') = (if q' = pg_object (page s p) then remove1 p (memq (obj s q')) else memq (obj s q'))"
  by (auto simp: vm_page_rename_def vm_page_insert_def Let_def remove_memq split: if_splits)

lemma no_pages_merged:
  assumes "table_inv s" "memq (obj s backing) = []"
  shows "merged object backing boff osize (page_at s) = page_at s"
proof -
  have "page_at s (backing, a) = None" for a
    using page_at_iff [OF assms(1), of backing a] table_invD(2) [OF assms(1), of backing] assms(2)
    by (cases "page_at s (backing, a)") auto
  then show ?thesis by (intro ext) (auto simp: merged_def split: option.splits)
qed

lemma collapse_move_correct:
  assumes "table_inv s" and "object \<noteq> backing" and "length (memq (obj s backing)) \<le> n"
  shows "\<exists>t. collapse_move n object backing boff osize s = Inr t \<and> table_inv t \<and> page_frame s t \<and>
     memq (obj t backing) = [] \<and> page_at t = merged object backing boff osize (page_at s)"
  using assms
proof (induction n arbitrary: s)
  case 0
  then show ?case by (simp add: page_frame_refl no_pages_merged)
next
  case (Suc n)
  show ?case
  proof (cases "memq (obj s backing)")
    case Nil
    with Suc.prems show ?thesis by (simp add: page_frame_refl no_pages_merged)
  next
    case (Cons p ps)
    let ?off = "pg_offset (page s p)"
    have p: "tabled (page s p)" "pg_object (page s p) = backing"
      using table_invD(2) [OF Suc.prems(1), of backing] Cons by auto
    have at: "page_at s (backing, ?off) = Some p" using page_at_iff [OF Suc.prems(1)] p by blast
    show ?thesis
    proof (cases "?off < boff \<or> ?off - boff \<ge> osize \<or> vm_page_lookup object (?off - boff) s \<noteq> 0")
      case True
      let ?s = "vm_page_free p s"
      have s1: "table_inv ?s" "page_at ?s = (page_at s)((backing, ?off) := None)"
        using free_table [of p s] remove_table [OF Suc.prems(1), of p] p
        by (auto simp: table_same_inv table_same_page_at)
      have len: "length (memq (obj ?s backing)) \<le> n"
        using free_memq [OF p(1), of backing] p(2) Cons Suc.prems(3) by simp
      have same: "merged object backing boff osize (page_at ?s) = merged object backing boff osize (page_at s)"
        unfolding s1(2) using True Suc.prems(2) by (intro merged_free) (simp_all add: lookup_null)
      have "collapse_move (Suc n) object backing boff osize s = collapse_move n object backing boff osize ?s"
        using True Cons by (auto simp: Let_def)
      with Suc.IH [OF s1(1) Suc.prems(2) len] same show ?thesis
        using page_frame_trans [OF frame_free] by metis
    next
      case False
      then have none: "page_at s (object, ?off - boff) = None" by (simp add: lookup_null)
      obtain t where t: "vm_page_rename p object (?off - boff) s = Inr t" "table_inv t"
          "page_at t = (page_at s)((backing, ?off) := None, (object, ?off - boff) \<mapsto> p)"
        using rename_table [OF Suc.prems(1) p(1) _ none] p(2) Suc.prems(2) by auto
      have len: "length (memq (obj t backing)) \<le> n"
        using rename_memq [OF p(1) _ t(1), of backing] p(2) Cons Suc.prems(2,3) by simp
      have same: "merged object backing boff osize (page_at t) = merged object backing boff osize (page_at s)"
        unfolding t(3) using False Suc.prems(2) none at by (intro merged_move) (simp_all add: not_less not_le)
      have "collapse_move (Suc n) object backing boff osize s = collapse_move n object backing boff osize t"
        using False Cons t(1) by (auto simp: Let_def)
      with Suc.IH [OF t(2) Suc.prems(2) len] same show ?thesis
        using page_frame_trans [OF frame_rename [OF t(1)]] by metis
    qed
  qed
qed


subsection \<open>One turn of the collapse loop\<close>

text \<open>The offsets along a chain, which must fit the address space together with the object.\<close>

definition span :: "'a vm_pages_scheme \<Rightarrow> ptr list \<Rightarrow> nat" where
  "span s xs = sum_list (map (\<lambda>x. unat (shadow_offset (obj s x))) xs)"

lemma span_shorter:
  assumes "\<And>x. x \<in> set rest \<Longrightarrow> shadow_offset (obj t x) = shadow_offset (obj s x)"
    and "shadow_offset (obj t q) = shadow_offset (obj s q) + shadow_offset (obj s b)"
  shows "span t (q # rest) \<le> span s (q # b # rest)"
proof -
  have "span t rest = span s rest" using assms(1) by (simp add: span_def cong: map_cong)
  moreover have "unat (shadow_offset (obj t q)) \<le> unat (shadow_offset (obj s q)) + unat (shadow_offset (obj s b))"
    unfolding assms(2) by (simp add: unat_word_ariths)
  ultimately show ?thesis by (simp add: span_def)
qed

lemma no_wrap:
  fixes a b c :: u32
  assumes "a < c" "unat c + unat b \<le> 2 ^ 32"
  shows "b \<le> a + b"
proof -
  have "unat a < unat c" using assms(1) by (simp add: word_less_nat_alt)
  then have "unat a + unat b < 2 ^ 32" using assms(2) by simp
  then have "unat (a + b) = unat a + unat b" by (simp add: unat_word_ariths)
  then show ?thesis by (simp add: word_le_nat_alt)
qed

lemma merge_fields:
  assumes inv: "table_inv s" and ne: "object \<noteq> backing" and sh: "shadow (obj s backing) \<notin> {object, backing}"
    and cp: "shadow (obj s backing) = 0 \<or> copy_obj (obj s (shadow (obj s backing))) = 0"
  shows "\<exists>t. collapse_merge object backing s = Inr t \<and> table_inv t \<and>
     page_at t = merged object backing (shadow_offset (obj s object)) (o_size (obj s object)) (page_at s) \<and>
     pager (obj t object) = pager (obj s backing) \<and>
     paging_offset (obj t object) = paging_offset (obj s backing) + shadow_offset (obj s object) \<and>
     shadow (obj t object) = shadow (obj s backing) \<and>
     shadow_offset (obj t object) = shadow_offset (obj s object) + shadow_offset (obj s backing) \<and>
     (\<forall>q. o_size (obj t q) = o_size (obj s q) \<and> o_refs (obj t q) = o_refs (obj s q)) \<and>
     (\<forall>q. q \<noteq> object \<and> q \<noteq> backing \<longrightarrow> pager (obj t q) = pager (obj s q) \<and>
        paging_offset (obj t q) = paging_offset (obj s q) \<and> shadow_offset (obj t q) = shadow_offset (obj s q)) \<and>
     (\<forall>q. q \<noteq> object \<longrightarrow> shadow (obj t q) = shadow (obj s q)) \<and>
     vm_object_list t = remove1 backing (vm_object_list s)"
proof -
  let ?bo = "shadow_offset (obj s object)" and ?sz = "o_size (obj s object)"
  obtain u where u: "collapse_move (length (memq (obj s backing))) object backing ?bo ?sz s = Inr u" "table_inv u"
      "page_frame s u" "page_at u = merged object backing ?bo ?sz (page_at s)"
    using collapse_move_correct [OF inv ne order_refl] by blast
  note f = page_frameD [OF u(3)] page_frame_more [OF u(3)]
  let ?u1 = "upd_obj object (\<lambda>ob. ob\<lparr>pager := pager (obj u backing)\<rparr>) u"
  let ?u2 = "upd_obj object (\<lambda>ob. ob\<lparr>paging_offset := paging_offset (obj ?u1 backing) + ?bo\<rparr>) ?u1"
  let ?u3 = "upd_obj backing (\<lambda>ob. ob\<lparr>pager := 0, pager_request := 0, pager_name := 0\<rparr>) ?u2"
  let ?u4 = "upd_obj object (\<lambda>ob. ob\<lparr>shadow := shadow (obj ?u3 backing)\<rparr>) ?u3"
  let ?u5 = "upd_obj object (\<lambda>ob. ob\<lparr>shadow_offset := shadow_offset ob + shadow_offset (obj ?u4 backing)\<rparr>) ?u4"
  let ?t = "?u5\<lparr>vm_object_list := remove1 backing (vm_object_list ?u5), vm_object_count := vm_object_count ?u5 - 1,
     object_zone := backing # object_zone ?u5, object_collapses := object_collapses ?u5 + 1\<rparr>"
  have ne': "backing \<noteq> object" and shu: "shadow (obj u backing) \<noteq> object" "shadow (obj u backing) \<noteq> backing"
    and cpu: "\<not> (shadow (obj u backing) \<noteq> 0 \<and> copy_obj (obj u (shadow (obj u backing))) \<noteq> 0)"
    using ne sh cp by (auto simp: f)
  have m: "collapse_merge object backing s = Inr ?t"
    using cpu by (simp add: collapse_merge_def Let_def u(1) ne ne' shu)
  have same: "table_same u ?t" using ne by (auto simp: table_same_def)
  have "vm_object_list ?u5 = vm_object_list u" by (simp add: upd_obj_def)
  then show ?thesis
    using m same u(2,4) ne sh
    by (intro exI [of _ ?t] conjI) (auto simp: table_same_inv table_same_page_at f)
qed


lemma bypass_fields:
  assumes ne: "object \<noteq> backing" and sh: "shadow (obj s backing) \<notin> {object, backing}"
  defines "t \<equiv> collapse_bypass object backing s"
  shows "table_same s t"
    and "shadow (obj t object) = shadow (obj s backing)"
    and "shadow_offset (obj t object) = shadow_offset (obj s object) + shadow_offset (obj s backing)"
    and "o_size (obj t q) = o_size (obj s q)" "pager (obj t q) = pager (obj s q)"
    and "paging_offset (obj t q) = paging_offset (obj s q)"
    and "q \<noteq> object \<Longrightarrow> shadow (obj t q) = shadow (obj s q) \<and> shadow_offset (obj t q) = shadow_offset (obj s q)"
    and "o_refs (obj t q) = o_refs (obj s q) - (if q = backing then 1 else 0)
      + (if q = shadow (obj s backing) \<and> q \<noteq> 0 then 1 else 0)"
    and "vm_object_list t = vm_object_list s"
  using ne ne [symmetric] sh
  by (auto simp: t_def collapse_bypass_def vm_object_reference_def Let_def table_same_def)
    (auto simp: upd_obj_def)

lemma not_needed:
  assumes inv: "table_inv s" and "\<not> page_needed object boff osize s ps" "p \<in> set ps"
    and "boff \<le> pg_offset (page s p)" "pg_offset (page s p) - boff \<le> osize"
  shows "page_at s (object, pg_offset (page s p) - boff) \<noteq> None"
  using assms(2-) by (induction ps) (auto simp: Let_def lookup_null split: if_splits)

definition shows_same :: "u32 \<Rightarrow> 'a vm_pages_scheme \<Rightarrow> ptr list \<Rightarrow> 'b vm_pages_scheme \<Rightarrow> ptr list \<Rightarrow> bool" where
  "shows_same osize s xs t ys \<longleftrightarrow> (\<forall>h a. a < osize \<longrightarrow> visible h t ys a = visible h s xs a)"

lemma merge_shows:
  assumes inv: "table_inv s" and ch: "chain s q (q # b # rest)"
    and fit: "unat (o_size (obj s q)) + span s (q # b # rest) \<le> 2 ^ 32"
    and pg: "pager (obj s q) = 0"
    and cp: "shadow (obj s b) = 0 \<or> copy_obj (obj s (shadow (obj s b))) = 0"
  shows "\<exists>t. collapse_merge q b s = Inr t \<and> table_inv t \<and> chain t q (q # rest) \<and>
     span t (q # rest) \<le> span s (q # b # rest) \<and> o_size (obj t q) = o_size (obj s q) \<and>
     shows_same (o_size (obj s q)) s (q # b # rest) t (q # rest) \<and> vm_object_list t = remove1 b (vm_object_list s)"
proof -
  have d: "distinct (q # b # rest)" using chain_distinct [OF ch] .
  have nz: "q \<noteq> 0" "b \<noteq> 0" using ch by auto
  have "shadow (obj s b) \<in> set rest \<union> {0}" using ch by (cases rest) auto
  then have sh: "shadow (obj s b) \<notin> {q, b}" using d nz by auto
  obtain t where t: "collapse_merge q b s = Inr t" "table_inv t"
      and at: "page_at t = merged q b (shadow_offset (obj s q)) (o_size (obj s q)) (page_at s)"
      and tq: "pager (obj t q) = pager (obj s b)" "paging_offset (obj t q) = paging_offset (obj s b) + shadow_offset (obj s q)"
        "shadow (obj t q) = shadow (obj s b)" "shadow_offset (obj t q) = shadow_offset (obj s q) + shadow_offset (obj s b)"
      and sz: "o_size (obj t q) = o_size (obj s q)"
      and oth: "\<And>x. x \<noteq> q \<and> x \<noteq> b \<Longrightarrow> pager (obj t x) = pager (obj s x) \<and>
        paging_offset (obj t x) = paging_offset (obj s x) \<and> shadow_offset (obj t x) = shadow_offset (obj s x)"
      and shx: "\<And>x. x \<noteq> q \<Longrightarrow> shadow (obj t x) = shadow (obj s x)"
      and ls: "vm_object_list t = remove1 b (vm_object_list s)"
    using merge_fields [OF inv _ sh cp] d by auto
  have rest: "x \<noteq> q" "x \<noteq> b" if "x \<in> set rest" for x using d that by auto
  have chain: "chain t q (q # rest)"
    using ch nz tq(3) chain_cong [of rest t s] shx rest by auto
  have span: "span t (q # rest) \<le> span s (q # b # rest)"
    using oth rest tq(4) by (intro span_shorter) auto
  have vis: "visible h t rest a = visible h s rest a" for h a
    using oth rest by (intro visible_cong) (auto simp: at merged_def)
  have "visible h t (q # rest) a = visible h s (q # b # rest) a" if a: "a < o_size (obj s q)" for h a
  proof -
    have "shadow_offset (obj s q) \<le> a + shadow_offset (obj s q)"
      using fit by (intro no_wrap [OF a]) (simp add: span_def)
    then have "page_at t (q, a) = (case page_at s (q, a) of Some p \<Rightarrow> Some p
        | None \<Rightarrow> page_at s (b, a + shadow_offset (obj s q)))"
      using d a by (auto simp: at merged_def)
    then show ?thesis
      using pg by (auto simp: tq vis algebra_simps split: option.splits)
  qed
  with t chain span sz ls show ?thesis by (auto simp: shows_same_def)
qed

lemma bypass_shows:
  assumes inv: "table_inv s" and ch: "chain s q (q # b # rest)"
    and fit: "unat (o_size (obj s q)) + span s (q # b # rest) \<le> 2 ^ 32"
    and pg: "pager (obj s q) = 0" "pager (obj s b) = 0"
    and need: "\<not> page_needed q (shadow_offset (obj s q)) (o_size (obj s q)) s (memq (obj s b))"
  defines "t \<equiv> collapse_bypass q b s"
  shows "table_inv t" "chain t q (q # rest)" "span t (q # rest) \<le> span s (q # b # rest)"
    "o_size (obj t q) = o_size (obj s q)"
    "shows_same (o_size (obj s q)) s (q # b # rest) t (q # rest)" "vm_object_list t = vm_object_list s"
proof -
  have d: "distinct (q # b # rest)" using chain_distinct [OF ch] .
  have nz: "q \<noteq> 0" "b \<noteq> 0" using ch by auto
  have "shadow (obj s b) \<in> set rest \<union> {0}" using ch by (cases rest) auto
  then have sh: "shadow (obj s b) \<notin> {q, b}" using d nz by auto
  have ne: "q \<noteq> b" using d by auto
  note F = bypass_fields [OF ne sh, folded t_def]
  have rest: "x \<noteq> q" "x \<noteq> b" if "x \<in> set rest" for x using d that by auto
  have at: "page_at t = page_at s" using table_same_page_at [OF F(1)] .
  show "table_inv t" using table_same_inv [OF F(1)] inv by simp
  show "o_size (obj t q) = o_size (obj s q)" "vm_object_list t = vm_object_list s" using F by auto
  show "chain t q (q # rest)"
    using ch nz F(2) chain_cong [of rest t s] F(7) rest by auto
  show "span t (q # rest) \<le> span s (q # b # rest)"
    using F(7) rest F(3) by (intro span_shorter) auto
  have vis: "visible h t rest a = visible h s rest a" for h a
    using F(5-7) rest by (intro visible_cong) (auto simp: at)
  have "visible h t (q # rest) a = visible h s (q # b # rest) a" if a: "a < o_size (obj s q)" for h a
  proof (cases "page_at s (q, a)")
    case (Some p)
    then show ?thesis by (simp add: at)
  next
    case None
    let ?o = "shadow_offset (obj s q)"
    have le: "?o \<le> a + ?o" using fit by (intro no_wrap [OF a]) (simp add: span_def)
    have "page_at s (b, a + ?o) = None"
    proof (cases "page_at s (b, a + ?o)")
      case (Some p)
      then have p: "tabled (page s p)" "pg_object (page s p) = b" "pg_offset (page s p) = a + ?o"
        using page_at_iff [OF inv] by blast+
      then have "p \<in> set (memq (obj s b))" using table_invD(2) [OF inv, of b] by simp
      from not_needed [OF inv need this] p less_imp_le [OF a] le None show ?thesis by simp
    qed
    with None pg F(5) show ?thesis by (simp add: at vis F(3) algebra_simps)
  qed
  then show "shows_same (o_size (obj s q)) s (q # b # rest) t (q # rest)" by (simp add: shows_same_def)
qed

subsection \<open>References\<close>

text \<open>
  The reference count of an object is the number of objects that shadow it plus the references
  held elsewhere (\<open>ext\<close>: map entries, the cache user), and no object shadows one that is gone.
\<close>

definition refs_inv :: "(ptr \<Rightarrow> int) \<Rightarrow> 'a vm_objs_scheme \<Rightarrow> bool" where
  "refs_inv ext s \<longleftrightarrow>
     distinct (vm_object_list s) \<and>
     (\<forall>x\<in>set (vm_object_list s). shadow (obj s x) = 0 \<or> shadow (obj s x) \<in> set (vm_object_list s)) \<and>
     (\<forall>x\<in>set (vm_object_list s). 0 \<le> ext x \<and>
        o_refs (obj s x) = ext x + int (card {y \<in> set (vm_object_list s). shadow (obj s y) = x}))"

lemma card_swap:
  "finite A \<Longrightarrow> b \<in> A \<Longrightarrow> q \<notin> A \<Longrightarrow> card (insert q (A - {b})) = card A"
  using card_Suc_Diff1 [of A b] by (simp add: card_insert_if)

lemma only_user:
  assumes "refs_inv ext s" "q \<in> set (vm_object_list s)" "b \<in> set (vm_object_list s)" "shadow (obj s q) = b"
    "o_refs (obj s b) = 1"
  shows "{y \<in> set (vm_object_list s). shadow (obj s y) = b} = {q}"
proof -
  let ?A = "{y \<in> set (vm_object_list s). shadow (obj s y) = b}"
  have q: "q \<in> ?A" using assms by simp
  then have "card ?A \<noteq> 0" by (auto simp: card_eq_0_iff)
  moreover have "0 \<le> ext b" "1 = ext b + int (card ?A)" using assms by (auto simp: refs_inv_def)
  ultimately have "card ?A = 1" by linarith
  then obtain x where x: "?A = {x}" by (rule card_1_singletonE)
  have "q = x" using q unfolding x by simp
  with x show ?thesis by simp
qed

lemma merge_refs:
  assumes inv: "refs_inv ext s" and q: "q \<in> set (vm_object_list s)" and b: "b \<in> set (vm_object_list s)"
    and sq: "shadow (obj s q) = b" and one: "o_refs (obj s b) = 1" and ne: "q \<noteq> b" and sb: "shadow (obj s b) \<notin> {q, b}"
    and t: "vm_object_list t = remove1 b (vm_object_list s)" "\<And>x. o_refs (obj t x) = o_refs (obj s x)"
      "shadow (obj t q) = shadow (obj s b)" "\<And>x. x \<noteq> q \<Longrightarrow> shadow (obj t x) = shadow (obj s x)"
  shows "refs_inv ext t"
proof -
  let ?L = "set (vm_object_list s)"
  have d: "distinct (vm_object_list s)"
    and cl: "\<And>x. x \<in> ?L \<Longrightarrow> shadow (obj s x) = 0 \<or> shadow (obj s x) \<in> ?L"
    and rc: "\<And>x. x \<in> ?L \<Longrightarrow> 0 \<le> ext x \<and> o_refs (obj s x) = ext x + int (card {y \<in> ?L. shadow (obj s y) = x})"
    using inv by (auto simp: refs_inv_def)
  have L: "set (vm_object_list t) = ?L - {b}" using d by (simp add: t(1))
  have sh: "shadow (obj t y) = (if y = q then shadow (obj s b) else shadow (obj s y))" for y
    using t(3,4) by simp
  have users: "\<And>y. y \<in> ?L \<Longrightarrow> shadow (obj s y) = b \<Longrightarrow> y = q"
    using only_user [OF inv q b sq one] by auto
  have "card {y \<in> ?L - {b}. shadow (obj t y) = x} = card {y \<in> ?L. shadow (obj s y) = x}" if x: "x \<in> ?L - {b}" for x
  proof (cases "x = shadow (obj s b)")
    case True
    have "{y \<in> ?L - {b}. shadow (obj t y) = x} = insert q ({y \<in> ?L. shadow (obj s y) = x} - {b})"
      unfolding sh using True q ne by auto
    moreover have "q \<notin> {y \<in> ?L. shadow (obj s y) = x}" using sq x by auto
    ultimately show ?thesis using card_swap [of "{y \<in> ?L. shadow (obj s y) = x}" b q] b True by simp
  next
    case False
    then have "{y \<in> ?L - {b}. shadow (obj t y) = x} = {y \<in> ?L. shadow (obj s y) = x}"
      unfolding sh using sq x by auto
    then show ?thesis by simp
  qed
  note cards = this
  have closed: "shadow (obj t x) = 0 \<or> shadow (obj t x) \<in> ?L - {b}" if x: "x \<in> ?L - {b}" for x
  proof (cases "x = q")
    case True
    then show ?thesis unfolding sh using cl [OF b] sb by simp
  next
    case False
    then show ?thesis unfolding sh using cl [of x] users [of x] x by auto
  qed
  show ?thesis
    unfolding refs_inv_def L
  proof (intro conjI ballI)
    show "distinct (vm_object_list t)" using d by (simp add: t(1))
  next
    fix x assume x: "x \<in> ?L - {b}"
    then show "shadow (obj t x) = 0 \<or> shadow (obj t x) \<in> ?L - {b}" by (rule closed)
    show "0 \<le> ext x" using rc [of x] x by simp
    show "o_refs (obj t x) = ext x + int (card {y \<in> ?L - {b}. shadow (obj t y) = x})"
      using rc [of x] x cards [OF x] by (simp add: t(2))
  qed
qed

lemma bypass_refs:
  assumes inv: "refs_inv ext s" and q: "q \<in> set (vm_object_list s)" and b: "b \<in> set (vm_object_list s)"
    and sq: "shadow (obj s q) = b" and ne: "q \<noteq> b" and sb: "shadow (obj s b) \<notin> {q, b}"
    and z: "0 \<notin> set (vm_object_list s)"
  shows "refs_inv ext (collapse_bypass q b s)"
proof -
  let ?L = "set (vm_object_list s)" and ?t = "collapse_bypass q b s"
  note F = bypass_fields [OF ne sb]
  have d: "distinct (vm_object_list s)"
    and cl: "\<And>x. x \<in> ?L \<Longrightarrow> shadow (obj s x) = 0 \<or> shadow (obj s x) \<in> ?L"
    and rc: "\<And>x. x \<in> ?L \<Longrightarrow> 0 \<le> ext x \<and> o_refs (obj s x) = ext x + int (card {y \<in> ?L. shadow (obj s y) = x})"
    using inv by (auto simp: refs_inv_def)
  have sh: "shadow (obj ?t y) = (if y = q then shadow (obj s b) else shadow (obj s y))" for y
    using F(2,7) by auto
  have "int (card {y \<in> ?L. shadow (obj ?t y) = x}) = int (card {y \<in> ?L. shadow (obj s y) = x})
      - (if x = b then 1 else 0) + (if x = shadow (obj s b) \<and> x \<noteq> 0 then 1 else 0)" if x: "x \<in> ?L" for x
  proof -
    have x0: "x \<noteq> 0" using x z by metis
    consider "x = b" | "x = shadow (obj s b)" | "x \<noteq> b" "x \<noteq> shadow (obj s b)" by blast
    then show ?thesis
    proof cases
      case 1
      have "{y \<in> ?L. shadow (obj ?t y) = x} = {y \<in> ?L. shadow (obj s y) = x} - {q}"
        unfolding sh using 1 sb by auto
      moreover have "q \<in> {y \<in> ?L. shadow (obj s y) = x}" using q sq 1 by simp
      ultimately show ?thesis using card_Suc_Diff1 [of "{y \<in> ?L. shadow (obj s y) = x}" q] 1 sb by auto
    next
      case 2
      have "{y \<in> ?L. shadow (obj ?t y) = x} = insert q {y \<in> ?L. shadow (obj s y) = x}"
        unfolding sh using 2 q by auto
      moreover have "q \<notin> {y \<in> ?L. shadow (obj s y) = x}" using sq 2 sb by auto
      ultimately show ?thesis using 2 sb x0 by auto
    next
      case 3
      then have "{y \<in> ?L. shadow (obj ?t y) = x} = {y \<in> ?L. shadow (obj s y) = x}"
        unfolding sh using sq by auto
      then show ?thesis using 3 by simp
    qed
  qed
  then show ?thesis
    unfolding refs_inv_def F(9) F(8) using rc d cl b sh by auto
qed

lemma collapse_step_shows:
  assumes inv: "table_inv s" and ch: "chain s q (q # xs)"
    and fit: "unat (o_size (obj s q)) + span s (q # xs) \<le> 2 ^ 32"
  shows "collapse_step q s = Inr None \<or>
    (\<exists>b rest t. xs = b # rest \<and> collapse_step q s = Inr (Some t) \<and> table_inv t \<and> chain t q (q # rest) \<and>
      span t (q # rest) \<le> span s (q # xs) \<and> o_size (obj t q) = o_size (obj s q) \<and>
      shows_same (o_size (obj s q)) s (q # xs) t (q # rest))"
proof (cases "collapse_step q s = Inr None")
  case False
  then have pg: "pager (obj s q) = 0" and nz: "shadow (obj s q) \<noteq> 0"
    by (auto simp: collapse_step_def split: if_splits)
  then obtain b rest where xs: "xs = b # rest" "shadow (obj s q) = b" using ch by (cases xs) auto
  have cp: "shadow (obj s b) = 0 \<or> copy_obj (obj s (shadow (obj s b))) = 0"
    using False xs by (auto simp: collapse_step_def Let_def split: if_splits)
  show ?thesis
  proof (cases "o_refs (obj s b) = 1")
    case True
    then have "collapse_step q s = kbind (collapse_merge q b s) (\<lambda>s. Inr (Some s))"
      using False xs by (auto simp: collapse_step_def Let_def split: if_splits)
    then show ?thesis
      using merge_shows [OF inv ch [unfolded xs(1)] fit [unfolded xs(1)] pg cp] xs by auto
  next
    case other: False
    then have step: "collapse_step q s = Inr (Some (collapse_bypass q b s))" and pb: "pager (obj s b) = 0"
      and need: "\<not> page_needed q (shadow_offset (obj s q)) (o_size (obj s q)) s (memq (obj s b))"
      using False xs by (auto simp: collapse_step_def Let_def split: if_splits)
    then show ?thesis
      using bypass_shows [OF inv ch [unfolded xs(1)] fit [unfolded xs(1)] pg pb need] xs by auto
  qed
qed simp

definition live :: "(ptr \<Rightarrow> int) \<Rightarrow> ptr \<Rightarrow> 'a vm_objs_scheme \<Rightarrow> bool" where
  "live ext q s \<longleftrightarrow> refs_inv ext s \<and> 0 \<notin> set (vm_object_list s) \<and> q \<in> set (vm_object_list s)"

lemma collapse_step_live:
  assumes inv: "table_inv s" and ch: "chain s q (q # xs)" and lv: "live ext q s"
    and st: "collapse_step q s = Inr (Some t)"
  shows "live ext q t"
proof -
  have nz: "shadow (obj s q) \<noteq> 0" using st by (auto simp: collapse_step_def split: if_splits)
  then obtain b rest where xs: "xs = b # rest" "shadow (obj s q) = b" using ch by (cases xs) auto
  have d: "distinct (q # b # rest)" using chain_distinct [OF ch] xs by simp
  have "shadow (obj s b) \<in> set rest \<union> {0}" using ch xs by (cases rest) auto
  then have sb: "shadow (obj s b) \<notin> {q, b}" using d ch xs by auto
  have ne: "q \<noteq> b" using d by auto
  have L: "refs_inv ext s" "0 \<notin> set (vm_object_list s)" "q \<in> set (vm_object_list s)" "b \<in> set (vm_object_list s)"
    using lv nz xs by (auto simp: live_def refs_inv_def)
  have cp: "shadow (obj s b) = 0 \<or> copy_obj (obj s (shadow (obj s b))) = 0"
    using st xs by (auto simp: collapse_step_def Let_def split: if_splits)
  show ?thesis
  proof (cases "o_refs (obj s b) = 1")
    case True
    then have m: "collapse_merge q b s = Inr t"
      using st xs by (auto simp: collapse_step_def Let_def kbind_eq_Inr split: if_splits)
    then have t: "vm_object_list t = remove1 b (vm_object_list s)" "\<And>x. o_refs (obj t x) = o_refs (obj s x)"
        "shadow (obj t q) = shadow (obj s b)" "\<And>x. x \<noteq> q \<Longrightarrow> shadow (obj t x) = shadow (obj s x)"
      using merge_fields [OF inv ne sb cp] by auto
    have "distinct (vm_object_list s)" using L(1) by (simp add: refs_inv_def)
    with merge_refs [OF L(1,3,4) xs(2) True ne sb t] L ne show ?thesis by (simp add: live_def t(1))
  next
    case False
    then have "t = collapse_bypass q b s"
      using st xs by (auto simp: collapse_step_def Let_def split: if_splits)
    with bypass_refs [OF L(1,3,4) xs(2) ne sb L(2)] L bypass_fields(9) [OF ne sb] show ?thesis
      by (simp add: live_def)
  qed
qed

lemma collapse_loop_shows:
  assumes "table_inv s" "chain s q (q # xs)" "unat (o_size (obj s q)) + span s (q # xs) \<le> 2 ^ 32" "length xs < n"
  shows "\<exists>t ys. collapse_loop n q s = Inr (Some t) \<and> table_inv t \<and> chain t q (q # ys) \<and> length ys \<le> length xs \<and>
    o_size (obj t q) = o_size (obj s q) \<and> shows_same (o_size (obj s q)) s (q # xs) t (q # ys) \<and>
    collapse_step q t = Inr None \<and> (\<forall>ext. live ext q s \<longrightarrow> live ext q t)"
  using assms
proof (induction n arbitrary: s xs)
  case (Suc n)
  from collapse_step_shows [OF Suc.prems(1-3)] show ?case
  proof (elim disjE exE conjE)
    assume "collapse_step q s = Inr None"
    then show ?thesis using Suc.prems by (auto simp: shows_same_def)
  next
    fix b rest t
    assume xs: "xs = b # rest" and st: "collapse_step q s = Inr (Some t)" and t: "table_inv t" "chain t q (q # rest)"
      "span t (q # rest) \<le> span s (q # xs)" "o_size (obj t q) = o_size (obj s q)"
      "shows_same (o_size (obj s q)) s (q # xs) t (q # rest)"
    have fit: "unat (o_size (obj t q)) + span t (q # rest) \<le> 2 ^ 32" using t(3,4) Suc.prems(3) by simp
    obtain u ys where u: "collapse_loop n q t = Inr (Some u)" "table_inv u" "chain u q (q # ys)" "length ys \<le> length rest"
        "o_size (obj u q) = o_size (obj t q)" "shows_same (o_size (obj t q)) t (q # rest) u (q # ys)"
        "collapse_step q u = Inr None" "\<And>ext. live ext q t \<Longrightarrow> live ext q u"
      using Suc.IH [OF t(1,2) fit] Suc.prems(4) xs by auto
    moreover have "live ext q t" if "live ext q s" for ext
      using collapse_step_live [OF Suc.prems(1,2) that st] .
    ultimately show ?thesis using st t xs
      by (intro exI [of _ u] exI [of _ ys]) (simp add: shows_same_def)
  qed
qed simp


lemma chain_short:
  assumes "chain s q xs" "set xs \<subseteq> set ls" shows "length xs \<le> length ls"
proof -
  have "length xs = card (set xs)" using chain_distinct [OF assms(1)] by (simp add: distinct_card)
  also have "\<dots> \<le> card (set ls)" using assms(2) by (intro card_mono) auto
  also have "\<dots> \<le> length ls" by (rule card_length)
  finally show ?thesis .
qed

lemma collapse_shows:
  assumes "table_inv s" "chain s q (q # xs)" "unat (o_size (obj s q)) + span s (q # xs) \<le> 2 ^ 32"
    "set (q # xs) \<subseteq> set (vm_object_list s)"
  shows "\<exists>t ys. vm_object_collapse q s = Inr (Some t) \<and> table_inv t \<and> chain t q (q # ys) \<and> length ys \<le> length xs \<and>
    o_size (obj t q) = o_size (obj s q) \<and> shows_same (o_size (obj s q)) s (q # xs) t (q # ys) \<and>
    (collapse_allowed s \<longrightarrow> collapse_step q t = Inr None) \<and> (\<forall>ext. live ext q s \<longrightarrow> live ext q t)"
proof (cases "collapse_allowed s")
  case True
  have "length xs < Suc (length (vm_object_list s))" using chain_short [OF assms(2,4)] by simp
  from collapse_loop_shows [OF assms(1-3) this] True show ?thesis
    by (auto simp: vm_object_collapse_def simp del: collapse_loop.simps)
next
  case False
  then show ?thesis using assms
    by (intro exI [of _ s] exI [of _ xs]) (simp add: vm_object_collapse_def shows_same_def)
qed

text \<open>C14:
  \<^verbatim>\<open>vm_object_collapse\<close> ends without panic and does not change what the object shows: at every
  offset below its size the data still comes from the same resident page, from the same place of
  the same pager, or is zero fill, whether backing objects were merged into the object or
  bypassed.  The chain of shadows does not grow, and the table of resident pages stays
  consistent.
\<close>

theorem vm_object_collapse_preserves:
  assumes "table_inv s" and "chain s q (q # xs)" and "set (q # xs) \<subseteq> set (vm_object_list s)"
    and "unat (o_size (obj s q)) + span s (q # xs) \<le> 2 ^ 32"
  shows "\<exists>t ys. vm_object_collapse q s = Inr (Some t) \<and> table_inv t \<and> chain t q (q # ys) \<and>
    length ys \<le> length xs \<and>
    (\<forall>has_page a. a < o_size (obj s q) \<longrightarrow> visible has_page t (q # ys) a = visible has_page s (q # xs) a)"
  using collapse_shows [OF assms(1,2,4,3)] unfolding shows_same_def by blast

definition demo_objs :: vm_objs where
  "demo_objs =
    \<lparr>page = (\<lambda>_. blank_page),
     obj = (\<lambda>q. if q = 10 then vm_object_template\<lparr>o_size := 16384, shadow := 20, shadow_offset := 8192\<rparr>
                else vm_object_template\<lparr>o_size := 32768, pager := 5\<rparr>),
     vm_page_buckets = (\<lambda>_. []), vm_page_hash_mask = 0, page_size = 8192, page_mask = 8191, page_shift = 13,
     queue_free = [], queue_active = [], queue_inactive = [], free_count = 0, active_count = 0,
     inactive_count = 0, page_wire_count = 0, free_target = 2, free_min = 1, inactive_target = 1,
     free_reserved = 0, pages_needed = False, pmap_modified = (\<lambda>_. False), pmap_log = [],
     object_zone = [30, 40], vm_object_list = [10, 20], vm_object_count = 2, cached_list = [],
     vm_object_cached = 0, vm_cache_max = 400, hashtable = (\<lambda>_. []), pager_log = [],
     object_collapses = 0, object_bypasses = 0, collapse_allowed = True\<rparr>"

lemma demo_objs_ok:
  "table_inv demo_objs" "chain demo_objs 10 [10, 20]" "set [10, 20] \<subseteq> set (vm_object_list demo_objs)"
  "unat (o_size (obj demo_objs 10)) + span demo_objs [10, 20] \<le> 2 ^ 32"
  "refs_inv (\<lambda>x. if x = 10 then 1 else 0) demo_objs" "0 \<notin> set (vm_object_list demo_objs)"
proof -
  have "{y :: ptr. (y = 10 \<or> y = 20) \<and> shadow (if y = 10 then vm_object_template\<lparr>o_size := 16384, shadow := 20, shadow_offset := 8192\<rparr>
      else vm_object_template\<lparr>o_size := 32768, pager := 5\<rparr>) = x} = (if x = 20 then {10} else if x = 0 then {20} else {})" for x :: nat
    by (auto simp: vm_object_template_def)
  then show "refs_inv (\<lambda>x. if x = 10 then 1 else 0) demo_objs"
    by (simp add: refs_inv_def demo_objs_def vm_object_template_def)
qed (simp_all add: table_inv_def demo_objs_def vm_object_template_def blank_page_def span_def)

theorem vm_object_collapse_preserves_witness:
  "\<exists>t ys. vm_object_collapse 10 demo_objs = Inr (Some t) \<and> chain t 10 (10 # ys) \<and>
     visible (\<lambda>_ _. True) t (10 # ys) 0 = Paged 5 8192"
proof -
  have "visible (\<lambda>_ _. True) demo_objs [10, 20] 0 = Paged 5 8192" "0 < o_size (obj demo_objs 10)"
    by (simp_all add: demo_objs_def page_at_def vm_page_lookup_def vm_object_template_def)
  then show ?thesis using vm_object_collapse_preserves [OF demo_objs_ok(1-4)] by metis
qed




subsection \<open>Shadows and copies\<close>

text \<open>A free object structure has no pages and is in no list.\<close>

definition zone_ok :: "'a vm_objs_scheme \<Rightarrow> bool" where
  "zone_ok s \<longleftrightarrow> distinct (object_zone s) \<and>
     (\<forall>r\<in>set (object_zone s). r \<noteq> 0 \<and> memq (obj s r) = [] \<and> r \<notin> set (vm_object_list s))"

lemma allocate_fields:
  assumes "table_inv s" "zone_ok s" "object_zone s = r # rs"
  shows "\<exists>t. vm_object_allocate n s = Inr (r, t) \<and> table_same s t \<and>
     obj t = (obj s)(r := vm_object_template\<lparr>o_size := n\<rparr>) \<and> vm_object_list t = vm_object_list s @ [r] \<and> r \<noteq> 0"
proof -
  have "memq (obj s r) = []" "resident_page_count (obj s r) = 0"
    using assms table_invD(3) [OF assms(1), of r] by (simp_all add: zone_ok_def)
  then have "table_same s (vm_object_allocate_at n r (s\<lparr>object_zone := rs\<rparr>))"
    by (auto simp: table_same_def vm_object_allocate_at_def Let_def vm_object_template_def)
  moreover have "obj (vm_object_allocate_at n r (s\<lparr>object_zone := rs\<rparr>)) = (obj s)(r := vm_object_template\<lparr>o_size := n\<rparr>)"
    by (auto simp: vm_object_allocate_at_def Let_def vm_object_template_def)
  moreover have "vm_object_list (vm_object_allocate_at n r (s\<lparr>object_zone := rs\<rparr>)) = vm_object_list s @ [r]"
    by (simp add: vm_object_allocate_at_def Let_def upd_obj_def)
  ultimately show ?thesis using assms by (auto simp: vm_object_allocate_def zone_ok_def)
qed

lemma no_pages: "table_inv s \<Longrightarrow> memq (obj s r) = [] \<Longrightarrow> page_at s (r, a) = None"
  using page_at_iff [of s r a] table_invD(2) [of s r] by (cases "page_at s (r, a)") auto

text \<open>An object without pages and pager shows what its shadow shows.\<close>

lemma visible_empty:
  "(\<And>a. page_at s (r, a) = None) \<Longrightarrow> pager (obj s r) = 0 \<Longrightarrow>
     visible h s (r # xs) a = visible h s xs (a + shadow_offset (obj s r))"
  by simp

lemma visible_head:
  "page_at t (c, a) = page_at s (c, a) \<Longrightarrow> pager (obj t c) = pager (obj s c) \<Longrightarrow>
   paging_offset (obj t c) = paging_offset (obj s c) \<Longrightarrow>
   visible h t xs (a + shadow_offset (obj t c)) = visible h s ys (a + shadow_offset (obj s c)) \<Longrightarrow>
   visible h t (c # xs) a = visible h s (c # ys) a"
  by (auto split: option.splits)

lemma cow_walk_same:
  "table_same s (mark_cow_walk b e ps s)" "obj (mark_cow_walk b e ps s) = obj s"
  "vm_object_list (mark_cow_walk b e ps s) = vm_object_list s"
proof -
  have "table_same s (mark_cow_walk b e ps s) \<and> obj (mark_cow_walk b e ps s) = obj s \<and>
      vm_object_list (mark_cow_walk b e ps s) = vm_object_list s"
  proof (induction ps arbitrary: s)
    case (Cons p ps)
    define t where
      "t = (if b \<le> pg_offset (page s p) \<and> pg_offset (page s p) < e then upd_page p (\<lambda>v. v\<lparr>pg_cow := True\<rparr>) s else s)"
    have "table_same s t" "obj t = obj s" "vm_object_list t = vm_object_list s"
      by (simp_all add: t_def table_same_def upd_page_def)
    moreover have "mark_cow_walk b e (p # ps) s = mark_cow_walk b e ps t" by (simp add: t_def)
    ultimately show ?case using Cons [of t] table_same_trans by metis
  qed (simp add: table_same_refl)
  then show "table_same s (mark_cow_walk b e ps s)" "obj (mark_cow_walk b e ps s) = obj s"
    "vm_object_list (mark_cow_walk b e ps s) = vm_object_list s" by auto
qed

lemma cow_walk_marks:
  assumes "p \<in> set ps" "b \<le> pg_offset (page s p)" "pg_offset (page s p) < e"
  shows "pg_cow (page (mark_cow_walk b e ps s) p)"
proof -
  have off: "pg_offset (page (mark_cow_walk b e qs u) p) = pg_offset (page u p)" for qs u
    using cow_walk_same(1) [of u b e qs] by (simp add: table_same_def)
  have keep: "pg_cow (page u p) \<Longrightarrow> pg_cow (page (mark_cow_walk b e qs u) p)" for qs u
    by (induction qs arbitrary: u) auto
  show ?thesis
    using assms
  proof (induction ps arbitrary: s)
    case (Cons x xs)
    then show ?case using keep [of "upd_page p (\<lambda>v. v\<lparr>pg_cow := True\<rparr>) s" xs] by auto
  qed simp
qed

lemma shadow_shows:
  assumes "table_inv s" and "zone_ok s" and "object_zone s = r # rs" and "chain s q xs" and "r \<notin> set xs"
  shows "\<exists>t. vm_object_shadow q off len s = Inr (r, 0, t) \<and> table_inv t \<and> chain t r (r # xs) \<and> chain t q xs \<and>
    (\<forall>h a. visible h t (r # xs) (0 + a) = visible h s xs (off + a) \<and> visible h t xs a = visible h s xs a) \<and> r \<noteq> 0 \<and>
    table_same s t \<and> obj t = (obj s)(r := vm_object_template\<lparr>o_size := len, shadow := q, shadow_offset := off\<rparr>) \<and>
    vm_object_list t = vm_object_list s @ [r]"
proof -
  obtain u where u: "vm_object_allocate len s = Inr (r, u)" "table_same s u"
      "obj u = (obj s)(r := vm_object_template\<lparr>o_size := len\<rparr>)" "r \<noteq> 0"
      "vm_object_list u = vm_object_list s @ [r]"
    using allocate_fields [OF assms(1-3)] by blast
  let ?t = "upd_obj r (\<lambda>ob. ob\<lparr>shadow_offset := off\<rparr>) (upd_obj r (\<lambda>ob. ob\<lparr>shadow := q\<rparr>) u)"
  have same: "table_same s ?t" using u(2) by (rule table_same_trans) (auto simp: table_same_def)
  have t: "vm_object_shadow q off len s = Inr (r, 0, ?t)"
    using u by (simp add: vm_object_shadow_def)
  have inv: "table_inv ?t" using table_same_inv [OF same] assms(1) by simp
  have at: "page_at ?t = page_at s" by (rule table_same_page_at [OF same])
  have rest: "obj ?t x = obj s x" if "x \<in> set xs" for x using assms(5) that u(3) by auto
  have xs: "chain ?t q xs" using assms(4) chain_cong [of xs ?t s q] rest by simp
  have vis: "visible h ?t xs a = visible h s xs a" for h a
    using rest at by (intro visible_cong) auto
  have "visible h ?t (r # xs) (0 + a) = visible h s xs (off + a)" for h a
  proof -
    have "page_at ?t (r, b) = None" for b
      using no_pages [OF assms(1), of r b] assms(2,3) at by (simp add: zone_ok_def)
    then have "visible h ?t (r # xs) (0 + a) = visible h ?t xs (0 + a + shadow_offset (obj ?t r))"
      by (rule visible_empty) (simp add: u(3) vm_object_template_def)
    then show ?thesis unfolding vis by (simp add: u(3) add.commute)
  qed
  moreover have "vm_object_list ?t = vm_object_list s @ [r]" using u(5) by (simp add: upd_obj_def)
  ultimately show ?thesis
    using t inv xs vis u(4) same by (intro exI [of _ ?t]) (simp add: u(3))
qed

text \<open>
  A copy object shadows its source at offset 0.
\<close>

definition copy_ok :: "'a vm_objs_scheme \<Rightarrow> ptr \<Rightarrow> bool" where
  "copy_ok s q \<longleftrightarrow> (let c = copy_obj (obj s q) in c \<noteq> 0 \<longrightarrow> shadow (obj s c) = q \<and> shadow_offset (obj s c) = 0)"

lemma collapse_with_pager:
  "pager (obj s q) \<noteq> 0 \<Longrightarrow> vm_object_collapse q s = Inr (Some s)"
  by (simp add: vm_object_collapse_def collapse_step_def)

lemma copy_new_fields:
  assumes inv: "table_inv s" and zone: "zone_ok s" "object_zone s = r # rs" and cp: "copy_ok s q"
    and ch: "chain s q (q # xs)" and r: "r \<notin> set (q # xs)" "r \<noteq> copy_obj (obj s q)" and cx: "copy_obj (obj s q) \<notin> set (q # xs)"
  shows "\<exists>u t. vm_object_allocate (o_size (obj s q)) s = Inr (r, u) \<and> copy_object_new q r u = Inr t \<and> table_same s t \<and>
    chain t r (r # q # xs) \<and> pager (obj t r) = 0 \<and> shadow_offset (obj t r) = 0 \<and>
    (\<forall>x\<in>set (q # xs). pager (obj t x) = pager (obj s x) \<and> paging_offset (obj t x) = paging_offset (obj s x) \<and>
       shadow_offset (obj t x) = shadow_offset (obj s x)) \<and>
    (\<forall>c. c = copy_obj (obj s q) \<and> c \<noteq> 0 \<longrightarrow> chain t c (c # r # q # xs) \<and> shadow_offset (obj t c) = 0 \<and>
       pager (obj t c) = pager (obj s c) \<and> paging_offset (obj t c) = paging_offset (obj s c)) \<and>
    copy_ok t q \<and> copy_obj (obj t q) = r"
proof -
  obtain u where u: "vm_object_allocate (o_size (obj s q)) s = Inr (r, u)" "table_same s u"
      "obj u = (obj s)(r := vm_object_template\<lparr>o_size := o_size (obj s q)\<rparr>)" "r \<noteq> 0"
    using allocate_fields [OF inv zone] by blast
  define c where "c = copy_obj (obj s q)"
  have cu: "copy_obj (obj u q) = c" using r u(3) by (auto simp: c_def)
  have nq: "q \<noteq> r" "r \<noteq> c" "c \<noteq> q" "c \<notin> set xs" "r \<notin> set xs" "q \<notin> set xs" "q \<noteq> 0"
    using r cx chain_distinct [OF ch] ch by (auto simp: c_def)
  define v where "v = (if c \<noteq> 0 then upd_obj r (\<lambda>ob. ob\<lparr>o_refs := o_refs ob + 1\<rparr>)
      (upd_obj c (\<lambda>ob. ob\<lparr>shadow := r\<rparr>) (upd_obj q (\<lambda>ob. ob\<lparr>o_refs := o_refs ob - 1\<rparr>) u)) else u)"
  define w where "w = upd_obj q (\<lambda>ob. ob\<lparr>copy_obj := r\<rparr>) (upd_obj q (\<lambda>ob. ob\<lparr>o_refs := o_refs ob + 1\<rparr>)
      (upd_obj r (\<lambda>ob. ob\<lparr>shadow := q, shadow_offset := 0\<rparr>) v))"
  define t where "t = mark_cow_walk 0 (o_size (obj v r)) (memq (obj w q)) w"
  have guard: "c \<noteq> 0 \<Longrightarrow> shadow (obj u c) = q \<and> shadow_offset (obj u c) = 0"
    using cp nq u(3) by (auto simp: copy_ok_def Let_def c_def)
  have new: "copy_object_new q r u = Inr t"
    using guard by (auto simp: copy_object_new_def Let_def cu t_def w_def v_def)
  have ot: "obj t = obj w" by (simp add: t_def cow_walk_same)
  have "table_same u v" by (auto simp: v_def table_same_def)
  moreover have "table_same v w" by (auto simp: w_def table_same_def)
  moreover have "table_same w t" by (simp add: t_def cow_walk_same)
  ultimately have same: "table_same s t" using u(2) table_same_trans by blast
  have xs: "obj t x = obj s x" if "x \<in> set xs" for x
  proof -
    have "x \<noteq> q" "x \<noteq> r" "x \<noteq> c" using nq that by auto
    then show ?thesis by (simp add: ot w_def v_def u(3))
  qed
  have q: "pager (obj t q) = pager (obj s q)" "paging_offset (obj t q) = paging_offset (obj s q)"
    "shadow_offset (obj t q) = shadow_offset (obj s q)" "shadow (obj t q) = shadow (obj s q)" "copy_obj (obj t q) = r"
    using nq by (simp_all add: ot w_def v_def u(3))
  have rt: "pager (obj t r) = 0" "shadow_offset (obj t r) = 0" "shadow (obj t r) = q"
    using nq by (simp_all add: ot w_def v_def u(3) vm_object_template_def)
  have ct: "c \<noteq> 0 \<Longrightarrow> shadow (obj t c) = r \<and> shadow_offset (obj t c) = 0 \<and> pager (obj t c) = pager (obj s c) \<and>
      paging_offset (obj t c) = paging_offset (obj s c)"
    using nq guard by (auto simp: ot w_def v_def u(3))
  have "chain t (shadow (obj t q)) xs" using ch q(4) chain_cong [of xs t s] xs by auto
  then have "chain t r (r # q # xs)" using rt nq u(4) by auto
  then show ?thesis
    using u(1) new same rt q xs ct u(4) unfolding c_def [symmetric]
    by (intro exI [of _ u] exI [of _ t]) (auto simp: copy_ok_def Let_def)
qed

lemma copy_shows:
  assumes inv: "table_inv s" and zone: "zone_ok s" "object_zone s = r # rs" and cp: "copy_ok s q"
    and ch: "chain s q (q # xs)" and r: "r \<notin> set (q # xs)" "r \<noteq> copy_obj (obj s q)"
    and cx: "copy_obj (obj s q) \<notin> set (q # xs)"
  shows "\<exists>d doff nc t ys. vm_object_copy q off len s = Inr (Some ((d, doff, nc), t)) \<and> table_inv t \<and>
    chain t d ys \<and> (\<forall>h a. visible h t ys (doff + a) = visible h s (q # xs) (off + a)) \<and>
    chain t q (q # xs) \<and> (\<forall>h a. visible h t (q # xs) a = visible h s (q # xs) a) \<and>
    (\<forall>c. c = copy_obj (obj s q) \<and> c \<noteq> 0 \<longrightarrow>
       (\<exists>zs. chain t c zs \<and> (\<forall>h a. visible h t zs a = visible h s (c # q # xs) a))) \<and>
    (nc \<longrightarrow> (\<forall>p\<in>set (memq (obj s q)). off \<le> pg_offset (page s p) \<and> pg_offset (page s p) < off + len \<longrightarrow>
       pg_cow (page t p)))"
proof -
  let ?c = "copy_obj (obj s q)"
  have q0: "q \<noteq> 0" using ch by simp
  have cc: "chain s ?c (?c # q # xs)" "shadow_offset (obj s ?c) = 0" if "?c \<noteq> 0"
    using cp ch that by (auto simp: copy_ok_def Let_def)
  consider (lazy) "pager (obj s q) = 0 \<or> internal (obj s q)"
    | (reuse) "\<not> (pager (obj s q) = 0 \<or> internal (obj s q))" "?c \<noteq> 0" "resident_page_count (obj s ?c) = 0" "pager (obj s ?c) = 0"
    | (new) "\<not> (pager (obj s q) = 0 \<or> internal (obj s q))" "\<not> (?c \<noteq> 0 \<and> resident_page_count (obj s ?c) = 0 \<and> pager (obj s ?c) = 0)"
    by argo
  then show ?thesis
  proof cases
    case lazy
    let ?u = "upd_obj q (\<lambda>ob. ob\<lparr>o_refs := o_refs ob + 1\<rparr>) s"
    let ?t = "mark_cow_walk off (off + len) (memq (obj ?u q)) ?u"
    have "table_same s ?u" by (simp add: table_same_def)
    then have same: "table_same s ?t" using cow_walk_same(1) by (rule table_same_trans)
    have o: "shadow (obj ?t x) = shadow (obj s x) \<and> pager (obj ?t x) = pager (obj s x) \<and>
        paging_offset (obj ?t x) = paging_offset (obj s x) \<and> shadow_offset (obj ?t x) = shadow_offset (obj s x)" for x
      by (simp add: cow_walk_same)
    have chains: "chain ?t x zs = chain s x zs" for x zs using o by (intro chain_cong) simp
    have vis: "visible h ?t zs a = visible h s zs a" for h zs a
      using o table_same_page_at [OF same] by (intro visible_cong) auto
    have marks: "pg_cow (page ?t p)" if "p \<in> set (memq (obj s q))" "off \<le> pg_offset (page s p)" "pg_offset (page s p) < off + len" for p
      using that by (intro cow_walk_marks) simp_all
    have "vm_object_copy q off len s = Inr (Some ((q, off, True), ?t))"
      using lazy q0 by (simp add: vm_object_copy_def Let_def)
    moreover have "table_inv ?t" using table_same_inv [OF same] inv by simp
    ultimately show ?thesis
      using ch cc marks by (intro exI [of _ q] exI [of _ off] exI [of _ True] exI [of _ ?t] exI [of _ "q # xs"])
        (simp only: chains vis simp_thms, blast)
  next
    case reuse
    let ?t = "upd_obj ?c (\<lambda>ob. ob\<lparr>o_refs := o_refs ob + 1\<rparr>) s"
    have same: "table_same s ?t" by (simp add: table_same_def)
    have o: "shadow (obj ?t x) = shadow (obj s x) \<and> pager (obj ?t x) = pager (obj s x) \<and>
        paging_offset (obj ?t x) = paging_offset (obj s x) \<and> shadow_offset (obj ?t x) = shadow_offset (obj s x)" for x
      by simp
    have chains: "chain ?t x zs = chain s x zs" for x zs using o by (intro chain_cong) simp
    have vis: "visible h ?t zs a = visible h s zs a" for h zs a
      using o table_same_page_at [OF same] by (intro visible_cong) auto
    have "memq (obj s ?c) = []" using table_invD(3) [OF inv, of ?c] reuse(3) by simp
    then have "visible h s (?c # q # xs) a = visible h s (q # xs) a" for h a
      using visible_empty [of s ?c h "q # xs" a] no_pages [OF inv] reuse(4) cc(2) [OF reuse(2)] by simp
    moreover have "vm_object_copy q off len s = Inr (Some ((?c, off, False), ?t))"
      using reuse q0 by (simp add: vm_object_copy_def Let_def rbind_def collapse_with_pager)
    moreover have "table_inv ?t" using table_same_inv [OF same] inv by simp
    ultimately show ?thesis
      using ch cc reuse(2) by (intro exI [of _ ?c] exI [of _ off] exI [of _ False] exI [of _ ?t] exI [of _ "?c # q # xs"])
        (simp only: chains vis simp_thms, blast)
  next
    case new
    obtain u t where u: "vm_object_allocate (o_size (obj s q)) s = Inr (r, u)" and t: "copy_object_new q r u = Inr t"
      and same: "table_same s t" and cr: "chain t r (r # q # xs)" "pager (obj t r) = 0" "shadow_offset (obj t r) = 0"
      and fx: "\<forall>x\<in>set (q # xs). pager (obj t x) = pager (obj s x) \<and> paging_offset (obj t x) = paging_offset (obj s x) \<and>
       shadow_offset (obj t x) = shadow_offset (obj s x)"
      and fc: "?c \<noteq> 0 \<Longrightarrow> chain t ?c (?c # r # q # xs) \<and> shadow_offset (obj t ?c) = 0 \<and>
       pager (obj t ?c) = pager (obj s ?c) \<and> paging_offset (obj t ?c) = paging_offset (obj s ?c)"
      using copy_new_fields [OF inv zone cp ch r cx] by auto
    have at: "page_at t = page_at s" by (rule table_same_page_at [OF same])
    have vis: "visible h t (q # xs) a = visible h s (q # xs) a" for h a
      using fx at by (intro visible_cong) auto
    have er: "page_at t (r, a) = None" for a
      using no_pages [OF inv, of r a] zone at by (simp add: zone_ok_def)
    have visr: "visible h t (r # q # xs) a = visible h s (q # xs) a" for h a
      using visible_empty [of t r h "q # xs" a] er cr(2,3) vis by simp
    have visc: "visible h t (?c # r # q # xs) a = visible h s (?c # q # xs) a" if "?c \<noteq> 0" for h a
      by (rule visible_head) (use fc [OF that] cc(2) [OF that] visr [of h a] at in \<open>simp_all del: visible.simps\<close>)
    have "vm_object_copy q off len s = Inr (Some ((r, off, False), t))"
      using new q0 u t by (auto simp: vm_object_copy_def Let_def rbind_def collapse_with_pager)
    moreover have "table_inv t" using table_same_inv [OF same] inv by simp
    moreover have "chain t q (q # xs)" using cr(1) by simp
    ultimately show ?thesis
      using cr(1) visr vis visc fc
      by (intro exI [of _ r] exI [of _ off] exI [of _ False] exI [of _ t] exI [of _ "r # q # xs"])
        (simp only: simp_thms, blast)
  qed
qed



end
