(* ===== verification/VmObjLife.thy ===== *)
theory VmObjLife
  imports VmObject
begin

text \<open>
  The life of a virtual memory object: page removal, coalescing, termination, deallocation and
  the object cache of \<^verbatim>\<open>vm/vm_object.c\<close>, over the definitions of theory VmObject.
\<close>

subsection \<open>Removing pages\<close>

lemma pmap_do_same: "table_same s (pmap_do c s)"
  by (simp add: table_same_def)

definition in_range :: "u32 \<Rightarrow> u32 \<Rightarrow> u32 \<Rightarrow> bool" where
  "in_range b e a \<longleftrightarrow> b \<le> a \<and> a < e"

lemma page_remove_walk_correct:
  assumes "table_inv s" "\<And>p. p \<in> set ps \<Longrightarrow> tabled (page s p) \<and> pg_object (page s p) = q" "distinct ps"
  shows "table_inv (page_remove_walk b e ps s) \<and> page_frame s (page_remove_walk b e ps s) \<and>
    page_at (page_remove_walk b e ps s) =
      (\<lambda>k. case page_at s k of Some p \<Rightarrow> if p \<in> set ps \<and> in_range b e (snd k) then None else Some p | None \<Rightarrow> None)"
  using assms
proof (induction ps arbitrary: s)
  case Nil
  then show ?case by (auto simp: page_frame_refl split: option.splits)
next
  case (Cons p ps)
  define t where "t = (if b \<le> pg_offset (page s p) \<and> pg_offset (page s p) < e
      then vm_page_free p (pmap_do (PmapRemoveAll (phys_addr (page s p))) s) else s)"
  let ?s = "pmap_do (PmapRemoveAll (phys_addr (page s p))) s"
  have p: "tabled (page s p)" "pg_object (page s p) = q" using Cons.prems(2) by auto
  have ts: "table_inv ?s" "page_at ?s = page_at s"
    using table_same_inv [OF pmap_do_same] table_same_page_at [OF pmap_do_same] Cons.prems(1) by auto
  have inv: "table_inv t"
    using Cons.prems(1) free_table [of p ?s] remove_table(1) [OF ts(1), of p] by (auto simp: t_def table_same_inv)
  have at: "page_at t = (if in_range b e (pg_offset (page s p)) then (page_at s)((q, pg_offset (page s p)) := None) else page_at s)"
    using table_same_page_at [OF free_table [of p ?s]] remove_table(2) [OF ts(1), of p] p ts(2)
    by (auto simp: t_def in_range_def)
  have fr: "page_frame s t"
    using page_frame_trans [OF frame_pages(8) frame_free] by (auto simp: t_def page_frame_refl)
  have pg: "page t x = page s x \<or> x = p" for x
  proof (cases "b \<le> pg_offset (page s p) \<and> pg_offset (page s p) < e \<and> x \<noteq> p")
    case True
    then show ?thesis
      by (auto simp: t_def vm_page_free_def vm_page_addfree_def Let_def take_page remove_fields)
  qed (auto simp: t_def)
  have tab: "tabled (page t x) \<and> pg_object (page t x) = q" if "x \<in> set ps" for x
    using pg [of x] Cons.prems(2) [of x] Cons.prems(3) that by auto
  have step: "page_remove_walk b e (p # ps) s = page_remove_walk b e ps t" by (simp add: t_def)
  note IH = Cons.IH [OF inv tab]
  have key: "page_at s k = Some p \<longleftrightarrow> k = (q, pg_offset (page s p))" for k
    using page_at_iff [OF Cons.prems(1), of "fst k" "snd k" p] p by (cases k) auto
  have "(\<lambda>k. case page_at t k of Some x \<Rightarrow> if x \<in> set ps \<and> in_range b e (snd k) then None else Some x | None \<Rightarrow> None) =
      (\<lambda>k. case page_at s k of Some x \<Rightarrow> if x \<in> set (p # ps) \<and> in_range b e (snd k) then None else Some x | None \<Rightarrow> None)"
  proof
    fix k
    show "(case page_at t k of Some x \<Rightarrow> if x \<in> set ps \<and> in_range b e (snd k) then None else Some x | None \<Rightarrow> None) =
      (case page_at s k of Some x \<Rightarrow> if x \<in> set (p # ps) \<and> in_range b e (snd k) then None else Some x | None \<Rightarrow> None)"
      using key [of k] Cons.prems(3) by (cases "k = (q, pg_offset (page s p))") (auto simp: at split: option.splits)
  qed
  with IH Cons.prems(3) step fr show ?case using page_frame_trans [OF fr] by auto
qed

lemma page_remove_correct:
  assumes "table_inv s" "q \<noteq> 0"
  shows "table_inv (vm_object_page_remove q b e s)" "page_frame s (vm_object_page_remove q b e s)"
    "page_at (vm_object_page_remove q b e s) = (\<lambda>k. if fst k = q \<and> in_range b e (snd k) then None else page_at s k)"
proof -
  have "p \<in> set (memq (obj s q)) \<Longrightarrow> tabled (page s p) \<and> pg_object (page s p) = q" for p
    using table_invD(2) [OF assms(1), of q] by simp
  note W = page_remove_walk_correct [OF assms(1) this table_invD(1) [OF assms(1)], of q b e]
  show "table_inv (vm_object_page_remove q b e s)" "page_frame s (vm_object_page_remove q b e s)"
    using W assms(2) by (simp_all add: vm_object_page_remove_def)
  have "(case page_at s k of Some p \<Rightarrow> if p \<in> set (memq (obj s q)) \<and> in_range b e (snd k) then None else Some p | None \<Rightarrow> None) =
      (if fst k = q \<and> in_range b e (snd k) then None else page_at s k)" for k
  proof (cases "page_at s k")
    case (Some p)
    then have "tabled (page s p) \<and> pg_object (page s p) = fst k"
      using page_at_iff [OF assms(1), of "fst k" "snd k" p] by simp
    then have "p \<in> set (memq (obj s q)) \<longleftrightarrow> fst k = q" using table_invD(2) [OF assms(1), of q] by simp
    with Some show ?thesis by simp
  qed simp
  then show "page_at (vm_object_page_remove q b e s) = (\<lambda>k. if fst k = q \<and> in_range b e (snd k) then None else page_at s k)"
    using W assms(2) by (simp add: vm_object_page_remove_def)
qed

text \<open>C36:
  \<^verbatim>\<open>vm_object_coalesce\<close> lets an entry grow over its object only when that is safe.  When it
  says yes for an object, that object has a single reference and neither pager nor shadow nor
  copy, it is large enough for the new part, the new part is zero fill, and everything below
  the old size outside the new part shows what it showed before.  It always returns; a second
  object is refused, and no object at all is always fine.
\<close>

theorem vm_object_coalesce_safe:
  assumes "table_inv s" and "chain s q (q # xs)" and "set (q # xs) \<subseteq> set (vm_object_list s)"
    and "unat (o_size (obj s q)) + span s (q # xs) \<le> 2 ^ 32"
  shows "(\<exists>ok t. vm_object_coalesce q 0 off noff len nlen s = Inr (Some (ok, t)) \<and> table_inv t \<and>
      (ok \<longrightarrow> chain t q [q] \<and> o_refs (obj t q) \<le> 1 \<and> copy_obj (obj t q) = 0 \<and> off + len + nlen \<le> o_size (obj t q) \<and>
         (\<forall>h a. in_range (off + len) (off + len + nlen) a \<longrightarrow> visible h t [q] a = ZeroFill) \<and>
         (\<forall>h a. a < o_size (obj s q) \<and> \<not> in_range (off + len) (off + len + nlen) a \<longrightarrow>
            visible h t [q] a = visible h s (q # xs) a))) \<and>
    vm_object_coalesce 0 0 off noff len nlen s = Inr (Some (True, s)) \<and>
    (x \<noteq> 0 \<longrightarrow> vm_object_coalesce q x off noff len nlen s = Inr (Some (False, s)))"
proof -
  let ?b = "off + len" and ?e = "off + len + nlen"
  have q0: "q \<noteq> 0" using assms(2) by simp
  obtain u ys where u: "vm_object_collapse q s = Inr (Some u)" "table_inv u" "chain u q (q # ys)"
      "o_size (obj u q) = o_size (obj s q)" "shows_same (o_size (obj s q)) s (q # xs) u (q # ys)"
    using collapse_shows [OF assms(1,2,4,3)] by blast
  let ?no = "o_refs (obj u q) > 1 \<or> pager (obj u q) \<noteq> 0 \<or> shadow (obj u q) \<noteq> 0 \<or> copy_obj (obj u q) \<noteq> 0"
  have main: "\<exists>ok t. vm_object_coalesce q 0 off noff len nlen s = Inr (Some (ok, t)) \<and> table_inv t \<and>
      (ok \<longrightarrow> chain t q [q] \<and> o_refs (obj t q) \<le> 1 \<and> copy_obj (obj t q) = 0 \<and> off + len + nlen \<le> o_size (obj t q) \<and>
         (\<forall>h a. in_range ?b ?e a \<longrightarrow> visible h t [q] a = ZeroFill) \<and>
         (\<forall>h a. a < o_size (obj s q) \<and> \<not> in_range ?b ?e a \<longrightarrow> visible h t [q] a = visible h s (q # xs) a))"
  proof (cases ?no)
    case True
    then have "vm_object_coalesce q 0 off noff len nlen s = Inr (Some (False, u))"
      using q0 u(1) by (simp add: vm_object_coalesce_def rbind_def)
    with u(2) show ?thesis by blast
  next
    case False
    let ?v = "vm_object_page_remove q ?b ?e u"
    let ?t = "if ?e > o_size (obj ?v q) then upd_obj q (\<lambda>ob. ob\<lparr>o_size := ?e\<rparr>) ?v else ?v"
    note V = page_remove_correct [OF u(2) q0, of ?b ?e]
    note F = page_frameD [OF V(2)]
    have same: "table_same ?v ?t" by (simp add: table_same_def)
    have at: "page_at ?t (q, a) = (if in_range ?b ?e a then None else page_at u (q, a))" for a
      using table_same_page_at [OF same] V(3) by simp
    have ys: "ys = []" using u(3) False by (cases ys) auto
    have fields: "pager (obj ?t q) = 0" "shadow (obj ?t q) = 0" "o_refs (obj ?t q) \<le> 1" "copy_obj (obj ?t q) = 0"
      "?e \<le> o_size (obj ?t q)"
      using False F by (auto simp: not_less)
    have "vm_object_coalesce q 0 off noff len nlen s = Inr (Some (True, ?t))"
      using q0 u(1) False by (simp add: vm_object_coalesce_def rbind_def Let_def)
    moreover have "table_inv ?t" using table_same_inv [OF same] V(1) by simp
    moreover have "visible h ?t [q] a = ZeroFill" if "in_range ?b ?e a" for h a
      using that fields by (simp add: at)
    moreover have "visible h ?t [q] a = visible h s (q # xs) a" if "a < o_size (obj s q) \<and> \<not> in_range ?b ?e a" for h a
    proof -
      have "visible h ?t [q] a = visible h u [q] a" using that fields(1) False by (simp add: at split: option.splits)
      also have "\<dots> = visible h s (q # xs) a" using u(5) that unfolding ys shows_same_def by blast
      finally show ?thesis .
    qed
    ultimately show ?thesis using fields q0 by (intro exI [of _ True] exI [of _ ?t]) simp
  qed
  then show ?thesis using q0 by (simp add: vm_object_coalesce_def)
qed


theorem vm_object_coalesce_safe_witness:
  "\<exists>ok t. vm_object_coalesce 10 0 0 0 8192 8192 demo_objs = Inr (Some (ok, t)) \<and> table_inv t"
  using vm_object_coalesce_safe [OF demo_objs_ok(1-4), of 0 0 8192 8192] by blast

subsection \<open>Termination and deallocation\<close>

lemma free_page_at:
  assumes "table_inv s" "tabled (page s p)"
  shows "table_inv (vm_page_free p s)"
    "page_at (vm_page_free p s) = (page_at s)((pg_object (page s p), pg_offset (page s p)) := None)"
  using remove_table [OF assms(1), of p] table_same_inv [OF free_table [of p s]]
    table_same_page_at [OF free_table [of p s]] assms(2) by simp_all

text \<open>Taking the pages off the paging queues frees those that were already free.\<close>

lemma terminate_walk_correct:
  assumes "table_inv s" "\<And>p. p \<in> set ps \<Longrightarrow> tabled (page s p) \<and> pg_object (page s p) = q" "distinct ps"
  shows "table_inv (terminate_walk ps s) \<and> page_frame s (terminate_walk ps s) \<and>
    (\<forall>k. fst k \<noteq> q \<longrightarrow> page_at (terminate_walk ps s) k = page_at s k)"
  using assms
proof (induction ps arbitrary: s)
  case (Cons p ps)
  define u where "u = take_inactive p (take_active p s)"
  define t where "t = (if pg_free (page u p) then vm_page_free p u else u)"
  have su: "table_same s u" using take_table table_same_trans unfolding u_def by blast
  have pu: "page u x = page s x \<or> x = p" for x by (simp add: u_def take_page)
  have p: "tabled (page u p)" "pg_object (page u p) = q" using su Cons.prems(2) [of p] by (auto simp: table_same_def)
  have iu: "table_inv u" "page_at u = page_at s" using table_same_inv [OF su] table_same_page_at [OF su] Cons.prems(1) by auto
  have it: "table_inv t" using free_page_at [OF iu(1) p(1)] iu by (simp add: t_def)
  have at: "\<forall>k. fst k \<noteq> q \<longrightarrow> page_at t k = page_at s k"
    using free_page_at(2) [OF iu(1) p(1)] p iu(2) by (auto simp: t_def)
  have fu: "page_frame s u" unfolding u_def by (rule page_frame_trans [OF frame_take])
  then have fr: "page_frame s t"
    using page_frame_trans [OF fu frame_free [of u p]] by (simp add: t_def)
  have "tabled (page t x) \<and> pg_object (page t x) = q" if x: "x \<in> set ps" for x
  proof -
    have "x \<noteq> p" using x Cons.prems(3) by auto
    then have "page t x = page s x"
      using pu [of x] by (auto simp: t_def vm_page_free_def vm_page_addfree_def Let_def take_page remove_fields)
    then show ?thesis using Cons.prems(2) [of x] x by simp
  qed
  from Cons.IH [OF it this] Cons.prems(3) at have "table_inv (terminate_walk ps t) \<and> page_frame t (terminate_walk ps t) \<and>
      (\<forall>k. fst k \<noteq> q \<longrightarrow> page_at (terminate_walk ps t) k = page_at s k)" by simp
  moreover have "terminate_walk (p # ps) s = terminate_walk ps t" by (simp add: t_def u_def Let_def)
  ultimately show ?case using page_frame_trans [OF fr] by metis
qed (simp add: page_frame_refl)

lemma free_pages_correct:
  assumes "table_inv s" "length (memq (obj s q)) \<le> n"
  shows "table_inv (free_pages n q s) \<and> page_frame s (free_pages n q s) \<and> memq (obj (free_pages n q s) q) = [] \<and>
    (\<forall>k. fst k \<noteq> q \<longrightarrow> page_at (free_pages n q s) k = page_at s k)"
  using assms
proof (induction n arbitrary: s)
  case (Suc n)
  show ?case
  proof (cases "memq (obj s q)")
    case (Cons p ps)
    have p: "tabled (page s p)" "pg_object (page s p) = q" using table_invD(2) [OF Suc.prems(1), of q] Cons by auto
    have "length (memq (obj (vm_page_free p s) q)) \<le> n" using free_memq [OF p(1), of q] p Cons Suc.prems(2) by simp
    from Suc.IH [OF free_page_at(1) [OF Suc.prems(1) p(1)] this] free_page_at(2) [OF Suc.prems(1) p(1)] p
    have "table_inv (free_pages n q (vm_page_free p s)) \<and> page_frame (vm_page_free p s) (free_pages n q (vm_page_free p s)) \<and>
        memq (obj (free_pages n q (vm_page_free p s)) q) = [] \<and>
        (\<forall>k. fst k \<noteq> q \<longrightarrow> page_at (free_pages n q (vm_page_free p s)) k = page_at s k)" by auto
    moreover from this have "page_frame s (free_pages n q (vm_page_free p s))"
      using page_frame_trans [OF frame_free [of s p]] by blast
    ultimately show ?thesis using Cons by simp
  qed (use Suc in \<open>simp add: page_frame_refl\<close>)
qed (simp add: page_frame_refl)


text \<open>
  What terminating an object does: every page is freed, the pager is told, the structure goes
  back to the zone, and no other object is touched except that its shadow forgets it as a copy.
\<close>

definition terminated :: "ptr \<Rightarrow> 'a vm_objs_scheme \<Rightarrow> 'a vm_objs_scheme \<Rightarrow> bool" where
  "terminated q s t \<longleftrightarrow>
     table_inv t \<and> memq (obj t q) = [] \<and> (\<forall>k. page_at t k = (if fst k = q then None else page_at s k)) \<and>
     vm_object_list t = remove1 q (vm_object_list s) \<and> object_zone t = q # object_zone s \<and>
     pager_log t = pager_log s @ (if pager (obj s q) \<noteq> 0 then [pager (obj s q)] else []) \<and>
     (\<forall>x. o_refs (obj t x) = o_refs (obj s x) \<and> shadow (obj t x) = shadow (obj s x) \<and>
          can_persist (obj t x) = can_persist (obj s x) \<and> paging_in_progress (obj t x) = paging_in_progress (obj s x)) \<and>
     (\<forall>x. copy_obj (obj t x) = (if x = shadow (obj s q) \<and> x \<noteq> 0 \<and> copy_obj (obj s x) = q then 0 else copy_obj (obj s x)))"

lemma terminate_correct:
  assumes inv: "table_inv s" and idle: "paging_in_progress (obj s q) = 0"
    and cp: "shadow (obj s q) \<noteq> 0 \<Longrightarrow> copy_obj (obj s (shadow (obj s q))) \<in> {0, q}"
  shows "\<exists>t. vm_object_terminate q s = Inr (Some t) \<and> terminated q s t"
proof -
  let ?sh = "shadow (obj s q)"
  define u where "u = (if ?sh \<noteq> 0 \<and> copy_obj (obj s ?sh) = q then upd_obj ?sh (\<lambda>ob. ob\<lparr>copy_obj := 0\<rparr>) s else s)"
  have su: "table_same s u" by (simp add: u_def table_same_def)
  have iu: "table_inv u" "page_at u = page_at s" using table_same_inv [OF su] table_same_page_at [OF su] inv by auto
  have ou: "o_refs (obj u x) = o_refs (obj s x) \<and> shadow (obj u x) = shadow (obj s x) \<and> pager (obj u x) = pager (obj s x) \<and>
      can_persist (obj u x) = can_persist (obj s x) \<and> paging_in_progress (obj u x) = paging_in_progress (obj s x) \<and>
      copy_obj (obj u x) = (if x = ?sh \<and> x \<noteq> 0 \<and> copy_obj (obj s x) = q then 0 else copy_obj (obj s x))" for x
    by (auto simp: u_def)
  have mu: "vm_object_list u = vm_object_list s" "object_zone u = object_zone s" "pager_log u = pager_log s"
    by (simp_all add: u_def upd_obj_def)
  have "p \<in> set (memq (obj u q)) \<Longrightarrow> tabled (page u p) \<and> pg_object (page u p) = q" for p
    using table_invD(2) [OF iu(1), of q] by simp
  note W = terminate_walk_correct [OF iu(1) this table_invD(1) [OF iu(1)], of q]
  define v where "v = terminate_walk (memq (obj u q)) u"
  define v' where "v' = (if pager (obj v q) \<noteq> 0 then v\<lparr>pager_log := pager_log v @ [pager (obj v q)]\<rparr> else v)"
  have sv: "table_same v v'" by (simp add: v'_def table_same_def)
  have ov: "obj v' = obj v" "vm_object_list v' = vm_object_list v" "object_zone v' = object_zone v"
    by (simp_all add: v'_def)
  have Wv: "table_inv v" "page_frame u v" "\<And>k. fst k \<noteq> q \<Longrightarrow> page_at v k = page_at u k" using W by (auto simp: v_def)
  note Fv = page_frameD [OF Wv(2)] page_frame_more [OF Wv(2)]
  have iv': "table_inv v'" "page_at v' = page_at v" using table_same_inv [OF sv] table_same_page_at [OF sv] Wv(1) by auto
  define w where "w = free_pages (length (memq (obj v' q))) q v'"
  have Ww: "table_inv w" "page_frame v' w" "memq (obj w q) = []" "\<And>k. fst k \<noteq> q \<Longrightarrow> page_at w k = page_at v' k"
    using free_pages_correct [OF iv'(1) order_refl] by (auto simp: w_def)
  note Fw = page_frameD [OF Ww(2)] page_frame_more [OF Ww(2)]
  define t where "t = w\<lparr>vm_object_list := remove1 q (vm_object_list w), vm_object_count := vm_object_count w - 1,
    object_zone := q # object_zone w\<rparr>"
  have st: "table_same w t" by (simp add: t_def table_same_def)
  have idu: "paging_in_progress (obj u q) = 0" using idle ou by simp
  moreover have "paging_in_progress (obj v q) = 0" using idu Fv(8) by simp
  note idle' = idu this [unfolded v_def]
  have pre: "(if ?sh \<noteq> 0 then if copy_obj (obj s ?sh) = q then Inr (upd_obj ?sh (\<lambda>ob. ob\<lparr>copy_obj := 0\<rparr>) s)
      else if copy_obj (obj s ?sh) \<noteq> 0 then Inl ''vm_object_terminate: copy/shadow inconsistency'' else Inr s
      else Inr s) = Inr u"
    using cp by (cases "?sh = 0") (auto simp: u_def)
  have "vm_object_terminate q s = Inr (Some t)"
    unfolding vm_object_terminate_def Let_def pre kbind_simps
    using idle' by (simp add: t_def w_def v'_def v_def)
  moreover have "terminated q s t"
    unfolding terminated_def
  proof (intro conjI allI)
    show "table_inv t" using table_same_inv [OF st] Ww(1) by simp
    show "memq (obj t q) = []" using Ww(3) by (simp add: t_def)
    fix k
    have "page_at t k = page_at w k" using table_same_page_at [OF st] by simp
    moreover have "page_at w (q, a) = None" for a by (rule no_pages [OF Ww(1,3)])
    ultimately show "page_at t k = (if fst k = q then None else page_at s k)"
      using Ww(4) [of k] Wv(3) [of k] iv' iu by (cases k) auto
  next
    show "vm_object_list t = remove1 q (vm_object_list s)" "object_zone t = q # object_zone s"
      using Fw Fv ov mu by (simp_all add: t_def)
    show "pager_log t = pager_log s @ (if pager (obj s q) \<noteq> 0 then [pager (obj s q)] else [])"
      using Fw Fv ou [of q] mu by (simp add: t_def v'_def)
  next
    fix x
    show "o_refs (obj t x) = o_refs (obj s x)" "shadow (obj t x) = shadow (obj s x)"
      "can_persist (obj t x) = can_persist (obj s x)" "paging_in_progress (obj t x) = paging_in_progress (obj s x)"
      "copy_obj (obj t x) = (if x = shadow (obj s q) \<and> x \<noteq> 0 \<and> copy_obj (obj s x) = q then 0 else copy_obj (obj s x))"
      using Fw Fv ov ou [of x] by (simp_all add: t_def)
  qed
  ultimately show ?thesis by blast
qed


lemma refs_inv_cong:
  "(\<And>x. x \<in> set (vm_object_list s) \<Longrightarrow> ext' x = ext x) \<Longrightarrow> refs_inv ext' s = refs_inv ext s"
  by (simp add: refs_inv_def)

lemma refs_inv_out:
  assumes "x \<notin> set (vm_object_list s)"
  shows "refs_inv (ext(x := e)) s = refs_inv ext s"
proof (rule refs_inv_cong)
  fix y assume "y \<in> set (vm_object_list s)"
  with assms show "(ext(x := e)) y = ext y" by (cases "y = x") auto
qed

lemma refs_drop:
  assumes "refs_inv ext s" "1 \<le> ext q" "q \<in> set (vm_object_list s)"
    "vm_object_list t = vm_object_list s" "\<And>x. shadow (obj t x) = shadow (obj s x)"
    "\<And>x. o_refs (obj t x) = o_refs (obj s x) - (if x = q then 1 else 0)"
  shows "refs_inv (ext(q := ext q - 1)) t"
  using assms by (auto simp: refs_inv_def)

lemma refs_terminate:
  assumes inv: "refs_inv ext s" and e: "1 \<le> ext q" and q: "q \<in> set (vm_object_list s)" and one: "o_refs (obj s q) = 1"
    and t: "vm_object_list t = remove1 q (vm_object_list s)" "\<And>x. shadow (obj t x) = shadow (obj s x)"
      "\<And>x. x \<noteq> q \<Longrightarrow> o_refs (obj t x) = o_refs (obj s x)"
    and sq: "shadow (obj s q) = b"
  shows "refs_inv (ext(b := ext b + 1)) t"
proof -
  let ?L = "set (vm_object_list s)"
  have d: "distinct (vm_object_list s)"
    and cl: "\<And>x. x \<in> ?L \<Longrightarrow> shadow (obj s x) = 0 \<or> shadow (obj s x) \<in> ?L"
    and rc: "\<And>x. x \<in> ?L \<Longrightarrow> 0 \<le> ext x \<and> o_refs (obj s x) = ext x + int (card {y \<in> ?L. shadow (obj s y) = x})"
    using inv by (auto simp: refs_inv_def)
  have L: "set (vm_object_list t) = ?L - {q}" using d by (simp add: t(1))
  have "card {y \<in> ?L. shadow (obj s y) = q} = 0" using rc [OF q] one e by linarith
  then have unused: "\<And>y. y \<in> ?L \<Longrightarrow> shadow (obj s y) \<noteq> q" by (auto simp: card_eq_0_iff)
  have users: "int (card {y \<in> ?L. shadow (obj s y) = x}) =
      int (card {y \<in> ?L - {q}. shadow (obj s y) = x}) + (if x = b then 1 else 0)" for x
  proof (cases "x = b")
    case True
    have "{y \<in> ?L - {q}. shadow (obj s y) = x} = {y \<in> ?L. shadow (obj s y) = x} - {q}" by auto
    moreover have "q \<in> {y \<in> ?L. shadow (obj s y) = x}" using q sq True by simp
    ultimately show ?thesis using card_Suc_Diff1 [of "{y \<in> ?L. shadow (obj s y) = x}" q] True by auto
  next
    case False
    then have "{y \<in> ?L - {q}. shadow (obj s y) = x} = {y \<in> ?L. shadow (obj s y) = x}" using sq by auto
    then show ?thesis using False by simp
  qed
  show ?thesis
    unfolding refs_inv_def L t(2)
  proof (intro conjI ballI)
    show "distinct (vm_object_list t)" using d by (simp add: t(1))
  next
    fix x assume x: "x \<in> ?L - {q}"
    then show "shadow (obj s x) = 0 \<or> shadow (obj s x) \<in> ?L - {q}" using cl [of x] unused [of x] by auto
    show "0 \<le> (ext(b := ext b + 1)) x" using rc [of x] x by auto
    show "o_refs (obj t x) = (ext(b := ext b + 1)) x + int (card {y \<in> ?L - {q}. shadow (obj s y) = x})"
      using rc [of x] x users [of x] t(3) [of x] by auto
  qed
qed

text \<open>The object can be given up without waiting and without entering the cache.\<close>

definition disposable :: "'a vm_objs_scheme \<Rightarrow> ptr \<Rightarrow> bool" where
  "disposable s x \<longleftrightarrow> paging_in_progress (obj s x) = 0 \<and> \<not> can_persist (obj s x) \<and>
     (shadow (obj s x) \<noteq> 0 \<longrightarrow> copy_obj (obj s (shadow (obj s x))) \<in> {0, x})"

lemma object_remove_fields:
  "obj (vm_object_remove p s) = obj s" "vm_object_list (vm_object_remove p s) = vm_object_list s"
  "table_same s (vm_object_remove p s)"
  by (simp_all add: vm_object_remove_def Let_def table_same_def split: option.splits)

lemma deallocate_correct:
  assumes "refs_inv ext s" "table_inv s" "chain s q xs" "set xs \<subseteq> set (vm_object_list s)"
    "0 \<notin> set (vm_object_list s)" "q \<noteq> 0 \<Longrightarrow> 1 \<le> ext q" "\<And>x. x \<in> set xs \<Longrightarrow> disposable s x" "length xs < n"
  shows "\<exists>t k. vm_object_deallocate n q s = Inr (Some t) \<and> table_inv t \<and> refs_inv (ext(q := ext q - 1)) t \<and>
    vm_object_list t = filter (\<lambda>x. x \<notin> set (take k xs)) (vm_object_list s) \<and>
    (\<forall>key. page_at t key = (if fst key \<in> set (take k xs) then None else page_at s key)) \<and>
    (\<forall>y\<in>set (vm_object_list s). y \<notin> set (vm_object_list t) \<longrightarrow> (ext(q := ext q - 1)) y = 0) \<and>
    (\<forall>y. shadow (obj t y) = shadow (obj s y) \<and> paging_in_progress (obj t y) = paging_in_progress (obj s y) \<and>
       can_persist (obj t y) = can_persist (obj s y) \<and> (copy_obj (obj t y) = 0 \<or> copy_obj (obj t y) = copy_obj (obj s y)))"
  using assms
proof (induction xs arbitrary: s q ext n)
  case Nil
  then obtain n' where "n = Suc n'" by (cases n) auto
  moreover have "refs_inv (ext(0 := ext 0 - 1)) s"
    using Nil.prems(1) refs_inv_out [OF Nil.prems(5)] by blast
  ultimately show ?case using Nil.prems
    by (intro exI [of _ s] exI [of _ 0]) (simp add: fun_upd_def)
next
  case (Cons x ys)
  then obtain n' where n: "n = Suc n'" by (cases n) auto
  have x: "q = x" "x \<noteq> 0" "x \<in> set (vm_object_list s)" using Cons.prems by auto
  define s1 where "s1 = upd_obj x (\<lambda>ob. ob\<lparr>o_refs := o_refs ob - 1\<rparr>) s"
  have same1: "table_same s s1" by (simp add: table_same_def s1_def)
  have l1: "vm_object_list s1 = vm_object_list s" by (simp add: upd_obj_def s1_def)
  have o1: "shadow (obj s1 y) = shadow (obj s y)" "o_refs (obj s1 y) = o_refs (obj s y) - (if y = x then 1 else 0)"
    "can_persist (obj s1 y) = can_persist (obj s y)" "copy_obj (obj s1 y) = copy_obj (obj s y)"
    "paging_in_progress (obj s1 y) = paging_in_progress (obj s y)" for y by (simp_all add: s1_def)
  show ?case
  proof (cases "o_refs (obj s x) = 1")
    case False
    then have "vm_object_deallocate n q s = Inr (Some s1)" using n x by (simp add: s1_def)
    moreover have "refs_inv (ext(x := ext x - 1)) s1"
      using refs_drop [OF Cons.prems(1) _ x(3) l1 o1(1,2)] Cons.prems(6) x by simp
    moreover have "table_inv s1" "page_at s1 = page_at s"
      using table_same_inv [OF same1] table_same_page_at [OF same1] Cons.prems(2) by auto
    ultimately show ?thesis using x l1 o1 by (intro exI [of _ s1] exI [of _ 0]) (simp add: fun_upd_def)
  next
    case True
    define s2 where "s2 = vm_object_remove (pager (obj s1 x)) s1"
    note S2 = object_remove_fields [where p = "pager (obj s1 x)" and s = s1, folded s2_def]
    have same: "table_same s s2" using table_same_trans [OF same1 S2(3)] .
    have i2: "table_inv s2" "page_at s2 = page_at s"
      using table_same_inv [OF same] table_same_page_at [OF same] Cons.prems(2) by auto
    have dx: "disposable s x" using Cons.prems(7) by simp
    obtain t where t: "vm_object_terminate x s2 = Inr (Some t)" "terminated x s2 t"
      using terminate_correct [OF i2(1), of x] dx o1 by (auto simp: disposable_def S2)
    let ?b = "shadow (obj s x)"
    have T: "table_inv t" "\<And>k. page_at t k = (if fst k = x then None else page_at s k)"
      "vm_object_list t = remove1 x (vm_object_list s)" "\<And>y. shadow (obj t y) = shadow (obj s y)"
      "\<And>y. y \<noteq> x \<Longrightarrow> o_refs (obj t y) = o_refs (obj s y)"
      "\<And>y. paging_in_progress (obj t y) = paging_in_progress (obj s y) \<and> can_persist (obj t y) = can_persist (obj s y) \<and>
         (copy_obj (obj t y) = 0 \<or> copy_obj (obj t y) = copy_obj (obj s y))"
      using t(2) i2(2) o1 by (auto simp: terminated_def S2 l1)
    have dist: "distinct (vm_object_list s)" using Cons.prems(1) by (simp add: refs_inv_def)
    have r: "refs_inv (ext(?b := ext ?b + 1)) t"
      using refs_terminate [OF Cons.prems(1) _ x(3) True T(3-5) refl] Cons.prems(6) x by simp
    have nx: "x \<notin> set ys" using chain_distinct [OF Cons.prems(3)] by simp
    have ch: "chain t ?b ys" using Cons.prems(3) chain_cong [of ys t s] T(4) by simp
    have sub: "set ys \<subseteq> set (vm_object_list t)" using Cons.prems(4) nx dist T(3) by auto
    have z: "0 \<notin> set (vm_object_list t)" using Cons.prems(5) T(3) notin_set_remove1 by metis
    have e1: "1 \<le> (ext(?b := ext ?b + 1)) ?b" if "?b \<noteq> 0"
    proof -
      have "?b \<in> set (vm_object_list s)" using Cons.prems(4) ch that by (cases ys) auto
      then show ?thesis using Cons.prems(1) by (simp add: refs_inv_def)
    qed
    have disp: "disposable t y" if "y \<in> set ys" for y
      using Cons.prems(7) [of y] that T(4) T(6) [of y] T(6) [of "shadow (obj s y)"] by (auto simp: disposable_def)
    have len: "length ys < n'" using Cons.prems(8) n by simp
    from Cons.IH [OF r T(1) ch sub z e1 disp len] obtain u k where u: "vm_object_deallocate n' ?b t = Inr (Some u)" "table_inv u"
        "refs_inv ((ext(?b := ext ?b + 1))(?b := (ext(?b := ext ?b + 1)) ?b - 1)) u"
        "vm_object_list u = filter (\<lambda>z. z \<notin> set (take k ys)) (vm_object_list t)"
        "\<And>key. page_at u key = (if fst key \<in> set (take k ys) then None else page_at t key)"
        "\<And>y. y \<in> set (vm_object_list t) \<Longrightarrow> y \<notin> set (vm_object_list u) \<Longrightarrow>
           ((ext(?b := ext ?b + 1))(?b := (ext(?b := ext ?b + 1)) ?b - 1)) y = 0"
        "\<And>y. shadow (obj u y) = shadow (obj t y) \<and> paging_in_progress (obj u y) = paging_in_progress (obj t y) \<and>
           can_persist (obj u y) = can_persist (obj t y) \<and> (copy_obj (obj u y) = 0 \<or> copy_obj (obj u y) = copy_obj (obj t y))"
      by blast
    have "vm_object_deallocate n q s = Inr (Some u)"
      using n x True dx t(1) u(1) by (simp add: disposable_def rbind_def Let_def s2_def s1_def object_remove_fields)
    moreover have "refs_inv ext u" using u(3) by simp
    moreover have xu: "x \<notin> set (vm_object_list u)" using u(4) T(3) dist by auto
    ultimately have "vm_object_deallocate n q s = Inr (Some u)" "refs_inv (ext(x := ext x - 1)) u"
      using refs_inv_out [OF xu] by auto
    moreover have "vm_object_list u = filter (\<lambda>z. z \<notin> set (take (Suc k) (x # ys))) (vm_object_list s)"
      using u(4) T(3) dist by (simp add: distinct_remove1_removeAll removeAll_filter_not_eq) (auto intro: filter_cong)
    moreover have "page_at u key = (if fst key \<in> set (take (Suc k) (x # ys)) then None else page_at s key)" for key
      using u(5) [of key] T(2) [of key] by auto
    moreover have "(ext(x := ext x - 1)) y = 0" if "y \<in> set (vm_object_list s)" "y \<notin> set (vm_object_list u)" for y
    proof (cases "y = x")
      case True
      then show ?thesis using Cons.prems(1,6) x \<open>o_refs (obj s x) = 1\<close> by (auto simp: refs_inv_def)
    next
      case False
      then have "y \<in> set (vm_object_list t)" using that(1) T(3) by simp
      then show ?thesis using u(6) [OF _ that(2)] False by (simp split: if_splits)
    qed
    moreover have "shadow (obj u y) = shadow (obj s y) \<and> paging_in_progress (obj u y) = paging_in_progress (obj s y) \<and>
       can_persist (obj u y) = can_persist (obj s y) \<and> (copy_obj (obj u y) = 0 \<or> copy_obj (obj u y) = copy_obj (obj s y))" for y
      using u(7) [of y] T(4,6) [of y] by auto
    ultimately show ?thesis using u(2) unfolding x(1) by blast
  qed
qed




subsection \<open>The object cache\<close>

text \<open>Every object is in the bucket of its pager, and a pager belongs to one object.\<close>

definition cache_inv :: "'a vm_objs_scheme \<Rightarrow> bool" where
  "cache_inv s \<longleftrightarrow>
     (\<forall>b. distinct (hashtable s b) \<and>
        (\<forall>x\<in>set (hashtable s b). x \<noteq> 0 \<and> pager (obj s x) \<noteq> 0 \<and> vm_object_hash (pager (obj s x)) = b)) \<and>
     (\<forall>b x y. x \<in> set (hashtable s b) \<and> y \<in> set (hashtable s b) \<and> pager (obj s x) = pager (obj s y) \<longrightarrow> x = y)"

definition cached_for :: "'a vm_objs_scheme \<Rightarrow> ptr \<Rightarrow> ptr option" where
  "cached_for s p = hash_search s p (hashtable s (vm_object_hash p))"

lemma hash_search_iff:
  assumes "\<And>x y. x \<in> set xs \<Longrightarrow> y \<in> set xs \<Longrightarrow> pager (obj s x) = pager (obj s y) \<Longrightarrow> x = y"
  shows "hash_search s p xs = Some q \<longleftrightarrow> q \<in> set xs \<and> pager (obj s q) = p"
  using assms
proof (induction xs)
  case (Cons x xs)
  then have "hash_search s p xs = Some q \<longleftrightarrow> q \<in> set xs \<and> pager (obj s q) = p" by simp
  then show ?case using Cons.prems [of x q] by auto
qed simp

lemma hash_search_cong:
  "(\<And>x. x \<in> set xs \<Longrightarrow> pager (obj t x) = pager (obj s x)) \<Longrightarrow> hash_search t p xs = hash_search s p xs"
  by (induction xs) auto

lemma hash_search_append:
  "hash_search s p (xs @ ys) = (case hash_search s p xs of Some q \<Rightarrow> Some q | None \<Rightarrow> hash_search s p ys)"
  by (induction xs) auto

text \<open>C39:
  The object cache finds objects by their pager.  An object entered for its pager is found by a
  later \<^verbatim>\<open>vm_object_lookup\<close>, which gives a new reference and takes the object off the list of
  unreferenced cached objects; a lookup of any other pager, and of the same one after
  \<^verbatim>\<open>vm_object_remove\<close>, is not affected or fails.
\<close>

theorem vm_object_cache_lookup:
  assumes inv: "cache_inv s" and q: "q \<noteq> 0" "pager (obj s q) = p" "p \<noteq> 0" and new: "cached_for s p = None"
  shows "cached_for (vm_object_enter q p s) = (cached_for s)(p \<mapsto> q) \<and> can_persist (obj (vm_object_enter q p s) q) \<and>
    cache_inv (vm_object_enter q p s) \<and>
    (let (r, t) = vm_object_lookup p (vm_object_enter q p s) in
       r = q \<and> o_refs (obj t q) = o_refs (obj s q) + 1 \<and>
       cached_list t = (if o_refs (obj s q) = 0 then remove1 q (cached_list s) else cached_list s)) \<and>
    cached_for (vm_object_remove p (vm_object_enter q p s)) = cached_for s"
proof -
  let ?h = "vm_object_hash p" and ?t = "vm_object_enter q p s"
  have u: "\<And>x y. x \<in> set (hashtable s b) \<Longrightarrow> y \<in> set (hashtable s b) \<Longrightarrow> pager (obj s x) = pager (obj s y) \<Longrightarrow> x = y" for b
    using inv unfolding cache_inv_def by blast
  have D: "distinct (hashtable s b)" "x \<in> set (hashtable s b) \<Longrightarrow> x \<noteq> 0 \<and> pager (obj s x) \<noteq> 0 \<and> vm_object_hash (pager (obj s x)) = b" for b x
    using inv unfolding cache_inv_def by blast+
  have none: "pager (obj s x) \<noteq> p" if "x \<in> set (hashtable s ?h)" for x
    using new hash_search_iff [of "hashtable s ?h" s p x, OF u] that by (auto simp: cached_for_def)
  have qn: "q \<notin> set (hashtable s ?h)" using none [of q] q by auto
  have ob: "pager (obj ?t x) = pager (obj s x)" "o_refs (obj ?t x) = o_refs (obj s x)" for x
    using q by (simp_all add: vm_object_enter_def Let_def)
  have ht: "hashtable ?t = (hashtable s)(?h := hashtable s ?h @ [q])" "cached_list ?t = cached_list s"
    using q by (simp_all add: vm_object_enter_def Let_def upd_obj_def)
  have hs: "hash_search ?t p' xs = hash_search s p' xs" for p' xs using ob by (intro hash_search_cong) simp
  have ent: "cached_for ?t = (cached_for s)(p \<mapsto> q)"
  proof
    fix p'
    show "cached_for ?t p' = ((cached_for s)(p \<mapsto> q)) p'"
      using new q by (auto simp: cached_for_def hs ht hash_search_append split: option.splits)
  qed
  moreover have found: "hash_search ?t p (hashtable ?t ?h) = Some q"
    using fun_cong [OF ent, of p] unfolding cached_for_def by simp
  moreover have "can_persist (obj ?t q)" using q by (simp add: vm_object_enter_def Let_def)
  moreover have "cache_inv ?t"
    unfolding cache_inv_def ob
  proof (intro conjI allI ballI impI; (elim conjE)?)
    show "distinct (hashtable ?t b)" for b using D(1) qn by (simp add: ht)
    show "x \<noteq> 0" "pager (obj s x) \<noteq> 0" "vm_object_hash (pager (obj s x)) = b" if "x \<in> set (hashtable ?t b)" for b x
      using that D(2) [of x b] q by (auto simp: ht split: if_splits)
    fix b x y
    assume xy: "x \<in> set (hashtable ?t b)" "y \<in> set (hashtable ?t b)" "pager (obj s x) = pager (obj s y)"
    then have "x \<in> set (hashtable s b) \<or> b = ?h \<and> x = q" "y \<in> set (hashtable s b) \<or> b = ?h \<and> y = q"
      by (auto simp: ht split: if_splits)
    then show "x = y" using u [of x b y] xy(3) none [of x] none [of y] q(2) by metis
  qed
  moreover have "cached_for (vm_object_remove p ?t) = cached_for s"
  proof
    have "hashtable (vm_object_remove p ?t) = (hashtable ?t)(?h := remove1 q (hashtable ?t ?h))"
      by (simp add: vm_object_remove_def Let_def found)
    then have "hashtable (vm_object_remove p ?t) = hashtable s" using qn by (simp add: ht remove1_append)
    then show "cached_for (vm_object_remove p ?t) p' = cached_for s p'" for p'
      using ob by (simp add: cached_for_def object_remove_fields hash_search_cong [of _ "vm_object_remove p ?t" s])
  qed
  moreover have "vm_object_lookup p ?t =
      (q, upd_obj q (\<lambda>ob. ob\<lparr>o_refs := o_refs ob + 1\<rparr>)
        (if o_refs (obj ?t q) = 0
         then ?t\<lparr>cached_list := remove1 q (cached_list ?t), vm_object_cached := vm_object_cached ?t - 1\<rparr> else ?t))"
    by (simp add: vm_object_lookup_def found Let_def)
  ultimately show ?thesis using ob ht(2) by (simp add: upd_obj_def)
qed

theorem vm_object_cache_lookup_witness:
  "fst (vm_object_lookup 5 (vm_object_enter 20 5 demo_objs)) = 20"
proof -
  have "cache_inv demo_objs" "pager (obj demo_objs 20) = 5" "cached_for demo_objs 5 = None"
    by (simp_all add: cache_inv_def demo_objs_def cached_for_def)
  from vm_object_cache_lookup [OF this(1) _ this(2) _ this(3)] show ?thesis by (simp add: split_beta)
qed

end
