(* ===== verification/VmMap.thy ===== *)
theory VmMap
  imports VmObjLife
begin

text \<open>
  Address maps, \<^verbatim>\<open>vm/vm_map.c\<close> and \<^verbatim>\<open>vm/vm_map.h\<close>, without \<^verbatim>\<open>MACH_XP\<close> and with \<^verbatim>\<open>NeXT\<close>: the data
  structures and the operations.  A map is a doubly linked ring of entries around its header, in
  order of address.  A pointer to an entry is \<open>Ent p\<close> for an entry from one of the entry zones and
  \<open>Hdr m\<close> for the header inside map \<open>m\<close>; the fields of all entries (headers included: their
  \<^verbatim>\<open>start\<close> and \<^verbatim>\<open>end\<close> are the bounds of the map) are the store \<open>ent\<close>, the link fields the stores
  \<open>vnext\<close> and \<open>vprev\<close>.  \<^verbatim>\<open>*new_entry = *entry\<close> copies the fields in \<open>ent\<close>; the two links it would
  copy as well are overwritten by the \<^verbatim>\<open>vm_map_entry_link\<close> that always follows.

  A zone is the list of its free structures, an empty list stands for a zone that cannot grow.
  \<^verbatim>\<open>vm_map_lock\<close> counts the version of the map; each routine runs while it holds the locks it
  takes.  Calls of \<^verbatim>\<open>vm/vm_fault.c\<close> are recorded in \<open>fault_log\<close>.  A routine returns \<open>Inl\<close> for a panic
  and \<open>Inr None\<close> when a loop has not ended within its bound.
\<close>

subsection \<open>Data\<close>

type_synonym vm_prot = u32

definition VM_PROT_READ :: vm_prot where "VM_PROT_READ = 1"
definition VM_PROT_WRITE :: vm_prot where "VM_PROT_WRITE = 2"
definition VM_PROT_EXECUTE :: vm_prot where "VM_PROT_EXECUTE = 4"
definition VM_PROT_ALL :: vm_prot where "VM_PROT_ALL = VM_PROT_READ OR VM_PROT_WRITE OR VM_PROT_EXECUTE"
definition VM_PROT_DEFAULT :: vm_prot where "VM_PROT_DEFAULT = VM_PROT_READ OR VM_PROT_WRITE OR VM_PROT_EXECUTE"

type_synonym vm_inherit = u32

definition VM_INHERIT_SHARE :: vm_inherit where "VM_INHERIT_SHARE = 0"
definition VM_INHERIT_COPY :: vm_inherit where "VM_INHERIT_COPY = 1"
definition VM_INHERIT_NONE :: vm_inherit where "VM_INHERIT_NONE = 2"
definition VM_INHERIT_DEFAULT :: vm_inherit where "VM_INHERIT_DEFAULT = VM_INHERIT_COPY"

datatype eptr = Hdr ptr | Ent ptr

text \<open>\<open>vobject\<close> is the union: a VM object, or a map when \<open>is_a_map\<close> or \<open>is_sub_map\<close>.\<close>

record vm_map_entry =
  vstart :: u32
  vend :: u32
  vobject :: ptr
  voffset :: u32
  is_a_map :: bool
  is_sub_map :: bool
  copy_on_write :: bool
  needs_copy :: bool
  protection :: vm_prot
  max_protection :: vm_prot
  inheritance :: vm_inherit
  wired_count :: int

record vm_map =
  nentries :: int
  pmap :: ptr
  vsize :: u32
  is_main_map :: bool
  ref_count :: int
  hint :: eptr
  first_free :: eptr
  entries_pageable :: bool
  timestamp :: u32

datatype fault_call =
    FaultWire ptr eptr
  | FaultUnwire ptr eptr
  | FaultCopyEntry ptr ptr eptr eptr

record vm_maps = vm_objs +
  ent :: "eptr \<Rightarrow> vm_map_entry"
  vnext :: "eptr \<Rightarrow> eptr"
  vprev :: "eptr \<Rightarrow> eptr"
  vmap :: "ptr \<Rightarrow> vm_map"
  vm_map_zone :: "ptr list"
  vm_map_entry_zone :: "ptr list"
  vm_map_kentry_zone :: "ptr list"
  fault_log :: "fault_call list"
  kernel_object :: ptr

definition upd_ent :: "eptr \<Rightarrow> (vm_map_entry \<Rightarrow> vm_map_entry) \<Rightarrow> 'a vm_maps_scheme \<Rightarrow> 'a vm_maps_scheme" where
  "upd_ent e f s = s\<lparr>ent := (ent s)(e := f (ent s e))\<rparr>"

definition upd_map :: "ptr \<Rightarrow> (vm_map \<Rightarrow> vm_map) \<Rightarrow> 'a vm_maps_scheme \<Rightarrow> 'a vm_maps_scheme" where
  "upd_map m f s = s\<lparr>vmap := (vmap s)(m := f (vmap s m))\<rparr>"

definition fault_do :: "fault_call \<Rightarrow> 'a vm_maps_scheme \<Rightarrow> 'a vm_maps_scheme" where
  "fault_do c s = s\<lparr>fault_log := fault_log s @ [c]\<rparr>"

definition vm_map_min :: "ptr \<Rightarrow> 'a vm_maps_scheme \<Rightarrow> u32" where
  "vm_map_min m s = vstart (ent s (Hdr m))"

definition vm_map_max :: "ptr \<Rightarrow> 'a vm_maps_scheme \<Rightarrow> u32" where
  "vm_map_max m s = vend (ent s (Hdr m))"

definition vm_map_lock :: "ptr \<Rightarrow> 'a vm_maps_scheme \<Rightarrow> 'a vm_maps_scheme" where
  "vm_map_lock m s = upd_map m (\<lambda>v. v\<lparr>timestamp := timestamp v + 1\<rparr>) s"

text \<open>The bound of the walks over a map: its entries, the header, and one entry a clip may add.\<close>

definition walk_fuel :: "ptr \<Rightarrow> 'a vm_maps_scheme \<Rightarrow> nat" where
  "walk_fuel m s = Suc (Suc (nat (nentries (vmap s m))))"

subsection \<open>Creation, entries and references\<close>

definition vm_map_create :: "ptr \<Rightarrow> u32 \<Rightarrow> u32 \<Rightarrow> bool \<Rightarrow> 'a vm_maps_scheme \<Rightarrow> (ptr \<times> 'a vm_maps_scheme) kresult" where
  "vm_map_create pm lo hi pageable s =
    (case vm_map_zone s of
       [] \<Rightarrow> Inl ''vm_map_create: out of maps''
     | result # rest \<Rightarrow>
        (let s = s\<lparr>vm_map_zone := rest\<rparr>;
             s = s\<lparr>vnext := (vnext s)(Hdr result := Hdr result), vprev := (vprev s)(Hdr result := Hdr result)\<rparr>;
             s = upd_map result (\<lambda>v. v\<lparr>nentries := 0, vsize := 0, ref_count := 1, pmap := pm, is_main_map := True\<rparr>) s;
             s = upd_ent (Hdr result) (\<lambda>v. v\<lparr>vstart := lo, vend := hi\<rparr>) s;
             s = upd_map result (\<lambda>v. v\<lparr>entries_pageable := pageable, first_free := Hdr result, hint := Hdr result,
                                       timestamp := 0\<rparr>) s
         in Inr (result, s)))"

definition vm_map_entry_create :: "ptr \<Rightarrow> 'a vm_maps_scheme \<Rightarrow> (eptr \<times> 'a vm_maps_scheme) kresult" where
  "vm_map_entry_create m s =
    (if entries_pageable (vmap s m)
     then case vm_map_entry_zone s of
            [] \<Rightarrow> Inl ''vm_map_entry_create: out of map entries''
          | e # rest \<Rightarrow> Inr (Ent e, s\<lparr>vm_map_entry_zone := rest\<rparr>)
     else case vm_map_kentry_zone s of
            [] \<Rightarrow> Inl ''vm_map_entry_create: out of map entries''
          | e # rest \<Rightarrow> Inr (Ent e, s\<lparr>vm_map_kentry_zone := rest\<rparr>))"

definition vm_map_entry_dispose :: "ptr \<Rightarrow> eptr \<Rightarrow> 'a vm_maps_scheme \<Rightarrow> 'a vm_maps_scheme" where
  "vm_map_entry_dispose m entry s =
    (case entry of Hdr _ \<Rightarrow> s
     | Ent e \<Rightarrow>
        if entries_pageable (vmap s m)
        then s\<lparr>vm_map_entry_zone := e # vm_map_entry_zone s\<rparr>
        else s\<lparr>vm_map_kentry_zone := e # vm_map_kentry_zone s\<rparr>)"

definition vm_map_entry_link :: "ptr \<Rightarrow> eptr \<Rightarrow> eptr \<Rightarrow> 'a vm_maps_scheme \<Rightarrow> 'a vm_maps_scheme" where
  "vm_map_entry_link m after_where entry s =
    (let s = upd_map m (\<lambda>v. v\<lparr>nentries := nentries v + 1\<rparr>) s;
         s = s\<lparr>vprev := (vprev s)(entry := after_where)\<rparr>;
         s = s\<lparr>vnext := (vnext s)(entry := vnext s after_where)\<rparr>;
         s = s\<lparr>vnext := (vnext s)(vprev s entry := entry)\<rparr>;
         s = s\<lparr>vprev := (vprev s)(vnext s entry := entry)\<rparr>
     in s)"

definition vm_map_entry_unlink :: "ptr \<Rightarrow> eptr \<Rightarrow> 'a vm_maps_scheme \<Rightarrow> 'a vm_maps_scheme" where
  "vm_map_entry_unlink m entry s =
    (let s = upd_map m (\<lambda>v. v\<lparr>nentries := nentries v - 1\<rparr>) s;
         s = s\<lparr>vprev := (vprev s)(vnext s entry := vprev s entry)\<rparr>;
         s = s\<lparr>vnext := (vnext s)(vprev s entry := vnext s entry)\<rparr>
     in s)"

definition vm_map_reference :: "ptr \<Rightarrow> 'a vm_maps_scheme \<Rightarrow> 'a vm_maps_scheme" where
  "vm_map_reference m s =
    (if m = 0 then s else upd_map m (\<lambda>v. v\<lparr>ref_count := ref_count v + 1\<rparr>) s)"

subsection \<open>Lookup\<close>

definition SAVE_HINT :: "ptr \<Rightarrow> eptr \<Rightarrow> 'a vm_maps_scheme \<Rightarrow> 'a vm_maps_scheme" where
  "SAVE_HINT m e s = upd_map m (\<lambda>v. v\<lparr>hint := e\<rparr>) s"

text \<open>The linear search: whether it found the address, and where it stopped.\<close>

fun lookup_walk :: "nat \<Rightarrow> u32 \<Rightarrow> eptr \<Rightarrow> eptr \<Rightarrow> 'a vm_maps_scheme \<Rightarrow> (bool \<times> eptr) option" where
  "lookup_walk 0 address fin cur s = None"
| "lookup_walk (Suc n) address fin cur s =
    (if cur \<noteq> fin
     then if vend (ent s cur) > address
          then Some (address \<ge> vstart (ent s cur), cur)
          else lookup_walk n address fin (vnext s cur) s
     else Some (False, cur))"

definition lookup_search ::
    "ptr \<Rightarrow> u32 \<Rightarrow> eptr \<Rightarrow> eptr \<Rightarrow> 'a vm_maps_scheme \<Rightarrow> ((bool \<times> eptr) \<times> 'a vm_maps_scheme) option kresult" where
  "lookup_search m address fin cur s =
    (case lookup_walk (walk_fuel m s) address fin cur s of
       None \<Rightarrow> Inr None
     | Some (True, cur) \<Rightarrow> Inr (Some ((True, cur), SAVE_HINT m cur s))
     | Some (False, cur) \<Rightarrow> Inr (Some ((False, vprev s cur), SAVE_HINT m (vprev s cur) s)))"

definition vm_map_lookup_entry ::
    "ptr \<Rightarrow> u32 \<Rightarrow> 'a vm_maps_scheme \<Rightarrow> ((bool \<times> eptr) \<times> 'a vm_maps_scheme) option kresult" where
  "vm_map_lookup_entry m address s =
    (let cur = hint (vmap s m);
         cur = (if cur = Hdr m then vnext s cur else cur)
     in if address \<ge> vstart (ent s cur)
        then if cur \<noteq> Hdr m \<and> vend (ent s cur) > address
             then Inr (Some ((True, cur), s))
             else lookup_search m address (Hdr m) cur s
        else lookup_search m address (vnext s cur) (vnext s (Hdr m)) s)"

subsection \<open>Insertion\<close>

definition can_extend :: "ptr \<Rightarrow> eptr \<Rightarrow> u32 \<Rightarrow> 'a vm_maps_scheme \<Rightarrow> bool" where
  "can_extend m prev_entry start s \<longleftrightarrow>
     prev_entry \<noteq> Hdr m \<and> vend (ent s prev_entry) = start \<and>
     \<not> is_a_map (ent s prev_entry) \<and> \<not> is_sub_map (ent s prev_entry) \<and>
     inheritance (ent s prev_entry) = VM_INHERIT_DEFAULT \<and>
     protection (ent s prev_entry) = VM_PROT_DEFAULT \<and>
     max_protection (ent s prev_entry) = VM_PROT_DEFAULT \<and>
     wired_count (ent s prev_entry) = 0"

text \<open>The second half of \<^verbatim>\<open>vm_map_insert\<close>: a new entry after \<open>prev_entry\<close>.\<close>

definition insert_new ::
    "ptr \<Rightarrow> ptr \<Rightarrow> u32 \<Rightarrow> u32 \<Rightarrow> u32 \<Rightarrow> eptr \<Rightarrow> 'a vm_maps_scheme \<Rightarrow> (kern_return \<times> 'a vm_maps_scheme) option kresult" where
  "insert_new m object offset start fin prev_entry s =
     kbind (vm_map_entry_create m s) (\<lambda>(new_entry, s).
       let s = upd_ent new_entry (\<lambda>v. v\<lparr>vstart := start, vend := fin\<rparr>) s;
           s = upd_ent new_entry (\<lambda>v. v\<lparr>is_a_map := False, is_sub_map := False, vobject := object, voffset := offset\<rparr>) s;
           s = upd_ent new_entry (\<lambda>v. v\<lparr>copy_on_write := False, needs_copy := False\<rparr>) s;
           s = (if is_main_map (vmap s m)
                then upd_ent new_entry (\<lambda>v. v\<lparr>inheritance := VM_INHERIT_DEFAULT, protection := VM_PROT_DEFAULT,
                                               max_protection := VM_PROT_DEFAULT, wired_count := 0\<rparr>) s
                else s);
           s = vm_map_entry_link m prev_entry new_entry s;
           s = upd_map m (\<lambda>v. v\<lparr>vsize := vsize v + (vend (ent s new_entry) - vstart (ent s new_entry))\<rparr>) s;
           s = (if first_free (vmap s m) = prev_entry \<and> vend (ent s prev_entry) \<ge> vstart (ent s new_entry)
                then upd_map m (\<lambda>v. v\<lparr>first_free := new_entry\<rparr>) s else s)
       in Inr (Some (KERN_SUCCESS, s)))"

definition vm_map_insert ::
    "ptr \<Rightarrow> ptr \<Rightarrow> u32 \<Rightarrow> u32 \<Rightarrow> u32 \<Rightarrow> 'a vm_maps_scheme \<Rightarrow> (kern_return \<times> 'a vm_maps_scheme) option kresult" where
  "vm_map_insert m object offset start fin s =
    (if start < vm_map_min m s \<or> fin > vm_map_max m s \<or> start \<ge> fin
     then Inr (Some (KERN_INVALID_ADDRESS, s))
     else rbind (vm_map_lookup_entry m start s) (\<lambda>((found, prev_entry), s).
       if found then Inr (Some (KERN_NO_SPACE, s))
       else if vnext s prev_entry \<noteq> Hdr m \<and> vstart (ent s (vnext s prev_entry)) < fin
       then Inr (Some (KERN_NO_SPACE, s))
       else if object = 0 \<and> can_extend m prev_entry start s
       then rbind (vm_object_coalesce (vobject (ent s prev_entry)) 0 (voffset (ent s prev_entry)) 0
                     (vend (ent s prev_entry) - vstart (ent s prev_entry))
                     (fin - vend (ent s prev_entry)) s) (\<lambda>(ok, s).
              if ok
              then
               (let s = upd_map m (\<lambda>v. v\<lparr>vsize := vsize v + (fin - vend (ent s prev_entry))\<rparr>) s
                in Inr (Some (KERN_SUCCESS, upd_ent prev_entry (\<lambda>v. v\<lparr>vend := fin\<rparr>) s)))
              else insert_new m object offset start fin prev_entry s)
       else insert_new m object offset start fin prev_entry s))"

text \<open>The search of \<^verbatim>\<open>vm_map_find\<close>: \<open>Inl\<close> when there is no space, the place found otherwise.\<close>

fun find_walk :: "nat \<Rightarrow> ptr \<Rightarrow> u32 \<Rightarrow> eptr \<Rightarrow> u32 \<Rightarrow> 'a vm_maps_scheme \<Rightarrow> (unit + eptr \<times> u32) option" where
  "find_walk 0 m len entry start s = None"
| "find_walk (Suc n) m len entry start s =
    (let fin = start + len in
     if fin > vm_map_max m s \<or> fin < start then Some (Inl ())
     else
      (let nxt = vnext s entry in
       if nxt = Hdr m then Some (Inr (entry, start))
       else if vstart (ent s nxt) \<ge> fin then Some (Inr (entry, start))
       else find_walk n m len nxt (vend (ent s nxt)) s))"

text \<open>Where the search starts.\<close>

definition find_start ::
    "ptr \<Rightarrow> u32 \<Rightarrow> 'a vm_maps_scheme \<Rightarrow> ((eptr \<times> u32) \<times> 'a vm_maps_scheme) option kresult" where
  "find_start m start s =
    (if start = vm_map_min m s
     then
      (let entry = first_free (vmap s m)
       in Inr (Some ((entry, if entry \<noteq> Hdr m then vend (ent s entry) else start), s)))
     else rbind (vm_map_lookup_entry m start s) (\<lambda>((found, tmp_entry), s).
            Inr (Some ((tmp_entry, if found then vend (ent s tmp_entry) else start), s))))"

text \<open>The result carries \<^verbatim>\<open>*addr\<close>.\<close>

definition vm_map_find ::
    "ptr \<Rightarrow> ptr \<Rightarrow> u32 \<Rightarrow> u32 \<Rightarrow> u32 \<Rightarrow> bool \<Rightarrow> 'a vm_maps_scheme \<Rightarrow>
     (kern_return \<times> u32 \<times> 'a vm_maps_scheme) option kresult" where
  "vm_map_find m object offset addr len find_space s =
    (let start = addr; s = vm_map_lock m s in
     if find_space
     then
      (let start = (if start < vm_map_min m s then vm_map_min m s else start) in
       if start > vm_map_max m s then Inr (Some (KERN_NO_SPACE, addr, s))
       else rbind (find_start m start s) (\<lambda>((entry, start), s).
         case find_walk (walk_fuel m s) m len entry start s of
           None \<Rightarrow> Inr None
         | Some (Inl _) \<Rightarrow> Inr (Some (KERN_NO_SPACE, addr, s))
         | Some (Inr (entry, start)) \<Rightarrow>
             rbind (vm_map_insert m object offset start (start + len) (SAVE_HINT m entry s))
               (\<lambda>(result, s). Inr (Some (result, start, s)))))
     else rbind (vm_map_insert m object offset start (start + len) s)
            (\<lambda>(result, s). Inr (Some (result, addr, s))))"

subsection \<open>Clipping\<close>

text \<open>\<^verbatim>\<open>vm_map_simplify_entry\<close> has no effect in either of its branches.\<close>

definition vm_map_simplify_entry :: "ptr \<Rightarrow> eptr \<Rightarrow> 'a vm_maps_scheme \<Rightarrow> 'a vm_maps_scheme" where
  "vm_map_simplify_entry m entry s =
    (if is_sub_map (ent s entry) then s else if is_a_map (ent s entry) then s else s)"

definition entry_reference :: "eptr \<Rightarrow> eptr \<Rightarrow> 'a vm_maps_scheme \<Rightarrow> 'a vm_maps_scheme" where
  "entry_reference entry new_entry s =
    (if is_a_map (ent s entry) \<or> is_sub_map (ent s entry)
     then vm_map_reference (vobject (ent s new_entry)) s
     else vm_object_reference (vobject (ent s new_entry)) s)"

text \<open>\<^verbatim>\<open>_vm_map_clip_start\<close> and \<^verbatim>\<open>_vm_map_clip_end\<close>\<close>

definition clip_start_split :: "ptr \<Rightarrow> eptr \<Rightarrow> u32 \<Rightarrow> 'a vm_maps_scheme \<Rightarrow> 'a vm_maps_scheme kresult" where
  "clip_start_split m entry start s =
    (let s = vm_map_simplify_entry m entry s in
     kbind (vm_map_entry_create m s) (\<lambda>(new_entry, s).
       let s = upd_ent new_entry (\<lambda>_. ent s entry) s;
           s = upd_ent new_entry (\<lambda>v. v\<lparr>vend := start\<rparr>) s;
           s = upd_ent entry (\<lambda>v. v\<lparr>voffset := voffset v + (start - vstart v)\<rparr>) s;
           s = upd_ent entry (\<lambda>v. v\<lparr>vstart := start\<rparr>) s;
           s = vm_map_entry_link m (vprev s entry) new_entry s
       in Inr (entry_reference entry new_entry s)))"

definition vm_map_clip_start :: "ptr \<Rightarrow> eptr \<Rightarrow> u32 \<Rightarrow> 'a vm_maps_scheme \<Rightarrow> 'a vm_maps_scheme kresult" where
  "vm_map_clip_start m entry startaddr s =
    (if startaddr > vstart (ent s entry) then clip_start_split m entry startaddr s else Inr s)"

definition clip_end_split :: "ptr \<Rightarrow> eptr \<Rightarrow> u32 \<Rightarrow> 'a vm_maps_scheme \<Rightarrow> 'a vm_maps_scheme kresult" where
  "clip_end_split m entry fin s =
     kbind (vm_map_entry_create m s) (\<lambda>(new_entry, s).
       let s = upd_ent new_entry (\<lambda>_. ent s entry) s;
           s = upd_ent entry (\<lambda>v. v\<lparr>vend := fin\<rparr>) s;
           s = upd_ent new_entry (\<lambda>v. v\<lparr>vstart := fin\<rparr>) s;
           s = upd_ent new_entry (\<lambda>v. v\<lparr>voffset := voffset v + (fin - vstart (ent s entry))\<rparr>) s;
           s = vm_map_entry_link m entry new_entry s
       in Inr (entry_reference entry new_entry s))"

definition vm_map_clip_end :: "ptr \<Rightarrow> eptr \<Rightarrow> u32 \<Rightarrow> 'a vm_maps_scheme \<Rightarrow> 'a vm_maps_scheme kresult" where
  "vm_map_clip_end m entry endaddr s =
    (if endaddr < vend (ent s entry) then clip_end_split m entry endaddr s else Inr s)"

definition VM_MAP_RANGE_CHECK :: "ptr \<Rightarrow> u32 \<Rightarrow> u32 \<Rightarrow> 'a vm_maps_scheme \<Rightarrow> u32 \<times> u32" where
  "VM_MAP_RANGE_CHECK m start fin s =
    (let start = (if start < vm_map_min m s then vm_map_min m s else start);
         fin = (if fin > vm_map_max m s then vm_map_max m s else fin);
         start = (if start > fin then fin else start)
     in (start, fin))"

text \<open>
  The opening shared by the range operations: look the start up and clip the entry it lies in,
  or take the following one.
\<close>

definition range_first :: "ptr \<Rightarrow> u32 \<Rightarrow> 'a vm_maps_scheme \<Rightarrow> (eptr \<times> 'a vm_maps_scheme) option kresult" where
  "range_first m start s =
     rbind (vm_map_lookup_entry m start s) (\<lambda>((found, entry), s).
       if found then kbind (vm_map_clip_start m entry start s) (\<lambda>s. Inr (Some (entry, s)))
       else Inr (Some (vnext s entry, s)))"

subsection \<open>Attributes of a range\<close>

definition vm_map_submap ::
    "ptr \<Rightarrow> u32 \<Rightarrow> u32 \<Rightarrow> ptr \<Rightarrow> 'a vm_maps_scheme \<Rightarrow> (kern_return \<times> 'a vm_maps_scheme) option kresult" where
  "vm_map_submap m start fin submap s =
    (let s = vm_map_lock m s; (start, fin) = VM_MAP_RANGE_CHECK m start fin s in
     rbind (range_first m start s) (\<lambda>(entry, s).
       kbind (vm_map_clip_end m entry fin s) (\<lambda>s.
         if vstart (ent s entry) = start \<and> vend (ent s entry) = fin \<and> \<not> is_a_map (ent s entry) \<and>
            vobject (ent s entry) = 0 \<and> \<not> copy_on_write (ent s entry)
         then Inr (Some (KERN_SUCCESS,
                vm_map_reference submap
                  (upd_ent entry (\<lambda>v. v\<lparr>is_a_map := False, is_sub_map := True, vobject := submap\<rparr>) s)))
         else Inr (Some (KERN_INVALID_ARGUMENT, s)))))"

text \<open>
  \<^verbatim>\<open>vm_map_protect\<close>: the check of all entries of the range, the update of the physical map for an
  entry that refers to a sharing map, and the second pass.
\<close>

fun protect_check :: "nat \<Rightarrow> ptr \<Rightarrow> u32 \<Rightarrow> vm_prot \<Rightarrow> eptr \<Rightarrow> 'a vm_maps_scheme \<Rightarrow> kern_return option" where
  "protect_check 0 m fin new_prot current s = None"
| "protect_check (Suc n) m fin new_prot current s =
    (if current \<noteq> Hdr m \<and> vstart (ent s current) < fin
     then if is_sub_map (ent s current) then Some KERN_INVALID_ARGUMENT
          else if new_prot AND max_protection (ent s current) \<noteq> new_prot then Some KERN_PROTECTION_FAILURE
          else protect_check n m fin new_prot (vnext s current) s
     else Some KERN_SUCCESS)"

definition prot_mask :: "vm_map_entry \<Rightarrow> vm_prot" where
  "prot_mask v = (if copy_on_write v then NOT VM_PROT_WRITE else VM_PROT_ALL)"

fun share_protect_walk ::
    "nat \<Rightarrow> ptr \<Rightarrow> eptr \<Rightarrow> ptr \<Rightarrow> u32 \<Rightarrow> eptr \<Rightarrow> 'a vm_maps_scheme \<Rightarrow> 'a vm_maps_scheme option" where
  "share_protect_walk 0 m current share_map share_end share_entry s = None"
| "share_protect_walk (Suc n) m current share_map share_end share_entry s =
    (if share_entry \<noteq> Hdr share_map \<and> vstart (ent s share_entry) < share_end
     then share_protect_walk n m current share_map share_end (vnext s share_entry)
        (pmap_do (PmapProtect (pmap (vmap s m))
           (max (vstart (ent s share_entry)) (voffset (ent s current)) - voffset (ent s current) + vstart (ent s current))
           (max (vend (ent s share_entry)) share_end - voffset (ent s current) + vstart (ent s current))
           (protection (ent s current) AND prot_mask (ent s share_entry))) s)
     else Some s)"

definition protect_physical :: "ptr \<Rightarrow> eptr \<Rightarrow> eptr \<Rightarrow> 'a vm_maps_scheme \<Rightarrow> 'a vm_maps_scheme option kresult" where
  "protect_physical m entry current s =
    (if is_a_map (ent s current)
     then
      (let share_map = vobject (ent s current); s = vm_map_lock share_map s in
       rbind (vm_map_lookup_entry share_map (voffset (ent s current)) s) (\<lambda>((_, share_entry), s).
         Inr (share_protect_walk (walk_fuel share_map s) m current share_map
                (voffset (ent s current) + (vend (ent s current) - vstart (ent s current))) share_entry s)))
     else Inr (Some (pmap_do (PmapProtect (pmap (vmap s m)) (vstart (ent s current)) (vend (ent s current))
                 (protection (ent s current) AND prot_mask (ent s entry))) s)))"

fun protect_walk ::
    "nat \<Rightarrow> ptr \<Rightarrow> u32 \<Rightarrow> vm_prot \<Rightarrow> bool \<Rightarrow> eptr \<Rightarrow> eptr \<Rightarrow> 'a vm_maps_scheme \<Rightarrow> 'a vm_maps_scheme option kresult" where
  "protect_walk 0 m fin new_prot set_max entry current s = Inr None"
| "protect_walk (Suc n) m fin new_prot set_max entry current s =
    (if current \<noteq> Hdr m \<and> vstart (ent s current) < fin
     then kbind (vm_map_clip_end m current fin s) (\<lambda>s.
       let old_prot = protection (ent s current);
           s = (if set_max
                then upd_ent current (\<lambda>v. v\<lparr>max_protection := new_prot, protection := new_prot AND old_prot\<rparr>) s
                else upd_ent current (\<lambda>v. v\<lparr>protection := new_prot\<rparr>) s)
       in rbind (if protection (ent s current) \<noteq> old_prot then protect_physical m entry current s else Inr (Some s)) (\<lambda>s.
            protect_walk n m fin new_prot set_max entry (vnext s current) s))
     else Inr (Some s))"

definition vm_map_protect ::
    "ptr \<Rightarrow> u32 \<Rightarrow> u32 \<Rightarrow> vm_prot \<Rightarrow> bool \<Rightarrow> 'a vm_maps_scheme \<Rightarrow> (kern_return \<times> 'a vm_maps_scheme) option kresult" where
  "vm_map_protect m start fin new_prot set_max s =
    (let s = vm_map_lock m s; (start, fin) = VM_MAP_RANGE_CHECK m start fin s in
     rbind (range_first m start s) (\<lambda>(entry, s).
       case protect_check (walk_fuel m s) m fin new_prot entry s of
         None \<Rightarrow> Inr None
       | Some kr \<Rightarrow>
           if kr \<noteq> KERN_SUCCESS then Inr (Some (kr, s))
           else rbind (protect_walk (walk_fuel m s) m fin new_prot set_max entry entry s)
                  (\<lambda>s. Inr (Some (KERN_SUCCESS, s)))))"

fun inherit_walk :: "nat \<Rightarrow> ptr \<Rightarrow> u32 \<Rightarrow> vm_inherit \<Rightarrow> eptr \<Rightarrow> 'a vm_maps_scheme \<Rightarrow> 'a vm_maps_scheme option kresult" where
  "inherit_walk 0 m fin new_inheritance entry s = Inr None"
| "inherit_walk (Suc n) m fin new_inheritance entry s =
    (if entry \<noteq> Hdr m \<and> vstart (ent s entry) < fin
     then kbind (vm_map_clip_end m entry fin s) (\<lambda>s.
       let s = upd_ent entry (\<lambda>v. v\<lparr>inheritance := new_inheritance\<rparr>) s
       in inherit_walk n m fin new_inheritance (vnext s entry) s)
     else Inr (Some s))"

definition vm_map_inherit ::
    "ptr \<Rightarrow> u32 \<Rightarrow> u32 \<Rightarrow> vm_inherit \<Rightarrow> 'a vm_maps_scheme \<Rightarrow> (kern_return \<times> 'a vm_maps_scheme) option kresult" where
  "vm_map_inherit m start fin new_inheritance s =
    (if new_inheritance \<notin> {VM_INHERIT_NONE, VM_INHERIT_COPY, VM_INHERIT_SHARE}
     then Inr (Some (KERN_INVALID_ARGUMENT, s))
     else
      (let s = vm_map_lock m s; (start, fin) = VM_MAP_RANGE_CHECK m start fin s in
       rbind (range_first m start s) (\<lambda>(entry, s).
         rbind (inherit_walk (walk_fuel m s) m fin new_inheritance entry s)
           (\<lambda>s. Inr (Some (KERN_SUCCESS, s))))))"

text \<open>
  \<^verbatim>\<open>vm_map_pageable\<close>: for unwiring the check and the second pass, for wiring the two passes.
\<close>

fun unwire_check :: "nat \<Rightarrow> ptr \<Rightarrow> u32 \<Rightarrow> eptr \<Rightarrow> 'a vm_maps_scheme \<Rightarrow> kern_return option" where
  "unwire_check 0 m fin entry s = None"
| "unwire_check (Suc n) m fin entry s =
    (if entry \<noteq> Hdr m \<and> vstart (ent s entry) < fin
     then if wired_count (ent s entry) = 0 then Some KERN_INVALID_ARGUMENT
          else unwire_check n m fin (vnext s entry) s
     else Some KERN_SUCCESS)"

fun unwire_walk :: "nat \<Rightarrow> ptr \<Rightarrow> u32 \<Rightarrow> eptr \<Rightarrow> 'a vm_maps_scheme \<Rightarrow> 'a vm_maps_scheme option kresult" where
  "unwire_walk 0 m fin entry s = Inr None"
| "unwire_walk (Suc n) m fin entry s =
    (if entry \<noteq> Hdr m \<and> vstart (ent s entry) < fin
     then kbind (vm_map_clip_end m entry fin s) (\<lambda>s.
       let s = upd_ent entry (\<lambda>v. v\<lparr>wired_count := wired_count v - 1\<rparr>) s;
           s = (if wired_count (ent s entry) = 0 then fault_do (FaultUnwire m entry) s else s)
       in unwire_walk n m fin (vnext s entry) s)
     else Inr (Some s))"

text \<open>The shadow or the zero-fill object a newly wired entry needs.\<close>

definition wire_object :: "eptr \<Rightarrow> 'a vm_maps_scheme \<Rightarrow> 'a vm_maps_scheme kresult" where
  "wire_object entry s =
    (if needs_copy (ent s entry) \<and> protection (ent s entry) AND VM_PROT_WRITE \<noteq> 0
     then kbind (vm_object_shadow (vobject (ent s entry)) (voffset (ent s entry))
                   (vend (ent s entry) - vstart (ent s entry)) s) (\<lambda>(object, offset, s).
            Inr (upd_ent entry (\<lambda>v. v\<lparr>vobject := object, voffset := offset, needs_copy := False\<rparr>) s))
     else if vobject (ent s entry) = 0
     then kbind (vm_object_allocate (vend (ent s entry) - vstart (ent s entry)) s) (\<lambda>(object, s).
            Inr (upd_ent entry (\<lambda>v. v\<lparr>vobject := object, voffset := 0\<rparr>) s))
     else Inr s)"

fun wire_walk :: "nat \<Rightarrow> ptr \<Rightarrow> u32 \<Rightarrow> eptr \<Rightarrow> 'a vm_maps_scheme \<Rightarrow> 'a vm_maps_scheme option kresult" where
  "wire_walk 0 m fin entry s = Inr None"
| "wire_walk (Suc n) m fin entry s =
    (if entry \<noteq> Hdr m \<and> vstart (ent s entry) < fin
     then kbind (vm_map_clip_end m entry fin s) (\<lambda>s.
       let s = upd_ent entry (\<lambda>v. v\<lparr>wired_count := wired_count v + 1\<rparr>) s
       in kbind (if wired_count (ent s entry) = 1 \<and> \<not> is_a_map (ent s entry) then wire_object entry s else Inr s) (\<lambda>s.
            wire_walk n m fin (vnext s entry) s))
     else Inr (Some s))"

fun wire_fault_walk :: "nat \<Rightarrow> ptr \<Rightarrow> u32 \<Rightarrow> eptr \<Rightarrow> 'a vm_maps_scheme \<Rightarrow> 'a vm_maps_scheme option" where
  "wire_fault_walk 0 m fin entry s = None"
| "wire_fault_walk (Suc n) m fin entry s =
    (if entry \<noteq> Hdr m \<and> vstart (ent s entry) < fin
     then
      (let s = (if wired_count (ent s entry) = 1 then fault_do (FaultWire m entry) s else s)
       in wire_fault_walk n m fin (vnext s entry) s)
     else Some s)"

definition vm_map_pageable ::
    "ptr \<Rightarrow> u32 \<Rightarrow> u32 \<Rightarrow> bool \<Rightarrow> 'a vm_maps_scheme \<Rightarrow> (kern_return \<times> 'a vm_maps_scheme) option kresult" where
  "vm_map_pageable m start fin new_pageable s =
    (let s = vm_map_lock m s; (start, fin) = VM_MAP_RANGE_CHECK m start fin s in
     rbind (range_first m start s) (\<lambda>(entry, s).
       if new_pageable
       then
        (case unwire_check (walk_fuel m s) m fin entry s of
           None \<Rightarrow> Inr None
         | Some kr \<Rightarrow>
             if kr \<noteq> KERN_SUCCESS then Inr (Some (kr, s))
             else rbind (unwire_walk (walk_fuel m s) m fin entry s) (\<lambda>s. Inr (Some (KERN_SUCCESS, s))))
       else rbind (wire_walk (walk_fuel m s) m fin entry s) (\<lambda>s.
              rbind (Inr (wire_fault_walk (walk_fuel m s) m fin entry s)) (\<lambda>s.
                Inr (Some (KERN_SUCCESS, s))))))"

subsection \<open>Removal\<close>

definition vm_map_entry_unwire :: "ptr \<Rightarrow> eptr \<Rightarrow> 'a vm_maps_scheme \<Rightarrow> 'a vm_maps_scheme" where
  "vm_map_entry_unwire m entry s =
     upd_ent entry (\<lambda>v. v\<lparr>wired_count := 0\<rparr>) (fault_do (FaultUnwire m entry) s)"

text \<open>
  The part of \<^verbatim>\<open>vm_map_entry_delete\<close> before the object is deallocated; what the loop of
  \<^verbatim>\<open>vm_map_delete\<close> does with an entry before it deletes it; and the start of \<^verbatim>\<open>vm_map_delete\<close>, up
  to its loop.
\<close>

definition entry_detach :: "ptr \<Rightarrow> eptr \<Rightarrow> 'a vm_maps_scheme \<Rightarrow> 'a vm_maps_scheme" where
  "entry_detach m entry s =
    (let s = (if wired_count (ent s entry) \<noteq> 0 then vm_map_entry_unwire m entry s else s);
         s = vm_map_entry_unlink m entry s
     in upd_map m (\<lambda>v. v\<lparr>vsize := vsize v - (vend (ent s entry) - vstart (ent s entry))\<rparr>) s)"

definition delete_unmap :: "ptr \<Rightarrow> eptr \<Rightarrow> 'a vm_maps_scheme \<Rightarrow> 'a vm_maps_scheme" where
  "delete_unmap m entry s =
    (let st = vstart (ent s entry);
         e = vend (ent s entry);
         object = vobject (ent s entry);
         s = (if wired_count (ent s entry) \<noteq> 0 then vm_map_entry_unwire m entry s else s);
         s = (if object = kernel_object s
              then vm_object_page_remove object (voffset (ent s entry)) (voffset (ent s entry) + (e - st)) s else s);
         s = (if \<not> is_main_map (vmap s m)
              then vm_object_pmap_remove object (voffset (ent s entry)) (voffset (ent s entry) + (e - st)) s else s)
     in pmap_do (PmapRemove (pmap (vmap s m)) st e) s)"

definition delete_first :: "ptr \<Rightarrow> u32 \<Rightarrow> 'a vm_maps_scheme \<Rightarrow> (eptr \<times> 'a vm_maps_scheme) option kresult" where
  "delete_first m start s =
     rbind (vm_map_lookup_entry m start s) (\<lambda>((found, first_entry), s).
       rbind (if \<not> found then Inr (Some (vnext s first_entry, s))
              else kbind (vm_map_clip_start m first_entry start s) (\<lambda>s.
                     Inr (Some (first_entry, SAVE_HINT m (vprev s first_entry) s)))) (\<lambda>(entry, s).
         Inr (Some (entry,
           if vstart (ent s (first_free (vmap s m))) \<ge> start
           then upd_map m (\<lambda>v. v\<lparr>first_free := vprev s entry\<rparr>) s else s))))"

text \<open>
  Deleting an entry drops a reference to its object or to its map, and the last reference to a
  map deletes the entries of that map: the first argument bounds the depth of the calls and the
  turns of the loop.
\<close>

fun vm_map_entry_delete :: "nat \<Rightarrow> ptr \<Rightarrow> eptr \<Rightarrow> 'a vm_maps_scheme \<Rightarrow> 'a vm_maps_scheme option kresult"
  and vm_map_deallocate :: "nat \<Rightarrow> ptr \<Rightarrow> 'a vm_maps_scheme \<Rightarrow> 'a vm_maps_scheme option kresult"
  and delete_walk :: "nat \<Rightarrow> ptr \<Rightarrow> u32 \<Rightarrow> eptr \<Rightarrow> 'a vm_maps_scheme \<Rightarrow> 'a vm_maps_scheme option kresult"
  and vm_map_delete :: "nat \<Rightarrow> ptr \<Rightarrow> u32 \<Rightarrow> u32 \<Rightarrow> 'a vm_maps_scheme \<Rightarrow> (kern_return \<times> 'a vm_maps_scheme) option kresult" where
  "vm_map_entry_delete 0 m entry s = Inr None"
| "vm_map_entry_delete (Suc n) m entry s =
    rbind (if is_a_map (ent s entry) \<or> is_sub_map (ent s entry)
           then vm_map_deallocate n (vobject (ent s entry)) (entry_detach m entry s)
           else vm_object_deallocate n (vobject (ent s entry)) (entry_detach m entry s))
      (\<lambda>s. Inr (Some (vm_map_entry_dispose m entry s)))"
| "vm_map_deallocate 0 m s = Inr None"
| "vm_map_deallocate (Suc n) m s =
    (if m = 0 then Inr (Some s)
     else if ref_count (vmap s m) - 1 > 0
     then Inr (Some (upd_map m (\<lambda>v. v\<lparr>ref_count := ref_count v - 1\<rparr>) s))
     else rbind (vm_map_delete n m (vm_map_min m s) (vm_map_max m s)
                   (vm_map_lock m (upd_map m (\<lambda>v. v\<lparr>ref_count := ref_count v - 1\<rparr>) s)))
            (\<lambda>r. Inr (Some ((pmap_do (PmapDestroy (pmap (vmap (snd r) m))) (snd r))
                      \<lparr>vm_map_zone := m # vm_map_zone (snd r)\<rparr>))))"
| "delete_walk 0 m fin entry s = Inr None"
| "delete_walk (Suc n) m fin entry s =
    (if entry \<noteq> Hdr m \<and> vstart (ent s entry) < fin
     then kbind (vm_map_clip_end m entry fin s) (\<lambda>s.
       rbind (vm_map_entry_delete n m entry (delete_unmap m entry s)) (delete_walk n m fin (vnext s entry)))
     else Inr (Some s))"
| "vm_map_delete 0 m start fin s = Inr None"
| "vm_map_delete (Suc n) m start fin s =
     rbind (delete_first m start s) (\<lambda>r.
       rbind (delete_walk n m fin (fst r) (snd r)) (\<lambda>s. Inr (Some (KERN_SUCCESS, s))))"

definition vm_map_remove ::
    "nat \<Rightarrow> ptr \<Rightarrow> u32 \<Rightarrow> u32 \<Rightarrow> 'a vm_maps_scheme \<Rightarrow> (kern_return \<times> 'a vm_maps_scheme) option kresult" where
  "vm_map_remove n m start fin s =
    (let s = vm_map_lock m s; (start, fin) = VM_MAP_RANGE_CHECK m start fin s
     in vm_map_delete n m start fin s)"

subsection \<open>Protection check and region\<close>

fun check_walk :: "nat \<Rightarrow> ptr \<Rightarrow> u32 \<Rightarrow> u32 \<Rightarrow> vm_prot \<Rightarrow> eptr \<Rightarrow> 'a vm_maps_scheme \<Rightarrow> bool option" where
  "check_walk 0 m start fin prot entry s = None"
| "check_walk (Suc n) m start fin prot entry s =
    (if start < fin
     then if entry = Hdr m then Some False
          else if start < vstart (ent s entry) then Some False
          else if protection (ent s entry) AND prot \<noteq> prot then Some False
          else check_walk n m (vend (ent s entry)) fin prot (vnext s entry) s
     else Some True)"

definition vm_map_check_protection ::
    "ptr \<Rightarrow> u32 \<Rightarrow> u32 \<Rightarrow> vm_prot \<Rightarrow> 'a vm_maps_scheme \<Rightarrow> (bool \<times> 'a vm_maps_scheme) option kresult" where
  "vm_map_check_protection m start fin prot s =
     rbind (vm_map_lookup_entry m start s) (\<lambda>((found, tmp_entry), s).
       if \<not> found then Inr (Some (False, s))
       else case check_walk (walk_fuel m s) m start fin prot tmp_entry s of
              None \<Rightarrow> Inr None
            | Some b \<Rightarrow> Inr (Some (b, s)))"

text \<open>
  \<^verbatim>\<open>vm_region\<close>; the output parameters are a record, and \<open>object_name\<close> is \<^verbatim>\<open>vm_object_name\<close>.
\<close>

record region =
  r_address :: u32
  r_size :: u32
  r_protection :: vm_prot
  r_max_protection :: vm_prot
  r_inheritance :: vm_inherit
  r_is_shared :: bool
  r_object_name :: ptr
  r_offset :: u32

definition vm_region ::
    "(ptr \<Rightarrow> ptr) \<Rightarrow> ptr \<Rightarrow> u32 \<Rightarrow> 'a vm_maps_scheme \<Rightarrow> ((kern_return + region) \<times> 'a vm_maps_scheme) option kresult" where
  "vm_region object_name m address s =
    (if m = 0 then Inr (Some (Inl KERN_INVALID_ARGUMENT, s))
     else rbind (vm_map_lookup_entry m address s) (\<lambda>((found, tmp_entry), s).
       let entry = (if \<not> found then vnext s tmp_entry else tmp_entry) in
       if \<not> found \<and> entry = Hdr m then Inr (Some (Inl KERN_NO_SPACE, s))
       else
        (let start = vstart (ent s entry);
             tmp_offset = voffset (ent s entry);
             r = \<lparr>r_address = start, r_size = vend (ent s entry) - start, r_protection = protection (ent s entry),
                  r_max_protection = max_protection (ent s entry), r_inheritance = inheritance (ent s entry),
                  r_is_shared = False, r_object_name = 0, r_offset = tmp_offset\<rparr>
         in if is_a_map (ent s entry)
            then
             (let share_map = vobject (ent s entry) in
              rbind (vm_map_lookup_entry share_map tmp_offset s) (\<lambda>((_, tmp_entry), s).
                let share_size = vend (ent s tmp_entry) - tmp_offset
                in Inr (Some (Inr (r\<lparr>r_size := if share_size < r_size r then share_size else r_size r,
                                     r_object_name := object_name (vobject (ent s tmp_entry)),
                                     r_offset := voffset (ent s tmp_entry) + (tmp_offset - vstart (ent s tmp_entry)),
                                     r_is_shared := ref_count (vmap s share_map) \<noteq> 1\<rparr>), s))))
            else if is_sub_map (ent s entry)
            then Inr (Some (Inr r, s))
            else Inr (Some (Inr (r\<lparr>r_object_name := object_name (vobject (ent s entry))\<rparr>), s)))))"

end
