(* ===== verification/VmMapInv.thy ===== *)
theory VmMapInv
  imports VmMap
begin

text \<open>
  The invariant of an address map and what a map shows at an address.  \<open>map_inv s m es\<close> says that
  map \<open>m\<close> is a ring of the entries \<open>es\<close>, ordered by address, without overlap and inside the bounds
  of the map, with the right number of entries and hints that do not dangle.  \<open>mview s es a\<close> is the
  abstract content of the map at address \<open>a\<close>: the object, the offset in it and the attributes, or
  nothing where the map has a hole.  Lookup and clipping are proved here for all later theories:
  the hint never changes the answer, and clipping cannot be seen.
\<close>

subsection \<open>The invariant\<close>

definition ring :: "'a vm_maps_scheme \<Rightarrow> ptr \<Rightarrow> eptr list \<Rightarrow> bool" where
  "ring s m es \<longleftrightarrow> nseg (vnext s) (Hdr m) es (Hdr m) \<and> nseg (vprev s) (Hdr m) (rev es) (Hdr m) \<and>
     distinct es \<and> set es \<subseteq> range Ent"

fun ordered :: "(eptr \<Rightarrow> vm_map_entry) \<Rightarrow> u32 \<Rightarrow> eptr list \<Rightarrow> u32 \<Rightarrow> bool" where
  "ordered E lo [] hi \<longleftrightarrow> lo \<le> hi"
| "ordered E lo (e # es) hi \<longleftrightarrow> lo \<le> vstart (E e) \<and> vstart (E e) < vend (E e) \<and> ordered E (vend (E e)) es hi"

definition map_inv :: "'a vm_maps_scheme \<Rightarrow> ptr \<Rightarrow> eptr list \<Rightarrow> bool" where
  "map_inv s m es \<longleftrightarrow>
     ring s m es \<and> ordered (ent s) (vm_map_min m s) es (vm_map_max m s) \<and>
     nentries (vmap s m) = int (length es) \<and>
     hint (vmap s m) \<in> insert (Hdr m) (set es) \<and> first_free (vmap s m) \<in> insert (Hdr m) (set es)"

text \<open>The free entry structures are in no map.\<close>

definition entries_free :: "'a vm_maps_scheme \<Rightarrow> eptr list \<Rightarrow> bool" where
  "entries_free s es \<longleftrightarrow> distinct (vm_map_entry_zone s @ vm_map_kentry_zone s) \<and>
     (\<forall>p \<in> set (vm_map_entry_zone s @ vm_map_kentry_zone s). Ent p \<notin> set es)"

definition has_entry :: "ptr \<Rightarrow> 'a vm_maps_scheme \<Rightarrow> bool" where
  "has_entry m s \<longleftrightarrow> (if entries_pageable (vmap s m) then vm_map_entry_zone s \<noteq> [] else vm_map_kentry_zone s \<noteq> [])"

text \<open>The sizes of the entries add up to the size of the map.\<close>

definition size_ok :: "'a vm_maps_scheme \<Rightarrow> ptr \<Rightarrow> eptr list \<Rightarrow> bool" where
  "size_ok s m es \<longleftrightarrow> vsize (vmap s m) = sum_list (map (\<lambda>e. vend (ent s e) - vstart (ent s e)) es)"

subsection \<open>What a map shows\<close>

definition covers :: "vm_map_entry \<Rightarrow> u32 \<Rightarrow> bool" where
  "covers v a \<longleftrightarrow> vstart v \<le> a \<and> a < vend v"

definition view :: "vm_map_entry \<Rightarrow> u32 \<Rightarrow> vm_map_entry" where
  "view v a = v\<lparr>vstart := a, vend := a, voffset := voffset v + (a - vstart v)\<rparr>"

fun view_in :: "(eptr \<Rightarrow> vm_map_entry) \<Rightarrow> eptr list \<Rightarrow> u32 \<Rightarrow> vm_map_entry option" where
  "view_in E [] a = None"
| "view_in E (e # es) a = (if covers (E e) a then Some (view (E e) a) else view_in E es a)"

definition mview :: "'a vm_maps_scheme \<Rightarrow> eptr list \<Rightarrow> u32 \<Rightarrow> vm_map_entry option" where
  "mview s es a = view_in (ent s) es a"

lemma view_in_cong: "(\<And>e. e \<in> set es \<Longrightarrow> E e = F e) \<Longrightarrow> view_in E es a = view_in F es a"
  by (induction es) auto

lemma view_in_append: "view_in E (xs @ ys) a = (case view_in E xs a of None \<Rightarrow> view_in E ys a | Some v \<Rightarrow> Some v)"
  by (induction xs) auto

lemma view_in_None: "view_in E es a = None \<longleftrightarrow> (\<forall>e\<in>set es. \<not> covers (E e) a)"
  by (induction es) auto

lemma view_in_Some: "view_in E es a = Some v \<Longrightarrow> \<exists>e\<in>set es. covers (E e) a \<and> v = view (E e) a"
  by (induction es) (auto split: if_splits)

subsection \<open>Ordered entries\<close>

lemma ordered_bounds: "ordered E lo es hi \<Longrightarrow> lo \<le> hi \<and> (\<forall>e\<in>set es. lo \<le> vstart (E e) \<and> vstart (E e) < vend (E e) \<and> vend (E e) \<le> hi)"
proof (induction es arbitrary: lo)
  case (Cons e es)
  then have "ordered E (vend (E e)) es hi" "lo \<le> vstart (E e)" "vstart (E e) < vend (E e)" by auto
  with Cons.IH [of "vend (E e)"] show ?case by (auto intro: order.trans less_imp_le order.strict_implies_order)
qed simp

lemma ordered_append:
  "ordered E lo (xs @ ys) hi \<longleftrightarrow> (\<exists>mid. ordered E lo xs mid \<and> ordered E mid ys hi)"
proof (induction xs arbitrary: lo)
  case Nil
  show ?case
  proof
    assume "ordered E lo ([] @ ys) hi"
    then show "\<exists>mid. ordered E lo [] mid \<and> ordered E mid ys hi" by (intro exI [of _ lo]) simp
  next
    assume "\<exists>mid. ordered E lo [] mid \<and> ordered E mid ys hi"
    then show "ordered E lo ([] @ ys) hi" by (cases ys) (auto intro: order.trans)
  qed
qed auto

lemma ordered_cong: "(\<And>e. e \<in> set es \<Longrightarrow> vstart (E e) = vstart (F e) \<and> vend (E e) = vend (F e)) \<Longrightarrow>
   ordered E lo es hi = ordered F lo es hi"
  by (induction es arbitrary: lo) auto

lemma ordered_mono: "ordered E lo es hi \<Longrightarrow> lo' \<le> lo \<Longrightarrow> hi \<le> hi' \<Longrightarrow> ordered E lo' es hi'"
proof (induction es arbitrary: lo lo')
  case (Cons e es)
  then show ?case by (auto intro: order.trans)
qed auto

lemma ordered_split:
  assumes "ordered E lo (xs @ e # ys) hi"
  shows "ordered E lo xs (vstart (E e))" "vstart (E e) < vend (E e)" "ordered E (vend (E e)) ys hi"
  using assms by (auto simp: ordered_append intro: ordered_mono)

lemma ordered_join:
  "ordered E lo xs (vstart (E e)) \<Longrightarrow> vstart (E e) < vend (E e) \<Longrightarrow> ordered E (vend (E e)) ys hi \<Longrightarrow>
   ordered E lo (xs @ e # ys) hi"
  unfolding ordered_append by (intro exI [of _ "vstart (E e)"]) simp

text \<open>Everything before an entry lies below it, everything after it above.\<close>

lemma ordered_before:
  assumes "ordered E lo (xs @ e # ys) hi"
  shows "x \<in> set xs \<Longrightarrow> vend (E x) \<le> vstart (E e)" "y \<in> set ys \<Longrightarrow> vend (E e) \<le> vstart (E y)"
  using ordered_bounds [OF ordered_split(1) [OF assms]] ordered_bounds [OF ordered_split(3) [OF assms]] by auto

lemma view_in_split:
  assumes "ordered E lo (xs @ e # ys) hi"
  shows "view_in E (xs @ e # ys) a =
    (if a < vstart (E e) then view_in E xs a else if a < vend (E e) then Some (view (E e) a) else view_in E ys a)"
proof -
  have xs: "view_in E xs a = None" if "vstart (E e) \<le> a"
    using that ordered_before(1) [OF assms] by (fastforce simp: view_in_None covers_def)
  have ys: "view_in E ys a = None" if "a < vend (E e)"
    using that ordered_before(2) [OF assms] by (fastforce simp: view_in_None covers_def)
  have "a < vend (E e)" if "a < vstart (E e)" using that ordered_split(2) [OF assms] by simp
  then show ?thesis using xs ys
    by (cases "a < vstart (E e)"; cases "a < vend (E e)") (auto simp: view_in_append covers_def not_less split: option.splits)
qed

subsection \<open>The ring\<close>

lemma ring_next:
  assumes "ring s m (xs @ e # ys)"
  shows "vnext s e = hd (ys @ [Hdr m])" "vprev s e = last (Hdr m # xs)" "e \<noteq> Hdr m"
    "vnext s (last (Hdr m # xs)) = e" "vprev s (hd (ys @ [Hdr m])) = e"
proof -
  have n: "nseg (vnext s) (Hdr m) xs e" "nseg (vnext s) e ys (Hdr m)"
    and p: "nseg (vprev s) (Hdr m) (rev ys) e" "nseg (vprev s) e (rev xs) (Hdr m)"
    using assms by (simp_all add: ring_def nseg_append)
  show "vnext s e = hd (ys @ [Hdr m])" using nseg_first [OF n(2)] .
  show "vnext s (last (Hdr m # xs)) = e" using nseg_last [OF n(1)] .
  show "vprev s e = last (Hdr m # xs)" using nseg_first [OF p(2)] by (cases xs rule: rev_cases) auto
  show "vprev s (hd (ys @ [Hdr m])) = e" using nseg_last [OF p(1)] by (cases ys) auto
  show "e \<noteq> Hdr m" using assms by (auto simp: ring_def)
qed

lemma ring_ends:
  assumes "ring s m es"
  shows "vnext s (Hdr m) = hd (es @ [Hdr m])" "vprev s (Hdr m) = last (Hdr m # es)"
  using nseg_first [of "vnext s" "Hdr m" es "Hdr m"] nseg_first [of "vprev s" "Hdr m" "rev es" "Hdr m"] assms
  by (auto simp: ring_def hd_append hd_rev last_ConsR)

lemma ring_cong:
  assumes "\<And>e. e \<in> insert (Hdr m) (set es) \<Longrightarrow> vnext t e = vnext s e \<and> vprev t e = vprev s e"
  shows "ring t m es = ring s m es"
proof -
  have "nseg (vnext t) (Hdr m) es (Hdr m) = nseg (vnext s) (Hdr m) es (Hdr m)" using assms by (intro nseg_cong) auto
  moreover have "nseg (vprev t) (Hdr m) (rev es) (Hdr m) = nseg (vprev s) (Hdr m) (rev es) (Hdr m)"
    using assms by (intro nseg_cong) auto
  ultimately show ?thesis by (simp add: ring_def)
qed

lemma link_fields:
  assumes "e \<noteq> p"
  shows "vnext (vm_map_entry_link m p e s) = (vnext s)(e := vnext s p, p := e)"
    "vprev (vm_map_entry_link m p e s) = (vprev s)(e := p, vnext s p := e)"
    "ent (vm_map_entry_link m p e s) = ent s"
    "vmap (vm_map_entry_link m p e s) = (vmap s)(m := (vmap s m)\<lparr>nentries := nentries (vmap s m) + 1\<rparr>)"
  using assms by (simp_all add: vm_map_entry_link_def Let_def upd_map_def)

lemma ring_link:
  assumes "ring s m (xs @ ys)" and "e \<notin> set (xs @ ys)" and "e \<in> range Ent" and "p = last (Hdr m # xs)"
  shows "ring (vm_map_entry_link m p e s) m (xs @ e # ys)"
proof -
  have d: "distinct (Hdr m # xs @ ys)" "e \<notin> set (Hdr m # xs @ ys)" "distinct (Hdr m # rev ys @ rev xs)"
      "e \<notin> set (Hdr m # rev ys @ rev xs)"
    using assms(1-3) by (auto simp: ring_def)
  have "p \<in> set (Hdr m # xs)" unfolding assms(4) by (rule last_in_set) simp
  then have ep: "e \<noteq> p" using d(2) by auto
  have nx: "vnext s p = last (Hdr m # rev ys)"
  proof (cases ys)
    case Nil
    then show ?thesis using assms(1) nseg_last [of "vnext s" "Hdr m" xs "Hdr m"] assms(4) by (simp add: ring_def)
  next
    case (Cons y zs)
    then show ?thesis using ring_next(4) [of s m xs y zs] assms by simp
  qed
  have pv: "vprev s (vnext s p) = p"
  proof (cases ys)
    case Nil
    then show ?thesis using ring_ends(2) [OF assms(1)] nx assms(4) by simp
  next
    case (Cons y zs)
    then show ?thesis using ring_next(2) [of s m xs y zs] assms nx by simp
  qed
  have "nseg ((vnext s)(e := vnext s p, p := e)) (Hdr m) (xs @ e # ys) (Hdr m)"
    using assms(1,4) d by (intro nseg_insert) (simp_all add: ring_def)
  moreover have "nseg ((vprev s)(e := vprev s (vnext s p), vnext s p := e)) (Hdr m) (rev ys @ e # rev xs) (Hdr m)"
    using assms(1) d nx by (intro nseg_insert) (simp_all add: ring_def)
  ultimately show ?thesis
    using assms(1-3) by (simp add: ring_def link_fields [OF ep] pv)
qed

lemma unlink_fields:
  assumes "vnext s e \<noteq> e"
  shows "vnext (vm_map_entry_unlink m e s) = (vnext s)(vprev s e := vnext s e)"
    "vprev (vm_map_entry_unlink m e s) = (vprev s)(vnext s e := vprev s e)"
    "ent (vm_map_entry_unlink m e s) = ent s"
    "vmap (vm_map_entry_unlink m e s) = (vmap s)(m := (vmap s m)\<lparr>nentries := nentries (vmap s m) - 1\<rparr>)"
  using assms by (simp_all add: vm_map_entry_unlink_def Let_def upd_map_def)

lemma ring_unlink:
  assumes "ring s m (xs @ e # ys)"
  shows "ring (vm_map_entry_unlink m e s) m (xs @ ys)"
proof -
  have d: "distinct (Hdr m # xs @ e # ys)" "distinct (Hdr m # rev ys @ e # rev xs)"
    using assms by (auto simp: ring_def)
  note R = ring_next [OF assms]
  have nx: "vnext s e = last (Hdr m # rev ys)" using R(1) by (cases ys) auto
  have "vnext s e \<in> set (Hdr m # rev ys)" unfolding nx by (rule last_in_set) simp
  then have ne: "vnext s e \<noteq> e" using d(2) by auto
  have "nseg ((vnext s)(vprev s e := vnext s e)) (Hdr m) (xs @ ys) (Hdr m)"
    using assms d R(2) by (intro nseg_remove) (simp_all add: ring_def)
  moreover have "nseg ((vprev s)(vnext s e := vprev s e)) (Hdr m) (rev ys @ rev xs) (Hdr m)"
    using assms d nx by (intro nseg_remove) (simp_all add: ring_def)
  ultimately show ?thesis
    using assms by (auto simp: ring_def unlink_fields [OF ne])
qed

subsection \<open>Lookup\<close>

text \<open>The reference search: the entries in order from the first one, with no hint.\<close>

definition ents_below :: "(eptr \<Rightarrow> vm_map_entry) \<Rightarrow> u32 \<Rightarrow> eptr list \<Rightarrow> eptr list" where
  "ents_below E a es = takeWhile (\<lambda>e. vend (E e) \<le> a) es"

definition ents_above :: "(eptr \<Rightarrow> vm_map_entry) \<Rightarrow> u32 \<Rightarrow> eptr list \<Rightarrow> eptr list" where
  "ents_above E a es = dropWhile (\<lambda>e. vend (E e) \<le> a) es"

definition lookup_ref :: "(eptr \<Rightarrow> vm_map_entry) \<Rightarrow> eptr \<Rightarrow> eptr list \<Rightarrow> u32 \<Rightarrow> bool \<times> eptr" where
  "lookup_ref E h es a =
    (case ents_above E a es of
       e # _ \<Rightarrow> if vstart (E e) \<le> a then (True, e) else (False, last (h # ents_below E a es))
     | [] \<Rightarrow> (False, last (h # ents_below E a es)))"

lemma below_above: "ents_below E a es @ ents_above E a es = es"
  by (simp add: ents_below_def ents_above_def)

lemma above_skip: "(\<And>x. x \<in> set xs \<Longrightarrow> vend (E x) \<le> a) \<Longrightarrow> ents_above E a (xs @ ys) = ents_above E a ys"
  unfolding ents_above_def by (rule dropWhile_append2) auto

lemma above_stop: "y \<in> set ys \<Longrightarrow> \<not> vend (E y) \<le> a \<Longrightarrow> hd (ents_above E a (ys @ zs)) = hd (ents_above E a ys) \<and> ents_above E a ys \<noteq> []"
  unfolding ents_above_def by (induction ys) auto

lemma lookup_walk_seg:
  assumes "ring s m (xs @ ys @ zs)" and "length ys < n"
  shows "lookup_walk n a (hd (zs @ [Hdr m])) (hd (ys @ zs @ [Hdr m])) s =
    (case ents_above (ent s) a ys of [] \<Rightarrow> Some (False, hd (zs @ [Hdr m])) | e # _ \<Rightarrow> Some (vstart (ent s e) \<le> a, e))"
  using assms
proof (induction ys arbitrary: xs n)
  case Nil
  then obtain k where "n = Suc k" by (cases n) auto
  then show ?case by (simp add: ents_above_def)
next
  case (Cons y ys)
  then obtain k where n: "n = Suc k" "length ys < k" by (cases n) auto
  have "y \<noteq> hd (zs @ [Hdr m])" using Cons.prems(1) by (cases zs) (auto simp: ring_def)
  moreover have "vnext s y = hd (ys @ zs @ [Hdr m])" using ring_next(1) [of s m xs y "ys @ zs"] Cons.prems(1) by simp
  moreover have "lookup_walk k a (hd (zs @ [Hdr m])) (hd (ys @ zs @ [Hdr m])) s =
    (case ents_above (ent s) a ys of [] \<Rightarrow> Some (False, hd (zs @ [Hdr m])) | e # _ \<Rightarrow> Some (vstart (ent s e) \<le> a, e))"
    using Cons.IH [of "xs @ [y]" k] Cons.prems n(2) by simp
  ultimately show ?case using n(1) by (simp add: ents_above_def not_le) (simp add: not_less [symmetric])
qed

lemma fuel_enough: "map_inv s m es \<Longrightarrow> walk_fuel m s = Suc (Suc (length es))"
  by (simp add: map_inv_def walk_fuel_def)

text \<open>Where the search stops determines the answer.\<close>

lemma lookup_search_ref:
  assumes "map_inv s m es" and "lookup_walk (walk_fuel m s) a fin cur s = Some (b, c)"
    and "c = hd (ents_above (ent s) a es @ [Hdr m])" and "b \<longleftrightarrow> ents_above (ent s) a es \<noteq> [] \<and> vstart (ent s c) \<le> a"
  shows "\<exists>e. lookup_search m a fin cur s = Inr (Some (lookup_ref (ent s) (Hdr m) es a, SAVE_HINT m e s)) \<and>
    e \<in> insert (Hdr m) (set es) \<and> e = snd (lookup_ref (ent s) (Hdr m) es a)"
proof (cases "ents_above (ent s) a es")
  case Nil
  then have "ents_below (ent s) a es = es" using below_above [of "ent s" a es] by simp
  moreover have "vprev s (Hdr m) = last (Hdr m # es)" using assms(1) by (intro ring_ends(2)) (simp add: map_inv_def)
  moreover have "last (Hdr m # es) \<in> insert (Hdr m) (set es)" by (metis last_in_set list.distinct(1) list.simps(15))
  ultimately show ?thesis using Nil assms by (auto simp: lookup_search_def lookup_ref_def)
next
  case (Cons e zs)
  then have es: "es = ents_below (ent s) a es @ e # zs" using below_above [of "ent s" a es] by simp
  have "ring s m es" using assms(1) by (simp add: map_inv_def)
  then have p: "vprev s e = last (Hdr m # ents_below (ent s) a es)" using ring_next(2) es by metis
  have "last (Hdr m # ents_below (ent s) a es) \<in> set (Hdr m # ents_below (ent s) a es)" by (rule last_in_set) simp
  then have "last (Hdr m # ents_below (ent s) a es) \<in> insert (Hdr m) (set es)" using es by (metis UnCI insertCI insertE list.simps(15) set_append)
  moreover have "e \<in> set es" using es by (metis in_set_conv_decomp)
  ultimately show ?thesis using Cons assms p by (cases b) (auto simp: lookup_search_def lookup_ref_def)
qed

lemma lookup_entry_ref:
  assumes "map_inv s m es"
  shows "\<exists>t. vm_map_lookup_entry m a s = Inr (Some (lookup_ref (ent s) (Hdr m) es a, t)) \<and>
    (\<exists>e \<in> insert (Hdr m) (set es). t = SAVE_HINT m e s \<and>
       (fst (lookup_ref (ent s) (Hdr m) es a) \<or> e = snd (lookup_ref (ent s) (Hdr m) es a)))"
proof -
  have R: "ring s m es" and O: "ordered (ent s) (vm_map_min m s) es (vm_map_max m s)"
    and H: "hint (vmap s m) \<in> insert (Hdr m) (set es)" using assms by (auto simp: map_inv_def)
  define cur where "cur = (if hint (vmap s m) = Hdr m then vnext s (hint (vmap s m)) else hint (vmap s m))"
  have keep: "s = SAVE_HINT m (hint (vmap s m)) s" by (simp add: SAVE_HINT_def upd_map_def)
  have lk: "vm_map_lookup_entry m a s =
     (if a \<ge> vstart (ent s cur)
      then if cur \<noteq> Hdr m \<and> vend (ent s cur) > a then Inr (Some ((True, cur), s))
           else lookup_search m a (Hdr m) cur s
      else lookup_search m a (vnext s cur) (vnext s (Hdr m)) s)"
    unfolding vm_map_lookup_entry_def cur_def Let_def by (rule refl)
  show ?thesis
  proof (cases "es = []")
    case True
    then have n: "vnext s (Hdr m) = Hdr m" using ring_ends(1) [OF R] by simp
    then have "cur = Hdr m" using True H by (simp add: cur_def)
    moreover have "lookup_walk (walk_fuel m s) a (Hdr m) (Hdr m) s = Some (False, Hdr m)"
      by (simp add: fuel_enough [OF assms])
    ultimately show ?thesis using lookup_search_ref [OF assms, of a "Hdr m" "Hdr m" False] lk n True
      by (auto simp: ents_above_def)
  next
    case False
    then have "cur \<in> set es" using H ring_ends(1) [OF R] by (auto simp: cur_def hd_append)
    then obtain xs ys where es: "es = xs @ cur # ys" by (meson split_list)
    note B = ordered_before(1) [OF O [unfolded es]]
    have nh: "cur \<noteq> Hdr m" using ring_next(3) [OF R [unfolded es]] .
    consider (quick) "vstart (ent s cur) \<le> a" "a < vend (ent s cur)"
      | (right) "vstart (ent s cur) \<le> a" "vend (ent s cur) \<le> a" | (left) "a < vstart (ent s cur)"
      by (meson not_less)
    then show ?thesis
    proof cases
      case quick
      then have "ents_above (ent s) a es = cur # ys"
        unfolding es using B by (subst above_skip) (auto simp: ents_above_def intro: order.trans)
      then have "lookup_ref (ent s) (Hdr m) es a = (True, cur)" using quick by (simp add: lookup_ref_def)
      then show ?thesis using quick nh lk keep H by auto
    next
      case right
      then have ab: "ents_above (ent s) a es = ents_above (ent s) a (cur # ys)"
        unfolding es using B by (intro above_skip) force
      have "lookup_walk (walk_fuel m s) a (Hdr m) cur s =
        (case ents_above (ent s) a (cur # ys) of [] \<Rightarrow> Some (False, Hdr m) | e # _ \<Rightarrow> Some (vstart (ent s e) \<le> a, e))"
        using lookup_walk_seg [of s m xs "cur # ys" "[]" "walk_fuel m s"] R fuel_enough [OF assms] es
        by (simp del: lookup_walk.simps split: list.splits)
      then have "lookup_walk (walk_fuel m s) a (Hdr m) cur s = Some (ents_above (ent s) a es \<noteq> [] \<and>
          vstart (ent s (hd (ents_above (ent s) a es @ [Hdr m]))) \<le> a, hd (ents_above (ent s) a es @ [Hdr m]))"
        unfolding ab [symmetric] by (auto split: list.splits)
      from lookup_search_ref [OF assms this refl refl] show ?thesis using right lk nh by auto
    next
      case left
      have c: "cur \<in> set (xs @ [cur])" "\<not> vend (ent s cur) \<le> a" using left ordered_split(2) [OF O [unfolded es]] by auto
      note st = above_stop [of cur "xs @ [cur]" "ent s" a ys, OF c]
      then have hd: "hd (ents_above (ent s) a es) = hd (ents_above (ent s) a (xs @ [cur]))" "ents_above (ent s) a (xs @ [cur]) \<noteq> []"
        using es by auto
      have ne: "ents_above (ent s) a es \<noteq> []" using es c(2) by (auto simp: ents_above_def dropWhile_eq_Nil_conv)
      have "lookup_walk (walk_fuel m s) a (hd (ys @ [Hdr m])) (hd ((xs @ [cur]) @ ys @ [Hdr m])) s =
        (case ents_above (ent s) a (xs @ [cur]) of [] \<Rightarrow> Some (False, hd (ys @ [Hdr m])) | e # _ \<Rightarrow> Some (vstart (ent s e) \<le> a, e))"
        using R fuel_enough [OF assms] es by (intro lookup_walk_seg [of s m "[]"]) simp_all
      then have "lookup_walk (walk_fuel m s) a (vnext s cur) (vnext s (Hdr m)) s =
        Some (ents_above (ent s) a es \<noteq> [] \<and> vstart (ent s (hd (ents_above (ent s) a es @ [Hdr m]))) \<le> a, hd (ents_above (ent s) a es @ [Hdr m]))"
        using hd ne ring_ends(1) [OF R] ring_next(1) [OF R [unfolded es]] es
        by (cases "ents_above (ent s) a (xs @ [cur])") (simp_all add: hd_append)
      from lookup_search_ref [OF assms this refl refl] show ?thesis using left lk by (auto simp: not_le)
    qed
  qed
qed

text \<open>What the two answers of the reference search mean.\<close>

lemma lookup_ref_found:
  assumes "ordered E lo es hi" and "lookup_ref E h es a = (True, e)"
  shows "\<exists>xs ys. es = xs @ e # ys \<and> covers (E e) a"
proof (cases "ents_above E a es")
  case Nil
  then show ?thesis using assms(2) by (simp add: lookup_ref_def)
next
  case (Cons x zs)
  then have "x = e" "vstart (E e) \<le> a" using assms(2) by (auto simp: lookup_ref_def split: if_splits)
  moreover have "\<not> vend (E x) \<le> a" using Cons unfolding ents_above_def by (metis dropWhile_eq_Cons_conv)
  moreover have "es = ents_below E a es @ x # zs" using below_above [of E a es] Cons by simp
  ultimately show ?thesis unfolding covers_def by (metis not_le)
qed

lemma lookup_ref_missed:
  assumes "ordered E lo es hi" and "lookup_ref E h es a = (False, e)"
  shows "\<exists>xs ys. es = xs @ ys \<and> e = last (h # xs) \<and> (\<forall>x\<in>set xs. vend (E x) \<le> a) \<and> (\<forall>y\<in>set ys. a < vstart (E y))"
proof (cases "ents_above E a es")
  case Nil
  then have "ents_below E a es = es" using below_above [of E a es] by simp
  moreover have "\<forall>x\<in>set es. vend (E x) \<le> a" using Nil by (simp add: ents_above_def dropWhile_eq_Nil_conv)
  ultimately show ?thesis using assms(2) Nil by (intro exI [of _ es] exI [of _ "[]"]) (simp add: lookup_ref_def)
next
  case (Cons y zs)
  have es: "es = ents_below E a es @ y # zs" using below_above [of E a es] Cons by simp
  have "e = last (h # ents_below E a es)" "a < vstart (E y)"
    using assms(2) Cons by (auto simp: lookup_ref_def split: if_splits)
  moreover have "\<forall>x\<in>set (ents_below E a es). vend (E x) \<le> a" unfolding ents_below_def by (metis set_takeWhileD)
  moreover have "\<forall>z\<in>set zs. a < vstart (E z)"
    using ordered_before(2) [of E lo "ents_below E a es" y zs hi] ordered_split(2) [of E lo "ents_below E a es" y zs hi]
      assms(1) es \<open>a < vstart (E y)\<close> by (metis (no_types, opaque_lifting) leD le_less_trans linorder_not_less order.strict_trans)
  ultimately show ?thesis using es by (intro exI [of _ "ents_below E a es"] exI [of _ "y # zs"]) auto
qed

lemma save_hint_fields [simp]:
  "ent (SAVE_HINT m e s) = ent s" "vnext (SAVE_HINT m e s) = vnext s" "vprev (SAVE_HINT m e s) = vprev s"
  "vm_map_min k (SAVE_HINT m e s) = vm_map_min k s" "vm_map_max k (SAVE_HINT m e s) = vm_map_max k s"
  "vmap (SAVE_HINT m e s) k = (if k = m then (vmap s m)\<lparr>hint := e\<rparr> else vmap s k)"
  by (simp_all add: SAVE_HINT_def upd_map_def vm_map_min_def vm_map_max_def)

subsection \<open>Steps that do not touch the other maps\<close>

definition zone_entries :: "'a vm_maps_scheme \<Rightarrow> eptr set" where
  "zone_entries s = Ent ` set (vm_map_entry_zone s @ vm_map_kentry_zone s)"

definition avail :: "ptr \<Rightarrow> 'a vm_maps_scheme \<Rightarrow> nat" where
  "avail m s = (if entries_pageable (vmap s m) then length (vm_map_entry_zone s) else length (vm_map_kentry_zone s))"

definition others_kept :: "ptr \<Rightarrow> 'a vm_maps_scheme \<Rightarrow> eptr list \<Rightarrow> 'a vm_maps_scheme \<Rightarrow> eptr list \<Rightarrow> bool" where
  "others_kept m s es t es' \<longleftrightarrow>
     (\<forall>k ks. k \<noteq> m \<and> map_inv s k ks \<and> entries_free s ks \<and> set ks \<inter> set es = {} \<longrightarrow>
        map_inv t k ks \<and> entries_free t ks \<and> set ks \<inter> set es' = {} \<and> mview t ks = mview s ks)"

lemma others_kept_refl: "others_kept m s es s es"
  by (simp add: others_kept_def)

lemma others_kept_trans: "others_kept m s es t es' \<Longrightarrow> others_kept m t es' u es'' \<Longrightarrow> others_kept m s es u es''"
  unfolding others_kept_def by metis

lemma entries_free_iff: "entries_free s es \<longleftrightarrow> distinct (vm_map_entry_zone s @ vm_map_kentry_zone s) \<and> zone_entries s \<inter> set es = {}"
  unfolding entries_free_def zone_entries_def by auto

lemma map_inv_cong:
  assumes "\<And>e. e \<in> insert (Hdr k) (set ks) \<Longrightarrow> vnext t e = vnext s e \<and> vprev t e = vprev s e \<and> ent t e = ent s e"
    and "nentries (vmap t k) = nentries (vmap s k)" "hint (vmap t k) = hint (vmap s k)"
      "first_free (vmap t k) = first_free (vmap s k)"
  shows "map_inv t k ks = map_inv s k ks"
proof -
  have "ring t k ks = ring s k ks" using assms(1) by (intro ring_cong) auto
  moreover have "ordered (ent t) (vm_map_min k t) ks (vm_map_max k t) = ordered (ent s) (vm_map_min k s) ks (vm_map_max k s)"
    using assms(1) ordered_cong [of ks "ent t" "ent s"] by (simp add: vm_map_min_def vm_map_max_def)
  ultimately show ?thesis using assms(2-4) by (simp add: map_inv_def)
qed

text \<open>A step that works on the entries of one map and on entries from the zone.\<close>

lemma others_keptI:
  assumes "\<And>e. e \<notin> set es \<Longrightarrow> e \<notin> zone_entries s \<Longrightarrow> e \<noteq> Hdr m \<Longrightarrow>
      vnext t e = vnext s e \<and> vprev t e = vprev s e \<and> ent t e = ent s e"
    and "\<And>k. k \<noteq> m \<Longrightarrow> nentries (vmap t k) = nentries (vmap s k) \<and> hint (vmap t k) = hint (vmap s k) \<and>
      first_free (vmap t k) = first_free (vmap s k)"
    and "set es' \<subseteq> set es \<union> zone_entries s" and "zone_entries t \<subseteq> zone_entries s \<union> set es"
    and "distinct (vm_map_entry_zone t @ vm_map_kentry_zone t)" and "set es \<subseteq> range Ent"
  shows "others_kept m s es t es'"
  unfolding others_kept_def
proof (intro allI impI)
  fix k ks
  assume A: "k \<noteq> m \<and> map_inv s k ks \<and> entries_free s ks \<and> set ks \<inter> set es = {}"
  then have z: "zone_entries s \<inter> set ks = {}" by (simp add: entries_free_iff)
  have h: "Hdr k \<notin> zone_entries s" "Hdr m \<notin> set ks" using A by (auto simp: zone_entries_def map_inv_def ring_def)
  have same: "vnext t e = vnext s e \<and> vprev t e = vprev s e \<and> ent t e = ent s e" if "e \<in> set ks" for e
    using that A z h by (intro assms(1)) auto
  have "Hdr k \<notin> set es" using assms(6) by auto
  then have "map_inv t k ks = map_inv s k ks"
    using assms(1) [of "Hdr k"] assms(2) [of k] same h A by (intro map_inv_cong) auto
  moreover have "mview t ks = mview s ks" using same by (auto simp: mview_def fun_eq_iff intro!: view_in_cong)
  ultimately show "map_inv t k ks \<and> entries_free t ks \<and> set ks \<inter> set es' = {} \<and> mview t ks = mview s ks"
    using A z assms(3-5) by (fastforce simp: entries_free_iff)
qed

subsection \<open>Clipping\<close>

lemma entry_create_fields:
  assumes "0 < avail m s"
  obtains p t where "vm_map_entry_create m s = Inr (Ent p, t)" "Ent p \<in> zone_entries s"
    "ent t = ent s" "vnext t = vnext s" "vprev t = vprev s" "vmap t = vmap s" "avail m s = Suc (avail m t)"
    "entries_free s es \<Longrightarrow> distinct (vm_map_entry_zone t @ vm_map_kentry_zone t) \<and> zone_entries t = zone_entries s - {Ent p}"
    "object_zone t = object_zone s" "kernel_object t = kernel_object s" "vm_objs.truncate t = vm_objs.truncate s"
proof (cases "entries_pageable (vmap s m)")
  case True
  with assms obtain p zs where z: "vm_map_entry_zone s = p # zs" by (cases "vm_map_entry_zone s") (auto simp: avail_def)
  show ?thesis
    by (rule that [of p "s\<lparr>vm_map_entry_zone := zs\<rparr>"])
       (use True z in \<open>auto simp: vm_map_entry_create_def zone_entries_def avail_def entries_free_def vm_objs.truncate_def\<close>)
next
  case False
  with assms obtain p zs where z: "vm_map_kentry_zone s = p # zs" by (cases "vm_map_kentry_zone s") (auto simp: avail_def)
  show ?thesis
    by (rule that [of p "s\<lparr>vm_map_kentry_zone := zs\<rparr>"])
       (use False z in \<open>auto simp: vm_map_entry_create_def zone_entries_def avail_def entries_free_def vm_objs.truncate_def\<close>)
qed

text \<open>A step of map \<open>m\<close>, from the entries \<open>es\<close> to \<open>es'\<close>, that keeps every invariant.\<close>

definition map_step :: "ptr \<Rightarrow> 'a vm_maps_scheme \<Rightarrow> eptr list \<Rightarrow> 'a vm_maps_scheme \<Rightarrow> eptr list \<Rightarrow> bool" where
  "map_step m s es t es' \<longleftrightarrow>
     map_inv t m es' \<and> entries_free t es' \<and> others_kept m s es t es' \<and> (size_ok s m es \<longrightarrow> size_ok t m es') \<and>
     vm_map_min m t = vm_map_min m s \<and> vm_map_max m t = vm_map_max m s \<and>
     entries_pageable (vmap t m) = entries_pageable (vmap s m) \<and> is_main_map (vmap t m) = is_main_map (vmap s m) \<and>
     pmap (vmap t m) = pmap (vmap s m)"

lemma map_step_refl: "map_inv s m es \<Longrightarrow> entries_free s es \<Longrightarrow> map_step m s es s es"
  by (simp add: map_step_def others_kept_refl)

lemma map_step_trans: "map_step m s es t es' \<Longrightarrow> map_step m t es' u es'' \<Longrightarrow> map_step m s es u es''"
  unfolding map_step_def by (metis others_kept_trans)

text \<open>States whose maps differ in nothing but reference counts and versions.\<close>

definition maps_same :: "'a vm_maps_scheme \<Rightarrow> 'a vm_maps_scheme \<Rightarrow> bool" where
  "maps_same s t \<longleftrightarrow> ent t = ent s \<and> vnext t = vnext s \<and> vprev t = vprev s \<and>
     vm_map_entry_zone t = vm_map_entry_zone s \<and> vm_map_kentry_zone t = vm_map_kentry_zone s \<and>
     vm_map_zone t = vm_map_zone s \<and> kernel_object t = kernel_object s \<and>
     (\<forall>k. (vmap t k)\<lparr>ref_count := 0, timestamp := 0\<rparr> = (vmap s k)\<lparr>ref_count := 0, timestamp := 0\<rparr>)"

lemma maps_same_refl: "maps_same s s"
  by (simp add: maps_same_def)

lemma maps_same_trans: "maps_same s t \<Longrightarrow> maps_same t u \<Longrightarrow> maps_same s u"
  by (simp add: maps_same_def)

lemma maps_sameD:
  assumes "maps_same s t"
  shows "ent t = ent s" "vnext t = vnext s" "vprev t = vprev s" "zone_entries t = zone_entries s"
    "nentries (vmap t k) = nentries (vmap s k)" "hint (vmap t k) = hint (vmap s k)"
    "first_free (vmap t k) = first_free (vmap s k)" "vsize (vmap t k) = vsize (vmap s k)"
    "is_main_map (vmap t k) = is_main_map (vmap s k)" "entries_pageable (vmap t k) = entries_pageable (vmap s k)"
    "pmap (vmap t k) = pmap (vmap s k)" "avail k t = avail k s" "vm_map_min k t = vm_map_min k s" "vm_map_max k t = vm_map_max k s"
    "walk_fuel k t = walk_fuel k s"
proof -
  have "(vmap t k)\<lparr>ref_count := 0, timestamp := 0\<rparr> = (vmap s k)\<lparr>ref_count := 0, timestamp := 0\<rparr>" using assms by (simp add: maps_same_def)
  then have k: "nentries (vmap t k) = nentries (vmap s k)" "hint (vmap t k) = hint (vmap s k)"
    "first_free (vmap t k) = first_free (vmap s k)" "vsize (vmap t k) = vsize (vmap s k)"
    "is_main_map (vmap t k) = is_main_map (vmap s k)" "entries_pageable (vmap t k) = entries_pageable (vmap s k)"
    "pmap (vmap t k) = pmap (vmap s k)"
    by (cases "vmap t k"; cases "vmap s k"; simp)+
  then show "nentries (vmap t k) = nentries (vmap s k)" "hint (vmap t k) = hint (vmap s k)"
    "first_free (vmap t k) = first_free (vmap s k)" "vsize (vmap t k) = vsize (vmap s k)"
    "is_main_map (vmap t k) = is_main_map (vmap s k)" "entries_pageable (vmap t k) = entries_pageable (vmap s k)"
    "pmap (vmap t k) = pmap (vmap s k)" by simp_all
  show "ent t = ent s" "vnext t = vnext s" "vprev t = vprev s" "zone_entries t = zone_entries s"
    "avail k t = avail k s" "vm_map_min k t = vm_map_min k s" "vm_map_max k t = vm_map_max k s" "walk_fuel k t = walk_fuel k s"
    using assms k by (simp_all add: maps_same_def zone_entries_def avail_def vm_map_min_def vm_map_max_def walk_fuel_def)
qed

lemma maps_same_inv:
  assumes "maps_same s t"
  shows "map_inv t m es = map_inv s m es" "entries_free t es = entries_free s es" "mview t es = mview s es"
    "size_ok t m es = size_ok s m es"
proof -
  note D = maps_sameD [OF assms]
  show "map_inv t m es = map_inv s m es" by (rule map_inv_cong) (simp_all add: D)
  show "entries_free t es = entries_free s es" using assms by (simp add: maps_same_def entries_free_def)
  show "mview t es = mview s es" by (simp add: mview_def D fun_eq_iff)
  show "size_ok t m es = size_ok s m es" by (simp add: size_ok_def D)
qed

lemma maps_same_step: "maps_same s t \<Longrightarrow> map_inv s m es \<Longrightarrow> entries_free s es \<Longrightarrow> map_step m s es t es"
  by (simp add: map_step_def maps_same_inv others_kept_def maps_sameD)

lemma object_reference_same: "maps_same s (vm_object_reference q s)"
  by (simp add: maps_same_def vm_object_reference_def upd_obj_def)

lemma map_reference_same: "maps_same s (vm_map_reference k s)"
  by (simp add: maps_same_def vm_map_reference_def upd_map_def)

lemma map_lock_same: "maps_same s (vm_map_lock k s)"
  by (simp add: maps_same_def vm_map_lock_def upd_map_def)

lemma pmap_do_maps_same: "maps_same s (pmap_do c s)"
  by (simp add: maps_same_def pmap_do_def)

lemma fault_do_same: "maps_same s (fault_do c s)"
  by (simp add: maps_same_def fault_do_def)

lemma entry_reference_same: "maps_same s (entry_reference e n s)"
  by (simp add: entry_reference_def object_reference_same map_reference_same)

text \<open>The common part of the two splits: \<open>a\<close> and \<open>b\<close> are the old entry and the new one.\<close>

lemma split_inv:
  assumes inv: "map_inv s m (xs @ e # ys)" and free: "entries_free s (xs @ e # ys)"
    and n: "n \<in> zone_entries s" and ab: "a = e \<and> b = n \<or> a = n \<and> b = e"
    and u: "ent u = (ent s)(a := v, b := w)" "vnext u = vnext s" "vprev u = vprev s" "vmap u = vmap s"
      "distinct (vm_map_entry_zone u @ vm_map_kentry_zone u)" "zone_entries u = zone_entries s - {n}"
    and v: "vstart v = vstart (ent s e)" "vend v = x" "vstart w = x" "vend w = vend (ent s e)"
      "vstart v < x" "x < vend w" "\<And>c. view v c = view (ent s e) c" "\<And>c. view w c = view (ent s e) c"
    and t: "t = vm_map_entry_link m (last (Hdr m # (if a = e then xs @ [e] else xs))) n u"
  shows "map_step m s (xs @ e # ys) t (xs @ a # b # ys)" "mview t (xs @ a # b # ys) = mview s (xs @ e # ys)"
    "ent t = (ent s)(a := v, b := w)"
proof -
  have ring: "ring s m (xs @ e # ys)" and ord: "ordered (ent s) (vm_map_min m s) (xs @ e # ys) (vm_map_max m s)"
    using inv by (auto simp: map_inv_def)
  have nn: "n \<notin> set (xs @ e # ys)" "n \<in> range Ent" "n \<noteq> Hdr m" using n free by (auto simp: entries_free_iff zone_entries_def)
  have ru: "ring u m (xs @ e # ys)" using ring ring_cong [of m "xs @ e # ys" u s] u by auto
  have ab': "a \<noteq> b" "a \<notin> set xs" "a \<notin> set ys" "b \<notin> set xs" "b \<notin> set ys" "Hdr m \<noteq> a" "Hdr m \<noteq> b"
    using ab nn ring by (auto simp: ring_def)
  define p where "p = last (Hdr m # (if a = e then xs @ [e] else xs))"
  have "p \<in> set (Hdr m # (if a = e then xs @ [e] else xs))" unfolding p_def by (rule last_in_set) simp
  then have pin: "p \<in> insert (Hdr m) (set (xs @ e # ys))" by (auto split: if_splits)
  then have p: "p \<noteq> n" using nn by auto
  note L = link_fields [of n p m u, OF p [symmetric]]
  have tp: "t = vm_map_entry_link m p n u" unfolding t p_def by simp
  show et: "ent t = (ent s)(a := v, b := w)" unfolding tp by (simp add: L u)
  have rt: "ring t m (xs @ a # b # ys)"
  proof (cases "a = e")
    case True
    then have "b = n" using ab nn by auto
    then show ?thesis unfolding tp using ring_link [of u m "xs @ [e]" ys n p] ru nn True p_def by simp
  next
    case False
    then show ?thesis unfolding tp using ring_link [of u m xs "e # ys" n p] ru nn ab p_def by simp
  qed
  have bounds: "vm_map_min m t = vm_map_min m s" "vm_map_max m t = vm_map_max m s"
    using et ab' by (simp_all add: vm_map_min_def vm_map_max_def)
  have xs: "ordered (ent t) lo xs hi = ordered (ent s) lo xs hi" for lo hi
    using et ab' by (intro ordered_cong) auto
  have ys: "ordered (ent t) lo ys hi = ordered (ent s) lo ys hi" for lo hi
    using et ab' by (intro ordered_cong) auto
  note S = ordered_split [OF ord]
  have ord': "ordered (ent t) (vm_map_min m t) (xs @ a # b # ys) (vm_map_max m t)"
  proof (rule ordered_join)
    show "ordered (ent t) (vm_map_min m t) xs (vstart (ent t a))" using S(1) et ab' v bounds xs by simp
    show "vstart (ent t a) < vend (ent t a)" using et ab' v by simp
    show "ordered (ent t) (vend (ent t a)) (b # ys) (vm_map_max m t)" using S(3) et ab' v bounds ys by simp
  qed
  have mt: "vmap t = (vmap s)(m := (vmap s m)\<lparr>nentries := nentries (vmap s m) + 1\<rparr>)" by (simp add: tp L u)
  have inv': "map_inv t m (xs @ a # b # ys)"
    using inv rt ord' ab by (auto simp: map_inv_def mt)
  have zt: "zone_entries t = zone_entries s - {n}" "distinct (vm_map_entry_zone t @ vm_map_kentry_zone t)"
    using u(5,6) by (simp_all add: tp vm_map_entry_link_def Let_def upd_map_def zone_entries_def)
  have free': "entries_free t (xs @ a # b # ys)" using free zt ab by (auto simp: entries_free_iff)
  have size': "size_ok s m (xs @ e # ys) \<longrightarrow> size_ok t m (xs @ a # b # ys)"
  proof -
    have sums: "(\<Sum>e\<leftarrow>zs. vend (ent t e) - vstart (ent t e)) = (\<Sum>e\<leftarrow>zs. vend (ent s e) - vstart (ent s e))"
      if "a \<notin> set zs" "b \<notin> set zs" for zs using that et by (intro arg_cong [where f = sum_list] map_cong) auto
    have "ent t a = v" "ent t b = w" using et ab' by simp_all
    then show ?thesis using v by (simp add: size_ok_def mt sums ab')
  qed
  have others: "others_kept m s (xs @ e # ys) t (xs @ a # b # ys)"
  proof (rule others_keptI)
    fix f assume f: "f \<notin> set (xs @ e # ys)" "f \<notin> zone_entries s" "f \<noteq> Hdr m"
    have "vnext u p \<in> insert (Hdr m) (set (xs @ e # ys))"
    proof (cases "a = e")
      case True
      then have "p = e" by (simp add: p_def)
      then show ?thesis using ring_next(1) [OF ru] by (cases ys) auto
    next
      case False
      then have "vnext u p = e" using ring_next(4) [OF ru] by (simp add: p_def)
      then show ?thesis by simp
    qed
    then have "f \<noteq> p" "f \<noteq> vnext u p" "f \<noteq> n" using f n pin by auto
    then show "vnext t f = vnext s f \<and> vprev t f = vprev s f \<and> ent t f = ent s f"
      using f ab n by (auto simp: tp L u)
  qed (use ab n zt ring in \<open>auto simp: mt ring_def\<close>)
  show "map_step m s (xs @ e # ys) t (xs @ a # b # ys)"
    using inv' free' size' others bounds by (simp add: map_step_def mt)
  have "view_in (ent t) (xs @ a # b # ys) c = view_in (ent s) (xs @ e # ys) c" for c
  proof -
    have xs': "view_in (ent t) xs c = view_in (ent s) xs c" and ys': "view_in (ent t) ys c = view_in (ent s) ys c"
      using et ab' by (auto intro!: view_in_cong)
    have "ent t a = v" "ent t b = w" using et ab' by simp_all
    moreover have "covers v c \<longleftrightarrow> covers (ent s e) c \<and> c < x" "covers w c \<longleftrightarrow> covers (ent s e) c \<and> \<not> c < x"
      using v(1-6) by (auto simp: covers_def)
    ultimately show ?thesis
      unfolding view_in_append xs' by (simp add: ys' v(7,8) split: option.splits)
  qed
  then show "mview t (xs @ a # b # ys) = mview s (xs @ e # ys)" by (simp add: mview_def fun_eq_iff)
qed

lemma view_split:
  "view (v\<lparr>vend := x\<rparr>) c = view v c"
  "view (v\<lparr>vstart := x, voffset := voffset v + (x - vstart v)\<rparr>) c = view v c"
  "view (v\<lparr>voffset := voffset v + (x - vstart v), vstart := x\<rparr>) c = view v c"
  by (simp_all add: view_def)

lemma clip_end_correct:
  assumes inv: "map_inv s m (xs @ e # ys)" and free: "entries_free s (xs @ e # ys)" and av: "0 < avail m s"
    and "vstart (ent s e) < fin"
  shows "\<exists>t zs. vm_map_clip_end m e fin s = Inr t \<and> map_step m s (xs @ e # ys) t (xs @ e # zs @ ys) \<and>
     mview t (xs @ e # zs @ ys) = mview s (xs @ e # ys) \<and> avail m s \<le> Suc (avail m t) \<and>
     ent t e = (ent s e)\<lparr>vend := min fin (vend (ent s e))\<rparr> \<and>
     (\<forall>z\<in>set zs. fin \<le> vstart (ent t z)) \<and> (\<forall>f\<in>set (xs @ ys). ent t f = ent s f) \<and>
     (vend (ent s e) \<le> fin \<longrightarrow> zs = [] \<and> t = s) \<and> (fin < vend (ent s e) \<longrightarrow> (\<exists>z. zs = [z])) \<and> object_zone t = object_zone s \<and>
     hint (vmap t m) = hint (vmap s m) \<and> first_free (vmap t m) = first_free (vmap s m) \<and> kernel_object t = kernel_object s \<and>
     vm_objs.truncate t = vm_objs.truncate (if zs = [] \<or> is_a_map (ent s e) \<or> is_sub_map (ent s e) then s
       else vm_object_reference (vobject (ent s e)) s) \<and>
     (\<forall>z\<in>set zs. vobject (ent t z) = vobject (ent s e) \<and> is_a_map (ent t z) = is_a_map (ent s e) \<and> is_sub_map (ent t z) = is_sub_map (ent s e))"
proof (cases "fin < vend (ent s e)")
  case False
  then have "min fin (vend (ent s e)) = vend (ent s e)" by (simp add: not_less min_absorb2)
  with False show ?thesis using inv free
    by (intro exI [of _ s] exI [of _ "[]"]) (simp add: vm_map_clip_end_def map_step_refl)
next
  case True
  obtain p r where r: "vm_map_entry_create m s = Inr (Ent p, r)" "Ent p \<in> zone_entries s"
    "ent r = ent s" "vnext r = vnext s" "vprev r = vprev s" "vmap r = vmap s" "avail m s = Suc (avail m r)"
    "entries_free s (xs @ e # ys) \<Longrightarrow> distinct (vm_map_entry_zone r @ vm_map_kentry_zone r) \<and> zone_entries r = zone_entries s - {Ent p}"
    "object_zone r = object_zone s" "kernel_object r = kernel_object s" "vm_objs.truncate r = vm_objs.truncate s"
    using entry_create_fields [OF av, of "xs @ e # ys"] by blast
  let ?n = "Ent p"
  have ne: "?n \<noteq> e" using r(2) free by (auto simp: entries_free_iff)
  let ?v = "(ent s e)\<lparr>vend := fin\<rparr>"
  let ?w = "(ent s e)\<lparr>vstart := fin, voffset := voffset (ent s e) + (fin - vstart (ent s e))\<rparr>"
  define u where "u = r\<lparr>ent := (ent s)(e := ?v, ?n := ?w)\<rparr>"
  define l where "l = vm_map_entry_link m e ?n u"
  have step: "vm_map_clip_end m e fin s = Inr (entry_reference e ?n l)"
    using True ne by (simp add: vm_map_clip_end_def clip_end_split_def r(1,3) Let_def upd_ent_def l_def u_def fun_upd_twist)
  have l: "l = vm_map_entry_link m (last (Hdr m # (if e = e then xs @ [e] else xs))) ?n u" by (simp add: l_def)
  have u: "ent u = (ent s)(e := ?v, ?n := ?w)" "vnext u = vnext s" "vprev u = vprev s" "vmap u = vmap s"
      "distinct (vm_map_entry_zone u @ vm_map_kentry_zone u)" "zone_entries u = zone_entries s - {?n}"
    using r(8) [OF free] r(3-6) by (simp_all add: u_def zone_entries_def)
  have b: "vstart (ent s e) < fin" "fin < vend (ent s e)" using True assms(4) by simp_all
  have S: "map_step m s (xs @ e # ys) l (xs @ e # ?n # ys)" "mview l (xs @ e # ?n # ys) = mview s (xs @ e # ys)"
      "ent l = (ent s)(e := ?v, ?n := ?w)"
    by (rule split_inv [OF inv free r(2) _ u, where x = fin, OF _ _ _ _ _ _ _ _ _ l]; simp add: b view_split)+
  let ?t = "entry_reference e ?n l"
  have same: "maps_same l ?t" by (rule entry_reference_same)
  have "map_step m l (xs @ e # ?n # ys) ?t (xs @ e # ?n # ys)"
    using S(1) same by (intro maps_same_step) (simp_all add: map_step_def)
  then have ms: "map_step m s (xs @ e # ys) ?t (xs @ e # [?n] @ ys)" using S(1) map_step_trans by fastforce
  have mv: "mview ?t (xs @ e # [?n] @ ys) = mview s (xs @ e # ys)" using S(2) maps_same_inv(3) [OF same] by simp
  have et: "ent ?t = (ent s)(e := ?v, ?n := ?w)" using S(3) maps_sameD(1) [OF same] by simp
  have "avail m l = avail m u"
    using ring_next(3) [of u m xs e ys] ne by (simp add: l_def vm_map_entry_link_def Let_def upd_map_def avail_def)
  then have "avail m ?t = avail m r" using maps_sameD(12) [OF same] by (simp add: u_def avail_def)
  then have av': "avail m s \<le> Suc (avail m ?t)" using r(7) by simp
  have nin: "?n \<notin> set (xs @ ys)" "e \<notin> set (xs @ ys)" using free r(2) inv by (auto simp: entries_free_iff map_inv_def ring_def)
  then have "\<forall>f\<in>set (xs @ ys). ent ?t f = ent s f" using et by auto
  moreover have "ent ?t e = (ent s e)\<lparr>vend := min fin (vend (ent s e))\<rparr>" using et ne True by (simp add: min_absorb1)
  moreover have "\<forall>z\<in>set [?n]. fin \<le> vstart (ent ?t z)" using et by simp
  moreover have "object_zone ?t = object_zone s"
    using r(9) by (simp add: entry_reference_def vm_map_reference_def vm_object_reference_def upd_map_def upd_obj_def l_def
        vm_map_entry_link_def Let_def u_def)
  moreover have "hint (vmap ?t m) = hint (vmap s m)" "first_free (vmap ?t m) = first_free (vmap s m)" "kernel_object ?t = kernel_object s"
    using maps_sameD(6,7) [OF same] same r(6,10) by (simp_all add: maps_same_def l_def vm_map_entry_link_def Let_def u_def upd_map_def)
  moreover have "vm_objs.truncate ?t = vm_objs.truncate (if is_a_map (ent s e) \<or> is_sub_map (ent s e) then s
       else vm_object_reference (vobject (ent s e)) s)"
  proof -
    have "vm_objs.truncate l = vm_objs.truncate s"
      using r(11) by (simp add: l_def vm_map_entry_link_def Let_def u_def upd_map_def vm_objs.truncate_def)
    then have "vm_objs.truncate (vm_map_reference q l) = vm_objs.truncate s"
      "vm_objs.truncate (vm_object_reference q l) = vm_objs.truncate (vm_object_reference q s)" for q
      by (auto simp: vm_map_reference_def vm_object_reference_def upd_map_def upd_obj_def vm_objs.truncate_def)
    then show ?thesis using S(3) ne by (simp add: entry_reference_def)
  qed
  moreover have "\<forall>z\<in>set [?n]. vobject (ent ?t z) = vobject (ent s e) \<and> is_a_map (ent ?t z) = is_a_map (ent s e) \<and>
      is_sub_map (ent ?t z) = is_sub_map (ent s e)" using et by simp
  ultimately show ?thesis using step ms mv av' True
    by (intro exI [of _ ?t] exI [of _ "[?n]"]) simp
qed

lemma clip_start_correct:
  assumes inv: "map_inv s m (xs @ e # ys)" and free: "entries_free s (xs @ e # ys)" and av: "0 < avail m s"
    and "start < vend (ent s e)"
  shows "\<exists>t zs. vm_map_clip_start m e start s = Inr t \<and> map_step m s (xs @ e # ys) t (xs @ zs @ e # ys) \<and>
     mview t (xs @ zs @ e # ys) = mview s (xs @ e # ys) \<and> avail m s \<le> Suc (avail m t) \<and>
     vend (ent t e) = vend (ent s e) \<and> vstart (ent t e) = max start (vstart (ent s e)) \<and>
     (\<forall>z\<in>set zs. vend (ent t z) \<le> start) \<and> (\<forall>f\<in>set (xs @ ys). ent t f = ent s f) \<and>
     (start \<le> vstart (ent s e) \<longrightarrow> zs = [] \<and> t = s) \<and> length zs \<le> 1 \<and> object_zone t = object_zone s \<and>
     first_free (vmap t m) = first_free (vmap s m) \<and> kernel_object t = kernel_object s \<and>
     vm_objs.truncate t = vm_objs.truncate (if zs = [] \<or> is_a_map (ent s e) \<or> is_sub_map (ent s e) then s
       else vm_object_reference (vobject (ent s e)) s) \<and>
     (\<forall>z\<in>set (e # zs). vobject (ent t z) = vobject (ent s e) \<and> is_a_map (ent t z) = is_a_map (ent s e) \<and> is_sub_map (ent t z) = is_sub_map (ent s e))"
proof (cases "start > vstart (ent s e)")
  case False
  then have "max start (vstart (ent s e)) = vstart (ent s e)" by (simp add: not_less max_absorb2)
  with False show ?thesis using inv free
    by (intro exI [of _ s] exI [of _ "[]"]) (simp add: vm_map_clip_start_def map_step_refl)
next
  case True
  obtain p r where r: "vm_map_entry_create m s = Inr (Ent p, r)" "Ent p \<in> zone_entries s"
    "ent r = ent s" "vnext r = vnext s" "vprev r = vprev s" "vmap r = vmap s" "avail m s = Suc (avail m r)"
    "entries_free s (xs @ e # ys) \<Longrightarrow> distinct (vm_map_entry_zone r @ vm_map_kentry_zone r) \<and> zone_entries r = zone_entries s - {Ent p}"
    "object_zone r = object_zone s" "kernel_object r = kernel_object s" "vm_objs.truncate r = vm_objs.truncate s"
    using entry_create_fields [OF av, of "xs @ e # ys"] by blast
  let ?n = "Ent p"
  have ne: "?n \<noteq> e" using r(2) free by (auto simp: entries_free_iff)
  let ?v = "(ent s e)\<lparr>vend := start\<rparr>"
  let ?w = "(ent s e)\<lparr>voffset := voffset (ent s e) + (start - vstart (ent s e)), vstart := start\<rparr>"
  define u where "u = r\<lparr>ent := (ent s)(?n := ?v, e := ?w)\<rparr>"
  define l where "l = vm_map_entry_link m (vprev s e) ?n u"
  have simplify: "vm_map_simplify_entry m e s = s" by (simp add: vm_map_simplify_entry_def)
  have step: "vm_map_clip_start m e start s = Inr (entry_reference e ?n l)"
    using True ne r(5)
    by (simp add: vm_map_clip_start_def clip_start_split_def simplify r(1,3) Let_def upd_ent_def l_def u_def fun_upd_twist)
  have ring: "ring s m (xs @ e # ys)" using inv by (simp add: map_inv_def)
  have l: "l = vm_map_entry_link m (last (Hdr m # (if ?n = e then xs @ [e] else xs))) ?n u"
    using ring_next(2) [OF ring] ne by (simp add: l_def)
  have u: "ent u = (ent s)(?n := ?v, e := ?w)" "vnext u = vnext s" "vprev u = vprev s" "vmap u = vmap s"
      "distinct (vm_map_entry_zone u @ vm_map_kentry_zone u)" "zone_entries u = zone_entries s - {?n}"
    using r(8) [OF free] r(3-6) by (simp_all add: u_def zone_entries_def)
  have b: "vstart (ent s e) < start" "start < vend (ent s e)" using True assms(4) by simp_all
  have S: "map_step m s (xs @ e # ys) l (xs @ ?n # e # ys)" "mview l (xs @ ?n # e # ys) = mview s (xs @ e # ys)"
      "ent l = (ent s)(?n := ?v, e := ?w)"
    by (rule split_inv [OF inv free r(2) _ u, where x = start, OF _ _ _ _ _ _ _ _ _ l]; simp add: b view_split)+
  let ?t = "entry_reference e ?n l"
  have same: "maps_same l ?t" by (rule entry_reference_same)
  have "map_step m l (xs @ ?n # e # ys) ?t (xs @ ?n # e # ys)"
    using S(1) same by (intro maps_same_step) (simp_all add: map_step_def)
  then have ms: "map_step m s (xs @ e # ys) ?t (xs @ [?n] @ e # ys)" using S(1) map_step_trans by fastforce
  have mv: "mview ?t (xs @ [?n] @ e # ys) = mview s (xs @ e # ys)" using S(2) maps_same_inv(3) [OF same] by simp
  have et: "ent ?t = (ent s)(?n := ?v, e := ?w)" using S(3) maps_sameD(1) [OF same] by simp
  have "avail m l = avail m u"
    by (simp add: l_def vm_map_entry_link_def Let_def upd_map_def avail_def)
  then have "avail m ?t = avail m r" using maps_sameD(12) [OF same] by (simp add: u_def avail_def)
  then have av': "avail m s \<le> Suc (avail m ?t)" using r(7) by simp
  have nin: "?n \<notin> set (xs @ ys)" "e \<notin> set (xs @ ys)" using free r(2) inv by (auto simp: entries_free_iff map_inv_def ring_def)
  then have "\<forall>f\<in>set (xs @ ys). ent ?t f = ent s f" using et by auto
  moreover have "vend (ent ?t e) = vend (ent s e) \<and> vstart (ent ?t e) = max start (vstart (ent s e))"
    using et ne True by (simp add: max_absorb1)
  moreover have "\<forall>z\<in>set [?n]. vend (ent ?t z) \<le> start" using et ne by simp
  moreover have "object_zone ?t = object_zone s"
    using r(9) by (simp add: entry_reference_def vm_map_reference_def vm_object_reference_def upd_map_def upd_obj_def l_def
        vm_map_entry_link_def Let_def u_def)
  moreover have "first_free (vmap ?t m) = first_free (vmap s m)" "kernel_object ?t = kernel_object s"
    using maps_sameD(7) [OF same] same r(6,10) by (simp_all add: maps_same_def l_def vm_map_entry_link_def Let_def u_def upd_map_def)
  moreover have "vm_objs.truncate ?t = vm_objs.truncate (if is_a_map (ent s e) \<or> is_sub_map (ent s e) then s
       else vm_object_reference (vobject (ent s e)) s)"
  proof -
    have "vm_objs.truncate l = vm_objs.truncate s"
      using r(11) by (simp add: l_def vm_map_entry_link_def Let_def u_def upd_map_def vm_objs.truncate_def)
    then have "vm_objs.truncate (vm_map_reference q l) = vm_objs.truncate s"
      "vm_objs.truncate (vm_object_reference q l) = vm_objs.truncate (vm_object_reference q s)" for q
      by (auto simp: vm_map_reference_def vm_object_reference_def upd_map_def upd_obj_def vm_objs.truncate_def)
    then show ?thesis using S(3) ne by (simp add: entry_reference_def)
  qed
  moreover have "\<forall>z\<in>set [e, ?n]. vobject (ent ?t z) = vobject (ent s e) \<and> is_a_map (ent ?t z) = is_a_map (ent s e) \<and>
      is_sub_map (ent ?t z) = is_sub_map (ent s e)" using et ne by simp
  ultimately show ?thesis using step ms mv av' True
    by (intro exI [of _ ?t] exI [of _ "[?n]"]) simp
qed

subsection \<open>An example\<close>

text \<open>
  A task map with two entries and spare structures, on top of the example of the object layer.
\<close>

definition demo_entry :: "u32 \<Rightarrow> u32 \<Rightarrow> ptr \<Rightarrow> vm_map_entry" where
  "demo_entry b e q =
    \<lparr>vstart = b, vend = e, vobject = q, voffset = 0, is_a_map = False, is_sub_map = False, copy_on_write = False,
     needs_copy = False, protection = VM_PROT_DEFAULT, max_protection = VM_PROT_DEFAULT, inheritance = VM_INHERIT_DEFAULT,
     wired_count = 0\<rparr>"

definition demo_map :: vm_map where
  "demo_map = \<lparr>nentries = 2, pmap = 7, vsize = 0x5000, is_main_map = True, ref_count = 1, hint = Ent 12, first_free = Ent 11,
     entries_pageable = True, timestamp = 0\<rparr>"

definition demo_maps :: vm_maps where
  "demo_maps = vm_objs.extend (demo_objs\<lparr>object_zone := [30, 40, 50]\<rparr>)
    \<lparr>ent = (\<lambda>_. demo_entry 0 0 0)(Hdr 1 := demo_entry 0x1000 0x10000 0, Ent 11 := demo_entry 0x2000 0x4000 0,
         Ent 12 := demo_entry 0x6000 0x9000 0),
     vnext = (\<lambda>e. e)(Hdr 1 := Ent 11, Ent 11 := Ent 12, Ent 12 := Hdr 1),
     vprev = (\<lambda>e. e)(Hdr 1 := Ent 12, Ent 12 := Ent 11, Ent 11 := Hdr 1),
     vmap = (\<lambda>_. demo_map), vm_map_zone = [2, 3, 4], vm_map_entry_zone = [21, 22, 23], vm_map_kentry_zone = [31],
     fault_log = [], kernel_object = 99\<rparr>"

lemma demo_fields:
  "ent demo_maps = (\<lambda>_. demo_entry 0 0 0)(Hdr 1 := demo_entry 0x1000 0x10000 0, Ent 11 := demo_entry 0x2000 0x4000 0,
     Ent 12 := demo_entry 0x6000 0x9000 0)"
  "vnext demo_maps = (\<lambda>e. e)(Hdr 1 := Ent 11, Ent 11 := Ent 12, Ent 12 := Hdr 1)"
  "vprev demo_maps = (\<lambda>e. e)(Hdr 1 := Ent 12, Ent 12 := Ent 11, Ent 11 := Hdr 1)"
  "vmap demo_maps = (\<lambda>_. demo_map)" "vm_map_entry_zone demo_maps = [21, 22, 23]" "vm_map_kentry_zone demo_maps = [31]"
  by (simp_all add: demo_maps_def vm_objs.extend_def)

lemma demo_maps_ok:
  "map_inv demo_maps 1 [Ent 11, Ent 12]" "entries_free demo_maps [Ent 11, Ent 12]" "2 \<le> avail 1 demo_maps"
  "0 < avail 1 demo_maps" "is_main_map (vmap demo_maps 1)"
  by (simp_all add: map_inv_def ring_def demo_fields vm_map_min_def vm_map_max_def demo_entry_def demo_map_def
      entries_free_def avail_def)

lemma demo_ran: "v \<in> ran (mview demo_maps [Ent 11, Ent 12]) \<Longrightarrow> vobject v = 0 \<and> \<not> is_a_map v \<and> \<not> is_sub_map v"
  by (auto simp: ran_def mview_def demo_fields demo_entry_def view_def split: if_splits)

end
