(* ===== verification/VmMapRange.thy ===== *)
theory VmMapRange
  imports VmMapInv
begin

text \<open>
  The operations that change the attributes of an address range: \<^verbatim>\<open>vm_map_inherit\<close>,
  \<^verbatim>\<open>vm_map_protect\<close> and \<^verbatim>\<open>vm_map_pageable\<close>.  They share a pattern: find and clip the first entry,
  then walk over the entries of the range, clip the last one and change each.  The locale
  \<open>range_walk\<close> states what a walk and the change of one entry promise, and proves once that such a
  walk ends, keeps the invariant and changes what the map shows inside the range only.
\<close>

subsection \<open>The first entry of a range\<close>

lemma save_hint_step:
  assumes "map_inv s m es" "entries_free s es" "e \<in> insert (Hdr m) (set es)"
  shows "map_step m s es (SAVE_HINT m e s) es" "mview (SAVE_HINT m e s) = mview s"
    "avail m (SAVE_HINT m e s) = avail m s" "object_zone (SAVE_HINT m e s) = object_zone s"
proof -
  have z: "zone_entries (SAVE_HINT m e s) = zone_entries s" "vm_map_entry_zone (SAVE_HINT m e s) = vm_map_entry_zone s"
      "vm_map_kentry_zone (SAVE_HINT m e s) = vm_map_kentry_zone s" "vmap (SAVE_HINT m e s) m = (vmap s m)\<lparr>hint := e\<rparr>"
    by (simp_all add: zone_entries_def SAVE_HINT_def upd_map_def)
  have "ring (SAVE_HINT m e s) m es = ring s m es" by (rule ring_cong) simp
  then have "map_inv (SAVE_HINT m e s) m es" using assms by (simp add: map_inv_def)
  moreover have "others_kept m s es (SAVE_HINT m e s) es"
    using assms by (intro others_keptI) (auto simp: z entries_free_def map_inv_def ring_def)
  moreover have "entries_free (SAVE_HINT m e s) es" using assms(2) by (simp add: entries_free_iff z)
  ultimately show "map_step m s es (SAVE_HINT m e s) es" by (simp add: map_step_def size_ok_def)
  show "mview (SAVE_HINT m e s) = mview s" by (simp add: mview_def fun_eq_iff)
  show "avail m (SAVE_HINT m e s) = avail m s" by (simp add: avail_def z)
  show "object_zone (SAVE_HINT m e s) = object_zone s" by (simp add: SAVE_HINT_def upd_map_def)
qed

declare rbind_simps [simp]

lemma range_first_correct:
  assumes inv: "map_inv s m es" and free: "entries_free s es" and av: "0 < avail m s"
  shows "\<exists>t e xs ys. range_first m start s = Inr (Some (e, t)) \<and> map_step m s es t (xs @ ys) \<and>
    mview t (xs @ ys) = mview s es \<and> e = hd (ys @ [Hdr m]) \<and>
    (\<forall>x\<in>set xs. vend (ent t x) \<le> start) \<and> (\<forall>y\<in>set ys. start \<le> vstart (ent t y)) \<and>
    avail m s \<le> Suc (avail m t) \<and> object_zone t = object_zone s \<and> length (xs @ ys) \<le> Suc (length es)"
proof -
  obtain h where h: "vm_map_lookup_entry m start s = Inr (Some (lookup_ref (ent s) (Hdr m) es start, SAVE_HINT m h s))"
      "h \<in> insert (Hdr m) (set es)" using lookup_entry_ref [OF inv, of start] by blast
  note H = save_hint_step [OF inv free h(2)]
  have ord: "ordered (ent s) (vm_map_min m s) es (vm_map_max m s)" using inv by (simp add: map_inv_def)
  let ?u = "SAVE_HINT m h s"
  have invu: "map_inv ?u m es" "entries_free ?u es" using H(1) by (auto simp: map_step_def)
  obtain b e where be: "lookup_ref (ent s) (Hdr m) es start = (b, e)" by (cases "lookup_ref (ent s) (Hdr m) es start")
  show ?thesis
  proof (cases b)
    case False
    then have "lookup_ref (ent s) (Hdr m) es start = (False, e)" using be by simp
    from lookup_ref_missed [OF ord this] obtain xs ys where xy: "es = xs @ ys" "e = last (Hdr m # xs)"
        "\<forall>x\<in>set xs. vend (ent s x) \<le> start" "\<forall>y\<in>set ys. start < vstart (ent s y)" by blast
    have "vnext s e = hd (ys @ [Hdr m])"
    proof (cases ys)
      case Nil
      then show ?thesis using inv xy nseg_last [of "vnext s" "Hdr m" xs "Hdr m"] by (simp add: map_inv_def ring_def)
    next
      case (Cons y zs)
      then show ?thesis using ring_next(4) [of s m xs y zs] inv xy by (simp add: map_inv_def)
    qed
    moreover have "range_first m start s = Inr (Some (vnext s e, ?u))" using False h(1) be by (simp add: range_first_def)
    ultimately show ?thesis using H xy
      by (intro exI [of _ ?u] exI [of _ "vnext s e"] exI [of _ xs] exI [of _ ys]) (simp add: less_imp_le)
  next
    case True
    then have "lookup_ref (ent s) (Hdr m) es start = (True, e)" using be by simp
    from lookup_ref_found [OF ord this] obtain xs ys where xy: "es = xs @ e # ys" "covers (ent s e) start" by blast
    then have lt: "start < vend (ent ?u e)" by (simp add: covers_def)
    have "0 < avail m ?u" using av H(3) by simp
    from clip_start_correct [OF invu [unfolded xy(1)] this lt] obtain t zs where
      t: "vm_map_clip_start m e start ?u = Inr t" "map_step m ?u (xs @ e # ys) t (xs @ zs @ e # ys)"
        "mview t (xs @ zs @ e # ys) = mview ?u (xs @ e # ys)" "avail m ?u \<le> Suc (avail m t)"
        "vstart (ent t e) = max start (vstart (ent ?u e))" "\<forall>z\<in>set zs. vend (ent t z) \<le> start"
        "\<forall>f\<in>set (xs @ ys). ent t f = ent ?u f" "object_zone t = object_zone ?u" "length zs \<le> 1"
      by blast
    have st: "start \<le> vstart (ent t e)" using t(5) by simp
    note B = ordered_before [OF ord [unfolded xy(1)]]
    have "\<forall>x\<in>set (xs @ zs). vend (ent t x) \<le> start"
      using t(6,7) xy(2) order.trans [OF B(1), of _ start] by (auto simp: covers_def)
    moreover have "\<forall>y\<in>set (e # ys). start \<le> vstart (ent t y)"
      using t(7) B(2) xy(2) st by (auto simp: covers_def intro: order.trans less_imp_le)
    moreover have "map_step m s es t ((xs @ zs) @ e # ys)" using map_step_trans [OF H(1) [unfolded xy(1)] t(2)] xy(1) by simp
    moreover have "mview t ((xs @ zs) @ e # ys) = mview s es" using t(3) H(2) xy(1) by simp
    moreover have "range_first m start s = Inr (Some (e, t))" using True h(1) be t(1) by (simp add: range_first_def)
    moreover have "length ((xs @ zs) @ e # ys) \<le> Suc (length es)" using t(9) xy(1) by simp
    ultimately show ?thesis using t(4,8) H(3,4)
      by (intro exI [of _ t] exI [of _ e] exI [of _ "xs @ zs"] exI [of _ "e # ys"]) simp
  qed
qed

subsection \<open>Walking over a range\<close>

text \<open>
  The interface: \<open>walk\<close> has the shape of the loops, \<open>body\<close> changes one entry, \<open>R\<close> relates the entry
  before and after, and \<open>pre s k es v\<close> is what \<open>body\<close> needs for an entry with the fields \<open>v\<close> while
  \<open>k\<close> entries remain to be changed.
\<close>

locale range_walk =
  fixes m :: ptr and fin :: u32
    and walk :: "nat \<Rightarrow> eptr \<Rightarrow> 'a vm_maps_scheme \<Rightarrow> 'a vm_maps_scheme option kresult"
    and body :: "eptr \<Rightarrow> 'a vm_maps_scheme \<Rightarrow> 'a vm_maps_scheme option kresult"
    and R :: "vm_map_entry \<Rightarrow> vm_map_entry \<Rightarrow> bool"
    and pre :: "'a vm_maps_scheme \<Rightarrow> nat \<Rightarrow> eptr list \<Rightarrow> vm_map_entry \<Rightarrow> bool"
  assumes walk_step: "walk (Suc n) e s =
      (if e \<noteq> Hdr m \<and> vstart (ent s e) < fin
       then kbind (vm_map_clip_end m e fin s) (\<lambda>s. rbind (body e s) (\<lambda>s. walk n (vnext s e) s))
       else Inr (Some s))"
    and R_bounds: "R v w \<Longrightarrow> vstart w = vstart v \<and> vend w = vend v"
    and R_view: "R v w \<Longrightarrow> R (view v a) (view w a)"
    and pre_vend: "pre s k es (v\<lparr>vend := x\<rparr>) = pre s k es v"
    and pre_step: "pre s k es v \<Longrightarrow> map_step m s es t es' \<Longrightarrow> object_zone t = object_zone s \<Longrightarrow> pre t k es' v"
    and body_step: "map_inv s m es \<Longrightarrow> entries_free s es \<Longrightarrow> e \<in> set es \<Longrightarrow> pre s (Suc k) es (ent s e) \<Longrightarrow>
      \<exists>t. body e s = Inr (Some t) \<and> map_step m s es t es \<and> avail m t = avail m s \<and>
        (\<forall>f\<in>set es. f \<noteq> e \<longrightarrow> ent t f = ent s f) \<and> R (ent s e) (ent t e) \<and>
        (\<forall>v. pre s (Suc k) es v \<longrightarrow> pre t k es v)"
begin

lemma ordered_from:
  "ordered E lo (y # ys) hi \<Longrightarrow> fin \<le> vstart (E y) \<Longrightarrow> f \<in> set (y # ys) \<Longrightarrow> fin \<le> vstart (E f)"
  using ordered_before(2) [of E lo "[]" y ys hi f] by (auto intro: order.trans less_imp_le)

lemma walk_stops: "e = Hdr m \<or> fin \<le> vstart (ent s e) \<Longrightarrow> 0 < n \<Longrightarrow> walk n e s = Inr (Some s)"
  using walk_step by (cases n) auto

lemma walk_correct:
  assumes "map_inv s m (xs @ ys)" and "entries_free s (xs @ ys)" and "0 < avail m s" and "length ys < n"
    and "\<And>y. y \<in> set ys \<Longrightarrow> pre s (length ys) (xs @ ys) (ent s y)"
  shows "\<exists>t ys'. walk n (hd (ys @ [Hdr m])) s = Inr (Some t) \<and> map_step m s (xs @ ys) t (xs @ ys') \<and>
    (\<forall>x\<in>set xs. ent t x = ent s x) \<and> hd (ys' @ [Hdr m]) = hd (ys @ [Hdr m]) \<and>
    (\<forall>a. if a < fin then rel_option R (view_in (ent s) ys a) (view_in (ent t) ys' a)
         else view_in (ent t) ys' a = view_in (ent s) ys a)"
  using assms
proof (induction ys arbitrary: xs s n)
  case Nil
  then show ?case by (intro exI [of _ s] exI [of _ "[]"]) (simp add: walk_stops map_step_refl)
next
  case (Cons y ys)
  note prems = Cons.prems
  have ord: "ordered (ent s) (vm_map_min m s) (xs @ y # ys) (vm_map_max m s)" and rg: "ring s m (xs @ y # ys)"
    using prems(1) by (auto simp: map_inv_def)
  have yh: "y \<noteq> Hdr m" using ring_next(3) [OF rg] .
  obtain k where n: "n = Suc k" "length ys < k" using prems(4) by (cases n) auto
  show ?case
  proof (cases "vstart (ent s y) < fin")
    case False
    have "view_in (ent s) (y # ys) a = None" if "a < fin" for a
    proof -
      have "ordered (ent s) (vstart (ent s y)) (y # ys) (vm_map_max m s)" using ordered_split [OF ord] by simp
      then have "fin \<le> vstart (ent s f)" if "f \<in> set (y # ys)" for f using ordered_from False that by (metis not_less)
      then show ?thesis using that unfolding view_in_None covers_def by (meson leD le_less_trans not_le)
    qed
    moreover have "walk n (hd ((y # ys) @ [Hdr m])) s = Inr (Some s)" using False n walk_stops [of y s n] by (simp add: not_less)
    ultimately show ?thesis using prems(1,2) by (intro exI [of _ s] exI [of _ "y # ys"]) (auto simp: map_step_refl)
  next
    case True
    obtain u zs where u: "vm_map_clip_end m y fin s = Inr u" "map_step m s (xs @ y # ys) u (xs @ y # zs @ ys)"
        "mview u (xs @ y # zs @ ys) = mview s (xs @ y # ys)"
        "ent u y = (ent s y)\<lparr>vend := min fin (vend (ent s y))\<rparr>" "\<forall>z\<in>set zs. fin \<le> vstart (ent u z)"
        "\<forall>f\<in>set (xs @ ys). ent u f = ent s f" "vend (ent s y) \<le> fin \<longrightarrow> zs = [] \<and> u = s" "object_zone u = object_zone s"
        "fin < vend (ent s y) \<longrightarrow> (\<exists>z. zs = [z])"
      using clip_end_correct [OF prems(1,2,3) True] by blast
    let ?es = "xs @ y # zs @ ys"
    have iu: "map_inv u m ?es" "entries_free u ?es" using u(2) by (auto simp: map_step_def)
    have pre: "pre u (Suc (length ys)) ?es (ent s f)" if "f \<in> set (y # ys)" for f
      using prems(5) [of f] that pre_step [OF _ u(2,8)] by simp
    then have "pre u (Suc (length ys)) ?es (ent u y)" using u(4) pre_vend by simp
    from body_step [OF iu _ this] obtain w where w: "body y u = Inr (Some w)" "map_step m u ?es w ?es" "avail m w = avail m u"
        "\<forall>f\<in>set ?es. f \<noteq> y \<longrightarrow> ent w f = ent u f" "R (ent u y) (ent w y)"
        "\<forall>v. pre u (Suc (length ys)) ?es v \<longrightarrow> pre w (length ys) ?es v" by auto
    have iw: "map_inv w m ?es" "entries_free w ?es" using w(2) by (auto simp: map_step_def)
    have dist: "distinct ?es" using iu by (auto simp: map_inv_def ring_def)
    have nx: "vnext w y = hd (zs @ ys @ [Hdr m])" using ring_next(1) [of w m xs y "zs @ ys"] iw by (simp add: map_inv_def)
    have xw: "\<forall>x\<in>set xs. ent w x = ent s x" using w(4) u(6) dist by auto
    have bw: "vstart (ent w y) = vstart (ent s y)" "vend (ent w y) = min fin (vend (ent s y))"
      using R_bounds [OF w(5)] u(4) by simp_all
    have vw: "R (view (ent s y) a) (view (ent w y) a)" for a using R_view [OF w(5), of a] u(4) view_split(1) by simp
    have walk: "walk n (hd ((y # ys) @ [Hdr m])) s = walk k (vnext w y) w"
      using True yh u(1) w(1) by (simp add: n walk_step)
    have step: "map_step m s (xs @ y # ys) w ?es" using map_step_trans [OF u(2) w(2)] .
    show ?thesis
    proof (cases zs)
      case Nil
      then have le: "vend (ent s y) \<le> fin" using u(9) by (metis not_less not_Cons_self2)
      then have us: "u = s" using u(7) by simp
      have cov: "covers (ent w y) a = covers (ent s y) a" for a using bw le by (simp add: covers_def min_absorb2)
      have ys: "view_in (ent w) ys a = view_in (ent s) ys a" for a using w(4) u(6) dist Nil by (intro view_in_cong) auto
      have iw': "map_inv w m ((xs @ [y]) @ ys)" "entries_free w ((xs @ [y]) @ ys)" using iw Nil by simp_all
      have pw: "pre w (length ys) ((xs @ [y]) @ ys) (ent w f)" if "f \<in> set ys" for f
      proof -
        have "ent w f = ent s f" using w(4) u(6) dist that by auto
        then show ?thesis using w(6) pre [of f] that Nil by simp
      qed
      have "0 < avail m w" using w(3) us prems(3) by simp
      from Cons.IH [OF iw' this n(2) pw] obtain t ys' where
        t: "walk k (hd (ys @ [Hdr m])) w = Inr (Some t)" "map_step m w ((xs @ [y]) @ ys) t ((xs @ [y]) @ ys')"
          "\<forall>x\<in>set (xs @ [y]). ent t x = ent w x"
          "\<forall>a. if a < fin then rel_option R (view_in (ent w) ys a) (view_in (ent t) ys' a)
             else view_in (ent t) ys' a = view_in (ent w) ys a" by blast
      have ty: "ent t y = ent w y" using t(3) by simp
      have "if a < fin then rel_option R (view_in (ent s) (y # ys) a) (view_in (ent t) (y # ys') a)
         else view_in (ent t) (y # ys') a = view_in (ent s) (y # ys) a" for a
      proof (cases "covers (ent s y) a")
        case True
        then have "a < fin" using le by (auto simp: covers_def)
        then show ?thesis using True vw cov ty by simp
      next
        case False
        then show ?thesis using t(4) [rule_format, of a] ys [of a] cov [of a] ty by (cases "a < fin") simp_all
      qed
      moreover have "map_step m s (xs @ y # ys) t (xs @ y # ys')" using map_step_trans [OF step] t(2) Nil by simp
      ultimately show ?thesis using walk nx Nil t(1,3) xw by (intro exI [of _ t] exI [of _ "y # ys'"]) (simp del: view_in.simps)
    next
      case (Cons z zs')
      then have gt: "fin < vend (ent s y)" using u(7) by (metis list.distinct(1) not_less)
      then have z: "zs = [z]" using u(9) Cons by auto
      have stop: "walk k (vnext w y) w = Inr (Some w)"
        using nx z u(5) w(4) dist n(2) by (intro walk_stops) auto
      have ys: "fin \<le> vstart (ent s f)" if "f \<in> set ys" for f
        using ordered_before(2) [OF ord, of f] gt that by (meson less_imp_le order.trans)
      have rest: "view_in (ent w) (zs @ ys) a = view_in (ent u) (zs @ ys) a" for a using w(4) dist by (intro view_in_cong) auto
      have "if a < fin then rel_option R (view_in (ent s) (y # ys) a) (view_in (ent w) (y # zs @ ys) a)
         else view_in (ent w) (y # zs @ ys) a = view_in (ent s) (y # ys) a" for a
      proof (cases "a < fin")
        case True
        have cov: "covers (ent w y) a = covers (ent s y) a" using bw gt True by (auto simp: covers_def min_absorb1)
        have "view_in (ent s) ys a = None" using ys True unfolding view_in_None covers_def by (meson leD le_less_trans)
        moreover have "view_in (ent u) (zs @ ys) a = None"
          using ys True u(5,6) z unfolding view_in_None covers_def by (auto dest: leD le_less_trans)
        ultimately show ?thesis using True vw cov rest by simp
      next
        case False
        have nc: "\<not> covers (ent u y) a" "\<not> covers (ent w y) a" using bw u(4) False by (auto simp: covers_def)
        have "vstart (ent s y) \<le> a" using \<open>vstart (ent s y) < fin\<close> False by (meson less_imp_le not_less order.trans)
        then have "view_in (ent s) xs a = None"
          using ordered_before(1) [OF ord] unfolding view_in_None covers_def by (meson leD le_less_trans order.trans)
        moreover have "view_in (ent u) xs a = view_in (ent s) xs a" using u(6) by (intro view_in_cong) auto
        moreover have "view_in (ent u) (xs @ y # zs @ ys) a = view_in (ent s) (xs @ y # ys) a"
          using u(3) by (simp add: mview_def fun_eq_iff)
        ultimately have "view_in (ent u) (zs @ ys) a = view_in (ent s) (y # ys) a" using nc by (simp add: view_in_append)
        then show ?thesis using False nc rest by simp
      qed
      then show ?thesis using walk stop step xw by (intro exI [of _ w] exI [of _ "y # zs @ ys"]) (simp del: view_in.simps)
    qed
  qed
qed

lemma walk_range:
  assumes u: "map_step m s es u (xs @ ys)" "mview u (xs @ ys) = mview s es" and av: "0 < avail m u"
    and below: "\<forall>x\<in>set xs. vend (ent u x) \<le> start" and above: "\<forall>y\<in>set ys. start \<le> vstart (ent u y)"
    and pre: "\<And>y. y \<in> set ys \<Longrightarrow> pre u (length ys) (xs @ ys) (ent u y)"
  shows "\<exists>t es'. walk (walk_fuel m u) (hd (ys @ [Hdr m])) u = Inr (Some t) \<and> map_step m s es t es' \<and>
    (\<forall>a. if start \<le> a \<and> a < fin then rel_option R (mview s es a) (mview t es' a) else mview t es' a = mview s es a) \<and>
    (\<exists>ys'. es' = xs @ ys' \<and> hd (ys' @ [Hdr m]) = hd (ys @ [Hdr m]))"
proof -
  have iu: "map_inv u m (xs @ ys)" "entries_free u (xs @ ys)" using u(1) by (auto simp: map_step_def)
  have "length ys < walk_fuel m u" using fuel_enough [OF iu(1)] by simp
  from walk_correct [OF iu av this pre] obtain t ys' where
    t: "walk (walk_fuel m u) (hd (ys @ [Hdr m])) u = Inr (Some t)" "map_step m u (xs @ ys) t (xs @ ys')"
      "\<forall>x\<in>set xs. ent t x = ent u x" "hd (ys' @ [Hdr m]) = hd (ys @ [Hdr m])"
      "\<forall>a. if a < fin then rel_option R (view_in (ent u) ys a) (view_in (ent t) ys' a)
         else view_in (ent t) ys' a = view_in (ent u) ys a" by blast
  have xs: "view_in (ent t) xs a = view_in (ent u) xs a" for a using t(3) by (intro view_in_cong) simp
  have "if start \<le> a \<and> a < fin then rel_option R (mview s es a) (mview t (xs @ ys') a) else mview t (xs @ ys') a = mview s es a" for a
  proof (cases "start \<le> a")
    case True
    then have "view_in (ent u) xs a = None" using below unfolding view_in_None covers_def by (meson leD le_less_trans order.trans)
    then have "mview s es a = view_in (ent u) ys a" "mview t (xs @ ys') a = view_in (ent t) ys' a"
      using xs u(2) [symmetric] by (simp_all add: mview_def view_in_append)
    then show ?thesis using True t(5) [rule_format, of a] by simp
  next
    case False
    then have "view_in (ent u) ys a = None" using above unfolding view_in_None covers_def by (meson order.trans)
    moreover from this have "view_in (ent t) ys' a = None" using t(5) [rule_format, of a] by (cases "a < fin") simp_all
    ultimately have "mview t (xs @ ys') a = mview u (xs @ ys) a" using xs by (simp add: mview_def view_in_append split: option.splits)
    then show ?thesis using False u(2) by simp
  qed
  then show ?thesis using t(1,4) map_step_trans [OF u(1) t(2)] by blast
qed

end

subsection \<open>Inheritance\<close>

text \<open>Changing the attributes of one entry, not its place, is a step.\<close>

lemma upd_ent_step:
  assumes inv: "map_inv s m es" and free: "entries_free s es" and e: "e \<in> set es"
    and f: "vstart (f (ent s e)) = vstart (ent s e)" "vend (f (ent s e)) = vend (ent s e)"
  shows "map_step m s es (upd_ent e f s) es" "avail m (upd_ent e f s) = avail m s"
    "ent (upd_ent e f s) = (ent s)(e := f (ent s e))"
proof -
  let ?t = "upd_ent e f s"
  show et: "ent ?t = (ent s)(e := f (ent s e))" by (simp add: upd_ent_def)
  have he: "e \<noteq> Hdr m" using inv e by (auto simp: map_inv_def ring_def)
  have t: "vnext ?t = vnext s" "vprev ?t = vprev s" "vmap ?t = vmap s" "zone_entries ?t = zone_entries s"
      "vm_map_entry_zone ?t = vm_map_entry_zone s" "vm_map_kentry_zone ?t = vm_map_kentry_zone s"
      "vm_map_min m ?t = vm_map_min m s" "vm_map_max m ?t = vm_map_max m s"
    using he by (simp_all add: upd_ent_def zone_entries_def vm_map_min_def vm_map_max_def)
  have sv: "vstart (ent ?t x) = vstart (ent s x) \<and> vend (ent ?t x) = vend (ent s x)" for x using et f by simp
  have "ring ?t m es = ring s m es" by (rule ring_cong) (simp add: t)
  moreover have "ordered (ent ?t) lo es hi = ordered (ent s) lo es hi" for lo hi using sv by (intro ordered_cong) simp
  ultimately have "map_inv ?t m es" using inv by (simp add: map_inv_def t)
  moreover have "others_kept m s es ?t es"
    using e inv free by (intro others_keptI) (auto simp: t et entries_free_def map_inv_def ring_def)
  moreover have "entries_free ?t es" using free by (simp add: entries_free_iff t)
  moreover have "size_ok s m es \<longrightarrow> size_ok ?t m es" using sv by (simp add: size_ok_def t)
  ultimately show "map_step m s es ?t es" by (simp add: map_step_def t)
  show "avail m ?t = avail m s" by (simp add: avail_def t)
qed

lemma view_attr:
  "view (v\<lparr>inheritance := i\<rparr>) a = (view v a)\<lparr>inheritance := i\<rparr>"
  "view (v\<lparr>protection := p\<rparr>) a = (view v a)\<lparr>protection := p\<rparr>"
  "view (v\<lparr>max_protection := p\<rparr>) a = (view v a)\<lparr>max_protection := p\<rparr>"
  "view (v\<lparr>wired_count := c\<rparr>) a = (view v a)\<lparr>wired_count := c\<rparr>"
  by (simp_all add: view_def)

text \<open>Outside the bounds of the map there is nothing to change.\<close>

lemma mview_bounds:
  assumes "map_inv s m es" and "mview s es a = Some v"
  shows "vm_map_min m s \<le> a \<and> a < vm_map_max m s"
proof -
  obtain e where "e \<in> set es" "covers (ent s e) a" using view_in_Some assms(2) unfolding mview_def by blast
  then show ?thesis using ordered_bounds [of "ent s" "vm_map_min m s" es "vm_map_max m s"] assms(1)
    unfolding map_inv_def covers_def by (meson le_less_trans order.trans less_le_trans)
qed

lemma range_check_exact:
  assumes "VM_MAP_RANGE_CHECK m start fin s = (b, e)" and "vm_map_min m s \<le> a" and "a < vm_map_max m s"
  shows "b \<le> a \<and> a < e \<longleftrightarrow> start \<le> a \<and> a < fin"
  using assms by (auto simp: VM_MAP_RANGE_CHECK_def Let_def split: if_splits)

lemma range_check_lock: "VM_MAP_RANGE_CHECK m start fin (vm_map_lock k s) = VM_MAP_RANGE_CHECK m start fin s"
  by (simp add: VM_MAP_RANGE_CHECK_def vm_map_min_def vm_map_max_def vm_map_lock_def upd_map_def)

text \<open>What holds of the clamped range holds of the range the caller gave.\<close>

lemma range_widen:
  assumes "map_inv s m es" and "VM_MAP_RANGE_CHECK m start fin s = (b, e)" and "map_step m s es t es'"
    and "\<forall>a. if b \<le> a \<and> a < e then rel_option R (mview s es a) (mview t es' a) else mview t es' a = mview s es a"
  shows "if start \<le> a \<and> a < fin then rel_option R (mview s es a) (mview t es' a) else mview t es' a = mview s es a"
proof (cases "vm_map_min m s \<le> a \<and> a < vm_map_max m s")
  case True
  then show ?thesis using range_check_exact [OF assms(2)] assms(4) by simp
next
  case False
  have "vm_map_min m t = vm_map_min m s" "vm_map_max m t = vm_map_max m s" "map_inv t m es'" using assms(3) by (auto simp: map_step_def)
  then have "mview s es a = None" "mview t es' a = None" using False mview_bounds assms(1) by (metis not_None_eq)+
  then show ?thesis by simp
qed

interpretation inherit_range: range_walk m fin "\<lambda>n e s. inherit_walk n m fin i e s"
    "\<lambda>e s. Inr (Some (upd_ent e (\<lambda>v. v\<lparr>inheritance := i\<rparr>) s))" "\<lambda>v w. w = v\<lparr>inheritance := i\<rparr>" "\<lambda>_ _ _ _. True"
  for m fin i
proof (unfold_locales, goal_cases)
  case (6 s es e k)
  let ?t = "upd_ent e (\<lambda>v. v\<lparr>inheritance := i\<rparr>) s"
  have "map_step m s es ?t es" "avail m ?t = avail m s" "ent ?t = (ent s)(e := (ent s e)\<lparr>inheritance := i\<rparr>)"
    using upd_ent_step [OF 6(1-3), of "\<lambda>v. v\<lparr>inheritance := i\<rparr>"] by simp_all
  then show ?case by simp
qed (simp_all add: view_attr Let_def)

text \<open>The opening of every range operation.\<close>

lemma range_open:
  assumes "map_inv s m es" and "entries_free s es" and "2 \<le> avail m s"
  obtains b e u xs ys where "VM_MAP_RANGE_CHECK m start fin (vm_map_lock m s) = (b, e)"
    "VM_MAP_RANGE_CHECK m start fin s = (b, e)"
    "range_first m b (vm_map_lock m s) = Inr (Some (hd (ys @ [Hdr m]), u))" "map_step m s es u (xs @ ys)"
    "mview u (xs @ ys) = mview s es" "0 < avail m u" "\<forall>x\<in>set xs. vend (ent u x) \<le> b"
    "\<forall>y\<in>set ys. b \<le> vstart (ent u y)" "object_zone u = object_zone s" "length (xs @ ys) \<le> Suc (length es)"
proof -
  obtain b e where be: "VM_MAP_RANGE_CHECK m start fin s = (b, e)" by (cases "VM_MAP_RANGE_CHECK m start fin s")
  let ?l = "vm_map_lock m s"
  note L = map_lock_same [of s m]
  have il: "map_inv ?l m es" "entries_free ?l es" "0 < avail m ?l" "map_step m s es ?l es"
    using assms maps_same_inv [OF L] maps_sameD(12) [OF L, of m] maps_same_step [OF L] by simp_all
  obtain u f xs ys where u: "range_first m b ?l = Inr (Some (f, u))" "map_step m ?l es u (xs @ ys)"
      "mview u (xs @ ys) = mview ?l es" "f = hd (ys @ [Hdr m])" "\<forall>x\<in>set xs. vend (ent u x) \<le> b"
      "\<forall>y\<in>set ys. b \<le> vstart (ent u y)" "avail m ?l \<le> Suc (avail m u)" "object_zone u = object_zone ?l"
      "length (xs @ ys) \<le> Suc (length es)"
    using range_first_correct [OF il(1-3), of b] by blast
  have "object_zone ?l = object_zone s" by (simp add: vm_map_lock_def upd_map_def)
  moreover have "map_step m s es u (xs @ ys)" "mview u (xs @ ys) = mview s es" "0 < avail m u"
    using map_step_trans [OF il(4) u(2)] u(3,7) maps_same_inv(3) [OF L] assms(3) maps_sameD(12) [OF L, of m] by simp_all
  ultimately show ?thesis using u be that [of b e ys u xs] by (simp add: range_check_lock)
qed

text \<open>Checking the entries of a range is checking its addresses.\<close>

lemma range_all:
  assumes inv: "map_inv u m (xs @ ys)" and below: "\<forall>x\<in>set xs. vend (ent u x) \<le> start"
    and above: "\<forall>y\<in>set ys. start \<le> vstart (ent u y)" and P: "\<And>v a. P (view v a) = P v"
  shows "(\<forall>y\<in>set ys. vstart (ent u y) < fin \<longrightarrow> P (ent u y)) \<longleftrightarrow>
    (\<forall>a v. start \<le> a \<and> a < fin \<and> mview u (xs @ ys) a = Some v \<longrightarrow> P v)"
proof (intro iffI ballI allI impI)
  fix a v
  assume A: "\<forall>y\<in>set ys. vstart (ent u y) < fin \<longrightarrow> P (ent u y)" "start \<le> a \<and> a < fin \<and> mview u (xs @ ys) a = Some v"
  then obtain e where e: "e \<in> set (xs @ ys)" "covers (ent u e) a" "v = view (ent u e) a"
    using view_in_Some unfolding mview_def by blast
  have "e \<notin> set xs" using below A(2) e(2) unfolding covers_def by (meson leD le_less_trans order.trans)
  then have "e \<in> set ys" "vstart (ent u e) < fin" using e(1,2) A(2) by (auto simp: covers_def)
  then show "P v" using A(1) P e(3) by simp
next
  fix y
  assume A: "\<forall>a v. start \<le> a \<and> a < fin \<and> mview u (xs @ ys) a = Some v \<longrightarrow> P v" "y \<in> set ys" "vstart (ent u y) < fin"
  obtain as bs where "ys = as @ y # bs" using A(2) by (meson split_list)
  then have ord: "ordered (ent u) (vm_map_min m u) ((xs @ as) @ y # bs) (vm_map_max m u)" using inv by (simp add: map_inv_def)
  have "view_in (ent u) (xs @ ys) (vstart (ent u y)) = Some (view (ent u y) (vstart (ent u y)))"
    using view_in_split [OF ord, of "vstart (ent u y)"] ordered_split(2) [OF ord] \<open>ys = as @ y # bs\<close> by simp
  then have "P (view (ent u y) (vstart (ent u y)))" using A(1,3) above A(2) unfolding mview_def by blast
  then show "P (ent u y)" using P by simp
qed

lemma range_all_given:
  assumes "map_inv s m es" and "VM_MAP_RANGE_CHECK m start fin s = (b, e)"
  shows "(\<forall>a v. b \<le> a \<and> a < e \<and> mview s es a = Some v \<longrightarrow> P v) \<longleftrightarrow>
    (\<forall>a v. start \<le> a \<and> a < fin \<and> mview s es a = Some v \<longrightarrow> P v)"
proof -
  have "b \<le> a \<and> a < e \<and> mview s es a = Some v \<longleftrightarrow> start \<le> a \<and> a < fin \<and> mview s es a = Some v" for a v
    using range_check_exact [OF assms(2), of a] mview_bounds [OF assms(1), of a v] by blast
  then show ?thesis by simp
qed

text \<open>\<^verbatim>\<open>vm_map_inherit\<close> always returns.  With a proper inheritance value it succeeds and sets the
  inheritance of exactly the addresses of the given range that are mapped; it keeps the invariant
  and the size of the map and changes nothing else, in this map or any other.  With any other
  value it fails and changes nothing.
\<close>

lemma vm_map_inherit_range:
  assumes "map_inv s m es" and "entries_free s es" and "2 \<le> avail m s"
  shows "(i \<in> {VM_INHERIT_NONE, VM_INHERIT_COPY, VM_INHERIT_SHARE} \<longrightarrow>
      (\<exists>t es'. vm_map_inherit m start fin i s = Inr (Some (KERN_SUCCESS, t)) \<and> map_step m s es t es' \<and>
        (\<forall>a. mview t es' a = (if start \<le> a \<and> a < fin then map_option (\<lambda>v. v\<lparr>inheritance := i\<rparr>) (mview s es a)
                             else mview s es a)))) \<and>
    (i \<notin> {VM_INHERIT_NONE, VM_INHERIT_COPY, VM_INHERIT_SHARE} \<longrightarrow>
      vm_map_inherit m start fin i s = Inr (Some (KERN_INVALID_ARGUMENT, s)))"
proof (cases "i \<in> {VM_INHERIT_NONE, VM_INHERIT_COPY, VM_INHERIT_SHARE}")
  case True
  obtain b e u xs ys where u: "VM_MAP_RANGE_CHECK m start fin (vm_map_lock m s) = (b, e)" "VM_MAP_RANGE_CHECK m start fin s = (b, e)"
    "range_first m b (vm_map_lock m s) = Inr (Some (hd (ys @ [Hdr m]), u))" "map_step m s es u (xs @ ys)"
    "mview u (xs @ ys) = mview s es" "0 < avail m u" "\<forall>x\<in>set xs. vend (ent u x) \<le> b" "\<forall>y\<in>set ys. b \<le> vstart (ent u y)"
    using range_open [OF assms] by metis
  from inherit_range.walk_range [OF u(4-8), of e i] obtain t es' where
    t: "inherit_walk (walk_fuel m u) m e i (hd (ys @ [Hdr m])) u = Inr (Some t)" "map_step m s es t es'"
      "\<forall>a. if b \<le> a \<and> a < e then rel_option (\<lambda>v w. w = v\<lparr>inheritance := i\<rparr>) (mview s es a) (mview t es' a)
         else mview t es' a = mview s es a" by auto
  have "vm_map_inherit m start fin i s = Inr (Some (KERN_SUCCESS, t))"
    using True u(1,3) t(1) by (simp add: vm_map_inherit_def Let_def)
  moreover have "mview t es' a = (if start \<le> a \<and> a < fin then map_option (\<lambda>v. v\<lparr>inheritance := i\<rparr>) (mview s es a) else mview s es a)" for a
    using range_widen [OF assms(1) u(2) t(2,3), of a] by (cases "mview s es a"; cases "mview t es' a") (auto split: if_splits)
  ultimately show ?thesis using True t(2) by blast
qed (simp add: vm_map_inherit_def)

subsection \<open>Protection\<close>

text \<open>The invariant determines the entries of a map.\<close>

lemma map_inv_unique: "map_inv s m es \<Longrightarrow> map_inv s m es' \<Longrightarrow> es = es'"
  by (rule nseg_unique [of "vnext s" "Hdr m" es "Hdr m" es']) (auto simp: map_inv_def ring_def)

text \<open>Moving the hint of another map is a step of this one.\<close>

lemma other_hint_step:
  assumes inv: "map_inv s m es" and free: "entries_free s es" and k: "k \<noteq> m" "map_inv s k ks" "h \<in> insert (Hdr k) (set ks)"
    and ks: "entries_free s ks"
  shows "map_step m s es (SAVE_HINT k h s) es"
proof -
  let ?t = "SAVE_HINT k h s"
  have z: "zone_entries ?t = zone_entries s" "vm_map_entry_zone ?t = vm_map_entry_zone s"
      "vm_map_kentry_zone ?t = vm_map_kentry_zone s"
    by (simp_all add: zone_entries_def SAVE_HINT_def upd_map_def)
  have ik: "map_inv ?t k ks" using save_hint_step(1) [OF k(2) ks k(3)] by (simp add: map_step_def)
  have inv': "map_inv ?t j js = map_inv s j js" if "j \<noteq> k" for j js using that by (intro map_inv_cong) simp_all
  have free': "entries_free ?t js = entries_free s js" for js by (simp add: entries_free_iff z)
  have "map_inv ?t j js" if "map_inv s j js" for j js
    using that inv' ik map_inv_unique [OF k(2), of js] by (cases "j = k") auto
  then have "others_kept m s es ?t es" by (simp add: others_kept_def free' mview_def fun_eq_iff)
  then show ?thesis using inv free k(1) inv' [of m] free' by (simp add: map_step_def size_ok_def)
qed

lemma share_walk_ends:
  assumes "ring s k (xs @ ys)" and "length ys < n"
  shows "\<exists>t. share_protect_walk n m cur k fin (hd (ys @ [Hdr k])) s = Some t \<and> maps_same s t"
  using assms
proof (induction ys arbitrary: xs s n)
  case Nil
  then show ?case by (cases n) (auto simp: maps_same_refl)
next
  case (Cons y ys)
  obtain j where n: "n = Suc j" "length ys < j" using Cons.prems(2) by (cases n) auto
  define t where "t = pmap_do (PmapProtect (pmap (vmap s m))
           (max (vstart (ent s y)) (voffset (ent s cur)) - voffset (ent s cur) + vstart (ent s cur))
           (max (vend (ent s y)) fin - voffset (ent s cur) + vstart (ent s cur))
           (protection (ent s cur) AND prot_mask (ent s y))) s"
  have same: "maps_same s t" unfolding t_def by (rule pmap_do_maps_same)
  note D = maps_sameD [OF same]
  have nx: "vnext s y = hd (ys @ [Hdr k])" using ring_next(1) [OF Cons.prems(1)] .
  have "ring t k ((xs @ [y]) @ ys)" using Cons.prems(1) ring_cong [of k "xs @ y # ys" t s] D by simp
  from Cons.IH [OF this n(2)] obtain v where "share_protect_walk j m cur k fin (hd (ys @ [Hdr k])) t = Some v" "maps_same t v" by blast
  then show ?case using n(1) nx same maps_same_trans [OF same] by (auto simp: t_def [symmetric] maps_same_refl)
qed

definition share_ok :: "ptr \<Rightarrow> 'a vm_maps_scheme \<Rightarrow> eptr list \<Rightarrow> vm_map_entry \<Rightarrow> bool" where
  "share_ok m s es v \<longleftrightarrow> (is_a_map v \<longrightarrow> vobject v \<noteq> m \<and>
     (\<exists>ks. map_inv s (vobject v) ks \<and> entries_free s ks \<and> set ks \<inter> set es = {}))"

lemma share_ok_step: "share_ok m s es v \<Longrightarrow> map_step m s es t es' \<Longrightarrow> share_ok m t es' v"
  unfolding share_ok_def map_step_def others_kept_def by metis

lemma lookup_entry_list:
  assumes "map_inv s k ks"
  shows "\<exists>b h xs ys. vm_map_lookup_entry k a s = Inr (Some ((b, hd (ys @ [Hdr k])), SAVE_HINT k h s)) \<and>
    h \<in> insert (Hdr k) (set ks) \<and> ks = xs @ ys"
proof -
  obtain h where h: "vm_map_lookup_entry k a s = Inr (Some (lookup_ref (ent s) (Hdr k) ks a, SAVE_HINT k h s))"
      "h \<in> insert (Hdr k) (set ks)" using lookup_entry_ref [OF assms] by blast
  obtain b e where be: "lookup_ref (ent s) (Hdr k) ks a = (b, e)" by (cases "lookup_ref (ent s) (Hdr k) ks a")
  have ord: "ordered (ent s) (vm_map_min k s) ks (vm_map_max k s)" using assms by (simp add: map_inv_def)
  have "e = Hdr k \<or> e \<in> set ks"
  proof (cases b)
    case True
    then show ?thesis using lookup_ref_found [OF ord, of "Hdr k" a e] be by auto
  next
    case False
    then obtain xs ys where "ks = xs @ ys" "e = last (Hdr k # xs)" using lookup_ref_missed [OF ord, of "Hdr k" a e] be by auto
    moreover have "last (Hdr k # xs) \<in> set (Hdr k # xs)" by (rule last_in_set) simp
    ultimately show ?thesis by auto
  qed
  then have "\<exists>xs ys. ks = xs @ ys \<and> e = hd (ys @ [Hdr k])"
  proof
    assume "e \<in> set ks"
    then obtain xs zs where "ks = xs @ e # zs" by (meson split_list)
    then show ?thesis by (intro exI [of _ xs] exI [of _ "e # zs"]) simp
  qed (intro exI [of _ ks] exI [of _ "[]"], simp)
  then show ?thesis using h be by metis
qed

lemma protect_physical_step:
  assumes inv: "map_inv s m es" and free: "entries_free s es" and ok: "share_ok m s es (ent s cur)"
  shows "\<exists>t. protect_physical m entry cur s = Inr (Some t) \<and> map_step m s es t es \<and> avail m t = avail m s \<and> ent t = ent s"
proof (cases "is_a_map (ent s cur)")
  case False
  let ?c = "PmapProtect (pmap (vmap s m)) (vstart (ent s cur)) (vend (ent s cur)) (protection (ent s cur) AND prot_mask (ent s entry))"
  have same: "maps_same s (pmap_do ?c s)" by (rule pmap_do_maps_same)
  show ?thesis using False maps_same_step [OF same inv free] maps_sameD(1,12) [OF same] by (simp add: protect_physical_def)
next
  case True
  define k where "k = vobject (ent s cur)"
  obtain ks where k: "k \<noteq> m" "map_inv s k ks" "entries_free s ks" using ok True by (auto simp: share_ok_def k_def)
  define l where "l = vm_map_lock k s"
  have sl: "maps_same s l" unfolding l_def by (rule map_lock_same)
  have kl: "map_inv l k ks" "entries_free l ks" "map_inv l m es" "entries_free l es"
    using k inv free maps_same_inv [OF sl] by simp_all
  obtain b h xs ys where h: "vm_map_lookup_entry k (voffset (ent l cur)) l = Inr (Some ((b, hd (ys @ [Hdr k])), SAVE_HINT k h l))"
      "h \<in> insert (Hdr k) (set ks)" "ks = xs @ ys" using lookup_entry_list [OF kl(1)] by blast
  let ?w = "SAVE_HINT k h l"
  have wk: "map_inv ?w k ks" using save_hint_step(1) [OF kl(1,2) h(2)] by (simp add: map_step_def)
  have "length ys < walk_fuel k ?w" using fuel_enough [OF wk] h(3) by simp
  moreover have "ring ?w k (xs @ ys)" using wk h(3) by (simp only: map_inv_def)
  ultimately obtain t where
    t: "share_protect_walk (walk_fuel k ?w) m cur k (voffset (ent ?w cur) + (vend (ent ?w cur) - vstart (ent ?w cur)))
          (hd (ys @ [Hdr k])) ?w = Some t" "maps_same ?w t"
    using share_walk_ends by blast
  have eq: "protect_physical m entry cur s = Inr (Some t)"
    using True h(1) t(1) by (simp add: protect_physical_def k_def [symmetric] l_def [symmetric] Let_def maps_sameD(1) [OF sl] del: save_hint_fields(6))
  have s1: "map_step m s es l es" using maps_same_step [OF sl inv free] .
  have s2: "map_step m l es ?w es" using other_hint_step [OF kl(3,4) k(1) kl(1) h(2) kl(2)] .
  then have "map_inv ?w m es" "entries_free ?w es" by (simp_all only: map_step_def)
  then have s3: "map_step m ?w es t es" by (rule maps_same_step [OF t(2)])
  have "avail m ?w = avail m l" using k(1) by (simp add: avail_def) (simp add: SAVE_HINT_def upd_map_def)
  then have "avail m t = avail m s" using maps_sameD(12) [OF t(2)] maps_sameD(12) [OF sl] by simp
  moreover have "ent t = ent s" using maps_sameD(1) [OF t(2)] maps_sameD(1) [OF sl] by simp
  ultimately show ?thesis using eq map_step_trans [OF s1 map_step_trans [OF s2 s3]] by blast
qed

definition prot_change :: "vm_prot \<Rightarrow> bool \<Rightarrow> vm_map_entry \<Rightarrow> vm_map_entry" where
  "prot_change p set_max v =
    (if set_max then v\<lparr>max_protection := p, protection := p AND protection v\<rparr> else v\<lparr>protection := p\<rparr>)"

definition protect_body :: "ptr \<Rightarrow> vm_prot \<Rightarrow> bool \<Rightarrow> eptr \<Rightarrow> eptr \<Rightarrow> 'a vm_maps_scheme \<Rightarrow> 'a vm_maps_scheme option kresult" where
  "protect_body m p set_max entry e s =
    (let t = upd_ent e (prot_change p set_max) s
     in if protection (ent t e) \<noteq> protection (ent s e) then protect_physical m entry e t else Inr (Some t))"

interpretation protect_range: range_walk m fin "\<lambda>n e s. protect_walk n m fin p set_max entry e s"
    "protect_body m p set_max entry" "\<lambda>v w. w = prot_change p set_max v" "\<lambda>s _ es v. share_ok m s es v"
  for m fin p set_max entry
proof (unfold_locales, goal_cases)
  case (1 n e s)
  have "upd_ent e (prot_change p set_max) s = (if set_max
       then upd_ent e (\<lambda>v. v\<lparr>max_protection := p, protection := p AND protection (ent s e)\<rparr>) s
       else upd_ent e (\<lambda>v. v\<lparr>protection := p\<rparr>) s)" for s :: "'a vm_maps_scheme"
    by (simp add: upd_ent_def prot_change_def)
  then show ?case by (simp add: protect_body_def Let_def)
next
  case (5 s k es v t es')
  then show ?case by (metis share_ok_step)
next
  case (6 s es e k)
  let ?t = "upd_ent e (prot_change p set_max) s"
  have t: "map_step m s es ?t es" "avail m ?t = avail m s" "ent ?t = (ent s)(e := prot_change p set_max (ent s e))"
    using upd_ent_step [OF 6(1-3), of "prot_change p set_max"] by (simp_all add: prot_change_def)
  have "share_ok m u es (prot_change p set_max v) = share_ok m u es v" for u :: "'a vm_maps_scheme" and v
    by (simp add: share_ok_def prot_change_def)
  then have ok: "share_ok m ?t es (ent ?t e)" using share_ok_step [OF 6(4) t(1)] t(3) by simp
  have "\<exists>u. protect_body m p set_max entry e s = Inr (Some u) \<and> map_step m ?t es u es \<and> avail m u = avail m ?t \<and> ent u = ent ?t"
    using protect_physical_step [OF _ _ ok, of entry] t(1) by (auto simp: protect_body_def Let_def map_step_def others_kept_refl)
  then show ?case using map_step_trans [OF t(1)] t(2,3) share_ok_step by (metis fun_upd_apply)
qed (auto simp: prot_change_def view_def share_ok_def)

text \<open>The first pass says whether every entry of the range admits the protection.\<close>

definition prot_allowed :: "vm_prot \<Rightarrow> vm_map_entry \<Rightarrow> bool" where
  "prot_allowed p v \<longleftrightarrow> \<not> is_sub_map v \<and> p AND max_protection v = p"

lemma prot_allowed_view: "prot_allowed p (view v a) = prot_allowed p v"
  by (simp add: prot_allowed_def view_def)

lemma protect_check_correct:
  assumes "map_inv u m (xs @ ys)" and "length ys < n"
  shows "\<exists>kr. protect_check n m fin p (hd (ys @ [Hdr m])) u = Some kr \<and>
     kr \<in> {KERN_SUCCESS, KERN_INVALID_ARGUMENT, KERN_PROTECTION_FAILURE} \<and>
     (kr = KERN_SUCCESS \<longleftrightarrow> (\<forall>y\<in>set ys. vstart (ent u y) < fin \<longrightarrow> prot_allowed p (ent u y)))"
  using assms
proof (induction ys arbitrary: xs n)
  case Nil
  then show ?case by (cases n) auto
next
  case (Cons y ys)
  obtain k where n: "n = Suc k" "length ys < k" using Cons.prems(2) by (cases n) auto
  have rg: "ring u m (xs @ y # ys)" and ord: "ordered (ent u) (vm_map_min m u) (xs @ y # ys) (vm_map_max m u)"
    using Cons.prems(1) by (auto simp: map_inv_def)
  have above: "fin \<le> vstart (ent u z)" if "fin \<le> vstart (ent u y)" "z \<in> set ys" for z
    using ordered_before(2) [OF ord that(2)] ordered_split(2) [OF ord] that(1) by (meson less_imp_le order.trans)
  obtain kr where "protect_check k m fin p (hd (ys @ [Hdr m])) u = Some kr"
     "kr \<in> {KERN_SUCCESS, KERN_INVALID_ARGUMENT, KERN_PROTECTION_FAILURE}"
     "kr = KERN_SUCCESS \<longleftrightarrow> (\<forall>y\<in>set ys. vstart (ent u y) < fin \<longrightarrow> prot_allowed p (ent u y))"
    using Cons.IH [of "xs @ [y]" k] Cons.prems(1) n(2) by auto
  moreover have "protect_check n m fin p y u =
      (if vstart (ent u y) < fin
       then if is_sub_map (ent u y) then Some KERN_INVALID_ARGUMENT
            else if p AND max_protection (ent u y) \<noteq> p then Some KERN_PROTECTION_FAILURE
            else protect_check k m fin p (hd (ys @ [Hdr m])) u
       else Some KERN_SUCCESS)"
    using n(1) ring_next(1,3) [OF rg] by simp
  moreover have "\<not> vstart (ent u z) < fin" if "\<not> vstart (ent u y) < fin" "z \<in> set ys" for z using above that by (simp add: not_less)
  ultimately show ?case
    by (cases "vstart (ent u y) < fin") (auto simp: prot_allowed_def)
qed

lemma protect_correct:
  assumes "map_inv s m es" and "entries_free s es" and "2 \<le> avail m s"
    and "\<forall>v\<in>ran (mview s es). share_ok m s es v"
  shows "\<exists>kr t es'. vm_map_protect m start fin p set_max s = Inr (Some (kr, t)) \<and> map_step m s es t es' \<and>
    kr \<in> {KERN_SUCCESS, KERN_INVALID_ARGUMENT, KERN_PROTECTION_FAILURE} \<and>
    (kr = KERN_SUCCESS \<longleftrightarrow> (\<forall>a v. start \<le> a \<and> a < fin \<and> mview s es a = Some v \<longrightarrow> prot_allowed p v)) \<and>
    (\<forall>a. mview t es' a = (if kr = KERN_SUCCESS \<and> start \<le> a \<and> a < fin
       then map_option (prot_change p set_max) (mview s es a) else mview s es a))"
proof -
  obtain b e u xs ys where u: "VM_MAP_RANGE_CHECK m start fin (vm_map_lock m s) = (b, e)" "VM_MAP_RANGE_CHECK m start fin s = (b, e)"
    "range_first m b (vm_map_lock m s) = Inr (Some (hd (ys @ [Hdr m]), u))" "map_step m s es u (xs @ ys)"
    "mview u (xs @ ys) = mview s es" "0 < avail m u" "\<forall>x\<in>set xs. vend (ent u x) \<le> b" "\<forall>y\<in>set ys. b \<le> vstart (ent u y)"
    using range_open [OF assms(1-3)] by metis
  have iu: "map_inv u m (xs @ ys)" using u(4) by (simp add: map_step_def)
  have "length ys < walk_fuel m u" using fuel_enough [OF iu] by simp
  from protect_check_correct [OF iu this] obtain kr where
    kr: "protect_check (walk_fuel m u) m e p (hd (ys @ [Hdr m])) u = Some kr"
      "kr \<in> {KERN_SUCCESS, KERN_INVALID_ARGUMENT, KERN_PROTECTION_FAILURE}"
      "kr = KERN_SUCCESS \<longleftrightarrow> (\<forall>y\<in>set ys. vstart (ent u y) < e \<longrightarrow> prot_allowed p (ent u y))" by blast
  have all: "kr = KERN_SUCCESS \<longleftrightarrow> (\<forall>a v. start \<le> a \<and> a < fin \<and> mview s es a = Some v \<longrightarrow> prot_allowed p v)"
    unfolding kr(3) range_all [OF iu u(7,8), of "prot_allowed p" e, OF prot_allowed_view] u(5)
    by (rule range_all_given [OF assms(1) u(2)])
  show ?thesis
  proof (cases "kr = KERN_SUCCESS")
    case False
    then have "vm_map_protect m start fin p set_max s = Inr (Some (kr, u))" using u(1,3) kr(1) by (simp add: vm_map_protect_def Let_def)
    then show ?thesis using kr(2) all False u(4,5) by (intro exI [of _ kr] exI [of _ u] exI [of _ "xs @ ys"]) auto
  next
    case True
    have ok: "share_ok m u (xs @ ys) (ent u y)" if "y \<in> set ys" for y
    proof -
      note y = that
      obtain as bs where ab: "ys = as @ y # bs" using y by (meson split_list)
      then have ord: "ordered (ent u) (vm_map_min m u) ((xs @ as) @ y # bs) (vm_map_max m u)" using iu by (simp add: map_inv_def)
      have "mview u (xs @ ys) (vstart (ent u y)) = Some (view (ent u y) (vstart (ent u y)))"
        using view_in_split [OF ord, of "vstart (ent u y)"] ordered_split(2) [OF ord] ab by (simp add: mview_def)
      then have "share_ok m s es (view (ent u y) (vstart (ent u y)))" using assms(4) u(5) by (metis ranI)
      then have "share_ok m u (xs @ ys) (view (ent u y) (vstart (ent u y)))" using share_ok_step u(4) by blast
      then show ?thesis by (simp add: share_ok_def view_def)
    qed
    from protect_range.walk_range [where fin = e and p = p and set_max = set_max and entry = "hd (ys @ [Hdr m])", OF u(4-8) ok] obtain t es' where
      t: "protect_walk (walk_fuel m u) m e p set_max (hd (ys @ [Hdr m])) (hd (ys @ [Hdr m])) u = Inr (Some t)" "map_step m s es t es'"
        "\<forall>a. if b \<le> a \<and> a < e then rel_option (\<lambda>v w. w = prot_change p set_max v) (mview s es a) (mview t es' a)
           else mview t es' a = mview s es a" by auto
    have "vm_map_protect m start fin p set_max s = Inr (Some (KERN_SUCCESS, t))"
      using True u(1,3) kr(1) t(1) by (simp add: vm_map_protect_def Let_def)
    moreover have "mview t es' a = (if start \<le> a \<and> a < fin then map_option (prot_change p set_max) (mview s es a) else mview s es a)" for a
      using range_widen [OF assms(1) u(2) t(2,3), of a] by (cases "mview s es a"; cases "mview t es' a") (auto split: if_splits)
    ultimately show ?thesis using True t(2) all by (intro exI [of _ KERN_SUCCESS] exI [of _ t] exI [of _ es']) simp
  qed
qed

text \<open>C18:
  \<^verbatim>\<open>vm_map_protect\<close> always returns (given two spare entry structures and intact sharing maps).  It
  succeeds exactly when no mapped address of the range belongs to a submap or has a maximum
  protection that excludes part of the new protection.  Then the protection (and, with
  \<^verbatim>\<open>set_max\<close>, the maximum) changes at exactly the mapped addresses of the range, and
  everything else, here and in all other maps, stays.  When it fails, what the map shows does not
  change at all, although an entry may have been clipped.
\<close>

theorem vm_map_protect_range:
  assumes "map_inv s m es" and "entries_free s es" and "2 \<le> avail m s"
    and "\<forall>v\<in>ran (mview s es). share_ok m s es v"
  shows "\<exists>kr t es'. vm_map_protect m start fin p set_max s = Inr (Some (kr, t)) \<and> map_step m s es t es' \<and>
    kr \<in> {KERN_SUCCESS, KERN_INVALID_ARGUMENT, KERN_PROTECTION_FAILURE} \<and>
    (kr = KERN_SUCCESS \<longleftrightarrow> (\<forall>a v. start \<le> a \<and> a < fin \<and> mview s es a = Some v \<longrightarrow> prot_allowed p v)) \<and>
    (\<forall>a. mview t es' a = (if kr = KERN_SUCCESS \<and> start \<le> a \<and> a < fin
       then map_option (prot_change p set_max) (mview s es a) else mview s es a))"
  using assms by (rule protect_correct)

theorem vm_map_protect_range_witness:
  "\<exists>kr t es'. vm_map_protect 1 0x3000 0x7000 VM_PROT_READ False demo_maps = Inr (Some (kr, t)) \<and>
     map_step 1 demo_maps [Ent 11, Ent 12] t es' \<and> kr \<in> {KERN_SUCCESS, KERN_INVALID_ARGUMENT, KERN_PROTECTION_FAILURE}"
proof -
  have "\<forall>v\<in>ran (mview demo_maps [Ent 11, Ent 12]). share_ok 1 demo_maps [Ent 11, Ent 12] v" using demo_ran by (simp add: share_ok_def)
  from vm_map_protect_range [OF demo_maps_ok(1-3) this, of "0x3000" "0x7000" VM_PROT_READ False] show ?thesis by blast
qed

subsection \<open>Wiring\<close>

text \<open>Unwiring counts down, and physical pages are released when the count reaches zero.\<close>

definition unwire_body :: "ptr \<Rightarrow> eptr \<Rightarrow> 'a vm_maps_scheme \<Rightarrow> 'a vm_maps_scheme" where
  "unwire_body m e s =
    (let t = upd_ent e (\<lambda>v. v\<lparr>wired_count := wired_count v - 1\<rparr>) s
     in if wired_count (ent t e) = 0 then fault_do (FaultUnwire m e) t else t)"

interpretation unwire_range: range_walk m fin "\<lambda>n e s. unwire_walk n m fin e s"
    "\<lambda>e s. Inr (Some (unwire_body m e s))" "\<lambda>v w. w = v\<lparr>wired_count := wired_count v - 1\<rparr>" "\<lambda>_ _ _ _. True"
  for m fin
proof (unfold_locales, goal_cases)
  case (6 s es e k)
  let ?t = "upd_ent e (\<lambda>v. v\<lparr>wired_count := wired_count v - 1\<rparr>) s"
  have t: "map_step m s es ?t es" "avail m ?t = avail m s" "ent ?t = (ent s)(e := (ent s e)\<lparr>wired_count := wired_count (ent s e) - 1\<rparr>)"
    using upd_ent_step [OF 6(1-3), of "\<lambda>v. v\<lparr>wired_count := wired_count v - 1\<rparr>"] by simp_all
  have same: "maps_same ?t (unwire_body m e s)" by (simp add: unwire_body_def Let_def fault_do_same maps_same_refl)
  have it: "map_inv ?t m es" "entries_free ?t es" using t(1) by (auto simp: map_step_def)
  show ?case
    using map_step_trans [OF t(1) maps_same_step [OF same it]] t(2,3) maps_sameD(1,12) [OF same] by simp
qed (simp_all add: unwire_body_def view_def Let_def)

lemma wired_view: "(wired_count (view v a) \<noteq> 0) = (wired_count v \<noteq> 0)"
  by (simp add: view_def)

lemma unwire_check_correct:
  assumes "map_inv u m (xs @ ys)" and "length ys < n"
  shows "unwire_check n m fin (hd (ys @ [Hdr m])) u =
    Some (if \<forall>y\<in>set ys. vstart (ent u y) < fin \<longrightarrow> wired_count (ent u y) \<noteq> 0 then KERN_SUCCESS else KERN_INVALID_ARGUMENT)"
  using assms
proof (induction ys arbitrary: xs n)
  case Nil
  then show ?case by (cases n) auto
next
  case (Cons y ys)
  obtain k where n: "n = Suc k" "length ys < k" using Cons.prems(2) by (cases n) auto
  have rg: "ring u m (xs @ y # ys)" and ord: "ordered (ent u) (vm_map_min m u) (xs @ y # ys) (vm_map_max m u)"
    using Cons.prems(1) by (auto simp: map_inv_def)
  have "unwire_check n m fin y u = (if vstart (ent u y) < fin
      then if wired_count (ent u y) = 0 then Some KERN_INVALID_ARGUMENT else unwire_check k m fin (hd (ys @ [Hdr m])) u
      else Some KERN_SUCCESS)"
    using n(1) ring_next(1,3) [OF rg] by simp
  moreover have "\<not> vstart (ent u z) < fin" if "\<not> vstart (ent u y) < fin" "z \<in> set ys" for z
    using ordered_before(2) [OF ord that(2)] ordered_split(2) [OF ord] that(1) by (meson less_trans not_less order.strict_trans1)
  ultimately show ?case using Cons.IH [of "xs @ [y]" k] Cons.prems(1) n(2) by auto
qed

text \<open>
  Wiring counts up; an entry that was not wired gets the shadow or the zero-fill object it needs
  at the first fault, which takes one object structure.
\<close>

definition wire_rel :: "vm_map_entry \<Rightarrow> vm_map_entry \<Rightarrow> bool" where
  "wire_rel v w \<longleftrightarrow> w\<lparr>vobject := 0, voffset := 0, needs_copy := False\<rparr> =
       v\<lparr>vobject := 0, voffset := 0, needs_copy := False, wired_count := wired_count v + 1\<rparr> \<and>
     (wired_count v \<noteq> 0 \<or> is_a_map v \<longrightarrow> vobject w = vobject v \<and> voffset w = voffset v \<and> needs_copy w = needs_copy v) \<and>
     (wired_count v = 0 \<and> \<not> is_a_map v \<longrightarrow> \<not> (needs_copy w \<and> protection w AND VM_PROT_WRITE \<noteq> 0) \<and> vobject w \<noteq> 0)"

definition wire_body :: "eptr \<Rightarrow> 'a vm_maps_scheme \<Rightarrow> 'a vm_maps_scheme option kresult" where
  "wire_body e s =
    (let t = upd_ent e (\<lambda>v. v\<lparr>wired_count := wired_count v + 1\<rparr>) s
     in kbind (if wired_count (ent t e) = 1 \<and> \<not> is_a_map (ent t e) then wire_object e t else Inr t) (\<lambda>t. Inr (Some t)))"

lemma allocate_maps_same:
  assumes "object_zone s = r # rest" and "r \<noteq> 0"
  shows "\<exists>t. vm_object_allocate len s = Inr (r, t) \<and> maps_same s t \<and> object_zone t = rest"
    "\<exists>t. vm_object_shadow q off len s = Inr (r, 0, t) \<and> maps_same s t \<and> object_zone t = rest"
  using assms by (simp_all add: vm_object_allocate_def vm_object_shadow_def vm_object_allocate_at_def Let_def upd_obj_def maps_same_def)

definition objs_left :: "nat \<Rightarrow> 'a vm_maps_scheme \<Rightarrow> bool" where
  "objs_left k s \<longleftrightarrow> k \<le> length (object_zone s) \<and> 0 \<notin> set (object_zone s)"

lemma wire_object_step:
  assumes inv: "map_inv s m es" and free: "entries_free s es" and e: "e \<in> set es" and k: "objs_left (Suc k) s"
  shows "\<exists>t. wire_object e s = Inr t \<and> map_step m s es t es \<and> avail m t = avail m s \<and> objs_left k t \<and>
    (\<exists>q off nc. ent t = (ent s)(e := (ent s e)\<lparr>vobject := q, voffset := off, needs_copy := nc\<rparr>) \<and>
       \<not> (nc \<and> protection (ent s e) AND VM_PROT_WRITE \<noteq> 0) \<and> q \<noteq> 0)"
proof -
  obtain r rest where z: "object_zone s = r # rest" "r \<noteq> 0" "k \<le> length rest" "0 \<notin> set rest"
    using k by (cases "object_zone s") (auto simp: objs_left_def)
  let ?len = "vend (ent s e) - vstart (ent s e)"
  have fin: "map_step m s es (upd_ent e f t) es" "avail m (upd_ent e f t) = avail m s" "objs_left k (upd_ent e f t)"
      "ent (upd_ent e f t) = (ent s)(e := f (ent s e))"
    if same: "maps_same s t" "object_zone t = rest"
      and f: "vstart (f (ent s e)) = vstart (ent s e)" "vend (f (ent s e)) = vend (ent s e)" for t f
  proof -
    note D = maps_sameD [OF same(1)]
    have it: "map_inv t m es" "entries_free t es" using inv free maps_same_inv [OF same(1)] by simp_all
    note U = upd_ent_step [OF it e, of f]
    show "map_step m s es (upd_ent e f t) es"
      using map_step_trans [OF maps_same_step [OF same(1) inv free]] U(1) f by (simp add: D(1))
    show "avail m (upd_ent e f t) = avail m s" "ent (upd_ent e f t) = (ent s)(e := f (ent s e))"
      using U(2,3) f by (simp_all add: D(1,12))
    show "objs_left k (upd_ent e f t)" using same(2) z by (simp add: objs_left_def upd_ent_def)
  qed
  consider (shadow) "needs_copy (ent s e)" "protection (ent s e) AND VM_PROT_WRITE \<noteq> 0"
    | (zero) "\<not> (needs_copy (ent s e) \<and> protection (ent s e) AND VM_PROT_WRITE \<noteq> 0)" "vobject (ent s e) = 0"
    | (none) "\<not> (needs_copy (ent s e) \<and> protection (ent s e) AND VM_PROT_WRITE \<noteq> 0)" "vobject (ent s e) \<noteq> 0" by blast
  then show ?thesis
  proof cases
    case shadow
    obtain t where t: "vm_object_shadow (vobject (ent s e)) (voffset (ent s e)) ?len s = Inr (r, 0, t)" "maps_same s t" "object_zone t = rest"
      using allocate_maps_same(2) [OF z(1,2)] by blast
    note F = fin [OF t(2,3), of "\<lambda>v. v\<lparr>vobject := r, voffset := 0, needs_copy := False\<rparr>"]
    have w: "wire_object e s = Inr (upd_ent e (\<lambda>v. v\<lparr>vobject := r, voffset := 0, needs_copy := False\<rparr>) t)"
      using shadow t(1) by (simp add: wire_object_def)
    then show ?thesis using F z(2)
      by (intro exI [of _ "upd_ent e (\<lambda>v. v\<lparr>vobject := r, voffset := 0, needs_copy := False\<rparr>) t"] conjI exI [of _ r]
            exI [of _ 0] exI [of _ False]) simp_all
  next
    case zero
    obtain t where t: "vm_object_allocate ?len s = Inr (r, t)" "maps_same s t" "object_zone t = rest"
      using allocate_maps_same(1) [OF z(1,2)] by blast
    note F = fin [OF t(2,3), of "\<lambda>v. v\<lparr>vobject := r, voffset := 0\<rparr>"]
    have w: "wire_object e s = Inr (upd_ent e (\<lambda>v. v\<lparr>vobject := r, voffset := 0\<rparr>) t)"
      using zero t(1) unfolding wire_object_def by auto
    then show ?thesis using F zero(1) z(2)
      by (intro exI [of _ "upd_ent e (\<lambda>v. v\<lparr>vobject := r, voffset := 0\<rparr>) t"] conjI exI [of _ r]
            exI [of _ 0] exI [of _ "needs_copy (ent s e)"]) simp_all
  next
    case none
    have "objs_left k s" using z by (auto simp: objs_left_def)
    moreover have "wire_object e s = Inr s" using none unfolding wire_object_def by auto
    ultimately show ?thesis using none map_step_refl [OF inv free]
      by (intro exI [of _ s] conjI exI [of _ "vobject (ent s e)"] exI [of _ "voffset (ent s e)"] exI [of _ "needs_copy (ent s e)"]) simp_all
  qed
qed

lemma rbind_kbind_Some: "rbind (kbind r (\<lambda>t. Inr (Some t))) f = kbind r f"
  by (cases r) simp_all

interpretation wire_range: range_walk m fin "\<lambda>n e s. wire_walk n m fin e s"
    wire_body wire_rel "\<lambda>s k _ _. objs_left k s"
  for m fin
proof (unfold_locales, goal_cases)
  case (1 n e s)
  show ?case by (simp add: wire_body_def Let_def rbind_kbind_Some)
next
  case (2 v w)
  then show ?case by (cases v; cases w) (simp add: wire_rel_def)
next
  case (3 v w a)
  then show ?case by (cases v; cases w) (auto simp: wire_rel_def view_def)
next
  case (5 s k es v t es')
  then show ?case by (simp add: objs_left_def)
next
  case (6 s es e k)
  let ?t = "upd_ent e (\<lambda>v. v\<lparr>wired_count := wired_count v + 1\<rparr>) s"
  have t: "map_step m s es ?t es" "avail m ?t = avail m s" "ent ?t = (ent s)(e := (ent s e)\<lparr>wired_count := wired_count (ent s e) + 1\<rparr>)"
    using upd_ent_step [OF 6(1-3), of "\<lambda>v. v\<lparr>wired_count := wired_count v + 1\<rparr>"] by simp_all
  have it: "map_inv ?t m es" "entries_free ?t es" "objs_left (Suc k) ?t"
    using t(1) 6(4) by (auto simp: map_step_def objs_left_def upd_ent_def)
  show ?case
  proof (cases "wired_count (ent s e) = 0 \<and> \<not> is_a_map (ent s e)")
    case True
    obtain u q off nc where u: "wire_object e ?t = Inr u" "map_step m ?t es u es" "avail m u = avail m ?t" "objs_left k u"
        "ent u = (ent ?t)(e := (ent ?t e)\<lparr>vobject := q, voffset := off, needs_copy := nc\<rparr>)"
        "\<not> (nc \<and> protection (ent ?t e) AND VM_PROT_WRITE \<noteq> 0)" "q \<noteq> 0"
      using wire_object_step [OF it(1,2) 6(3) it(3)] by blast
    have "wire_body e s = Inr (Some u)" using True u(1) t(3) by (simp add: wire_body_def Let_def)
    moreover have "wire_rel (ent s e) (ent u e)" using u(5-7) t(3) True by (auto simp: wire_rel_def)
    ultimately show ?thesis using map_step_trans [OF t(1) u(2)] u(3-5) t(2,3) by auto
  next
    case False
    then have "wire_body e s = Inr (Some ?t)" using t(3) by (auto simp: wire_body_def Let_def)
    moreover have "wire_rel (ent s e) (ent ?t e)" using t(3) False by (auto simp: wire_rel_def)
    moreover have "objs_left k ?t" using it(3) by (simp add: objs_left_def)
    ultimately show ?thesis using t by auto
  qed
qed simp

lemma fault_walk_ends:
  assumes "ring s m (xs @ ys)" and "length ys < n"
  shows "\<exists>t. wire_fault_walk n m fin (hd (ys @ [Hdr m])) s = Some t \<and> maps_same s t"
  using assms
proof (induction ys arbitrary: xs s n)
  case Nil
  then show ?case by (cases n) (auto simp: maps_same_refl)
next
  case (Cons y ys)
  obtain j where n: "n = Suc j" "length ys < j" using Cons.prems(2) by (cases n) auto
  define t where "t = (if wired_count (ent s y) = 1 then fault_do (FaultWire m y) s else s)"
  have same: "maps_same s t" by (simp add: t_def fault_do_same maps_same_refl)
  have "ring t m ((xs @ [y]) @ ys)" using Cons.prems(1) ring_cong [of m "xs @ y # ys" t s] maps_sameD [OF same] by simp
  from Cons.IH [OF this n(2)] obtain v where v: "wire_fault_walk j m fin (hd (ys @ [Hdr m])) t = Some v" "maps_same t v" by blast
  have "vnext t y = hd (ys @ [Hdr m])" using ring_next(1) [OF Cons.prems(1)] maps_sameD(2) [OF same] by simp
  then have "wire_fault_walk n m fin y s = (if y \<noteq> Hdr m \<and> vstart (ent s y) < fin then Some v else Some s)"
    using v(1) n(1) by (simp add: t_def [symmetric] Let_def)
  then show ?case using maps_same_trans [OF same v(2)] maps_same_refl by auto
qed



end
