(* ===== verification/VmMapQuery.thy ===== *)
theory VmMapQuery
  imports VmMapRange
begin

text \<open>
  The operations that only ask: \<^verbatim>\<open>vm_map_lookup_entry\<close> against the search without a hint,
  \<^verbatim>\<open>vm_map_check_protection\<close> against its meaning for every address of the range, and \<^verbatim>\<open>vm_region\<close>.
\<close>

subsection \<open>Lookup\<close>

lemma map_stepD:
  assumes "map_step m s es t es'"
  shows "map_inv t m es'" "entries_free t es'" "ring t m es'" "ordered (ent t) (vm_map_min m t) es' (vm_map_max m t)"
    "vm_map_min m t = vm_map_min m s" "vm_map_max m t = vm_map_max m s" "is_main_map (vmap t m) = is_main_map (vmap s m)"
  using assms unfolding map_step_def map_inv_def by blast+

lemma lookup_entry_step:
  assumes "map_inv s m es" and "entries_free s es"
  shows "\<exists>t. vm_map_lookup_entry m a s = Inr (Some (lookup_ref (ent s) (Hdr m) es a, t)) \<and> map_step m s es t es \<and>
    mview t es = mview s es \<and> ent t = ent s \<and> vnext t = vnext s \<and> vprev t = vprev s \<and> avail m t = avail m s"
proof -
  obtain h where h: "vm_map_lookup_entry m a s = Inr (Some (lookup_ref (ent s) (Hdr m) es a, SAVE_HINT m h s))"
      "h \<in> insert (Hdr m) (set es)" using lookup_entry_ref [OF assms(1), of a] by blast
  show ?thesis using h(1) save_hint_step [OF assms h(2)] by (intro exI [of _ "SAVE_HINT m h s"]) simp
qed

text \<open>C21:
  \<^verbatim>\<open>vm_map_lookup_entry\<close> always returns, and whatever the hint is it answers what a search from
  the first entry answers: the entry containing the address, or else the last entry below it
  (the header when there is none).  It answers that the address is mapped exactly when the map
  shows something there, and nothing but the hint changes.
\<close>

theorem vm_map_lookup_entry_correct:
  assumes "map_inv s m es" and "entries_free s es"
  shows "\<exists>found e t. vm_map_lookup_entry m a s = Inr (Some ((found, e), t)) \<and>
    (found, e) = lookup_ref (ent s) (Hdr m) es a \<and> map_step m s es t es \<and> mview t es = mview s es \<and>
    (found \<longleftrightarrow> mview s es a \<noteq> None) \<and> (found \<longrightarrow> e \<in> set es \<and> covers (ent s e) a) \<and>
    (\<not> found \<longrightarrow> (\<exists>xs ys. es = xs @ ys \<and> e = last (Hdr m # xs) \<and> (\<forall>x\<in>set xs. vend (ent s x) \<le> a) \<and>
       (\<forall>y\<in>set ys. a < vstart (ent s y))))"
proof -
  obtain t where t: "vm_map_lookup_entry m a s = Inr (Some (lookup_ref (ent s) (Hdr m) es a, t))" "map_step m s es t es"
      "mview t es = mview s es" using lookup_entry_step [OF assms] by blast
  obtain b e where be: "lookup_ref (ent s) (Hdr m) es a = (b, e)" by (cases "lookup_ref (ent s) (Hdr m) es a")
  have ord: "ordered (ent s) (vm_map_min m s) es (vm_map_max m s)" using assms by (simp add: map_inv_def)
  have "(b \<longleftrightarrow> mview s es a \<noteq> None) \<and> (b \<longrightarrow> e \<in> set es \<and> covers (ent s e) a) \<and>
    (\<not> b \<longrightarrow> (\<exists>xs ys. es = xs @ ys \<and> e = last (Hdr m # xs) \<and> (\<forall>x\<in>set xs. vend (ent s x) \<le> a) \<and>
       (\<forall>y\<in>set ys. a < vstart (ent s y))))"
  proof (cases b)
    case True
    then have "e \<in> set es" "covers (ent s e) a" using lookup_ref_found [OF ord, of "Hdr m" a e] be by auto
    moreover from this have "mview s es a \<noteq> None" unfolding mview_def view_in_None by blast
    ultimately show ?thesis using True by simp
  next
    case False
    then obtain xs ys where xy: "es = xs @ ys" "e = last (Hdr m # xs)" "\<forall>x\<in>set xs. vend (ent s x) \<le> a"
        "\<forall>y\<in>set ys. a < vstart (ent s y)" using lookup_ref_missed [OF ord, of "Hdr m" a e] be by auto
    then have "mview s es a = None" unfolding mview_def view_in_None covers_def by (auto dest: leD)
    then show ?thesis using False xy by blast
  qed
  then show ?thesis using t be by (intro exI [of _ b] exI [of _ e] exI [of _ t]) simp
qed

theorem vm_map_lookup_entry_correct_witness:
  "\<exists>t. vm_map_lookup_entry 1 0x7000 demo_maps = Inr (Some ((True, Ent 12), t)) \<and> map_step 1 demo_maps [Ent 11, Ent 12] t [Ent 11, Ent 12]"
proof -
  have "lookup_ref (ent demo_maps) (Hdr 1) [Ent 11, Ent 12] 0x7000 = (True, Ent 12)"
    by (simp add: lookup_ref_def ents_above_def demo_fields demo_entry_def)
  then show ?thesis using vm_map_lookup_entry_correct [OF demo_maps_ok(1,2), of "0x7000"] by auto
qed

subsection \<open>Protection of a range\<close>

definition grants :: "vm_prot \<Rightarrow> vm_map_entry option \<Rightarrow> bool" where
  "grants p x \<longleftrightarrow> (\<exists>v. x = Some v \<and> protection v AND p = p)"

lemma check_walk_correct:
  assumes "ring s m (xs @ zs)" and "ordered (ent s) lo zs hi" and "length zs < n"
    and "zs \<noteq> [] \<Longrightarrow> start < vend (ent s (hd zs))"
  shows "check_walk n m start fin p (hd (zs @ [Hdr m])) s = Some (\<forall>a. start \<le> a \<and> a < fin \<longrightarrow> grants p (view_in (ent s) zs a))"
  using assms
proof (induction zs arbitrary: xs n start lo)
  case Nil
  then obtain k where "n = Suc k" by (cases n) auto
  then show ?case by (auto simp: grants_def)
next
  case (Cons e zs)
  obtain k where n: "n = Suc k" "length zs < k" using Cons.prems(3) by (cases n) auto
  note N = ring_next(1,3) [OF Cons.prems(1)]
  have ez: "vstart (ent s e) < vend (ent s e)" "ordered (ent s) (vend (ent s e)) zs hi" using Cons.prems(2) by auto
  have lt: "start < vend (ent s e)" using Cons.prems(4) by simp
  let ?all = "\<lambda>start zs. \<forall>a. start \<le> a \<and> a < fin \<longrightarrow> grants p (view_in (ent s) zs a)"
  have later: "vend (ent s e) \<le> vstart (ent s z)" if "z \<in> set zs" for z using ordered_bounds [OF ez(2)] that by blast
  have above: "view_in (ent s) zs a = None" if "a < vend (ent s e)" for a
    unfolding view_in_None covers_def using later that by (meson leD le_less_trans less_le_trans)
  have "check_walk k m (vend (ent s e)) fin p (hd (zs @ [Hdr m])) s = Some (?all (vend (ent s e)) zs)"
  proof (rule Cons.IH [of "xs @ [e]"])
    show "vend (ent s e) < vend (ent s (hd zs))" if "zs \<noteq> []" using that ez(2) by (cases zs) auto
  qed (use Cons.prems(1) ez(2) n(2) in simp_all)
  then have step: "check_walk n m start fin p e s =
    (if start < fin then if start < vstart (ent s e) then Some False else if protection (ent s e) AND p \<noteq> p then Some False
       else Some (?all (vend (ent s e)) zs) else Some True)"
    using n(1) N by simp
  show ?case
  proof (cases "start < fin \<and> \<not> start < vstart (ent s e)")
    case False
    have "\<not> grants p (view_in (ent s) (e # zs) start)" if "start < vstart (ent s e)"
      using that above [OF lt] by (auto simp: covers_def grants_def dest: leD)
    then show ?thesis using step False by auto
  next
    case True
    then have cov: "covers (ent s e) start" using lt by (simp add: covers_def not_less)
    show ?thesis
    proof (cases "protection (ent s e) AND p = p")
      case False
      then have "\<not> grants p (view_in (ent s) (e # zs) start)" using cov by (simp add: grants_def view_def)
      then show ?thesis using step True False by auto
    next
      case ok: True
      have inside: "grants p (view_in (ent s) (e # zs) a)" if "start \<le> a" "a < vend (ent s e)" for a
      proof -
        have "covers (ent s e) a" using that True by (auto simp: covers_def not_less intro: order.trans)
        then show ?thesis using ok by (simp add: grants_def view_def)
      qed
      have beyond: "view_in (ent s) (e # zs) a = view_in (ent s) zs a" if "vend (ent s e) \<le> a" for a
        using that by (simp add: covers_def leD)
      have "grants p (view_in (ent s) (e # zs) a) \<longleftrightarrow> (vend (ent s e) \<le> a \<longrightarrow> grants p (view_in (ent s) zs a))" if "start \<le> a" for a
        using inside [OF that] beyond [of a] linorder_not_less [of a "vend (ent s e)"] by metis
      moreover have "start \<le> a" if "vend (ent s e) \<le> a" for a using lt that by simp
      ultimately have "?all start (e # zs) \<longleftrightarrow> ?all (vend (ent s e)) zs" by (simp del: view_in.simps) blast
      then show ?thesis using step True ok by simp
    qed
  qed
qed

text \<open>\<^verbatim>\<open>vm_map_check_protection\<close> always returns, and it says yes exactly when the first address is
  mapped and every address of the range is mapped with a protection that includes the one asked
  for; holes are refused and nothing the map shows changes.
\<close>

lemma vm_map_check_protection_correct:
  assumes "map_inv s m es" and "entries_free s es"
  shows "\<exists>ok t. vm_map_check_protection m start fin p s = Inr (Some (ok, t)) \<and> map_step m s es t es \<and>
    mview t es = mview s es \<and>
    (ok \<longleftrightarrow> mview s es start \<noteq> None \<and> (\<forall>a. start \<le> a \<and> a < fin \<longrightarrow> grants p (mview s es a)))"
proof -
  obtain t where t: "vm_map_lookup_entry m start s = Inr (Some (lookup_ref (ent s) (Hdr m) es start, t))" "map_step m s es t es"
      "mview t es = mview s es" "ent t = ent s" "vnext t = vnext s" "vprev t = vprev s"
    using lookup_entry_step [OF assms] by blast
  obtain b e where be: "lookup_ref (ent s) (Hdr m) es start = (b, e)" by (cases "lookup_ref (ent s) (Hdr m) es start")
  have ord: "ordered (ent s) (vm_map_min m s) es (vm_map_max m s)" using assms by (simp add: map_inv_def)
  show ?thesis
  proof (cases b)
    case False
    then obtain xs ys where "es = xs @ ys" "\<forall>x\<in>set xs. vend (ent s x) \<le> start" "\<forall>y\<in>set ys. start < vstart (ent s y)"
      using lookup_ref_missed [OF ord, of "Hdr m" start e] be by auto
    then have "mview s es start = None" unfolding mview_def view_in_None covers_def by (auto dest: leD)
    then show ?thesis using False t be by (intro exI [of _ False] exI [of _ t]) (simp add: vm_map_check_protection_def)
  next
    case True
    then obtain xs ys where xy: "es = xs @ e # ys" "covers (ent s e) start" using lookup_ref_found [OF ord, of "Hdr m" start e] be by auto
    have it: "map_inv t m es" using t(2) by (simp add: map_step_def)
    note O = ordered_split [OF ord [unfolded xy(1)]]
    have "check_walk (walk_fuel m t) m start fin p (hd ((e # ys) @ [Hdr m])) t =
        Some (\<forall>a. start \<le> a \<and> a < fin \<longrightarrow> grants p (view_in (ent t) (e # ys) a))"
      by (rule check_walk_correct [of t m xs "e # ys" "vstart (ent s e)" "vm_map_max m s"])
         (use it xy O t(4) fuel_enough [OF it] in \<open>simp_all add: map_inv_def covers_def\<close>)
    moreover have "view_in (ent s) es a = view_in (ent s) (e # ys) a" if "start \<le> a" for a
    proof -
      have "\<not> covers (ent s x) a" if "x \<in> set xs" for x
        using ordered_before(1) [OF ord [unfolded xy(1)] that] xy(2) \<open>start \<le> a\<close> unfolding covers_def by (meson leD le_less_trans order.trans)
      then have "view_in (ent s) xs a = None" by (simp add: view_in_None)
      then show ?thesis by (simp add: xy(1) view_in_append)
    qed
    moreover have "mview s es start \<noteq> None" using xy unfolding mview_def view_in_None by auto
    ultimately show ?thesis using True t be
      by (intro exI [of _ "\<forall>a. start \<le> a \<and> a < fin \<longrightarrow> grants p (mview s es a)"] exI [of _ t])
         (auto simp: vm_map_check_protection_def mview_def)
  qed
qed

subsection \<open>Regions\<close>

definition describes :: "(ptr \<Rightarrow> ptr) \<Rightarrow> region \<Rightarrow> u32 \<Rightarrow> vm_map_entry \<Rightarrow> bool" where
  "describes object_name r b v \<longleftrightarrow>
     protection v = r_protection r \<and> max_protection v = r_max_protection r \<and> inheritance v = r_inheritance r \<and>
     voffset v = r_offset r + (b - r_address r) \<and> \<not> r_is_shared r \<and>
     r_object_name r = (if is_sub_map v then 0 else object_name (vobject v))"

text \<open>\<^verbatim>\<open>vm_region\<close> on a map without sharing maps always returns.  It reports that there is no region
  exactly when nothing is mapped at or above the address; otherwise it describes the first mapped
  stretch that ends above the address: nothing is mapped between the address and its start, and
  every address of the stretch is mapped with the reported protection, maximum, inheritance, object
  and offset.  The null map is an invalid argument.
\<close>

lemma vm_region_correct:
  assumes "map_inv s m es" and "entries_free s es" and "m \<noteq> 0" and "\<forall>v\<in>ran (mview s es). \<not> is_a_map v"
  shows "\<exists>res t. vm_region object_name m a s = Inr (Some (res, t)) \<and> map_step m s es t es \<and> mview t es = mview s es \<and>
    (case res of
       Inl kr \<Rightarrow> kr = KERN_NO_SPACE \<and> (\<forall>b. a \<le> b \<longrightarrow> mview s es b = None)
     | Inr r \<Rightarrow> 0 < r_size r \<and> a < r_address r + r_size r \<and> (\<forall>b. a \<le> b \<and> b < r_address r \<longrightarrow> mview s es b = None) \<and>
         (\<forall>b. r_address r \<le> b \<and> b < r_address r + r_size r \<longrightarrow>
            (\<exists>v. mview s es b = Some v \<and> describes object_name r b v))) \<and>
    vm_region object_name 0 a s = Inr (Some (Inl KERN_INVALID_ARGUMENT, s))"
proof -
  obtain t where t: "vm_map_lookup_entry m a s = Inr (Some (lookup_ref (ent s) (Hdr m) es a, t))" "map_step m s es t es"
      "mview t es = mview s es" "ent t = ent s" "vnext t = vnext s" using lookup_entry_step [OF assms(1,2)] by blast
  obtain f p where be: "lookup_ref (ent s) (Hdr m) es a = (f, p)" by (cases "lookup_ref (ent s) (Hdr m) es a")
  have ord: "ordered (ent s) (vm_map_min m s) es (vm_map_max m s)" and rg: "ring s m es" using assms by (simp_all add: map_inv_def)
  have null: "vm_region object_name 0 a s = Inr (Some (Inl KERN_INVALID_ARGUMENT, s))" by (simp add: vm_region_def)
  obtain xs ys where xy: "es = xs @ ys" "\<forall>x\<in>set xs. vend (ent s x) \<le> a" "(if f then p else vnext s p) = hd (ys @ [Hdr m])"
      "f \<longrightarrow> ys \<noteq> []" "ys \<noteq> [] \<longrightarrow> a < vend (ent s (hd ys))"
  proof (cases f)
    case True
    then obtain xs zs where z: "es = xs @ p # zs" "covers (ent s p) a" using lookup_ref_found [OF ord, of "Hdr m" a p] be by auto
    then have "\<forall>x\<in>set xs. vend (ent s x) \<le> a"
      using ordered_before(1) [of "ent s" _ xs p zs] ord unfolding covers_def by (metis order.trans)
    then show ?thesis using that [of xs "p # zs"] z True by (simp add: covers_def)
  next
    case False
    then obtain xs zs where z: "es = xs @ zs" "p = last (Hdr m # xs)" "\<forall>x\<in>set xs. vend (ent s x) \<le> a"
        "\<forall>y\<in>set zs. a < vstart (ent s y)" using lookup_ref_missed [OF ord, of "Hdr m" a p] be by auto
    have "vnext s p = hd (zs @ [Hdr m])"
    proof (cases zs)
      case Nil
      then show ?thesis using rg z nseg_last [of "vnext s" "Hdr m" xs "Hdr m"] by (simp add: ring_def)
    next
      case (Cons y ws)
      then show ?thesis using ring_next(4) [of s m xs y ws] rg z by simp
    qed
    moreover have "a < vend (ent s (hd zs))" if "zs \<noteq> []"
    proof -
      have "hd zs \<in> set es" "a < vstart (ent s (hd zs))" using that z by auto
      then show ?thesis using ordered_bounds [OF ord] by (meson less_trans)
    qed
    ultimately show ?thesis using that [of xs zs] z False by simp
  qed
  have xs: "view_in (ent s) xs b = None" if "a \<le> b" for b
    using xy(2) that unfolding view_in_None covers_def by (meson leD le_less_trans order.trans)
  show ?thesis
  proof (cases ys)
    case Nil
    then have "\<not> f" "vnext s p = Hdr m" using xy(3,4) by auto
    then have "vm_region object_name m a s = Inr (Some (Inl KERN_NO_SPACE, t))" using assms(3) t be by (simp add: vm_region_def)
    moreover have "mview s es b = None" if "a \<le> b" for b using xs [OF that] Nil xy(1) by (simp add: mview_def)
    ultimately show ?thesis using t(2,3) null by (intro exI [of _ "Inl KERN_NO_SPACE"] exI [of _ t]) simp
  next
    case (Cons e zs)
    have es: "es = xs @ e # zs" using xy(1) Cons by simp
    note O = ordered_split [OF ord [unfolded es]]
    have eh: "e \<noteq> Hdr m" using ring_next(3) [OF rg [unfolded es]] .
    have vs: "mview s es b = (if b < vstart (ent s e) then view_in (ent s) xs b else if b < vend (ent s e) then Some (view (ent s e) b)
        else view_in (ent s) zs b)" for b using view_in_split [OF ord [unfolded es]] by (simp add: mview_def es)
    have "mview s es (vstart (ent s e)) = Some (view (ent s e) (vstart (ent s e)))" using vs O(2) by simp
    then have nm: "\<not> is_a_map (ent s e)" using assms(4) by (metis (no_types, lifting) ranI vm_map_entry.simps(5) view_def
          vm_map_entry.select_convs(5) vm_map_entry.update_convs(1,2,4) vm_map_entry.surjective)
    define r where "r = \<lparr>r_address = vstart (ent s e), r_size = vend (ent s e) - vstart (ent s e), r_protection = protection (ent s e),
        r_max_protection = max_protection (ent s e), r_inheritance = inheritance (ent s e), r_is_shared = False,
        r_object_name = (if is_sub_map (ent s e) then 0 else object_name (vobject (ent s e))), r_offset = voffset (ent s e)\<rparr>"
    have "f \<and> p = e \<or> \<not> f \<and> vnext s p = e" using xy(3) Cons by (cases f) simp_all
    then have "vm_region object_name m a s = Inr (Some (Inr r, t))"
      using assms(3) t be nm eh by (elim disjE conjE) (simp_all add: vm_region_def r_def Let_def)
    moreover have "0 < r_size r" "a < r_address r + r_size r" using O(2) xy(5) Cons by (auto simp: r_def word_gt_0)
    moreover have "mview s es b = None" if "a \<le> b" "b < r_address r" for b using vs xs that by (simp add: r_def)
    moreover have "\<exists>v. mview s es b = Some v \<and> describes object_name r b v" if "r_address r \<le> b" "b < r_address r + r_size r" for b
      using vs that by (auto simp: r_def describes_def view_def)
    ultimately show ?thesis using t(2,3) null by (intro exI [of _ "Inr r"] exI [of _ t]) simp
  qed
qed

end
