(* ===== verification/VmMapObj.thy ===== *)
theory VmMapObj
  imports VmMapInv
begin

text \<open>
  The object layer does not touch the maps: whatever a routine of \<^verbatim>\<open>vm/vm_object.c\<close> does, the
  fields that \<^verbatim>\<open>vm/vm_map.c\<close> adds to the state are the same afterwards.
\<close>

named_theorems objs_only "routines that keep everything beyond the objects"

lemma objs_only_same:
  fixes s t :: "'a vm_maps_scheme"
  shows "vm_objs.more t = vm_objs.more s \<Longrightarrow> maps_same s t"
  by (cases s; cases t) (simp add: maps_same_def)

lemma page_frame_objs:
  fixes s t :: "'a vm_objs_scheme"
  shows "page_frame s t \<Longrightarrow> vm_objs.more t = vm_objs.more s"
  by (cases s; cases t) (simp add: page_frame_def)

lemma upd_objs [objs_only]:
  "vm_objs.more (upd_obj q f s) = vm_objs.more s" "vm_objs.more (upd_page p g s) = vm_objs.more s"
  "vm_objs.more (pmap_do c s) = vm_objs.more s" "vm_objs.more (vm_page_free p s) = vm_objs.more s"
  "vm_objs.more (vm_page_deactivate p s) = vm_objs.more s" "vm_objs.more (take_active p s) = vm_objs.more s"
  "vm_objs.more (take_inactive p s) = vm_objs.more s" "vm_objs.more (vm_object_reference q s) = vm_objs.more s"
  by (simp_all add: upd_obj_def upd_page_def pmap_do_def page_frame_objs [OF frame_free] page_frame_objs [OF frame_deactivate]
      page_frame_objs [OF frame_take(1)] page_frame_objs [OF frame_take(2)] vm_object_reference_def)

lemma walks_only [objs_only]:
  "vm_objs.more (deactivate_walk ps s) = vm_objs.more s" "vm_objs.more (pmap_copy_walk b e ps s) = vm_objs.more s"
  "vm_objs.more (pmap_remove_walk b e ps s) = vm_objs.more s" "vm_objs.more (page_remove_walk b e ps s) = vm_objs.more s"
  "vm_objs.more (mark_cow_walk b e ps s) = vm_objs.more s" "vm_objs.more (terminate_walk ps s) = vm_objs.more s"
  "vm_objs.more (free_pages n q s) = vm_objs.more s"
proof -
  show "vm_objs.more (deactivate_walk ps s) = vm_objs.more s" "vm_objs.more (pmap_copy_walk b e ps s) = vm_objs.more s"
    "vm_objs.more (pmap_remove_walk b e ps s) = vm_objs.more s" "vm_objs.more (page_remove_walk b e ps s) = vm_objs.more s"
    "vm_objs.more (mark_cow_walk b e ps s) = vm_objs.more s" "vm_objs.more (terminate_walk ps s) = vm_objs.more s"
    by (induction ps arbitrary: s) (simp_all add: objs_only Let_def)
  show "vm_objs.more (free_pages n q s) = vm_objs.more s"
    by (induction n arbitrary: s) (simp_all add: objs_only split: list.splits)
qed

lemma objects_only [objs_only]:
  "vm_objs.more (vm_object_deactivate_pages q s) = vm_objs.more s" "vm_objs.more (vm_object_pmap_copy q b e s) = vm_objs.more s"
  "vm_objs.more (vm_object_pmap_remove q b e s) = vm_objs.more s" "vm_objs.more (vm_object_page_remove q b e s) = vm_objs.more s"
  "vm_objs.more (vm_object_remove pgr s) = vm_objs.more s" "vm_objs.more (snd (vm_object_lookup pgr s)) = vm_objs.more s"
  by (simp_all add: vm_object_deactivate_pages_def vm_object_pmap_copy_def vm_object_pmap_remove_def vm_object_page_remove_def
      vm_object_remove_def vm_object_lookup_def objs_only Let_def split: option.splits)

lemma collapse_move_only: "collapse_move n q b off len s = Inr t \<Longrightarrow> vm_objs.more t = vm_objs.more s"
proof (induction n arbitrary: s)
  case (Suc n)
  then show ?case
    by (auto simp: Let_def kbind_eq_Inr objs_only page_frame_objs [OF frame_rename] split: list.splits if_splits)
qed simp

lemma collapse_step_only: "collapse_step q s = Inr (Some t) \<Longrightarrow> vm_objs.more t = vm_objs.more s"
  by (auto simp: collapse_step_def collapse_merge_def collapse_bypass_def Let_def kbind_eq_Inr objs_only
      dest!: collapse_move_only split: if_splits)

lemma collapse_loop_only: "collapse_loop n q s = Inr (Some t) \<Longrightarrow> vm_objs.more t = vm_objs.more s"
proof (induction n arbitrary: s)
  case (Suc n)
  then obtain r where r: "collapse_step q s = Inr r" "(case r of None \<Rightarrow> Inr (Some s) | Some u \<Rightarrow> collapse_loop n q u) = Inr (Some t)"
    by (auto simp: kbind_eq_Inr)
  then show ?case using Suc.IH collapse_step_only by (cases r) fastforce+
qed simp

lemma collapse_only: "vm_object_collapse q s = Inr (Some t) \<Longrightarrow> vm_objs.more t = vm_objs.more s"
  by (auto simp: vm_object_collapse_def simp del: collapse_loop.simps dest: collapse_loop_only split: if_splits)

lemma rbind_eq_Some:
  "rbind r f = Inr (Some b) \<longleftrightarrow> (\<exists>a. r = Inr (Some a) \<and> f a = Inr (Some b))"
  by (auto simp: rbind_def kbind_eq_Inr split: option.splits)

lemma coalesce_only: "vm_object_coalesce q r a b c d s = Inr (Some (ok, t)) \<Longrightarrow> vm_objs.more t = vm_objs.more s"
  by (auto simp: vm_object_coalesce_def rbind_eq_Some Let_def objs_only dest!: collapse_only split: if_splits)

lemma allocate_only: "vm_object_allocate len s = Inr (q, t) \<Longrightarrow> vm_objs.more t = vm_objs.more s"
  by (auto simp: vm_object_allocate_def vm_object_allocate_at_def Let_def objs_only split: list.splits)

lemma copy_new_only: "copy_object_new q r s = Inr t \<Longrightarrow> vm_objs.more t = vm_objs.more s"
  by (auto simp: copy_object_new_def Let_def kbind_eq_Inr objs_only split: if_splits)

lemma copy_only: "vm_object_copy q off len s = Inr (Some (res, t)) \<Longrightarrow> vm_objs.more t = vm_objs.more s"
  by (auto simp: vm_object_copy_def rbind_eq_Some kbind_eq_Inr Let_def objs_only
      dest!: collapse_only copy_new_only allocate_only split: if_splits)

lemma terminate_only: "vm_object_terminate q s = Inr (Some t) \<Longrightarrow> vm_objs.more t = vm_objs.more s"
  by (auto simp: vm_object_terminate_def Let_def kbind_eq_Inr objs_only split: if_splits)

lemma deallocate_only:
  "vm_object_deallocate n q s = Inr (Some t) \<Longrightarrow> vm_objs.more t = vm_objs.more s"
  "vm_object_cache_trim n s = Inr (Some t) \<Longrightarrow> vm_objs.more t = vm_objs.more s"
  "pager_cache n q b s = Inr (Some (kr, t)) \<Longrightarrow> vm_objs.more t = vm_objs.more s"
proof (induction n arbitrary: q s t b kr)
  case (Suc n)
  { case 1
    then show ?case using Suc
      by (fastforce simp: Let_def rbind_eq_Some objs_only dest: terminate_only split: if_splits)
  next
    case 2
    obtain q' u where qu: "vm_object_lookup (pager (obj s (hd (cached_list s)))) s = (q', u)" by fastforce
    then have "vm_objs.more u = vm_objs.more s" using objects_only(6) by (metis snd_conv)
    then show ?case using 2 qu Suc
      by (fastforce simp: Let_def rbind_eq_Some split: if_splits)
  next
    case 3
    then show ?case using Suc by (fastforce simp: rbind_eq_Some objs_only split: if_splits) }
qed simp_all

end
