(* ===== verification/VmMapAlloc.thy ===== *)
theory VmMapAlloc
  imports VmMapQuery VmMapObj
begin

text \<open>
  Putting memory into a map: \<^verbatim>\<open>vm_map_create\<close>, \<^verbatim>\<open>vm_map_insert\<close> and \<^verbatim>\<open>vm_map_find\<close>.  Insertion succeeds
  exactly on free ranges inside the bounds, and the search returns the first place where the
  range fits.
\<close>

subsection \<open>A new entry\<close>

lemma ordered_shrink: "ordered E lo xs mid \<Longrightarrow> \<forall>x\<in>set xs. vend (E x) \<le> hi \<Longrightarrow> lo \<le> hi \<Longrightarrow> ordered E lo xs hi"
  by (induction xs arbitrary: lo) auto

lemma ordered_raise: "ordered E lo ys hi \<Longrightarrow> \<forall>y\<in>set ys. lo' \<le> vstart (E y) \<Longrightarrow> lo' \<le> hi \<Longrightarrow> ordered E lo' ys hi"
  by (cases ys) auto

lemma insert_new_correct:
  assumes inv: "map_inv s m (xs @ ys)" and free: "entries_free s (xs @ ys)" and av: "0 < avail m s"
    and below: "\<forall>x\<in>set xs. vend (ent s x) \<le> start" and above: "\<forall>y\<in>set ys. fin \<le> vstart (ent s y)"
    and b: "start < fin" "vm_map_min m s \<le> start" "fin \<le> vm_map_max m s" and main: "is_main_map (vmap s m)"
  shows "\<exists>t n. insert_new m q off start fin (last (Hdr m # xs)) s = Inr (Some (KERN_SUCCESS, t)) \<and>
    map_step m s (xs @ ys) t (xs @ n # ys) \<and> (\<forall>e\<in>set (xs @ ys). ent t e = ent s e) \<and>
    ent t n = \<lparr>vstart = start, vend = fin, vobject = q, voffset = off, is_a_map = False, is_sub_map = False,
      copy_on_write = False, needs_copy = False, protection = VM_PROT_DEFAULT, max_protection = VM_PROT_DEFAULT,
      inheritance = VM_INHERIT_DEFAULT, wired_count = 0\<rparr>"
proof -
  obtain pn r where r: "vm_map_entry_create m s = Inr (Ent pn, r)" "Ent pn \<in> zone_entries s"
    "ent r = ent s" "vnext r = vnext s" "vprev r = vprev s" "vmap r = vmap s"
    "entries_free s (xs @ ys) \<Longrightarrow> distinct (vm_map_entry_zone r @ vm_map_kentry_zone r) \<and> zone_entries r = zone_entries s - {Ent pn}"
    using entry_create_fields [OF av, of "xs @ ys"] by blast
  define n where "n = Ent pn"
  define p where "p = last (Hdr m # xs)"
  define v where "v = \<lparr>vstart = start, vend = fin, vobject = q, voffset = off, is_a_map = False, is_sub_map = False,
      copy_on_write = False, needs_copy = False, protection = VM_PROT_DEFAULT, max_protection = VM_PROT_DEFAULT,
      inheritance = VM_INHERIT_DEFAULT, wired_count = 0\<rparr>"
  have ring: "ring s m (xs @ ys)" and ord: "ordered (ent s) (vm_map_min m s) (xs @ ys) (vm_map_max m s)"
    using inv by (auto simp: map_inv_def)
  have nn: "n \<notin> set (xs @ ys)" "n \<in> range Ent" "n \<noteq> Hdr m" using r(2) free by (auto simp: n_def entries_free_iff zone_entries_def)
  have pin: "p \<in> insert (Hdr m) (set xs)" unfolding p_def using last_in_set [of "Hdr m # xs"] by simp
  then have np: "n \<noteq> p" using nn by auto
  define u where "u = r\<lparr>ent := (ent s)(n := v)\<rparr>"
  define l where "l = vm_map_entry_link m p n u"
  define k where "k = upd_map m (\<lambda>w. w\<lparr>vsize := vsize w + (fin - start)\<rparr>) l"
  define t where "t = (if first_free (vmap k m) = p \<and> vend (ent k p) \<ge> start then upd_map m (\<lambda>w. w\<lparr>first_free := n\<rparr>) k else k)"
  note L = link_fields [OF np, of m u]
  have fields: "vnext u = vnext s" "vprev u = vprev s" "vmap u = vmap s" "ent u = (ent s)(n := v)" by (simp_all add: u_def r)
  have el: "ent l = (ent s)(n := v)" unfolding l_def L(3) fields by simp
  have ek: "ent k = (ent s)(n := v)" by (simp add: k_def upd_map_def el)
  have et: "ent t = (ent s)(n := v)" by (simp add: t_def upd_map_def ek)
  have vs: "vstart v = start" "vend v = fin" by (simp_all add: v_def)
  define f1 :: "vm_map_entry \<Rightarrow> vm_map_entry" where "f1 = (\<lambda>w. w\<lparr>vstart := start, vend := fin\<rparr>)"
  define f2 :: "vm_map_entry \<Rightarrow> vm_map_entry" where "f2 = (\<lambda>w. w\<lparr>is_a_map := False, is_sub_map := False, vobject := q, voffset := off\<rparr>)"
  define f3 :: "vm_map_entry \<Rightarrow> vm_map_entry" where "f3 = (\<lambda>w. w\<lparr>copy_on_write := False, needs_copy := False\<rparr>)"
  define f4 :: "vm_map_entry \<Rightarrow> vm_map_entry" where "f4 = (\<lambda>w. w\<lparr>inheritance := VM_INHERIT_DEFAULT, protection := VM_PROT_DEFAULT,
    max_protection := VM_PROT_DEFAULT, wired_count := 0\<rparr>)"
  have "f4 (f3 (f2 (f1 w))) = v" for w by (cases w) (simp add: f1_def f2_def f3_def f4_def v_def)
  then have "upd_ent n f4 (upd_ent n f3 (upd_ent n f2 (upd_ent n f1 r))) = u" by (simp add: upd_ent_def u_def r(3))
  moreover have "vmap (upd_ent n f3 (upd_ent n f2 (upd_ent n f1 r))) = vmap s" by (simp add: upd_ent_def r(6))
  ultimately have eq: "insert_new m q off start fin p s = Inr (Some (KERN_SUCCESS, t))"
    using main unfolding insert_new_def r(1) n_def [symmetric] f1_def [symmetric] f2_def [symmetric] f3_def [symmetric] f4_def [symmetric]
    by (simp add: Let_def l_def [symmetric] el np vs k_def [symmetric] ek t_def)
  have mt: "vmap t j = (if j = m then (vmap t m) else vmap s j)" for j
    by (simp add: t_def k_def upd_map_def l_def L(4) fields)
  have mm: "nentries (vmap t m) = nentries (vmap s m) + 1" "hint (vmap t m) = hint (vmap s m)"
      "first_free (vmap t m) \<in> {first_free (vmap s m), n}" "vsize (vmap t m) = vsize (vmap s m) + (fin - start)"
      "entries_pageable (vmap t m) = entries_pageable (vmap s m)" "is_main_map (vmap t m) = is_main_map (vmap s m)"
      "pmap (vmap t m) = pmap (vmap s m)"
    by (simp_all add: t_def k_def upd_map_def l_def L(4) fields)
  have lt: "vnext t = vnext l" "vprev t = vprev l" "zone_entries t = zone_entries r" "vm_map_entry_zone t = vm_map_entry_zone r"
      "vm_map_kentry_zone t = vm_map_kentry_zone r"
    by (simp_all add: t_def k_def upd_map_def zone_entries_def l_def vm_map_entry_link_def Let_def u_def)
  have "ring u m (xs @ ys)" using ring ring_cong [of m "xs @ ys" u s] fields by simp
  then have "ring l m (xs @ n # ys)" unfolding l_def using nn p_def by (intro ring_link) auto
  then have rt: "ring t m (xs @ n # ys)" using ring_cong [of m "xs @ n # ys" t l] lt by simp
  have bounds: "vm_map_min m t = vm_map_min m s" "vm_map_max m t = vm_map_max m s" using et nn by (simp_all add: vm_map_min_def vm_map_max_def)
  have same: "ordered (ent t) lo zs hi = ordered (ent s) lo zs hi" if "set zs \<subseteq> set (xs @ ys)" for lo zs hi
    using that nn et by (intro ordered_cong) auto
  have "ordered (ent t) (vm_map_min m t) (xs @ n # ys) (vm_map_max m t)"
  proof (rule ordered_join)
    obtain mid where mid: "ordered (ent s) (vm_map_min m s) xs mid" "ordered (ent s) mid ys (vm_map_max m s)"
      using ord unfolding ordered_append by blast
    show "ordered (ent t) (vm_map_min m t) xs (vstart (ent t n))"
      using ordered_shrink [OF mid(1) below b(2)] same [of xs] bounds et vs by simp
    show "vstart (ent t n) < vend (ent t n)" using et vs b by simp
    show "ordered (ent t) (vend (ent t n)) ys (vm_map_max m t)"
      using ordered_raise [OF mid(2) above b(3)] same [of ys] bounds et vs by simp
  qed
  then have inv': "map_inv t m (xs @ n # ys)" using inv rt mm by (auto simp: map_inv_def)
  note Z = r(7) [OF free]
  have free': "entries_free t (xs @ n # ys)" using free Z lt by (auto simp: entries_free_iff n_def)
  have others: "others_kept m s (xs @ ys) t (xs @ n # ys)"
  proof (rule others_keptI)
    fix f assume f: "f \<notin> set (xs @ ys)" "f \<notin> zone_entries s" "f \<noteq> Hdr m"
    have "vnext s p \<in> insert (Hdr m) (set ys)"
    proof (cases ys)
      case Nil
      then show ?thesis using ring nseg_last [of "vnext s" "Hdr m" xs "Hdr m"] by (simp add: ring_def p_def)
    next
      case (Cons y zs)
      then show ?thesis using ring_next(4) [of s m xs y zs] ring by (simp add: p_def)
    qed
    then have "f \<noteq> p" "f \<noteq> vnext s p" "f \<noteq> n" using f pin r(2) by (auto simp: n_def)
    then show "vnext t f = vnext s f \<and> vprev t f = vprev s f \<and> ent t f = ent s f"
      by (simp add: lt l_def L fields et)
  next
    show "nentries (vmap t j) = nentries (vmap s j) \<and> hint (vmap t j) = hint (vmap s j) \<and> first_free (vmap t j) = first_free (vmap s j)"
      if "j \<noteq> m" for j using that mt [of j] by simp
  qed (use r(2) Z lt ring in \<open>auto simp: n_def ring_def\<close>)
  have "size_ok s m (xs @ ys) \<longrightarrow> size_ok t m (xs @ n # ys)"
  proof -
    have sums: "(\<Sum>e\<leftarrow>zs. vend (ent t e) - vstart (ent t e)) = (\<Sum>e\<leftarrow>zs. vend (ent s e) - vstart (ent s e))"
      if "set zs \<subseteq> set (xs @ ys)" for zs using that et nn by (intro arg_cong [where f = sum_list] map_cong) auto
    have "ent t n = v" using et by simp
    then show ?thesis using vs by (simp add: size_ok_def mm(4) sums)
  qed
  then have "map_step m s (xs @ ys) t (xs @ n # ys)" using inv' free' others bounds mm by (simp add: map_step_def)
  moreover have "\<forall>e\<in>set (xs @ ys). ent t e = ent s e" using et nn by auto
  moreover have "ent t n = v" using et by simp
  ultimately show ?thesis using eq unfolding p_def v_def by blast
qed

subsection \<open>Extending an entry\<close>

lemma extend_step:
  assumes inv: "map_inv s m (zs @ p # ys)" and free: "entries_free s (zs @ p # ys)"
    and above: "\<forall>y\<in>set ys. fin \<le> vstart (ent s y)" and b: "vend (ent s p) < fin" "fin \<le> vm_map_max m s"
    and t: "t = upd_ent p (\<lambda>v. v\<lparr>vend := fin\<rparr>) (upd_map m (\<lambda>v. v\<lparr>vsize := vsize v + (fin - vend (ent s p))\<rparr>) s)"
  shows "map_step m s (zs @ p # ys) t (zs @ p # ys)" "ent t = (ent s)(p := (ent s p)\<lparr>vend := fin\<rparr>)"
proof -
  have ring: "ring s m (zs @ p # ys)" and ord: "ordered (ent s) (vm_map_min m s) (zs @ p # ys) (vm_map_max m s)"
    using inv by (auto simp: map_inv_def)
  show et: "ent t = (ent s)(p := (ent s p)\<lparr>vend := fin\<rparr>)" by (simp add: t upd_ent_def upd_map_def)
  have ph: "p \<noteq> Hdr m" "p \<notin> set zs" "p \<notin> set ys" using ring by (auto simp: ring_def)
  have f: "vnext t = vnext s" "vprev t = vprev s" "zone_entries t = zone_entries s" "vm_map_entry_zone t = vm_map_entry_zone s"
      "vm_map_kentry_zone t = vm_map_kentry_zone s" "vmap t = (vmap s)(m := (vmap s m)\<lparr>vsize := vsize (vmap s m) + (fin - vend (ent s p))\<rparr>)"
    by (simp_all add: t upd_ent_def upd_map_def zone_entries_def)
  have bounds: "vm_map_min m t = vm_map_min m s" "vm_map_max m t = vm_map_max m s" using et ph by (simp_all add: vm_map_min_def vm_map_max_def)
  note O = ordered_split [OF ord]
  have same: "ordered (ent t) lo xs hi = ordered (ent s) lo xs hi" if "p \<notin> set xs" for lo xs hi
    using that et by (intro ordered_cong) auto
  have "ordered (ent t) (vm_map_min m t) (zs @ p # ys) (vm_map_max m t)"
  proof (rule ordered_join)
    show "ordered (ent t) (vm_map_min m t) zs (vstart (ent t p))" using O(1) same [of zs] ph et bounds by simp
    show "vstart (ent t p) < vend (ent t p)" using O(2) b et by simp
    show "ordered (ent t) (vend (ent t p)) ys (vm_map_max m t)"
      using ordered_raise [OF O(3) above b(2)] same [of ys] ph et bounds by simp
  qed
  moreover have "ring t m (zs @ p # ys)" using ring ring_cong [of m "zs @ p # ys" t s] f by simp
  ultimately have "map_inv t m (zs @ p # ys)" using inv by (simp add: map_inv_def f)
  moreover have "entries_free t (zs @ p # ys)" using free by (simp add: entries_free_iff f)
  moreover have "others_kept m s (zs @ p # ys) t (zs @ p # ys)"
    using free ring by (intro others_keptI) (auto simp: f et entries_free_def ring_def)
  moreover have "size_ok s m (zs @ p # ys) \<longrightarrow> size_ok t m (zs @ p # ys)"
  proof -
    have sums: "(\<Sum>e\<leftarrow>xs. vend (ent t e) - vstart (ent t e)) = (\<Sum>e\<leftarrow>xs. vend (ent s e) - vstart (ent s e))"
      if "p \<notin> set xs" for xs using that et by (intro arg_cong [where f = sum_list] map_cong) auto
    have "ent t p = (ent s p)\<lparr>vend := fin\<rparr>" using et by simp
    then show ?thesis by (simp add: size_ok_def f sums ph)
  qed
  ultimately show "map_step m s (zs @ p # ys) t (zs @ p # ys)" using bounds by (simp add: map_step_def f)
qed

subsection \<open>Insertion\<close>

text \<open>The object of the entry below can be asked whether it can grow.\<close>

definition obj_ok :: "'a vm_maps_scheme \<Rightarrow> ptr \<Rightarrow> bool" where
  "obj_ok s q \<longleftrightarrow> q = 0 \<or> table_inv s \<and> (\<exists>xs. chain s q (q # xs) \<and> set (q # xs) \<subseteq> set (vm_object_list s) \<and>
     unat (o_size (obj s q)) + span s (q # xs) \<le> 2 ^ 32)"

lemma obj_ok_cong:
  assumes "table_same s u" and "obj u = obj s" and "vm_object_list u = vm_object_list s"
  shows "obj_ok u q = obj_ok s q"
proof -
  have "chain u x xs = chain s x xs" for x xs by (rule chain_cong) (simp add: assms(2))
  moreover have "span u xs = span s xs" for xs by (simp add: span_def assms(2))
  ultimately show ?thesis using table_same_inv [OF assms(1)] assms(2,3) by (simp add: obj_ok_def)
qed

lemma coalesce_returns:
  assumes "obj_ok s q"
  shows "\<exists>ok t. vm_object_coalesce q 0 a b c d s = Inr (Some (ok, t)) \<and> maps_same s t"
proof -
  have "\<exists>ok t. vm_object_coalesce q 0 a b c d s = Inr (Some (ok, t))"
  proof (cases "q = 0")
    case False
    then obtain xs where "table_inv s" "chain s q (q # xs)" "set (q # xs) \<subseteq> set (vm_object_list s)"
        "unat (o_size (obj s q)) + span s (q # xs) \<le> 2 ^ 32" using assms by (auto simp: obj_ok_def)
    then obtain u where "vm_object_collapse q s = Inr (Some u)" using collapse_shows by blast
    then have "vm_object_coalesce q 0 a b c d s = (if o_refs (obj u q) > 1 \<or> pager (obj u q) \<noteq> 0 \<or> shadow (obj u q) \<noteq> 0 \<or>
        copy_obj (obj u q) \<noteq> 0 then Inr (Some (False, u))
        else Inr (Some (True,
          (let s = vm_object_page_remove q (a + c) (a + c + d) u
           in if a + c + d > o_size (obj s q) then upd_obj q (\<lambda>ob. ob\<lparr>o_size := a + c + d\<rparr>) s else s))))"
      using False by (simp add: vm_object_coalesce_def Let_def)
    then show ?thesis by (cases "o_refs (obj u q) > 1 \<or> pager (obj u q) \<noteq> 0 \<or> shadow (obj u q) \<noteq> 0 \<or> copy_obj (obj u q) \<noteq> 0") auto
  qed (auto simp: vm_object_coalesce_def)
  then show ?thesis using coalesce_only objs_only_same by blast
qed

definition fresh_view :: "ptr \<Rightarrow> u32 \<Rightarrow> u32 \<Rightarrow> u32 \<Rightarrow> vm_map_entry \<Rightarrow> bool" where
  "fresh_view q off start a v \<longleftrightarrow>
     \<not> is_a_map v \<and> \<not> is_sub_map v \<and> protection v = VM_PROT_DEFAULT \<and> max_protection v = VM_PROT_DEFAULT \<and>
     inheritance v = VM_INHERIT_DEFAULT \<and> wired_count v = 0 \<and>
     (q \<noteq> 0 \<longrightarrow> vobject v = q \<and> voffset v = off + (a - start) \<and> \<not> copy_on_write v \<and> \<not> needs_copy v)"

lemma insert_free:
  assumes inv: "map_inv s m (xs @ ys)" and free: "entries_free s (xs @ ys)" and av: "0 < avail m s"
    and below: "\<forall>x\<in>set xs. vend (ent s x) \<le> start" and above: "\<forall>y\<in>set ys. fin \<le> vstart (ent s y)"
    and b: "start < fin" "vm_map_min m s \<le> start" "fin \<le> vm_map_max m s" and main: "is_main_map (vmap s m)"
    and ok: "xs \<noteq> [] \<Longrightarrow> \<not> is_a_map (ent s (last xs)) \<Longrightarrow> \<not> is_sub_map (ent s (last xs)) \<Longrightarrow> obj_ok s (vobject (ent s (last xs)))"
    and p: "p = last (Hdr m # xs)"
  shows "\<exists>t es'. (if q = 0 \<and> can_extend m p start s
       then rbind (vm_object_coalesce (vobject (ent s p)) 0 (voffset (ent s p)) 0 (vend (ent s p) - vstart (ent s p))
                     (fin - vend (ent s p)) s) (\<lambda>(ok, s).
              if ok
              then
               (let s = upd_map m (\<lambda>v. v\<lparr>vsize := vsize v + (fin - vend (ent s p))\<rparr>) s
                in Inr (Some (KERN_SUCCESS, upd_ent p (\<lambda>v. v\<lparr>vend := fin\<rparr>) s)))
              else insert_new m q off start fin p s)
       else insert_new m q off start fin p s) = Inr (Some (KERN_SUCCESS, t)) \<and> map_step m s (xs @ ys) t es' \<and>
    (\<forall>a. if start \<le> a \<and> a < fin then \<exists>v. mview t es' a = Some v \<and> fresh_view q off start a v else mview t es' a = mview s (xs @ ys) a)"
proof -
  have new: "\<exists>t es'. insert_new m q off start fin p u = Inr (Some (KERN_SUCCESS, t)) \<and> map_step m s (xs @ ys) t es' \<and>
    (\<forall>a. if start \<le> a \<and> a < fin then \<exists>v. mview t es' a = Some v \<and> fresh_view q off start a v else mview t es' a = mview s (xs @ ys) a)"
    if same: "maps_same s u" for u
  proof -
    note D = maps_sameD [OF same] and I = maps_same_inv [OF same]
    have iu: "map_inv u m (xs @ ys)" "entries_free u (xs @ ys)" "0 < avail m u" "\<forall>x\<in>set xs. vend (ent u x) \<le> start"
        "\<forall>y\<in>set ys. fin \<le> vstart (ent u y)" "vm_map_min m u \<le> start" "fin \<le> vm_map_max m u" "is_main_map (vmap u m)"
      using inv free av below above b main by (simp_all add: D I)
    from insert_new_correct [OF iu(1-5) b(1) iu(6-8), of q off] obtain t n where
      t: "insert_new m q off start fin p u = Inr (Some (KERN_SUCCESS, t))" "map_step m u (xs @ ys) t (xs @ n # ys)"
        "\<forall>e\<in>set (xs @ ys). ent t e = ent u e"
        "ent t n = \<lparr>vstart = start, vend = fin, vobject = q, voffset = off, is_a_map = False, is_sub_map = False,
           copy_on_write = False, needs_copy = False, protection = VM_PROT_DEFAULT, max_protection = VM_PROT_DEFAULT,
           inheritance = VM_INHERIT_DEFAULT, wired_count = 0\<rparr>" unfolding p by blast
    have "ordered (ent t) (vm_map_min m t) (xs @ n # ys) (vm_map_max m t)" by (rule map_stepD(4) [OF t(2)])
    note V = view_in_split [OF this]
    have xs: "view_in (ent t) xs a = view_in (ent s) xs a" "view_in (ent t) ys a = view_in (ent s) ys a" for a
      using t(3) D(1) by (auto intro!: view_in_cong)
    have ny: "view_in (ent s) ys a = None" if "a < fin" for a
      using above that unfolding view_in_None covers_def by (meson leD less_le_trans)
    have nx: "view_in (ent s) xs a = None" if "start \<le> a" for a
      using below that unfolding view_in_None covers_def by (meson leD le_less_trans order.trans)
    have "if start \<le> a \<and> a < fin then \<exists>v. mview t (xs @ n # ys) a = Some v \<and> fresh_view q off start a v
        else mview t (xs @ n # ys) a = mview s (xs @ ys) a" for a
    proof -
      have "mview t (xs @ n # ys) a = (if a < start then view_in (ent s) xs a
          else if a < fin then Some (view (ent t n) a) else view_in (ent s) ys a)"
        using V [of a] t(4) by (simp add: mview_def xs)
      moreover have "mview s (xs @ ys) a = (if a < start then view_in (ent s) xs a else view_in (ent s) ys a)"
        using nx [of a] ny [of a] b(1) by (auto simp: mview_def view_in_append not_less split: option.splits)
      moreover have "fresh_view q off start a (view (ent t n) a)" using t(4) by (simp add: fresh_view_def view_def)
      ultimately show ?thesis unfolding not_less [symmetric] by (cases "a < start"; cases "a < fin") simp_all
    qed
    then show ?thesis using t(1) map_step_trans [OF maps_same_step [OF same inv free] t(2)] by blast
  qed
  show ?thesis
  proof (cases "q = 0 \<and> can_extend m p start s")
    case False
    then show ?thesis using new [OF maps_same_refl] by (simp only: if_False)
  next
    case True
    then have ce: "p \<noteq> Hdr m" "vend (ent s p) = start" "\<not> is_a_map (ent s p)" "\<not> is_sub_map (ent s p)"
        "inheritance (ent s p) = VM_INHERIT_DEFAULT" "protection (ent s p) = VM_PROT_DEFAULT"
        "max_protection (ent s p) = VM_PROT_DEFAULT" "wired_count (ent s p) = 0"
      by (auto simp: can_extend_def)
    then have ne: "xs \<noteq> []" "p = last xs" using p by (auto split: if_splits)
    then obtain zs where zs: "xs = zs @ [p]" by (metis append_butlast_last_id)
    have "obj_ok s (vobject (ent s p))" using ok ne ce by auto
    from coalesce_returns [OF this] obtain c u where u: "vm_object_coalesce (vobject (ent s p)) 0 (voffset (ent s p)) 0
        (vend (ent s p) - vstart (ent s p)) (fin - vend (ent s p)) s = Inr (Some (c, u))" "maps_same s u" by blast
    show ?thesis
    proof (cases c)
      case False
      then show ?thesis using new [OF u(2)] True u(1) by simp
    next
      case c: True
      note D = maps_sameD [OF u(2)] and I = maps_same_inv [OF u(2)]
      define t where "t = upd_ent p (\<lambda>v. v\<lparr>vend := fin\<rparr>) (upd_map m (\<lambda>v. v\<lparr>vsize := vsize v + (fin - vend (ent u p))\<rparr>) u)"
      have iu: "map_inv u m (zs @ p # ys)" "entries_free u (zs @ p # ys)" "\<forall>y\<in>set ys. fin \<le> vstart (ent u y)"
          "vend (ent u p) < fin" "fin \<le> vm_map_max m u"
        using inv free above b ce by (simp_all add: D I zs)
      note E = extend_step [OF iu t_def]
      have ord: "ordered (ent s) (vm_map_min m s) (zs @ p # ys) (vm_map_max m s)" using inv zs by (simp add: map_inv_def)
      have ord': "ordered (ent t) (vm_map_min m t) (zs @ p # ys) (vm_map_max m t)" by (rule map_stepD(4) [OF E(1)])
      have pn: "p \<notin> set zs" "p \<notin> set ys" using inv zs by (auto simp: map_inv_def ring_def)
      have xs: "view_in (ent t) zs a = view_in (ent s) zs a" "view_in (ent t) ys a = view_in (ent s) ys a" for a
        using E(2) D(1) pn by (auto intro!: view_in_cong)
      have none: "view_in (ent s) ys a = None" if "a < fin" for a
        using above that unfolding view_in_None covers_def by (meson leD less_le_trans)
      have tp: "ent t p = (ent s p)\<lparr>vend := fin\<rparr>" using E(2) D(1) by simp
      have lt: "vstart (ent s p) < start" using ordered_split(2) [OF ord] ce(2) by simp
      have "if start \<le> a \<and> a < fin then \<exists>v. mview t (zs @ p # ys) a = Some v \<and> fresh_view q off start a v
          else mview t (zs @ p # ys) a = mview s (xs @ ys) a" for a
      proof -
        have "view_in (ent t) (zs @ p # ys) a = (if a < vstart (ent s p) then view_in (ent s) zs a
            else if a < fin then Some (view (ent s p) a) else view_in (ent s) ys a)"
          using view_in_split [OF ord', of a] by (simp add: tp xs view_split(1))
        moreover have "view_in (ent s) (xs @ ys) a = (if a < vstart (ent s p) then view_in (ent s) zs a
            else if a < start then Some (view (ent s p) a) else view_in (ent s) ys a)"
          using view_in_split [OF ord, of a] by (simp add: zs ce(2))
        moreover have "fresh_view q off start a (view (ent s p) a)" using True ce by (simp add: fresh_view_def view_def)
        moreover have "\<not> a < vstart (ent s p)" if "start \<le> a" using lt that by (simp add: not_less)
        moreover have "a < fin" if "a < start" using that b(1) by simp
        ultimately show ?thesis using none [of a] unfolding mview_def not_less [symmetric] by (cases "a < start"; cases "a < fin") simp_all
      qed
      moreover have "map_step m s (xs @ ys) t (zs @ p # ys)"
        using map_step_trans [OF maps_same_step [OF u(2) inv free]] E(1) zs by simp
      moreover have "Inr (Some (KERN_SUCCESS, t)) = rbind (vm_object_coalesce (vobject (ent s p)) 0 (voffset (ent s p)) 0
          (vend (ent s p) - vstart (ent s p)) (fin - vend (ent s p)) s) (\<lambda>(ok, s).
              if ok
              then
               (let s = upd_map m (\<lambda>v. v\<lparr>vsize := vsize v + (fin - vend (ent s p))\<rparr>) s
                in Inr (Some (KERN_SUCCESS, upd_ent p (\<lambda>v. v\<lparr>vend := fin\<rparr>) s)))
              else insert_new m q off start fin p s)" using c u(1) by (simp add: t_def Let_def)
      ultimately show ?thesis unfolding if_P [OF True] by metis
    qed
  qed
qed

lemma insert_correct:
  assumes inv: "map_inv s m es" and free: "entries_free s es" and av: "0 < avail m s" and main: "is_main_map (vmap s m)"
    and ok: "\<forall>v\<in>ran (mview s es). \<not> is_a_map v \<and> \<not> is_sub_map v \<longrightarrow> obj_ok s (vobject v)"
  shows "\<exists>kr t es'. vm_map_insert m q off start fin s = Inr (Some (kr, t)) \<and> map_step m s es t es' \<and>
    kr = (if start < vm_map_min m s \<or> fin > vm_map_max m s \<or> start \<ge> fin then KERN_INVALID_ADDRESS
          else if \<exists>a. start \<le> a \<and> a < fin \<and> mview s es a \<noteq> None then KERN_NO_SPACE else KERN_SUCCESS) \<and>
    (\<forall>a. if kr = KERN_SUCCESS \<and> start \<le> a \<and> a < fin
       then \<exists>v. mview t es' a = Some v \<and> fresh_view q off start a v else mview t es' a = mview s es a)"
proof (cases "start < vm_map_min m s \<or> fin > vm_map_max m s \<or> start \<ge> fin")
  case True
  then show ?thesis using map_step_refl [OF inv free]
    by (intro exI [of _ KERN_INVALID_ADDRESS] exI [of _ s] exI [of _ es]) (simp add: vm_map_insert_def)
next
  case False
  then have b: "start < fin" "vm_map_min m s \<le> start" "fin \<le> vm_map_max m s" by (auto simp: not_less)
  obtain h where h: "vm_map_lookup_entry m start s = Inr (Some (lookup_ref (ent s) (Hdr m) es start, SAVE_HINT m h s))"
      "h \<in> insert (Hdr m) (set es)" using lookup_entry_ref [OF inv, of start] by blast
  define u where "u = SAVE_HINT m h s"
  note H = save_hint_step [OF inv free h(2), folded u_def]
  note U = map_stepD [OF H(1)]
  have eu: "ent u = ent s" "vnext u = vnext s" by (simp_all add: u_def)
  obtain f p where be: "lookup_ref (ent s) (Hdr m) es start = (f, p)" by (cases "lookup_ref (ent s) (Hdr m) es start")
  have ord: "ordered (ent s) (vm_map_min m s) es (vm_map_max m s)" using inv by (simp add: map_inv_def)
  let ?taken = "\<exists>a. start \<le> a \<and> a < fin \<and> mview s es a \<noteq> None"
  have taken: ?thesis if "?taken" "vm_map_insert m q off start fin s = Inr (Some (KERN_NO_SPACE, u))"
    using that False H(1,2) by (intro exI [of _ KERN_NO_SPACE] exI [of _ u] exI [of _ es]) simp
  show ?thesis
  proof (cases f)
    case True
    then obtain xs zs where "es = xs @ p # zs" "covers (ent s p) start" using lookup_ref_found [OF ord, of "Hdr m" start p] be by auto
    then have "mview s es start \<noteq> None" unfolding mview_def view_in_None by auto
    then have "?taken" using b(1) by blast
    moreover have "vm_map_insert m q off start fin s = Inr (Some (KERN_NO_SPACE, u))"
      using False h(1) be True by (simp add: vm_map_insert_def u_def)
    ultimately show ?thesis by (rule taken)
  next
    case nf: False
    then obtain xs ys where xy: "es = xs @ ys" "p = last (Hdr m # xs)" "\<forall>x\<in>set xs. vend (ent s x) \<le> start"
        "\<forall>y\<in>set ys. start < vstart (ent s y)" using lookup_ref_missed [OF ord, of "Hdr m" start p] be by auto
    have nx: "vnext s p = hd (ys @ [Hdr m])"
    proof (cases ys)
      case Nil
      then show ?thesis using inv xy nseg_last [of "vnext s" "Hdr m" xs "Hdr m"] by (simp add: map_inv_def ring_def)
    next
      case (Cons y zs)
      then show ?thesis using ring_next(4) [of s m xs y zs] inv xy by (simp add: map_inv_def)
    qed
    have eq: "vm_map_insert m q off start fin s = (if vnext u p \<noteq> Hdr m \<and> vstart (ent u (vnext u p)) < fin
        then Inr (Some (KERN_NO_SPACE, u))
        else (if q = 0 \<and> can_extend m p start u
       then rbind (vm_object_coalesce (vobject (ent u p)) 0 (voffset (ent u p)) 0 (vend (ent u p) - vstart (ent u p))
                     (fin - vend (ent u p)) u) (\<lambda>(ok, s).
              if ok
              then
               (let s = upd_map m (\<lambda>v. v\<lparr>vsize := vsize v + (fin - vend (ent s p))\<rparr>) s
                in Inr (Some (KERN_SUCCESS, upd_ent p (\<lambda>v. v\<lparr>vend := fin\<rparr>) s)))
              else insert_new m q off start fin p s)
       else insert_new m q off start fin p u))"
      unfolding vm_map_insert_def if_not_P [OF False] h(1) be u_def [symmetric] using nf by simp
    show ?thesis
    proof (cases "ys \<noteq> [] \<and> vstart (ent s (hd ys)) < fin")
      case True
      then obtain y zs where y: "ys = y # zs" by (cases ys) auto
      then have o: "ordered (ent s) (vm_map_min m s) (xs @ y # zs) (vm_map_max m s)" using ord xy(1) by simp
      have "mview s es (vstart (ent s y)) \<noteq> None"
        using view_in_split [OF o, of "vstart (ent s y)"] ordered_split(2) [OF o] xy(1) y by (simp add: mview_def)
      then have "?taken" using xy(4) True y by (intro exI [of _ "vstart (ent s y)"]) auto
      moreover have "y \<noteq> Hdr m" using inv xy(1) y by (auto simp: map_inv_def ring_def)
      then have "vm_map_insert m q off start fin s = Inr (Some (KERN_NO_SPACE, u))" using eq True nx y by (simp add: eu)
      ultimately show ?thesis by (rule taken)
    next
      case fits: False
      have ab: "\<forall>y\<in>set ys. fin \<le> vstart (ent s y)"
      proof (cases ys)
        case (Cons y zs)
        then have o: "ordered (ent s) (vm_map_min m s) (xs @ y # zs) (vm_map_max m s)" using ord xy(1) by simp
        have y: "fin \<le> vstart (ent s y)" using fits Cons by (simp add: not_less)
        then have "fin \<le> vstart (ent s z)" if "z \<in> set zs" for z
          using ordered_before(2) [OF o that] ordered_split(2) [OF o] by (meson less_imp_le order.trans)
        then show ?thesis using Cons y by simp
      qed simp
      have nt: "\<not> ?taken"
      proof -
        have "mview s es a = None" if "start \<le> a" "a < fin" for a
        proof -
          have "view_in (ent s) xs a = None" using xy(3) that(1) unfolding view_in_None covers_def by (meson leD order.trans)
          moreover have "view_in (ent s) ys a = None" using ab that(2) unfolding view_in_None covers_def by (meson leD less_le_trans)
          ultimately show ?thesis using xy(1) by (simp add: mview_def view_in_append)
        qed
        then show ?thesis by simp
      qed
      have iu: "map_inv u m (xs @ ys)" "entries_free u (xs @ ys)" "0 < avail m u" "\<forall>x\<in>set xs. vend (ent u x) \<le> start"
          "\<forall>y\<in>set ys. fin \<le> vstart (ent u y)" "vm_map_min m u \<le> start" "fin \<le> vm_map_max m u" "is_main_map (vmap u m)"
        using U H(3) av xy b ab main by (simp_all add: eu)
      have ok': "obj_ok u (vobject (ent u (last xs)))" if "xs \<noteq> []" "\<not> is_a_map (ent u (last xs))" "\<not> is_sub_map (ent u (last xs))"
      proof -
        note prem = that
        obtain zs e where ze: "xs = zs @ [e]" using prem(1) by (metis append_butlast_last_id)
        then have o: "ordered (ent s) (vm_map_min m s) (zs @ e # ys) (vm_map_max m s)" using ord xy(1) by simp
        have "mview s es (vstart (ent s e)) = Some (view (ent s e) (vstart (ent s e)))"
          using view_in_split [OF o, of "vstart (ent s e)"] ordered_split(2) [OF o] xy(1) ze by (simp add: mview_def)
        then have "view (ent s e) (vstart (ent s e)) \<in> ran (mview s es)" by (rule ranI)
        then have "obj_ok s (vobject (ent s e))" using ok prem ze eu by (auto simp: view_def)
        moreover have "obj_ok u x = obj_ok s x" for x
          by (rule obj_ok_cong) (simp_all add: u_def SAVE_HINT_def upd_map_def table_same_def)
        ultimately show ?thesis using ze eu by simp
      qed
      have "\<not> (vnext u p \<noteq> Hdr m \<and> vstart (ent u (vnext u p)) < fin)" using fits nx by (cases ys) (auto simp: eu)
      note eq' = eq [unfolded if_not_P [OF this]]
      from insert_free [OF iu(1-5) b(1) iu(6-8) ok' xy(2), of q off, folded eq'] obtain t es' where
        t: "vm_map_insert m q off start fin s = Inr (Some (KERN_SUCCESS, t))" "map_step m u (xs @ ys) t es'"
          "\<forall>a. if start \<le> a \<and> a < fin then \<exists>v. mview t es' a = Some v \<and> fresh_view q off start a v else mview t es' a = mview u (xs @ ys) a"
        by blast
      have "map_step m s es t es'" using map_step_trans [OF H(1)] t(2) xy(1) by simp
      then show ?thesis using t(1,3) False nt H(2) xy(1) by (intro exI [of _ KERN_SUCCESS] exI [of _ t] exI [of _ es']) simp
    qed
  qed
qed

text \<open>C10:
  \<^verbatim>\<open>vm_map_insert\<close> into a task map always returns.  A range outside the bounds of the map or empty is
  an invalid address, a range in which anything is mapped has no space, and every other range
  succeeds: afterwards exactly its addresses show the given object at the given offset with the
  default protection and inheritance (when no object is given, possibly as the continuation of
  the entry below), and no other address and no other map changes.
\<close>

theorem vm_map_insert_correct:
  assumes "map_inv s m es" and "entries_free s es" and "0 < avail m s" and "is_main_map (vmap s m)"
    and "\<forall>v\<in>ran (mview s es). \<not> is_a_map v \<and> \<not> is_sub_map v \<longrightarrow> obj_ok s (vobject v)"
  shows "\<exists>kr t es'. vm_map_insert m q off start fin s = Inr (Some (kr, t)) \<and> map_step m s es t es' \<and>
    kr = (if start < vm_map_min m s \<or> fin > vm_map_max m s \<or> start \<ge> fin then KERN_INVALID_ADDRESS
          else if \<exists>a. start \<le> a \<and> a < fin \<and> mview s es a \<noteq> None then KERN_NO_SPACE else KERN_SUCCESS) \<and>
    (\<forall>a. if kr = KERN_SUCCESS \<and> start \<le> a \<and> a < fin
       then \<exists>v. mview t es' a = Some v \<and> fresh_view q off start a v else mview t es' a = mview s es a)"
  using assms by (rule insert_correct)

lemma demo_objects: "\<forall>v\<in>ran (mview demo_maps [Ent 11, Ent 12]). \<not> is_a_map v \<and> \<not> is_sub_map v \<longrightarrow> obj_ok demo_maps (vobject v)"
  using demo_ran by (simp add: obj_ok_def)

theorem vm_map_insert_correct_witness:
  "\<exists>t es'. vm_map_insert 1 0 0 0x4000 0x5000 demo_maps = Inr (Some (KERN_SUCCESS, t)) \<and> map_step 1 demo_maps [Ent 11, Ent 12] t es' \<and>
     mview t es' 0x4000 \<noteq> None"
proof -
  have "mview demo_maps [Ent 11, Ent 12] a = None" if "0x4000 \<le> a" "a < 0x5000" for a
  proof -
    have "\<not> 0x6000 \<le> a" "\<not> a < 0x4000" using that le_less_trans [of "0x6000" a "0x5000"] by auto
    then show ?thesis unfolding mview_def view_in_None by (auto simp: demo_fields demo_entry_def covers_def)
  qed
  moreover have "vm_map_min 1 demo_maps = 0x1000" "vm_map_max 1 demo_maps = 0x10000"
    by (simp_all add: vm_map_min_def vm_map_max_def demo_fields demo_entry_def)
  ultimately have "\<not> ((0x4000 :: u32) < vm_map_min 1 demo_maps \<or> 0x5000 > vm_map_max 1 demo_maps \<or> (0x4000 :: u32) \<ge> 0x5000)"
      "\<not> (\<exists>a. 0x4000 \<le> a \<and> a < 0x5000 \<and> mview demo_maps [Ent 11, Ent 12] a \<noteq> None)" by auto
  moreover obtain kr t es' where t: "vm_map_insert 1 0 0 0x4000 0x5000 demo_maps = Inr (Some (kr, t))" "map_step 1 demo_maps [Ent 11, Ent 12] t es'"
    "kr = (if (0x4000 :: u32) < vm_map_min 1 demo_maps \<or> 0x5000 > vm_map_max 1 demo_maps \<or> (0x4000 :: u32) \<ge> 0x5000 then KERN_INVALID_ADDRESS
          else if \<exists>a. 0x4000 \<le> a \<and> a < 0x5000 \<and> mview demo_maps [Ent 11, Ent 12] a \<noteq> None then KERN_NO_SPACE else KERN_SUCCESS)"
    "\<forall>a. if kr = KERN_SUCCESS \<and> 0x4000 \<le> a \<and> a < 0x5000
       then \<exists>v. mview t es' a = Some v \<and> fresh_view 0 0 0x4000 a v else mview t es' a = mview demo_maps [Ent 11, Ent 12] a"
    using vm_map_insert_correct [OF demo_maps_ok(1,2,4,5) demo_objects, of 0 0 "0x4000" "0x5000"] by blast
  ultimately have "kr = KERN_SUCCESS" by (simp only: if_False)
  then show ?thesis using t(1,2) t(4) [rule_format, of "0x4000"] by auto
qed

subsection \<open>First fit\<close>

lemma wraps_iff: "(a :: u32) + len > mx \<or> a + len < a \<longleftrightarrow> unat a + unat len > unat mx"
proof (cases "unat a + unat len < 2 ^ 32")
  case True
  then have "unat (a + len) = unat a + unat len" by (simp add: unat_word_ariths)
  then show ?thesis by (auto simp: word_less_nat_alt)
next
  case False
  have "unat a < 2 ^ 32" "unat len < 2 ^ 32" "unat mx < 2 ^ 32" using u32_bound by simp_all
  moreover from this False have "unat (a + len) = unat a + unat len - 2 ^ 32" by (simp add: unat_word_ariths mod_if)
  ultimately show ?thesis using False by (auto simp: word_less_nat_alt)
qed

lemma no_wrap_add: "unat (a :: u32) + unat len \<le> unat (mx :: u32) \<Longrightarrow> unat (a + len) = unat a + unat len"
  using u32_bound [of mx] by (simp add: unat_word_ariths)

definition fits :: "'a vm_maps_scheme \<Rightarrow> ptr \<Rightarrow> eptr list \<Rightarrow> u32 \<Rightarrow> u32 \<Rightarrow> bool" where
  "fits s m es len a \<longleftrightarrow> unat a + unat len \<le> unat (vm_map_max m s) \<and>
     (\<forall>b. unat a \<le> unat b \<and> unat b < unat a + unat len \<longrightarrow> mview s es b = None)"

text \<open>The loop of \<^verbatim>\<open>vm_map_find\<close> finds the least place at or above where it starts.\<close>

lemma find_walk_correct:
  assumes "map_inv s m (xs @ ys)" and "length ys < n" and "p = last (Hdr m # xs)"
    and "\<forall>x\<in>set xs. vend (ent s x) \<le> start" and "\<forall>y\<in>set ys. start \<le> vstart (ent s y)"
  shows "\<exists>r. find_walk n m len p start s = Some r \<and>
    (case r of
       Inl _ \<Rightarrow> \<forall>b. start \<le> b \<longrightarrow> \<not> fits s m (xs @ ys) len b
     | Inr (e, a) \<Rightarrow> e \<in> insert (Hdr m) (set (xs @ ys)) \<and> start \<le> a \<and> fits s m (xs @ ys) len a \<and>
         (\<forall>b. start \<le> b \<and> b < a \<longrightarrow> \<not> fits s m (xs @ ys) len b))"
  using assms
proof (induction ys arbitrary: xs n p start)
  case Nil
  then obtain k where n: "n = Suc k" by (cases n) auto
  have nx: "vnext s p = Hdr m" using Nil.prems(1,3) nseg_last [of "vnext s" "Hdr m" xs "Hdr m"] by (simp add: map_inv_def ring_def)
  have pin: "p \<in> insert (Hdr m) (set xs)" using Nil.prems(3) last_in_set [of "Hdr m # xs"] by simp
  have free: "mview s xs b = None" if "start \<le> b" for b
    using Nil.prems(4) that unfolding mview_def view_in_None covers_def by (meson leD order.trans)
  show ?case
  proof (cases "unat start + unat len > unat (vm_map_max m s)")
    case True
    then have "find_walk n m len p start s = Some (Inl ())" using wraps_iff [of "vm_map_max m s" start len] n by (simp add: Let_def)
    moreover have "\<not> fits s m xs len b" if "start \<le> b" for b using True that by (auto simp: fits_def word_le_nat_alt)
    ultimately show ?thesis by simp
  next
    case False
    then have "find_walk n m len p start s = Some (Inr (p, start))" using wraps_iff [of "vm_map_max m s" start len] n nx by (simp add: Let_def)
    moreover have "fits s m xs len start" using False free by (auto simp: fits_def word_le_nat_alt)
    ultimately show ?thesis using pin by (auto dest: leD)
  qed
next
  case (Cons y ys)
  obtain k where n: "n = Suc k" "length ys < k" using Cons.prems(2) by (cases n) auto
  have rg: "ring s m (xs @ y # ys)" and ord: "ordered (ent s) (vm_map_min m s) (xs @ y # ys) (vm_map_max m s)"
    using Cons.prems(1) by (auto simp: map_inv_def)
  note N = ring_next(3,4) [OF rg]
  have nx: "vnext s p = y" "y \<noteq> Hdr m" using N Cons.prems(3) by simp_all
  have pin: "p \<in> insert (Hdr m) (set xs)" using Cons.prems(3) last_in_set [of "Hdr m # xs"] by simp
  let ?es = "xs @ y # ys"
  have sy: "start \<le> vstart (ent s y)" "vstart (ent s y) < vend (ent s y)" using Cons.prems(5) ordered_split(2) [OF ord] by simp_all
  have later: "\<forall>z\<in>set ys. vend (ent s y) \<le> vstart (ent s z)" using ordered_before(2) [OF ord] by blast
  show ?case
  proof (cases "unat start + unat len > unat (vm_map_max m s)")
    case True
    then have "find_walk n m len p start s = Some (Inl ())" using wraps_iff [of "vm_map_max m s" start len] n(1) by (simp add: Let_def)
    moreover have "\<not> fits s m ?es len b" if "start \<le> b" for b using True that by (auto simp: fits_def word_le_nat_alt)
    ultimately show ?thesis by simp
  next
    case False
    then have nw: "unat (start + len) = unat start + unat len" using no_wrap_add [of start len "vm_map_max m s"] by simp
    have step: "find_walk n m len p start s = (if vstart (ent s y) \<ge> start + len then Some (Inr (p, start))
        else find_walk k m len y (vend (ent s y)) s)"
      using wraps_iff [of "vm_map_max m s" start len] False n(1) nx by (simp add: Let_def)
    show ?thesis
    proof (cases "vstart (ent s y) \<ge> start + len")
      case True
      have "mview s ?es b = None" if "unat start \<le> unat b" "unat b < unat start + unat len" for b
      proof -
        have "b < vstart (ent s y)" using that True nw by (simp add: word_less_nat_alt word_le_nat_alt)
        moreover have "view_in (ent s) xs b = None"
          using Cons.prems(4) that(1) unfolding view_in_None covers_def word_le_nat_alt [symmetric] by (meson leD order.trans)
        ultimately show ?thesis using view_in_split [OF ord] by (simp add: mview_def)
      qed
      then have "fits s m ?es len start" using False by (simp add: fits_def)
      then show ?thesis using step True pin by (auto dest: leD)
    next
      case no: False
      have skip: "\<not> fits s m ?es len b" if "start \<le> b" "b < vend (ent s y)" for b
      proof
        assume F: "fits s m ?es len b"
        define c where "c = (if b \<le> vstart (ent s y) then vstart (ent s y) else b)"
        have "vstart (ent s y) \<le> c" "c < vend (ent s y)" using that sy by (auto simp: c_def)
        then have "mview s ?es c \<noteq> None" using view_in_split [OF ord, of c] by (simp add: mview_def leD)
        moreover have "unat b \<le> unat c" by (auto simp: c_def word_le_nat_alt)
        moreover have "unat c < unat b + unat len"
          using no nw sy that(1) by (auto simp: c_def word_less_nat_alt word_le_nat_alt)
        ultimately show False using F by (auto simp: fits_def)
      qed
      have "\<forall>x\<in>set (xs @ [y]). vend (ent s x) \<le> vend (ent s y)"
        using ordered_before(1) [OF ord] sy(2) by (auto intro: order.trans less_imp_le)
      have app: "(xs @ [y]) @ ys = ?es" by simp
      have "y = last (Hdr m # xs @ [y])" by simp
      from Cons.IH [of "xs @ [y]" k y, unfolded app, OF Cons.prems(1) n(2) this \<open>\<forall>x\<in>set (xs @ [y]). vend (ent s x) \<le> vend (ent s y)\<close> later] obtain r where
        r: "find_walk k m len y (vend (ent s y)) s = Some r"
          "case r of Inl _ \<Rightarrow> \<forall>b. vend (ent s y) \<le> b \<longrightarrow> \<not> fits s m ?es len b
           | Inr (e, a) \<Rightarrow> e \<in> insert (Hdr m) (set ?es) \<and> vend (ent s y) \<le> a \<and> fits s m ?es len a \<and>
               (\<forall>b. vend (ent s y) \<le> b \<and> b < a \<longrightarrow> \<not> fits s m ?es len b)"
        by blast
      have le: "start \<le> vend (ent s y)" using sy by simp
      show ?thesis
      proof (cases r)
        case (Inl w)
        have "\<not> fits s m ?es len b" if "start \<le> b" for b
        proof (cases "b < vend (ent s y)")
          case False
          then show ?thesis using r(2) Inl by (simp add: not_less)
        qed (rule skip [OF that])
        then show ?thesis using step no r(1) Inl by simp
      next
        case (Inr ea)
        then obtain e a where ea: "r = Inr (e, a)" by (cases ea) auto
        have R: "e \<in> insert (Hdr m) (set ?es)" "vend (ent s y) \<le> a" "fits s m ?es len a"
            "\<And>b. vend (ent s y) \<le> b \<Longrightarrow> b < a \<Longrightarrow> \<not> fits s m ?es len b"
          using r(2) ea by simp_all
        have "\<not> fits s m ?es len b" if "start \<le> b" "b < a" for b
        proof (cases "b < vend (ent s y)")
          case False
          then show ?thesis using R(4) that(2) by (simp add: not_less)
        qed (rule skip [OF that(1)])
        moreover have "start \<le> a" using le R(2) by simp
        ultimately show ?thesis using step no r(1) ea R(1,3) by simp
      qed
    qed
  qed
qed

text \<open>Where the search for space begins.\<close>

definition search_from :: "ptr \<Rightarrow> u32 \<Rightarrow> 'a vm_maps_scheme \<Rightarrow> u32" where
  "search_from m addr s =
    (let start = (if addr < vm_map_min m s then vm_map_min m s else addr)
     in if start = vm_map_min m s \<and> first_free (vmap s m) \<noteq> Hdr m then vend (ent s (first_free (vmap s m))) else start)"

lemma find_start_correct:
  assumes inv: "map_inv s m es" and free: "entries_free s es" and lo: "vm_map_min m s \<le> start"
  shows "\<exists>p b t xs ys. find_start m start s = Inr (Some ((p, b), t)) \<and> map_step m s es t es \<and> mview t es = mview s es \<and>
    avail m t = avail m s \<and> es = xs @ ys \<and> p = last (Hdr m # xs) \<and> start \<le> b \<and>
    (\<forall>x\<in>set xs. vend (ent t x) \<le> b) \<and> (\<forall>y\<in>set ys. b \<le> vstart (ent t y)) \<and>
    (start = vm_map_min m s \<longrightarrow> b = (if first_free (vmap s m) \<noteq> Hdr m then vend (ent s (first_free (vmap s m))) else start)) \<and>
    (start \<noteq> vm_map_min m s \<longrightarrow> (\<forall>a. start \<le> a \<and> a < b \<longrightarrow> mview s es a \<noteq> None)) \<and>
    obj_ok t = obj_ok s"
proof -
  have ord: "ordered (ent s) (vm_map_min m s) es (vm_map_max m s)" using inv by (simp add: map_inv_def)
  note B = ordered_bounds [OF ord]
  show ?thesis
  proof (cases "start = vm_map_min m s")
    case True
    define e where "e = first_free (vmap s m)"
    show ?thesis
    proof (cases "e = Hdr m")
      case h: True
      then have "find_start m start s = Inr (Some ((Hdr m, start), s))" using True by (simp add: find_start_def e_def)
      moreover have "\<forall>y\<in>set es. start \<le> vstart (ent s y)" using B True by blast
      ultimately show ?thesis using map_step_refl [OF inv free] True h
        by (intro exI [of _ "Hdr m"] exI [of _ start] exI [of _ s] exI [of _ "[]"] exI [of _ es]) (simp add: e_def)
    next
      case h: False
      then have "e \<in> set es" using inv by (auto simp: map_inv_def e_def)
      then obtain xs ys where es: "es = xs @ e # ys" by (meson split_list)
      note O = ordered_split [OF ord [unfolded es]] and Q = ordered_before [OF ord [unfolded es]]
      have "find_start m start s = Inr (Some ((e, vend (ent s e)), s))" using True h by (simp add: find_start_def e_def Let_def)
      moreover have "\<forall>x\<in>set (xs @ [e]). vend (ent s x) \<le> vend (ent s e)" using Q(1) O(2) by (auto intro: order.trans less_imp_le)
      moreover have "\<forall>y\<in>set ys. vend (ent s e) \<le> vstart (ent s y)" using Q(2) by blast
      moreover have "start \<le> vend (ent s e)" using B \<open>e \<in> set es\<close> True by (meson less_imp_le order.trans)
      ultimately show ?thesis using map_step_refl [OF inv free] True h es
        by (intro exI [of _ e] exI [of _ "vend (ent s e)"] exI [of _ s] exI [of _ "xs @ [e]"] exI [of _ ys]) (simp add: e_def)
    qed
  next
    case False
    obtain h where h: "vm_map_lookup_entry m start s = Inr (Some (lookup_ref (ent s) (Hdr m) es start, SAVE_HINT m h s))"
        "h \<in> insert (Hdr m) (set es)" using lookup_entry_ref [OF inv, of start] by blast
    define u where "u = SAVE_HINT m h s"
    note H = save_hint_step [OF inv free h(2), folded u_def]
    have eu: "ent u = ent s" by (simp add: u_def)
    have oku: "obj_ok u = obj_ok s"
      by (rule ext, rule obj_ok_cong) (simp_all add: u_def SAVE_HINT_def upd_map_def table_same_def)
    obtain f p where be: "lookup_ref (ent s) (Hdr m) es start = (f, p)" by (cases "lookup_ref (ent s) (Hdr m) es start")
    show ?thesis
    proof (cases f)
      case True
      then obtain xs ys where xy: "es = xs @ p # ys" "covers (ent s p) start" using lookup_ref_found [OF ord, of "Hdr m" start p] be by auto
      note O = ordered_split [OF ord [unfolded xy(1)]] and Q = ordered_before [OF ord [unfolded xy(1)]]
      have "find_start m start s = Inr (Some ((p, vend (ent s p)), u))" using False True h be by (simp add: find_start_def u_def)
      moreover have "\<forall>x\<in>set (xs @ [p]). vend (ent s x) \<le> vend (ent s p)" using Q(1) O(2) by (auto intro: order.trans less_imp_le)
      moreover have "\<forall>y\<in>set ys. vend (ent s p) \<le> vstart (ent s y)" using Q(2) by blast
      moreover have "start \<le> vend (ent s p)" using xy(2) by (auto simp: covers_def)
      moreover have "mview s es a \<noteq> None" if "start \<le> a \<and> a < vend (ent s p)" for a
      proof -
        have "covers (ent s p) a" using that xy(2) by (auto simp: covers_def)
        then show ?thesis using xy(1) unfolding mview_def view_in_None by auto
      qed
      ultimately show ?thesis using H oku False xy(1)
        by (intro exI [of _ p] exI [of _ "vend (ent s p)"] exI [of _ u] exI [of _ "xs @ [p]"] exI [of _ ys]) (simp add: eu)
    next
      case nf: False
      then obtain xs ys where xy: "es = xs @ ys" "p = last (Hdr m # xs)" "\<forall>x\<in>set xs. vend (ent s x) \<le> start"
          "\<forall>y\<in>set ys. start < vstart (ent s y)" using lookup_ref_missed [OF ord, of "Hdr m" start p] be by auto
      have "find_start m start s = Inr (Some ((p, start), u))" using False nf h be by (simp add: find_start_def u_def)
      then show ?thesis using H oku False xy
        by (intro exI [of _ p] exI [of _ start] exI [of _ u] exI [of _ xs] exI [of _ ys]) (auto simp: eu)
    qed
  qed
qed

text \<open>Inserting at a place where the length fits.\<close>

lemma insert_found:
  assumes inv: "map_inv t m es" and free: "entries_free t es" and av: "0 < avail m t" and main: "is_main_map (vmap t m)"
    and ok: "\<forall>v\<in>ran (mview t es). \<not> is_a_map v \<and> \<not> is_sub_map v \<longrightarrow> obj_ok t (vobject v)"
    and e: "e \<in> insert (Hdr m) (set es)" and fit: "fits t m es len a" and lo: "vm_map_min m t \<le> a" and len: "0 < len"
  shows "\<exists>w es'. vm_map_insert m q off a (a + len) (SAVE_HINT m e t) = Inr (Some (KERN_SUCCESS, w)) \<and> map_step m t es w es' \<and>
    (\<forall>b. if a \<le> b \<and> b < a + len then \<exists>v. mview w es' b = Some v \<and> fresh_view q off a b v else mview w es' b = mview t es b)"
proof -
  define u where "u = SAVE_HINT m e t"
  note H = save_hint_step [OF inv free e, folded u_def] and U = map_stepD [OF save_hint_step(1) [OF inv free e, folded u_def]]
  have oku: "obj_ok u = obj_ok t"
    by (rule ext, rule obj_ok_cong) (simp_all add: u_def SAVE_HINT_def upd_map_def table_same_def)
  have au: "0 < avail m u" and mu: "is_main_map (vmap u m)" and vu: "mview u es = mview t es" using av main H U(7) by simp_all
  have ru: "\<forall>v\<in>ran (mview u es). \<not> is_a_map v \<and> \<not> is_sub_map v \<longrightarrow> obj_ok u (vobject v)" using ok vu oku by simp
  obtain kr w es' where w: "vm_map_insert m q off a (a + len) u = Inr (Some (kr, w))" "map_step m u es w es'"
      "kr = (if a < vm_map_min m u \<or> a + len > vm_map_max m u \<or> a \<ge> a + len then KERN_INVALID_ADDRESS
        else if \<exists>b. a \<le> b \<and> b < a + len \<and> mview u es b \<noteq> None then KERN_NO_SPACE else KERN_SUCCESS)"
      "\<forall>b. if kr = KERN_SUCCESS \<and> a \<le> b \<and> b < a + len then \<exists>v. mview w es' b = Some v \<and> fresh_view q off a b v
         else mview w es' b = mview u es b"
    using insert_correct [OF U(1,2) au mu ru, of q off a "a + len"] by blast
  have sum: "unat (a + len) = unat a + unat len" "unat a + unat len \<le> unat (vm_map_max m t)"
    using fit no_wrap_add [of a len "vm_map_max m t"] by (simp_all add: fits_def)
  have "\<not> a < vm_map_min m u" using U(5) lo by (simp add: not_less)
  moreover have "\<not> a + len > vm_map_max m u" using sum U(6) by (simp add: word_less_nat_alt)
  moreover have "\<not> a \<ge> a + len" using sum len by (simp add: word_less_nat_alt word_le_nat_alt)
  moreover have "\<not> (\<exists>b. a \<le> b \<and> b < a + len \<and> mview u es b \<noteq> None)"
    using fit sum vu by (auto simp: fits_def word_less_nat_alt word_le_nat_alt)
  ultimately have "kr = KERN_SUCCESS" using w(3) by simp
  then show ?thesis using w(1,2,4) vu map_step_trans [OF H(1)] by (intro exI [of _ w] exI [of _ es']) (simp add: u_def)
qed

lemma find_space_correct:
  assumes "map_inv s m es" and "entries_free s es" and "0 < avail m s" and "is_main_map (vmap s m)"
    and "\<forall>v\<in>ran (mview s es). \<not> is_a_map v \<and> \<not> is_sub_map v \<longrightarrow> obj_ok s (vobject v)" and "0 < len"
  shows "\<exists>kr a t es'. vm_map_find m q off addr len True s = Inr (Some (kr, a, t)) \<and> map_step m s es t es' \<and>
    (kr = KERN_NO_SPACE \<and> a = addr \<and> mview t es' = mview s es \<and>
       (\<forall>b. search_from m addr s \<le> b \<longrightarrow> \<not> fits s m es len b) \<or>
     kr = KERN_SUCCESS \<and> search_from m addr s \<le> a \<and> fits s m es len a \<and>
       (\<forall>b. search_from m addr s \<le> b \<and> b < a \<longrightarrow> \<not> fits s m es len b) \<and>
       (\<forall>b. if a \<le> b \<and> b < a + len then \<exists>v. mview t es' b = Some v \<and> fresh_view q off a b v
            else mview t es' b = mview s es b))"
proof -
  define l where "l = vm_map_lock m s"
  have sl: "maps_same s l" unfolding l_def by (rule map_lock_same)
  note D = maps_sameD [OF sl] and I = maps_same_inv [OF sl]
  have il: "map_inv l m es" "entries_free l es" "map_step m s es l es" "mview l es = mview s es"
    using assms(1,2) I maps_same_step [OF sl] by simp_all
  have okl: "obj_ok l = obj_ok s"
    by (rule ext, rule obj_ok_cong) (simp_all add: l_def vm_map_lock_def upd_map_def table_same_def)
  define st where "st = (if addr < vm_map_min m s then vm_map_min m s else addr)"
  have lo: "vm_map_min m l \<le> st" by (auto simp: st_def D not_less)
  have fl: "fits l m es len b = fits s m es len b" for b by (simp add: fits_def il(4) D)
  have bnd: "vm_map_min m s \<le> vm_map_max m s" using ordered_bounds [of "ent s"] assms(1) by (auto simp: map_inv_def)
  have start: "vm_map_find m q off addr len True s =
     (if st > vm_map_max m s then Inr (Some (KERN_NO_SPACE, addr, l))
      else rbind (find_start m st l) (\<lambda>((entry, start), s).
         case find_walk (walk_fuel m s) m len entry start s of
           None \<Rightarrow> Inr None
         | Some (Inl _) \<Rightarrow> Inr (Some (KERN_NO_SPACE, addr, s))
         | Some (Inr (entry, start)) \<Rightarrow>
             rbind (vm_map_insert m q off start (start + len) (SAVE_HINT m entry s))
               (\<lambda>(result, s). Inr (Some (result, start, s)))))"
    unfolding vm_map_find_def Let_def l_def [symmetric] D(13,14) st_def [symmetric] by simp
  show ?thesis
  proof (cases "st > vm_map_max m s")
    case True
    then have "vm_map_find m q off addr len True s = Inr (Some (KERN_NO_SPACE, addr, l))" using start by simp
    moreover have "search_from m addr s = st" using True bnd by (auto simp: search_from_def st_def Let_def)
    moreover have "\<not> fits s m es len b" if "st \<le> b" for b
      using True that by (auto simp: fits_def word_less_nat_alt word_le_nat_alt)
    ultimately show ?thesis using il(3,4) by (intro exI [of _ KERN_NO_SPACE] exI [of _ addr] exI [of _ l] exI [of _ es]) simp
  next
    case False
    obtain p c t xs ys where t: "find_start m st l = Inr (Some ((p, c), t))" "map_step m l es t es" "mview t es = mview l es"
        "avail m t = avail m l" "es = xs @ ys" "p = last (Hdr m # xs)" "st \<le> c" "\<forall>x\<in>set xs. vend (ent t x) \<le> c"
        "\<forall>y\<in>set ys. c \<le> vstart (ent t y)"
        "st = vm_map_min m l \<longrightarrow> c = (if first_free (vmap l m) \<noteq> Hdr m then vend (ent l (first_free (vmap l m))) else st)"
        "st \<noteq> vm_map_min m l \<longrightarrow> (\<forall>a. st \<le> a \<and> a < c \<longrightarrow> mview l es a \<noteq> None)" "obj_ok t = obj_ok l"
      using find_start_correct [OF il(1,2) lo] by blast
    note T = map_stepD [OF t(2)]
    have ft: "fits t m es len b = fits s m es len b" for b using fl by (simp add: fits_def t(3) T(6) D)
    have origin: "search_from m addr s \<le> b \<longleftrightarrow> c \<le> b" if "fits s m es len b" for b
    proof (cases "st = vm_map_min m s")
      case True
      then show ?thesis using t(10) by (simp add: search_from_def st_def [symmetric] Let_def D)
    next
      case ne: False
      then have "search_from m addr s = st" by (simp add: search_from_def st_def [symmetric] Let_def)
      moreover have "c \<le> b" if "st \<le> b"
      proof (rule ccontr)
        assume "\<not> c \<le> b"
        then have "mview s es b \<noteq> None" using t(11) ne that il(4) D(13) [of m] by (simp add: not_le)
        moreover have "mview s es b = None" using \<open>fits s m es len b\<close> assms(6) by (simp add: fits_def word_less_nat_alt)
        ultimately show False by simp
      qed
      ultimately show ?thesis using t(7) by (auto intro: order.trans)
    qed
    have "length ys < walk_fuel m t" using fuel_enough [OF T(1)] t(5) by simp
    from find_walk_correct [OF T(1) [unfolded t(5)] this t(6,8,9), of len, folded t(5), unfolded ft] obtain r where
      r: "find_walk (walk_fuel m t) m len p c t = Some r"
        "case r of Inl _ \<Rightarrow> \<forall>b. c \<le> b \<longrightarrow> \<not> fits s m es len b
         | Inr (e, a) \<Rightarrow> e \<in> insert (Hdr m) (set es) \<and> c \<le> a \<and> fits s m es len a \<and> (\<forall>b. c \<le> b \<and> b < a \<longrightarrow> \<not> fits s m es len b)"
      by blast
    have find: "vm_map_find m q off addr len True s = (case r of
           Inl _ \<Rightarrow> Inr (Some (KERN_NO_SPACE, addr, t))
         | Inr (entry, start) \<Rightarrow> rbind (vm_map_insert m q off start (start + len) (SAVE_HINT m entry t))
               (\<lambda>(result, s). Inr (Some (result, start, s))))"
      using False t(1) r(1) by (simp add: start split: sum.split)
    have stt: "map_step m s es t es" using map_step_trans [OF il(3) t(2)] .
    show ?thesis
    proof (cases r)
      case (Inl w)
      then have "\<not> fits s m es len b" if "search_from m addr s \<le> b" for b using r(2) origin that by auto
      then show ?thesis using find Inl stt t(3) il(4) by (intro exI [of _ KERN_NO_SPACE] exI [of _ addr] exI [of _ t] exI [of _ es]) simp
    next
      case (Inr ea)
      obtain e a where ea: "ea = (e, a)" by (cases ea)
      have R: "e \<in> insert (Hdr m) (set es)" "c \<le> a" "fits s m es len a" "\<And>b. c \<le> b \<Longrightarrow> b < a \<Longrightarrow> \<not> fits s m es len b"
        using r(2) Inr ea by simp_all
      have lo': "vm_map_min m t \<le> a" using lo t(7) R(2) T(5) D(13) [of m] by simp
      have mt: "is_main_map (vmap t m)" "0 < avail m t" using assms(3,4) T(7) t(4) D(9,12) [of m] by simp_all
      have rt: "\<forall>v\<in>ran (mview t es). \<not> is_a_map v \<and> \<not> is_sub_map v \<longrightarrow> obj_ok t (vobject v)" using assms(5) t(3,12) il(4) okl by simp
      have ftt: "fits t m es len a" using R(3) ft by simp
      obtain w es' where w: "vm_map_insert m q off a (a + len) (SAVE_HINT m e t) = Inr (Some (KERN_SUCCESS, w))" "map_step m t es w es'"
          "\<forall>b. if a \<le> b \<and> b < a + len then \<exists>v. mview w es' b = Some v \<and> fresh_view q off a b v else mview w es' b = mview t es b"
        using insert_found [OF T(1,2) mt(2,1) rt R(1) ftt lo' assms(6)] by blast
      have "vm_map_find m q off addr len True s = Inr (Some (KERN_SUCCESS, a, w))"
        using find Inr ea w(1) by simp
      moreover have "map_step m s es w es'" using map_step_trans [OF stt w(2)] .
      moreover have "search_from m addr s \<le> a" using origin [OF R(3)] R(2) by simp
      moreover have "\<not> fits s m es len b" if "search_from m addr s \<le> b \<and> b < a" for b using origin [of b] R(4) that by blast
      ultimately show ?thesis using R(3) w(3) t(3) il(4)
        by (intro exI [of _ KERN_SUCCESS] exI [of _ a] exI [of _ w] exI [of _ es']) simp
    qed
  qed
qed

text \<open>C17:
  \<^verbatim>\<open>vm_map_find\<close> with \<^verbatim>\<open>find_space\<close> and a positive length always returns on a task map.  Either it
  reports that there is no space, and then the length fits nowhere at or above the place where
  the search begins; or it succeeds, and the address it returns is the least one, from that
  place on, where the length fits inside the bounds without touching anything mapped and without
  wrapping around, and exactly the range found is newly mapped.  The search begins at the address
  asked for, except that a search from the bottom of the map begins at the end of the entry the
  free-space hint names.
\<close>

theorem vm_map_find_first_fit:
  assumes "map_inv s m es" and "entries_free s es" and "0 < avail m s" and "is_main_map (vmap s m)"
    and "\<forall>v\<in>ran (mview s es). \<not> is_a_map v \<and> \<not> is_sub_map v \<longrightarrow> obj_ok s (vobject v)" and "0 < len"
  shows "\<exists>kr a t es'. vm_map_find m q off addr len True s = Inr (Some (kr, a, t)) \<and> map_step m s es t es' \<and>
    (kr = KERN_NO_SPACE \<and> a = addr \<and> mview t es' = mview s es \<and>
       (\<forall>b. search_from m addr s \<le> b \<longrightarrow> \<not> fits s m es len b) \<or>
     kr = KERN_SUCCESS \<and> search_from m addr s \<le> a \<and> fits s m es len a \<and>
       (\<forall>b. search_from m addr s \<le> b \<and> b < a \<longrightarrow> \<not> fits s m es len b) \<and>
       (\<forall>b. if a \<le> b \<and> b < a + len then \<exists>v. mview t es' b = Some v \<and> fresh_view q off a b v
            else mview t es' b = mview s es b))"
  using assms by (rule find_space_correct)

theorem vm_map_find_first_fit_witness:
  "\<exists>kr a t es'. vm_map_find 1 0 0 0x2000 0x1000 True demo_maps = Inr (Some (kr, a, t)) \<and> map_step 1 demo_maps [Ent 11, Ent 12] t es' \<and>
     (kr = KERN_SUCCESS \<longrightarrow> fits demo_maps 1 [Ent 11, Ent 12] 0x1000 a)"
proof -
  have "(0 :: u32) < 0x1000" by simp
  from vm_map_find_first_fit [OF demo_maps_ok(1,2,4,5) demo_objects this, of 0 0 "0x2000"] show ?thesis by auto
qed

subsection \<open>A hole the search misses\<close>


end
