(* ===== verification/VmMapDelete.thy ===== *)
theory VmMapDelete
  imports VmMapAlloc
begin

text \<open>
  Removing memory from a map: \<^verbatim>\<open>vm_map_delete\<close> and \<^verbatim>\<open>vm_map_remove\<close>, for ranges that no sharing map or
  submap handles.  The map layer and the object layer meet here: every entry holds a reference to
  its object, and the theorem says that after a removal the reference counts of the objects are
  again exact.
\<close>

subsection \<open>Well-formed objects\<close>

definition objs_wf :: "(ptr \<Rightarrow> int) \<Rightarrow> 'a vm_objs_scheme \<Rightarrow> bool" where
  "objs_wf ext s \<longleftrightarrow> refs_inv ext s \<and> table_inv s \<and> 0 \<notin> set (vm_object_list s) \<and>
     (\<forall>x\<in>set (vm_object_list s). disposable s x \<and> (\<exists>xs. chain s x xs \<and> set xs \<subseteq> set (vm_object_list s)))"

lemma objs_wf_truncate: "objs_wf ext (vm_objs.truncate s) = objs_wf ext s"
proof -
  have "chain (vm_objs.truncate s) x xs = chain s x xs" for x xs by (rule chain_cong) (simp add: vm_objs.truncate_def)
  moreover have "table_inv (vm_objs.truncate s) = table_inv s"
    by (rule table_same_inv) (simp add: table_same_def vm_objs.truncate_def)
  ultimately show ?thesis by (simp add: objs_wf_def refs_inv_def disposable_def vm_objs.truncate_def)
qed

lemma objs_wf_same: "vm_objs.truncate t = vm_objs.truncate s \<Longrightarrow> objs_wf ext t = objs_wf ext s"
  using objs_wf_truncate by metis

lemma objs_wf_cong: "(\<And>x. x \<in> set (vm_object_list s) \<Longrightarrow> ext' x = ext x) \<Longrightarrow> objs_wf ext' s = objs_wf ext s"
  using refs_inv_cong unfolding objs_wf_def by blast

lemma objs_wf_frame:
  assumes "objs_wf ext s" and "page_frame s t" and "table_inv t"
  shows "objs_wf ext t"
proof -
  note F = page_frameD [OF assms(2)] and M = page_frame_more [OF assms(2)]
  have "chain t x xs = chain s x xs" for x xs by (rule chain_cong) (simp add: F)
  then show ?thesis using assms(1,3) by (simp add: objs_wf_def refs_inv_def disposable_def F M)
qed

lemma objs_wf_reference:
  assumes "objs_wf ext s" and "q = 0 \<or> q \<in> set (vm_object_list s)"
  shows "objs_wf (ext(q := ext q + 1)) (vm_object_reference q s)"
proof (cases "q = 0")
  case True
  have "0 \<notin> set (vm_object_list s)" using assms(1) by (simp add: objs_wf_def)
  from refs_inv_out [OF this, of ext] show ?thesis using True assms(1) by (simp add: vm_object_reference_def objs_wf_def)
next
  case False
  let ?t = "vm_object_reference q s"
  have f: "shadow (obj ?t x) = shadow (obj s x)" "o_refs (obj ?t x) = o_refs (obj s x) + (if x = q then 1 else 0)"
      "copy_obj (obj ?t x) = copy_obj (obj s x)" "can_persist (obj ?t x) = can_persist (obj s x)"
      "paging_in_progress (obj ?t x) = paging_in_progress (obj s x)" "vm_object_list ?t = vm_object_list s" for x
    using False by (simp_all add: vm_object_reference_def upd_obj_def)
  have "chain ?t x xs = chain s x xs" for x xs by (rule chain_cong) (simp add: f)
  moreover have "table_inv ?t = table_inv s" by (rule table_same_inv) (simp add: table_same_def vm_object_reference_def)
  ultimately show ?thesis using assms by (auto simp: objs_wf_def refs_inv_def disposable_def f)
qed

lemma chain_closed:
  assumes "\<forall>x\<in>L. shadow (obj s x) = 0 \<or> shadow (obj s x) \<in> L"
  shows "chain s x xs \<Longrightarrow> x = 0 \<or> x \<in> L \<Longrightarrow> set xs \<subseteq> L"
proof (induction xs arbitrary: x)
  case (Cons y ys)
  then have "y \<in> L" "chain s (shadow (obj s y)) ys" by auto
  then show ?case using Cons.IH [of "shadow (obj s y)"] assms by simp
qed simp

lemma objs_wf_deallocate:
  assumes wf: "objs_wf ext s" and q: "q \<noteq> 0 \<Longrightarrow> q \<in> set (vm_object_list s) \<and> 1 \<le> ext q" and n: "length (vm_object_list s) < n"
  shows "\<exists>t. vm_object_deallocate n q s = Inr (Some t) \<and> objs_wf (ext(q := ext q - 1)) t \<and>
    length (vm_object_list t) \<le> length (vm_object_list s) \<and>
    (\<forall>x\<in>set (vm_object_list s). (ext(q := ext q - 1)) x \<noteq> 0 \<longrightarrow> x \<in> set (vm_object_list t))"
proof -
  have w: "refs_inv ext s" "table_inv s" "0 \<notin> set (vm_object_list s)"
    "\<And>x. x \<in> set (vm_object_list s) \<Longrightarrow> disposable s x \<and> (\<exists>xs. chain s x xs \<and> set xs \<subseteq> set (vm_object_list s))"
    using wf unfolding objs_wf_def by blast+
  obtain xs where xs: "chain s q xs" "set xs \<subseteq> set (vm_object_list s)"
    using q w(4) by (cases "q = 0") (auto intro: that [of "[]"])
  have "length xs \<le> length (vm_object_list s)"
    using chain_distinct [OF xs(1)] xs(2) by (metis card_length card_mono distinct_card finite_set order.trans)
  then have len: "length xs < n" using n by simp
  have disp: "disposable s x" if "x \<in> set xs" for x using that xs(2) w(4) by blast
  from deallocate_correct [OF w(1,2) xs w(3) _ disp len] q obtain t k where
    t: "vm_object_deallocate n q s = Inr (Some t)" "table_inv t" "refs_inv (ext(q := ext q - 1)) t"
      "vm_object_list t = filter (\<lambda>x. x \<notin> set (take k xs)) (vm_object_list s)"
      "\<And>y. y \<in> set (vm_object_list s) \<Longrightarrow> y \<notin> set (vm_object_list t) \<Longrightarrow> (ext(q := ext q - 1)) y = 0"
      "\<And>y. shadow (obj t y) = shadow (obj s y) \<and> paging_in_progress (obj t y) = paging_in_progress (obj s y) \<and>
       can_persist (obj t y) = can_persist (obj s y) \<and> (copy_obj (obj t y) = 0 \<or> copy_obj (obj t y) = copy_obj (obj s y))"
    by blast
  have sub: "set (vm_object_list t) \<subseteq> set (vm_object_list s)" using t(4) by auto
  have ch: "chain t x ys = chain s x ys" for x ys by (rule chain_cong) (simp add: t(6))
  have cl: "\<exists>ys. chain t x ys \<and> set ys \<subseteq> set (vm_object_list t)" if "x \<in> set (vm_object_list t)" for x
  proof -
    have x: "x \<in> set (vm_object_list t)" by (rule that)
    have "\<forall>x\<in>set (vm_object_list t). shadow (obj t x) = 0 \<or> shadow (obj t x) \<in> set (vm_object_list t)"
      using t(3) by (simp add: refs_inv_def)
    note closed = chain_closed [OF this]
    obtain ys where "chain s x ys" using w(4) x sub by blast
    then show ?thesis using ch closed [of x ys] x by blast
  qed
  have "disposable t x" if "x \<in> set (vm_object_list t)" for x
    using w(4) [of x] that sub t(6) [of x] t(6) [of "shadow (obj s x)"] by (auto simp: disposable_def)
  then have "objs_wf (ext(q := ext q - 1)) t" using t(2,3) w(3) sub cl unfolding objs_wf_def by blast
  moreover have "length (vm_object_list t) \<le> length (vm_object_list s)" unfolding t(4) by (rule length_filter_le)
  ultimately show ?thesis using t(1,5) by blast
qed

subsection \<open>The references a map holds\<close>

definition cnt :: "(eptr \<Rightarrow> vm_map_entry) \<Rightarrow> eptr list \<Rightarrow> ptr \<Rightarrow> int" where
  "cnt E es q = int (length (filter (\<lambda>e. vobject (E e) = q) es))"

text \<open>
  Every entry refers to a live object or to none, and the references of the map together with
  \<open>rest\<close>, those held elsewhere, make the reference counts.
\<close>

definition refs_ok :: "(ptr \<Rightarrow> int) \<Rightarrow> 'a vm_maps_scheme \<Rightarrow> eptr list \<Rightarrow> bool" where
  "refs_ok rest s es \<longleftrightarrow> objs_wf (\<lambda>q. cnt (ent s) es q + rest q) s \<and> (\<forall>q. 0 \<le> rest q) \<and>
     (\<forall>e\<in>set es. \<not> is_a_map (ent s e) \<and> \<not> is_sub_map (ent s e) \<and>
        (vobject (ent s e) = 0 \<or> vobject (ent s e) \<in> set (vm_object_list s)))"

lemma cnt_append: "cnt E (xs @ ys) q = cnt E xs q + cnt E ys q"
  by (simp add: cnt_def)

lemma cnt_Cons: "cnt E (x # xs) q = (if vobject (E x) = q then 1 else 0) + cnt E xs q"
  by (simp add: cnt_def)

lemma cnt_cong: "(\<And>e. e \<in> set es \<Longrightarrow> vobject (E e) = vobject (F e)) \<Longrightarrow> cnt E es q = cnt F es q"
  unfolding cnt_def by (metis (mono_tags, lifting) filter_cong)

lemma cnt_pos: "e \<in> set es \<Longrightarrow> 0 < cnt E es (vobject (E e))"
  by (auto simp: cnt_def filter_empty_conv)

lemma cnt_nonneg: "0 \<le> cnt E es q"
  by (simp add: cnt_def)

text \<open>Clipping takes a reference for the new entry.\<close>

lemma refs_ok_split:
  assumes ok: "refs_ok rest s (xs @ e # ys)" and t: "vm_objs.truncate t = vm_objs.truncate (vm_object_reference (vobject (ent s e)) s)"
    and same: "\<And>f. f \<in> set (xs @ ys) \<Longrightarrow> ent t f = ent s f"
    and ab: "\<And>z. z \<in> {a, b} \<Longrightarrow> vobject (ent t z) = vobject (ent s e) \<and> \<not> is_a_map (ent t z) \<and> \<not> is_sub_map (ent t z)"
  shows "refs_ok rest t (xs @ a # b # ys)"
proof -
  let ?q = "vobject (ent s e)" and ?r = "vm_object_reference (vobject (ent s e)) s"
  define ext where "ext = (\<lambda>q. cnt (ent s) (xs @ e # ys) q + rest q)"
  have q: "?q = 0 \<or> ?q \<in> set (vm_object_list s)" and wf: "objs_wf ext s" using ok by (auto simp: refs_ok_def ext_def)
  have lt: "vm_object_list t = vm_object_list s"
  proof -
    have "vm_object_list (vm_objs.truncate t) = vm_object_list (vm_objs.truncate ?r)" using t by simp
    then show ?thesis by (simp add: vm_objs.truncate_def vm_object_reference_def upd_obj_def split: if_splits)
  qed
  have "objs_wf (ext(?q := ext ?q + 1)) t" using objs_wf_reference [OF wf q] objs_wf_same [OF t] by simp
  moreover have "ext(?q := ext ?q + 1) = (\<lambda>q. cnt (ent t) (xs @ a # b # ys) q + rest q)"
  proof (rule ext)
    fix q
    have "cnt (ent t) xs q = cnt (ent s) xs q" "cnt (ent t) ys q = cnt (ent s) ys q" using same by (auto intro!: cnt_cong)
    then show "(ext(?q := ext ?q + 1)) q = cnt (ent t) (xs @ a # b # ys) q + rest q"
      using ab [of a] ab [of b] by (auto simp: ext_def cnt_append cnt_Cons)
  qed
  ultimately show ?thesis using ok same ab q unfolding refs_ok_def lt by auto
qed

subsection \<open>Deleting an entry\<close>

lemma refs_ok_cong:
  assumes "refs_ok rest s es" and "objs_wf (\<lambda>q. cnt (ent s) es q + rest q) t" and "vm_object_list t = vm_object_list s"
    and "\<And>e. e \<in> set es \<Longrightarrow> vobject (ent t e) = vobject (ent s e) \<and> is_a_map (ent t e) = is_a_map (ent s e) \<and> is_sub_map (ent t e) = is_sub_map (ent s e)"
  shows "refs_ok rest t es"
proof -
  have "cnt (ent t) es q = cnt (ent s) es q" for q using assms(4) by (intro cnt_cong) simp
  then show ?thesis using assms unfolding refs_ok_def by simp
qed

definition step_frame :: "ptr \<Rightarrow> 'a vm_maps_scheme \<Rightarrow> 'a vm_maps_scheme \<Rightarrow> bool" where
  "step_frame m s t \<longleftrightarrow> hint (vmap t m) = hint (vmap s m) \<and> first_free (vmap t m) = first_free (vmap s m) \<and>
     avail m s \<le> avail m t \<and> length (vm_object_list t) \<le> length (vm_object_list s)"

lemma unmap_correct:
  assumes inv: "map_inv s m es" and free: "entries_free s es" and e: "e \<in> set es" and ok: "refs_ok rest s es"
  defines "t \<equiv> delete_unmap m e s"
  shows "map_step m s es t es" "ent t = (ent s)(e := (ent s e)\<lparr>wired_count := 0\<rparr>)" "vnext t = vnext s" "refs_ok rest t es" "step_frame m s t"
proof -
  define u where "u = (if wired_count (ent s e) \<noteq> 0 then vm_map_entry_unwire m e s else s)"
  define q where "q = vobject (ent s e)"
  define off where "off = voffset (ent s e)"
  define fin where "fin = off + (vend (ent s e) - vstart (ent s e))"
  define w where "w = (if q = kernel_object u then vm_object_page_remove q off fin u else u)"
  define x where "x = (if \<not> is_main_map (vmap w m) then vm_object_pmap_remove q off fin w else w)"
  have U: "map_step m s es u es" "ent u = (ent s)(e := (ent s e)\<lparr>wired_count := 0\<rparr>)" "vnext u = vnext s" "vmap u = vmap s"
      "avail m u = avail m s" "vm_objs.truncate u = vm_objs.truncate s"
  proof -
    have f: "maps_same s (fault_do (FaultUnwire m e) s)" by (rule fault_do_same)
    have if': "map_inv (fault_do (FaultUnwire m e) s) m es" "entries_free (fault_do (FaultUnwire m e) s) es"
      using maps_same_inv [OF f] inv free by simp_all
    note S = upd_ent_step [OF if' e, of "\<lambda>v. v\<lparr>wired_count := 0\<rparr>"]
    show "map_step m s es u es"
      using map_step_trans [OF maps_same_step [OF f inv free]] S(1) map_step_refl [OF inv free] by (simp add: u_def vm_map_entry_unwire_def)
    show "ent u = (ent s)(e := (ent s e)\<lparr>wired_count := 0\<rparr>)" "vnext u = vnext s" "vmap u = vmap s" "avail m u = avail m s"
        "vm_objs.truncate u = vm_objs.truncate s"
      by (auto simp: u_def vm_map_entry_unwire_def upd_ent_def fault_do_def avail_def vm_objs.truncate_def)
  qed
  have wfu: "objs_wf (\<lambda>q. cnt (ent s) es q + rest q) u" using ok objs_wf_same [OF U(6)] by (simp add: refs_ok_def)
  have lu: "vm_object_list u = vm_object_list s" using U(6) by (simp add: vm_objs.truncate_def)
  have W: "vm_objs.more w = vm_objs.more u" "objs_wf (\<lambda>q. cnt (ent s) es q + rest q) w" "vm_object_list w = vm_object_list u"
  proof -
    show "vm_objs.more w = vm_objs.more u" by (simp add: w_def objs_only)
    have "objs_wf (\<lambda>q. cnt (ent s) es q + rest q) (vm_object_page_remove q off fin u) \<and>
      vm_object_list (vm_object_page_remove q off fin u) = vm_object_list u"
    proof (cases "q = 0")
      case True
      then show ?thesis using wfu by (simp add: vm_object_page_remove_def)
    next
      case False
      have "table_inv u" using wfu by (simp add: objs_wf_def)
      note P = page_remove_correct [OF this False, of off fin]
      show ?thesis using objs_wf_frame [OF wfu P(2,1)] page_frame_more(2) [OF P(2)] by simp
    qed
    then show "objs_wf (\<lambda>q. cnt (ent s) es q + rest q) w" "vm_object_list w = vm_object_list u"
      unfolding w_def using wfu by auto
  qed
  have X: "vm_objs.more x = vm_objs.more w" "objs_wf (\<lambda>q. cnt (ent s) es q + rest q) x" "vm_object_list x = vm_object_list w"
  proof -
    show "vm_objs.more x = vm_objs.more w" by (simp add: x_def objs_only)
    have "page_frame w (pmap_remove_walk b f ps w) \<and> table_same w (pmap_remove_walk b f ps w)" for b f ps
    proof (induction ps arbitrary: w)
      case (Cons p ps)
      show ?case
      proof (cases "b \<le> pg_offset (page w p) \<and> pg_offset (page w p) < f")
        case True
        let ?v = "pmap_do (PmapRemoveAll (phys_addr (page w p))) w"
        have "page_frame w ?v" "table_same w ?v" by (rule frame_pages, simp add: table_same_def pmap_do_def)
        then show ?thesis using True Cons [of ?v] page_frame_trans table_same_trans by fastforce
      next
        case False
        then show ?thesis using Cons [of w] by auto
      qed
    qed (simp add: page_frame_refl table_same_def)
    then have pr: "page_frame w x \<and> table_same w x" by (simp add: x_def vm_object_pmap_remove_def page_frame_refl table_same_def)
    then have "table_inv x" using table_same_inv [of w x] W(2) by (simp add: objs_wf_def)
    then show "objs_wf (\<lambda>q. cnt (ent s) es q + rest q) x" using objs_wf_frame [OF W(2)] pr by blast
    show "vm_object_list x = vm_object_list w" using page_frame_more(2) pr by blast
  qed
  have t: "t = pmap_do (PmapRemove (pmap (vmap x m)) (vstart (ent s e)) (vend (ent s e))) x"
  proof -
    have "ent w = ent u" using maps_sameD(1) [OF objs_only_same [OF W(1)]] .
    then have o: "voffset (ent u e) = off" "voffset (ent w e) = off" using U(2) by (simp_all add: off_def)
    show ?thesis
      unfolding t_def delete_unmap_def Let_def u_def [symmetric] q_def [symmetric] o(1) fin_def [symmetric] w_def [symmetric] o(2)
        x_def [symmetric] by (rule refl)
  qed
  have T: "vm_objs.more t = vm_objs.more u" using W(1) X(1) by (simp add: t objs_only)
  have same: "maps_same u t" using objs_only_same [OF T] .
  note D = maps_sameD [OF same]
  show "map_step m s es t es" using map_step_trans [OF U(1) maps_same_step [OF same]] U(1) by (simp add: map_step_def)
  show et: "ent t = (ent s)(e := (ent s e)\<lparr>wired_count := 0\<rparr>)" "vnext t = vnext s" using D(1,2) U(2,3) by simp_all
  have lt: "vm_object_list t = vm_object_list s" using X(3) W(3) lu by (simp add: t pmap_do_def)
  have "page_frame x t" "table_same x t" unfolding t by (rule frame_pages, simp add: table_same_def pmap_do_def)
  then have "objs_wf (\<lambda>q. cnt (ent s) es q + rest q) t" using objs_wf_frame [OF X(2)] table_same_inv [of x t] X(2) by (simp add: objs_wf_def)
  then show "refs_ok rest t es" using refs_ok_cong [OF ok _ lt] et by simp
  show "step_frame m s t" using D(6,7,12) U(4,5) lt by (simp add: step_frame_def)
qed

lemma entry_delete_correct:
  assumes inv: "map_inv s m (xs @ e # ys)" and free: "entries_free s (xs @ e # ys)" and ok: "refs_ok rest s (xs @ e # ys)"
    and h: "hint (vmap s m) \<noteq> e" "first_free (vmap s m) \<noteq> e" and w: "wired_count (ent s e) = 0"
    and n: "Suc (length (vm_object_list s)) < n"
  shows "\<exists>t. vm_map_entry_delete n m e s = Inr (Some t) \<and> map_step m s (xs @ e # ys) t (xs @ ys) \<and> ent t = ent s \<and>
    refs_ok rest t (xs @ ys) \<and> step_frame m s t"
proof -
  obtain k where k: "n = Suc k" "length (vm_object_list s) < k" using n by (cases n) auto
  have ring: "ring s m (xs @ e # ys)" and ord: "ordered (ent s) (vm_map_min m s) (xs @ e # ys) (vm_map_max m s)"
    using inv by (auto simp: map_inv_def)
  have eh: "e \<noteq> Hdr m" "e \<notin> set (xs @ ys)" using ring by (auto simp: ring_def)
  have "hd (ys @ [Hdr m]) \<in> set (ys @ [Hdr m])" by (rule hd_in_set) simp
  then have ne: "vnext s e \<noteq> e" using ring_next(1) [OF ring] eh by auto
  define u where "u = entry_detach m e s"
  note U0 = unlink_fields [OF ne, of m]
  have u: "ent u = ent s" "vnext u = vnext (vm_map_entry_unlink m e s)" "vprev u = vprev (vm_map_entry_unlink m e s)"
      "vmap u = (vmap s)(m := (vmap s m)\<lparr>nentries := nentries (vmap s m) - 1, vsize := vsize (vmap s m) - (vend (ent s e) - vstart (ent s e))\<rparr>)"
      "vm_map_entry_zone u = vm_map_entry_zone s" "vm_map_kentry_zone u = vm_map_kentry_zone s" "vm_objs.truncate u = vm_objs.truncate s"
    using w by (simp_all add: u_def entry_detach_def Let_def upd_map_def U0 vm_map_entry_unlink_def vm_objs.truncate_def)
  have lu: "vm_object_list u = vm_object_list s" using u(7) by (simp add: vm_objs.truncate_def)
  let ?q = "vobject (ent s e)"
  define ext where "ext = (\<lambda>q. cnt (ent s) (xs @ e # ys) q + rest q)"
  have wfu: "objs_wf ext u" using ok objs_wf_same [OF u(7)] by (simp add: refs_ok_def ext_def)
  have q: "?q \<in> set (vm_object_list u) \<and> 1 \<le> ext ?q" if "?q \<noteq> 0"
  proof -
    have "0 \<le> cnt (ent s) xs ?q" "0 \<le> cnt (ent s) ys ?q" "0 \<le> rest ?q" using ok cnt_nonneg by (auto simp: refs_ok_def)
    then have "1 \<le> ext ?q" by (simp add: ext_def cnt_append cnt_Cons)
    then show ?thesis using ok that lu by (auto simp: refs_ok_def)
  qed
  have "length (vm_object_list u) < k" using k lu by simp
  from objs_wf_deallocate [OF wfu q this] obtain v where
    v: "vm_object_deallocate k ?q u = Inr (Some v)" "objs_wf (ext(?q := ext ?q - 1)) v"
      "length (vm_object_list v) \<le> length (vm_object_list u)"
      "\<forall>x\<in>set (vm_object_list u). (ext(?q := ext ?q - 1)) x \<noteq> 0 \<longrightarrow> x \<in> set (vm_object_list v)" by blast
  have same: "maps_same u v" using objs_only_same [OF deallocate_only(1) [OF v(1)]] .
  note D = maps_sameD [OF same]
  define t where "t = vm_map_entry_dispose m e v"
  obtain p where p: "e = Ent p" using ring by (auto simp: ring_def)
  have eq: "vm_map_entry_delete n m e s = Inr (Some t)"
    using ok v(1) k(1) by (simp add: refs_ok_def u_def t_def)
  have t: "ent t = ent s" "vnext t = vnext u" "vprev t = vprev u" "vmap t = vmap v" "zone_entries t = insert e (zone_entries s)"
      "distinct (vm_map_entry_zone t @ vm_map_kentry_zone t)" "vm_objs.truncate t = vm_objs.truncate v" "avail m s \<le> avail m t"
      "vm_object_list t = vm_object_list v"
  proof -
    have z: "vm_map_entry_zone v = vm_map_entry_zone s" "vm_map_kentry_zone v = vm_map_kentry_zone s"
      using same u(5,6) by (simp_all add: maps_same_def)
    show "ent t = ent s" "vnext t = vnext u" "vprev t = vprev u" "vmap t = vmap v" "vm_objs.truncate t = vm_objs.truncate v"
        "vm_object_list t = vm_object_list v"
      using D(1-3) u(1) by (simp_all add: t_def vm_map_entry_dispose_def p vm_objs.truncate_def)
    show "zone_entries t = insert e (zone_entries s)" by (auto simp: t_def vm_map_entry_dispose_def p zone_entries_def z)
    have "e \<notin> zone_entries s" using free by (auto simp: entries_free_iff)
    then show "distinct (vm_map_entry_zone t @ vm_map_kentry_zone t)"
      using free by (auto simp: t_def vm_map_entry_dispose_def p zone_entries_def z entries_free_def)
    show "avail m s \<le> avail m t" using D(10) [of m] u(4) by (auto simp: t_def vm_map_entry_dispose_def p avail_def z)
  qed
  have mt: "nentries (vmap t j) = nentries (vmap u j)" "hint (vmap t j) = hint (vmap s j)" "first_free (vmap t j) = first_free (vmap s j)"
      "vsize (vmap t j) = vsize (vmap u j)" "is_main_map (vmap t j) = is_main_map (vmap s j)"
      "entries_pageable (vmap t j) = entries_pageable (vmap s j)" "pmap (vmap t j) = pmap (vmap s j)" for j
    using D(5-11) [of j] u(4) by (simp_all add: t(4))
  have rt: "ring t m (xs @ ys)" using ring_unlink [OF ring] ring_cong [of m "xs @ ys" t "vm_map_entry_unlink m e s"] t(2,3) u(2,3) by simp
  have bounds: "vm_map_min m t = vm_map_min m s" "vm_map_max m t = vm_map_max m s" by (simp_all add: vm_map_min_def vm_map_max_def t(1))
  note O = ordered_split [OF ord]
  have "ordered (ent t) (vm_map_min m t) (xs @ ys) (vm_map_max m t)"
    unfolding t(1) bounds ordered_append using O by (intro exI [of _ "vstart (ent s e)"]) (auto intro: ordered_mono)
  then have inv': "map_inv t m (xs @ ys)" using inv rt h mt [of m] u(4) by (auto simp: map_inv_def)
  have free': "entries_free t (xs @ ys)" using free t(5,6) eh by (auto simp: entries_free_iff)
  have others: "others_kept m s (xs @ e # ys) t (xs @ ys)"
  proof (rule others_keptI)
    fix f assume f: "f \<notin> set (xs @ e # ys)" "f \<notin> zone_entries s" "f \<noteq> Hdr m"
    have "vnext s e \<in> insert (Hdr m) (set ys)" "vprev s e \<in> insert (Hdr m) (set xs)"
      using ring_next(1,2) [OF ring] hd_in_set [of "ys @ [Hdr m]"] last_in_set [of "Hdr m # xs"] by (auto split: if_splits)
    then have "f \<noteq> vnext s e" "f \<noteq> vprev s e" using f by auto
    then show "vnext t f = vnext s f \<and> vprev t f = vprev s f \<and> ent t f = ent s f" by (simp add: t u U0)
  next
    fix j assume "j \<noteq> m"
    then show "nentries (vmap t j) = nentries (vmap s j) \<and> hint (vmap t j) = hint (vmap s j) \<and> first_free (vmap t j) = first_free (vmap s j)"
      using mt [of j] u(4) by simp
  qed (use t(5,6) ring in \<open>auto simp: ring_def\<close>)
  have "size_ok s m (xs @ e # ys) \<longrightarrow> size_ok t m (xs @ ys)" using mt(4) [of m] u(4) by (simp add: size_ok_def t(1))
  then have step: "map_step m s (xs @ e # ys) t (xs @ ys)" using inv' free' others bounds mt [of m] by (simp add: map_step_def)
  have ext': "(ext(?q := ext ?q - 1)) x = cnt (ent t) (xs @ ys) x + rest x" for x by (simp add: t(1) ext_def cnt_append cnt_Cons)
  then have "ext(?q := ext ?q - 1) = (\<lambda>x. cnt (ent t) (xs @ ys) x + rest x)" by (rule HOL.ext)
  then have "objs_wf (\<lambda>x. cnt (ent t) (xs @ ys) x + rest x) t" using v(2) objs_wf_same [OF t(7)] by simp
  moreover have "vobject (ent t f) = 0 \<or> vobject (ent t f) \<in> set (vm_object_list t)" if "f \<in> set (xs @ ys)" for f
  proof -
    have "0 < cnt (ent t) (xs @ ys) (vobject (ent t f))" using that by (rule cnt_pos)
    moreover have "0 \<le> rest (vobject (ent t f))" using ok by (simp add: refs_ok_def)
    ultimately have "(ext(?q := ext ?q - 1)) (vobject (ent t f)) \<noteq> 0" unfolding ext' by linarith
    moreover have "vobject (ent t f) = 0 \<or> vobject (ent t f) \<in> set (vm_object_list u)" using ok that by (auto simp: refs_ok_def t(1) lu)
    ultimately show ?thesis using v(4) t(9) by auto
  qed
  ultimately have "refs_ok rest t (xs @ ys)" using ok t(1) by (auto simp: refs_ok_def)
  moreover have "step_frame m s t" using mt [of m] t(8,9) v(3) lu by (simp add: step_frame_def)
  ultimately show ?thesis using eq step t(1) by blast
qed

subsection \<open>Deleting a range\<close>

lemma delete_walk_correct:
  assumes "map_inv s m (xs @ ys)" and "entries_free s (xs @ ys)" and "refs_ok rest s (xs @ ys)" and "0 < avail m s"
    and "hint (vmap s m) \<in> insert (Hdr m) (set xs)" "first_free (vmap s m) \<in> insert (Hdr m) (set xs)"
    and "length ys + length (vm_object_list s) + 3 < n"
  shows "\<exists>t ys'. delete_walk n m fin (hd (ys @ [Hdr m])) s = Inr (Some t) \<and> map_step m s (xs @ ys) t (xs @ ys') \<and>
    (\<forall>x\<in>set xs. ent t x = ent s x) \<and> refs_ok rest t (xs @ ys') \<and>
    (\<forall>a. view_in (ent t) ys' a = (if a < fin then None else view_in (ent s) ys a))"
  using assms
proof (induction ys arbitrary: s n)
  case Nil
  then obtain k where "n = Suc k" by (cases n) auto
  then show ?case using Nil by (intro exI [of _ s] exI [of _ "[]"]) (simp add: map_step_refl)
next
  case (Cons y ys)
  note prems = Cons.prems
  have ord: "ordered (ent s) (vm_map_min m s) (xs @ y # ys) (vm_map_max m s)" and rg: "ring s m (xs @ y # ys)"
    using prems(1) by (auto simp: map_inv_def)
  have yh: "y \<noteq> Hdr m" using ring_next(3) [OF rg] .
  obtain k where n: "n = Suc k" "length ys + length (vm_object_list s) + 3 < k" using prems(7) by (cases n) auto
  show ?case
  proof (cases "vstart (ent s y) < fin")
    case False
    have "ordered (ent s) (vstart (ent s y)) (y # ys) (vm_map_max m s)" using ordered_split [OF ord] by simp
    then have ge: "fin \<le> vstart (ent s f)" if "f \<in> set (y # ys)" for f
      using ordered_bounds [of "ent s" "vstart (ent s y)" "y # ys"] False that by (meson not_less order.trans)
    have "view_in (ent s) (y # ys) a = None" if "a < fin" for a
      unfolding view_in_None covers_def using ge that by (meson leD le_less_trans)
    moreover have "delete_walk n m fin (hd ((y # ys) @ [Hdr m])) s = Inr (Some s)" using False n(1) by simp
    ultimately show ?thesis using prems(1-3)
      by (intro exI [of _ s] exI [of _ "y # ys"]) (simp add: map_step_refl del: view_in.simps)
  next
    case True
    from clip_end_correct [OF prems(1,2,4) True] obtain u zs where
      u: "vm_map_clip_end m y fin s = Inr u" "map_step m s (xs @ y # ys) u (xs @ y # zs @ ys)"
        "mview u (xs @ y # zs @ ys) = mview s (xs @ y # ys)" "ent u y = (ent s y)\<lparr>vend := min fin (vend (ent s y))\<rparr>"
        "\<forall>z\<in>set zs. fin \<le> vstart (ent u z)" "\<forall>f\<in>set (xs @ ys). ent u f = ent s f"
        "vend (ent s y) \<le> fin \<longrightarrow> zs = [] \<and> u = s" "fin < vend (ent s y) \<longrightarrow> (\<exists>z. zs = [z])"
        "hint (vmap u m) = hint (vmap s m)" "first_free (vmap u m) = first_free (vmap s m)"
        "vm_objs.truncate u = vm_objs.truncate (if zs = [] \<or> is_a_map (ent s y) \<or> is_sub_map (ent s y) then s
           else vm_object_reference (vobject (ent s y)) s)"
        "\<forall>z\<in>set zs. vobject (ent u z) = vobject (ent s y) \<and> is_a_map (ent u z) = is_a_map (ent s y) \<and> is_sub_map (ent u z) = is_sub_map (ent s y)"
      by blast
    let ?es = "xs @ y # zs @ ys"
    note iu = map_stepD(1,2) [OF u(2)]
    have nm: "\<not> is_a_map (ent s y)" "\<not> is_sub_map (ent s y)" using prems(3) by (auto simp: refs_ok_def)
    have ru: "refs_ok rest u ?es"
    proof (cases zs)
      case Nil
      then have "u = s" using u(7,8) by (metis list.distinct(1) not_less)
      then show ?thesis using prems(3) Nil by simp
    next
      case (Cons z zs')
      then have z: "zs = [z]" using u(7,8) by (metis list.inject list.distinct(1) not_less)
      have "refs_ok rest u (xs @ y # z # ys)"
        by (rule refs_ok_split [OF prems(3)]) (use u(4,6,11,12) z nm in auto)
      then show ?thesis using z by simp
    qed
    have lu: "vm_object_list u = vm_object_list s"
    proof -
      have "vm_object_list (vm_objs.truncate u) = vm_object_list (vm_objs.truncate s)"
        unfolding u(11) by (simp add: vm_objs.truncate_def vm_object_reference_def upd_obj_def)
      then show ?thesis by (simp add: vm_objs.truncate_def)
    qed
    define v where "v = delete_unmap m y u"
    have yin: "y \<in> set ?es" by simp
    note V = unmap_correct [OF iu yin ru, folded v_def]
    note iv = map_stepD(1,2) [OF V(1)]
    have dist: "y \<notin> set xs" "y \<notin> set (zs @ ys)" using iu(1) by (auto simp: map_inv_def ring_def)
    have hv: "hint (vmap v m) \<noteq> y" "first_free (vmap v m) \<noteq> y"
      using V(5) u(9,10) prems(5,6) dist yh by (auto simp: step_frame_def)
    have wv: "wired_count (ent v y) = 0" using V(2) by simp
    have lv: "Suc (length (vm_object_list v)) < k" using V(5) lu n(2) by (simp add: step_frame_def)
    from entry_delete_correct [OF iv V(4) hv wv lv] obtain w where
      w: "vm_map_entry_delete k m y v = Inr (Some w)" "map_step m v ?es w (xs @ zs @ ys)" "ent w = ent v"
        "refs_ok rest w (xs @ zs @ ys)" "step_frame m v w" by blast
    have step: "map_step m s (xs @ y # ys) w (xs @ zs @ ys)" using map_step_trans [OF u(2) map_step_trans [OF V(1) w(2)]] .
    have nx: "vnext u y = hd (zs @ ys @ [Hdr m])" using ring_next(1) [of u m xs y "zs @ ys"] iu by (simp add: map_inv_def)
    have walk: "delete_walk n m fin (hd ((y # ys) @ [Hdr m])) s = delete_walk k m fin (hd (zs @ ys @ [Hdr m])) w"
      using n(1) yh True u(1) w(1) nx by (simp add: v_def)
    have ew: "ent w f = ent u f" if "f \<noteq> y" for f using w(3) V(2) that by simp
    have xw: "\<forall>x\<in>set xs. ent w x = ent s x" using ew u(6) dist(1) by (metis UnI1 set_append)
    show ?thesis
    proof (cases zs)
      case Nil
      then have le: "vend (ent s y) \<le> fin" using u(8) by (metis list.distinct(1) not_less)
      then have us: "u = s" using u(7) by simp
      have iw: "map_inv w m (xs @ ys)" "entries_free w (xs @ ys)" "refs_ok rest w (xs @ ys)"
        using map_stepD(1,2) [OF w(2)] w(4) Nil by simp_all
      have aw: "0 < avail m w" "hint (vmap w m) \<in> insert (Hdr m) (set xs)" "first_free (vmap w m) \<in> insert (Hdr m) (set xs)"
          "length ys + length (vm_object_list w) + 3 < k"
        using V(5) w(5) us prems(4-6) n(2) by (simp_all add: step_frame_def)
      from Cons.IH [OF iw aw] obtain t ys' where
        t: "delete_walk k m fin (hd (ys @ [Hdr m])) w = Inr (Some t)" "map_step m w (xs @ ys) t (xs @ ys')"
          "\<forall>x\<in>set xs. ent t x = ent w x" "refs_ok rest t (xs @ ys')"
          "\<forall>a. view_in (ent t) ys' a = (if a < fin then None else view_in (ent w) ys a)" by blast
      have ys: "view_in (ent w) ys a = view_in (ent s) ys a" for a
        using ew us dist(2) by (intro view_in_cong) (metis UnI2 set_append)
      have "view_in (ent s) (y # ys) a = view_in (ent s) ys a" if "\<not> a < fin" for a
        using that le by (auto simp: covers_def)
      then have "view_in (ent t) ys' a = (if a < fin then None else view_in (ent s) (y # ys) a)" for a using t(5) ys by simp
      moreover have "map_step m s (xs @ y # ys) t (xs @ ys')" using map_step_trans [OF step] t(2) Nil by simp
      ultimately show ?thesis using walk Nil t(1,3,4) xw by (intro exI [of _ t] exI [of _ ys']) (simp del: view_in.simps)
    next
      case (Cons z zs')
      then have gt: "fin < vend (ent s y)" using u(7) by (metis list.distinct(1) not_less)
      then have z: "zs = [z]" using u(8) Cons by auto
      obtain k' where k': "k = Suc k'" using n(2) by (cases k) auto
      have zw: "fin \<le> vstart (ent w z)" using u(5) ew dist z by auto
      have stop: "delete_walk k m fin (hd (zs @ ys @ [Hdr m])) w = Inr (Some w)" using z zw k' by (simp add: leD)
      have ys: "fin \<le> vstart (ent s f)" if "f \<in> set ys" for f
        using ordered_before(2) [OF ord, of f] gt that by (meson less_imp_le order.trans)
      have rest: "view_in (ent w) (zs @ ys) a = view_in (ent u) (zs @ ys) a" for a
        using ew dist(2) by (intro view_in_cong) metis
      have "view_in (ent w) (zs @ ys) a = (if a < fin then None else view_in (ent s) (y # ys) a)" for a
      proof (cases "a < fin")
        case True
        have "\<forall>f\<in>set (zs @ ys). fin \<le> vstart (ent u f)" using ys u(5,6) by auto
        then have "view_in (ent u) (zs @ ys) a = None" using True unfolding view_in_None covers_def by (meson leD le_less_trans)
        then show ?thesis using True rest by simp
      next
        case False
        have nc: "\<not> covers (ent u y) a" using u(4) False by (auto simp: covers_def)
        have "vstart (ent s y) \<le> a" using \<open>vstart (ent s y) < fin\<close> False by (meson less_imp_le not_less order.trans)
        then have "view_in (ent s) xs a = None"
          using ordered_before(1) [OF ord] unfolding view_in_None covers_def by (meson leD le_less_trans order.trans)
        moreover have "view_in (ent u) xs a = view_in (ent s) xs a" using u(6) by (intro view_in_cong) auto
        moreover have "view_in (ent u) (xs @ y # zs @ ys) a = view_in (ent s) (xs @ y # ys) a"
          using u(3) by (simp add: mview_def fun_eq_iff)
        ultimately have "view_in (ent u) (zs @ ys) a = view_in (ent s) (y # ys) a" using nc by (simp add: view_in_append)
        then show ?thesis using False rest by simp
      qed
      then show ?thesis using walk stop step w(4) xw by (intro exI [of _ w] exI [of _ "zs @ ys"]) (simp del: view_in.simps)
    qed
  qed
qed

lemma first_free_step:
  assumes "map_inv s m es" "entries_free s es" "e \<in> insert (Hdr m) (set es)"
  defines "t \<equiv> upd_map m (\<lambda>v. v\<lparr>first_free := e\<rparr>) s"
  shows "map_step m s es t es"
proof -
  have t: "ent t = ent s" "vnext t = vnext s" "vprev t = vprev s" "zone_entries t = zone_entries s"
      "vm_map_entry_zone t = vm_map_entry_zone s" "vm_map_kentry_zone t = vm_map_kentry_zone s"
      "vmap t = (vmap s)(m := (vmap s m)\<lparr>first_free := e\<rparr>)" "vm_map_min m t = vm_map_min m s" "vm_map_max m t = vm_map_max m s"
    by (simp_all add: t_def upd_map_def zone_entries_def vm_map_min_def vm_map_max_def)
  have "ring t m es = ring s m es" by (rule ring_cong) (simp add: t)
  then have "map_inv t m es" using assms(1,3) by (simp add: map_inv_def t)
  moreover have "others_kept m s es t es"
    using assms(1-3) by (intro others_keptI) (auto simp: t entries_free_def map_inv_def ring_def)
  moreover have "entries_free t es" using assms(2) by (simp add: entries_free_iff t)
  ultimately show ?thesis by (simp add: map_step_def size_ok_def t)
qed

text \<open>After the opening of \<^verbatim>\<open>vm_map_delete\<close> neither hint points into the range.\<close>

lemma delete_first_fix:
  assumes inv: "map_inv u m (xs @ ys)" and free: "entries_free u (xs @ ys)" and ok: "refs_ok rest u (xs @ ys)"
    and h: "hint (vmap u m) \<in> insert (Hdr m) (set xs)" and above: "\<forall>y\<in>set ys. start \<le> vstart (ent u y)"
  defines "t \<equiv> (if vstart (ent u (first_free (vmap u m))) \<ge> start
      then upd_map m (\<lambda>v. v\<lparr>first_free := vprev u (hd (ys @ [Hdr m]))\<rparr>) u else u)"
  shows "map_step m u (xs @ ys) t (xs @ ys)" "ent t = ent u" "refs_ok rest t (xs @ ys)" "hint (vmap t m) \<in> insert (Hdr m) (set xs)"
    "first_free (vmap t m) \<in> insert (Hdr m) (set xs)" "avail m t = avail m u" "vm_object_list t = vm_object_list u"
proof -
  have rg: "ring u m (xs @ ys)" using inv by (simp add: map_inv_def)
  have pv: "vprev u (hd (ys @ [Hdr m])) = last (Hdr m # xs)"
  proof (cases ys)
    case Nil
    then show ?thesis using ring_ends(2) [OF rg] by simp
  next
    case (Cons y zs)
    then show ?thesis using ring_next(2) [of u m xs y zs] rg by simp
  qed
  have l: "last (Hdr m # xs) \<in> insert (Hdr m) (set xs)" using last_in_set [of "Hdr m # xs"] by simp
  then have "vprev u (hd (ys @ [Hdr m])) \<in> insert (Hdr m) (set (xs @ ys))" unfolding pv by auto
  from first_free_step [OF inv free this] show "map_step m u (xs @ ys) t (xs @ ys)"
    using map_step_refl [OF inv free] by (simp add: t_def)
  show "ent t = ent u" "avail m t = avail m u" "vm_object_list t = vm_object_list u" "hint (vmap t m) \<in> insert (Hdr m) (set xs)"
    using h by (simp_all add: t_def upd_map_def avail_def)
  have "vm_objs.truncate t = vm_objs.truncate u" by (simp add: t_def upd_map_def vm_objs.truncate_def)
  then show "refs_ok rest t (xs @ ys)" using ok objs_wf_same [of t u] \<open>ent t = ent u\<close> \<open>vm_object_list t = vm_object_list u\<close>
    by (simp add: refs_ok_def)
  have "first_free (vmap u m) \<in> insert (Hdr m) (set (xs @ ys))" using inv by (simp add: map_inv_def)
  then show "first_free (vmap t m) \<in> insert (Hdr m) (set xs)"
    using above l pv by (auto simp: t_def upd_map_def)
qed

lemma delete_first_correct:
  assumes inv: "map_inv s m es" and free: "entries_free s es" and av: "0 < avail m s" and ok: "refs_ok rest s es"
  shows "\<exists>t xs ys. delete_first m start s = Inr (Some (hd (ys @ [Hdr m]), t)) \<and> map_step m s es t (xs @ ys) \<and>
    mview t (xs @ ys) = mview s es \<and> (\<forall>x\<in>set xs. vend (ent t x) \<le> start) \<and> (\<forall>y\<in>set ys. start \<le> vstart (ent t y)) \<and>
    refs_ok rest t (xs @ ys) \<and> hint (vmap t m) \<in> insert (Hdr m) (set xs) \<and> first_free (vmap t m) \<in> insert (Hdr m) (set xs) \<and>
    avail m s \<le> Suc (avail m t) \<and> vm_object_list t = vm_object_list s \<and> length (xs @ ys) \<le> Suc (length es)"
proof -
  obtain h where h: "vm_map_lookup_entry m start s = Inr (Some (lookup_ref (ent s) (Hdr m) es start, SAVE_HINT m h s))"
      "h \<in> insert (Hdr m) (set es)" "fst (lookup_ref (ent s) (Hdr m) es start) \<or> h = snd (lookup_ref (ent s) (Hdr m) es start)"
    using lookup_entry_ref [OF inv, of start] by blast
  define u where "u = SAVE_HINT m h s"
  note H = save_hint_step [OF inv free h(2), folded u_def]
  note iu = map_stepD(1,2) [OF H(1)]
  have eu: "ent u = ent s" "vnext u = vnext s" "vm_object_list u = vm_object_list s" "vm_objs.truncate u = vm_objs.truncate s"
      "hint (vmap u m) = h"
    by (simp_all add: u_def SAVE_HINT_def upd_map_def vm_objs.truncate_def)
  have oku: "refs_ok rest u es" using ok objs_wf_same [OF eu(4)] by (simp add: refs_ok_def eu)
  obtain f p where be: "lookup_ref (ent s) (Hdr m) es start = (f, p)" by (cases "lookup_ref (ent s) (Hdr m) es start")
  have ord: "ordered (ent s) (vm_map_min m s) es (vm_map_max m s)" using inv by (simp add: map_inv_def)
  let ?fix = "\<lambda>e v. if vstart (ent v (first_free (vmap v m))) \<ge> start then upd_map m (\<lambda>w. w\<lparr>first_free := vprev v e\<rparr>) v else v"
  show ?thesis
  proof (cases f)
    case False
    then obtain xs ys where xy: "es = xs @ ys" "p = last (Hdr m # xs)" "\<forall>x\<in>set xs. vend (ent s x) \<le> start"
        "\<forall>y\<in>set ys. start < vstart (ent s y)" using lookup_ref_missed [OF ord, of "Hdr m" start p] be by auto
    have nx: "vnext u p = hd (ys @ [Hdr m])"
    proof (cases ys)
      case Nil
      then show ?thesis using inv xy nseg_last [of "vnext s" "Hdr m" xs "Hdr m"] by (simp add: map_inv_def ring_def eu)
    next
      case (Cons y zs)
      then show ?thesis using ring_next(4) [of s m xs y zs] inv xy by (simp add: map_inv_def eu)
    qed
    have hu: "hint (vmap u m) \<in> insert (Hdr m) (set xs)"
      using h(3) be False xy(2) last_in_set [of "Hdr m # xs"] by (auto simp: eu split: if_splits)
    have ab: "\<forall>y\<in>set ys. start \<le> vstart (ent u y)" using xy(4) by (auto simp: eu)
    define t where "t = ?fix (hd (ys @ [Hdr m])) u"
    note F = delete_first_fix [OF iu [unfolded xy(1)] oku [unfolded xy(1)] hu ab, folded t_def]
    have eq: "delete_first m start s = Inr (Some (hd (ys @ [Hdr m]), t))"
      using False h(1) be nx by (simp add: delete_first_def u_def t_def)
    have step: "map_step m s es t (xs @ ys)" using map_step_trans [OF H(1) [unfolded xy(1)] F(1)] xy(1) by simp
    have "mview t (xs @ ys) = mview s es" unfolding xy(1) mview_def F(2) eu(1) ..
    then show ?thesis
      using eq step F(3-7) H(3) xy(1,3) ab
      by (intro exI [where x = t] exI [where x = xs] exI [where x = ys]) (simp add: F(2) eu)
  next
    case True
    then obtain xs ys where xy: "es = xs @ p # ys" "covers (ent s p) start" using lookup_ref_found [OF ord, of "Hdr m" start p] be by auto
    have lt: "start < vend (ent u p)" using xy(2) by (simp add: covers_def eu)
    have "0 < avail m u" using av H(3) by simp
    from clip_start_correct [OF iu [unfolded xy(1)] this lt] obtain w zs where
      w: "vm_map_clip_start m p start u = Inr w" "map_step m u (xs @ p # ys) w (xs @ zs @ p # ys)"
        "mview w (xs @ zs @ p # ys) = mview u (xs @ p # ys)" "avail m u \<le> Suc (avail m w)"
        "vstart (ent w p) = max start (vstart (ent u p))" "\<forall>z\<in>set zs. vend (ent w z) \<le> start"
        "\<forall>f\<in>set (xs @ ys). ent w f = ent u f" "length zs \<le> 1" "start \<le> vstart (ent u p) \<longrightarrow> zs = [] \<and> w = u"
        "vm_objs.truncate w = vm_objs.truncate (if zs = [] \<or> is_a_map (ent u p) \<or> is_sub_map (ent u p) then u
           else vm_object_reference (vobject (ent u p)) u)"
        "\<forall>z\<in>set (p # zs). vobject (ent w z) = vobject (ent u p) \<and> is_a_map (ent w z) = is_a_map (ent u p) \<and> is_sub_map (ent w z) = is_sub_map (ent u p)"
      by blast
    have app: "(xs @ zs) @ p # ys = xs @ zs @ p # ys" by simp
    note iw = map_stepD(1,2) [OF w(2), folded app]
    note B = ordered_before [OF ord [unfolded xy(1)]]
    have nm: "\<not> is_a_map (ent u p)" "\<not> is_sub_map (ent u p)" using oku xy(1) by (auto simp: refs_ok_def)
    have okw: "refs_ok rest w ((xs @ zs) @ p # ys)"
    proof (cases zs)
      case Nil
      then have "vm_objs.truncate w = vm_objs.truncate u" using w(10) by simp
      moreover have "vm_object_list w = vm_object_list u" using calculation by (simp add: vm_objs.truncate_def)
      moreover have "objs_wf (\<lambda>q. cnt (ent u) (xs @ p # ys) q + rest q) w"
        using oku xy(1) objs_wf_same [OF calculation(1)] by (simp add: refs_ok_def)
      ultimately have "refs_ok rest w (xs @ p # ys)"
        by (intro refs_ok_cong [OF oku [unfolded xy(1)]]) (use w(7,11) in auto)
      then show ?thesis using Nil by simp
    next
      case (Cons z zs')
      then have z: "zs = [z]" using w(8) by simp
      have "refs_ok rest w (xs @ z # p # ys)"
        by (rule refs_ok_split [OF oku [unfolded xy(1)]]) (use w(7,10,11) z nm in auto)
      then show ?thesis using z by simp
    qed
    have lw: "vm_object_list w = vm_object_list s"
    proof -
      have "vm_object_list (vm_objs.truncate w) = vm_object_list (vm_objs.truncate u)"
        unfolding w(10) by (simp add: vm_objs.truncate_def vm_object_reference_def upd_obj_def)
      then show ?thesis by (simp add: vm_objs.truncate_def eu)
    qed
    have pv: "vprev w p = last (Hdr m # xs @ zs)" using ring_next(2) [of w m "xs @ zs" p ys] iw(1) by (simp add: map_inv_def)
    have pin: "vprev w p \<in> insert (Hdr m) (set (xs @ zs))" unfolding pv using last_in_set [of "Hdr m # xs @ zs"] by simp
    define v where "v = SAVE_HINT m (vprev w p) w"
    have "vprev w p \<in> insert (Hdr m) (set ((xs @ zs) @ p # ys))" using pin by auto
    note Hv = save_hint_step [OF iw this, folded v_def]
    have ev: "ent v = ent w" "vprev v = vprev w" "vm_object_list v = vm_object_list w" "vm_objs.truncate v = vm_objs.truncate w"
        "hint (vmap v m) = vprev w p"
      by (simp_all add: v_def SAVE_HINT_def upd_map_def vm_objs.truncate_def)
    have okv: "refs_ok rest v ((xs @ zs) @ p # ys)" using okw objs_wf_same [OF ev(4)] by (simp add: refs_ok_def ev)
    have hv: "hint (vmap v m) \<in> insert (Hdr m) (set (xs @ zs))" using pin by (simp only: ev)
    have ab: "\<forall>y\<in>set (p # ys). start \<le> vstart (ent v y)"
      using w(5,7) B(2) xy(2) by (auto simp: ev eu covers_def intro: order.trans less_imp_le)
    have bl: "\<forall>x\<in>set (xs @ zs). vend (ent v x) \<le> start"
      using w(6,7) xy(2) order.trans [OF B(1), of _ start] by (auto simp: ev eu covers_def)
    define t where "t = ?fix (hd ((p # ys) @ [Hdr m])) v"
    note F = delete_first_fix [OF map_stepD(1,2) [OF Hv(1)] okv hv ab, folded t_def]
    have "delete_first m start s = Inr (Some (p, t))"
      using True h(1) be w(1) by (simp add: delete_first_def u_def [symmetric] v_def [symmetric] t_def)
    moreover have "map_step m s es t ((xs @ zs) @ p # ys)"
      using map_step_trans [OF H(1) [unfolded xy(1)] map_step_trans [OF w(2) [folded app] map_step_trans [OF Hv(1) F(1)]]] xy(1) by simp
    moreover have "mview t ((xs @ zs) @ p # ys) = mview s es" using w(3) xy(1) by (simp add: mview_def fun_eq_iff F(2) ev(1) eu(1))
    moreover have "length ((xs @ zs) @ p # ys) \<le> Suc (length es)" using w(8) xy(1) by simp
    ultimately show ?thesis
      using F(2-7) bl ab w(4) H(3) Hv(3) lw ev(3)
      by (intro exI [of _ t] exI [of _ "xs @ zs"] exI [of _ "p # ys"]) simp
  qed
qed

text \<open>The range the caller gives may exceed the map; what lies outside is not mapped anyway.\<close>

lemma remove_view:
  assumes inv: "map_inv u m (xs @ ys)" and t: "map_inv t m (xs @ ys')" and keep: "\<forall>x\<in>set xs. ent t x = ent u x"
    and below: "\<forall>x\<in>set xs. vend (ent u x) \<le> b" and above: "\<forall>y\<in>set ys. b \<le> vstart (ent u y)"
    and del: "\<forall>a. view_in (ent t) ys' a = (if a < e then None else view_in (ent u) ys a)"
  shows "mview t (xs @ ys') a = (if b \<le> a \<and> a < e then None else mview u (xs @ ys) a)"
proof -
  have xs: "view_in (ent t) xs a = view_in (ent u) xs a" using keep by (intro view_in_cong) simp
  show ?thesis
  proof (cases "b \<le> a")
    case True
    then have "view_in (ent u) xs a = None" using below unfolding view_in_None covers_def by (meson leD le_less_trans order.trans)
    then show ?thesis using del xs True by (simp add: mview_def view_in_append)
  next
    case False
    then have "view_in (ent u) ys a = None" using above unfolding view_in_None covers_def by (meson order.trans)
    then have "view_in (ent t) ys' a = view_in (ent u) ys a" using del by simp
    then show ?thesis using xs False by (simp add: mview_def view_in_append split: option.split)
  qed
qed

lemma remove_correct:
  assumes "map_inv s m es" and "entries_free s es" and "2 \<le> avail m s" and "refs_ok rest s es"
    and "length es + length (vm_object_list s) + 6 \<le> n"
  shows "\<exists>t es'. vm_map_remove n m start fin s = Inr (Some (KERN_SUCCESS, t)) \<and> map_step m s es t es' \<and>
    (\<forall>a. mview t es' a = (if start \<le> a \<and> a < fin then None else mview s es a)) \<and> refs_ok rest t es'"
proof -
  define l where "l = vm_map_lock m s"
  have L: "maps_same s l" unfolding l_def by (rule map_lock_same)
  have sl: "map_step m s es l es" using maps_same_step [OF L assms(1,2)] .
  have lt: "vm_objs.truncate l = vm_objs.truncate s" "vm_object_list l = vm_object_list s" "ent l = ent s"
    by (simp_all add: l_def vm_map_lock_def upd_map_def vm_objs.truncate_def)
  have al: "0 < avail m l" "avail m l = avail m s" using assms(3) maps_sameD(12) [OF L, of m] by simp_all
  have okl: "refs_ok rest l es" using assms(4) objs_wf_same [OF lt(1)] by (simp add: refs_ok_def lt)
  obtain b e where be: "VM_MAP_RANGE_CHECK m start fin s = (b, e)" by (cases "VM_MAP_RANGE_CHECK m start fin s")
  from delete_first_correct [OF map_stepD(1,2) [OF sl] al(1) okl, of b] obtain u xs ys where
    u: "delete_first m b l = Inr (Some (hd (ys @ [Hdr m]), u))" "map_step m l es u (xs @ ys)" "mview u (xs @ ys) = mview l es"
      "\<forall>x\<in>set xs. vend (ent u x) \<le> b" "\<forall>y\<in>set ys. b \<le> vstart (ent u y)" "refs_ok rest u (xs @ ys)"
      "hint (vmap u m) \<in> insert (Hdr m) (set xs)" "first_free (vmap u m) \<in> insert (Hdr m) (set xs)"
      "avail m l \<le> Suc (avail m u)" "vm_object_list u = vm_object_list l" "length (xs @ ys) \<le> Suc (length es)" by blast
  obtain k where k: "n = Suc k" using assms(5) by (cases n) auto
  have "0 < avail m u" "length ys + length (vm_object_list u) + 3 < k" using u(9-11) al lt assms(3,5) k by simp_all
  from delete_walk_correct [OF map_stepD(1,2) [OF u(2)] u(6) this(1) u(7,8) this(2), of e] obtain t ys' where
    t: "delete_walk k m e (hd (ys @ [Hdr m])) u = Inr (Some t)" "map_step m u (xs @ ys) t (xs @ ys')"
      "\<forall>x\<in>set xs. ent t x = ent u x" "refs_ok rest t (xs @ ys')"
      "\<forall>a. view_in (ent t) ys' a = (if a < e then None else view_in (ent u) ys a)" by blast
  have eq: "vm_map_remove n m start fin s = Inr (Some (KERN_SUCCESS, t))"
    using u(1) t(1) be k by (simp add: vm_map_remove_def l_def range_check_lock)
  have step: "map_step m s es t (xs @ ys')" using map_step_trans [OF sl map_step_trans [OF u(2) t(2)]] .
  have rv: "mview t (xs @ ys') a = (if b \<le> a \<and> a < e then None else mview s es a)" for a
    using remove_view [OF map_stepD(1) [OF u(2)] map_stepD(1) [OF t(2)] t(3) u(4,5) t(5), of a] u(3) by (simp add: mview_def lt)
  have "mview t (xs @ ys') a = (if start \<le> a \<and> a < fin then None else mview s es a)" for a
  proof (cases "mview s es a")
    case None
    then show ?thesis using rv by simp
  next
    case (Some v)
    from mview_bounds [OF assms(1) this] show ?thesis using rv range_check_exact [OF be, of a] by simp
  qed
  then show ?thesis using eq step t(4) by blast
qed


text \<open>The example, with the second entry backed by the first of the two example objects.\<close>

definition demo_backed :: vm_maps where
  "demo_backed = upd_ent (Ent 12) (\<lambda>v. v\<lparr>vobject := 10\<rparr>) demo_maps"

lemma demo_backed_ok:
  "map_inv demo_backed 1 [Ent 11, Ent 12]" "entries_free demo_backed [Ent 11, Ent 12]" "2 \<le> avail 1 demo_backed"
  "refs_ok (\<lambda>_. 0) demo_backed [Ent 11, Ent 12]" "length (vm_object_list demo_backed) = 2"
proof -
  note S = upd_ent_step [OF demo_maps_ok(1,2), of "Ent 12" "\<lambda>v. v\<lparr>vobject := 10\<rparr>", folded demo_backed_def]
  show "map_inv demo_backed 1 [Ent 11, Ent 12]" "entries_free demo_backed [Ent 11, Ent 12]" "2 \<le> avail 1 demo_backed"
    using S(1) demo_maps_ok(3) S(2) by (simp_all add: map_step_def)
  have o: "vm_objs.truncate demo_backed = demo_objs\<lparr>object_zone := [30, 40, 50]\<rparr>"
    by (simp add: demo_backed_def upd_ent_def demo_maps_def vm_objs.truncate_def vm_objs.extend_def)
  have l: "vm_object_list demo_backed = [10, 20]" "obj demo_backed = obj demo_objs"
    by (simp_all add: demo_backed_def upd_ent_def demo_maps_def vm_objs.extend_def demo_objs_def)
  have e: "cnt (ent demo_backed) [Ent 11, Ent 12] q + 0 = (if q = 10 then 1 else 0)" if "q \<in> {10, 20}" for q
    using that by (auto simp: cnt_def demo_backed_def upd_ent_def demo_fields demo_entry_def)
  have d: "vm_object_list demo_objs = [10, 20]" by (simp add: demo_objs_def)
  have "disposable demo_objs x" if "x \<in> {10, 20}" for x
    using that by (auto simp: disposable_def demo_objs_def vm_object_template_def)
  moreover have "chain demo_objs 20 [20]" using demo_objs_ok(2) by (auto simp: demo_objs_def vm_object_template_def)
  then have "\<exists>xs. chain demo_objs x xs \<and> set xs \<subseteq> {10, 20}" if "x \<in> {10, 20}" for x
    using that demo_objs_ok(2) by (metis empty_iff insert_iff list.set(1,2) subset_insertI order.refl)
  ultimately have "objs_wf (\<lambda>x. if x = 10 then 1 else 0) demo_objs"
    using demo_objs_ok(1,5) by (simp add: objs_wf_def d)
  moreover have "objs_wf ext (demo_objs\<lparr>object_zone := z\<rparr>) = objs_wf ext demo_objs" for ext z
  proof -
    have "chain (demo_objs\<lparr>object_zone := z\<rparr>) x xs = chain demo_objs x xs" for x xs by (rule chain_cong) simp
    moreover have "table_inv (demo_objs\<lparr>object_zone := z\<rparr>) = table_inv demo_objs"
      by (rule table_same_inv) (simp add: table_same_def)
    ultimately show ?thesis by (simp add: objs_wf_def refs_inv_def disposable_def)
  qed
  ultimately have "objs_wf (\<lambda>x. if x = 10 then 1 else 0) demo_backed" using o objs_wf_truncate [of _ demo_backed] by simp
  then have "objs_wf (\<lambda>q. cnt (ent demo_backed) [Ent 11, Ent 12] q + 0) demo_backed"
    using e l(1) by (subst objs_wf_cong [of _ _ "\<lambda>x. if x = 10 then 1 else 0"]) auto
  moreover have "\<not> is_a_map (ent demo_backed f) \<and> \<not> is_sub_map (ent demo_backed f) \<and>
      (vobject (ent demo_backed f) = 0 \<or> vobject (ent demo_backed f) \<in> {10, 20})" if "f \<in> {Ent 11, Ent 12}" for f
    using that by (auto simp: demo_backed_def upd_ent_def demo_fields demo_entry_def)
  ultimately show "refs_ok (\<lambda>_. 0) demo_backed [Ent 11, Ent 12]" by (simp add: refs_ok_def l)
  show "length (vm_object_list demo_backed) = 2" by (simp add: l)
qed


end
