(* ===== verification/VmMapCopy.thy ===== *)
theory VmMapCopy
  imports VmMapDelete
begin

text \<open>
  Virtual copies and the resolution of page faults, the last part of \<^verbatim>\<open>vm/vm_map.c\<close>:
  \<^verbatim>\<open>vm_map_copy_entry\<close>, \<^verbatim>\<open>vm_map_copy\<close>, \<^verbatim>\<open>vm_map_fork\<close> and \<^verbatim>\<open>vm_map_lookup\<close>, with
  \<^verbatim>\<open>vm_fault_copy_entry\<close> of \<^verbatim>\<open>vm/vm_fault.c\<close>.

  \<open>priv\<close> is the \<^verbatim>\<open>vm_privilege\<close> of the calling thread.  A routine that has to wait for a free page
  has not returned: its value is \<open>Inr None\<close>.
\<close>

subsection \<open>Copying wired pages\<close>

definition PAGE_WAKEUP :: "ptr \<Rightarrow> 'a vm_maps_scheme \<Rightarrow> 'a vm_maps_scheme" where
  "PAGE_WAKEUP m s =
    (let s = upd_page m (\<lambda>p. p\<lparr>busy := False\<rparr>) s
     in if wanted (page s m) then upd_page m (\<lambda>p. p\<lparr>wanted := False\<rparr>) s else s)"

fun fault_copy_pages ::
    "nat \<Rightarrow> bool \<Rightarrow> ptr \<Rightarrow> ptr \<Rightarrow> u32 \<Rightarrow> ptr \<Rightarrow> vm_prot \<Rightarrow> u32 \<Rightarrow> u32 \<Rightarrow> u32 \<Rightarrow> 'a vm_maps_scheme \<Rightarrow>
     'a vm_maps_scheme option kresult" where
  "fault_copy_pages 0 priv pm src_object src_offset dst_object prot fin vaddr dst_offset s = Inr None"
| "fault_copy_pages (Suc n) priv pm src_object src_offset dst_object prot fin vaddr dst_offset s =
    (if vaddr < fin
     then kbind (vm_page_alloc priv dst_object dst_offset s) (\<lambda>(dst_m, s).
       if dst_m = 0 then Inr None
       else
        (let src_m = vm_page_lookup src_object (dst_offset + src_offset) s in
         if src_m = 0 then Inl ''vm_fault_copy_wired: page missing''
         else
          (let s = vm_page_copy src_m dst_m s;
               s = pmap_do (PmapEnter pm vaddr (phys_addr (page s dst_m)) prot False) s
           in kbind (vm_page_activate dst_m s) (\<lambda>s.
                fault_copy_pages n priv pm src_object src_offset dst_object prot fin
                  (vaddr + page_size s) (dst_offset + page_size s) (PAGE_WAKEUP dst_m s)))))
     else Inr (Some s))"

text \<open>The loop runs once for every page of the entry.\<close>

definition page_fuel :: "u32 \<Rightarrow> 'a vm_maps_scheme \<Rightarrow> nat" where
  "page_fuel len s = unat len div unat (page_size s) + 2"

definition vm_fault_copy_entry ::
    "bool \<Rightarrow> ptr \<Rightarrow> ptr \<Rightarrow> eptr \<Rightarrow> eptr \<Rightarrow> 'a vm_maps_scheme \<Rightarrow> 'a vm_maps_scheme option kresult" where
  "vm_fault_copy_entry priv dst_map src_map dst_entry src_entry s =
    (let src_object = vobject (ent s src_entry);
         src_offset = voffset (ent s src_entry);
         len = vend (ent s dst_entry) - vstart (ent s dst_entry)
     in kbind (vm_object_allocate len s) (\<lambda>(dst_object, s).
          let s = upd_ent dst_entry (\<lambda>v. v\<lparr>vobject := dst_object, voffset := 0\<rparr>) s;
              prot = max_protection (ent s dst_entry)
          in fault_copy_pages (page_fuel len s) priv (pmap (vmap s dst_map)) src_object src_offset dst_object prot
               (vend (ent s dst_entry)) (vstart (ent s dst_entry)) 0 s))"

subsection \<open>Copying an entry\<close>

text \<open>Write-protecting the source, \<^verbatim>\<open>vm_map_copy_entry\<close>.\<close>

definition copy_protect :: "ptr \<Rightarrow> eptr \<Rightarrow> 'a vm_maps_scheme \<Rightarrow> 'a vm_maps_scheme" where
  "copy_protect src_map src_entry s =
    (if \<not> needs_copy (ent s src_entry)
     then
      (let su = (if \<not> is_main_map (vmap s src_map) then ref_count (vmap s src_map) = 1 else True) in
       if su
       then pmap_do (PmapProtect (pmap (vmap s src_map)) (vstart (ent s src_entry)) (vend (ent s src_entry))
              (protection (ent s src_entry) AND NOT VM_PROT_WRITE)) s
       else vm_object_pmap_copy (vobject (ent s src_entry)) (voffset (ent s src_entry))
              (voffset (ent s src_entry) + (vend (ent s src_entry) - vstart (ent s src_entry))) s)
     else s)"

text \<open>Taking the destination out of the physical maps.\<close>

definition copy_unmap :: "ptr \<Rightarrow> eptr \<Rightarrow> 'a vm_maps_scheme \<Rightarrow> 'a vm_maps_scheme" where
  "copy_unmap dst_map dst_entry s =
    (let s = (if wired_count (ent s dst_entry) \<noteq> 0 then vm_map_entry_unwire dst_map dst_entry s else s);
         s = (if \<not> is_main_map (vmap s dst_map)
              then vm_object_pmap_remove (vobject (ent s dst_entry)) (voffset (ent s dst_entry))
                     (voffset (ent s dst_entry) + (vend (ent s dst_entry) - vstart (ent s dst_entry))) s
              else s)
     in pmap_do (PmapRemove (pmap (vmap s dst_map)) (vstart (ent s dst_entry)) (vend (ent s dst_entry))) s)"

text \<open>The copy of the object, once both sides are protected.\<close>

definition copy_object ::
    "nat \<Rightarrow> ptr \<Rightarrow> ptr \<Rightarrow> eptr \<Rightarrow> eptr \<Rightarrow> 'a vm_maps_scheme \<Rightarrow> 'a vm_maps_scheme option kresult" where
  "copy_object n src_map dst_map src_entry dst_entry s =
    (let temp_object = vobject (ent s dst_entry) in
     rbind (vm_object_copy (vobject (ent s src_entry)) (voffset (ent s src_entry))
              (vend (ent s src_entry) - vstart (ent s src_entry)) s) (\<lambda>((d, doff, src_needs_copy), s).
       let s = upd_ent dst_entry (\<lambda>v. v\<lparr>vobject := d, voffset := doff\<rparr>) s;
           s = (if src_needs_copy then upd_ent src_entry (\<lambda>v. v\<lparr>needs_copy := True\<rparr>) s else s);
           s = upd_ent dst_entry (\<lambda>v. v\<lparr>needs_copy := True\<rparr>) s;
           s = upd_ent src_entry (\<lambda>v. v\<lparr>copy_on_write := True\<rparr>) s;
           s = upd_ent dst_entry (\<lambda>v. v\<lparr>copy_on_write := True\<rparr>) s
       in rbind (vm_object_deallocate n temp_object s) (\<lambda>s.
            Inr (Some (pmap_do (PmapCopy (pmap (vmap s dst_map)) (pmap (vmap s src_map)) (vstart (ent s dst_entry))
                         (vend (ent s dst_entry) - vstart (ent s dst_entry)) (vstart (ent s src_entry))) s)))))"

definition vm_map_copy_entry ::
    "nat \<Rightarrow> bool \<Rightarrow> ptr \<Rightarrow> ptr \<Rightarrow> eptr \<Rightarrow> eptr \<Rightarrow> 'a vm_maps_scheme \<Rightarrow> 'a vm_maps_scheme option kresult" where
  "vm_map_copy_entry n priv src_map dst_map src_entry dst_entry s =
    (if is_sub_map (ent s src_entry) \<or> is_sub_map (ent s dst_entry) then Inr (Some s)
     else
      (let s = copy_unmap dst_map dst_entry s in
       if wired_count (ent s src_entry) = 0
       then copy_object n src_map dst_map src_entry dst_entry (copy_protect src_map src_entry s)
       else vm_fault_copy_entry priv dst_map src_map dst_entry src_entry s))"

subsection \<open>Copying a range\<close>

text \<open>The maps are locked in the order of their addresses.\<close>

definition copy_lock :: "ptr \<Rightarrow> ptr \<Rightarrow> 'a vm_maps_scheme \<Rightarrow> 'a vm_maps_scheme" where
  "copy_lock src_map dst_map s =
    (if src_map = dst_map then vm_map_lock src_map s
     else if src_map < dst_map then vm_map_lock dst_map (vm_map_lock src_map s)
     else vm_map_lock src_map (vm_map_lock dst_map s))"

definition copy_checks ::
    "ptr \<Rightarrow> ptr \<Rightarrow> u32 \<Rightarrow> u32 \<Rightarrow> u32 \<Rightarrow> u32 \<Rightarrow> bool \<Rightarrow> 'a vm_maps_scheme \<Rightarrow> (kern_return \<times> 'a vm_maps_scheme) option kresult" where
  "copy_checks dst_map src_map dst_start dst_end src_start src_end dst_alloc s =
    (if is_main_map (vmap s src_map) \<and> is_main_map (vmap s dst_map)
     then rbind (vm_map_check_protection src_map src_start src_end VM_PROT_READ s) (\<lambda>(ok, s).
       if \<not> ok then Inr (Some (KERN_PROTECTION_FAILURE, s))
       else if dst_alloc then vm_map_insert dst_map 0 0 dst_start dst_end s
       else rbind (vm_map_check_protection dst_map dst_start dst_end VM_PROT_WRITE s) (\<lambda>(ok, s).
              if \<not> ok then Inr (Some (KERN_PROTECTION_FAILURE, s)) else Inr (Some (KERN_SUCCESS, s))))
     else Inr (Some (KERN_SUCCESS, s)))"

text \<open>Looking up the first entry of either range and clipping it.\<close>

definition copy_start ::
    "ptr \<Rightarrow> ptr \<Rightarrow> u32 \<Rightarrow> u32 \<Rightarrow> 'a vm_maps_scheme \<Rightarrow> ((eptr \<times> eptr) \<times> 'a vm_maps_scheme) option kresult" where
  "copy_start dst_map src_map dst_addr src_addr s =
     rbind (vm_map_lookup_entry src_map src_addr s) (\<lambda>((_, src_entry), s).
       kbind (vm_map_clip_start src_map src_entry src_addr s) (\<lambda>s.
         rbind (vm_map_lookup_entry dst_map dst_addr s) (\<lambda>((_, dst_entry), s).
           kbind (vm_map_clip_start dst_map dst_entry dst_addr s) (\<lambda>s.
             if src_entry = dst_entry
             then rbind (vm_map_lookup_entry src_map src_addr s) (\<lambda>((_, src_entry), s).
                    Inr (Some ((src_entry, dst_entry), s)))
             else Inr (Some ((src_entry, dst_entry), s))))))"

definition copy_clip :: "ptr \<Rightarrow> ptr \<Rightarrow> u32 \<Rightarrow> u32 \<Rightarrow> eptr \<Rightarrow> eptr \<Rightarrow> 'a vm_maps_scheme \<Rightarrow> 'a vm_maps_scheme kresult" where
  "copy_clip dst_map src_map dst_end src_end dst_entry src_entry s =
     kbind (vm_map_clip_end src_map src_entry src_end s) (\<lambda>s.
       kbind (vm_map_clip_end dst_map dst_entry dst_end s) (\<lambda>s.
         let src_clip = vstart (ent s src_entry) + (vend (ent s dst_entry) - vstart (ent s dst_entry)) in
         kbind (vm_map_clip_end src_map src_entry src_clip s) (\<lambda>s.
           let dst_clip = vstart (ent s dst_entry) + (vend (ent s src_entry) - vstart (ent s src_entry)) in
           vm_map_clip_end dst_map dst_entry dst_clip s)))"

text \<open>The map and address an entry leads to: its sharing map, or the map itself.\<close>

definition share_target :: "ptr \<Rightarrow> eptr \<Rightarrow> 'a vm_maps_scheme \<Rightarrow> ptr \<times> u32" where
  "share_target m entry s =
    (if is_a_map (ent s entry) then (vobject (ent s entry), voffset (ent s entry)) else (m, vstart (ent s entry)))"

text \<open>Emptying the range of the destination's sharing map.\<close>

definition copy_clear ::
    "nat \<Rightarrow> eptr \<Rightarrow> ptr \<Rightarrow> ptr \<Rightarrow> u32 \<Rightarrow> u32 \<Rightarrow> 'a vm_maps_scheme \<Rightarrow> 'a vm_maps_scheme option kresult" where
  "copy_clear n dst_entry new_dst_map new_src_map new_dst_start new_size s =
    (if is_a_map (ent s dst_entry) \<and> new_dst_map \<noteq> new_src_map
     then rbind (vm_map_delete n new_dst_map new_dst_start (new_dst_start + new_size) (vm_map_lock new_dst_map s)) (\<lambda>(_, s).
            rbind (vm_map_insert new_dst_map 0 0 new_dst_start (new_dst_start + new_size) s) (\<lambda>(_, s). Inr (Some s)))
     else Inr (Some s))"

text \<open>
  \<^verbatim>\<open>vm_map_copy\<close> and its loop, which calls it again for sharing maps.  The local \<^verbatim>\<open>src_destroy\<close> is always
  \<^verbatim>\<open>FALSE\<close> inside the loop; the argument takes effect at the label \<^verbatim>\<open>Return\<close>, on every path there.
\<close>

fun vm_map_copy ::
    "nat \<Rightarrow> bool \<Rightarrow> ptr \<Rightarrow> ptr \<Rightarrow> u32 \<Rightarrow> u32 \<Rightarrow> u32 \<Rightarrow> bool \<Rightarrow> bool \<Rightarrow> 'a vm_maps_scheme \<Rightarrow>
     (kern_return \<times> 'a vm_maps_scheme) option kresult"
  and copy_walk ::
    "nat \<Rightarrow> bool \<Rightarrow> ptr \<Rightarrow> ptr \<Rightarrow> u32 \<Rightarrow> u32 \<Rightarrow> u32 \<Rightarrow> eptr \<Rightarrow> eptr \<Rightarrow> 'a vm_maps_scheme \<Rightarrow>
     'a vm_maps_scheme option kresult" where
  "vm_map_copy 0 priv dst_map src_map dst_addr len src_addr dst_alloc src_destroy s = Inr None"
| "vm_map_copy (Suc n) priv dst_map src_map dst_addr len src_addr dst_alloc src_destroy s =
    (if dst_addr + len < dst_addr \<or> src_addr + len < src_addr then Inr (Some (KERN_NO_SPACE, s))
     else rbind (copy_checks dst_map src_map dst_addr (dst_addr + len) src_addr (src_addr + len) dst_alloc
                   (copy_lock src_map dst_map s)) (\<lambda>r.
       rbind (if fst r = KERN_SUCCESS
              then rbind (copy_start dst_map src_map dst_addr src_addr (snd r)) (\<lambda>e.
                     if fst (fst e) = snd (fst e) then Inr (Some (snd e))
                     else copy_walk n priv dst_map src_map (dst_addr + len) (src_addr + len) src_addr
                            (snd (fst e)) (fst (fst e)) (snd e))
              else Inr (Some (snd r))) (\<lambda>s.
         if src_destroy
         then rbind (vm_map_delete n src_map src_addr (src_addr + len) s) (\<lambda>d. Inr (Some (fst r, snd d)))
         else Inr (Some (fst r, s)))))"
| "copy_walk 0 priv dst_map src_map dst_end src_end src_start dst_entry src_entry s = Inr None"
| "copy_walk (Suc n) priv dst_map src_map dst_end src_end src_start dst_entry src_entry s =
    (if src_start < src_end
     then kbind (copy_clip dst_map src_map dst_end src_end dst_entry src_entry s) (\<lambda>s.
       rbind (if \<not> is_a_map (ent s src_entry) \<and> \<not> is_a_map (ent s dst_entry)
              then vm_map_copy_entry n priv src_map dst_map src_entry dst_entry s
              else rbind (copy_clear n dst_entry (fst (share_target dst_map dst_entry s)) (fst (share_target src_map src_entry s))
                            (snd (share_target dst_map dst_entry s)) (vend (ent s dst_entry) - vstart (ent s dst_entry)) s) (\<lambda>u.
                     rbind (vm_map_copy n priv (fst (share_target dst_map dst_entry s)) (fst (share_target src_map src_entry s))
                              (snd (share_target dst_map dst_entry s)) (vend (ent s dst_entry) - vstart (ent s dst_entry))
                              (snd (share_target src_map src_entry s)) False False u) (\<lambda>r. Inr (Some (snd r))))) (\<lambda>s.
         copy_walk n priv dst_map src_map dst_end src_end (vend (ent s src_entry)) (vnext s dst_entry) (vnext s src_entry) s))
     else Inr (Some s))"

subsection \<open>Fork\<close>

text \<open>A sharing map around the data of an entry that has none yet.\<close>

definition fork_share_map :: "eptr \<Rightarrow> 'a vm_maps_scheme \<Rightarrow> 'a vm_maps_scheme kresult" where
  "fork_share_map old_entry s =
    (if \<not> is_a_map (ent s old_entry)
     then kbind (vm_map_create 0 (vstart (ent s old_entry)) (vend (ent s old_entry)) True s) (\<lambda>(new_share_map, s).
       let s = upd_map new_share_map (\<lambda>v. v\<lparr>is_main_map := False\<rparr>) s in
       kbind (vm_map_entry_create new_share_map s) (\<lambda>(new_share_entry, s).
         let s = upd_ent new_share_entry (\<lambda>_. ent s old_entry) s;
             s = vm_map_entry_link new_share_map (vprev s (Hdr new_share_map)) new_share_entry s
         in Inr (upd_ent old_entry (\<lambda>v. v\<lparr>is_a_map := True, vobject := new_share_map, voffset := vstart v\<rparr>) s)))
     else Inr s)"

definition fork_share :: "ptr \<Rightarrow> ptr \<Rightarrow> eptr \<Rightarrow> 'a vm_maps_scheme \<Rightarrow> 'a vm_maps_scheme option kresult" where
  "fork_share old_map new_map old_entry s =
     kbind (fork_share_map old_entry s) (\<lambda>s.
       kbind (vm_map_entry_create new_map s) (\<lambda>(new_entry, s).
         let s = upd_ent new_entry (\<lambda>_. ent s old_entry) s;
             s = vm_map_reference (vobject (ent s new_entry)) s;
             s = vm_map_entry_link new_map (vprev s (Hdr new_map)) new_entry s
         in Inr (Some (pmap_do (PmapCopy (pmap (vmap s new_map)) (pmap (vmap s old_map)) (vstart (ent s new_entry))
                   (vend (ent s old_entry) - vstart (ent s old_entry)) (vstart (ent s old_entry))) s))))"

definition fork_copy :: "nat \<Rightarrow> bool \<Rightarrow> ptr \<Rightarrow> ptr \<Rightarrow> eptr \<Rightarrow> 'a vm_maps_scheme \<Rightarrow> 'a vm_maps_scheme option kresult" where
  "fork_copy n priv old_map new_map old_entry s =
     kbind (vm_map_entry_create new_map s) (\<lambda>(new_entry, s).
       let s = upd_ent new_entry (\<lambda>_. ent s old_entry) s;
           s = upd_ent new_entry (\<lambda>v. v\<lparr>wired_count := 0, vobject := 0, is_a_map := False\<rparr>) s;
           s = vm_map_entry_link new_map (vprev s (Hdr new_map)) new_entry s
       in if is_a_map (ent s old_entry)
          then rbind (vm_map_copy n priv new_map (vobject (ent s old_entry)) (vstart (ent s new_entry))
                        (vend (ent s new_entry) - vstart (ent s new_entry)) (voffset (ent s old_entry)) False False s)
                 (\<lambda>(check, s). Inr (Some s))
          else vm_map_copy_entry n priv old_map new_map old_entry new_entry s)"

fun fork_walk :: "nat \<Rightarrow> bool \<Rightarrow> ptr \<Rightarrow> ptr \<Rightarrow> eptr \<Rightarrow> 'a vm_maps_scheme \<Rightarrow> 'a vm_maps_scheme option kresult" where
  "fork_walk 0 priv old_map new_map old_entry s = Inr None"
| "fork_walk (Suc n) priv old_map new_map old_entry s =
    (if old_entry \<noteq> Hdr old_map
     then if is_sub_map (ent s old_entry) then Inl ''vm_map_fork: encountered a submap''
          else rbind (if inheritance (ent s old_entry) = VM_INHERIT_SHARE then fork_share old_map new_map old_entry s
                      else if inheritance (ent s old_entry) = VM_INHERIT_COPY then fork_copy n priv old_map new_map old_entry s
                      else Inr (Some s)) (\<lambda>s.
                 fork_walk n priv old_map new_map (vnext s old_entry) s)
     else Inr (Some s))"

text \<open>\<open>new_pmap\<close> is the physical map \<^verbatim>\<open>pmap_create\<close> returns.\<close>

definition vm_map_fork ::
    "nat \<Rightarrow> bool \<Rightarrow> ptr \<Rightarrow> ptr \<Rightarrow> 'a vm_maps_scheme \<Rightarrow> (ptr \<times> 'a vm_maps_scheme) option kresult" where
  "vm_map_fork n priv new_pmap old_map s =
    (let s = vm_map_lock old_map s in
     kbind (vm_map_create new_pmap (vm_map_min old_map s) (vm_map_max old_map s) (entries_pageable (vmap s old_map)) s)
       (\<lambda>(new_map, s).
         rbind (fork_walk n priv old_map new_map (vnext s (Hdr old_map)) s) (\<lambda>s.
           Inr (Some (new_map, upd_map new_map (\<lambda>v. v\<lparr>vsize := vsize (vmap s old_map)\<rparr>) s)))))"

subsection \<open>Resolving a fault\<close>

record lookup_result =
  lk_map :: ptr
  lk_entry :: eptr
  lk_object :: ptr
  lk_offset :: u32
  lk_prot :: vm_prot
  lk_wired :: bool
  lk_single_use :: bool

text \<open>The hint is tried before the full search.\<close>

definition lookup_hint :: "ptr \<Rightarrow> u32 \<Rightarrow> 'a vm_maps_scheme \<Rightarrow> ((bool \<times> eptr) \<times> 'a vm_maps_scheme) option kresult" where
  "lookup_hint m vaddr s =
    (let entry = hint (vmap s m) in
     if entry = Hdr m \<or> vaddr < vstart (ent s entry) \<or> vaddr \<ge> vend (ent s entry)
     then vm_map_lookup_entry m vaddr s
     else Inr (Some ((True, entry), s)))"

text \<open>
  Making the entry's object usable for the access.  \<open>upgrades\<close> lists the results of the calls of
  \<^verbatim>\<open>lock_read_to_write\<close> on the (sharing) map: \<open>True\<close> when the lock was lost and the lookup starts
  again; a call beyond the list succeeds.  The results are whether to retry, the remaining list
  and the protection.
\<close>

definition lookup_copy ::
    "bool list \<Rightarrow> eptr \<Rightarrow> vm_prot \<Rightarrow> vm_prot \<Rightarrow> 'a vm_maps_scheme \<Rightarrow> ((bool \<times> bool list \<times> vm_prot) \<times> 'a vm_maps_scheme) kresult" where
  "lookup_copy upgrades entry fault_type prot s =
    (if needs_copy (ent s entry)
     then if fault_type AND VM_PROT_WRITE \<noteq> 0
          then if upgrades \<noteq> [] \<and> hd upgrades then Inr ((True, tl upgrades, prot), s)
               else kbind (vm_object_shadow (vobject (ent s entry)) (voffset (ent s entry))
                             (vend (ent s entry) - vstart (ent s entry)) s) (\<lambda>(q, off, s).
                      Inr ((False, tl upgrades, prot),
                        upd_ent entry (\<lambda>v. v\<lparr>vobject := q, voffset := off, needs_copy := False\<rparr>) s))
          else Inr ((False, upgrades, prot AND NOT VM_PROT_WRITE), s)
     else Inr ((False, upgrades, prot), s))"

definition lookup_create ::
    "bool list \<Rightarrow> eptr \<Rightarrow> vm_prot \<Rightarrow> 'a vm_maps_scheme \<Rightarrow> ((bool \<times> bool list \<times> vm_prot) \<times> 'a vm_maps_scheme) kresult" where
  "lookup_create upgrades entry prot s =
    (if vobject (ent s entry) = 0
     then if upgrades \<noteq> [] \<and> hd upgrades then Inr ((True, tl upgrades, prot), s)
          else kbind (vm_object_allocate (vend (ent s entry) - vstart (ent s entry)) s) (\<lambda>(q, s).
                 Inr ((False, tl upgrades, prot), upd_ent entry (\<lambda>v. v\<lparr>vobject := q, voffset := 0\<rparr>) s))
     else Inr ((False, upgrades, prot), s))"

definition lookup_fix ::
    "bool list \<Rightarrow> eptr \<Rightarrow> vm_prot \<Rightarrow> vm_prot \<Rightarrow> 'a vm_maps_scheme \<Rightarrow> ((bool \<times> bool list \<times> vm_prot) \<times> 'a vm_maps_scheme) kresult" where
  "lookup_fix upgrades entry fault_type prot s =
     kbind (lookup_copy upgrades entry fault_type prot s) (\<lambda>((retry, upgrades, prot), s).
       if retry then Inr ((True, upgrades, prot), s) else lookup_create upgrades entry prot s)"

text \<open>The (sharing) map, the offset in it and its entry for an address found in \<open>entry\<close> of \<open>m\<close>.\<close>

definition lookup_share ::
    "ptr \<Rightarrow> eptr \<Rightarrow> u32 \<Rightarrow> 'a vm_maps_scheme \<Rightarrow> ((bool \<times> ptr \<times> u32 \<times> eptr) \<times> 'a vm_maps_scheme) option kresult" where
  "lookup_share m entry vaddr s =
    (if \<not> is_a_map (ent s entry) then Inr (Some ((True, m, vaddr, entry), s))
     else
      (let share_map = vobject (ent s entry);
           share_offset = (vaddr - vstart (ent s entry)) + voffset (ent s entry)
       in rbind (vm_map_lookup_entry share_map share_offset s) (\<lambda>((found, share_entry), s).
            Inr (Some ((found, share_map, share_offset, share_entry), s)))))"

text \<open>\<open>Inl\<close> carries the error; the first argument bounds the submaps followed and the retries.\<close>

fun vm_map_lookup ::
    "nat \<Rightarrow> bool list \<Rightarrow> ptr \<Rightarrow> u32 \<Rightarrow> vm_prot \<Rightarrow> 'a vm_maps_scheme \<Rightarrow>
     ((kern_return + lookup_result) \<times> 'a vm_maps_scheme) option kresult" where
  "vm_map_lookup 0 upgrades m vaddr fault_type s = Inr None"
| "vm_map_lookup (Suc n) upgrades m vaddr fault_type s =
     rbind (lookup_hint m vaddr s) (\<lambda>((found, out_entry), s).
       if \<not> found then Inr (Some (Inl KERN_INVALID_ADDRESS, s))
       else if is_sub_map (ent s out_entry) then vm_map_lookup n upgrades (vobject (ent s out_entry)) vaddr fault_type s
       else if fault_type AND protection (ent s out_entry) \<noteq> fault_type
       then Inr (Some (Inl KERN_PROTECTION_FAILURE, s))
       else
        (let wired = (wired_count (ent s out_entry) \<noteq> 0);
             prot = protection (ent s out_entry);
             fault_type = (if wired then prot else fault_type);
             su = (\<not> is_a_map (ent s out_entry))
         in rbind (lookup_share m out_entry vaddr s) (\<lambda>((found, share_map, share_offset, entry), s).
              if \<not> found then Inr (Some (Inl KERN_INVALID_ADDRESS, s))
              else kbind (lookup_fix upgrades entry fault_type prot s) (\<lambda>((retry, upgrades, prot), s).
                if retry then vm_map_lookup n upgrades m vaddr fault_type s
                else Inr (Some (Inr \<lparr>lk_map = m, lk_entry = out_entry, lk_object = vobject (ent s entry),
                         lk_offset = (share_offset - vstart (ent s entry)) + voffset (ent s entry), lk_prot = prot,
                         lk_wired = wired,
                         lk_single_use = (if \<not> su then ref_count (vmap s share_map) = 1 else su)\<rparr>, s))))))"

end
