(* ===== verification/VmMapFault.thy ===== *)
theory VmMapFault
  imports VmMapCopy
begin

text \<open>
  What \<^verbatim>\<open>vm_map_lookup\<close> promises the fault handler: the right errors, and on success an object and
  offset that show exactly the data the address showed before, although the map may have been
  given a new shadow object or a first object on the way.
\<close>

subsection \<open>The data an address shows\<close>

definition shown :: "(ptr \<Rightarrow> u32 \<Rightarrow> bool) \<Rightarrow> 'a vm_maps_scheme \<Rightarrow> vm_map_entry \<Rightarrow> source \<Rightarrow> bool" where
  "shown h s v d \<longleftrightarrow> (\<exists>xs. chain s (vobject v) xs \<and> d = visible h s xs (voffset v))"

text \<open>Every address of the map shows in the new state the data it showed in the old one.\<close>

definition data_kept :: "'a vm_maps_scheme \<Rightarrow> 'a vm_maps_scheme \<Rightarrow> eptr list \<Rightarrow> bool" where
  "data_kept s t es \<longleftrightarrow>
     (\<forall>a. case mview s es a of None \<Rightarrow> mview t es a = None
        | Some v \<Rightarrow> \<exists>w. mview t es a = Some w \<and> (\<forall>h d. shown h s v d \<longrightarrow> shown h t w d))"

lemma data_kept_same:
  assumes "\<And>e. e \<in> set es \<Longrightarrow> ent t e = ent s e" and "obj t = obj s" and "page_at t = page_at s"
  shows "data_kept s t es"
proof -
  have m: "mview t es a = mview s es a" for a unfolding mview_def by (rule view_in_cong) (simp add: assms(1))
  have c: "chain t x xs = chain s x xs" for x xs by (rule chain_cong) (simp add: assms)
  have "visible h t xs a = visible h s xs a" for h xs a by (rule visible_cong) (simp_all add: assms)
  then have "shown h t v d = shown h s v d" for h v d by (simp add: shown_def c)
  then show ?thesis by (auto simp: data_kept_def m split: option.split)
qed

lemma data_kept_refl: "data_kept s s es"
  by (rule data_kept_same) simp_all

lemma data_kept_trans:
  assumes "data_kept s t es" and "data_kept t u es"
  shows "data_kept s u es"
  unfolding data_kept_def
proof
  fix a
  show "case mview s es a of None \<Rightarrow> mview u es a = None
        | Some v \<Rightarrow> \<exists>w. mview u es a = Some w \<and> (\<forall>h d. shown h s v d \<longrightarrow> shown h u w d)"
    using assms [unfolded data_kept_def, THEN spec, of a] by (cases "mview s es a") auto
qed

subsection \<open>A new object on top of an entry\<close>

text \<open>
  \<open>topped r q off s t\<close>: \<open>t\<close> is \<open>s\<close> with a new object \<open>r\<close> that shadows \<open>q\<close> at \<open>off\<close>, or shadows
  nothing when \<open>q\<close> is null.
\<close>

definition topped :: "ptr \<Rightarrow> ptr \<Rightarrow> u32 \<Rightarrow> 'a vm_maps_scheme \<Rightarrow> 'a vm_maps_scheme \<Rightarrow> bool" where
  "topped r q off s t \<longleftrightarrow> table_same s t \<and> maps_same s t \<and> vm_object_list t = vm_object_list s @ [r] \<and>
     (\<exists>len off'. obj t = (obj s)(r := vm_object_template\<lparr>o_size := len, shadow := q, shadow_offset := off'\<rparr>) \<and>
        (q \<noteq> 0 \<longrightarrow> off' = off))"

lemma shadow_topped:
  assumes "table_inv s" and "zone_ok s" and "object_zone s = r # rs" and "chain s q xs" and "r \<notin> set xs"
  shows "\<exists>t. vm_object_shadow q off len s = Inr (r, 0, t) \<and> topped r q off s t \<and> r \<noteq> 0"
proof -
  obtain t where t: "vm_object_shadow q off len s = Inr (r, 0, t)" "r \<noteq> 0" "table_same s t"
      "obj t = (obj s)(r := vm_object_template\<lparr>o_size := len, shadow := q, shadow_offset := off\<rparr>)"
      "vm_object_list t = vm_object_list s @ [r]"
    using shadow_shows [OF assms] by blast
  moreover have "maps_same s t" using allocate_maps_same(2) [OF assms(3) t(2), of q off len] t(1) by auto
  ultimately show ?thesis by (auto simp: topped_def)
qed

lemma allocate_topped:
  assumes "table_inv s" and "zone_ok s" and "object_zone s = r # rs"
  shows "\<exists>t. vm_object_allocate len s = Inr (r, t) \<and> topped r 0 off s t \<and> r \<noteq> 0"
proof -
  obtain t where t: "vm_object_allocate len s = Inr (r, t)" "table_same s t" "obj t = (obj s)(r := vm_object_template\<lparr>o_size := len\<rparr>)"
      "vm_object_list t = vm_object_list s @ [r]" "r \<noteq> 0" using allocate_fields [OF assms] by blast
  have "maps_same s t" using allocate_maps_same(1) [OF assms(3) t(5), of len] t(1) by auto
  moreover have "vm_object_template\<lparr>o_size := len\<rparr> = vm_object_template\<lparr>o_size := len, shadow := 0, shadow_offset := 0\<rparr>"
    by (simp add: vm_object_template_def)
  ultimately show ?thesis using t unfolding topped_def by metis
qed

lemma topped_wf:
  assumes top: "topped r q off s t" and wf: "objs_wf ext s" and zone: "zone_ok s" "r \<in> set (object_zone s)"
    and q: "q = 0 \<or> q \<in> set (vm_object_list s) \<and> 1 \<le> ext q \<and> copy_obj (obj s q) = 0" and r: "ext r = 0"
  shows "objs_wf (\<lambda>x. ext x + (if x = r then 1 else 0) - (if x = q then 1 else 0)) t"
proof -
  let ?L = "set (vm_object_list s)"
  obtain len off' where t: "table_same s t" "vm_object_list t = vm_object_list s @ [r]"
      "obj t = (obj s)(r := vm_object_template\<lparr>o_size := len, shadow := q, shadow_offset := off'\<rparr>)"
    using top by (auto simp: topped_def)
  have r': "r \<noteq> 0" "r \<notin> ?L" using zone by (auto simp: zone_ok_def)
  have w: "distinct (vm_object_list s)" "\<And>x. x \<in> ?L \<Longrightarrow> shadow (obj s x) = 0 \<or> shadow (obj s x) \<in> ?L"
      "\<And>x. x \<in> ?L \<Longrightarrow> 0 \<le> ext x \<and> o_refs (obj s x) = ext x + int (card {y \<in> ?L. shadow (obj s y) = x})"
      "table_inv s" "0 \<notin> ?L" "\<And>x. x \<in> ?L \<Longrightarrow> disposable s x"
      "\<And>x. x \<in> ?L \<Longrightarrow> \<exists>xs. chain s x xs \<and> set xs \<subseteq> ?L"
    using wf unfolding objs_wf_def refs_inv_def by blast+
  have f: "shadow (obj t x) = (if x = r then q else shadow (obj s x))" "copy_obj (obj t x) = (if x = r then 0 else copy_obj (obj s x))"
      "o_refs (obj t x) = (if x = r then 1 else o_refs (obj s x))" "can_persist (obj t x) = (if x = r then False else can_persist (obj s x))"
      "paging_in_progress (obj t x) = (if x = r then 0 else paging_in_progress (obj s x))" for x
    by (simp_all add: t(3) vm_object_template_def)
  have users: "{y \<in> set (vm_object_list t). shadow (obj t y) = x} =
      (if x = q then insert r {y \<in> ?L. shadow (obj s y) = x} else {y \<in> ?L. shadow (obj s y) = x})" for x
    using r'(2) by (auto simp: t(2) f)
  have "refs_inv (\<lambda>x. ext x + (if x = r then 1 else 0) - (if x = q then 1 else 0)) t"
    unfolding refs_inv_def
  proof (intro conjI ballI)
    show "distinct (vm_object_list t)" using w(1) r' t(2) by simp
    fix x assume x: "x \<in> set (vm_object_list t)"
    show "shadow (obj t x) = 0 \<or> shadow (obj t x) \<in> set (vm_object_list t)" using x w(2) [of x] q by (auto simp: t(2) f)
    show "0 \<le> ext x + (if x = r then 1 else 0) - (if x = q then 1 else 0)"
    proof (cases "x = r")
      case True
      then show ?thesis using r q r' by auto
    next
      case False
      then have "x \<in> ?L" using x t(2) by simp
      then show ?thesis using False w(3) [of x] w(5) q by (cases "x = q") auto
    qed
    have "shadow (obj s y) \<noteq> r" if "y \<in> ?L" for y using w(2) [OF that] r' by auto
    then have "{y \<in> ?L. shadow (obj s y) = r} = {}" by auto
    then have none: "card {y \<in> ?L. shadow (obj s y) = r} = 0" by (simp only: card.empty)
    have one_more: "card (insert r {y \<in> ?L. shadow (obj s y) = x}) = Suc (card {y \<in> ?L. shadow (obj s y) = x})"
      using r'(2) by (intro card_insert_disjoint) auto
    have rq: "r \<noteq> q" using r' q by auto
    consider (new) "x = r" | (under) "x = q" "x \<in> ?L" "x \<noteq> r" | (other) "x \<noteq> q" "x \<in> ?L" "x \<noteq> r"
      using x rq by (auto simp: t(2))
    then show "o_refs (obj t x) = ext x + (if x = r then 1 else 0) - (if x = q then 1 else 0) +
        int (card {y \<in> set (vm_object_list t). shadow (obj t y) = x})"
    proof cases
      case new
      then show ?thesis unfolding users using none r rq by (simp add: f)
    next
      case under
      then show ?thesis unfolding users using one_more w(3) [of x] by (simp add: f)
    next
      case other
      then show ?thesis unfolding users using w(3) [of x] by (simp add: f)
    qed
  qed
  moreover have "table_inv t" using table_same_inv [OF t(1)] w(4) by simp
  moreover have "disposable t x" if "x \<in> set (vm_object_list t)" for x
    using that w(6) [of x] w(2) [of x] q r' by (auto simp: t(2) disposable_def f)
  moreover have "\<exists>xs. chain t x xs \<and> set xs \<subseteq> set (vm_object_list t)" if x: "x \<in> set (vm_object_list t)" for x
  proof -
    have old: "\<exists>xs. chain t y xs \<and> set xs \<subseteq> ?L" if y: "y = 0 \<or> y \<in> ?L" for y
    proof (cases "y = 0")
      case True
      then show ?thesis by (intro exI [of _ "[]"]) simp
    next
      case False
      then obtain xs where xs: "chain s y xs" "set xs \<subseteq> ?L" using y w(7) by blast
      then have "chain t y xs = chain s y xs" using r'(2) by (intro chain_cong) (auto simp: f)
      then show ?thesis using xs by blast
    qed
    show ?thesis
    proof (cases "x = r")
      case True
      obtain xs where "chain t q xs" "set xs \<subseteq> ?L" using old [of q] q by blast
      then show ?thesis using True r'(1) by (intro exI [of _ "r # xs"]) (auto simp: f t(2))
    next
      case False
      then show ?thesis using old [of x] x by (auto simp: t(2))
    qed
  qed
  ultimately show ?thesis using w(5) r'(1) by (auto simp: objs_wf_def t(2))
qed

text \<open>Replacing the object of one entry.\<close>

lemma cnt_upd:
  assumes "e \<in> set es" and "distinct es"
  shows "cnt (E(e := w)) es x = cnt E es x + (if vobject w = x then 1 else 0) - (if vobject (E e) = x then 1 else 0)"
proof -
  obtain xs ys where es: "es = xs @ e # ys" using assms(1) by (metis in_set_conv_decomp)
  then have "cnt (E(e := w)) xs x = cnt E xs x" "cnt (E(e := w)) ys x = cnt E ys x" using assms(2) by (auto intro!: cnt_cong)
  then show ?thesis by (simp add: es cnt_append cnt_Cons)
qed

lemma view_in_upd:
  assumes "vstart w = vstart (E e)" and "vend w = vend (E e)"
  shows "(view_in E es a = None \<longrightarrow> view_in (E(e := w)) es a = None) \<and>
    (\<forall>v. view_in E es a = Some v \<longrightarrow>
      (\<exists>x\<in>set es. covers (E x) a \<and> v = view (E x) a \<and> view_in (E(e := w)) es a = Some (view ((E(e := w)) x) a)))"
  using assms by (induction es) (auto simp: covers_def)

lemma topped_chain:
  assumes top: "topped r q off s t" and inv: "table_inv s" and zone: "zone_ok s" "r \<in> set (object_zone s)"
  shows "r \<notin> set xs \<Longrightarrow> chain t y xs = chain s y xs" "r \<notin> set xs \<Longrightarrow> visible h t xs a = visible h s xs a"
    "chain s q xs \<Longrightarrow> r \<notin> set xs \<Longrightarrow> chain t r (r # xs) \<and> visible h t (r # xs) a = visible h s xs (off + a)"
proof -
  obtain len off' where t: "table_same s t" "q \<noteq> 0 \<longrightarrow> off' = off"
      "obj t = (obj s)(r := vm_object_template\<lparr>o_size := len, shadow := q, shadow_offset := off'\<rparr>)"
    using top by (auto simp: topped_def)
  have r: "r \<noteq> 0" using zone by (auto simp: zone_ok_def)
  have at: "page_at t = page_at s" by (rule table_same_page_at [OF t(1)])
  show c: "chain t y xs = chain s y xs" if "r \<notin> set xs" for y xs using that t(3) by (intro chain_cong) auto
  show v: "visible h t xs a = visible h s xs a" if "r \<notin> set xs" for xs a using that t(3) at by (intro visible_cong) auto
  assume xs: "chain s q xs" "r \<notin> set xs"
  have "page_at t (r, b) = None" for b using no_pages [OF inv, of r b] zone at by (auto simp: zone_ok_def)
  then have "visible h t (r # xs) a = visible h t xs (a + shadow_offset (obj t r))"
    by (rule visible_empty) (simp add: t(3) vm_object_template_def)
  also have "\<dots> = visible h s xs (off + a)"
    using v [OF xs(2)] t(2) xs(1) by (cases "q = 0"; cases xs) (auto simp: t(3) add.commute simp del: visible.simps(2))
  finally show "chain t r (r # xs) \<and> visible h t (r # xs) a = visible h s xs (off + a)"
    using c [OF xs(2)] xs r by (simp add: t(3) del: visible.simps)
qed

lemma topped_entry:
  assumes inv: "map_inv s m es" and free: "entries_free s es" and ok: "refs_ok rest s es" and zone: "zone_ok s" "r \<in> set (object_zone s)"
    and r: "rest r = 0" and e: "e \<in> set es" and cp: "vobject (ent s e) = 0 \<or> copy_obj (obj s (vobject (ent s e))) = 0"
    and top: "topped r (vobject (ent s e)) (voffset (ent s e)) s t"
    and f: "vstart (f (ent s e)) = vstart (ent s e)" "vend (f (ent s e)) = vend (ent s e)" "vobject (f (ent s e)) = r" "voffset (f (ent s e)) = 0"
      "is_a_map (f (ent s e)) = is_a_map (ent s e)" "is_sub_map (f (ent s e)) = is_sub_map (ent s e)"
  defines "u \<equiv> upd_ent e f t"
  shows "map_step m s es u es" "ent u = (ent s)(e := f (ent s e))" "refs_ok rest u es" "data_kept s u es" "obj u = obj t"
proof -
  let ?q = "vobject (ent s e)" and ?L = "set (vm_object_list s)"
  have ms: "maps_same s t" and lt: "vm_object_list t = vm_object_list s @ [r]" using top by (auto simp: topped_def)
  note D = maps_sameD [OF ms]
  have it: "map_inv t m es" "entries_free t es" using inv free maps_same_inv [OF ms] by simp_all
  note U = upd_ent_step [OF it e, of f]
  show st: "map_step m s es u es" using map_step_trans [OF maps_same_step [OF ms inv free]] U(1) f by (simp add: D(1) u_def)
  show eu: "ent u = (ent s)(e := f (ent s e))" using U(3) f by (simp add: D(1) u_def)
  show ou: "obj u = obj t" by (simp add: u_def upd_ent_def)
  have ut: "vm_objs.truncate u = vm_objs.truncate t" "vm_object_list u = vm_object_list t" "page_at u = page_at t"
    by (auto simp: u_def upd_ent_def vm_objs.truncate_def page_at_def vm_page_lookup_def fun_eq_iff
        bucket_search_cong [of "t\<lparr>ent := (ent t)(e := f (ent t e))\<rparr>" t] vm_page_hash_def)
  have wf: "objs_wf (\<lambda>x. cnt (ent s) es x + rest x) s" and live: "\<forall>x\<in>set es. \<not> is_a_map (ent s x) \<and> \<not> is_sub_map (ent s x) \<and>
      (vobject (ent s x) = 0 \<or> vobject (ent s x) \<in> ?L)" and nn: "\<forall>x. 0 \<le> rest x" using ok by (auto simp: refs_ok_def)
  have tinv: "table_inv s" using wf by (simp add: objs_wf_def)
  have r': "r \<noteq> 0" "r \<notin> ?L" using zone by (auto simp: zone_ok_def)
  have dist: "distinct es" using inv by (simp add: map_inv_def ring_def)
  have "cnt (ent s) es r = 0" using live r' by (auto simp: cnt_def filter_empty_conv)
  then have er: "cnt (ent s) es r + rest r = 0" using r by simp
  have "1 \<le> cnt (ent s) es ?q + rest ?q" using cnt_pos [OF e, of "ent s"] nn by (metis add.commute add_increasing int_one_le_iff_zero_less)
  then have q: "?q = 0 \<or> ?q \<in> ?L \<and> 1 \<le> cnt (ent s) es ?q + rest ?q \<and> copy_obj (obj s ?q) = 0" using live e cp by auto
  from topped_wf [OF top wf zone q er]
  have "objs_wf (\<lambda>x. cnt (ent u) es x + rest x) u"
    unfolding objs_wf_same [OF ut(1)] eu cnt_upd [OF e dist] f(3) by (rule back_subst [of "\<lambda>g. objs_wf g t"]) (auto simp: fun_eq_iff)
  then show "refs_ok rest u es" using live nn f(3,5,6) e unfolding refs_ok_def eu ut(2) lt by auto
  have closed: "r \<notin> set xs" if "x \<in> set es" "chain s (vobject (ent s x)) xs" for x xs
  proof -
    have "\<forall>x\<in>?L. shadow (obj s x) = 0 \<or> shadow (obj s x) \<in> ?L" using wf by (simp add: objs_wf_def refs_inv_def)
    from chain_closed [OF this that(2)] show ?thesis using live that(1) r'(2) by blast
  qed
  have cu: "chain u y xs = chain t y xs" for y xs by (rule chain_cong) (simp add: ou)
  have vu: "visible h u xs a = visible h t xs a" for h xs a by (rule visible_cong) (simp_all add: ou ut(3))
  note T = topped_chain [OF top tinv zone]
  have sh: "shown h u (view ((ent u) x) a) d" if x: "x \<in> set es" and d: "shown h s (view (ent s x) a) d" for h x a d
  proof -
    obtain xs where xs: "chain s (vobject (ent s x)) xs" "d = visible h s xs (voffset (ent s x) + (a - vstart (ent s x)))"
      using d by (auto simp: shown_def view_def)
    note nr = closed [OF x xs(1)]
    show ?thesis
    proof (cases "x = e")
      case True
      then show ?thesis using T(3) [of xs h "a - vstart (ent s e)"] xs nr f
        by (auto simp: shown_def view_def eu cu vu simp del: chain.simps visible.simps)
    next
      case False
      then show ?thesis using T(1,2) [OF nr] xs by (auto simp: shown_def view_def eu cu vu intro!: exI [of _ xs])
    qed
  qed
  show "data_kept s u es"
    unfolding data_kept_def
  proof
    fix a
    note V = view_in_upd [of "f (ent s e)" "ent s" e es a, OF f(1,2)]
    show "case mview s es a of None \<Rightarrow> mview u es a = None
        | Some v \<Rightarrow> \<exists>w. mview u es a = Some w \<and> (\<forall>h d. shown h s v d \<longrightarrow> shown h u w d)"
    proof (cases "mview s es a")
      case None
      then show ?thesis using V by (simp add: mview_def eu)
    next
      case (Some v)
      then obtain x where "x \<in> set es" "v = view (ent s x) a" "mview u es a = Some (view (ent u x) a)"
        using V by (auto simp: mview_def eu)
      then show ?thesis using Some sh by auto
    qed
  qed
qed

subsection \<open>The steps of the lookup\<close>

lemma mview_covered:
  assumes "map_inv s m es" and "e \<in> set es" and "covers (ent s e) a"
  shows "mview s es a = Some (view (ent s e) a)"
proof -
  obtain xs ys where es: "es = xs @ e # ys" using assms(2) by (metis in_set_conv_decomp)
  have ord: "ordered (ent s) (vm_map_min m s) (xs @ e # ys) (vm_map_max m s)" using assms(1) es by (simp add: map_inv_def)
  have "view_in (ent s) xs a = None"
    using ordered_before(1) [OF ord] assms(3) unfolding view_in_None covers_def by (meson leD le_less_trans order.trans)
  then show ?thesis using assms(3) by (simp add: mview_def es view_in_append)
qed

lemma lookup_hint_correct:
  assumes inv: "map_inv s m es" and free: "entries_free s es"
  shows "\<exists>found e t. lookup_hint m a s = Inr (Some ((found, e), t)) \<and> map_step m s es t es \<and> ent t = ent s \<and>
    vm_objs.truncate t = vm_objs.truncate s \<and> (found \<longrightarrow> e \<in> set es \<and> covers (ent s e) a) \<and> (\<not> found \<longrightarrow> mview s es a = None)"
proof (cases "hint (vmap s m) = Hdr m \<or> a < vstart (ent s (hint (vmap s m))) \<or> a \<ge> vend (ent s (hint (vmap s m)))")
  case False
  then have "hint (vmap s m) \<in> set es" using inv by (auto simp: map_inv_def)
  moreover have "covers (ent s (hint (vmap s m))) a" using False by (simp add: covers_def not_less not_le)
  moreover have "lookup_hint m a s = Inr (Some ((True, hint (vmap s m)), s))" using False by (simp add: lookup_hint_def)
  ultimately show ?thesis using map_step_refl [OF inv free] by blast
next
  case True
  obtain h where h: "vm_map_lookup_entry m a s = Inr (Some (lookup_ref (ent s) (Hdr m) es a, SAVE_HINT m h s))" "h \<in> insert (Hdr m) (set es)"
    using lookup_entry_ref [OF inv] by blast
  obtain f e where fe: "lookup_ref (ent s) (Hdr m) es a = (f, e)" by (cases "lookup_ref (ent s) (Hdr m) es a")
  have ord: "ordered (ent s) (vm_map_min m s) es (vm_map_max m s)" using inv by (simp add: map_inv_def)
  have t: "ent (SAVE_HINT m h s) = ent s" "vm_objs.truncate (SAVE_HINT m h s) = vm_objs.truncate s"
    by (simp_all add: SAVE_HINT_def upd_map_def vm_objs.truncate_def)
  have "f \<longrightarrow> e \<in> set es \<and> covers (ent s e) a" using lookup_ref_found [OF ord, of "Hdr m" a e] fe by (cases f) auto
  moreover have "mview s es a = None" if nf: "\<not> f"
  proof -
    obtain xs ys where "es = xs @ ys" "\<forall>x\<in>set xs. vend (ent s x) \<le> a" "\<forall>y\<in>set ys. a < vstart (ent s y)"
      using nf lookup_ref_missed [OF ord, of "Hdr m" a e] fe by auto
    then show ?thesis unfolding mview_def view_in_None covers_def by (auto dest: leD)
  qed
  moreover have "lookup_hint m a s = Inr (Some ((f, e), SAVE_HINT m h s))" using True h(1) fe by (simp add: lookup_hint_def)
  ultimately show ?thesis using t save_hint_step(1) [OF inv free h(2)] by blast
qed

text \<open>The conditions on the memory under a map; the copy object rule is what the panics of \<^verbatim>\<open>vm_object.c\<close> check.\<close>

definition memory_ok :: "(ptr \<Rightarrow> int) \<Rightarrow> 'a vm_maps_scheme \<Rightarrow> eptr list \<Rightarrow> bool" where
  "memory_ok rest s es \<longleftrightarrow> refs_ok rest s es \<and> zone_ok s \<and> object_zone s \<noteq> [] \<and> (\<forall>r\<in>set (object_zone s). rest r = 0) \<and>
     (\<forall>e\<in>set es. needs_copy (ent s e) \<longrightarrow> vobject (ent s e) = 0 \<or> copy_obj (obj s (vobject (ent s e))) = 0)"

lemma memory_ok_same:
  "memory_ok rest s es \<Longrightarrow> ent t = ent s \<Longrightarrow> vm_objs.truncate t = vm_objs.truncate s \<Longrightarrow> memory_ok rest t es"
  using objs_wf_same [of t s] by (simp add: memory_ok_def refs_ok_def zone_ok_def vm_objs.truncate_def)

lemma lookup_fix_correct:
  fixes ft :: vm_prot
  assumes inv: "map_inv s m es" and free: "entries_free s es" and ok: "memory_ok rest s es" and e: "e \<in> set es"
  defines "nc \<equiv> needs_copy (ent s e) \<and> ft AND VM_PROT_WRITE = 0"
  shows "\<exists>retry ups' t. lookup_fix ups e ft p s = Inr ((retry, ups', if nc then p AND NOT VM_PROT_WRITE else p), t) \<and>
    (if retry then t = s \<and> length ups' < length ups
     else map_step m s es t es \<and> refs_ok rest t es \<and> data_kept s t es \<and> vobject (ent t e) \<noteq> 0 \<and>
       (\<exists>q off. ent t = (ent s)(e := (ent s e)\<lparr>vobject := q, voffset := off, needs_copy := nc\<rparr>)))"
proof -
  have o: "refs_ok rest s es" "zone_ok s" using ok by (auto simp: memory_ok_def)
  obtain r rs where z: "object_zone s = r # rs" "rest r = 0" "r \<in> set (object_zone s)"
    using ok by (cases "object_zone s") (auto simp: memory_ok_def)
  let ?q = "vobject (ent s e)" and ?len = "vend (ent s e) - vstart (ent s e)"
  have tinv: "table_inv s" using o(1) by (simp add: refs_ok_def objs_wf_def)
  have triv: "map_step m s es s es \<and> refs_ok rest s es \<and> data_kept s s es" using map_step_refl [OF inv free] o(1) data_kept_refl by blast
  consider (shadow) "needs_copy (ent s e)" "ft AND VM_PROT_WRITE \<noteq> 0" | (zero) "\<not> (needs_copy (ent s e) \<and> ft AND VM_PROT_WRITE \<noteq> 0)" "?q = 0"
    | (none) "\<not> (needs_copy (ent s e) \<and> ft AND VM_PROT_WRITE \<noteq> 0)" "?q \<noteq> 0" by blast
  then show ?thesis
  proof cases
    case shadow
    then have nc: "\<not> nc" by (simp add: nc_def)
    show ?thesis
    proof (cases "ups \<noteq> [] \<and> hd ups")
      case True
      then have "lookup_fix ups e ft p s = Inr ((True, tl ups, p), s)" using shadow by (simp add: lookup_fix_def lookup_copy_def)
      then show ?thesis using True nc by (intro exI [of _ True] exI [of _ "tl ups"] exI [of _ s]) simp
    next
      case False
      have live: "?q = 0 \<or> ?q \<in> set (vm_object_list s)" and cp: "?q = 0 \<or> copy_obj (obj s ?q) = 0"
        using ok e shadow(1) by (auto simp: memory_ok_def refs_ok_def)
      have "\<exists>xs. chain s ?q xs \<and> set xs \<subseteq> set (vm_object_list s)"
        using live o(1) by (cases "?q = 0") (auto simp: refs_ok_def objs_wf_def intro: exI [of _ "[]"])
      then obtain xs where "chain s ?q xs" "r \<notin> set xs" using o(2) z(3) by (auto simp: zone_ok_def)
      from shadow_topped [OF tinv o(2) z(1) this] obtain u where
        u: "vm_object_shadow ?q (voffset (ent s e)) ?len s = Inr (r, 0, u)" "topped r ?q (voffset (ent s e)) s u" "r \<noteq> 0" by blast
      define t where "t = upd_ent e (\<lambda>v. v\<lparr>vobject := r, voffset := 0, needs_copy := False\<rparr>) u"
      note T = topped_entry [OF inv free o z(3,2) e cp u(2), of "\<lambda>v. v\<lparr>vobject := r, voffset := 0, needs_copy := False\<rparr>", folded t_def]
      have "vobject (ent t e) = r" using T(2) by simp
      then have "lookup_fix ups e ft p s = Inr ((False, tl ups, p), t)"
        using shadow False u(1,3) by (simp add: lookup_fix_def lookup_copy_def lookup_create_def t_def)
      then show ?thesis using T nc u(3) by (intro exI [of _ False] exI [of _ "tl ups"] exI [of _ t]) auto
    qed
  next
    case zero
    then have c: "lookup_copy ups e ft p s = Inr ((False, ups, if nc then p AND NOT VM_PROT_WRITE else p), s)"
        and nc: "nc = needs_copy (ent s e)" by (auto simp: lookup_copy_def nc_def)
    show ?thesis
    proof (cases "ups \<noteq> [] \<and> hd ups")
      case True
      then show ?thesis using c zero by (intro exI [of _ True] exI [of _ "tl ups"] exI [of _ s]) (simp add: lookup_fix_def lookup_create_def)
    next
      case False
      from allocate_topped [OF tinv o(2) z(1)] obtain u where
        u: "vm_object_allocate ?len s = Inr (r, u)" "topped r ?q (voffset (ent s e)) s u" "r \<noteq> 0" using zero by metis
      define t where "t = upd_ent e (\<lambda>v. v\<lparr>vobject := r, voffset := 0\<rparr>) u"
      have "?q = 0 \<or> copy_obj (obj s ?q) = 0" using zero by simp
      note T = topped_entry [OF inv free o z(3,2) e this u(2), of "\<lambda>v. v\<lparr>vobject := r, voffset := 0\<rparr>", folded t_def]
      have fx: "lookup_fix ups e ft p s = Inr ((False, tl ups, if nc then p AND NOT VM_PROT_WRITE else p), t)"
        using c zero False u(1) by (simp add: lookup_fix_def lookup_create_def t_def)
      have "(ent s e)\<lparr>vobject := r, voffset := 0\<rparr> = (ent s e)\<lparr>vobject := r, voffset := 0, needs_copy := nc\<rparr>" using nc by simp
      then have "ent t = (ent s)(e := (ent s e)\<lparr>vobject := r, voffset := 0, needs_copy := nc\<rparr>)" "vobject (ent t e) \<noteq> 0"
        using T(2) u(3) by simp_all
      then have "\<exists>q off. ent t = (ent s)(e := (ent s e)\<lparr>vobject := q, voffset := off, needs_copy := nc\<rparr>)" "vobject (ent t e) \<noteq> 0" by blast+
      with fx show ?thesis using T(1,3,4) by (intro exI [of _ False] exI [of _ "tl ups"] exI [of _ t]) simp
    qed
  next
    case none
    then have "lookup_fix ups e ft p s = Inr ((False, ups, if nc then p AND NOT VM_PROT_WRITE else p), s)" and nc: "nc = needs_copy (ent s e)"
      by (auto simp: lookup_fix_def lookup_copy_def lookup_create_def nc_def)
    moreover have "ent s = (ent s)(e := (ent s e)\<lparr>vobject := ?q, voffset := voffset (ent s e), needs_copy := nc\<rparr>)" using nc by simp
    then have "\<exists>q off. ent s = (ent s)(e := (ent s e)\<lparr>vobject := q, voffset := off, needs_copy := nc\<rparr>)" by blast
    ultimately show ?thesis using triv none(2) by (intro exI [of _ False] exI [of _ ups] exI [of _ s]) simp
  qed
qed

subsection \<open>The lookup\<close>

text \<open>A wired address is looked up for every access it allows.\<close>

definition access :: "vm_prot \<Rightarrow> vm_map_entry \<Rightarrow> vm_prot" where
  "access ft v = (if wired_count v \<noteq> 0 then protection v else ft)"

text \<open>
  What a successful lookup returns for an address that the map \<open>m\<close> shows as \<open>v\<close> in state \<open>s\<close>: an
  object and offset with the same data in the new state \<open>t\<close>, and a protection that allows writing
  only when no copy is pending any more.
\<close>

definition resolved :: "ptr \<Rightarrow> vm_prot \<Rightarrow> vm_map_entry \<Rightarrow> 'a vm_maps_scheme \<Rightarrow> 'a vm_maps_scheme \<Rightarrow> lookup_result \<Rightarrow> bool" where
  "resolved m ft v s t r \<longleftrightarrow> lk_map r = m \<and> lk_object r \<noteq> 0 \<and>
     (\<forall>h d. shown h s v d \<longrightarrow> (\<exists>xs. chain t (lk_object r) xs \<and> d = visible h t xs (lk_offset r))) \<and>
     lk_prot r = (if needs_copy v \<and> access ft v AND VM_PROT_WRITE = 0 then protection v AND NOT VM_PROT_WRITE else protection v) \<and>
     (needs_copy (ent t (lk_entry r)) \<longrightarrow> lk_prot r AND VM_PROT_WRITE = 0) \<and>
     lk_wired r = (wired_count v \<noteq> 0) \<and> lk_single_use r"

definition lookup_spec ::
    "ptr \<Rightarrow> vm_prot \<Rightarrow> vm_map_entry option \<Rightarrow> 'a vm_maps_scheme \<Rightarrow> 'a vm_maps_scheme \<Rightarrow> kern_return + lookup_result \<Rightarrow> bool" where
  "lookup_spec m ft mv s t res \<longleftrightarrow>
     (case mv of None \<Rightarrow> res = Inl KERN_INVALID_ADDRESS
      | Some v \<Rightarrow> if ft AND protection v \<noteq> ft then res = Inl KERN_PROTECTION_FAILURE
                 else \<exists>r. res = Inr r \<and> resolved m ft v s t r)"

lemma shown_same:
  assumes "vm_objs.truncate t = vm_objs.truncate s"
  shows "shown h t v d = shown h s v d"
proof -
  have o: "obj t = obj s" using assms by (simp add: vm_objs.truncate_def)
  have "page_at t = page_at s" by (rule table_same_page_at) (use assms in \<open>simp add: table_same_def vm_objs.truncate_def\<close>)
  then have "visible h t xs a = visible h s xs a" for xs a by (intro visible_cong) (simp_all add: o)
  moreover have "chain t x xs = chain s x xs" for x xs by (rule chain_cong) (simp add: o)
  ultimately show ?thesis by (simp add: shown_def)
qed

lemma lookup_correct:
  assumes "map_inv s m es" and "entries_free s es" and "memory_ok rest s es" and "length ups < n"
  shows "\<exists>res t. vm_map_lookup n ups m a ft s = Inr (Some (res, t)) \<and> map_step m s es t es \<and> refs_ok rest t es \<and>
    data_kept s t es \<and> lookup_spec m ft (mview s es a) s t res"
  using assms
proof (induction n arbitrary: ups ft s)
  case (Suc n)
  note inv = Suc.prems(1) and free = Suc.prems(2) and ok = Suc.prems(3)
  obtain found e u where u: "lookup_hint m a s = Inr (Some ((found, e), u))" "map_step m s es u es" "ent u = ent s"
      "vm_objs.truncate u = vm_objs.truncate s" "found \<longrightarrow> e \<in> set es \<and> covers (ent s e) a" "\<not> found \<longrightarrow> mview s es a = None"
    using lookup_hint_correct [OF inv free] by blast
  note iu = map_stepD(1,2) [OF u(2)]
  have oku: "memory_ok rest u es" using memory_ok_same [OF ok u(3,4)] .
  have ru: "refs_ok rest u es" using oku by (simp add: memory_ok_def)
  have su: "data_kept s u es"
    by (rule data_kept_same) (use u(3,4) table_same_page_at [of s u] in \<open>simp_all add: table_same_def vm_objs.truncate_def\<close>)
  show ?case
  proof (cases found)
    case False
    then show ?thesis using u ru su by (intro exI [of _ "Inl KERN_INVALID_ADDRESS"] exI [of _ u]) (simp add: lookup_spec_def)
  next
    case True
    then have e: "e \<in> set es" "covers (ent s e) a" using u(5) by auto
    have v: "mview s es a = Some (view (ent s e) a)" using mview_covered [OF inv e] .
    have nm: "\<not> is_sub_map (ent u e)" "\<not> is_a_map (ent u e)" using ru e(1) by (auto simp: refs_ok_def)
    show ?thesis
    proof (cases "ft AND protection (ent s e) \<noteq> ft")
      case True
      then show ?thesis using \<open>found\<close> u ru su nm v
        by (intro exI [of _ "Inl KERN_PROTECTION_FAILURE"] exI [of _ u]) (simp add: lookup_spec_def view_def)
    next
      case False
      define ft' where "ft' = access ft (ent s e)"
      define nc where "nc \<longleftrightarrow> needs_copy (ent s e) \<and> ft' AND VM_PROT_WRITE = 0"
      have "needs_copy (ent u e) \<and> ft' AND VM_PROT_WRITE = 0 \<longleftrightarrow> nc" by (simp add: nc_def u(3))
      with lookup_fix_correct [OF iu oku e(1), of ups ft' "protection (ent s e)"] obtain retry ups' t where
        t: "lookup_fix ups e ft' (protection (ent s e)) u =
            Inr ((retry, ups', if nc then protection (ent s e) AND NOT VM_PROT_WRITE else protection (ent s e)), t)"
          "if retry then t = u \<and> length ups' < length ups
           else map_step m u es t es \<and> refs_ok rest t es \<and> data_kept u t es \<and> vobject (ent t e) \<noteq> 0 \<and>
             (\<exists>q off. ent t = (ent u)(e := (ent u e)\<lparr>vobject := q, voffset := off, needs_copy := nc\<rparr>))" by auto
      let ?res = "\<lparr>lk_map = m, lk_entry = e, lk_object = vobject (ent t e),
          lk_offset = (a - vstart (ent t e)) + voffset (ent t e),
          lk_prot = (if nc then protection (ent s e) AND NOT VM_PROT_WRITE else protection (ent s e)),
          lk_wired = (wired_count (ent s e) \<noteq> 0), lk_single_use = True\<rparr>"
      have run: "vm_map_lookup (Suc n) ups m a ft s =
          (if retry then vm_map_lookup n ups' m a ft' t else Inr (Some (Inr ?res, t)))"
        using u(1,3) \<open>found\<close> nm False t(1) by (simp add: lookup_share_def access_def ft'_def Let_def)
      show ?thesis
      proof (cases retry)
        case True
        then have tu: "t = u" "length ups' < n" using t(2) Suc.prems(4) by simp_all
        have allowed: "ft' AND protection (ent s e) = ft'" using False by (simp add: ft'_def access_def)
        have "access ft' (view (ent s e) a) = access ft (view (ent s e) a)" by (simp add: ft'_def access_def view_def)
        then have acc: "resolved m ft' (view (ent s e) a) u w r = resolved m ft (view (ent s e) a) s w r" for w r
          by (simp add: resolved_def shown_same [OF u(4)])
        from Suc.IH [OF iu oku tu(2), of ft'] obtain res w where
          w: "vm_map_lookup n ups' m a ft' u = Inr (Some (res, w))" "map_step m u es w es" "refs_ok rest w es" "data_kept u w es"
            "lookup_spec m ft' (mview u es a) u w res" by blast
        have mu: "mview u es a = Some (view (ent s e) a)" using v by (simp add: mview_def u(3))
        have "lookup_spec m ft (mview s es a) s w res"
          using w(5) False allowed unfolding lookup_spec_def mu v option.case acc by (simp add: view_def)
        then show ?thesis using run True tu(1) w(1,3) map_step_trans [OF u(2) w(2)] data_kept_trans [OF su w(4)]
          by (intro exI [of _ res] exI [of _ w]) simp
      next
        case nr: False
        then have f: "map_step m u es t es" "refs_ok rest t es" "data_kept u t es" "vobject (ent t e) \<noteq> 0"
            "\<exists>q off. ent t = (ent u)(e := (ent u e)\<lparr>vobject := q, voffset := off, needs_copy := nc\<rparr>)" using t(2) by auto
        obtain q off where et: "ent t = (ent s)(e := (ent s e)\<lparr>vobject := q, voffset := off, needs_copy := nc\<rparr>)" using f(5) u(3) by auto
        have step: "map_step m s es t es" using map_step_trans [OF u(2) f(1)] .
        have dk: "data_kept s t es" using data_kept_trans [OF su f(3)] .
        have "covers (ent t e) a" using e(2) by (simp add: et covers_def)
        then have mt: "mview t es a = Some (view (ent t e) a)" using mview_covered [OF map_stepD(1) [OF step] e(1)] by blast
        have "shown h t (view (ent t e) a) d" if "shown h s (view (ent s e) a) d" for h d
          using dk [unfolded data_kept_def, THEN spec, of a] that by (simp add: v mt)
        moreover have "NOT VM_PROT_WRITE AND VM_PROT_WRITE = 0" by (simp add: VM_PROT_WRITE_def)
        then have "(protection (ent s e) AND NOT VM_PROT_WRITE) AND VM_PROT_WRITE = 0" by (simp add: and.assoc)
        ultimately have "resolved m ft (view (ent s e) a) s t ?res"
          using f(4) et by (auto simp: resolved_def shown_def view_def nc_def ft'_def access_def add.commute)
        then show ?thesis using run nr step f(2) dk False
          by (intro exI [of _ "Inr ?res"] exI [of _ t]) (simp add: lookup_spec_def v view_def)
      qed
    qed
  qed
qed simp


lemma demo_backed_memory: "memory_ok (\<lambda>_. 0) demo_backed [Ent 11, Ent 12]"
proof -
  have "zone_ok demo_backed" "object_zone demo_backed = [30, 40, 50]"
    by (simp_all add: zone_ok_def demo_backed_def upd_ent_def demo_maps_def vm_objs.extend_def demo_objs_def vm_object_template_def)
  moreover have "\<not> needs_copy (ent demo_backed e)" for e by (simp add: demo_backed_def upd_ent_def demo_fields demo_entry_def)
  ultimately show ?thesis using demo_backed_ok(4) by (simp add: memory_ok_def)
qed


end
