(* ===== verification/VmObjCopy.thy ===== *)
theory VmObjCopy
  imports VmMapDelete
begin

text \<open>
  Copies of objects in a system of many objects: \<^verbatim>\<open>vm_object_copy\<close> changes what no object shows, keeps the
  reference counts exact and can be repeated, which is what copying a whole map needs.
\<close>

text \<open>The objects of \<^verbatim>\<open>vm_object_list\<close>, with the references \<open>ext\<close> that are held from outside.\<close>

definition cow_objs :: "(ptr \<Rightarrow> int) \<Rightarrow> 'a vm_objs_scheme \<Rightarrow> bool" where
  "cow_objs ext s \<longleftrightarrow> refs_inv ext s \<and> table_inv s \<and> zone_ok s \<and> 0 \<notin> set (vm_object_list s) \<and>
     (\<forall>r\<in>set (object_zone s). ext r = 0) \<and>
     (\<forall>x\<in>set (vm_object_list s). copy_ok s x \<and> (copy_obj (obj s x) = 0 \<or> copy_obj (obj s x) \<in> set (vm_object_list s)) \<and>
        (\<exists>xs. chain s x xs \<and> set xs \<subseteq> set (vm_object_list s)))"

text \<open>Every object of the list is still there and shows what it showed.\<close>

definition objs_kept :: "'a vm_objs_scheme \<Rightarrow> 'a vm_objs_scheme \<Rightarrow> bool" where
  "objs_kept s t \<longleftrightarrow> set (vm_object_list s) \<subseteq> set (vm_object_list t) \<and>
     (\<forall>x xs. (x = 0 \<or> x \<in> set (vm_object_list s)) \<and> chain s x xs \<longrightarrow>
        (\<exists>ys. chain t x ys \<and> (\<forall>h a. visible h t ys a = visible h s xs a)))"

lemma objs_kept_refl: "objs_kept s s"
  by (auto simp: objs_kept_def)

lemma objs_kept_trans: "objs_kept s t \<Longrightarrow> objs_kept t u \<Longrightarrow> objs_kept s u"
  unfolding objs_kept_def by (metis (no_types, lifting) subset_iff)

text \<open>The fields that decide what an object shows.\<close>

lemma shown_cong:
  assumes "\<And>x. shadow (obj t x) = shadow (obj s x) \<and> pager (obj t x) = pager (obj s x) \<and>
      paging_offset (obj t x) = paging_offset (obj s x) \<and> shadow_offset (obj t x) = shadow_offset (obj s x)"
    and "table_same s t"
  shows "chain t x xs = chain s x xs" "visible h t xs a = visible h s xs a"
  using assms(1) table_same_page_at [OF assms(2)] by (auto intro!: chain_cong visible_cong)

lemma objs_kept_same:
  assumes "\<And>x. shadow (obj t x) = shadow (obj s x) \<and> pager (obj t x) = pager (obj s x) \<and>
      paging_offset (obj t x) = paging_offset (obj s x) \<and> shadow_offset (obj t x) = shadow_offset (obj s x)"
    and "table_same s t" and "vm_object_list t = vm_object_list s"
  shows "objs_kept s t"
  using shown_cong [OF assms(1,2)] assms(3) by (auto simp: objs_kept_def)

text \<open>One more reference to an object.\<close>

lemma cow_reference:
  assumes cow: "cow_objs ext s" and q: "q \<in> set (vm_object_list s)" and same: "table_same s t" "vm_object_list t = vm_object_list s"
      "object_zone t = object_zone s" "\<And>x. memq (obj t x) = memq (obj s x)"
    and f: "\<And>x. shadow (obj t x) = shadow (obj s x) \<and> pager (obj t x) = pager (obj s x) \<and>
      paging_offset (obj t x) = paging_offset (obj s x) \<and> shadow_offset (obj t x) = shadow_offset (obj s x)"
      "\<And>x. copy_obj (obj t x) = copy_obj (obj s x)" "\<And>x. o_refs (obj t x) = o_refs (obj s x) + (if x = q then 1 else 0)"
  shows "cow_objs (ext(q := ext q + 1)) t"
proof -
  have "refs_inv (ext(q := ext q + 1)) t" using cow by (auto simp: cow_objs_def refs_inv_def same f)
  moreover have "zone_ok t" using cow by (auto simp: cow_objs_def zone_ok_def same)
  moreover have "\<forall>r\<in>set (object_zone t). (ext(q := ext q + 1)) r = 0" using cow q by (auto simp: cow_objs_def zone_ok_def same)
  moreover have "copy_ok t x = copy_ok s x" for x by (simp add: copy_ok_def f Let_def)
  moreover have "table_inv t" using table_same_inv [OF same(1)] cow by (simp add: cow_objs_def)
  ultimately show ?thesis using cow shown_cong(1) [OF f(1) same(1)] by (simp add: cow_objs_def f same)
qed

lemma cow_parts:
  assumes "cow_objs ext s"
  shows "refs_inv ext s" "table_inv s" "zone_ok s" "0 \<notin> set (vm_object_list s)" "r \<in> set (object_zone s) \<Longrightarrow> ext r = 0"
    "x \<in> set (vm_object_list s) \<Longrightarrow> copy_ok s x"
    "x \<in> set (vm_object_list s) \<Longrightarrow> copy_obj (obj s x) = 0 \<or> copy_obj (obj s x) \<in> set (vm_object_list s)"
    "x = 0 \<or> x \<in> set (vm_object_list s) \<Longrightarrow> \<exists>xs. chain s x xs \<and> set xs \<subseteq> set (vm_object_list s)"
  using assms by (auto simp: cow_objs_def intro: exI [of _ "[]"])

text \<open>
  The state after \<^verbatim>\<open>vm_object_copy\<close> has made a new copy object \<open>r\<close> of \<open>q\<close>: \<open>r\<close> comes between \<open>q\<close> and an earlier
  copy \<open>c\<close>.
\<close>

definition new_copy_of :: "ptr \<Rightarrow> ptr \<Rightarrow> 'a vm_objs_scheme \<Rightarrow> 'a vm_objs_scheme \<Rightarrow> bool" where
  "new_copy_of q r s t \<longleftrightarrow> (let c = copy_obj (obj s q) in
     table_same s t \<and> vm_object_list t = vm_object_list s @ [r] \<and> object_zone s = r # object_zone t \<and>
     (\<forall>x. shadow (obj t x) = (if x = r then q else if x = c \<and> c \<noteq> 0 then r else shadow (obj s x)) \<and>
        shadow_offset (obj t x) = (if x = r then 0 else shadow_offset (obj s x)) \<and>
        pager (obj t x) = (if x = r then 0 else pager (obj s x)) \<and> (x \<noteq> r \<longrightarrow> paging_offset (obj t x) = paging_offset (obj s x)) \<and>
        copy_obj (obj t x) = (if x = q then r else if x = r then 0 else copy_obj (obj s x)) \<and>
        o_refs (obj t x) = (if x = r then if c \<noteq> 0 then 2 else 1 else if x = q \<and> c = 0 then o_refs (obj s x) + 1 else o_refs (obj s x)) \<and>
        memq (obj t x) = memq (obj s x)))"

lemma copy_new_state:
  assumes inv: "table_inv s" and zone: "zone_ok s" "object_zone s = r # rs" and cp: "copy_ok s q"
    and q: "q \<noteq> r" "copy_obj (obj s q) \<noteq> r" "copy_obj (obj s q) \<noteq> q"
  shows "\<exists>u t. vm_object_allocate (o_size (obj s q)) s = Inr (r, u) \<and> copy_object_new q r u = Inr t \<and> new_copy_of q r s t"
proof -
  obtain u where u: "vm_object_allocate (o_size (obj s q)) s = Inr (r, u)" "table_same s u"
      "obj u = (obj s)(r := vm_object_template\<lparr>o_size := o_size (obj s q)\<rparr>)" "r \<noteq> 0" "vm_object_list u = vm_object_list s @ [r]"
    using allocate_fields [OF inv zone] by blast
  have zu: "object_zone u = rs" using u(1) zone(2) by (auto simp: vm_object_allocate_def vm_object_allocate_at_def Let_def upd_obj_def)
  define c where "c = copy_obj (obj s q)"
  have nq: "q \<noteq> r" "c \<noteq> r" "c \<noteq> q" using q by (auto simp: c_def)
  have cu: "copy_obj (obj u q) = c" using nq u(3) by (auto simp: c_def)
  define v where "v = (if c \<noteq> 0 then upd_obj r (\<lambda>ob. ob\<lparr>o_refs := o_refs ob + 1\<rparr>)
      (upd_obj c (\<lambda>ob. ob\<lparr>shadow := r\<rparr>) (upd_obj q (\<lambda>ob. ob\<lparr>o_refs := o_refs ob - 1\<rparr>) u)) else u)"
  define w where "w = upd_obj q (\<lambda>ob. ob\<lparr>copy_obj := r\<rparr>) (upd_obj q (\<lambda>ob. ob\<lparr>o_refs := o_refs ob + 1\<rparr>)
      (upd_obj r (\<lambda>ob. ob\<lparr>shadow := q, shadow_offset := 0\<rparr>) v))"
  define t where "t = mark_cow_walk 0 (o_size (obj v r)) (memq (obj w q)) w"
  have guard: "c \<noteq> 0 \<Longrightarrow> shadow (obj u c) = q \<and> shadow_offset (obj u c) = 0" using cp nq u(3) by (auto simp: copy_ok_def Let_def c_def)
  have new: "copy_object_new q r u = Inr t" using guard by (auto simp: copy_object_new_def Let_def cu t_def w_def v_def)
  have zt: "object_zone (mark_cow_walk b e ps x) = object_zone x" for b e ps and x :: "'a vm_objs_scheme"
    by (induction ps arbitrary: x) (simp_all add: upd_page_def)
  have "table_same u v" "table_same v w" by (auto simp: v_def w_def table_same_def)
  then have same: "table_same s t" using u(2) cow_walk_same(1) [of w] table_same_trans unfolding t_def by blast
  have lt: "vm_object_list t = vm_object_list s @ [r]" "object_zone t = rs" using u(5) zu by (simp_all add: t_def cow_walk_same zt w_def v_def upd_obj_def)
  have ot: "obj t = obj w" by (simp add: t_def cow_walk_same)
  have mr: "memq (obj s r) = []" using zone by (simp add: zone_ok_def)
  have "new_copy_of q r s t"
    unfolding new_copy_of_def Let_def c_def [symmetric] 
    by (intro conjI allI impI) (use same lt zone(2) nq mr in \<open>simp_all add: ot w_def v_def u(3) vm_object_template_def\<close>)
  with u(1) new show ?thesis by blast
qed

lemma new_copy_fields:
  assumes "new_copy_of q r s t"
  shows "table_same s t" "vm_object_list t = vm_object_list s @ [r]" "object_zone s = r # object_zone t"
    "shadow (obj t x) = (if x = r then q else if x = copy_obj (obj s q) \<and> copy_obj (obj s q) \<noteq> 0 then r else shadow (obj s x))"
    "shadow_offset (obj t x) = (if x = r then 0 else shadow_offset (obj s x))" "pager (obj t x) = (if x = r then 0 else pager (obj s x))"
    "x \<noteq> r \<Longrightarrow> paging_offset (obj t x) = paging_offset (obj s x)"
    "copy_obj (obj t x) = (if x = q then r else if x = r then 0 else copy_obj (obj s x))"
    "o_refs (obj t x) = (if x = r then if copy_obj (obj s q) \<noteq> 0 then 2 else 1
       else if x = q \<and> copy_obj (obj s q) = 0 then o_refs (obj s x) + 1 else o_refs (obj s x))"
    "memq (obj t x) = memq (obj s x)"
  using assms by (auto simp: new_copy_of_def Let_def)

text \<open>The new object is empty and shows what the source shows; it changes nothing where it is put in between.\<close>

lemma new_copy_shows:
  assumes new: "new_copy_of q r s t" and inv: "table_inv s" and zone: "zone_ok s" and cp: "copy_ok s q"
  shows "chain s x xs \<Longrightarrow> r \<notin> set xs \<Longrightarrow> \<exists>ys. chain t x ys \<and> (\<forall>h a. visible h t ys a = visible h s xs a)"
    "chain t q ys \<Longrightarrow> chain t r (r # ys) \<and> visible h t (r # ys) a = visible h t ys a"
proof -
  note F = new_copy_fields [OF new]
  have at: "page_at t = page_at s" by (rule table_same_page_at [OF F(1)])
  have "r \<in> set (object_zone s)" using F(3) by simp
  then have r0: "r \<noteq> 0" and "memq (obj s r) = []" using zone by (auto simp: zone_ok_def)
  then have er: "page_at t (r, a) = None" for a using no_pages [OF inv] at by simp
  show R: "chain t r (r # ys) \<and> visible h t (r # ys) a = visible h t ys a" if "chain t q ys" for h ys a
    using visible_empty [of t r h ys a] er that r0 by (simp add: F(4-6) del: visible.simps)
  show "chain s x xs \<Longrightarrow> r \<notin> set xs \<Longrightarrow> \<exists>ys. chain t x ys \<and> (\<forall>h a. visible h t ys a = visible h s xs a)"
  proof (induction xs arbitrary: x)
    case Nil
    then show ?case by (intro exI [of _ "[]"]) simp
  next
    case (Cons y xs)
    then have y: "x = y" "y \<noteq> 0" "y \<noteq> r" "chain s (shadow (obj s y)) xs" by auto
    obtain ys where ys: "chain t (shadow (obj s y)) ys" "\<And>h a. visible h t ys a = visible h s xs a" using Cons.IH [OF y(4)] Cons.prems by auto
    show ?case
    proof (cases "y = copy_obj (obj s q)")
      case True
      then have "shadow (obj s y) = q" using cp y(2) by (simp add: copy_ok_def Let_def)
      then have c: "chain t r (r # ys)" "\<And>h a. visible h t (r # ys) a = visible h s xs a" using R ys by auto
      have "visible h t (y # r # ys) a = visible h s (y # xs) a" for h a
        by (rule visible_head) (simp_all add: at F(5-7) y(3) c(2) del: visible.simps)
      moreover have "chain t x (y # r # ys)" using c(1) y True by (simp add: F(4))
      ultimately show ?thesis by blast
    next
      case False
      have "visible h t (y # ys) a = visible h s (y # xs) a" for h a
        by (rule visible_head) (simp_all add: at F(5-7) y(3) ys(2) del: visible.simps)
      moreover have "chain t x (y # ys)" using ys(1) y False by (simp add: F(4))
      ultimately show ?thesis by blast
    qed
  qed
qed

lemma new_copy_refs:
  assumes new: "new_copy_of q r s t" and cow: "cow_objs ext s" and q: "q \<in> set (vm_object_list s)"
  shows "refs_inv (ext(r := 1)) t"
proof -
  let ?L = "set (vm_object_list s)" and ?c = "copy_obj (obj s q)"
  let ?users = "\<lambda>u x. {y \<in> set (vm_object_list u). shadow (obj u y) = x}"
  note F = new_copy_fields [OF new] and P = cow_parts [OF cow]
  have r: "r \<noteq> 0" "r \<notin> ?L" using P(3) F(3) by (auto simp: zone_ok_def)
  have w: "distinct (vm_object_list s)" "\<And>x. x \<in> ?L \<Longrightarrow> shadow (obj s x) = 0 \<or> shadow (obj s x) \<in> ?L"
      "\<And>x. x \<in> ?L \<Longrightarrow> 0 \<le> ext x \<and> o_refs (obj s x) = ext x + int (card (?users s x))"
    using P(1) unfolding refs_inv_def by blast+
  have c: "?c \<noteq> 0 \<Longrightarrow> ?c \<in> ?L \<and> shadow (obj s ?c) = q" using P(6,7) [OF q] by (auto simp: copy_ok_def Let_def)
  have qr: "q \<noteq> r" "q \<noteq> 0" using q r P(4) by metis+
  have nr: "shadow (obj s y) \<noteq> r" if "y \<in> ?L" for y using w(2) [OF that] r by metis
  have users: "?users t x = (if x = r then if ?c \<noteq> 0 then {?c} else {}
      else if x = q then insert r (?users s q - {?c}) else ?users s x)" for x
    using r c qr nr P(4) by (auto simp: F(2,4) split: if_splits)
  have cnt: "int (card (?users t x)) = (if x = r then if ?c \<noteq> 0 then 1 else 0
      else if x = q \<and> ?c = 0 then int (card (?users s q)) + 1 else int (card (?users s x)))" for x
  proof (cases "x = q")
    case True
    have fin: "finite (?users s q)" and out: "r \<notin> ?users s q" using r by auto
    show ?thesis
    proof (cases "?c = 0")
      case True
      then have "?users s q - {?c} = ?users s q" using P(4) by auto
      then show ?thesis using True \<open>x = q\<close> qr out fin unfolding users by simp
    next
      case False
      then have "?c \<in> ?users s q" using c by simp
      from card_swap [OF fin this out] show ?thesis using False \<open>x = q\<close> qr unfolding users by simp
    qed
  next
    case False
    then show ?thesis unfolding users by simp
  qed
  show ?thesis
    unfolding refs_inv_def
  proof (intro conjI ballI)
    show "distinct (vm_object_list t)" using w(1) r(2) by (simp add: F(2))
    fix x assume x: "x \<in> set (vm_object_list t)"
    show "shadow (obj t x) = 0 \<or> shadow (obj t x) \<in> set (vm_object_list t)" using x w(2) [of x] q by (auto simp: F(2,4))
    show "0 \<le> (ext(r := 1)) x" using x w(3) [of x] by (auto simp: F(2))
    show "o_refs (obj t x) = (ext(r := 1)) x + int (card (?users t x))"
      unfolding cnt using x w(3) [of x] qr by (auto simp: F(2,9))
  qed
qed

lemma new_copy_cow:
  assumes new: "new_copy_of q r s t" and cow: "cow_objs ext s" and q: "q \<in> set (vm_object_list s)"
  shows "cow_objs (ext(r := ext r + 1)) t" "objs_kept s t"
proof -
  let ?L = "set (vm_object_list s)"
  note F = new_copy_fields [OF new] and P = cow_parts [OF cow]
  note S = new_copy_shows [OF new P(2,3) P(6) [OF q]]
  have r: "r \<noteq> 0" "r \<notin> ?L" "ext r = 0" using P(3,5) F(3) by (auto simp: zone_ok_def)
  have refs: "refs_inv (ext(r := 1)) t" by (rule new_copy_refs [OF assms])
  have old: "\<exists>ys. chain t x ys \<and> (\<forall>h a. visible h t ys a = visible h s xs a)" if "x = 0 \<or> x \<in> ?L" "chain s x xs" for x xs
  proof -
    have "\<forall>x\<in>?L. shadow (obj s x) = 0 \<or> shadow (obj s x) \<in> ?L" using P(1) by (simp add: refs_inv_def)
    from chain_closed [OF this that(2,1)] show ?thesis using S(1) [OF that(2)] r(2) by blast
  qed
  show "objs_kept s t" using old by (auto simp: objs_kept_def F(2))
  have ch: "\<exists>xs. chain t x xs" if "x \<in> set (vm_object_list t)" for x
  proof (cases "x = r")
    case True
    obtain xs where "chain s q xs" using P(8) [of q] q by blast
    then obtain ys where "chain t q ys" using old [of q xs] q by blast
    then show ?thesis using S(2) True by blast
  next
    case False
    then have "x \<in> ?L" using that by (simp add: F(2))
    then show ?thesis using P(8) [of x] old [of x] by blast
  qed
  have closed: "\<forall>x\<in>set (vm_object_list t). shadow (obj t x) = 0 \<or> shadow (obj t x) \<in> set (vm_object_list t)"
    using refs by (simp add: refs_inv_def)
  have "\<exists>xs. chain t x xs \<and> set xs \<subseteq> set (vm_object_list t)" if "x \<in> set (vm_object_list t)" for x
    using ch [OF that] chain_closed [OF closed] that by blast
  moreover have "copy_ok t x \<and> (copy_obj (obj t x) = 0 \<or> copy_obj (obj t x) \<in> set (vm_object_list t))" if "x \<in> set (vm_object_list t)" for x
  proof (cases "x = q \<or> x = r")
    case True
    then show ?thesis by (auto simp: copy_ok_def Let_def F(2,4,5,8))
  next
    case False
    then have x: "x \<in> ?L" using that by (simp add: F(2))
    note cx = P(6,7) [OF x] and cq = P(6) [OF q]
    have "copy_obj (obj s x) \<noteq> 0 \<Longrightarrow> copy_obj (obj s x) \<noteq> copy_obj (obj s q) \<and> copy_obj (obj s x) \<noteq> r"
      using False cx cq r(2) by (auto simp: copy_ok_def Let_def)
    then show ?thesis using False cx by (auto simp: copy_ok_def Let_def F(2,4,5,8))
  qed
  moreover have "zone_ok t" using P(3) by (auto simp: zone_ok_def F(2,3,10))
  moreover have "table_inv t" using table_same_inv [OF F(1)] P(2) by simp
  moreover have "\<forall>x\<in>set (object_zone t). (ext(r := 1)) x = 0" using P(3,5) by (auto simp: zone_ok_def F(3))
  moreover have "0 \<notin> set (vm_object_list t)" using P(4) r(1) by (auto simp: F(2))
  ultimately show "cow_objs (ext(r := ext r + 1)) t" using refs r(3) by (auto simp: cow_objs_def)
qed

text \<open>
  \<open>copied q off d doff s t\<close>: the object \<open>d\<close> shows in \<open>t\<close>, from \<open>doff\<close> on, what \<open>q\<close> showed in \<open>s\<close> from \<open>off\<close> on.
\<close>

definition copied :: "ptr \<Rightarrow> u32 \<Rightarrow> ptr \<Rightarrow> u32 \<Rightarrow> 'a vm_objs_scheme \<Rightarrow> 'a vm_objs_scheme \<Rightarrow> bool" where
  "copied q off d doff s t \<longleftrightarrow>
     (\<forall>xs. chain s q xs \<longrightarrow> (\<exists>ys. chain t d ys \<and> (\<forall>h a. visible h t ys (doff + a) = visible h s xs (off + a))))"

lemma cow_walk_zone: "object_zone (mark_cow_walk b e ps s) = object_zone s"
  by (induction ps arbitrary: s) (simp_all add: upd_page_def)

lemma refs_step:
  "cow_objs ext s \<Longrightarrow> cow_objs (ext(0 := e)) s"
  using cow_parts(4) [of ext s] refs_inv_out [of 0 s ext] by (auto simp: cow_objs_def zone_ok_def)

lemma copy_not_self:
  assumes cow: "cow_objs ext s" and q: "q \<in> set (vm_object_list s)" "q \<noteq> 0"
  shows "copy_obj (obj s q) \<noteq> q"
proof
  assume c: "copy_obj (obj s q) = q"
  obtain xs where xs: "chain s q xs" using cow_parts(8) [OF cow, of q] q by blast
  have "shadow (obj s q) = q" using cow_parts(6) [OF cow q(1)] q(2) c by (simp add: copy_ok_def Let_def)
  then have "chain s q (tl xs)" "xs = q # tl xs" using xs q(2) by (cases xs; auto)+
  then show False using chain_unique [OF xs] by (metis n_not_Suc_n length_Cons)
qed

text \<open>What a copy of \<open>q\<close> from \<open>off\<close> on has to return.\<close>

definition copy_good :: "(ptr \<Rightarrow> int) \<Rightarrow> ptr \<Rightarrow> u32 \<Rightarrow> 'a vm_objs_scheme \<Rightarrow> ((ptr \<times> u32 \<times> bool) \<times> 'a vm_objs_scheme) option kresult \<Rightarrow> bool" where
  "copy_good ext q off s res \<longleftrightarrow> (\<exists>d doff nc t. res = Inr (Some ((d, doff, nc), t)) \<and> cow_objs (ext(d := ext d + 1)) t \<and>
    objs_kept s t \<and> copied q off d doff s t \<and> (d = 0 \<or> d \<in> set (vm_object_list t)) \<and>
    length (object_zone s) \<le> Suc (length (object_zone t)) \<and> (q = 0 \<longleftrightarrow> d = 0) \<and> (q = 0 \<or> nc \<or> d \<noteq> q))"

lemma copy_lazy:
  assumes cow: "cow_objs ext s" and ql: "q \<in> set (vm_object_list s)" and q0: "q \<noteq> 0" and int: "pager (obj s q) = 0 \<or> internal (obj s q)"
  shows "copy_good ext q off s (vm_object_copy q off len s)"
proof -
  let ?u = "upd_obj q (\<lambda>ob. ob\<lparr>o_refs := o_refs ob + 1\<rparr>) s"
  let ?t = "mark_cow_walk off (off + len) (memq (obj ?u q)) ?u"
  have "table_same s ?u" by (simp add: table_same_def)
  then have same: "table_same s ?t" using cow_walk_same(1) by (rule table_same_trans)
  have l: "vm_object_list ?t = vm_object_list s" "object_zone ?t = object_zone s" by (simp_all add: cow_walk_same cow_walk_zone upd_obj_def)
  have f: "shadow (obj ?t x) = shadow (obj s x) \<and> pager (obj ?t x) = pager (obj s x) \<and>
      paging_offset (obj ?t x) = paging_offset (obj s x) \<and> shadow_offset (obj ?t x) = shadow_offset (obj s x)" for x
    by (simp add: cow_walk_same)
  have "vm_object_copy q off len s = Inr (Some ((q, off, True), ?t))" using assms by (simp add: vm_object_copy_def Let_def)
  moreover have "cow_objs (ext(q := ext q + 1)) ?t"
    by (rule cow_reference [OF cow ql same l _ f]) (simp_all add: cow_walk_same)
  moreover have "copied q off q off s ?t" using shown_cong [OF f same] by (auto simp: copied_def)
  moreover have "objs_kept s ?t" by (rule objs_kept_same [OF f same l(1)])
  ultimately show ?thesis unfolding copy_good_def using ql l q0 by (intro exI [of _ q] exI [of _ off] exI [of _ True] exI [of _ ?t]) simp
qed

lemma copy_reuse:
  assumes cow: "cow_objs ext s" and ql: "q \<in> set (vm_object_list s)" and q0: "q \<noteq> 0" and ext: "\<not> (pager (obj s q) = 0 \<or> internal (obj s q))"
    and c0: "copy_obj (obj s q) \<noteq> 0 \<and> resident_page_count (obj s (copy_obj (obj s q))) = 0 \<and> pager (obj s (copy_obj (obj s q))) = 0"
  shows "copy_good ext q off s (vm_object_copy q off len s)"
proof -
  let ?c = "copy_obj (obj s q)"
  note P = cow_parts [OF cow]
  have c: "?c \<in> set (vm_object_list s)" "shadow (obj s ?c) = q" "shadow_offset (obj s ?c) = 0"
    using P(6,7) [OF ql] c0 by (auto simp: copy_ok_def Let_def)
  let ?t = "upd_obj ?c (\<lambda>ob. ob\<lparr>o_refs := o_refs ob + 1\<rparr>) s"
  have same: "table_same s ?t" by (simp add: table_same_def)
  have l: "vm_object_list ?t = vm_object_list s" "object_zone ?t = object_zone s" by (simp_all add: upd_obj_def)
  have f: "shadow (obj ?t x) = shadow (obj s x) \<and> pager (obj ?t x) = pager (obj s x) \<and>
      paging_offset (obj ?t x) = paging_offset (obj s x) \<and> shadow_offset (obj ?t x) = shadow_offset (obj s x)" for x by simp
  have "vm_object_copy q off len s = Inr (Some ((?c, off, False), ?t))"
    using q0 ext c0 by (simp add: vm_object_copy_def Let_def rbind_def collapse_with_pager)
  moreover have "cow_objs (ext(?c := ext ?c + 1)) ?t" by (rule cow_reference [OF cow c(1) same l _ f]) simp_all
  moreover have "memq (obj s ?c) = []" using table_invD(3) [OF P(2), of ?c] c0 by simp
  then have "visible h s (?c # xs) a = visible h s xs a" for h xs a
    using visible_empty [of s ?c h xs a] no_pages [OF P(2)] c0 c(3) by simp
  then have "copied q off ?c off s ?t" using shown_cong [OF f same] c(2) c0
    by (auto simp: copied_def simp del: visible.simps intro!: exI [of _ "?c # _"])
  moreover have "objs_kept s ?t" by (rule objs_kept_same [OF f same l(1)])
  moreover have "?c \<noteq> q" by (rule copy_not_self [OF cow ql q0])
  ultimately show ?thesis unfolding copy_good_def using l c(1) q0 c0 by (intro exI [of _ ?c] exI [of _ off] exI [of _ False] exI [of _ ?t]) simp
qed

lemma copy_new:
  assumes cow: "cow_objs ext s" and ql: "q \<in> set (vm_object_list s)" and q0: "q \<noteq> 0" and ext: "\<not> (pager (obj s q) = 0 \<or> internal (obj s q))"
    and c0: "\<not> (copy_obj (obj s q) \<noteq> 0 \<and> resident_page_count (obj s (copy_obj (obj s q))) = 0 \<and> pager (obj s (copy_obj (obj s q))) = 0)"
    and z: "object_zone s \<noteq> []"
  shows "copy_good ext q off s (vm_object_copy q off len s)"
proof -
  let ?c = "copy_obj (obj s q)"
  note P = cow_parts [OF cow]
  obtain r rs where rs: "object_zone s = r # rs" using z by (cases "object_zone s") auto
  have r: "r \<notin> set (vm_object_list s)" "r \<noteq> 0" using P(3) rs by (auto simp: zone_ok_def)
  obtain xs where xs: "chain s q xs" "set xs \<subseteq> set (vm_object_list s)" using P(8) [of q] ql by blast
  have "?c \<noteq> q" by (rule copy_not_self [OF cow ql q0])
  moreover have "?c \<noteq> r" using P(7) [OF ql] r by auto
  ultimately obtain u t where u: "vm_object_allocate (o_size (obj s q)) s = Inr (r, u)" "copy_object_new q r u = Inr t" "new_copy_of q r s t"
    using copy_new_state [OF P(2,3) rs P(6) [OF ql]] r(1) ql by blast
  note F = new_copy_fields [OF u(3)] and C = new_copy_cow [OF u(3) cow ql]
  note S = new_copy_shows [OF u(3) P(2,3) P(6) [OF ql]]
  have "copied q off r off s t"
    unfolding copied_def
  proof (intro allI impI)
    fix zs assume zs: "chain s q zs"
    then obtain ys where ys: "chain t q ys" "\<And>h a. visible h t ys a = visible h s zs a"
      using S(1) xs r(1) chain_unique [OF xs(1) zs] by blast
    show "\<exists>ys. chain t r ys \<and> (\<forall>h a. visible h t ys (off + a) = visible h s zs (off + a))"
      using S(2) [OF ys(1)] ys(2) by (intro exI [of _ "r # ys"]) metis
  qed
  moreover have "vm_object_copy q off len s = Inr (Some ((r, off, False), t))"
    using q0 ext c0 u(1,2) by (auto simp: vm_object_copy_def Let_def rbind_def collapse_with_pager)
  moreover have "r \<noteq> q" using ql r(1) by blast
  ultimately show ?thesis unfolding copy_good_def using C r(2) q0 rs by (intro exI [of _ r] exI [of _ off] exI [of _ False] exI [of _ t]) (simp add: F(2,3))
qed

lemma copy_cow:
  assumes cow: "cow_objs ext s" and q: "q = 0 \<or> q \<in> set (vm_object_list s)" and z: "object_zone s \<noteq> []"
  shows "copy_good ext q off s (vm_object_copy q off len s)"
proof (cases "q = 0")
  case True
  have "copied q off 0 0 s s" unfolding copied_def True by (metis chain.simps visible.simps(1) neq_Nil_conv)
  then show ?thesis unfolding copy_good_def using True refs_step [OF cow] objs_kept_refl
    by (intro exI [of _ 0] exI [of _ False] exI [of _ s]) (simp add: vm_object_copy_def)
next
  case False
  then show ?thesis using copy_lazy [OF cow] copy_reuse [OF cow] copy_new [OF cow _ _ _ _ z] q by metis
qed

end
