(* ===== verification/VmMapWorld.thy ===== *)
theory VmMapWorld
  imports VmMapFault VmObjCopy
begin

text \<open>
  Several maps at once.  A world is the set of maps in use, each with its entries: their invariants hold together,
  no entry structure is in two maps, and the objects have exactly the references of the entries of all maps.  An
  operation on one map is stated by what it does to its own entries; the others are untouched.
\<close>

subsection \<open>Operations that only talk to the physical maps\<close>

definition objs_same :: "'a vm_objs_scheme \<Rightarrow> 'a vm_objs_scheme \<Rightarrow> bool" where
  "objs_same s t \<longleftrightarrow> obj t = obj s \<and> vm_object_list t = vm_object_list s \<and> object_zone t = object_zone s \<and> table_same s t"

lemma objs_same_refl: "objs_same s s"
  by (simp add: objs_same_def table_same_refl)

lemma objs_same_trans: "objs_same s t \<Longrightarrow> objs_same t u \<Longrightarrow> objs_same s u"
  unfolding objs_same_def by (metis table_same_trans)

lemma objs_same_truncate: "vm_objs.truncate t = vm_objs.truncate s \<Longrightarrow> objs_same s t"
  by (simp add: objs_same_def table_same_def vm_objs.truncate_def)

lemma objs_same_pmap: "objs_same s (pmap_do c s)"
  by (simp add: objs_same_def table_same_def pmap_do_def)

lemma objs_same_pmap_copy: "objs_same s (vm_object_pmap_copy q b e s)"
proof -
  have "objs_same s (pmap_copy_walk b e ps s)" for ps
  proof (induction ps arbitrary: s)
    case (Cons p ps)
    have "objs_same s (upd_page p (\<lambda>v. v\<lparr>pg_cow := True\<rparr>) (pmap_do c s))" for c by (simp add: objs_same_def table_same_def pmap_do_def upd_page_def)
    then show ?case using Cons objs_same_trans by fastforce
  qed (simp add: objs_same_refl)
  then show ?thesis by (simp add: vm_object_pmap_copy_def objs_same_refl)
qed

lemma objs_same_cow:
  assumes "objs_same s t"
  shows "cow_objs ext t = cow_objs ext s" "objs_kept s t"
proof -
  have c: "chain t x xs = chain s x xs" for x xs using assms by (intro chain_cong) (simp add: objs_same_def)
  show "cow_objs ext t = cow_objs ext s" using table_same_inv [of s t] assms
    by (simp add: cow_objs_def refs_inv_def zone_ok_def copy_ok_def objs_same_def c)
  show "objs_kept s t" using assms by (intro objs_kept_same) (simp_all add: objs_same_def)
qed

subsection \<open>The maps in use\<close>

type_synonym world = "ptr \<Rightarrow> eptr list option"

definition world :: "'a vm_maps_scheme \<Rightarrow> world \<Rightarrow> bool" where
  "world s W \<longleftrightarrow> finite (dom W) \<and> distinct (vm_map_zone s) \<and> distinct (vm_map_entry_zone s @ vm_map_kentry_zone s) \<and>
     (\<forall>k ks. W k = Some ks \<longrightarrow> map_inv s k ks \<and> entries_free s ks \<and> k \<notin> set (vm_map_zone s)) \<and>
     (\<forall>j k js ks. j \<noteq> k \<and> W j = Some js \<and> W k = Some ks \<longrightarrow> set js \<inter> set ks = {})"

text \<open>A step that works on the entries of one map and on free entries.\<close>

definition wstep :: "ptr \<Rightarrow> 'a vm_maps_scheme \<Rightarrow> eptr list \<Rightarrow> 'a vm_maps_scheme \<Rightarrow> eptr list \<Rightarrow> bool" where
  "wstep m s es t es' \<longleftrightarrow> map_inv t m es' \<and> entries_free t es' \<and> others_kept m s es t es' \<and> vm_map_zone t = vm_map_zone s \<and>
     (\<forall>e. e \<notin> set es \<and> e \<notin> zone_entries s \<longrightarrow> ent t e = ent s e) \<and> zone_entries t \<subseteq> zone_entries s \<and>
     set es \<subseteq> set es' \<and> set es' \<subseteq> set es \<union> zone_entries s"

lemma wstep_trans:
  assumes "wstep m s es t es'" and "wstep m t es' u es''"
  shows "wstep m s es u es''"
proof -
  have st: "others_kept m s es t es'" "vm_map_zone t = vm_map_zone s" "\<And>e. e \<notin> set es \<Longrightarrow> e \<notin> zone_entries s \<Longrightarrow> ent t e = ent s e"
      "zone_entries t \<subseteq> zone_entries s" "set es \<subseteq> set es'" "set es' \<subseteq> set es \<union> zone_entries s"
    using assms(1) unfolding wstep_def by blast+
  have tu: "map_inv u m es''" "entries_free u es''" "others_kept m t es' u es''" "vm_map_zone u = vm_map_zone t"
      "\<And>e. e \<notin> set es' \<Longrightarrow> e \<notin> zone_entries t \<Longrightarrow> ent u e = ent t e"
      "zone_entries u \<subseteq> zone_entries t" "set es' \<subseteq> set es''" "set es'' \<subseteq> set es' \<union> zone_entries t"
    using assms(2) unfolding wstep_def by blast+
  have "ent u e = ent s e" if "e \<notin> set es" "e \<notin> zone_entries s" for e
  proof -
    have "e \<notin> set es'" "e \<notin> zone_entries t" using st(4,6) that by blast+
    then show ?thesis using tu(5) st(3) that by simp
  qed
  moreover have "zone_entries u \<subseteq> zone_entries s" "set es \<subseteq> set es''" "set es'' \<subseteq> set es \<union> zone_entries s" using st(4-6) tu(6-8) by blast+
  ultimately show ?thesis using tu(1,2,4) others_kept_trans [OF st(1) tu(3)] st(2) by (simp add: wstep_def)
qed

lemma world_step:
  assumes w: "world s W" and m: "W m = Some es" and st: "wstep m s es t es'"
  shows "world t (W(m \<mapsto> es'))" "k \<noteq> m \<Longrightarrow> W k = Some ks \<Longrightarrow> e \<in> set ks \<Longrightarrow> ent t e = ent s e"
proof -
  have W: "map_inv s k ks" "entries_free s ks" "k \<notin> set (vm_map_zone s)" if "W k = Some ks" for k ks
    using w that unfolding world_def by blast+
  have D: "set js \<inter> set ks = {}" if "j \<noteq> k" "W j = Some js" "W k = Some ks" for j k js ks
    using w that unfolding world_def by metis
  have st': "map_inv t m es'" "entries_free t es'" "others_kept m s es t es'" "vm_map_zone t = vm_map_zone s" using st by (auto simp: wstep_def)
  have O: "map_inv t k ks \<and> entries_free t ks \<and> set ks \<inter> set es' = {}" if "k \<noteq> m" "W k = Some ks" for k ks
    using st'(3) W(1,2) [OF that(2)] D [OF that(1) that(2) m] that(1) unfolding others_kept_def by blast
  show "world t (W(m \<mapsto> es'))"
    unfolding world_def
  proof (intro conjI allI impI)
    show "finite (dom (W(m \<mapsto> es')))" "distinct (vm_map_zone t)" "distinct (vm_map_entry_zone t @ vm_map_kentry_zone t)"
      using w st'(2,4) by (simp_all add: world_def entries_free_def)
    fix k ks assume k: "(W(m \<mapsto> es')) k = Some ks"
    show "map_inv t k ks" "entries_free t ks" "k \<notin> set (vm_map_zone t)"
      using k O [of k ks] W [of k ks] W(3) [OF m] st' by (cases "k = m"; simp)+
  next
    fix j k js ks assume jk: "j \<noteq> k \<and> (W(m \<mapsto> es')) j = Some js \<and> (W(m \<mapsto> es')) k = Some ks"
    show "set js \<inter> set ks = {}" using jk O [of j js] O [of k ks] D [of j k js ks] by (cases "j = m"; cases "k = m") auto
  qed
  assume "k \<noteq> m" "W k = Some ks" "e \<in> set ks"
  then have "e \<notin> set es" "e \<notin> zone_entries s" using D [OF _ _ m] W(2) [of k ks] by (auto simp: entries_free_iff)
  then show "ent t e = ent s e" using st by (simp add: wstep_def)
qed

lemma world_same:
  assumes "world s W" and "maps_same s t"
  shows "world t W"
  using assms maps_same_inv [OF assms(2)] unfolding world_def by (simp add: maps_same_def)

subsection \<open>References of all maps\<close>

definition orefs :: "vm_map_entry \<Rightarrow> ptr \<Rightarrow> int" where
  "orefs v q = (if q \<noteq> 0 \<and> \<not> is_a_map v \<and> vobject v = q then 1 else 0)"

definition ocnt :: "(eptr \<Rightarrow> vm_map_entry) \<Rightarrow> eptr list \<Rightarrow> ptr \<Rightarrow> int" where
  "ocnt E es q = sum_list (map (\<lambda>e. orefs (E e) q) es)"

definition wrefs :: "'a vm_maps_scheme \<Rightarrow> world \<Rightarrow> ptr \<Rightarrow> int" where
  "wrefs s W q = (\<Sum>k\<in>dom W. ocnt (ent s) (the (W k)) q)"

lemma ocnt_append: "ocnt E (xs @ ys) q = ocnt E xs q + ocnt E ys q"
  by (simp add: ocnt_def)

lemma ocnt_Cons: "ocnt E (x # xs) q = orefs (E x) q + ocnt E xs q"
  by (simp add: ocnt_def)

lemma ocnt_cong: "(\<And>e. e \<in> set es \<Longrightarrow> E e = F e) \<Longrightarrow> ocnt E es q = ocnt F es q"
  by (induction es) (simp_all add: ocnt_def)

lemma ocnt_upd:
  assumes "e \<in> set es" and "distinct es"
  shows "ocnt (E(e := w)) es q = ocnt E es q - orefs (E e) q + orefs w q"
proof -
  obtain xs ys where es: "es = xs @ e # ys" using assms(1) by (metis in_set_conv_decomp)
  then have "ocnt (E(e := w)) xs q = ocnt E xs q" "ocnt (E(e := w)) ys q = ocnt E ys q" using assms(2) by (auto intro!: ocnt_cong)
  then show ?thesis by (simp add: es ocnt_append ocnt_Cons)
qed

lemma wrefs_step:
  assumes "world s W" and "W m = Some es" and "wstep m s es t es'"
  shows "wrefs t (W(m \<mapsto> es')) q = wrefs s W q - ocnt (ent s) es q + ocnt (ent t) es' q"
proof -
  have fin: "finite (dom W)" and m: "m \<in> dom W" using assms(1,2) by (auto simp: world_def)
  have "ocnt (ent t) (the ((W(m \<mapsto> es')) k)) q = ocnt (ent s) (the (W k)) q" if k: "k \<in> dom W - {m}" for k
  proof -
    obtain ks where "W k = Some ks" "k \<noteq> m" using k by auto
    then show ?thesis using world_step(2) [OF assms, of k ks] by (auto intro!: ocnt_cong)
  qed
  then have "(\<Sum>k\<in>dom W - {m}. ocnt (ent t) (the ((W(m \<mapsto> es')) k)) q) = (\<Sum>k\<in>dom W - {m}. ocnt (ent s) (the (W k)) q)" by (rule sum.cong [OF HOL.refl])
  moreover have "dom (W(m \<mapsto> es')) = dom W" using m by auto
  ultimately show ?thesis unfolding wrefs_def
    using sum.remove [OF fin m, of "\<lambda>k. ocnt (ent s) (the (W k)) q"] sum.remove [OF fin m, of "\<lambda>k. ocnt (ent t) (the ((W(m \<mapsto> es')) k)) q"] assms(2)
    by simp
qed

subsection \<open>Steps\<close>

definition room :: "nat \<Rightarrow> 'a vm_maps_scheme \<Rightarrow> bool" where
  "room n s \<longleftrightarrow> n \<le> length (vm_map_entry_zone s) \<and> n \<le> length (vm_map_kentry_zone s)"

lemma room_avail: "room (Suc n) s \<Longrightarrow> 0 < avail m s"
  by (auto simp: room_def avail_def)

text \<open>A new entry at the end of a map.\<close>

definition appended :: "ptr \<Rightarrow> ptr \<Rightarrow> vm_map_entry \<Rightarrow> 'a vm_maps_scheme \<Rightarrow> 'a vm_maps_scheme" where
  "appended m p v u = vm_map_entry_link m (vprev u (Hdr m)) (Ent p) (upd_ent (Ent p) (\<lambda>_. v) u)"

lemma ordered_end:
  assumes "ordered E lo es hi" and "vstart (E e) < vend (E e)" "lo \<le> vstart (E e)" "vend (E e) \<le> hi"
    and "\<And>x. x \<in> set es \<Longrightarrow> vend (E x) \<le> vstart (E e)"
  shows "ordered E lo (es @ [e]) hi"
  using assms
proof (induction es arbitrary: lo)
  case (Cons x es)
  then show ?case by simp
qed simp

lemma append_entry:
  assumes inv: "map_inv s m cs" and free: "entries_free s cs" and rm: "room (Suc n) s"
    and v: "vstart v < vend v" "vm_map_min m s \<le> vstart v" "vend v \<le> vm_map_max m s" "\<And>x. x \<in> set cs \<Longrightarrow> vend (ent s x) \<le> vstart v"
  obtains p u where "vm_map_entry_create m s = Inr (Ent p, u)" "Ent p \<in> zone_entries s" "ent u = ent s" "vmap u = vmap s" "vprev u = vprev s"
    "wstep m s cs (appended m p v u) (cs @ [Ent p])" "ent (appended m p v u) = (ent s)(Ent p := v)"
    "objs_same s (appended m p v u)" "room n (appended m p v u)"
    "vmap (appended m p v u) = (vmap s)(m := (vmap s m)\<lparr>nentries := nentries (vmap s m) + 1\<rparr>)" "vnext (appended m p v u) x = vnext s x \<or> x \<in> {Ent p, last (Hdr m # cs)}"
proof -
  from room_avail [OF rm] obtain p u where u: "vm_map_entry_create m s = Inr (Ent p, u)" "Ent p \<in> zone_entries s"
      "ent u = ent s" "vnext u = vnext s" "vprev u = vprev s" "vmap u = vmap s"
      "distinct (vm_map_entry_zone u @ vm_map_kentry_zone u)" "zone_entries u = zone_entries s - {Ent p}" "vm_objs.truncate u = vm_objs.truncate s"
    using entry_create_fields [of m s cs] free by metis
  have zu: "vm_map_zone u = vm_map_zone s" "room n u" using u(1) rm
    by (auto simp: vm_map_entry_create_def room_def split: if_splits list.splits)
  let ?p = "Ent p" and ?t = "appended m p v u"
  have ring: "ring s m cs" and ord: "ordered (ent s) (vm_map_min m s) cs (vm_map_max m s)" using inv by (auto simp: map_inv_def)
  have pn: "?p \<notin> set cs" using free u(2) by (auto simp: entries_free_iff)
  define l where "l = last (Hdr m # cs)"
  have lst: "vprev u (Hdr m) = l" using ring_ends(2) [OF ring] u(5) by (simp add: l_def)
  have lin: "l \<in> insert (Hdr m) (set cs)" using last_in_set [of "Hdr m # cs"] by (auto simp: l_def)
  then have pl: "?p \<noteq> l" using pn by auto
  let ?w = "upd_ent ?p (\<lambda>_. v) u"
  have rw: "ring ?w m cs" using ring_cong [of m cs ?w s] ring u by (simp add: upd_ent_def)
  have te: "?t = vm_map_entry_link m l ?p ?w" by (simp add: appended_def lst)
  have t: "ent ?t = (ent s)(?p := v)" "vmap ?t = (vmap s)(m := (vmap s m)\<lparr>nentries := nentries (vmap s m) + 1\<rparr>)"
      "vnext ?t = (vnext s)(?p := vnext s l, l := ?p)" "vprev ?t = (vprev s)(?p := l, vnext s l := ?p)"
    unfolding te link_fields [OF pl] by (simp_all add: upd_ent_def u)
  have z: "vm_map_entry_zone ?t = vm_map_entry_zone u" "vm_map_kentry_zone ?t = vm_map_kentry_zone u" "vm_map_zone ?t = vm_map_zone u"
      "vm_objs.truncate ?t = vm_objs.truncate u"
    by (simp_all add: appended_def vm_map_entry_link_def Let_def upd_map_def upd_ent_def vm_objs.truncate_def)
  have zt: "zone_entries ?t = zone_entries s - {?p}" using u(8) z by (simp add: zone_entries_def)
  have nl: "vnext s l = Hdr m" using nseg_last [of "vnext s" "Hdr m" cs "Hdr m"] ring by (simp add: ring_def l_def)
  have rt: "ring ?t m (cs @ [?p])" using ring_link [of ?w m cs "[]" ?p l] rw pn by (simp add: te l_def)
  have "ordered (ent ?t) lo cs hi = ordered (ent s) lo cs hi" for lo hi using pn by (intro ordered_cong) (auto simp: t(1))
  then have "ordered (ent ?t) (vm_map_min m s) (cs @ [?p]) (vm_map_max m s)" using ord pn v by (intro ordered_end) (auto simp: t(1))
  then have it: "map_inv ?t m (cs @ [?p])" using inv rt by (auto simp: map_inv_def t(1,2) vm_map_min_def vm_map_max_def)
  have ft: "entries_free ?t (cs @ [?p])" using free zt u(7) z by (auto simp: entries_free_iff)
  have cs: "set cs \<subseteq> range Ent" using ring by (simp add: ring_def)
  have "others_kept m s cs ?t (cs @ [?p])"
    using u(2,7) z cs zt nl lin by (intro others_keptI) (auto simp: t)
  then have "wstep m s cs ?t (cs @ [?p])" using it ft zt z(3) zu(1) u(2) by (auto simp: wstep_def t(1))
  moreover have "objs_same s ?t" using z(4) u(9) by (intro objs_same_truncate) simp
  moreover have "room n ?t" using zu(2) z by (simp add: room_def)
  ultimately show ?thesis using that [OF u(1,2,3,6,5)] t by (simp add: l_def)
qed

text \<open>A change of an entry that keeps its range.\<close>

lemma update_entry:
  assumes inv: "map_inv s m es" and free: "entries_free s es" and e: "e \<in> set es"
    and f: "vstart (f (ent s e)) = vstart (ent s e)" "vend (f (ent s e)) = vend (ent s e)"
  shows "wstep m s es (upd_ent e f s) es" "objs_same s (upd_ent e f s)"
proof -
  have "map_step m s es (upd_ent e f s) es" using upd_ent_step(1) [OF inv free e, of f] f by simp
  then show "wstep m s es (upd_ent e f s) es" using e by (auto simp: wstep_def map_step_def upd_ent_def zone_entries_def)
  show "objs_same s (upd_ent e f s)" by (rule objs_same_truncate) (simp add: upd_ent_def vm_objs.truncate_def)
qed

text \<open>A new map.\<close>

lemma create_map:
  assumes w: "world s W" and z: "vm_map_zone s = k # rest" and lo: "lo \<le> hi"
  obtains t where "vm_map_create pm lo hi pg s = Inr (k, t)" "k \<notin> dom W" "world t (W(k \<mapsto> []))"
    "\<And>e. e \<noteq> Hdr k \<Longrightarrow> ent t e = ent s e \<and> vnext t e = vnext s e" "\<And>q. wrefs t (W(k \<mapsto> [])) q = wrefs s W q" "objs_same s t"
    "vm_map_zone t = rest" "vm_map_min k t = lo" "vm_map_max k t = hi" "\<And>n. room n t = room n s" "entries_pageable (vmap t k) = pg"
    "pmap (vmap t k) = pm" "is_main_map (vmap t k)" "\<And>j. j \<noteq> k \<Longrightarrow> vmap t j = vmap s j"
proof -
  define t where "t = snd (projr (vm_map_create pm lo hi pg s))"
  have c: "vm_map_create pm lo hi pg s = Inr (k, t)" using z by (simp add: t_def vm_map_create_def Let_def)
  have k: "k \<notin> dom W" "k \<notin> set rest" "distinct rest" using w z by (auto simp: world_def)
  have t: "ent t e = (if e = Hdr k then (ent s e)\<lparr>vstart := lo, vend := hi\<rparr> else ent s e)" "vnext t = (vnext s)(Hdr k := Hdr k)"
      "vprev t = (vprev s)(Hdr k := Hdr k)" "vm_map_zone t = rest" "vm_map_entry_zone t = vm_map_entry_zone s"
      "vm_map_kentry_zone t = vm_map_kentry_zone s" "vm_objs.truncate t = vm_objs.truncate s" "j \<noteq> k \<Longrightarrow> vmap t j = vmap s j"
      "nentries (vmap t k) = 0" "hint (vmap t k) = Hdr k" "first_free (vmap t k) = Hdr k" "entries_pageable (vmap t k) = pg"
      "pmap (vmap t k) = pm" "is_main_map (vmap t k)" for e j
    using z by (simp_all add: t_def vm_map_create_def Let_def upd_map_def upd_ent_def vm_objs.truncate_def)
  have ik: "map_inv t k []" using lo by (simp add: map_inv_def ring_def t vm_map_min_def vm_map_max_def)
  have d: "distinct (vm_map_entry_zone s @ vm_map_kentry_zone s)" using w unfolding world_def by blast
  have old: "map_inv t j js \<and> entries_free t js" if "W j = Some js" for j js
  proof -
    have j: "map_inv s j js" "entries_free s js" "j \<noteq> k" using w that k(1) unfolding world_def by auto
    have "e \<noteq> Hdr k" if "e \<in> insert (Hdr j) (set js)" for e using that j(1,3) by (auto simp: map_inv_def ring_def)
    then have "map_inv t j js = map_inv s j js" using j(3) by (intro map_inv_cong) (simp_all add: t)
    then show ?thesis using j by (simp add: entries_free_def t)
  qed
  have "world t (W(k \<mapsto> []))"
    unfolding world_def
  proof (intro conjI allI impI)
    show "finite (dom (W(k \<mapsto> [])))" "distinct (vm_map_zone t)" "distinct (vm_map_entry_zone t @ vm_map_kentry_zone t)"
      using w k(3) d by (simp_all add: world_def t)
    show "map_inv t j js" "entries_free t js" "j \<notin> set (vm_map_zone t)" if j: "(W(k \<mapsto> [])) j = Some js" for j js
      using j old [of j js] ik d k w z by (cases "j = k"; auto simp: t entries_free_def world_def)+
    show "set js \<inter> set ls = {}" if "i \<noteq> j \<and> (W(k \<mapsto> [])) i = Some js \<and> (W(k \<mapsto> [])) j = Some ls" for i j js ls
      using that w unfolding world_def by (cases "i = k"; cases "j = k") auto
  qed
  then show ?thesis
  proof (rule that [OF c k(1)])
    show "objs_same s t" by (rule objs_same_truncate) (rule t(7))
    show "wrefs t (W(k \<mapsto> [])) q = wrefs s W q" for q
    proof -
      have fin: "finite (dom W)" using w by (simp add: world_def)
      have "ocnt (ent t) (the ((W(k \<mapsto> [])) j)) q = ocnt (ent s) (the (W j)) q" if j: "j \<in> dom W" for j
      proof -
        obtain js where "W j = Some js" "j \<noteq> k" using j k(1) by (metis domD)
        moreover have "Hdr k \<notin> set js" using w calculation unfolding world_def map_inv_def ring_def by blast
        ultimately show ?thesis by (auto simp: t(1) intro!: ocnt_cong)
      qed
      then show ?thesis using k(1) fin by (simp add: wrefs_def ocnt_def sum.insert_remove)
    qed
  qed (use t in \<open>auto simp: vm_map_min_def vm_map_max_def room_def\<close>)
qed

end
