(* ===== verification/VmMapInherit.thy ===== *)
theory VmMapInherit
  imports VmMapWorld
begin

text \<open>
  What one turn of the loop of \<^verbatim>\<open>vm_map_fork\<close> does to an entry of the parent: a copied entry gets a twin in the child
  that shows the same data through an object of its own or is marked for copy on write; a shared entry
  and its twin lead to the same sharing map.  In both cases the maps stay well-formed together and the reference
  counts exact, and no other entry reads different data.
\<close>

subsection \<open>A consistent world\<close>

definition wok :: "(ptr \<Rightarrow> int) \<Rightarrow> 'a vm_maps_scheme \<Rightarrow> world \<Rightarrow> bool" where
  "wok rest s W \<longleftrightarrow> world s W \<and> cow_objs (\<lambda>q. wrefs s W q + rest q) s \<and>
     (\<forall>k ks e. W k = Some ks \<and> e \<in> set ks \<and> \<not> is_a_map (ent s e) \<longrightarrow> vobject (ent s e) = 0 \<or> vobject (ent s e) \<in> set (vm_object_list s))"

lemma wok_parts:
  assumes "wok rest s W" and "W k = Some ks"
  shows "map_inv s k ks" "entries_free s ks" "distinct ks" "k \<notin> set (vm_map_zone s)"
    "e \<in> set ks \<Longrightarrow> \<not> is_a_map (ent s e) \<Longrightarrow> vobject (ent s e) = 0 \<or> vobject (ent s e) \<in> set (vm_object_list s)"
    "e \<in> set ks \<Longrightarrow> e \<noteq> Hdr j" "e \<in> set ks \<Longrightarrow> e \<notin> zone_entries s"
proof -
  show m: "map_inv s k ks" and f: "entries_free s ks" "k \<notin> set (vm_map_zone s)" using assms unfolding wok_def world_def by blast+
  show "distinct ks" "e \<in> set ks \<Longrightarrow> e \<noteq> Hdr j" using m by (auto simp: map_inv_def ring_def)
  show "e \<in> set ks \<Longrightarrow> e \<notin> zone_entries s" using f by (auto simp: entries_free_iff)
  show "e \<in> set ks \<Longrightarrow> \<not> is_a_map (ent s e) \<Longrightarrow> vobject (ent s e) = 0 \<or> vobject (ent s e) \<in> set (vm_object_list s)"
    using assms unfolding wok_def by blast
qed

lemma wok_apart: "wok rest s W \<Longrightarrow> W j = Some js \<Longrightarrow> W k = Some ks \<Longrightarrow> j \<noteq> k \<Longrightarrow> e \<in> set js \<Longrightarrow> e \<notin> set ks"
  unfolding wok_def world_def by blast

lemma wrefs_same: "maps_same s t \<Longrightarrow> wrefs t W q = wrefs s W q"
  by (simp add: wrefs_def maps_sameD)

lemma wok_cong:
  assumes ok: "wok rest s W" and w: "world t W" and o: "objs_same s t" and e: "ent t = ent s"
  shows "wok rest t W"
proof -
  have l: "vm_object_list t = vm_object_list s" using o by (simp add: objs_same_def)
  have "wrefs t W q = wrefs s W q" for q by (simp add: wrefs_def e)
  then have "cow_objs (\<lambda>q. wrefs t W q + rest q) t" using ok by (simp add: wok_def objs_same_cow(1) [OF o])
  then show ?thesis using ok w unfolding wok_def e l by blast
qed

lemma wok_same:
  assumes "wok rest s W" and "objs_same s t" and "maps_same s t"
  shows "wok rest t W"
proof -
  have "world t W" using assms(1) world_same [OF _ assms(3)] by (simp add: wok_def)
  then show ?thesis by (rule wok_cong [OF assms(1) _ assms(2) maps_sameD(1) [OF assms(3)]])
qed

lemma cow_at_0: "cow_objs ext s \<Longrightarrow> (\<And>q. q \<noteq> 0 \<Longrightarrow> ext' q = ext q) \<Longrightarrow> cow_objs ext' s"
  using refs_step [of ext s "ext' 0"] by (rule back_subst [of "\<lambda>f. cow_objs f s"]) (auto simp: fun_eq_iff)

text \<open>A step of one map while the objects stay as they are.\<close>

lemma wok_step:
  assumes ok: "wok rest s W" and m: "W m = Some es" and st: "wstep m s es t es'" and same: "objs_same s t"
    and cnt: "\<And>q. q \<noteq> 0 \<Longrightarrow> ocnt (ent t) es' q = ocnt (ent s) es q"
    and live: "\<And>e. e \<in> set es' \<Longrightarrow> \<not> is_a_map (ent t e) \<Longrightarrow> vobject (ent t e) = 0 \<or> vobject (ent t e) \<in> set (vm_object_list s)"
  shows "wok rest t (W(m \<mapsto> es'))"
proof -
  have w: "world s W" "cow_objs (\<lambda>q. wrefs s W q + rest q) s" using ok by (auto simp: wok_def)
  note S = world_step [OF w(1) m st]
  have "cow_objs (\<lambda>q. wrefs t (W(m \<mapsto> es')) q + rest q) t"
    unfolding objs_same_cow(1) [OF same] using w(2) by (rule cow_at_0) (simp add: wrefs_step [OF w(1) m st] cnt)
  moreover have l: "vm_object_list t = vm_object_list s" using same by (simp add: objs_same_def)
  have "vobject (ent t e) = 0 \<or> vobject (ent t e) \<in> set (vm_object_list t)"
    if "(W(m \<mapsto> es')) k = Some ks" "e \<in> set ks" "\<not> is_a_map (ent t e)" for k ks e
  proof (cases "k = m")
    case True
    then show ?thesis using that live l by simp
  next
    case False
    then have "W k = Some ks" using that(1) by simp
    then show ?thesis using S(2) [OF False _ that(2)] wok_parts(5) [OF ok _ that(2)] that(3) l by metis
  qed
  ultimately show ?thesis using S(1) unfolding wok_def by blast
qed

subsection \<open>Copied entries\<close>

lemma upd_ent_twice: "upd_ent e f (upd_ent e g s) = upd_ent e (f \<circ> g) s"
  by (simp add: upd_ent_def)

lemma copy_unmap_null:
  assumes "wired_count (ent s e) = 0" and "vobject (ent s e) = 0"
  shows "objs_same s (copy_unmap m e s)" "maps_same s (copy_unmap m e s)"
  using assms by (simp_all add: copy_unmap_def Let_def vm_object_pmap_remove_def objs_same_pmap pmap_do_maps_same)

lemma copy_protect_same: "objs_same s (copy_protect m e s)" "maps_same s (copy_protect m e s)"
proof -
  show "objs_same s (copy_protect m e s)"
    by (simp add: copy_protect_def Let_def objs_same_pmap objs_same_pmap_copy objs_same_refl)
  have "vm_objs.more (copy_protect m e s) = vm_objs.more s" by (simp add: copy_protect_def Let_def objs_only)
  then show "maps_same s (copy_protect m e s)" by (rule objs_only_same)
qed

text \<open>Changing one entry, the object it refers to staying the same.\<close>

lemma wok_update:
  assumes ok: "wok rest s W" and m: "W m = Some es" and e: "e \<in> set es"
    and v: "vstart v = vstart (ent s e)" "vend v = vend (ent s e)" "vobject v = vobject (ent s e)" "is_a_map v = is_a_map (ent s e)"
  shows "wok rest (upd_ent e (\<lambda>_. v) s) W"
proof -
  let ?t = "upd_ent e (\<lambda>_. v) s"
  note P = wok_parts [OF ok m]
  note U = update_entry [OF P(1,2) e, of "\<lambda>_. v", OF v(1,2)]
  have et: "ent ?t = (ent s)(e := v)" by (simp add: upd_ent_def)
  have "ocnt (ent ?t) es q = ocnt (ent s) es q" for q unfolding et ocnt_upd [OF e P(3)] using v(3,4) by (simp add: orefs_def)
  moreover have "vobject (ent ?t x) = 0 \<or> vobject (ent ?t x) \<in> set (vm_object_list s)" if "x \<in> set es" "\<not> is_a_map (ent ?t x)" for x
    using that P(5) v(3,4) unfolding et by (cases "x = e") auto
  ultimately have "wok rest ?t (W(m \<mapsto> es))" by (intro wok_step [OF ok m U])
  then show ?thesis using m by (simp add: fun_upd_idem)
qed

text \<open>Giving an entry without object the object \<open>d\<close>, to which a reference has been taken.\<close>

lemma wok_adopt:
  assumes w: "world s W" and c: "cow_objs (ext(d := ext d + 1)) s" and x: "\<And>q. ext q = wrefs s W q + rest q"
    and live: "\<And>k ks e. W k = Some ks \<Longrightarrow> e \<in> set ks \<Longrightarrow> \<not> is_a_map (ent s e) \<Longrightarrow> vobject (ent s e) = 0 \<or> vobject (ent s e) \<in> set (vm_object_list s)"
    and m: "W m = Some es" and e: "e \<in> set es" "vobject (ent s e) = 0" "\<not> is_a_map v"
    and v: "vstart v = vstart (ent s e)" "vend v = vend (ent s e)" "vobject v = d" and d: "d = 0 \<or> d \<in> set (vm_object_list s)"
  shows "wok rest (upd_ent e (\<lambda>_. v) s) W"
proof -
  let ?t = "upd_ent e (\<lambda>_. v) s"
  have P: "map_inv s m es" "entries_free s es" "distinct es" using w m unfolding world_def map_inv_def ring_def by blast+
  note U = update_entry [OF P(1,2) e(1), of "\<lambda>_. v", OF v(1,2)]
  note S = world_step [OF w m U(1)]
  have id: "W(m \<mapsto> es) = W" using m by (simp add: fun_upd_idem)
  have et: "ent ?t = (ent s)(e := v)" by (simp add: upd_ent_def)
  have "orefs (ent s e) q = 0" "orefs v q = (if q = d \<and> q \<noteq> 0 then 1 else 0)" for q using e v(3) by (auto simp: orefs_def)
  then have "ocnt (ent ?t) es q = ocnt (ent s) es q + (if q = d \<and> q \<noteq> 0 then 1 else 0)" for q
    unfolding et ocnt_upd [OF e(1) P(3)] by simp
  then have r: "wrefs ?t W q = wrefs s W q + (if q = d \<and> q \<noteq> 0 then 1 else 0)" for q
    using wrefs_step [OF w m U(1), of q] unfolding id by simp
  have "cow_objs (\<lambda>q. wrefs ?t W q + rest q) ?t"
    unfolding objs_same_cow(1) [OF U(2)] by (rule cow_at_0 [OF c]) (simp add: x r)
  moreover have "vobject (ent ?t y) = 0 \<or> vobject (ent ?t y) \<in> set (vm_object_list ?t)" if "W k = Some ks" "y \<in> set ks" "\<not> is_a_map (ent ?t y)" for k ks y
  proof -
    have "vm_object_list ?t = vm_object_list s" using U(2) by (simp add: objs_same_def)
    then show ?thesis using live [OF that(1,2)] that(3) d v(3) unfolding et by (cases "y = e") auto
  qed
  ultimately show ?thesis using S(1) unfolding id wok_def by blast
qed

text \<open>Where an entry of the parent goes into the child: inside its bounds and above everything it has so far.\<close>

definition fits_after :: "ptr \<Rightarrow> eptr list \<Rightarrow> vm_map_entry \<Rightarrow> 'a vm_maps_scheme \<Rightarrow> bool" where
  "fits_after m cs v s \<longleftrightarrow> vstart v < vend v \<and> vm_map_min m s \<le> vstart v \<and> vend v \<le> vm_map_max m s \<and> (\<forall>x\<in>set cs. vend (ent s x) \<le> vstart v)"

lemma wok_append:
  assumes ok: "wok rest s W" and m: "W m = Some cs" and rm: "room (Suc n) s" and f: "fits_after m cs v s" and v: "is_a_map v \<or> vobject v = 0"
  obtains p u where "vm_map_entry_create m s = Inr (Ent p, u)" "Ent p \<in> zone_entries s" "ent u = ent s" "vmap u = vmap s" "vprev u = vprev s"
    "wok rest (appended m p v u) (W(m \<mapsto> cs @ [Ent p]))" "ent (appended m p v u) = (ent s)(Ent p := v)" "room n (appended m p v u)"
    "objs_same s (appended m p v u)" "vm_map_zone (appended m p v u) = vm_map_zone s"
    "zone_entries (appended m p v u) \<subseteq> zone_entries s" "\<And>k. vsize (vmap (appended m p v u) k) = vsize (vmap s k)"
proof -
  note P = wok_parts [OF ok m]
  obtain p u where A: "vm_map_entry_create m s = Inr (Ent p, u)" "Ent p \<in> zone_entries s" "ent u = ent s" "vmap u = vmap s" "vprev u = vprev s"
    "wstep m s cs (appended m p v u) (cs @ [Ent p])" "ent (appended m p v u) = (ent s)(Ent p := v)"
    "objs_same s (appended m p v u)" "room n (appended m p v u)"
    "vmap (appended m p v u) = (vmap s)(m := (vmap s m)\<lparr>nentries := nentries (vmap s m) + 1\<rparr>)"
    using append_entry [OF P(1,2) rm, of v] f unfolding fits_after_def by metis
  let ?t = "appended m p v u"
  have p: "Ent p \<notin> set cs" using P(7) A(2) by blast
  have c: "ocnt (ent ?t) cs q = ocnt (ent s) cs q" for q using p by (intro ocnt_cong) (auto simp: A(7))
  have "ocnt (ent ?t) (cs @ [Ent p]) q = ocnt (ent s) cs q" if "q \<noteq> 0" for q
    unfolding ocnt_append c using v that by (auto simp: ocnt_def orefs_def A(7))
  moreover have "vobject (ent ?t e) = 0 \<or> vobject (ent ?t e) \<in> set (vm_object_list s)" if "e \<in> set (cs @ [Ent p])" "\<not> is_a_map (ent ?t e)" for e
    using that P(5) v p by (cases "e = Ent p") (auto simp: A(7))
  ultimately have "wok rest ?t (W(m \<mapsto> cs @ [Ent p]))" by (intro wok_step [OF ok m A(6,8)])
  then show ?thesis using that [OF A(1-5)] A(6-10) by (auto simp: wstep_def)
qed

text \<open>The outcome of copying the entry \<open>e\<close>: the child has the entry \<open>c\<close>.\<close>

definition copied_entry :: "ptr \<Rightarrow> eptr \<Rightarrow> eptr \<Rightarrow> 'a vm_maps_scheme \<Rightarrow> 'a vm_maps_scheme \<Rightarrow> bool" where
  "copied_entry old_map e c s t \<longleftrightarrow> (\<exists>nc d doff.
     ent t = (ent s)(c := (ent s e)\<lparr>wired_count := 0, is_a_map := False, vobject := d, voffset := doff, needs_copy := True, copy_on_write := True\<rparr>,
                     e := (ent s e)\<lparr>needs_copy := nc \<or> needs_copy (ent s e), copy_on_write := True\<rparr>) \<and>
     copied (vobject (ent s e)) (voffset (ent s e)) d doff s t \<and> (d = 0 \<or> nc \<or> d \<noteq> vobject (ent s e)) \<and>
     objs_kept s t \<and> c \<in> zone_entries s \<and> zone_entries t \<subseteq> zone_entries s \<and> vm_map_zone t = vm_map_zone s \<and>
     vsize (vmap t old_map) = vsize (vmap s old_map) \<and> length (object_zone s) \<le> Suc (length (object_zone t)))"

lemma copied_same:
  assumes "objs_same s t" and "copied q off d doff t u"
  shows "copied q off d doff s u"
proof -
  have "chain t x xs = chain s x xs" for x xs using assms(1) by (intro chain_cong) (simp add: objs_same_def)
  moreover have "visible h t xs a = visible h s xs a" for h xs a
    using assms(1) table_same_page_at [of s t] by (intro visible_cong) (simp_all add: objs_same_def)
  ultimately show ?thesis using assms(2) by (simp add: copied_def)
qed

lemma copied_after:
  assumes "copied q off d doff s t" and "objs_same t u"
  shows "copied q off d doff s u"
proof -
  have "chain u x xs = chain t x xs" for x xs using assms(2) by (intro chain_cong) (simp add: objs_same_def)
  moreover have "visible h u xs a = visible h t xs a" for h xs a
    using assms(2) table_same_page_at [of t u] by (intro visible_cong) (simp_all add: objs_same_def)
  ultimately show ?thesis using assms(1) by (simp add: copied_def)
qed

lemma copy_object_ok:
  assumes ok: "wok rest s W" and P: "W old = Some es" and C: "W new = Some cs" and on: "old \<noteq> new" and e: "e \<in> set es" and c: "c \<in> set cs"
    and v: "\<not> is_a_map (ent s e)" and w: "\<not> is_a_map (ent s c)" "vobject (ent s c) = 0" and z: "object_zone s \<noteq> []"
  shows "\<exists>t nc d doff. copy_object (Suc n) old new e c s = Inr (Some t) \<and> wok rest t W \<and>
     ent t = (ent s)(c := (ent s c)\<lparr>vobject := d, voffset := doff, needs_copy := True, copy_on_write := True\<rparr>,
                     e := (ent s e)\<lparr>needs_copy := nc \<or> needs_copy (ent s e), copy_on_write := True\<rparr>) \<and>
     copied (vobject (ent s e)) (voffset (ent s e)) d doff s t \<and> (d = 0 \<or> nc \<or> d \<noteq> vobject (ent s e)) \<and>
     objs_kept s t \<and> zone_entries t = zone_entries s \<and> vm_map_zone t = vm_map_zone s \<and> (\<forall>n. room n t = room n s) \<and>
     vmap t = vmap s \<and> length (object_zone s) \<le> Suc (length (object_zone t))"
proof -
  have ne: "e \<noteq> c" using wok_apart [OF ok P C on e] c by blast
  have lv: "vobject (ent s e) = 0 \<or> vobject (ent s e) \<in> set (vm_object_list s)" using wok_parts(5) [OF ok P e v] .
  have cow: "cow_objs (\<lambda>q. wrefs s W q + rest q) s" and wd: "world s W" using ok by (auto simp: wok_def)
  obtain d doff nc t where t: "vm_object_copy (vobject (ent s e)) (voffset (ent s e)) (vend (ent s e) - vstart (ent s e)) s = Inr (Some ((d, doff, nc), t))"
      "cow_objs ((\<lambda>q. wrefs s W q + rest q)(d := wrefs s W d + rest d + 1)) t" "objs_kept s t" "copied (vobject (ent s e)) (voffset (ent s e)) d doff s t"
      "d = 0 \<or> d \<in> set (vm_object_list t)" "length (object_zone s) \<le> Suc (length (object_zone t))" "vobject (ent s e) = 0 \<longleftrightarrow> d = 0"
      "vobject (ent s e) = 0 \<or> nc \<or> d \<noteq> vobject (ent s e)"
    using copy_cow [OF cow lv z] unfolding copy_good_def by blast
  have more: "vm_objs.more t = vm_objs.more s" by (rule copy_only [OF t(1)])
  have ms: "maps_same s t" by (rule objs_only_same [OF more])
  have mf: "vmap t = vmap s" "vm_map_zone t = vm_map_zone s" "vm_map_entry_zone t = vm_map_entry_zone s" "vm_map_kentry_zone t = vm_map_kentry_zone s"
    using more by (cases s; cases t; simp)+
  note D = maps_sameD [OF ms]
  let ?w = "(ent s c)\<lparr>vobject := d, voffset := doff, needs_copy := True, copy_on_write := True\<rparr>"
  let ?v = "(ent s e)\<lparr>needs_copy := nc \<or> needs_copy (ent s e), copy_on_write := True\<rparr>"
  let ?t1 = "upd_ent c (\<lambda>_. ?w) t" and ?t2 = "upd_ent e (\<lambda>_. ?v) (upd_ent c (\<lambda>_. ?w) t)"
  let ?u = "pmap_do (PmapCopy (pmap (vmap t new)) (pmap (vmap t old)) (vstart (ent ?t2 c)) (vend (ent ?t2 c) - vstart (ent ?t2 c)) (vstart (ent ?t2 e))) ?t2"
  have wt: "world t W" by (rule world_same [OF wd ms])
  have "set (vm_object_list s) \<subseteq> set (vm_object_list t)" using t(3) by (simp add: objs_kept_def)
  then have live: "vobject (ent t x) = 0 \<or> vobject (ent t x) \<in> set (vm_object_list t)" if "W k = Some ks" "x \<in> set ks" "\<not> is_a_map (ent t x)" for k ks x
    using wok_parts(5) [OF ok that(1,2)] that(3) D(1) by auto
  have r: "(wrefs s W q + rest q) = wrefs t W q + rest q" for q by (simp add: wrefs_same [OF ms])
  have ok1: "wok rest ?t1 W"
    by (rule wok_adopt [OF wt t(2) r live C c]) (use w t(5) D(1) in simp_all)
  have ok2: "wok rest ?t2 W" by (rule wok_update [OF ok1 P e]) (use ne D(1) in \<open>simp_all add: upd_ent_def\<close>)
  have os: "objs_same t ?t2" by (rule objs_same_truncate) (simp add: upd_ent_def vm_objs.truncate_def)
  have ou: "objs_same t ?u" using os objs_same_pmap objs_same_trans by blast
  have "copy_object (Suc n) old new e c s = Inr (Some ?u)"
    using ne w t(1) by (simp add: copy_object_def Let_def upd_ent_def D(1) fun_upd_twist)
  moreover have "wok rest ?u W" by (rule wok_same [OF ok2 objs_same_pmap pmap_do_maps_same])
  moreover have "ent ?u = (ent s)(c := ?w, e := ?v)" "zone_entries ?u = zone_entries s" "vm_map_zone ?u = vm_map_zone s" "\<forall>n. room n ?u = room n s" "vmap ?u = vmap s"
      "object_zone ?u = object_zone t"
    by (simp_all add: pmap_do_def upd_ent_def D(1) mf zone_entries_def room_def)
  moreover have "copied (vobject (ent s e)) (voffset (ent s e)) d doff s ?u" by (rule copied_after [OF t(4) ou])
  moreover have "objs_kept s ?u" by (rule objs_kept_trans [OF t(3) objs_same_cow(2) [OF ou]])
  ultimately show ?thesis using t(6-8) by (intro exI [of _ ?u] exI [of _ nc] exI [of _ d] exI [of _ doff]) auto
qed

lemma fork_copy_ok:
  assumes ok: "wok rest s W" and P: "W old = Some es" and C: "W new = Some cs" and on: "old \<noteq> new" and e: "e \<in> set es"
    and v: "\<not> is_a_map (ent s e)" "\<not> is_sub_map (ent s e)" "wired_count (ent s e) = 0"
    and f: "fits_after new cs (ent s e) s" and rm: "room (Suc n) s" and z: "object_zone s \<noteq> []"
  shows "\<exists>t c. fork_copy (Suc k) priv old new e s = Inr (Some t) \<and> copied_entry old e c s t \<and> wok rest t (W(new \<mapsto> cs @ [c])) \<and> room n t"
proof -
  let ?v = "(ent s e)\<lparr>wired_count := 0, vobject := 0, is_a_map := False\<rparr>"
  have fv: "fits_after new cs ?v s" using f by (simp add: fits_after_def)
  from wok_append [OF ok C rm fv] obtain p u where A: "vm_map_entry_create new s = Inr (Ent p, u)" "Ent p \<in> zone_entries s" "ent u = ent s"
      "vmap u = vmap s" "vprev u = vprev s" "wok rest (appended new p ?v u) (W(new \<mapsto> cs @ [Ent p]))" "ent (appended new p ?v u) = (ent s)(Ent p := ?v)"
      "room n (appended new p ?v u)" "objs_same s (appended new p ?v u)" "vm_map_zone (appended new p ?v u) = vm_map_zone s"
      "zone_entries (appended new p ?v u) \<subseteq> zone_entries s" "\<And>k. vsize (vmap (appended new p ?v u) k) = vsize (vmap s k)" by auto
  let ?c = "Ent p" and ?W = "W(new \<mapsto> cs @ [Ent p])" and ?s1 = "appended new p ?v u"
  have ne: "e \<noteq> ?c" using wok_parts(7) [OF ok P e] A(2) by blast
  define s2 where "s2 = copy_unmap new ?c ?s1"
  define s3 where "s3 = copy_protect old e s2"
  have s2: "objs_same ?s1 s2" "maps_same ?s1 s2" using copy_unmap_null [of ?s1 ?c new] by (simp_all add: s2_def A(7))
  have s3: "objs_same ?s1 s3" "maps_same ?s1 s3"
    using objs_same_trans [OF s2(1) copy_protect_same(1)] maps_same_trans [OF s2(2) copy_protect_same(2)] by (simp_all add: s3_def)
  note D2 = maps_sameD [OF s2(2)] and D = maps_sameD [OF s3(2)]
  have es: "ent s3 = (ent s)(?c := ?v)" "ent s2 = (ent s)(?c := ?v)" using D(1) D2(1) A(7) by simp_all
  have ee: "ent s3 e = ent s e" "ent s3 ?c = ?v" using ne by (simp_all add: es)
  have w3: "wok rest s3 ?W" by (rule wok_same [OF A(6) s3])
  have oz: "object_zone s3 = object_zone s" using s3(1) A(9) by (simp add: objs_same_def)
  have W: "?W old = Some es" "?W new = Some (cs @ [?c])" "?c \<in> set (cs @ [?c])" using P on by simp_all
  have h: "\<not> is_a_map (ent s3 e)" "\<not> is_a_map (ent s3 ?c)" "vobject (ent s3 ?c) = 0" "object_zone s3 \<noteq> []" using v(1) z by (simp_all add: ee oz)
  from copy_object_ok [OF w3 W(1,2) on e W(3) h, of k] obtain t nc d doff where
    t: "copy_object (Suc k) old new e ?c s3 = Inr (Some t)" "wok rest t ?W"
      "ent t = (ent s3)(?c := ?v\<lparr>vobject := d, voffset := doff, needs_copy := True, copy_on_write := True\<rparr>,
                     e := (ent s e)\<lparr>needs_copy := nc \<or> needs_copy (ent s e), copy_on_write := True\<rparr>)"
      "copied (vobject (ent s e)) (voffset (ent s e)) d doff s3 t" "d = 0 \<or> nc \<or> d \<noteq> vobject (ent s e)"
      "objs_kept s3 t" "zone_entries t = zone_entries s3" "vm_map_zone t = vm_map_zone s3" "room n t = room n s3"
      "vmap t = vmap s3" "length (object_zone s3) \<le> Suc (length (object_zone t))"
    unfolding ee by blast
  have "fork_copy (Suc k) priv old new e s = vm_map_copy_entry (Suc k) priv old new e ?c ?s1"
  proof -
    have "vm_map_entry_link new (vprev (upd_ent ?c f (upd_ent ?c (\<lambda>_. x) u)) (Hdr new)) ?c (upd_ent ?c f (upd_ent ?c (\<lambda>_. x) u)) = appended new p (f x) u" for f x
      by (simp add: appended_def upd_ent_def)
    then show ?thesis using A(1) v(1) ne by (simp add: fork_copy_def Let_def A(3,7))
  qed
  also have "\<dots> = copy_object (Suc k) old new e ?c s3"
    using v ne by (simp add: vm_map_copy_entry_def Let_def A(7) s3_def s2_def [symmetric] es)
  finally have "fork_copy (Suc k) priv old new e s = Inr (Some t)" using t(1) by simp
  moreover have os: "objs_same s s3" by (rule objs_same_trans [OF A(9) s3(1)])
  have "copied_entry old e ?c s t"
    unfolding copied_entry_def
  proof (intro exI conjI)
    show "ent t = (ent s)(?c := (ent s e)\<lparr>wired_count := 0, is_a_map := False, vobject := d, voffset := doff, needs_copy := True, copy_on_write := True\<rparr>,
                     e := (ent s e)\<lparr>needs_copy := nc \<or> needs_copy (ent s e), copy_on_write := True\<rparr>)" using t(3) by (simp add: es)
    show "copied (vobject (ent s e)) (voffset (ent s e)) d doff s t" by (rule copied_same [OF os t(4)])
    show "objs_kept s t" by (rule objs_kept_trans [OF objs_same_cow(2) [OF os] t(6)])
    show "zone_entries t \<subseteq> zone_entries s" using t(7) D(4) A(11) by simp
    show "vm_map_zone t = vm_map_zone s" using t(8) s3(2) A(10) by (simp add: maps_same_def)
    show "vsize (vmap t old) = vsize (vmap s old)" using t(10) D(8) A(12) by simp
    show "length (object_zone s) \<le> Suc (length (object_zone t))" using t(11) oz by simp
  qed (use t(5) A(2) in auto)
  moreover have "room n t" using t(9) A(8) s3(2) by (simp add: room_def maps_same_def)
  ultimately show ?thesis using t(2) by blast
qed

subsection \<open>Shared entries\<close>

lemma world_upd_map:
  assumes "world s W" and "nentries (f (vmap s k)) = nentries (vmap s k)" "hint (f (vmap s k)) = hint (vmap s k)" "first_free (f (vmap s k)) = first_free (vmap s k)"
  shows "world (upd_map k f s) W"
proof -
  let ?t = "upd_map k f s"
  have u: "ent ?t = ent s" "vnext ?t = vnext s" "vprev ?t = vprev s" "vm_map_zone ?t = vm_map_zone s" "vm_map_entry_zone ?t = vm_map_entry_zone s"
      "vm_map_kentry_zone ?t = vm_map_kentry_zone s" by (simp_all add: upd_map_def)
  have "map_inv ?t j js = map_inv s j js" for j js by (rule map_inv_cong) (simp_all add: u, use assms(2-4) in \<open>simp_all add: upd_map_def\<close>)
  then show ?thesis using assms(1) by (simp add: world_def entries_free_def u)
qed

lemma objs_same_upd_map: "objs_same s (upd_map k f s)"
  by (rule objs_same_truncate) (simp add: upd_map_def vm_objs.truncate_def)

text \<open>What an address that a map shows as \<open>v\<close> reads, through a sharing map where there is one.\<close>

definition reads :: "(ptr \<Rightarrow> u32 \<Rightarrow> bool) \<Rightarrow> 'a vm_maps_scheme \<Rightarrow> world \<Rightarrow> vm_map_entry \<Rightarrow> source \<Rightarrow> bool" where
  "reads h s W v d \<longleftrightarrow>
    (if is_a_map v then \<exists>ks w. W (vobject v) = Some ks \<and> mview s ks (voffset v) = Some w \<and> \<not> is_a_map w \<and> shown h s w d
     else shown h s v d)"

lemma view_fields: "is_a_map (view v a) = is_a_map v" "vobject (view v a) = vobject v" "voffset (view v a) = voffset v + (a - vstart v)"
  by (simp_all add: view_def)

lemma shown_kept:
  assumes "objs_kept s t" and "vobject v = 0 \<or> vobject v \<in> set (vm_object_list s)" and "shown h s v d"
  shows "shown h t v d"
  using assms unfolding objs_kept_def shown_def by metis

lemma reads_kept:
  assumes ok: "wok rest s W" and kept: "objs_kept s t" and old: "W old = Some es" "e \<in> set es"
    and same: "\<And>k ks x. W k = Some ks \<Longrightarrow> x \<in> set ks \<Longrightarrow> x \<noteq> e \<Longrightarrow> ent t x = ent s x"
    and W': "\<And>k. k \<in> dom W \<Longrightarrow> k \<noteq> new \<Longrightarrow> W' k = W k"
    and v: "is_a_map v \<Longrightarrow> vobject v \<in> dom W - {old, new}" "\<not> is_a_map v \<Longrightarrow> vobject v = 0 \<or> vobject v \<in> set (vm_object_list s)"
    and r: "reads h s W v d"
  shows "reads h t W' v d"
proof (cases "is_a_map v")
  case False
  then show ?thesis using r v(2) shown_kept [OF kept] by (simp add: reads_def)
next
  case True
  then obtain ks w where w: "W (vobject v) = Some ks" "mview s ks (voffset v) = Some w" "\<not> is_a_map w" "shown h s w d" using r by (auto simp: reads_def)
  have k: "vobject v \<noteq> old" "vobject v \<noteq> new" using v(1) [OF True] by auto
  have "x \<noteq> e" if "x \<in> set ks" for x using wok_apart [OF ok w(1) old(1) k(1) that] old(2) by blast
  then have "mview t ks (voffset v) = Some w"
    using w(2) same [OF w(1)] view_in_cong [of ks "ent t" "ent s"] by (simp add: mview_def)
  moreover obtain y where y: "y \<in> set ks" "w = view (ent s y) (voffset v)" using view_in_Some w(2) unfolding mview_def by metis
  then have "shown h t w d" using shown_kept [OF kept _ w(4)] wok_parts(5) [OF ok w(1) y(1)] w(3) by (simp add: view_fields)
  moreover have "W' (vobject v) = Some ks" using W' [of "vobject v"] w(1) k(2) by auto
  ultimately show ?thesis using True w(3) by (auto simp: reads_def)
qed

text \<open>One turn of the loop of \<^verbatim>\<open>vm_map_fork\<close>: what happens to the parent's entry \<open>e\<close> and to the rest of the world.\<close>

definition turn :: "ptr \<Rightarrow> ptr \<Rightarrow> eptr \<Rightarrow> 'a vm_maps_scheme \<Rightarrow> world \<Rightarrow> 'a vm_maps_scheme \<Rightarrow> world \<Rightarrow> bool" where
  "turn old new e s W t W' \<longleftrightarrow> (\<exists>a b q off. ent t e = (ent s e)\<lparr>is_a_map := a, vobject := q, voffset := off, needs_copy := b, copy_on_write := copy_on_write (ent t e)\<rparr>) \<and>
     (\<forall>k ks x. W k = Some ks \<and> x \<in> set ks \<and> x \<noteq> e \<longrightarrow> ent t x = ent s x) \<and> (\<forall>k\<in>dom W. ent t (Hdr k) = ent s (Hdr k)) \<and>
     (\<forall>k\<in>dom W. k \<noteq> new \<longrightarrow> W' k = W k) \<and> objs_kept s t \<and> vsize (vmap t old) = vsize (vmap s old) \<and>
     length (vm_map_zone s) \<le> Suc (length (vm_map_zone t)) \<and> length (object_zone s) \<le> Suc (length (object_zone t)) \<and>
     (is_a_map (ent t e) \<longrightarrow> vobject (ent t e) \<in> dom W' - {old, new}) \<and>
     (\<forall>h a d. covers (ent s e) a \<and> reads h s W (view (ent s e) a) d \<longrightarrow> reads h t W' (view (ent t e) a) d)"

text \<open>The child's entry \<open>w\<close>, made from the parent's entry \<open>v\<close>, which is \<open>v'\<close> afterwards.\<close>

definition child_of :: "vm_map_entry \<Rightarrow> vm_map_entry \<Rightarrow> vm_map_entry \<Rightarrow> bool" where
  "child_of v v' w \<longleftrightarrow> vstart w = vstart v \<and> vend w = vend v \<and> protection w = protection v \<and> max_protection w = max_protection v \<and>
     inheritance w = inheritance v \<and>
     (if inheritance v = VM_INHERIT_SHARE then is_a_map w \<and> w = v'
      else \<not> is_a_map w \<and> wired_count w = 0 \<and> needs_copy w \<and> copy_on_write w \<and> copy_on_write v' \<and>
        (vobject w = 0 \<or> needs_copy v' \<or> vobject w \<noteq> vobject v'))"

lemma copied_reads:
  assumes "copied q off d doff s t" and "shown h s v x" and "vobject v = q" and "voffset v = off + a"
    and "\<not> is_a_map w" "vobject w = d" "voffset w = doff + a"
  shows "reads h t W w x"
  using assms unfolding reads_def shown_def copied_def by metis

lemma fork_copy_turn:
  assumes ok: "wok rest s W" and P: "W old = Some es" and C: "W new = Some cs" and on: "old \<noteq> new" and e: "e \<in> set es"
    and v: "\<not> is_a_map (ent s e)" "\<not> is_sub_map (ent s e)" "wired_count (ent s e) = 0" and i: "inheritance (ent s e) = VM_INHERIT_COPY"
    and f: "fits_after new cs (ent s e) s" and rm: "room (Suc n) s" and z: "object_zone s \<noteq> []"
  shows "\<exists>t c. fork_copy (Suc k) priv old new e s = Inr (Some t) \<and> wok rest t (W(new \<mapsto> cs @ [c])) \<and> room n t \<and>
    turn old new e s W t (W(new \<mapsto> cs @ [c])) \<and> child_of (ent s e) (ent t e) (ent t c) \<and>
    (\<forall>h a d. reads h s W (view (ent s e) a) d \<longrightarrow> reads h t (W(new \<mapsto> cs @ [c])) (view (ent t c) a) d)"
proof -
  obtain t c where t: "fork_copy (Suc k) priv old new e s = Inr (Some t)" "copied_entry old e c s t" "wok rest t (W(new \<mapsto> cs @ [c]))" "room n t"
    using fork_copy_ok [OF ok P C on e v f rm z] by blast
  then obtain nc d doff where ce: "ent t = (ent s)(c := (ent s e)\<lparr>wired_count := 0, is_a_map := False, vobject := d, voffset := doff, needs_copy := True, copy_on_write := True\<rparr>,
                     e := (ent s e)\<lparr>needs_copy := nc \<or> needs_copy (ent s e), copy_on_write := True\<rparr>)"
      "copied (vobject (ent s e)) (voffset (ent s e)) d doff s t" "d = 0 \<or> nc \<or> d \<noteq> vobject (ent s e)" "objs_kept s t" "c \<in> zone_entries s"
      "vm_map_zone t = vm_map_zone s" "vsize (vmap t old) = vsize (vmap s old)" "length (object_zone s) \<le> Suc (length (object_zone t))"
    unfolding copied_entry_def by blast
  have out: "x \<noteq> c" if "W k = Some ks" "x \<in> set ks" for k ks x using wok_parts(7) [OF ok that] ce(5) by blast
  have ne: "e \<noteq> c" by (rule out [OF P e])
  have ee: "ent t e = (ent s e)\<lparr>needs_copy := nc \<or> needs_copy (ent s e), copy_on_write := True\<rparr>"
      "ent t c = (ent s e)\<lparr>wired_count := 0, is_a_map := False, vobject := d, voffset := doff, needs_copy := True, copy_on_write := True\<rparr>"
    using ne by (simp_all add: ce(1))
  have lv: "vobject (ent s e) = 0 \<or> vobject (ent s e) \<in> set (vm_object_list s)" by (rule wok_parts(5) [OF ok P e v(1)])
  let ?W = "W(new \<mapsto> cs @ [c])"
  have tn: "turn old new e s W t ?W"
    unfolding turn_def
  proof (intro conjI allI impI ballI)
    show "\<exists>a b q off. ent t e = (ent s e)\<lparr>is_a_map := a, vobject := q, voffset := off, needs_copy := b, copy_on_write := copy_on_write (ent t e)\<rparr>"
      by (intro exI [of _ False] exI [of _ "nc \<or> needs_copy (ent s e)"] exI [of _ "vobject (ent s e)"] exI [of _ "voffset (ent s e)"]) (use v(1) in \<open>simp add: ee(1)\<close>)
    show "ent t x = ent s x" if "W k = Some ks \<and> x \<in> set ks \<and> x \<noteq> e" for k ks x using that out by (auto simp: ce(1))
    show "ent t (Hdr k) = ent s (Hdr k)" for k using wok_parts(6) [OF ok P e] ce(5) by (auto simp: ce(1) zone_entries_def)
    show "reads h t ?W (view (ent t e) a) d" if "covers (ent s e) a \<and> reads h s W (view (ent s e) a) d" for h a d
    proof -
      have "shown h s (view (ent s e) a) d" using that v(1) by (simp add: reads_def view_fields)
      then have "shown h t (view (ent s e) a) d" by (rule shown_kept [OF ce(4), rotated]) (simp add: view_fields lv)
      then show ?thesis using v(1) by (simp add: reads_def view_def shown_def ee(1))
    qed
  qed (use ce v(1) ee(1) in auto)
  have "child_of (ent s e) (ent t e) (ent t c)" using ce(3) i by (auto simp: child_of_def ee VM_INHERIT_COPY_def VM_INHERIT_SHARE_def)
  moreover have "reads h t ?W (view (ent t c) a) x" if "reads h s W (view (ent s e) a) x" for h a x
    by (rule copied_reads [OF ce(2), of h "view (ent s e) a" x "a - vstart (ent s e)"])
       (use that v(1) in \<open>simp_all add: reads_def view_def ee(2)\<close>)
  ultimately show ?thesis using t tn by blast
qed

lemma link_ent: "ent (vm_map_entry_link m p e s) = ent s"
  by (simp add: vm_map_entry_link_def Let_def upd_map_def)

text \<open>The sharing map takes over the reference of the parent's entry.\<close>

lemma share_map_ok:
  assumes ok: "wok rest s W" and P: "W old = Some es" and e: "e \<in> set es" and v: "\<not> is_a_map (ent s e)"
    and rm: "room (Suc n) s" and z: "vm_map_zone s = k # ks"
  obtains p t where "fork_share_map e s = Inr t" "wok rest t (W(k \<mapsto> [Ent p]))" "k \<notin> dom W" "Ent p \<in> zone_entries s"
    "ent t e = (ent s e)\<lparr>is_a_map := True, vobject := k, voffset := vstart (ent s e)\<rparr>" "ent t (Ent p) = ent s e"
    "\<And>x. x \<notin> {e, Ent p, Hdr k} \<Longrightarrow> ent t x = ent s x" "objs_same s t" "room n t" "vm_map_zone t = ks" "zone_entries t \<subseteq> zone_entries s"
    "\<And>j. j \<noteq> k \<Longrightarrow> vsize (vmap t j) = vsize (vmap s j)"
proof -
  have w: "world s W" and cow: "cow_objs (\<lambda>q. wrefs s W q + rest q) s" using ok by (auto simp: wok_def)
  let ?v = "ent s e" and ?v' = "(ent s e)\<lparr>is_a_map := True, vobject := k, voffset := vstart (ent s e)\<rparr>"
  have "ordered (ent s) (vm_map_min old s) es (vm_map_max old s)" using wok_parts(1) [OF ok P] by (simp add: map_inv_def)
  then have lt: "vstart ?v < vend ?v" using ordered_bounds e by blast
  obtain t1 where c: "vm_map_create 0 (vstart ?v) (vend ?v) True s = Inr (k, t1)" "k \<notin> dom W" "world t1 (W(k \<mapsto> []))"
    "\<And>e. e \<noteq> Hdr k \<Longrightarrow> ent t1 e = ent s e" "\<And>q. wrefs t1 (W(k \<mapsto> [])) q = wrefs s W q" "objs_same s t1"
    "vm_map_zone t1 = ks" "vm_map_min k t1 = vstart ?v" "vm_map_max k t1 = vend ?v" "\<And>n. room n t1 = room n s" "\<And>j. j \<noteq> k \<Longrightarrow> vmap t1 j = vmap s j"
    by (rule create_map [OF w z, of "vstart ?v" "vend ?v" 0 True]) (use lt in auto)
  define t2 where "t2 = upd_map k (\<lambda>v. v\<lparr>is_main_map := False\<rparr>) t1"
  have f2: "ent t2 = ent t1" "zone_entries t2 = zone_entries t1" "vm_map_zone t2 = ks" "room m t2 = room m s" "vm_map_min k t2 = vstart ?v"
      "vm_map_max k t2 = vend ?v" "j \<noteq> k \<Longrightarrow> vmap t2 j = vmap s j" for m j
    using c(7-11) by (simp_all add: t2_def upd_map_def zone_entries_def room_def vm_map_min_def vm_map_max_def)
  have o2: "objs_same t1 t2" using objs_same_upd_map by (simp add: t2_def)
  have w2: "world t2 (W(k \<mapsto> []))" unfolding t2_def by (rule world_upd_map [OF c(3)]) simp_all
  have r2: "wrefs t2 (W(k \<mapsto> [])) q = wrefs s W q" for q using c(5) [of q] by (simp add: wrefs_def f2(1))
  have Wk: "(W(k \<mapsto> [])) k = Some []" by simp
  have k2: "map_inv t2 k []" "entries_free t2 []" using w2 Wk unfolding world_def by blast+
  have z2: "zone_entries t2 = zone_entries s" unfolding f2(2) using c(1) z by (auto simp: vm_map_create_def Let_def zone_entries_def upd_map_def upd_ent_def)
  obtain p u where A: "vm_map_entry_create k t2 = Inr (Ent p, u)" "Ent p \<in> zone_entries t2" "ent u = ent t2" "vprev u = vprev t2"
    "wstep k t2 [] (appended k p ?v u) [Ent p]" "ent (appended k p ?v u) = (ent t2)(Ent p := ?v)" "objs_same t2 (appended k p ?v u)"
    "room n (appended k p ?v u)" "vmap (appended k p ?v u) = (vmap t2)(k := (vmap t2 k)\<lparr>nentries := nentries (vmap t2 k) + 1\<rparr>)"
    by (rule append_entry [OF k2, of n ?v]) (use rm lt in \<open>simp_all add: f2\<close>)
  let ?t3 = "appended k p ?v u" and ?W = "W(k \<mapsto> [Ent p])"
  have Wk2: "(W(k \<mapsto> []))(k \<mapsto> [Ent p]) = ?W" by simp
  have w3: "world ?t3 ?W" using world_step(1) [OF w2 Wk A(5)] by (simp only: Wk2)
  have r3: "wrefs ?t3 ?W q = wrefs s W q + orefs ?v q" for q
    using wrefs_step [OF w2 Wk A(5), of q] unfolding Wk2 r2 by (simp add: ocnt_def A(6))
  have ne: "e \<noteq> Ent p" "e \<noteq> Hdr k" "k \<noteq> old" using wok_parts(6,7) [OF ok P e] A(2) z2 c(2) P by auto
  have e3: "ent ?t3 e = ?v" using ne c(4) by (simp add: A(6) f2(1))
  let ?t = "upd_ent e (\<lambda>_. ?v') ?t3"
  have W4: "?W old = Some es" "?W(old \<mapsto> es) = ?W" using P ne(3) by (auto simp: fun_eq_iff)
  have p3: "map_inv ?t3 old es" "entries_free ?t3 es" "distinct es" using w3 W4(1) unfolding world_def map_inv_def ring_def by blast+
  note U = update_entry [OF p3(1,2) e, of "\<lambda>_. ?v'"]
  have U': "wstep old ?t3 es ?t es" "objs_same ?t3 ?t" using U e3 by simp_all
  have w4: "world ?t ?W" using world_step(1) [OF w3 W4(1) U'(1)] by (simp only: W4(2))
  have et: "ent ?t = (ent t2)(Ent p := ?v, e := ?v')" by (simp add: upd_ent_def A(6))
  have "wrefs ?t ?W q = wrefs s W q" for q
  proof -
    have "ocnt (ent ?t) es q = ocnt (ent ?t3) es q - orefs (ent ?t3 e) q + orefs ?v' q"
      using ocnt_upd [OF e p3(3), of "ent ?t3" ?v' q] by (simp add: upd_ent_def)
    then show ?thesis using wrefs_step [OF w3 W4(1) U'(1), of q] unfolding W4(2) r3 by (simp add: e3 orefs_def)
  qed
  moreover have os: "objs_same s ?t" using c(6) o2 A(7) U'(2) objs_same_trans by blast
  ultimately have cw: "cow_objs (\<lambda>q. wrefs ?t ?W q + rest q) ?t" using objs_same_cow(1) [OF os] cow by simp
  have other: "ent ?t x = ent s x" if "x \<notin> {e, Ent p, Hdr k}" for x using that c(4) by (simp add: et f2(1))
  have "vobject (ent ?t x) = 0 \<or> vobject (ent ?t x) \<in> set (vm_object_list ?t)" if J: "?W j = Some js" "x \<in> set js" "\<not> is_a_map (ent ?t x)" for j js x
  proof -
    have l: "vm_object_list ?t = vm_object_list s" using os by (simp add: objs_same_def)
    have "x \<noteq> e" using J(3) by (auto simp: et)
    then consider "x = Ent p" | "j \<noteq> k" "x \<noteq> Ent p" "x \<noteq> e" using J(1,2) by (cases "j = k") auto
    then show ?thesis
    proof cases
      case 1
      then show ?thesis using wok_parts(5) [OF ok P e v] ne(1) l by (simp add: et)
    next
      case 2
      then have "W j = Some js" using J(1) by simp
      from wok_parts(5,6) [OF ok this J(2)] show ?thesis using other [of x] 2 J(3) l by auto
    qed
  qed
  then have "wok rest ?t ?W" using w4 cw unfolding wok_def by blast
  moreover have "fork_share_map e s = Inr ?t"
  proof -
    have "ent t2 e = ?v" using ne c(4) by (simp add: f2(1))
    then show ?thesis using v c(1) A(1) ne by (simp add: fork_share_map_def Let_def t2_def [symmetric] appended_def upd_ent_def A(3,4) link_ent)
  qed
  moreover have "zone_entries ?t \<subseteq> zone_entries s" "room n ?t" "vm_map_zone ?t = ks"
    using A(5,8) U'(1) z2 f2(3) by (auto simp: wstep_def room_def upd_ent_def)
  moreover have "vsize (vmap ?t j) = vsize (vmap s j)" if "j \<noteq> k" for j using that by (simp add: upd_ent_def A(9) f2(7))
  ultimately show ?thesis using that [of ?t p] c(2) A(2) z2 et ne other os by simp
qed

text \<open>The parent's entry leads to a sharing map, old or new.\<close>

definition shared_by :: "ptr \<Rightarrow> ptr \<Rightarrow> eptr \<Rightarrow> 'a vm_maps_scheme \<Rightarrow> world \<Rightarrow> 'a vm_maps_scheme \<Rightarrow> world \<Rightarrow> bool" where
  "shared_by old new e s W t W' \<longleftrightarrow> (\<exists>q off. ent t e = (ent s e)\<lparr>is_a_map := True, vobject := q, voffset := off\<rparr> \<and> q \<in> dom W' - {old, new}) \<and>
     (\<forall>k ks x. W k = Some ks \<and> x \<in> set ks \<and> x \<noteq> e \<longrightarrow> ent t x = ent s x) \<and> (\<forall>k\<in>dom W. ent t (Hdr k) = ent s (Hdr k) \<and> W' k = W k) \<and>
     objs_same s t \<and> zone_entries t \<subseteq> zone_entries s \<and> length (vm_map_zone s) \<le> Suc (length (vm_map_zone t)) \<and>
     vsize (vmap t old) = vsize (vmap s old) \<and>
     (\<forall>h a d. covers (ent s e) a \<and> reads h s W (view (ent s e) a) d \<longrightarrow> reads h t W' (view (ent t e) a) d)"

lemma share_prepare:
  assumes ok: "wok rest s W" and P: "W old = Some es" and C: "W new = Some cs" and e: "e \<in> set es"
    and sh: "is_a_map (ent s e) \<Longrightarrow> vobject (ent s e) \<in> dom W - {old, new}"
    and rm: "room (Suc n) s" and z: "vm_map_zone s \<noteq> []"
  shows "\<exists>t W'. fork_share_map e s = Inr t \<and> wok rest t W' \<and> shared_by old new e s W t W' \<and> room n t"
proof (cases "is_a_map (ent s e)")
  case True
  have "shared_by old new e s W s W"
    unfolding shared_by_def using sh [OF True] True objs_same_refl
    by (intro conjI exI [of _ "vobject (ent s e)"] exI [of _ "voffset (ent s e)"]) simp_all
  moreover have "room n s" using rm by (simp add: room_def)
  ultimately show ?thesis using True ok by (intro exI [of _ s] exI [of _ W]) (simp add: fork_share_map_def)
next
  case False
  obtain k zs where "vm_map_zone s = k # zs" using z by (cases "vm_map_zone s") auto
  from share_map_ok [OF ok P e False rm this] obtain p t where
    t: "fork_share_map e s = Inr t" "wok rest t (W(k \<mapsto> [Ent p]))" "k \<notin> dom W" "Ent p \<in> zone_entries s"
      "ent t e = (ent s e)\<lparr>is_a_map := True, vobject := k, voffset := vstart (ent s e)\<rparr>" "ent t (Ent p) = ent s e"
      "\<And>x. x \<notin> {e, Ent p, Hdr k} \<Longrightarrow> ent t x = ent s x" "objs_same s t" "room n t" "vm_map_zone t = zs" "zone_entries t \<subseteq> zone_entries s"
      "\<And>j. j \<noteq> k \<Longrightarrow> vsize (vmap t j) = vsize (vmap s j)"
    by (metis (no_types, lifting))
  let ?W = "W(k \<mapsto> [Ent p])"
  have k: "k \<noteq> old" "k \<noteq> new" using t(3) P C by auto
  have "shared_by old new e s W t ?W"
    unfolding shared_by_def
  proof (intro conjI allI impI ballI)
    show "\<exists>q off. ent t e = (ent s e)\<lparr>is_a_map := True, vobject := q, voffset := off\<rparr> \<and> q \<in> dom ?W - {old, new}" using t(5) k by auto
    show "ent t x = ent s x" if "W j = Some js \<and> x \<in> set js \<and> x \<noteq> e" for j js x
      using that wok_parts(6,7) [OF ok, of j js x] t(4) by (intro t(7)) auto
    show "ent t (Hdr j) = ent s (Hdr j)" if "j \<in> dom W" for j
      using that t(3,4) wok_parts(6) [OF ok P e] by (intro t(7)) (auto simp: zone_entries_def)
    show "?W j = W j" if "j \<in> dom W" for j using that t(3) by auto
    show "reads h t ?W (view (ent t e) a) d" if r: "covers (ent s e) a \<and> reads h s W (view (ent s e) a) d" for h a d
    proof -
      have "shown h s (view (ent s e) a) d" using r False by (simp add: reads_def view_fields)
      then have "shown h t (view (ent s e) a) d"
        by (rule shown_kept [OF objs_same_cow(2) [OF t(8)], rotated]) (use wok_parts(5) [OF ok P e False] in \<open>simp add: view_fields\<close>)
      moreover have "mview t [Ent p] a = Some (view (ent s e) a)" using r by (simp add: mview_def t(6))
      ultimately show ?thesis using False unfolding reads_def view_fields t(5) by (simp add: view_fields)
    qed
  qed (use t(8,10-12) k \<open>vm_map_zone s = k # zs\<close> in auto)
  then show ?thesis using t(1,2,9) by blast
qed

lemma link_reference:
  "vm_map_entry_link m p e (vm_map_reference k s) = vm_map_reference k (vm_map_entry_link m p e s)"
proof (rule vm_maps.equality)
  let ?l = "vm_map_entry_link m p e (vm_map_reference k s)" and ?r = "vm_map_reference k (vm_map_entry_link m p e s)"
  show "vmap ?l = vmap ?r"
    by (rule ext, rule vm_map.equality) (simp_all add: vm_map_entry_link_def vm_map_reference_def upd_map_def Let_def)
qed (simp_all add: vm_map_entry_link_def vm_map_reference_def upd_map_def Let_def)

lemma objs_same_reference: "objs_same s (vm_map_reference k s)"
  by (rule objs_same_truncate) (simp add: vm_map_reference_def upd_map_def vm_objs.truncate_def)

lemma fork_share_turn:
  assumes ok: "wok rest s W" and P: "W old = Some es" and C: "W new = Some cs" and on: "old \<noteq> new" and e: "e \<in> set es"
    and sh: "is_a_map (ent s e) \<Longrightarrow> vobject (ent s e) \<in> dom W - {old, new}" and i: "inheritance (ent s e) = VM_INHERIT_SHARE"
    and f: "fits_after new cs (ent s e) s" and rm: "room (Suc (Suc n)) s" and z: "vm_map_zone s \<noteq> []"
  shows "\<exists>t c W'. fork_share old new e s = Inr (Some t) \<and> wok rest t W' \<and> room n t \<and> W' new = Some (cs @ [c]) \<and>
    turn old new e s W t W' \<and> child_of (ent s e) (ent t e) (ent t c)"
proof -
  obtain u W1 where u: "fork_share_map e s = Inr u" "wok rest u W1" "shared_by old new e s W u W1" "room (Suc n) u"
    using share_prepare [OF ok P C e sh rm z] by blast
  obtain q off where q: "ent u e = (ent s e)\<lparr>is_a_map := True, vobject := q, voffset := off\<rparr>" "q \<in> dom W1 - {old, new}"
    using u(3) unfolding shared_by_def by blast
  have sb: "\<And>k ks x. W k = Some ks \<Longrightarrow> x \<in> set ks \<Longrightarrow> x \<noteq> e \<Longrightarrow> ent u x = ent s x" "\<And>k. k \<in> dom W \<Longrightarrow> ent u (Hdr k) = ent s (Hdr k) \<and> W1 k = W k"
      "objs_same s u" "length (vm_map_zone s) \<le> Suc (length (vm_map_zone u))" "vsize (vmap u old) = vsize (vmap s old)" "zone_entries u \<subseteq> zone_entries s"
      "\<And>h a d. covers (ent s e) a \<Longrightarrow> reads h s W (view (ent s e) a) d \<Longrightarrow> reads h u W1 (view (ent u e) a) d"
    using u(3) unfolding shared_by_def by blast+
  have W1: "W1 new = Some cs" "W1 old = Some es" using sb(2) [of new] sb(2) [of old] P C by auto
  have cse: "x \<noteq> e" if "x \<in> set cs" for x using wok_apart [OF ok P C on e] that by blast
  have fit: "fits_after new cs (ent u e) u"
    using f sb(1) [OF C _ cse] sb(2) [OF domI [of W, OF C]] unfolding fits_after_def q(1) by (auto simp: vm_map_min_def vm_map_max_def)
  have mv: "is_a_map (ent u e) \<or> vobject (ent u e) = 0" using q(1) by simp
  obtain p w where A: "vm_map_entry_create new u = Inr (Ent p, w)" "Ent p \<in> zone_entries u" "ent w = ent u"
      "vprev w = vprev u" "wok rest (appended new p (ent u e) w) (W1(new \<mapsto> cs @ [Ent p]))" "ent (appended new p (ent u e) w) = (ent u)(Ent p := ent u e)"
      "room n (appended new p (ent u e) w)" "objs_same u (appended new p (ent u e) w)" "vm_map_zone (appended new p (ent u e) w) = vm_map_zone u"
      "\<And>k. vsize (vmap (appended new p (ent u e) w) k) = vsize (vmap u k)"
    by (rule wok_append [OF u(2) W1(1) u(4) fit mv]) blast
  let ?c = "Ent p" and ?t1 = "appended new p (ent u e) w" and ?W = "W1(new \<mapsto> cs @ [Ent p])"
  let ?t2 = "vm_map_reference q ?t1"
  have out: "x \<noteq> ?c" if "W1 k = Some ks" "x \<in> set ks" for k ks x using wok_parts(7) [OF u(2) that] A(2) by blast
  have ne: "e \<noteq> ?c" by (rule out [OF W1(2) e])
  define t where "t = pmap_do (PmapCopy (pmap (vmap ?t2 new)) (pmap (vmap ?t2 old)) (vstart (ent ?t2 ?c))
      (vend (ent ?t2 e) - vstart (ent ?t2 e)) (vstart (ent ?t2 e))) ?t2"
  have ms: "maps_same ?t1 t" and os: "objs_same ?t1 t"
    using maps_same_trans [OF map_reference_same pmap_do_maps_same] objs_same_trans [OF objs_same_reference objs_same_pmap] by (simp_all add: t_def)
  note D = maps_sameD [OF ms]
  have et: "ent t = (ent u)(?c := ent u e)" using D(1) A(6) by simp
  have ost: "objs_same s t" using sb(3) A(8) os objs_same_trans by blast
  let ?w = "upd_ent ?c (\<lambda>_. ent u e) w"
  have "vprev (vm_map_reference q ?w) = vprev w" "vobject (ent ?w ?c) = q" using q(1) by (simp_all add: vm_map_reference_def upd_map_def upd_ent_def)
  then have "vm_map_entry_link new (vprev (vm_map_reference (vobject (ent ?w ?c)) ?w) (Hdr new)) ?c (vm_map_reference (vobject (ent ?w ?c)) ?w) = ?t2"
    by (simp add: link_reference appended_def)
  then have run: "fork_share old new e s = Inr (Some t)" using u(1) A(1) by (simp add: fork_share_def Let_def t_def A(3))
  have tn: "turn old new e s W t ?W"
    unfolding turn_def
  proof (intro conjI allI impI ballI)
    show "\<exists>a b q off. ent t e = (ent s e)\<lparr>is_a_map := a, vobject := q, voffset := off, needs_copy := b, copy_on_write := copy_on_write (ent t e)\<rparr>"
      by (intro exI [of _ True] exI [of _ "needs_copy (ent s e)"] exI [of _ q] exI [of _ off]) (use ne q(1) in \<open>simp add: et\<close>)
    show "ent t x = ent s x" if "W k = Some ks \<and> x \<in> set ks \<and> x \<noteq> e" for k ks x
      using that sb(1) [of k ks x] sb(2) [of k] out [of k ks x] by (auto simp: et)
    show "ent t (Hdr k) = ent s (Hdr k)" if "k \<in> dom W" for k using sb(2) [OF that] A(2) by (auto simp: et zone_entries_def)
    show "?W k = W k" if "k \<in> dom W" "k \<noteq> new" for k using sb(2) [OF that(1)] that by auto
    show "vobject (ent t e) \<in> dom ?W - {old, new}" using q ne by (simp add: et)
    show "reads h t ?W (view (ent t e) a) d" if r: "covers (ent s e) a \<and> reads h s W (view (ent s e) a) d" for h a d
    proof -
      have "reads h t ?W (view (ent u e) a) d"
        by (rule reads_kept [OF u(2) objs_same_cow(2) W1(2) e])
           (use A(8) os objs_same_trans r sb(7) q out in \<open>auto simp: et view_fields\<close>)
      then show ?thesis using ne by (simp add: et)
    qed
    show "objs_kept s t" by (rule objs_same_cow(2) [OF ost])
    show "length (vm_map_zone s) \<le> Suc (length (vm_map_zone t))" using sb(4) A(9) ms by (simp add: maps_same_def)
    show "length (object_zone s) \<le> Suc (length (object_zone t))" using ost by (simp add: objs_same_def)
    show "vsize (vmap t old) = vsize (vmap s old)" using D(8) A(10) sb(5) by simp
  qed
  have "child_of (ent s e) (ent t e) (ent t ?c)" using i ne by (simp add: child_of_def et q(1))
  moreover have "wok rest t ?W" by (rule wok_same [OF A(5) os ms])
  moreover have "room n t" using A(7) ms by (simp add: room_def maps_same_def)
  moreover have "?W new = Some (cs @ [?c])" by simp
  ultimately show ?thesis using run tn by blast
qed

end
