(* ===== verification/VmMapFork.thy ===== *)
theory VmMapFork
  imports VmMapInherit
begin

text \<open>
  \<^verbatim>\<open>vm_map_fork\<close>: the child's map.  Every address of the child shows what its parent showed, or nothing, as the
  inheritance of the address says; shared addresses lead both maps to the same sharing map; copied ones are ready for
  copy on write; and the reference counts are again exact.
\<close>

subsection \<open>The loop\<close>

definition inherited :: "vm_map_entry \<Rightarrow> bool" where
  "inherited v \<longleftrightarrow> inheritance v = VM_INHERIT_SHARE \<or> inheritance v = VM_INHERIT_COPY"

text \<open>The entry \<open>w\<close> of the state \<open>t\<close> reads what the entry \<open>v\<close> read in \<open>s\<close>.\<close>

definition same_data :: "'a vm_maps_scheme \<Rightarrow> world \<Rightarrow> vm_map_entry \<Rightarrow> 'a vm_maps_scheme \<Rightarrow> world \<Rightarrow> vm_map_entry \<Rightarrow> bool" where
  "same_data s W v t W' w \<longleftrightarrow> (\<forall>h a d. covers v a \<and> reads h s W (view v a) d \<longrightarrow> reads h t W' (view w a) d)"

definition entry_kept :: "vm_map_entry \<Rightarrow> vm_map_entry \<Rightarrow> bool" where
  "entry_kept v v' \<longleftrightarrow> (\<exists>a b c q off. v' = v\<lparr>is_a_map := a, vobject := q, voffset := off, needs_copy := b, copy_on_write := c\<rparr>)"

lemma entry_keptD:
  "entry_kept v v' \<Longrightarrow> vstart v' = vstart v \<and> vend v' = vend v \<and> protection v' = protection v \<and> max_protection v' = max_protection v \<and>
     inheritance v' = inheritance v \<and> wired_count v' = wired_count v \<and> is_sub_map v' = is_sub_map v"
  by (auto simp: entry_kept_def)

lemma entry_kept_refl: "entry_kept v v"
  unfolding entry_kept_def
  by (intro exI [of _ "is_a_map v"] exI [of _ "needs_copy v"] exI [of _ "copy_on_write v"] exI [of _ "vobject v"] exI [of _ "voffset v"]) simp

text \<open>The state of the loop: the entries \<open>ds\<close> of the parent are done, \<open>ts\<close> are still to be done, the child has \<open>cs\<close>.\<close>

definition forked_upto where
  "forked_upto rest old new s0 W0 ds ts s W cs \<longleftrightarrow> wok rest s W \<and> W old = Some (ds @ ts) \<and> W new = Some cs \<and> old \<noteq> new \<and>
     (\<forall>k\<in>dom W0. W k = W0 k) \<and> (\<forall>e\<in>set ts. ent s e = ent s0 e) \<and> vm_map_min new s = vm_map_min old s \<and> vm_map_max new s = vm_map_max old s \<and>
     vsize (vmap s old) = vsize (vmap s0 old) \<and>
     (\<forall>e\<in>set (ds @ ts). entry_kept (ent s0 e) (ent s e) \<and> (is_a_map (ent s e) \<longrightarrow> vobject (ent s e) \<in> dom W - {old, new}) \<and>
        same_data s0 W0 (ent s0 e) s W (ent s e)) \<and>
     list_all2 (\<lambda>e c. child_of (ent s0 e) (ent s e) (ent s c) \<and> same_data s0 W0 (ent s0 e) s W (ent s c)) (filter (\<lambda>e. inherited (ent s0 e)) ds) cs"

lemma list_all2_right: "list_all2 R xs ys \<Longrightarrow> x \<in> set xs \<Longrightarrow> \<exists>y\<in>set ys. R x y"
  by (induction rule: list_all2_induct) auto

lemma list_all2_left: "list_all2 R xs ys \<Longrightarrow> y \<in> set ys \<Longrightarrow> \<exists>x\<in>set xs. R x y"
  by (induction rule: list_all2_induct) auto

text \<open>A turn leaves the data of every other entry of the two maps alone.\<close>

lemma turn_same_data:
  assumes ok: "wok rest s W" and old: "W old = Some es" "e \<in> set es" and tn: "turn old new e s W t W'"
    and x: "W k = Some ks" "x \<in> set ks" "x \<noteq> e" and m: "is_a_map (ent s x) \<longrightarrow> vobject (ent s x) \<in> dom W - {old, new}"
    and d: "same_data s0 W0 v s W (ent s x)"
  shows "same_data s0 W0 v t W' (ent t x)"
proof -
  have T: "objs_kept s t" "\<And>k ks x. W k = Some ks \<Longrightarrow> x \<in> set ks \<Longrightarrow> x \<noteq> e \<Longrightarrow> ent t x = ent s x" "\<And>k. k \<in> dom W \<Longrightarrow> k \<noteq> new \<Longrightarrow> W' k = W k"
    using tn unfolding turn_def by blast+
  have "reads h t W' (view (ent s x) a) b" if "reads h s W (view (ent s x) a) b" for h a b
    by (rule reads_kept [OF ok T(1) old T(2,3) _ _ that]) (use m wok_parts(5) [OF ok x(1,2)] in \<open>auto simp: view_fields\<close>)
  then show ?thesis using d T(2) [OF x] by (simp add: same_data_def)
qed

lemma turn_advance:
  assumes up: "forked_upto rest old new s0 W0 ds (e # ts) s W cs" and new: "new \<notin> dom W0" and ok: "wok rest t W'" and tn: "turn old new e s W t W'"
    and c: "if inherited (ent s0 e) then \<exists>c. cs' = cs @ [c] \<and> child_of (ent s e) (ent t e) (ent t c) \<and> same_data s W (ent s e) t W' (ent t c)
      else cs' = cs" and W': "W' new = Some cs'"
  shows "forked_upto rest old new s0 W0 (ds @ [e]) ts t W' cs'"
proof -
  let ?D = "\<lambda>s W e c. child_of (ent s0 e) (ent s e) (ent s c) \<and> same_data s0 W0 (ent s0 e) s W (ent s c)"
  have U: "wok rest s W" "W old = Some (ds @ e # ts)" "W new = Some cs" "old \<noteq> new" "\<And>k. k \<in> dom W0 \<Longrightarrow> W k = W0 k"
      "\<And>x. x \<in> set (e # ts) \<Longrightarrow> ent s x = ent s0 x" "vm_map_min new s = vm_map_min old s" "vm_map_max new s = vm_map_max old s"
      "vsize (vmap s old) = vsize (vmap s0 old)" "\<And>x. x \<in> set (ds @ e # ts) \<Longrightarrow> entry_kept (ent s0 x) (ent s x)"
      "\<And>x. x \<in> set (ds @ e # ts) \<Longrightarrow> is_a_map (ent s x) \<Longrightarrow> vobject (ent s x) \<in> dom W - {old, new}"
      "\<And>x. x \<in> set (ds @ e # ts) \<Longrightarrow> same_data s0 W0 (ent s0 x) s W (ent s x)"
      "list_all2 (?D s W) (filter (\<lambda>e. inherited (ent s0 e)) ds) cs"
    using up unfolding forked_upto_def by blast+
  have T: "\<And>k ks x. W k = Some ks \<Longrightarrow> x \<in> set ks \<Longrightarrow> x \<noteq> e \<Longrightarrow> ent t x = ent s x" "\<And>k. k \<in> dom W \<Longrightarrow> ent t (Hdr k) = ent s (Hdr k)"
      "\<And>k. k \<in> dom W \<Longrightarrow> k \<noteq> new \<Longrightarrow> W' k = W k" "vsize (vmap t old) = vsize (vmap s old)"
      "is_a_map (ent t e) \<Longrightarrow> vobject (ent t e) \<in> dom W' - {old, new}" "same_data s W (ent s e) t W' (ent t e)" "entry_kept (ent s e) (ent t e)"
    using tn unfolding turn_def same_data_def entry_kept_def by blast+
  have e0: "ent s e = ent s0 e" "e \<in> set (ds @ e # ts)" using U(6) by simp_all
  note keep = turn_same_data [OF U(1,2) e0(2) tn]
  have dist: "distinct (ds @ e # ts)" by (rule wok_parts(3) [OF U(1,2)])
  have cse: "x \<noteq> e" if "x \<in> set cs" for x using wok_apart [OF U(1,2,3,4) e0(2)] that by blast
  have sd: "same_data s0 W0 (ent s0 e) t W' w" if "same_data s W (ent s e) t W' w" for w
    using U(12) [OF e0(2)] that unfolding same_data_def e0(1) by blast
  have ents: "entry_kept (ent s0 x) (ent t x) \<and> (is_a_map (ent t x) \<longrightarrow> vobject (ent t x) \<in> dom W' - {old, new}) \<and>
      same_data s0 W0 (ent s0 x) t W' (ent t x)" if x: "x \<in> set (ds @ e # ts)" for x
  proof (cases "x = e")
    case True
    then show ?thesis using T(5,7) sd [OF T(6)] e0(1) by simp
  next
    case False
    have "dom W - {old, new} \<subseteq> dom W' - {old, new}" using T(3) by (metis (no_types, lifting) DiffD1 DiffD2 DiffI domD domI insertCI subsetI)
    then show ?thesis using T(1) [OF U(2) x False] U(10,11) [OF x] keep [OF U(2) x False _ U(12) [OF x]] by auto
  qed
  have old_children: "list_all2 (?D t W') (filter (\<lambda>e. inherited (ent s0 e)) ds) cs"
    using U(13)
  proof (rule list.rel_mono_strong)
    fix x c assume x: "x \<in> set (filter (\<lambda>e. inherited (ent s0 e)) ds)" and c: "c \<in> set cs" and r: "?D s W x c"
    have xs: "x \<in> set (ds @ e # ts)" "x \<noteq> e" using x dist by auto
    note same = T(1) [OF U(2) xs] T(1) [OF U(3) c cse [OF c]]
    have "is_a_map (ent s c) \<longrightarrow> vobject (ent s c) \<in> dom W - {old, new}" using r U(11) [OF xs(1)] by (auto simp: child_of_def split: if_splits)
    from keep [OF U(3) c cse [OF c] this] r show "?D t W' x c" by (simp add: same)
  qed
  have children: "list_all2 (?D t W') (filter (\<lambda>e. inherited (ent s0 e)) (ds @ [e])) cs'"
  proof (cases "inherited (ent s0 e)")
    case True
    then obtain d where d: "cs' = cs @ [d]" "child_of (ent s e) (ent t e) (ent t d)" "same_data s W (ent s e) t W' (ent t d)" using c by auto
    then have "?D t W' e d" using sd [OF d(3)] e0(1) by simp
    then show ?thesis using True old_children d(1) by (simp add: list_all2_appendI)
  next
    case False
    then show ?thesis using c old_children by simp
  qed
  have dm: "old \<in> dom W" "new \<in> dom W" using U(2,3) by auto
  have "W' old = Some ((ds @ [e]) @ ts)" using T(3) [OF dm(1) U(4)] U(2) by simp
  moreover have "W' k = W0 k" if "k \<in> dom W0" for k using T(3) [of k] U(5) [OF that] that new by (metis domD domI)
  moreover have "ent t x = ent s0 x" if "x \<in> set ts" for x using T(1) [OF U(2), of x] U(6) [of x] that dist by auto
  moreover have "vm_map_min new t = vm_map_min old t" "vm_map_max new t = vm_map_max old t" using U(7,8) T(2) [OF dm(1)] T(2) [OF dm(2)]
    by (simp_all add: vm_map_min_def vm_map_max_def)
  ultimately show ?thesis unfolding forked_upto_def using ok W' U(4,9) T(4) ents children by auto
qed

lemma next_fits:
  assumes up: "forked_upto rest old new s0 W0 ds (e # ts) s W cs"
  shows "fits_after new cs (ent s e) s"
proof -
  have U: "wok rest s W" "W old = Some (ds @ e # ts)" "vm_map_min new s = vm_map_min old s" "vm_map_max new s = vm_map_max old s"
      "\<And>x. x \<in> set (ds @ e # ts) \<Longrightarrow> entry_kept (ent s0 x) (ent s x)"
      "list_all2 (\<lambda>e c. child_of (ent s0 e) (ent s e) (ent s c) \<and> same_data s0 W0 (ent s0 e) s W (ent s c)) (filter (\<lambda>e. inherited (ent s0 e)) ds) cs"
    using up unfolding forked_upto_def by blast+
  have ord: "ordered (ent s) (vm_map_min old s) (ds @ e # ts) (vm_map_max old s)" using wok_parts(1) [OF U(1,2)] by (simp add: map_inv_def)
  have "vend (ent s c) \<le> vstart (ent s e)" if c: "c \<in> set cs" for c
  proof -
    obtain x where x: "x \<in> set ds" "child_of (ent s0 x) (ent s x) (ent s c)" using list_all2_left [OF U(6) c] by auto
    then have "vend (ent s c) = vend (ent s x)" using entry_keptD [OF U(5) [of x]] by (simp add: child_of_def)
    then show ?thesis using ordered_before(1) [OF ord x(1)] by simp
  qed
  moreover have "vm_map_min old s \<le> vstart (ent s e) \<and> vstart (ent s e) < vend (ent s e) \<and> vend (ent s e) \<le> vm_map_max old s" using ordered_bounds [OF ord] by simp
  ultimately show ?thesis using U(3,4) by (simp add: fits_after_def)
qed

text \<open>Entries that \<^verbatim>\<open>vm_map_fork\<close> copies without waiting for pages and without looking into a sharing map.\<close>

definition forkable :: "vm_map_entry \<Rightarrow> bool" where
  "forkable v \<longleftrightarrow> \<not> is_sub_map v \<and> (inheritance v = VM_INHERIT_COPY \<longrightarrow> \<not> is_a_map v \<and> wired_count v = 0)"

definition fork_turn :: "nat \<Rightarrow> bool \<Rightarrow> ptr \<Rightarrow> ptr \<Rightarrow> eptr \<Rightarrow> 'a vm_maps_scheme \<Rightarrow> 'a vm_maps_scheme option kresult" where
  "fork_turn n priv old_map new_map old_entry s =
    (if inheritance (ent s old_entry) = VM_INHERIT_SHARE then fork_share old_map new_map old_entry s
     else if inheritance (ent s old_entry) = VM_INHERIT_COPY then fork_copy n priv old_map new_map old_entry s
     else Inr (Some s))"

lemma turn_refl:
  assumes "is_a_map (ent s e) \<Longrightarrow> vobject (ent s e) \<in> dom W - {old, new}"
  shows "turn old new e s W s W"
proof -
  have "\<exists>a b q off. ent s e = (ent s e)\<lparr>is_a_map := a, vobject := q, voffset := off, needs_copy := b, copy_on_write := copy_on_write (ent s e)\<rparr>"
    by (intro exI [of _ "is_a_map (ent s e)"] exI [of _ "needs_copy (ent s e)"] exI [of _ "vobject (ent s e)"] exI [of _ "voffset (ent s e)"]) simp
  then show ?thesis unfolding turn_def using assms objs_kept_refl by (auto simp del: vm_map_entry.update_convs)
qed

lemma fork_turn_ok:
  assumes up: "forked_upto rest old new s0 W0 ds (e # ts) s W cs" and new: "new \<notin> dom W0" and fk: "forkable (ent s0 e)"
    and rm: "room (Suc (Suc n)) s" and z: "vm_map_zone s \<noteq> []" "object_zone s \<noteq> []"
  shows "\<exists>t W' cs'. fork_turn (Suc k) priv old new e s = Inr (Some t) \<and> forked_upto rest old new s0 W0 (ds @ [e]) ts t W' cs' \<and> room n t \<and>
    length (vm_map_zone s) \<le> Suc (length (vm_map_zone t)) \<and> length (object_zone s) \<le> Suc (length (object_zone t))"
proof -
  have U: "wok rest s W" "W old = Some (ds @ e # ts)" "W new = Some cs" "old \<noteq> new" "ent s e = ent s0 e"
      "is_a_map (ent s e) \<Longrightarrow> vobject (ent s e) \<in> dom W - {old, new}"
    using up unfolding forked_upto_def by auto
  have e: "e \<in> set (ds @ e # ts)" by simp
  note fit = next_fits [OF up]
  have rm': "room (Suc n) s" "room n s" using rm by (simp_all add: room_def)
  have len: "length (vm_map_zone s) \<le> Suc (length (vm_map_zone t)) \<and> length (object_zone s) \<le> Suc (length (object_zone t))" if "turn old new e s W t W'" for t W'
    using that unfolding turn_def by blast
  consider (share) "inheritance (ent s e) = VM_INHERIT_SHARE" | (copy) "inheritance (ent s e) = VM_INHERIT_COPY" | (none) "\<not> inherited (ent s e)"
    by (auto simp: inherited_def)
  then show ?thesis
  proof cases
    case share
    obtain t c W' where t: "fork_share old new e s = Inr (Some t)" "wok rest t W'" "room n t" "W' new = Some (cs @ [c])"
        "turn old new e s W t W'" "child_of (ent s e) (ent t e) (ent t c)"
      using fork_share_turn [OF U(1-4) e U(6) share fit rm z(1)] by blast
    have "ent t c = ent t e" using t(6) share by (simp add: child_of_def)
    then have "same_data s W (ent s e) t W' (ent t c)" using t(5) unfolding turn_def same_data_def by simp
    then have "forked_upto rest old new s0 W0 (ds @ [e]) ts t W' (cs @ [c])"
      using share U(5) t(6) by (intro turn_advance [OF up new t(2,5) _ t(4)]) (auto simp: inherited_def)
    then show ?thesis using t(1,3) share len [OF t(5)] by (auto simp: fork_turn_def)
  next
    case copy
    have v: "\<not> is_a_map (ent s e)" "\<not> is_sub_map (ent s e)" "wired_count (ent s e) = 0" using fk copy U(5) by (simp_all add: forkable_def)
    obtain t c where t: "fork_copy (Suc k) priv old new e s = Inr (Some t)" "wok rest t (W(new \<mapsto> cs @ [c]))" "room n t"
        "turn old new e s W t (W(new \<mapsto> cs @ [c]))" "child_of (ent s e) (ent t e) (ent t c)"
        "\<And>h a d. reads h s W (view (ent s e) a) d \<Longrightarrow> reads h t (W(new \<mapsto> cs @ [c])) (view (ent t c) a) d"
      using fork_copy_turn [OF U(1-4) e v copy fit rm'(1) z(2)] by blast
    have "same_data s W (ent s e) t (W(new \<mapsto> cs @ [c])) (ent t c)" using t(6) by (simp add: same_data_def)
    then have "forked_upto rest old new s0 W0 (ds @ [e]) ts t (W(new \<mapsto> cs @ [c])) (cs @ [c])"
      using copy U(5) t(5) by (intro turn_advance [OF up new t(2,4)]) (auto simp: inherited_def)
    moreover have "fork_turn (Suc k) priv old new e s = Inr (Some t)" using t(1) copy by (simp add: fork_turn_def VM_INHERIT_COPY_def VM_INHERIT_SHARE_def)
    ultimately show ?thesis using t(3) len [OF t(4)] by blast
  next
    case none
    have "forked_upto rest old new s0 W0 (ds @ [e]) ts s W cs"
      using none U(5) by (intro turn_advance [OF up new U(1) turn_refl [OF U(6)] _ U(3)]) simp_all
    moreover have "fork_turn (Suc k) priv old new e s = Inr (Some s)" using none by (simp add: fork_turn_def inherited_def)
    ultimately show ?thesis using rm'(2) by (intro exI [of _ s] exI [of _ W] exI [of _ cs]) simp
  qed
qed

lemma fork_walk_ok:
  assumes "forked_upto rest old new s0 W0 ds ts s W cs" and new: "new \<notin> dom W0" and "\<And>e. e \<in> set ts \<Longrightarrow> forkable (ent s0 e)"
    and "room (2 * length ts) s" and "length ts \<le> length (vm_map_zone s)" "length ts \<le> length (object_zone s)" and "length ts + 1 < n"
  shows "\<exists>t W' cs'. fork_walk n priv old new (hd (ts @ [Hdr old])) s = Inr (Some t) \<and> forked_upto rest old new s0 W0 (ds @ ts) [] t W' cs'"
  using assms(1,3-)
proof (induction ts arbitrary: ds s W cs n)
  case Nil
  then obtain m where "n = Suc m" by (cases n) auto
  then show ?case using Nil by auto
next
  case (Cons e ts)
  then obtain m where n: "n = Suc (Suc m)" "length ts + 1 < Suc m" by (cases n; cases "n - 1") auto
  have z: "vm_map_zone s \<noteq> []" "object_zone s \<noteq> []" "room (Suc (Suc (2 * length ts))) s" using Cons.prems(3-5) by auto
  obtain t W' cs' where t: "fork_turn (Suc m) priv old new e s = Inr (Some t)" "forked_upto rest old new s0 W0 (ds @ [e]) ts t W' cs'" "room (2 * length ts) t"
      "length (vm_map_zone s) \<le> Suc (length (vm_map_zone t))" "length (object_zone s) \<le> Suc (length (object_zone t))"
    using fork_turn_ok [OF Cons.prems(1) new _ z(3,1,2)] Cons.prems(2) by (metis list.set_intros(1))
  have U: "wok rest s W" "W old = Some (ds @ e # ts)" "ent s e = ent s0 e" using Cons.prems(1) unfolding forked_upto_def by auto
  have T: "wok rest t W'" "W' old = Some (ds @ e # ts)" using t(2) unfolding forked_upto_def by auto
  have "ring t old (ds @ e # ts)" using wok_parts(1) [OF T] by (simp add: map_inv_def)
  then have nx: "vnext t e = hd (ts @ [Hdr old])" by (rule ring_next(1))
  have "fork_walk n priv old new e s = rbind (fork_turn (Suc m) priv old new e s) (\<lambda>s. fork_walk (Suc m) priv old new (vnext s e) s)"
    using wok_parts(6) [OF U(1,2), of e] Cons.prems(2) [of e] U(3) unfolding n(1) fork_walk.simps(2) [of "Suc m"] fork_turn_def [symmetric] by (simp add: forkable_def)
  then have "fork_walk n priv old new e s = fork_walk (Suc m) priv old new (hd (ts @ [Hdr old])) t" using t(1) nx by simp
  moreover have "\<exists>u W' cs'. fork_walk (Suc m) priv old new (hd (ts @ [Hdr old])) t = Inr (Some u) \<and> forked_upto rest old new s0 W0 ((ds @ [e]) @ ts) [] u W' cs'"
    using Cons.prems t n(2) by (intro Cons.IH [OF t(2)]) auto
  ultimately show ?case by simp
qed

subsection \<open>The child's map\<close>

lemma wok_create:
  assumes ok: "wok rest s W" and z: "vm_map_zone s = k # ks" and lo: "lo \<le> hi"
  obtains t where "vm_map_create pm lo hi pg s = Inr (k, t)" "k \<notin> dom W" "wok rest t (W(k \<mapsto> []))"
    "\<And>e. e \<noteq> Hdr k \<Longrightarrow> ent t e = ent s e \<and> vnext t e = vnext s e" "objs_same s t" "vm_map_zone t = ks" "vm_map_min k t = lo" "vm_map_max k t = hi"
    "\<And>n. room n t = room n s" "\<And>j. j \<noteq> k \<Longrightarrow> vmap t j = vmap s j"
proof -
  have w: "world s W" "cow_objs (\<lambda>q. wrefs s W q + rest q) s" using ok by (auto simp: wok_def)
  obtain t where c: "vm_map_create pm lo hi pg s = Inr (k, t)" "k \<notin> dom W" "world t (W(k \<mapsto> []))"
    "\<And>e. e \<noteq> Hdr k \<Longrightarrow> ent t e = ent s e \<and> vnext t e = vnext s e" "\<And>q. wrefs t (W(k \<mapsto> [])) q = wrefs s W q" "objs_same s t"
    "vm_map_zone t = ks" "vm_map_min k t = lo" "vm_map_max k t = hi" "\<And>n. room n t = room n s" "\<And>j. j \<noteq> k \<Longrightarrow> vmap t j = vmap s j"
    by (rule create_map [OF w(1) z lo]) blast
  have cow: "cow_objs (\<lambda>q. wrefs t (W(k \<mapsto> [])) q + rest q) t" using w(2) unfolding c(5) objs_same_cow(1) [OF c(6)] .
  have l: "vm_object_list t = vm_object_list s" using c(6) by (simp add: objs_same_def)
  have "vobject (ent t e) = 0 \<or> vobject (ent t e) \<in> set (vm_object_list t)" if J: "(W(k \<mapsto> [])) j = Some js" "e \<in> set js" "\<not> is_a_map (ent t e)" for j js e
  proof -
    have W: "W j = Some js" using J(1,2) by (auto split: if_splits)
    show ?thesis using wok_parts(5,6) [OF ok W J(2)] c(4) [of e] J(3) l by metis
  qed
  then have "wok rest t (W(k \<mapsto> []))" using c(3) cow unfolding wok_def by blast
  then show ?thesis using that c by blast
qed

lemma reads_same:
  assumes "objs_same s t" and "ent t = ent s"
  shows "reads h t W v d = reads h s W v d"
proof -
  have "chain t x xs = chain s x xs" for x xs using assms(1) by (intro chain_cong) (simp add: objs_same_def)
  moreover have "visible h t xs a = visible h s xs a" for xs a
    using assms(1) table_same_page_at [of s t] by (intro visible_cong) (simp_all add: objs_same_def)
  ultimately have "shown h t w d = shown h s w d" for w by (simp add: shown_def)
  then show ?thesis by (simp add: reads_def mview_def assms(2))
qed

lemma entry_kept_view: "entry_kept v v' \<Longrightarrow> entry_kept (view v a) (view v' a)"
  unfolding entry_kept_def view_def by (cases v) auto

lemma child_of_view: "child_of v v' w \<Longrightarrow> entry_kept v v' \<Longrightarrow> child_of (view v a) (view v' a) (view w a)"
  by (auto simp: child_of_def view_def entry_kept_def)

text \<open>What the parent and the child show at an address that the parent showed as \<open>v\<close> before the fork.\<close>

definition forked_at where
  "forked_at s W v t W' es cs a \<longleftrightarrow>
     (\<exists>v'. mview t es a = Some v' \<and> entry_kept v v' \<and> (\<forall>h d. reads h s W v d \<longrightarrow> reads h t W' v' d) \<and>
        (if inherited v then \<exists>w. mview t cs a = Some w \<and> child_of v v' w \<and> (\<forall>h d. reads h s W v d \<longrightarrow> reads h t W' w d)
         else mview t cs a = None))"

lemma forked_views:
  assumes up: "forked_upto rest old new s0 W0 es [] t W cs" and inv: "map_inv s0 old es"
  shows "case mview s0 es a of None \<Rightarrow> mview t es a = None \<and> mview t cs a = None | Some v \<Rightarrow> forked_at s0 W0 v t W es cs a"
proof -
  have U: "wok rest t W" "W old = Some es" "W new = Some cs" "\<And>x. x \<in> set es \<Longrightarrow> entry_kept (ent s0 x) (ent t x)"
      "\<And>x. x \<in> set es \<Longrightarrow> same_data s0 W0 (ent s0 x) t W (ent t x)"
      "list_all2 (\<lambda>e c. child_of (ent s0 e) (ent t e) (ent t c) \<and> same_data s0 W0 (ent s0 e) t W (ent t c)) (filter (\<lambda>e. inherited (ent s0 e)) es) cs"
    using up unfolding forked_upto_def append_Nil2 by blast+
  have mi: "map_inv t old es" "map_inv t new cs" using wok_parts(1) [OF U(1)] U(2,3) by blast+
  have cov: "covers (ent t x) a = covers (ent s0 x) a" if "x \<in> set es" for x using entry_keptD [OF U(4) [OF that]] by (simp add: covers_def)
  have child: "\<exists>e\<in>set es. inherited (ent s0 e) \<and> covers (ent s0 e) a" if c: "c \<in> set cs" "covers (ent t c) a" for c
  proof -
    obtain e where "e \<in> set (filter (\<lambda>e. inherited (ent s0 e)) es)" "child_of (ent s0 e) (ent t e) (ent t c)"
      using list_all2_left [OF U(6) c(1)] by blast
    then show ?thesis using c(2) by (intro bexI [of _ e]) (auto simp: child_of_def covers_def)
  qed
  show ?thesis
  proof (cases "mview s0 es a")
    case None
    then have "\<forall>e\<in>set es. \<not> covers (ent s0 e) a" unfolding mview_def view_in_None .
    then have "mview t es a = None" "mview t cs a = None" using cov child unfolding mview_def view_in_None by blast+
    then show ?thesis using None by simp
  next
    case (Some v)
    then obtain e where e: "e \<in> set es" "covers (ent s0 e) a" "v = view (ent s0 e) a" unfolding mview_def by (metis view_in_Some)
    have v': "mview t es a = Some (view (ent t e) a)" using mview_covered [OF mi(1) e(1)] cov [OF e(1)] e(2) by simp
    have iv: "inherited v = inherited (ent s0 e)" by (simp add: inherited_def e(3) view_def)
    have "if inherited v then \<exists>w. mview t cs a = Some w \<and> child_of v (view (ent t e) a) w \<and> (\<forall>h d. reads h s0 W0 v d \<longrightarrow> reads h t W w d) else mview t cs a = None"
    proof (cases "inherited v")
      case True
      then have "e \<in> set (filter (\<lambda>e. inherited (ent s0 e)) es)" using e(1) iv by simp
      then obtain c where c: "c \<in> set cs" "child_of (ent s0 e) (ent t e) (ent t c)" "same_data s0 W0 (ent s0 e) t W (ent t c)"
        using list_all2_right [OF U(6)] by blast
      have "covers (ent t c) a" using c(2) e(2) by (simp add: child_of_def covers_def)
      then have "mview t cs a = Some (view (ent t c) a)" by (rule mview_covered [OF mi(2) c(1)])
      then show ?thesis using True child_of_view [OF c(2) U(4) [OF e(1)]] c(3) e by (simp add: same_data_def)
    next
      case False
      have "\<not> covers (ent t c) a" if c: "c \<in> set cs" for c
      proof
        assume "covers (ent t c) a"
        then obtain x where "x \<in> set es" "inherited (ent s0 x)" "covers (ent s0 x) a" using child [OF c] by blast
        then have "inherited v" using mview_covered [OF inv, of x a] Some by (auto simp: inherited_def view_def)
        then show False using False by simp
      qed
      then show ?thesis using False unfolding mview_def view_in_None [symmetric] by (simp add: view_in_None)
    qed
    then show ?thesis unfolding forked_at_def Some option.case
      using v' entry_kept_view [OF U(4) [OF e(1)], of a] U(5) [OF e(1)] e by (intro exI [of _ "view (ent t e) a"]) (simp add: same_data_def)
  qed
qed

lemma fork_start:
  assumes ok: "wok rest s W" and P: "W old = Some es" and sh: "\<And>e. e \<in> set es \<Longrightarrow> is_a_map (ent s e) \<Longrightarrow> vobject (ent s e) \<in> dom W - {old}"
    and u: "wok rest u (W(new \<mapsto> []))" "new \<notin> dom W" "\<And>e. e \<noteq> Hdr new \<Longrightarrow> ent u e = ent s e" "objs_same s u"
      "vm_map_min new u = vm_map_min old s" "vm_map_max new u = vm_map_max old s" "vsize (vmap u old) = vsize (vmap s old)"
  shows "forked_upto rest old new s W [] es u (W(new \<mapsto> [])) []"
proof -
  have on: "old \<noteq> new" using P u(2) by auto
  have eu: "ent u x = ent s x" if "W k = Some ks" "x \<in> set ks" for k ks x using wok_parts(6) [OF ok that] u(3) by blast
  have "same_data s W (ent s e) u (W(new \<mapsto> [])) (ent s e)" if e: "e \<in> set es" for e
    unfolding same_data_def
  proof (intro allI impI)
    fix h a d assume r: "covers (ent s e) a \<and> reads h s W (view (ent s e) a) d"
    show "reads h u (W(new \<mapsto> [])) (view (ent s e) a) d"
      by (rule reads_kept [OF ok objs_same_cow(2) [OF u(4)] P e])
         (use eu r sh [OF e] u(2) wok_parts(5) [OF ok P e] in \<open>auto simp: view_fields\<close>)
  qed
  moreover have "vm_map_min old u = vm_map_min old s" "vm_map_max old u = vm_map_max old s" using u(3) [of "Hdr old"] on
    by (simp_all add: vm_map_min_def vm_map_max_def)
  moreover have "(W(new \<mapsto> [])) k = W k" if "k \<in> dom W" for k using that u(2) by auto
  moreover have "vobject (ent s e) \<in> dom (W(new \<mapsto> [])) - {old, new}" if "e \<in> set es" "is_a_map (ent s e)" for e
    using sh [OF that] u(2) by auto
  ultimately show ?thesis using u(1,5-7) P on eu [OF P] entry_kept_refl by (simp add: forked_upto_def)
qed

lemma fork_correct:
  assumes ok: "wok rest s W" and P: "W old = Some es" and fk: "\<And>e. e \<in> set es \<Longrightarrow> forkable (ent s e)"
    and sh: "\<And>e. e \<in> set es \<Longrightarrow> is_a_map (ent s e) \<Longrightarrow> vobject (ent s e) \<in> dom W - {old}"
    and room: "room (2 * length es) s" "length es < length (vm_map_zone s)" "length es \<le> length (object_zone s)" and n: "length es + 1 < n"
  shows "\<exists>new t W' cs. vm_map_fork n priv pm old s = Inr (Some (new, t)) \<and> new \<notin> dom W \<and> wok rest t W' \<and> (\<forall>k\<in>dom W. W' k = W k) \<and> W' new = Some cs \<and>
    (\<forall>a. case mview s es a of None \<Rightarrow> mview t es a = None \<and> mview t cs a = None | Some v \<Rightarrow> forked_at s W v t W' es cs a) \<and>
    vsize (vmap t new) = vsize (vmap s old)"
proof -
  define l where "l = vm_map_lock old s"
  have ls: "maps_same s l" "objs_same s l" unfolding l_def by (rule map_lock_same, unfold vm_map_lock_def, rule objs_same_upd_map)
  have lr: "room m l = room m s" for m using ls(1) by (simp add: room_def maps_same_def)
  note D = maps_sameD [OF ls(1)]
  have lok: "wok rest l W" by (rule wok_same [OF ok ls(2,1)])
  obtain new zs where z: "vm_map_zone l = new # zs" "length es \<le> length zs"
    using room(2) ls(1) by (cases "vm_map_zone s") (auto simp: maps_same_def)
  have inv: "map_inv s old es" by (rule wok_parts(1) [OF ok P])
  then have le: "vm_map_min old l \<le> vm_map_max old l" using ordered_bounds D(13,14) by (metis map_inv_def)
  obtain u where u: "vm_map_create pm (vm_map_min old l) (vm_map_max old l) (entries_pageable (vmap l old)) l = Inr (new, u)" "new \<notin> dom W"
      "wok rest u (W(new \<mapsto> []))" "\<And>e. e \<noteq> Hdr new \<Longrightarrow> ent u e = ent l e \<and> vnext u e = vnext l e" "objs_same l u" "vm_map_zone u = zs"
      "vm_map_min new u = vm_map_min old l" "vm_map_max new u = vm_map_max old l" "\<And>n. room n u = room n l" "\<And>j. j \<noteq> new \<Longrightarrow> vmap u j = vmap l j"
    by (rule wok_create [OF lok z(1) le]) blast
  have on: "old \<noteq> new" using P u(2) by auto
  have start: "forked_upto rest old new s W [] es u (W(new \<mapsto> [])) []"
    by (rule fork_start [OF ok P sh u(3,2)]) (use u(4,5,7,8) u(10) [OF on] D objs_same_trans [OF ls(2)] in auto)
  have oz: "object_zone u = object_zone s" using u(5) ls(2) by (simp add: objs_same_def)
  have ru: "room (2 * length es) u" "length es \<le> length (vm_map_zone u)" "length es \<le> length (object_zone u)"
    using room(1,3) z(2) oz u(6) by (simp_all add: u(9) lr)
  obtain t W' cs where t: "fork_walk n priv old new (hd (es @ [Hdr old])) u = Inr (Some t)" "forked_upto rest old new s W ([] @ es) [] t W' cs"
    using fork_walk_ok [OF start u(2) fk ru n, of priv] by blast
  have nx: "vnext u (Hdr old) = hd (es @ [Hdr old])" using u(4) [of "Hdr old"] D(2) on inv ring_ends(1) [of s old es] by (simp add: map_inv_def)
  let ?r = "upd_map new (\<lambda>v. v\<lparr>vsize := vsize (vmap t old)\<rparr>) t"
  have up: "forked_upto rest old new s W es [] t W' cs" using t(2) by simp
  have T: "wok rest t W'" "W' new = Some cs" "\<forall>k\<in>dom W. W' k = W k" "vsize (vmap t old) = vsize (vmap s old)" using up unfolding forked_upto_def by blast+
  have er: "ent ?r = ent t" "objs_same t ?r" using objs_same_upd_map by (simp_all add: upd_map_def)
  have "world ?r W'" using T(1) by (intro world_upd_map) (simp_all add: wok_def)
  then have "wok rest ?r W'" by (rule wok_cong [OF T(1) _ er(2,1)])
  moreover have "vm_map_fork n priv pm old s = Inr (Some (new, ?r))"
    unfolding vm_map_fork_def Let_def l_def [symmetric] using u(1) t(1) nx by simp
  moreover have mv: "mview ?r ks a = mview t ks a" for ks a by (simp add: mview_def er(1))
  have "forked_at s W v ?r W' es cs a = forked_at s W v t W' es cs a" for v a
    unfolding forked_at_def mv reads_same [OF er(2,1)] by (rule HOL.refl)
  then have "case mview s es a of None \<Rightarrow> mview ?r es a = None \<and> mview ?r cs a = None | Some v \<Rightarrow> forked_at s W v ?r W' es cs a" for a
    using forked_views [OF up inv, of a] unfolding mv by (cases "mview s es a") simp_all
  moreover have "vsize (vmap ?r new) = vsize (vmap s old)" using T(4) by (simp add: upd_map_def)
  ultimately show ?thesis using u(2) T(2,3) by blast
qed


text \<open>The map of the earlier examples, its first entry to be shared, its second one, which has an object, to be copied.\<close>

definition demo_fork :: vm_maps where
  "demo_fork = (upd_ent (Ent 11) (\<lambda>v. v\<lparr>inheritance := VM_INHERIT_SHARE\<rparr>) demo_backed)
     \<lparr>vm_map_entry_zone := [21, 22, 23, 24], vm_map_kentry_zone := [31, 32, 33, 34]\<rparr>"

lemma demo_fork_fields:
  "ent demo_fork = (ent demo_backed)(Ent 11 := (ent demo_backed (Ent 11))\<lparr>inheritance := VM_INHERIT_SHARE\<rparr>)"
  "obj demo_fork = obj demo_objs" "vm_object_list demo_fork = [10, 20]" "object_zone demo_fork = [30, 40, 50]"
  "vm_map_zone demo_fork = [2, 3, 4]" "table_same demo_objs demo_fork"
  "vm_map_entry_zone demo_fork = [21, 22, 23, 24]" "vm_map_kentry_zone demo_fork = [31, 32, 33, 34]"
  by (simp_all add: demo_fork_def upd_ent_def demo_backed_def demo_maps_def vm_objs.extend_def demo_objs_def table_same_def)

lemma demo_fork_cow: "cow_objs (\<lambda>x. if x = 10 then 1 else 0) demo_fork"
proof -
  have ch: "chain demo_fork x xs = chain demo_objs x xs" for x xs by (rule chain_cong) (simp add: demo_fork_fields)
  have "chain demo_objs 20 [20]" using demo_objs_ok(2) by (auto simp: demo_objs_def vm_object_template_def)
  then have "\<exists>xs. chain demo_fork x xs \<and> set xs \<subseteq> {10, 20}" if "x \<in> {10, 20}" for x
    unfolding ch using that demo_objs_ok(2) by (metis empty_iff insert_iff list.set(1,2) subset_insertI order.refl)
  moreover have "table_inv demo_fork" using table_same_inv [OF demo_fork_fields(6)] demo_objs_ok(1) by simp
  moreover have "refs_inv (\<lambda>x. if x = 10 then 1 else 0) demo_fork" using demo_objs_ok(5) by (simp add: refs_inv_def demo_fork_fields demo_objs_def)
  moreover have "copy_obj (obj demo_objs x) = 0" "memq (obj demo_objs x) = []" for x by (simp_all add: demo_objs_def vm_object_template_def)
  ultimately show ?thesis by (auto simp: cow_objs_def zone_ok_def copy_ok_def demo_fork_fields)
qed

lemma demo_fork_wok: "wok (\<lambda>_. 0) demo_fork [1 \<mapsto> [Ent 11, Ent 12]]"
proof -
  have m: "map_inv demo_fork 1 [Ent 11, Ent 12] = map_inv (upd_ent (Ent 11) (\<lambda>v. v\<lparr>inheritance := VM_INHERIT_SHARE\<rparr>) demo_backed) 1 [Ent 11, Ent 12]"
    by (rule map_inv_cong) (simp_all add: demo_fork_def)
  have "map_step 1 demo_backed [Ent 11, Ent 12] (upd_ent (Ent 11) (\<lambda>v. v\<lparr>inheritance := VM_INHERIT_SHARE\<rparr>) demo_backed) [Ent 11, Ent 12]"
    by (rule upd_ent_step(1) [OF demo_backed_ok(1,2)]) simp_all
  then have "map_inv demo_fork 1 [Ent 11, Ent 12]" unfolding m map_step_def by blast
  moreover have "entries_free demo_fork [Ent 11, Ent 12]" "distinct (vm_map_entry_zone demo_fork @ vm_map_kentry_zone demo_fork)"
    by (simp_all add: entries_free_def demo_fork_def)
  ultimately have "world demo_fork [1 \<mapsto> [Ent 11, Ent 12]]" by (simp add: world_def demo_fork_fields(5))
  moreover have o: "vobject (ent demo_fork (Ent 11)) = 0" "vobject (ent demo_fork (Ent 12)) = 10" "\<not> is_a_map (ent demo_fork (Ent 11))"
      "\<not> is_a_map (ent demo_fork (Ent 12))"
    by (simp_all add: demo_fork_fields demo_backed_def upd_ent_def demo_fields demo_entry_def)
  have "wrefs demo_fork [1 \<mapsto> [Ent 11, Ent 12]] q + 0 = (if q = 10 then 1 else 0)" for q by (auto simp: wrefs_def ocnt_def orefs_def o)
  then have "cow_objs (\<lambda>q. wrefs demo_fork [1 \<mapsto> [Ent 11, Ent 12]] q + 0) demo_fork" using demo_fork_cow by simp
  ultimately show ?thesis using o by (auto simp: wok_def demo_fork_fields(3) split: if_splits)
qed


end
