(* ===== verification/Zalloc.thy ===== *)
theory Zalloc
  imports VmObject
begin

text \<open>
  The zone allocator, \<^verbatim>\<open>kern/zalloc.c\<close> and \<^verbatim>\<open>kern/zalloc.h\<close> (configuration \<^verbatim>\<open>NeXT\<close>).  A zone hands out
  blocks of one size; its free blocks form a linked list whose links are stored in the first word
  of the blocks themselves.  The memory is a store of bytes, the word operations are those of the
  big-endian processor.

  \<open>kmem_results\<close> lists what the next calls of \<^verbatim>\<open>kmem_alloc\<close> and \<^verbatim>\<open>kmem_alloc_pageable\<close> on the zone map
  return (0 when they fail, as does a call beyond the list).  The zone structures are the store
  \<open>zone\<close>, addressed like memory; \<open>sizeof_zone\<close> is the size of one.  \<^verbatim>\<open>last_zone\<close>, the address of the
  last link of the list of all zones, is \<open>None\<close> for \<^verbatim>\<open>&first_zone\<close> and \<open>Some z\<close> for \<^verbatim>\<open>&z->next_zone\<close>.
  A thread that waits for another one to extend the zone has not returned: \<open>Inr None\<close>.
\<close>

subsection \<open>Memory\<close>

type_synonym bytes = "u32 \<Rightarrow> 8 word"

definition load32 :: "bytes \<Rightarrow> u32 \<Rightarrow> u32" where
  "load32 m a = push_bit 24 (ucast (m a)) OR push_bit 16 (ucast (m (a + 1))) OR push_bit 8 (ucast (m (a + 2))) OR ucast (m (a + 3))"

definition store32 :: "u32 \<Rightarrow> u32 \<Rightarrow> bytes \<Rightarrow> bytes" where
  "store32 a v m = m(a := ucast (drop_bit 24 v), a + 1 := ucast (drop_bit 16 v), a + 2 := ucast (drop_bit 8 v), a + 3 := ucast v)"

subsection \<open>Data\<close>

record zone =
  z_count :: int
  free_elements :: u32
  cur_size :: u32
  max_size :: u32
  elem_size :: u32
  alloc_size :: u32
  doing_alloc :: bool
  zone_name :: string
  z_pageable :: bool
  z_sleepable :: bool
  z_exhaustible :: bool
  next_zone :: u32

record zones =
  mem :: bytes
  zone :: "u32 \<Rightarrow> zone"
  zone_zone :: u32
  first_zone :: u32
  last_zone :: "u32 option"
  num_zones :: int
  zalloc_next_space :: u32
  zalloc_end_of_space :: u32
  zone_ignore_overflow :: bool
  kmem_results :: "u32 list"
  kmem_freed :: "(u32 \<times> u32) list"
  zpage_size :: u32
  zpage_mask :: u32
  zdata :: u32
  zdata_size :: u32
  sizeof_zone :: u32

definition upd_zone :: "u32 \<Rightarrow> (zone \<Rightarrow> zone) \<Rightarrow> zones \<Rightarrow> zones" where
  "upd_zone z f s = s\<lparr>zone := (zone s)(z := f (zone s z))\<rparr>"

definition kmem_alloc :: "u32 \<Rightarrow> zones \<Rightarrow> u32 \<times> zones" where
  "kmem_alloc len s =
    (case kmem_results s of [] \<Rightarrow> (0, s) | k # ks \<Rightarrow> (k, s\<lparr>kmem_results := ks\<rparr>))"

definition zone_alignment :: u32 where
  "zone_alignment = 3"

subsection \<open>The free list\<close>

definition ADD_TO_ZONE :: "u32 \<Rightarrow> u32 \<Rightarrow> zones \<Rightarrow> zones" where
  "ADD_TO_ZONE z element s =
    (let s = s\<lparr>mem := store32 element (free_elements (zone s z)) (mem s)\<rparr>;
         s = upd_zone z (\<lambda>v. v\<lparr>free_elements := element\<rparr>) s
     in upd_zone z (\<lambda>v. v\<lparr>z_count := z_count v - 1\<rparr>) s)"

definition REMOVE_FROM_ZONE :: "u32 \<Rightarrow> zones \<Rightarrow> u32 \<times> zones" where
  "REMOVE_FROM_ZONE z s =
    (let ret = free_elements (zone s z) in
     if ret \<noteq> 0
     then
      (let s = upd_zone z (\<lambda>v. v\<lparr>z_count := z_count v + 1\<rparr>) s
       in (ret, upd_zone z (\<lambda>v. v\<lparr>free_elements := load32 (mem s) ret\<rparr>) s))
     else (ret, s))"

fun cram_loop :: "nat \<Rightarrow> u32 \<Rightarrow> u32 \<Rightarrow> u32 \<Rightarrow> u32 \<Rightarrow> zones \<Rightarrow> zones option" where
  "cram_loop 0 z esize newmem len s = None"
| "cram_loop (Suc n) z esize newmem len s =
    (if len \<ge> esize
     then cram_loop n z esize (newmem + esize) (len - esize)
            (upd_zone z (\<lambda>v. v\<lparr>z_count := z_count v + 1\<rparr>) (ADD_TO_ZONE z newmem s))
     else Some s)"

text \<open>Every turn takes at least a byte; with element size 0 the loop does not end.\<close>

definition zcram :: "u32 \<Rightarrow> u32 \<Rightarrow> u32 \<Rightarrow> zones \<Rightarrow> zones option kresult" where
  "zcram z newmem len s =
    (if newmem = 0 then Inl ''assert''
     else
      (let esize = elem_size (zone s z);
           s = upd_zone z (\<lambda>v. v\<lparr>cur_size := cur_size v + len\<rparr>) s
       in Inr (cram_loop (Suc (unat len)) z esize newmem len s)))"

subsection \<open>Space for unpaged zones\<close>

definition space_to_add :: "u32 \<Rightarrow> zones \<Rightarrow> u32" where
  "space_to_add len s = (if zpage_size s < len then round_page (zpage_mask s) len else zpage_size s)"

fun zget_space_loop :: "nat \<Rightarrow> u32 \<Rightarrow> u32 \<Rightarrow> zones \<Rightarrow> (u32 \<times> zones) option" where
  "zget_space_loop 0 len new_space s = None"
| "zget_space_loop (Suc n) len new_space s =
    (if zalloc_next_space s + len > zalloc_end_of_space s
     then if new_space = 0
          then
           (let (k, s) = kmem_alloc (space_to_add len s) s in
            if k = 0 then Some (0, s) else zget_space_loop n len k s)
          else
           (let s = (if new_space \<noteq> zalloc_end_of_space s then s\<lparr>zalloc_next_space := new_space\<rparr> else s);
                s = s\<lparr>zalloc_end_of_space := new_space + space_to_add len s\<rparr>
            in zget_space_loop n len 0 s)
     else
      (let result = zalloc_next_space s;
           s = s\<lparr>zalloc_next_space := zalloc_next_space s + len\<rparr>;
           s = (if new_space \<noteq> 0 then s\<lparr>kmem_freed := kmem_freed s @ [(new_space, space_to_add len s)]\<rparr> else s)
       in Some (result, s)))"

text \<open>Every second turn uses up a result of \<^verbatim>\<open>kmem_alloc\<close>.\<close>

definition zget_space :: "u32 \<Rightarrow> zones \<Rightarrow> (u32 \<times> zones) option" where
  "zget_space len s = zget_space_loop (2 * length (kmem_results s) + 2) len 0 s"

subsection \<open>Allocation\<close>

definition zone_full :: "u32 \<Rightarrow> zones \<Rightarrow> bool" where
  "zone_full z s \<longleftrightarrow>
     cur_size (zone s z) + (if z_pageable (zone s z) then alloc_size (zone s z) else elem_size (zone s z)) > max_size (zone s z)"

fun zalloc_loop :: "nat \<Rightarrow> u32 \<Rightarrow> u32 \<Rightarrow> zones \<Rightarrow> (u32 \<times> zones) option kresult" where
  "zalloc_loop 0 z addr s = Inr None"
| "zalloc_loop (Suc n) z addr s =
    (if addr \<noteq> 0 then Inr (Some (addr, s))
     else if doing_alloc (zone s z) then Inr None
     else if zone_full z s \<and> z_exhaustible (zone s z) then Inr (Some (addr, s))
     else if zone_full z s \<and> \<not> zone_ignore_overflow s then Inl ''zalloc''
     else if z_pageable (zone s z)
     then
      (let s = upd_zone z (\<lambda>v. v\<lparr>doing_alloc := True\<rparr>) s;
           (k, s) = kmem_alloc (alloc_size (zone s z)) s
       in rbind (zcram z k (alloc_size (zone s z)) s) (\<lambda>s.
            let s = upd_zone z (\<lambda>v. v\<lparr>doing_alloc := False\<rparr>) s;
                (addr, s) = REMOVE_FROM_ZONE z s
            in zalloc_loop n z addr s))
     else rbind (Inr (zget_space (elem_size (zone s z)) s)) (\<lambda>(addr, s).
            if addr = 0 then Inl ''zalloc''
            else
             (let s = upd_zone z (\<lambda>v. v\<lparr>z_count := z_count v + 1\<rparr>) s;
                  s = upd_zone z (\<lambda>v. v\<lparr>cur_size := cur_size v + elem_size v\<rparr>) s
              in Inr (Some (addr, s)))))"

text \<open>A further turn needs a further result of \<^verbatim>\<open>kmem_alloc_pageable\<close>.\<close>

definition zalloc :: "u32 \<Rightarrow> zones \<Rightarrow> (u32 \<times> zones) option kresult" where
  "zalloc z s =
    (if z = 0 then Inl ''assert''
     else
      (let (addr, s) = REMOVE_FROM_ZONE z s
       in zalloc_loop (length (kmem_results s) + 3) z addr s))"

definition zget :: "u32 \<Rightarrow> zones \<Rightarrow> (u32 \<times> zones) kresult" where
  "zget z s = (if z = 0 then Inl ''assert'' else Inr (REMOVE_FROM_ZONE z s))"

definition zfree :: "u32 \<Rightarrow> u32 \<Rightarrow> zones \<Rightarrow> zones kresult" where
  "zfree z elem s = (if elem = 0 then Inl ''assert'' else Inr (ADD_TO_ZONE z elem s))"

definition zchange :: "u32 \<Rightarrow> bool \<Rightarrow> bool \<Rightarrow> bool \<Rightarrow> zones \<Rightarrow> zones" where
  "zchange z pageable sleepable exhaustible s =
     upd_zone z (\<lambda>v. v\<lparr>z_pageable := pageable, z_sleepable := sleepable, z_exhaustible := exhaustible\<rparr>) s"

subsection \<open>Creating zones\<close>

text \<open>The rounding of the parameters: the allocation size and the maximum.\<close>

definition zinit_sizes :: "u32 \<Rightarrow> u32 \<Rightarrow> zones \<Rightarrow> u32 \<times> u32" where
  "zinit_sizes mx alloc s =
    (let alloc = (if alloc = 0 then zpage_size s else alloc);
         alloc = round_page (zpage_mask s) alloc
     in (alloc, if mx < alloc then alloc else mx))"

definition zinit_at :: "u32 \<Rightarrow> u32 \<Rightarrow> u32 \<Rightarrow> u32 \<Rightarrow> bool \<Rightarrow> string \<Rightarrow> zones \<Rightarrow> zones" where
  "zinit_at z len mx alloc pageable name s =
    (let (alloc, mx) = zinit_sizes mx alloc s;
         s = upd_zone z (\<lambda>v. v\<lparr>free_elements := 0, cur_size := 0, max_size := mx,
                elem_size := (len + zone_alignment) AND NOT zone_alignment, alloc_size := alloc, z_pageable := pageable,
                zone_name := name, z_count := 0, doing_alloc := False, z_exhaustible := False, z_sleepable := False\<rparr>) s;
         s = upd_zone z (\<lambda>v. v\<lparr>next_zone := 0\<rparr>) s;
         s = (case last_zone s of None \<Rightarrow> s\<lparr>first_zone := z\<rparr> | Some l \<Rightarrow> upd_zone l (\<lambda>v. v\<lparr>next_zone := z\<rparr>) s)
     in s\<lparr>last_zone := Some z, num_zones := num_zones s + 1\<rparr>)"

definition zinit :: "u32 \<Rightarrow> u32 \<Rightarrow> u32 \<Rightarrow> bool \<Rightarrow> string \<Rightarrow> zones \<Rightarrow> (u32 \<times> zones) option kresult" where
  "zinit len mx alloc pageable name s =
    (if zone_zone s = 0 then Inr (Some (zdata s, zinit_at (zdata s) len mx alloc pageable name s))
     else rbind (zalloc (zone_zone s) s) (\<lambda>(z, s).
            if z = 0 then Inr (Some (0, s))
            else Inr (Some (z, zinit_at z len mx alloc pageable name s))))"

definition zone_bootstrap :: "zones \<Rightarrow> zones option kresult" where
  "zone_bootstrap s =
    (let s = s\<lparr>first_zone := 0, last_zone := None, num_zones := 0, zone_zone := 0\<rparr> in
     rbind (zinit (sizeof_zone s) (sizeof_zone s) 0 False ''zones'' s) (\<lambda>(z, s).
       zcram z (z + sizeof_zone s) (zdata_size s - sizeof_zone s) (s\<lparr>zone_zone := z\<rparr>)))"

end
