(* ===== verification/ZoneInv.thy ===== *)
theory ZoneInv
  imports Zalloc "HOL-Library.Multiset"
begin

text \<open>
  The invariant of the zone allocator.  Every block of memory the allocator knows, in a free list
  or handed out, is an element of a multiset of intervals of addresses no two of which overlap;
  allocating and freeing move intervals from one list to another, and only new memory adds any.
\<close>

subsection \<open>Blocks that do not overlap\<close>

type_synonym block = "nat \<times> nat"

definition cells :: "block \<Rightarrow> nat set" where
  "cells b = {fst b ..< fst b + snd b}"

text \<open>\<open>apart M\<close>: no two of the blocks of \<open>M\<close> overlap.\<close>

definition apart :: "block multiset \<Rightarrow> bool" where
  "apart M \<longleftrightarrow> (\<forall>x\<in>#M. \<forall>y\<in>#M - {#x#}. cells x \<inter> cells y = {})"

lemma apart_add: "apart (add_mset x M) \<longleftrightarrow> apart M \<and> (\<forall>y\<in>#M. cells x \<inter> cells y = {})"
proof -
  have e: "add_mset x M - {#u#} = add_mset x (M - {#u#})" if "u \<in># M" for u
    using that by simp
  have "(\<forall>u\<in>#M. \<forall>y\<in>#add_mset x M - {#u#}. cells u \<inter> cells y = {}) \<longleftrightarrow>
      (\<forall>u\<in>#M. cells u \<inter> cells x = {}) \<and> apart M"
    unfolding apart_def by (simp add: e ball_conj_distrib cong: ball_cong)
  then show ?thesis by (auto simp: apart_def)
qed

lemma apart_empty [simp]: "apart {#}"
  by (simp add: apart_def)

text \<open>Smaller blocks in place of a block.\<close>

lemma apart_shrink: "apart (add_mset x M) \<Longrightarrow> cells y \<subseteq> cells x \<Longrightarrow> apart (add_mset y M)"
  by (auto simp: apart_add)

lemma apart_split:
  "apart (add_mset x M) \<Longrightarrow> cells y \<subseteq> cells x \<Longrightarrow> cells z \<subseteq> cells x \<Longrightarrow> cells y \<inter> cells z = {} \<Longrightarrow>
     apart (add_mset y (add_mset z M))"
  by (simp add: apart_add) blast

lemma apart_merge:
  "apart (add_mset x (add_mset y M)) \<Longrightarrow> cells w \<subseteq> cells x \<union> cells y \<Longrightarrow> apart (add_mset w M)"
  by (simp add: apart_add) blast

lemma apart_drop: "apart (add_mset x M) \<Longrightarrow> apart M"
  by (simp add: apart_add)

subsection \<open>Words in memory\<close>

lemma load_store: "load32 (store32 a v m) a = v"
proof -
  have d: "a + 1 \<noteq> a" "a + 2 \<noteq> a" "a + 3 \<noteq> a" "a + 1 \<noteq> a + 2" "a + 1 \<noteq> a + 3" "a + 2 \<noteq> a + 3" by simp_all
  let ?b = "\<lambda>k. (ucast (ucast (drop_bit k v) :: 8 word) :: u32)"
  have "load32 (store32 a v m) a = push_bit 24 (?b 24) OR push_bit 16 (?b 16) OR push_bit 8 (?b 8) OR ?b 0"
    using d by (simp add: load32_def store32_def)
  also have "\<dots> = v"
  proof (rule bit_word_eqI)
    fix n assume "n < LENGTH(32)"
    then consider "n < 8" | "8 \<le> n" "n < 16" | "16 \<le> n" "n < 24" | "24 \<le> n" "n < 32" by fastforce
    then show "bit (push_bit 24 (?b 24) OR push_bit 16 (?b 16) OR push_bit 8 (?b 8) OR ?b 0) n = bit v n"
      by cases (auto simp: bit_or_iff bit_push_bit_iff bit_unsigned_iff bit_drop_bit_eq)
  qed
  finally show ?thesis .
qed

text \<open>The four bytes of a word that does not reach past the end of memory.\<close>

lemma word_cells:
  assumes "unat (a :: u32) + 4 \<le> 2 ^ 32"
  shows "{unat a, unat (a + 1), unat (a + 2), unat (a + 3)} = cells (unat a, 4)"
proof -
  have "unat (a + 1) = unat a + 1" "unat (a + 2) = unat a + 2" "unat (a + 3) = unat a + 3"
    using assms by (simp_all add: unat_word_ariths)
  then show ?thesis by (auto simp: cells_def)
qed

lemma store_frame:
  assumes "unat a + 4 \<le> 2 ^ 32" and "unat b \<notin> cells (unat a, 4)"
  shows "store32 a v m b = m b"
  using assms(2) unfolding word_cells [OF assms(1), symmetric] by (auto simp: store32_def)

lemma load_frame:
  assumes "unat a + 4 \<le> 2 ^ 32" and "\<And>b. unat b \<in> cells (unat a, 4) \<Longrightarrow> m' b = m b"
  shows "load32 m' a = load32 m a"
proof -
  have "m' b = m b" if "b \<in> {a, a + 1, a + 2, a + 3}" for b
    using assms(2) [of b] that unfolding word_cells [OF assms(1), symmetric] by blast
  then show ?thesis by (simp add: load32_def)
qed

subsection \<open>Free lists\<close>

fun flist :: "bytes \<Rightarrow> u32 \<Rightarrow> u32 list \<Rightarrow> bool" where
  "flist m a [] = (a = 0)"
| "flist m a (x # xs) = (a = x \<and> x \<noteq> 0 \<and> flist m (load32 m x) xs)"

lemma flist_cong:
  "(\<And>x. x \<in> set xs \<Longrightarrow> load32 m' x = load32 m x) \<Longrightarrow> flist m' a xs = flist m a xs"
  by (induction xs arbitrary: a) auto

text \<open>The free elements of the zones \<open>Z\<close>, with their zones, and the blocks of a state.\<close>

definition frees :: "u32 list \<Rightarrow> (u32 \<Rightarrow> u32 list) \<Rightarrow> (u32 \<times> u32) multiset" where
  "frees Z F = mset (concat (map (\<lambda>z. map (Pair z) (F z)) Z))"

definition blk :: "zones \<Rightarrow> u32 \<times> u32 \<Rightarrow> block" where
  "blk s p = (unat (snd p), unat (elem_size (zone s (fst p))))"

definition blocks :: "u32 list \<Rightarrow> (u32 \<Rightarrow> u32 list) \<Rightarrow> zones \<Rightarrow> (u32 \<times> u32) list \<Rightarrow> block multiset" where
  "blocks Z F s L = image_mset (blk s) (mset L + frees Z F)"

lemma frees_upd:
  assumes "distinct Z" and "z \<in> set Z"
  shows "frees Z (F(z := a # F z)) = add_mset (z, a) (frees Z F)"
  using assms
proof (induction Z)
  case (Cons y Z)
  have "frees Z (F(z := a # F z)) = frees Z F" if "z \<notin> set Z"
    unfolding frees_def using that by (intro arg_cong [where f = "\<lambda>x. mset (concat x)"] map_cong) auto
  with Cons show ?case by (cases "y = z") (auto simp: frees_def)
qed simp

lemma frees_mem: "(z, a) \<in># frees Z F \<longleftrightarrow> z \<in> set Z \<and> a \<in> set (F z)"
  by (auto simp: frees_def)

subsection \<open>The core of the invariant\<close>

text \<open>
  The free lists are linked, and neither the elements of the zones, free or handed out (\<open>L\<close>), nor
  the other blocks \<open>X\<close> overlap.  All are part of the memory \<open>U\<close> the allocator was given, which lies
  below \<open>2 ^ 31\<close> (above the largest kernel address) and does not hold address 0.
\<close>

definition usable :: "nat set \<Rightarrow> bool" where
  "usable U \<longleftrightarrow> U \<subseteq> {0 <..< 2 ^ 31}"

definition zone_core :: "nat set \<Rightarrow> u32 list \<Rightarrow> (u32 \<Rightarrow> u32 list) \<Rightarrow> zones \<Rightarrow> (u32 \<times> u32) list \<Rightarrow> block multiset \<Rightarrow> bool" where
  "zone_core U Z F s L X \<longleftrightarrow>
     distinct Z \<and> usable U \<and>
     (\<forall>z\<in>set Z. 4 \<le> unat (elem_size (zone s z)) \<and> unat (elem_size (zone s z)) < 2 ^ 31 \<and>
        flist (mem s) (free_elements (zone s z)) (F z)) \<and>
     fst ` set L \<subseteq> set Z \<and> apart (blocks Z F s L + X) \<and> (\<forall>b\<in>#blocks Z F s L + X. cells b \<subseteq> U)"

lemma core_elem:
  assumes "zone_core U Z F s L X" and "p \<in># mset L + frees Z F"
  shows "snd p \<noteq> 0" "unat (snd p) + unat (elem_size (zone s (fst p))) \<le> 2 ^ 31" "fst p \<in> set Z"
    "cells (unat (snd p), 4) \<subseteq> cells (blk s p)" "unat (snd p) + 4 \<le> 2 ^ 32"
proof -
  obtain z a where p: "p = (z, a)" by (cases p)
  show z: "fst p \<in> set Z" using assms by (auto simp: zone_core_def frees_mem p)
  have e: "4 \<le> unat (elem_size (zone s (fst p)))" using z assms(1) by (simp add: zone_core_def)
  have "blk s p \<in># blocks Z F s L + X" using assms(2) by (auto simp: blocks_def)
  then have c: "cells (blk s p) \<subseteq> {0 <..< 2 ^ 31}" using assms(1) unfolding zone_core_def usable_def by blast
  have "unat (snd p) \<in> cells (blk s p)" "unat (snd p) + unat (elem_size (zone s (fst p))) - 1 \<in> cells (blk s p)"
    using e by (auto simp: cells_def blk_def)
  then have "0 < unat (snd p)" "unat (snd p) + unat (elem_size (zone s (fst p))) - 1 < 2 ^ 31" using c by auto
  then show "snd p \<noteq> 0" "unat (snd p) + unat (elem_size (zone s (fst p))) \<le> 2 ^ 31" by auto
  then show "unat (snd p) + 4 \<le> 2 ^ 32" using e by auto
  show "cells (unat (snd p), 4) \<subseteq> cells (blk s p)" using e by (auto simp: cells_def blk_def)
qed

text \<open>A block of the size of the elements of a zone is as good as an element handed out.\<close>

lemma core_live:
  assumes "z \<in> set Z"
  shows "zone_core U Z F s ((z, a) # L) X \<longleftrightarrow> zone_core U Z F s L (add_mset (unat a, unat (elem_size (zone s z))) X)"
  using assms by (auto simp: zone_core_def blocks_def blk_def)

text \<open>What an operation leaves of the contents of the elements handed out.\<close>

definition same_data :: "zones \<Rightarrow> (u32 \<times> u32) list \<Rightarrow> zones \<Rightarrow> bool" where
  "same_data s L s' \<longleftrightarrow> (\<forall>p\<in>set L. \<forall>b. unat b \<in> cells (blk s p) \<longrightarrow> mem s' b = mem s b)"

text \<open>
  \<open>zframe z s s'\<close>: the states agree but for the memory and what the free list of \<open>z\<close> and its size
  account for; \<open>zkept\<close> lets the space for new elements differ, too.
\<close>

definition hide_zone :: "u32 \<Rightarrow> zones \<Rightarrow> zones" where
  "hide_zone z s = s\<lparr>mem := \<lambda>_. 0, zone := (zone s)(z := (zone s z)\<lparr>z_count := 0, free_elements := 0, cur_size := 0\<rparr>)\<rparr>"

definition hide_space :: "zones \<Rightarrow> zones" where
  "hide_space s = s\<lparr>zalloc_next_space := 0, zalloc_end_of_space := 0, kmem_freed := [], kmem_results := []\<rparr>"

definition zframe :: "u32 \<Rightarrow> zones \<Rightarrow> zones \<Rightarrow> bool" where
  "zframe z s s' \<longleftrightarrow> hide_zone z s' = hide_zone z s"

definition zkept :: "u32 \<Rightarrow> zones \<Rightarrow> zones \<Rightarrow> bool" where
  "zkept z s s' \<longleftrightarrow> hide_space (hide_zone z s') = hide_space (hide_zone z s)"

lemma blocks_cong: "(\<And>z. elem_size (zone s' z) = elem_size (zone s z)) \<Longrightarrow> blocks Z F s' L = blocks Z F s L"
proof -
  assume "\<And>z. elem_size (zone s' z) = elem_size (zone s z)"
  then have "blk s' = blk s" by (simp add: blk_def fun_eq_iff)
  then show ?thesis by (simp add: blocks_def)
qed

text \<open>Putting an element into the free list of its zone.\<close>

lemma ADD_TO_ZONE_simps:
  "mem (ADD_TO_ZONE z a s) = store32 a (free_elements (zone s z)) (mem s)"
  "zone (ADD_TO_ZONE z a s) = (zone s)(z := (zone s z)\<lparr>free_elements := a, z_count := z_count (zone s z) - 1\<rparr>)"
  by (simp_all add: ADD_TO_ZONE_def upd_zone_def Let_def)

lemma core_push:
  assumes "zone_core U Z F s ((z, a) # L) X"
  shows "zone_core U Z (F(z := a # F z)) (ADD_TO_ZONE z a s) L X" and "same_data s L (ADD_TO_ZONE z a s)"
proof -
  let ?s = "ADD_TO_ZONE z a s"
  have z: "z \<in> set Z" and d: "distinct Z" using assms by (auto simp: zone_core_def)
  have ne: "a \<noteq> 0" and r: "unat a + 4 \<le> 2 ^ 32" and c: "cells (unat a, 4) \<subseteq> cells (blk s (z, a))"
    using core_elem [OF assms, of "(z, a)"] by auto
  have es: "elem_size (zone ?s y) = elem_size (zone s y)" for y by (simp add: ADD_TO_ZONE_simps)
  have "blocks Z (F(z := a # F z)) s L = blocks Z F s ((z, a) # L)"
    by (simp add: blocks_def frees_upd [OF d z])
  then have B: "blocks Z (F(z := a # F z)) ?s L = blocks Z F s ((z, a) # L)"
    by (simp add: blocks_cong [OF es])
  have out: "cells (unat a, 4) \<inter> cells (blk s p) = {}" if "p \<in># mset L + frees Z F" for p
  proof -
    have "apart (add_mset (blk s (z, a)) (image_mset (blk s) (mset L + frees Z F) + X))"
      using assms by (simp add: zone_core_def blocks_def)
    then have "cells (blk s (z, a)) \<inter> cells (blk s p) = {}" using that by (auto simp: apart_add)
    then show ?thesis using c by blast
  qed
  have fr: "mem ?s b = mem s b" if "p \<in># mset L + frees Z F" "unat b \<in> cells (blk s p)" for b p
    using out [OF that(1)] that(2) store_frame [OF r] by (auto simp: ADD_TO_ZONE_simps)
  show "same_data s L ?s" unfolding same_data_def using fr by auto
  have ld: "load32 (mem ?s) x = load32 (mem s) x" if "y \<in> set Z" "x \<in> set (F y)" for x y
  proof -
    have m: "(y, x) \<in># mset L + frees Z F" using that by (simp add: frees_mem)
    have m': "(y, x) \<in># mset ((z, a) # L) + frees Z F" using m by simp
    show ?thesis
      using core_elem(4, 5) [OF assms m'] fr [OF m] by (intro load_frame) auto
  qed
  have fl: "flist (mem ?s) (free_elements (zone s y)) (F y)" if "y \<in> set Z" for y
    using flist_cong [of "F y" "mem ?s" "mem s"] ld [OF that] assms that by (simp add: zone_core_def)
  have "flist (mem ?s) (free_elements (zone ?s y)) ((F(z := a # F z)) y)" if "y \<in> set Z" for y
    using fl [OF that] ne by (auto simp: ADD_TO_ZONE_simps load_store)
  then show "zone_core U Z (F(z := a # F z)) ?s L X"
    using assms unfolding zone_core_def B es by auto
qed

text \<open>Taking an element from the free list.\<close>

lemma core_pop:
  assumes "zone_core U Z F s L X" and "z \<in> set Z" and "REMOVE_FROM_ZONE z s = (r, s')"
  shows "r = 0 \<Longrightarrow> s' = s \<and> F z = []"
    and "r \<noteq> 0 \<Longrightarrow> \<exists>xs. F z = r # xs \<and> zone_core U Z (F(z := xs)) s' ((z, r) # L) X \<and> mem s' = mem s \<and>
      s' = s\<lparr>zone := (zone s)(z := (zone s z)\<lparr>z_count := z_count (zone s z) + 1, free_elements := load32 (mem s) r\<rparr>)\<rparr>"
proof -
  have fl: "flist (mem s) (free_elements (zone s z)) (F z)" and d: "distinct Z"
    using assms(1, 2) by (auto simp: zone_core_def)
  have r: "r = free_elements (zone s z)" using assms(3) by (auto simp: REMOVE_FROM_ZONE_def Let_def split: if_splits)
  show "s' = s \<and> F z = []" if "r = 0"
    using that fl assms(3) r by (cases "F z") (auto simp: REMOVE_FROM_ZONE_def)
  assume ne: "r \<noteq> 0"
  then obtain xs where F: "F z = r # xs" and xs: "flist (mem s) (load32 (mem s) r) xs"
    using fl r by (cases "F z") auto
  have s': "s' = s\<lparr>zone := (zone s)(z := (zone s z)\<lparr>z_count := z_count (zone s z) + 1, free_elements := load32 (mem s) r\<rparr>)\<rparr>"
    using ne assms(3) r by (auto simp: REMOVE_FROM_ZONE_def upd_zone_def Let_def)
  let ?F = "F(z := xs)"
  have "?F(z := r # ?F z) = F" using F by auto
  then have f: "frees Z F = add_mset (z, r) (frees Z ?F)"
    using frees_upd [OF d assms(2), of ?F r] by simp
  have es: "elem_size (zone s' y) = elem_size (zone s y)" for y by (simp add: s')
  have "blocks Z ?F s ((z, r) # L) = blocks Z F s L" by (simp add: blocks_def f)
  then have B: "blocks Z ?F s' ((z, r) # L) = blocks Z F s L" by (simp add: blocks_cong [OF es])
  have "flist (mem s') (free_elements (zone s' y)) (?F y)" if "y \<in> set Z" for y
    using assms(1) that xs by (simp add: zone_core_def s')
  then have "zone_core U Z ?F s' ((z, r) # L) X"
    using assms(1, 2) unfolding zone_core_def B es by auto
  then show "\<exists>xs. F z = r # xs \<and> zone_core U Z (F(z := xs)) s' ((z, r) # L) X \<and> mem s' = mem s \<and>
      s' = s\<lparr>zone := (zone s)(z := (zone s z)\<lparr>z_count := z_count (zone s z) + 1, free_elements := load32 (mem s) r\<rparr>)\<rparr>"
    using F s' by auto
qed

subsection \<open>Frames\<close>

lemma hide_commute: "hide_space (hide_zone z s) = hide_zone z (hide_space s)"
  by (cases s) (simp add: hide_space_def hide_zone_def)

lemma zframe_trans: "zframe z s t \<Longrightarrow> zframe z t u \<Longrightarrow> zframe z s u"
  by (simp add: zframe_def)

lemma zkept_trans: "zkept z s t \<Longrightarrow> zkept z t u \<Longrightarrow> zkept z s u"
  by (simp add: zkept_def)

lemma zframe_kept: "zframe z s t \<Longrightarrow> zkept z s t"
  by (simp add: zframe_def zkept_def)

lemma zframe_space:
  assumes "zframe z s t"
  shows "zalloc_next_space t = zalloc_next_space s" "zalloc_end_of_space t = zalloc_end_of_space s"
    "kmem_results t = kmem_results s" "kmem_freed t = kmem_freed s"
  using arg_cong [OF assms [unfolded zframe_def], of zalloc_next_space]
    arg_cong [OF assms [unfolded zframe_def], of zalloc_end_of_space]
    arg_cong [OF assms [unfolded zframe_def], of kmem_results]
    arg_cong [OF assms [unfolded zframe_def], of kmem_freed]
  by (simp_all add: hide_zone_def)

lemma zkept_other: "zkept z s t \<Longrightarrow> y \<noteq> z \<Longrightarrow> zone t y = zone s y"
  unfolding zkept_def by (drule arg_cong [where f = "\<lambda>u. zone u y"]) (simp add: hide_zone_def hide_space_def)

lemma zkept_self:
  assumes "zkept z s t"
  shows "zone t z = (zone s z)\<lparr>z_count := z_count (zone t z), free_elements := free_elements (zone t z), cur_size := cur_size (zone t z)\<rparr>"
  using arg_cong [OF assms [unfolded zkept_def], of "\<lambda>u. zone u z"]
  by (cases "zone t z", cases "zone s z") (simp add: hide_zone_def hide_space_def)

lemma zkept_fields:
  assumes "zkept z s t"
  shows "elem_size (zone t y) = elem_size (zone s y)" "alloc_size (zone t y) = alloc_size (zone s y)"
    "max_size (zone t y) = max_size (zone s y)" "z_pageable (zone t y) = z_pageable (zone s y)"
    "z_exhaustible (zone t y) = z_exhaustible (zone s y)" "doing_alloc (zone t y) = doing_alloc (zone s y)"
    "next_zone (zone t y) = next_zone (zone s y)" "zone_name (zone t y) = zone_name (zone s y)"
proof -
  obtain c f u where e: "zone t y = (zone s y)\<lparr>z_count := c, free_elements := f, cur_size := u\<rparr>"
  proof (cases "y = z")
    case True
    then show ?thesis using zkept_self [OF assms] that by blast
  next
    case False
    then show ?thesis using zkept_other [OF assms, of y] 
      that [where c = "z_count (zone s y)" and f = "free_elements (zone s y)" and u = "cur_size (zone s y)"] by simp
  qed
  show "elem_size (zone t y) = elem_size (zone s y)" "alloc_size (zone t y) = alloc_size (zone s y)"
    "max_size (zone t y) = max_size (zone s y)" "z_pageable (zone t y) = z_pageable (zone s y)"
    "z_exhaustible (zone t y) = z_exhaustible (zone s y)" "doing_alloc (zone t y) = doing_alloc (zone s y)"
    "next_zone (zone t y) = next_zone (zone s y)" "zone_name (zone t y) = zone_name (zone s y)"
    by (simp_all add: e)
qed

lemma zkept_state:
  assumes "zkept z s t"
  shows "zpage_size t = zpage_size s" "zpage_mask t = zpage_mask s" "zone_zone t = zone_zone s"
    "first_zone t = first_zone s" "last_zone t = last_zone s" "num_zones t = num_zones s" "zdata t = zdata s"
    "zdata_size t = zdata_size s" "sizeof_zone t = sizeof_zone s" "zone_ignore_overflow t = zone_ignore_overflow s"
  using assms [unfolded zkept_def, THEN arg_cong, of zpage_size] assms [unfolded zkept_def, THEN arg_cong, of zpage_mask]
    assms [unfolded zkept_def, THEN arg_cong, of zone_zone] assms [unfolded zkept_def, THEN arg_cong, of first_zone]
    assms [unfolded zkept_def, THEN arg_cong, of last_zone] assms [unfolded zkept_def, THEN arg_cong, of num_zones]
    assms [unfolded zkept_def, THEN arg_cong, of zdata] assms [unfolded zkept_def, THEN arg_cong, of zdata_size]
    assms [unfolded zkept_def, THEN arg_cong, of sizeof_zone]
    assms [unfolded zkept_def, THEN arg_cong, of zone_ignore_overflow]
  by (simp_all add: hide_zone_def hide_space_def)

lemma same_data_trans:
  "same_data s L t \<Longrightarrow> same_data t L u \<Longrightarrow> (\<And>y. elem_size (zone t y) = elem_size (zone s y)) \<Longrightarrow> same_data s L u"
  by (simp add: same_data_def blk_def)

lemma same_data_refl: "mem t = mem s \<Longrightarrow> same_data s L t"
  by (simp add: same_data_def)

lemma core_cong: "mem t = mem s \<Longrightarrow> zone t = zone s \<Longrightarrow> zone_core U Z F t L X = zone_core U Z F s L X"
  by (simp add: zone_core_def blocks_cong [of t s])

lemma core_upd:
  assumes "\<And>v. elem_size (f v) = elem_size v" and "\<And>v. free_elements (f v) = free_elements v"
  shows "zone_core U Z F (upd_zone z f s) L X = zone_core U Z F s L X"
proof -
  have es: "elem_size (zone (upd_zone z f s) y) = elem_size (zone s y)"
    "free_elements (zone (upd_zone z f s) y) = free_elements (zone s y)" for y
    using assms by (simp_all add: upd_zone_def)
  have "mem (upd_zone z f s) = mem s" by (simp add: upd_zone_def)
  then show ?thesis unfolding zone_core_def blocks_cong [OF es(1)] es by simp
qed

subsection \<open>Cramming memory into a zone\<close>

lemma core_split:
  assumes "zone_core U Z F s L (add_mset x X)" and "cells y \<subseteq> cells x" and "cells w \<subseteq> cells x" and "cells y \<inter> cells w = {}"
  shows "zone_core U Z F s L (add_mset y (add_mset w X))"
  using assms apart_split [of x "blocks Z F s L + X" y w] by (auto simp: zone_core_def)

lemma core_merge:
  assumes "zone_core U Z F s L (add_mset x (add_mset y X))" and "cells w \<subseteq> cells x \<union> cells y"
  shows "zone_core U Z F s L (add_mset w X)"
  using assms apart_merge [of x y "blocks Z F s L + X" w] by (auto simp: zone_core_def)

lemma core_drop: "zone_core U Z F s L (add_mset x X) \<Longrightarrow> zone_core U Z F s L X"
  by (auto simp: zone_core_def apart_add)

lemma core_extra:
  assumes "zone_core U Z F s L (add_mset (unat a, n) X)" and "0 < n"
  shows "a \<noteq> 0" "unat a + n \<le> 2 ^ 31"
proof -
  have "cells (unat a, n) \<subseteq> U" "U \<subseteq> {0 <..< 2 ^ 31}" using assms(1) by (simp_all add: zone_core_def usable_def)
  moreover have "unat a \<in> cells (unat a, n)" "unat a + n - 1 \<in> cells (unat a, n)" using assms(2) by (auto simp: cells_def)
  ultimately have "0 < unat a" "unat a + n - 1 < 2 ^ 31" by auto
  then show "a \<noteq> 0" "unat a + n \<le> 2 ^ 31" by auto
qed

lemma cram_loop_core:
  assumes "zone_core U Z F s L (add_mset (unat a, unat len) X)" and "z \<in> set Z" and "e = elem_size (zone s z)" and "unat len < n"
  shows "\<exists>F' s'. cram_loop n z e a len s = Some s' \<and> zone_core U Z F' s' L X \<and> same_data s L s' \<and> zframe z s s' \<and>
    z_count (zone s' z) = z_count (zone s z) \<and> cur_size (zone s' z) = cur_size (zone s z) \<and> (F z \<noteq> [] \<or> e \<le> len \<longrightarrow> F' z \<noteq> [])"
  using assms
proof (induction n arbitrary: F s a len)
  case (Suc n)
  have e: "4 \<le> unat e" "unat e < 2 ^ 31" using Suc.prems by (auto simp: zone_core_def)
  show ?case
  proof (cases "e \<le> len")
    case False
    then show ?thesis
      using core_drop [OF Suc.prems(1)] by (intro exI [of _ F] exI [of _ s]) (auto simp: same_data_def zframe_def)
  next
    case True
    then have le: "unat e \<le> unat len" by (simp add: word_le_nat_alt)
    have r: "unat a + unat len \<le> 2 ^ 31" using core_extra(2) [OF Suc.prems(1)] e le by simp
    have len: "unat (len - e) = unat len - unat e" using True by (simp add: unat_sub)
    have a: "unat (a + e) = unat a + unat e" using r le by (simp add: unat_word_ariths)
    have "zone_core U Z F s L (add_mset (unat a, unat e) (add_mset (unat (a + e), unat (len - e)) X))"
      by (rule core_split [OF Suc.prems(1)]) (use le in \<open>auto simp: cells_def a len\<close>)
    then have live: "zone_core U Z F s ((z, a) # L) (add_mset (unat (a + e), unat (len - e)) X)"
      using Suc.prems(2, 3) by (simp add: core_live)
    define t where "t = upd_zone z (\<lambda>v. v\<lparr>z_count := z_count v + 1\<rparr>) (ADD_TO_ZONE z a s)"
    have tz: "zone t z = (zone s z)\<lparr>free_elements := a\<rparr>" and tm: "mem t = mem (ADD_TO_ZONE z a s)"
      by (simp_all add: t_def upd_zone_def ADD_TO_ZONE_simps)
    have core: "zone_core U Z (F(z := a # F z)) t L (add_mset (unat (a + e), unat (len - e)) X)"
      unfolding t_def using core_push(1) [OF live] by (simp add: core_upd)
    have data: "same_data s L t" using core_push(2) [OF live] by (simp add: same_data_def tm)
    have fr: "zframe z s t" by (simp add: zframe_def hide_zone_def t_def upd_zone_def ADD_TO_ZONE_def Let_def)
    have te: "e = elem_size (zone t z)" using Suc.prems(3) by (simp add: tz)
    have lt: "unat (len - e) < n" using Suc.prems(4) le e len by linarith
    obtain F' s' where IH: "cram_loop n z e (a + e) (len - e) t = Some s'" "zone_core U Z F' s' L X" "same_data t L s'"
        "zframe z t s'" "z_count (zone s' z) = z_count (zone t z)" "cur_size (zone s' z) = cur_size (zone t z)"
        "(F(z := a # F z)) z \<noteq> [] \<or> e \<le> len - e \<longrightarrow> F' z \<noteq> []"
      using Suc.IH [OF core Suc.prems(2) te lt] by blast
    have "same_data s L s'"
      by (rule same_data_trans [OF data IH(3)]) (rule zkept_fields(1) [OF zframe_kept [OF fr]])
    then show ?thesis
      using IH True zframe_trans [OF fr IH(4)] by (intro exI [of _ F'] exI [of _ s']) (simp add: t_def [symmetric] tz)
  qed
qed simp

lemma zcram_core:
  assumes "zone_core U Z F s L (add_mset (unat a, unat len) X)" and "z \<in> set Z" and "a \<noteq> 0"
  shows "\<exists>F' s'. zcram z a len s = Inr (Some s') \<and> zone_core U Z F' s' L X \<and> same_data s L s' \<and> zframe z s s' \<and>
    z_count (zone s' z) = z_count (zone s z) \<and> cur_size (zone s' z) = cur_size (zone s z) + len \<and>
    (elem_size (zone s z) \<le> len \<longrightarrow> F' z \<noteq> [])"
proof -
  define t where "t = upd_zone z (\<lambda>v. v\<lparr>cur_size := cur_size v + len\<rparr>) s"
  have core: "zone_core U Z F t L (add_mset (unat a, unat len) X)" using assms(1) by (simp add: t_def core_upd)
  have tz: "zone t z = (zone s z)\<lparr>cur_size := cur_size (zone s z) + len\<rparr>" and tm: "mem t = mem s"
    and te: "elem_size (zone t y) = elem_size (zone s y)" for y
    by (simp_all add: t_def upd_zone_def)
  have fr: "zframe z s t" by (simp add: zframe_def hide_zone_def t_def upd_zone_def)
  obtain F' s' where r: "cram_loop (Suc (unat len)) z (elem_size (zone s z)) a len t = Some s'" "zone_core U Z F' s' L X" "same_data t L s'"
        "zframe z t s'" "z_count (zone s' z) = z_count (zone t z)" "cur_size (zone s' z) = cur_size (zone t z)"
        "elem_size (zone s z) \<le> len \<longrightarrow> F' z \<noteq> []"
    using cram_loop_core [OF core assms(2), of "elem_size (zone s z)" "Suc (unat len)"] te by auto
  have "zcram z a len s = Inr (Some s')" using r(1) assms(3) by (simp add: zcram_def Let_def t_def)
  moreover have "same_data s L s'" using r(3) by (simp add: same_data_def tm blk_def te)
  ultimately show ?thesis using r zframe_trans [OF fr r(4)] by (intro exI [of _ F'] exI [of _ s']) (simp add: tz)
qed

subsection \<open>Space for unpaged zones\<close>

text \<open>
  The space set aside for unpaged zones and the memory the next calls of \<^verbatim>\<open>kmem_alloc\<close> return are
  blocks like those of the zones; the page size is a power of two the mask belongs to.
\<close>

definition space :: "zones \<Rightarrow> block" where
  "space s = (unat (zalloc_next_space s), unat (zalloc_end_of_space s) - unat (zalloc_next_space s))"

definition kmem_blocks :: "nat \<Rightarrow> u32 list \<Rightarrow> block multiset" where
  "kmem_blocks n ks = mset (map (\<lambda>k. (unat k, n)) (filter (\<lambda>k. k \<noteq> 0) ks))"

definition space_ok :: "zones \<Rightarrow> bool" where
  "space_ok s \<longleftrightarrow> zalloc_next_space s \<le> zalloc_end_of_space s \<and> unat (zalloc_end_of_space s) \<le> 2 ^ 31"

definition page_ok :: "zones \<Rightarrow> bool" where
  "page_ok s \<longleftrightarrow> (\<exists>k<31. zpage_size s = 2 ^ k \<and> zpage_mask s = 2 ^ k - 1)"

lemma round_page_ge:
  assumes "k < 31" and "unat x \<le> 2 ^ 31"
  shows "unat x \<le> unat (round_page (2 ^ k - 1) x)" "2 ^ k dvd unat (round_page (2 ^ k - 1) x)"
proof -
  have k: "(2 :: nat) ^ k < 2 ^ 31" using assms(1) by (rule power_strict_increasing) simp
  then have r: "unat (round_page (2 ^ k - 1) x) = (unat x + 2 ^ k - 1) div 2 ^ k * 2 ^ k"
    using assms by (intro round_page_unat) auto
  have "unat x + 2 ^ k - 1 < (unat x + 2 ^ k - 1) div 2 ^ k * 2 ^ k + 2 ^ k"
  proof -
    have "(unat x + 2 ^ k - 1) mod 2 ^ k < 2 ^ k" by simp
    then show ?thesis using div_mult_mod_eq [of "unat x + 2 ^ k - 1" "2 ^ k"] by linarith
  qed
  then show "unat x \<le> unat (round_page (2 ^ k - 1) x)" "2 ^ k dvd unat (round_page (2 ^ k - 1) x)"
    unfolding r by linarith simp
qed

lemma space_to_add_ge:
  assumes "page_ok s" and "unat len < 2 ^ 31" shows "unat len \<le> unat (space_to_add len s)"
proof -
  obtain k where k: "k < 31" "zpage_size s = 2 ^ k" "zpage_mask s = 2 ^ k - 1" using assms(1) by (auto simp: page_ok_def)
  show ?thesis
    using round_page_ge(1) [OF k(1), of len] assms(2) k by (auto simp: space_to_add_def word_less_nat_alt not_less)
qed

text \<open>The first part of the space is the new element.\<close>

lemma take_space:
  assumes "zone_core U Z F s L (add_mset (space s) X)" and "space_ok s" and "zalloc_next_space s + len \<le> zalloc_end_of_space s"
    and "unat len < 2 ^ 31" and "s' = s\<lparr>zalloc_next_space := zalloc_next_space s + len\<rparr>"
  shows "zone_core U Z F s' L (add_mset (unat (zalloc_next_space s), unat len) (add_mset (space s') X))" and "space_ok s'"
proof -
  have b: "unat (zalloc_next_space s) \<le> unat (zalloc_end_of_space s)" "unat (zalloc_end_of_space s) \<le> 2 ^ 31"
    using assms(2) by (auto simp: space_ok_def word_le_nat_alt)
  then have n: "unat (zalloc_next_space s + len) = unat (zalloc_next_space s) + unat len"
    using assms(4) by (simp add: unat_word_ariths)
  have le: "unat (zalloc_next_space s) + unat len \<le> unat (zalloc_end_of_space s)"
    using assms(3) by (simp add: word_le_nat_alt n)
  have "zone_core U Z F s L (add_mset (unat (zalloc_next_space s), unat len) (add_mset (space s') X))"
    by (rule core_split [OF assms(1)]) (use le in \<open>auto simp: cells_def space_def assms(5) n\<close>)
  then show "zone_core U Z F s' L (add_mset (unat (zalloc_next_space s), unat len) (add_mset (space s') X))"
    using core_cong [of s' s] by (simp add: assms(5))
  show "space_ok s'" using le b by (simp add: space_ok_def assms(5) word_le_nat_alt n)
qed

text \<open>New memory extends the space or replaces it.\<close>

definition new_space :: "u32 \<Rightarrow> u32 \<Rightarrow> zones \<Rightarrow> zones" where
  "new_space k n s = (if k \<noteq> zalloc_end_of_space s then s\<lparr>zalloc_next_space := k\<rparr> else s)\<lparr>zalloc_end_of_space := k + n\<rparr>"

lemma new_space_core:
  assumes "zone_core U Z F s L (add_mset (space s) (add_mset (unat k, unat n) X))" and "space_ok s" and "0 < unat n"
  shows "zone_core U Z F (new_space k n s) L (add_mset (space (new_space k n s)) X)" and "space_ok (new_space k n s)"
    and "unat (zalloc_next_space (new_space k n s)) + unat n \<le> unat (zalloc_end_of_space (new_space k n s))"
proof -
  let ?t = "new_space k n s"
  have "zone_core U Z F s L (add_mset (unat k, unat n) (add_mset (space s) X))" using assms(1) by (simp add: add_mset_commute)
  from core_extra [OF this assms(3)] have k: "unat k + unat n \<le> 2 ^ 31" by simp
  then have kn: "unat (k + n) = unat k + unat n" by (simp add: unat_word_ariths)
  have b: "unat (zalloc_next_space s) \<le> unat (zalloc_end_of_space s)"
    using assms(2) by (auto simp: space_ok_def word_le_nat_alt)
  have "zone_core U Z F s L (add_mset (space ?t) X)"
    by (rule core_merge [OF assms(1)]) (use b in \<open>auto simp: cells_def space_def new_space_def kn\<close>)
  then show "zone_core U Z F ?t L (add_mset (space ?t) X)" using core_cong [of ?t s] by (simp add: new_space_def)
  show "space_ok ?t" "unat (zalloc_next_space ?t) + unat n \<le> unat (zalloc_end_of_space ?t)"
    using b k by (auto simp: space_ok_def new_space_def word_le_nat_alt kn)
qed

lemma zget_space_new:
  assumes "zalloc_next_space s + len > zalloc_end_of_space s" and "kmem_results s = k # ks" and "k \<noteq> 0"
    and "u = new_space k (space_to_add len s) (s\<lparr>kmem_results := ks\<rparr>)" and "zalloc_next_space u + len \<le> zalloc_end_of_space u"
  shows "zget_space len s = Some (zalloc_next_space u, u\<lparr>zalloc_next_space := zalloc_next_space u + len\<rparr>)"
proof -
  define t where "t = s\<lparr>kmem_results := ks\<rparr>"
  have t: "zalloc_next_space t + len > zalloc_end_of_space t" using assms(1) by (simp add: t_def)
  have u: "(let s = (if k \<noteq> zalloc_end_of_space t then t\<lparr>zalloc_next_space := k\<rparr> else t)
      in s\<lparr>zalloc_end_of_space := k + space_to_add len s\<rparr>) = u"
    by (simp add: assms(4) new_space_def Let_def space_to_add_def t_def)
  have three: "zget_space_loop (Suc m) len 0 s = zget_space_loop m len k t" for m
    using assms(1-3) by (simp add: kmem_alloc_def t_def)
  have two: "zget_space_loop (Suc m) len k t = zget_space_loop m len 0 u" for m
    using t assms(3) u by (auto simp: Let_def)
  have one: "zget_space_loop (Suc m) len 0 u = Some (zalloc_next_space u, u\<lparr>zalloc_next_space := zalloc_next_space u + len\<rparr>)" for m
    using leD [OF assms(5)] by (simp add: Let_def)
  have "zget_space len s = zget_space_loop (Suc (Suc (Suc (Suc (2 * length ks))))) len 0 s"
    by (simp only: zget_space_def assms(2) list.size) simp
  then show ?thesis by (simp only: three two one)
qed

text \<open>
  \<^verbatim>\<open>zget_space\<close> returns memory of its own, or 0 when it needed new memory and there was none.
\<close>

lemma zget_space_core:
  assumes "zone_core U Z F s L (add_mset (space s) (kmem_blocks n (kmem_results s) + X))" and "n = unat (space_to_add len s)"
    and "space_ok s" and "page_ok s" and "0 < unat len" and "unat len < 2 ^ 31"
  shows "\<exists>a s'. zget_space len s = Some (a, s') \<and> space_ok s' \<and> hide_space s' = hide_space s \<and>
    zone_core U Z F s' L ((if a = 0 then {#} else {#(unat a, unat len)#}) + add_mset (space s') (kmem_blocks n (kmem_results s') + X)) \<and>
    (a = 0 \<longrightarrow> kmem_results s = [] \<or> hd (kmem_results s) = 0)"
proof (cases "zalloc_next_space s + len \<le> zalloc_end_of_space s")
  case True
  define s' where "s' = s\<lparr>zalloc_next_space := zalloc_next_space s + len\<rparr>"
  note t = take_space [OF assms(1, 3) True assms(6) s'_def]
  have "zalloc_next_space s \<noteq> 0" using core_extra(1) [OF t(1) assms(5)] .
  moreover have "zget_space len s = Some (zalloc_next_space s, s')"
    using leD [OF True] by (simp add: zget_space_def s'_def Let_def)
  ultimately show ?thesis using t by (intro exI [of _ "zalloc_next_space s"] exI [of _ s']) (auto simp: s'_def hide_space_def add_mset_commute)
next
  case False
  then have full: "zalloc_next_space s + len > zalloc_end_of_space s" by (simp add: not_le)
  show ?thesis
  proof (cases "kmem_results s = [] \<or> hd (kmem_results s) = 0")
    case True
    define s' where "s' = s\<lparr>kmem_results := tl (kmem_results s)\<rparr>"
    have "zget_space len s = Some (0, s')"
      using full True by (cases "kmem_results s") (simp_all add: zget_space_def kmem_alloc_def s'_def)
    moreover have "kmem_blocks n (kmem_results s') = kmem_blocks n (kmem_results s)"
      using True by (cases "kmem_results s") (auto simp: kmem_blocks_def s'_def)
    moreover have "zone_core U Z F s' L = zone_core U Z F s L" "space s' = space s" "space_ok s' = space_ok s"
      using core_cong [of s' s] by (auto simp: s'_def space_def space_ok_def)
    ultimately show ?thesis using assms(1, 3) True by (intro exI [of _ 0] exI [of _ s']) (auto simp: s'_def hide_space_def)
  next
    case False
    then obtain k ks where ks: "kmem_results s = k # ks" and k: "k \<noteq> 0" by (cases "kmem_results s") auto
    define t where "t = s\<lparr>kmem_results := ks\<rparr>"
    have tc: "zone_core U Z F t L = zone_core U Z F s L" "space t = space s" "space_ok t" "space_to_add len t = space_to_add len s"
      using core_cong [of t s] assms(3) by (auto simp: t_def space_def space_ok_def space_to_add_def)
    have ge: "unat len \<le> unat (space_to_add len s)" using space_to_add_ge [OF assms(4, 6)] .
    have "zone_core U Z F t L (add_mset (space t) (add_mset (unat k, unat (space_to_add len s)) (kmem_blocks n ks + X)))"
      using assms(1, 2) k by (simp add: tc ks kmem_blocks_def)
    note new = new_space_core [OF this tc(3)]
    define u where "u = new_space k (space_to_add len s) t"
    have uc: "zone_core U Z F u L (add_mset (space u) (kmem_blocks n ks + X))" "space_ok u"
        "unat (zalloc_next_space u) + unat (space_to_add len s) \<le> unat (zalloc_end_of_space u)"
      using new assms(5) ge unfolding u_def by auto
    have "unat (zalloc_next_space u) + unat len < 2 ^ 32" using uc(2, 3) ge assms(6) by (auto simp: space_ok_def)
    then have fits: "zalloc_next_space u + len \<le> zalloc_end_of_space u"
      using uc(3) ge by (simp add: word_le_nat_alt unat_word_ariths)
    define s' where "s' = u\<lparr>zalloc_next_space := zalloc_next_space u + len\<rparr>"
    note fin = take_space [OF uc(1, 2) fits assms(6) s'_def]
    have nz: "zalloc_next_space u \<noteq> 0" using core_extra(1) [OF fin(1) assms(5)] .
    have "zget_space len s = Some (zalloc_next_space u, s')"
      unfolding s'_def by (rule zget_space_new [OF full ks k u_def [unfolded t_def] fits])
    moreover have "kmem_results s' = ks" "hide_space s' = hide_space s"
      by (auto simp: s'_def u_def new_space_def t_def hide_space_def)
    ultimately show ?thesis
      using fin nz by (intro exI [of _ "zalloc_next_space u"] exI [of _ s']) (simp add: add_mset_commute)
  qed
qed

subsection \<open>Allocation\<close>

text \<open>The memory an allocation from the zone \<open>z\<close> can draw on: the free space, and what \<^verbatim>\<open>kmem_alloc\<close> returns.\<close>

definition kmem_request :: "u32 \<Rightarrow> zones \<Rightarrow> u32" where
  "kmem_request z s = (if z_pageable (zone s z) then alloc_size (zone s z) else space_to_add (elem_size (zone s z)) s)"

definition reserve :: "u32 \<Rightarrow> zones \<Rightarrow> block multiset" where
  "reserve z s = add_mset (space s) (kmem_blocks (unat (kmem_request z s)) (kmem_results s))"

lemma kmem_request_kept: "zkept z s t \<Longrightarrow> kmem_request z t = kmem_request z s"
  by (simp add: kmem_request_def zkept_fields space_to_add_def zkept_state)

lemma reserve_frame: "zframe z s t \<Longrightarrow> reserve z t = reserve z s"
  by (simp add: reserve_def space_def kmem_request_kept [OF zframe_kept] zframe_space)

text \<open>
  What a call that returns \<open>a\<close> has done: a new element of the zone is handed out, unless \<open>a\<close> is 0, and
  nothing the elements hold has changed.
\<close>

definition handed :: "nat set \<Rightarrow> u32 list \<Rightarrow> u32 \<Rightarrow> zones \<Rightarrow> (u32 \<times> u32) list \<Rightarrow> block multiset \<Rightarrow> u32 \<Rightarrow> zones \<Rightarrow> bool" where
  "handed U Z z s L X a s' \<longleftrightarrow>
     (\<exists>F. zone_core U Z F s' (if a = 0 then L else (z, a) # L) (reserve z s' + X)) \<and> zkept z s s' \<and> same_data s L s' \<and>
     space_ok s' \<and> z_count (zone s' z) = z_count (zone s z) + (if a = 0 then 0 else 1)"

lemma handed_trans:
  assumes "zkept z s t" and "same_data s L t" and "z_count (zone t z) = z_count (zone s z)" and "handed U Z z t L X a s'"
  shows "handed U Z z s L X a s'"
  using assms zkept_trans [OF assms(1), of s'] same_data_trans [OF assms(2), of s'] zkept_fields(1) [OF assms(1)]
  unfolding handed_def by simp

lemma handed_pop:
  assumes "zone_core U Z F s L (reserve z s + X)" and "z \<in> set Z" and "space_ok s" and "REMOVE_FROM_ZONE z s = (a, s')"
  shows "handed U Z z s L X a s'" and "a = 0 \<Longrightarrow> s' = s" and "a = 0 \<Longrightarrow> F z = []"
proof -
  note pop = core_pop [OF assms(1, 2, 4)]
  show "handed U Z z s L X a s'"
  proof (cases "a = 0")
    case True
    then show ?thesis using pop(1) assms(1, 3) by (auto simp: handed_def zkept_def same_data_def)
  next
    case False
    then obtain xs where core: "zone_core U Z (F(z := xs)) s' ((z, a) # L) (reserve z s + X)" and m: "mem s' = mem s" and
        s': "s' = s\<lparr>zone := (zone s)(z := (zone s z)\<lparr>z_count := z_count (zone s z) + 1, free_elements := load32 (mem s) a\<rparr>)\<rparr>"
      using pop(2) by blast
    have fr: "zframe z s s'" by (simp add: zframe_def hide_zone_def s')
    have "z_count (zone s' z) = z_count (zone s z) + 1" "space_ok s'" using assms(3) by (auto simp: s' space_ok_def)
    then show ?thesis
      using core False zframe_kept [OF fr] same_data_refl [OF m] unfolding handed_def reserve_frame [OF fr] by auto
  qed
  show "s' = s" "F z = []" if "a = 0" using pop(1) that by simp_all
qed

text \<open>The pages of a pageable zone that grows.\<close>

definition set_doing :: "bool \<Rightarrow> u32 \<Rightarrow> zones \<Rightarrow> zones" where
  "set_doing b z = upd_zone z (\<lambda>v. v\<lparr>doing_alloc := b\<rparr>)"

lemma zframe_doing: "zframe z s t \<Longrightarrow> zframe z (set_doing b z s) (set_doing b z t)"
proof -
  assume "zframe z s t"
  moreover have "hide_zone z (set_doing b z u) = set_doing b z (hide_zone z u)" for u
    by (cases "zone u z") (simp add: hide_zone_def set_doing_def upd_zone_def)
  ultimately show ?thesis by (simp add: zframe_def)
qed

lemma grow_core:
  assumes "zone_core U Z F s L (reserve z s + X)" and "z \<in> set Z" and "z_pageable (zone s z)" and "\<not> doing_alloc (zone s z)"
    and "kmem_results s = k # ks" and "k \<noteq> 0"
  shows "\<exists>F' t. zcram z k (alloc_size (zone s z)) (set_doing True z (s\<lparr>kmem_results := ks\<rparr>)) = Inr (Some t) \<and>
    zone_core U Z F' (set_doing False z t) L (reserve z (set_doing False z t) + X) \<and> zkept z s (set_doing False z t) \<and>
    same_data s L (set_doing False z t) \<and> z_count (zone (set_doing False z t) z) = z_count (zone s z) \<and>
    kmem_results (set_doing False z t) = ks \<and> space (set_doing False z t) = space s \<and> space_ok (set_doing False z t) = space_ok s \<and>
    (elem_size (zone s z) \<le> alloc_size (zone s z) \<longrightarrow> F' z \<noteq> [])"
proof -
  define r where "r = s\<lparr>kmem_results := ks\<rparr>"
  let ?u = "set_doing True z r"
  have u: "mem ?u = mem s" "z_count (zone ?u z) = z_count (zone s z)" "elem_size (zone ?u y) = elem_size (zone s y)" for y
    by (simp_all add: set_doing_def upd_zone_def r_def)
  have "zone_core U Z F r L (add_mset (unat k, unat (alloc_size (zone s z))) (reserve z r + X))"
    using assms(1, 3, 5, 6) core_cong [of r s]
    by (simp add: reserve_def kmem_request_def kmem_blocks_def r_def space_def add_mset_commute)
  then have core: "zone_core U Z F ?u L (add_mset (unat k, unat (alloc_size (zone s z))) (reserve z r + X))"
    by (simp add: set_doing_def core_upd)
  obtain F' t where t: "zcram z k (alloc_size (zone s z)) ?u = Inr (Some t)" "zone_core U Z F' t L (reserve z r + X)"
      "same_data ?u L t" "zframe z ?u t" "z_count (zone t z) = z_count (zone ?u z)" "elem_size (zone s z) \<le> alloc_size (zone s z) \<longrightarrow> F' z \<noteq> []"
    using zcram_core [OF core assms(2, 6)] unfolding u(3) by blast
  have "(zone s z)\<lparr>doing_alloc := False\<rparr> = zone s z" using assms(4) by (cases "zone s z") simp
  then have off: "set_doing False z ?u = r" by (simp add: set_doing_def upd_zone_def r_def)
  let ?t = "set_doing False z t"
  have fr: "zframe z r ?t" using zframe_doing [OF t(4), of False] by (simp only: off)
  have "zkept z s r" by (simp add: zkept_def hide_space_def hide_zone_def r_def)
  then have "zkept z s ?t" using zframe_kept [OF fr] by (rule zkept_trans)
  moreover have "mem ?t = mem t" by (simp add: set_doing_def upd_zone_def)
  then have "same_data s L ?t" using t(3) by (simp add: same_data_def u blk_def)
  moreover have "zone_core U Z F' ?t L (reserve z ?t + X)"
    using t(2) unfolding reserve_frame [OF fr] by (simp add: set_doing_def core_upd)
  moreover have "z_count (zone ?t z) = z_count (zone s z)" using t(5) u by (simp add: set_doing_def upd_zone_def)
  moreover have "kmem_results ?t = ks" "space ?t = space s" "space_ok ?t = space_ok s"
    using zframe_space [OF fr] by (simp_all add: r_def space_def space_ok_def)
  ultimately show ?thesis using t(1, 6) unfolding r_def by blast
qed

text \<open>The element an unpaged zone takes from the free space.\<close>

lemma unpaged_core:
  assumes "zone_core U Z F s L (reserve z s + X)" and "z \<in> set Z" and "\<not> z_pageable (zone s z)" and "space_ok s" and "page_ok s"
  shows "\<exists>a t. zget_space (elem_size (zone s z)) s = Some (a, t) \<and> (a = 0 \<longrightarrow> kmem_results s = [] \<or> hd (kmem_results s) = 0) \<and>
    (a \<noteq> 0 \<longrightarrow> handed U Z z s L X a
       (upd_zone z (\<lambda>v. v\<lparr>cur_size := cur_size v + elem_size v\<rparr>) (upd_zone z (\<lambda>v. v\<lparr>z_count := z_count v + 1\<rparr>) t)))"
proof -
  let ?e = "elem_size (zone s z)" and ?n = "unat (kmem_request z s)"
  have e: "0 < unat ?e" "unat ?e < 2 ^ 31" using assms(1, 2) by (force simp: zone_core_def)+
  have core: "zone_core U Z F s L (add_mset (space s) (kmem_blocks ?n (kmem_results s) + X))" using assms(1) by (simp add: reserve_def)
  have n: "?n = unat (space_to_add ?e s)" using assms(3) by (simp add: kmem_request_def)
  obtain a t where t: "zget_space ?e s = Some (a, t)" "space_ok t" "hide_space t = hide_space s"
      "zone_core U Z F t L ((if a = 0 then {#} else {#(unat a, unat ?e)#}) + add_mset (space t) (kmem_blocks ?n (kmem_results t) + X))"
      "a = 0 \<longrightarrow> kmem_results s = [] \<or> hd (kmem_results s) = 0"
    using zget_space_core [OF core n assms(4, 5) e] by blast
  define u where "u = upd_zone z (\<lambda>v. v\<lparr>cur_size := cur_size v + elem_size v\<rparr>) (upd_zone z (\<lambda>v. v\<lparr>z_count := z_count v + 1\<rparr>) t)"
  have m: "mem t = mem s" "zone t = zone s"
    using arg_cong [OF t(3), of mem] arg_cong [OF t(3), of zone] by (simp_all add: hide_space_def)
  have "handed U Z z s L X a u" if "a \<noteq> 0"
  proof -
    have fr: "zframe z t u"
      by (simp add: zframe_def hide_zone_def u_def upd_zone_def)
    have "hide_space (hide_zone z t) = hide_space (hide_zone z s)"
      using arg_cong [OF t(3), of "hide_zone z"] by (simp add: hide_commute)
    then have "zkept z s t" by (simp add: zkept_def)
    then have k: "zkept z s u" using zframe_kept [OF fr] by (rule zkept_trans)
    have "zone_core U Z F t ((z, a) # L) (add_mset (space t) (kmem_blocks ?n (kmem_results t) + X))"
      using t(4) that assms(2) by (simp add: core_live m add_mset_commute)
    then have "zone_core U Z F u ((z, a) # L) (reserve z u + X)"
      using zframe_space [OF fr] by (simp add: u_def core_upd reserve_def kmem_request_kept [OF k, unfolded u_def] space_def)
    moreover have "mem u = mem s" "space_ok u" "z_count (zone u z) = z_count (zone s z) + 1"
      using t(2) m by (simp_all add: u_def upd_zone_def space_ok_def)
    ultimately show ?thesis using that k same_data_refl [of u s] by (auto simp: handed_def)
  qed
  then show ?thesis using t(1, 5) unfolding u_def by blast
qed

text \<open>A turn of the loop of \<^verbatim>\<open>zalloc\<close> in which a pageable zone grows.\<close>

lemma page_turn:
  assumes "zone_core U Z F s L (reserve z s + X)" and "z \<in> set Z" and "\<not> (zone_full z s \<and> z_exhaustible (zone s z))"
    and "\<not> (zone_full z s \<and> \<not> zone_ignore_overflow s)" and "z_pageable (zone s z)" and "\<not> doing_alloc (zone s z)"
    and "kmem_results s = k # ks" and "k \<noteq> 0"
  shows "\<exists>F' u a v. zalloc_loop (Suc n) z 0 s = zalloc_loop n z a v \<and> REMOVE_FROM_ZONE z u = (a, v) \<and>
    zone_core U Z F' u L (reserve z u + X) \<and> zkept z s u \<and> same_data s L u \<and> z_count (zone u z) = z_count (zone s z) \<and>
    kmem_results u = ks \<and> space_ok u = space_ok s \<and> (elem_size (zone s z) \<le> alloc_size (zone s z) \<longrightarrow> F' z \<noteq> [])"
proof -
  obtain F' t where t: "zcram z k (alloc_size (zone s z)) (set_doing True z (s\<lparr>kmem_results := ks\<rparr>)) = Inr (Some t)"
      "zone_core U Z F' (set_doing False z t) L (reserve z (set_doing False z t) + X)" "zkept z s (set_doing False z t)"
      "same_data s L (set_doing False z t)" "z_count (zone (set_doing False z t) z) = z_count (zone s z)"
      "kmem_results (set_doing False z t) = ks" "space_ok (set_doing False z t) = space_ok s"
      "elem_size (zone s z) \<le> alloc_size (zone s z) \<longrightarrow> F' z \<noteq> []"
    using grow_core [OF assms(1, 2, 5-8)] by blast
  define u where "u = set_doing False z t"
  obtain a v where p: "REMOVE_FROM_ZONE z u = (a, v)" by (cases "REMOVE_FROM_ZONE z u")
  have "set_doing True z (s\<lparr>kmem_results := ks\<rparr>) = (set_doing True z s)\<lparr>kmem_results := ks\<rparr>"
    "alloc_size (zone (set_doing True z s) z) = alloc_size (zone s z)" "kmem_results (set_doing True z s) = k # ks"
    using assms(7) by (simp_all add: set_doing_def upd_zone_def)
  then have "zalloc_loop (Suc n) z 0 s = zalloc_loop n z a v"
    using assms(3-8) t(1) p by (auto simp: set_doing_def [symmetric] kmem_alloc_def rbind_def u_def)
  then show ?thesis using t(2-8) p unfolding u_def by blast
qed

text \<open>
  \<^verbatim>\<open>zalloc\<close> can only panic when the zone is full, when \<^verbatim>\<open>kmem_alloc\<close> fails, or when the zone grows by
  less than an element at a time.
\<close>

definition may_panic :: "u32 \<Rightarrow> zones \<Rightarrow> bool" where
  "may_panic z s \<longleftrightarrow> zone_full z s \<or> kmem_results s = [] \<or> hd (kmem_results s) = 0 \<or>
     z_pageable (zone s z) \<and> alloc_size (zone s z) < elem_size (zone s z)"

text \<open>
  The loop of \<^verbatim>\<open>zalloc\<close> ends: it panics or returns, and only an exhaustible zone returns nothing.
\<close>

lemma zalloc_loop_core:
  assumes "zone_core U Z F s L (reserve z s + X)" and "z \<in> set Z" and "\<not> doing_alloc (zone s z)" and "space_ok s" and "page_ok s"
    and "length (kmem_results s) + 1 < n"
  shows "(\<exists>e. zalloc_loop n z 0 s = Inl e \<and> may_panic z s) \<or>
    (\<exists>a s'. zalloc_loop n z 0 s = Inr (Some (a, s')) \<and> handed U Z z s L X a s' \<and> (a = 0 \<longrightarrow> z_exhaustible (zone s z)))"
  using assms
proof (induction n arbitrary: F s)
  case (Suc n)
  consider "zone_full z s" "z_exhaustible (zone s z)" | "zone_full z s" "\<not> z_exhaustible (zone s z)" "\<not> zone_ignore_overflow s"
    | "\<not> (zone_full z s \<and> z_exhaustible (zone s z))" "\<not> (zone_full z s \<and> \<not> zone_ignore_overflow s)" "\<not> z_pageable (zone s z)"
    | "\<not> (zone_full z s \<and> z_exhaustible (zone s z))" "\<not> (zone_full z s \<and> \<not> zone_ignore_overflow s)" "z_pageable (zone s z)"
    by blast
  then show ?case
  proof cases
    case 1
    have "handed U Z z s L X 0 s" using Suc.prems(1, 4) by (auto simp: handed_def zkept_def same_data_def)
    then show ?thesis using 1 Suc.prems(3) by (intro disjI2 exI [of _ 0] exI [of _ s]) simp
  next
    case 2
    then show ?thesis using Suc.prems(3) by (simp add: may_panic_def)
  next
    case 3
    obtain a t where t: "zget_space (elem_size (zone s z)) s = Some (a, t)" and k: "a = 0 \<longrightarrow> kmem_results s = [] \<or> hd (kmem_results s) = 0" and h: "a \<noteq> 0 \<longrightarrow> handed U Z z s L X a
       (upd_zone z (\<lambda>v. v\<lparr>cur_size := cur_size v + elem_size v\<rparr>) (upd_zone z (\<lambda>v. v\<lparr>z_count := z_count v + 1\<rparr>) t))"
      using unpaged_core [OF Suc.prems(1, 2) 3(3) Suc.prems(4, 5)] by blast
    have "zalloc_loop (Suc n) z 0 s = (if a = 0 then Inl ''zalloc'' else Inr (Some (a,
       upd_zone z (\<lambda>v. v\<lparr>cur_size := cur_size v + elem_size v\<rparr>) (upd_zone z (\<lambda>v. v\<lparr>z_count := z_count v + 1\<rparr>) t))))"
      using t 3 Suc.prems(3) by (cases "zone_full z s") (simp_all add: rbind_def Let_def)
    moreover have "may_panic z s" if "a = 0" using k that by (auto simp: may_panic_def)
    ultimately show ?thesis using h by (cases "a = 0") simp_all
  next
    case 4
    show ?thesis
    proof (cases "kmem_results s = [] \<or> hd (kmem_results s) = 0")
      case True
      then show ?thesis
        using 4 Suc.prems(3) by (cases "kmem_results s") (auto simp: kmem_alloc_def upd_zone_def zcram_def rbind_def may_panic_def)
    next
      case False
      then obtain k ks where k: "kmem_results s = k # ks" "k \<noteq> 0" by (cases "kmem_results s") auto
      obtain F' u a v where u: "zalloc_loop (Suc n) z 0 s = zalloc_loop n z a v" "REMOVE_FROM_ZONE z u = (a, v)"
          "zone_core U Z F' u L (reserve z u + X)" "zkept z s u" "same_data s L u" "z_count (zone u z) = z_count (zone s z)"
          "kmem_results u = ks" "space_ok u" "elem_size (zone s z) \<le> alloc_size (zone s z) \<longrightarrow> F' z \<noteq> []"
        using page_turn [OF Suc.prems(1, 2) 4 Suc.prems(3) k] Suc.prems(4) by blast
      note h = handed_pop [OF u(3) Suc.prems(2) u(8) u(2)]
      show ?thesis
      proof (cases "a = 0")
        case False
        then have "zalloc_loop n z a v = Inr (Some (a, v))" using Suc.prems(6) by (cases n) auto
        moreover have "handed U Z z s L X a v" by (rule handed_trans [OF u(4-6) h(1)])
        ultimately show ?thesis using u(1) False by auto
      next
        case True
        then have v: "v = u" using h(2) by simp
        have "\<not> doing_alloc (zone u z)" "page_ok u" "length (kmem_results u) + 1 < n"
          using Suc.prems(3, 5, 6) u(7) k zkept_fields(6) [OF u(4)] zkept_state(1, 2) [OF u(4)]
          by (auto simp: page_ok_def)
        note IH = Suc.IH [OF u(3) Suc.prems(2) this(1) u(8) this(2, 3)]
        moreover have "may_panic z s" using u(9) h(3) True 4(3) by (auto simp: may_panic_def)
        ultimately show ?thesis
          using u(1) True v handed_trans [OF u(4-6)] zkept_fields(5) [OF u(4)] by auto
      qed
    qed
  qed
qed simp

end
