(* ===== verification/ZoneSafe.thy ===== *)
theory ZoneSafe
  imports ZoneInv
begin

text \<open>
  The zone allocator as a whole: the states its operations reach from \<^verbatim>\<open>zone_bootstrap\<close>, the
  invariant of those states, and what the operations promise their callers.
\<close>

subsection \<open>The memory kmem\_alloc provides\<close>

definition kmem_cells :: "nat \<Rightarrow> u32 list \<Rightarrow> nat set" where
  "kmem_cells n ks = (\<Union>k\<in>set ks - {0}. cells (unat k, n))"

text \<open>
  The results \<open>ks\<close> of \<^verbatim>\<open>kmem_alloc\<close>, asked for \<open>n\<close> bytes each: 0, or new memory that overlaps neither
  what the allocator already has nor another result.
\<close>

definition kmem_fresh :: "nat set \<Rightarrow> nat \<Rightarrow> u32 list \<Rightarrow> bool" where
  "kmem_fresh U n ks \<longleftrightarrow>
     usable (kmem_cells n ks) \<and> kmem_cells n ks \<inter> U = {} \<and> apart (kmem_blocks n ks)"

lemma apart_union:
  "apart A \<Longrightarrow> apart B \<Longrightarrow> (\<And>x y. x \<in># A \<Longrightarrow> y \<in># B \<Longrightarrow> cells x \<inter> cells y = {}) \<Longrightarrow> apart (A + B)"
proof (induction A)
  case (add x A)
  then have "apart (A + B)" by (simp add: apart_add)
  moreover have "cells x \<inter> cells y = {}" if "y \<in># A + B" for y
    using add.prems(1) add.prems(3) [of x y] that by (auto simp: apart_add)
  ultimately show ?case by (simp add: apart_add)
qed simp

lemma core_mono: "zone_core U Z F s L (X + Y) \<Longrightarrow> zone_core U Z F s L X"
  by (induction Y) (auto dest: core_drop)

lemma core_fresh:
  assumes "zone_core U Z F s L X" and "kmem_fresh U n ks"
  shows "zone_core (U \<union> kmem_cells n ks) Z F s L (kmem_blocks n ks + X)"
proof -
  have k: "cells b \<subseteq> kmem_cells n ks" if "b \<in># kmem_blocks n ks" for b
    using that by (auto simp: kmem_blocks_def kmem_cells_def)
  have U: "cells b \<subseteq> U" if "b \<in># blocks Z F s L + X" for b
    using assms(1) that by (auto simp: zone_core_def)
  have "apart (kmem_blocks n ks + (blocks Z F s L + X))"
  proof (rule apart_union)
    show "apart (kmem_blocks n ks)" "apart (blocks Z F s L + X)"
      using assms by (simp_all add: kmem_fresh_def zone_core_def)
    show "cells x \<inter> cells y = {}" if "x \<in># kmem_blocks n ks" "y \<in># blocks Z F s L + X" for x y
      using k [OF that(1)] U [OF that(2)] assms(2) by (auto simp: kmem_fresh_def)
  qed
  then have "apart (blocks Z F s L + (kmem_blocks n ks + X))" by (simp add: ac_simps)
  moreover have "usable (U \<union> kmem_cells n ks)" using assms by (simp add: zone_core_def kmem_fresh_def usable_def)
  moreover have "\<forall>b\<in>#blocks Z F s L + (kmem_blocks n ks + X). cells b \<subseteq> U \<union> kmem_cells n ks"
    using k U by fastforce
  ultimately show ?thesis using assms(1) by (simp add: zone_core_def)
qed

subsection \<open>The invariant\<close>

text \<open>The list of all zones.\<close>

fun zlist :: "zones \<Rightarrow> u32 \<Rightarrow> u32 list \<Rightarrow> bool" where
  "zlist s a [] = (a = 0)"
| "zlist s a (z # zs) = (a = z \<and> zlist s (next_zone (zone s z)) zs)"

lemma zlist_cong:
  "(\<And>z. z \<in> set zs \<Longrightarrow> next_zone (zone t z) = next_zone (zone s z)) \<Longrightarrow> zlist t a zs = zlist s a zs"
  by (induction zs arbitrary: a) auto

text \<open>
  Every zone but the first, which occupies the start of \<^verbatim>\<open>zdata\<close>, is an element of the zone of zones;
  the count of a zone is the number of its elements handed out.
\<close>

definition struct0 :: "zones \<Rightarrow> block" where
  "struct0 s = (unat (zdata s), unat (sizeof_zone s))"

definition zone_inv :: "nat set \<Rightarrow> u32 list \<Rightarrow> zones \<Rightarrow> (u32 \<times> u32) list \<Rightarrow> bool" where
  "zone_inv U Z s L \<longleftrightarrow>
     (\<exists>F. zone_core U Z F s L {#space s, struct0 s#}) \<and> space_ok s \<and> page_ok s \<and> 0 < unat (sizeof_zone s) \<and>
     zone_zone s = zdata s \<and> zdata s \<in> set Z \<and> (\<forall>z\<in>set Z. z = zdata s \<or> (zone_zone s, z) \<in> set L) \<and>
     (\<forall>z\<in>set Z. \<not> doing_alloc (zone s z) \<and> z_count (zone s z) = int (length (filter (\<lambda>p. fst p = z) L))) \<and>
     zlist s (first_zone s) Z \<and> last_zone s = Some (last Z) \<and> num_zones s = int (length Z)"

lemma inv_zone_nonzero:
  assumes "zone_inv U Z s L" and "z \<in> set Z" shows "z \<noteq> 0"
proof -
  obtain F where core: "zone_core U Z F s L {#space s, struct0 s#}" and i: "z = zdata s \<or> (zone_zone s, z) \<in> set L"
      and sz: "0 < unat (sizeof_zone s)"
    using assms by (auto simp: zone_inv_def)
  have "zone_core U Z F s L (add_mset (unat (zdata s), unat (sizeof_zone s)) {#space s#})"
    using core by (simp add: struct0_def add_mset_commute)
  then have "zdata s \<noteq> 0" using core_extra(1) sz by blast
  then show ?thesis using i core_elem(1) [OF core, of "(zone_zone s, z)"] by auto
qed

lemma inv_kmem: "zone_inv U Z (s\<lparr>kmem_results := ks\<rparr>) L = zone_inv U Z s L"
proof -
  have "zlist (s\<lparr>kmem_results := ks\<rparr>) (first_zone s) Z = zlist s (first_zone s) Z" by (rule zlist_cong) simp
  then show ?thesis
    using core_cong [of "s\<lparr>kmem_results := ks\<rparr>" s] by (simp add: zone_inv_def space_def space_ok_def page_ok_def struct0_def)
qed

text \<open>An element handed out keeps the invariant.\<close>

lemma inv_handed:
  assumes "zone_inv U Z s L" and "z \<in> set Z" and "handed U' Z z s L {#struct0 s#} a s'"
  shows "zone_inv U' Z s' (if a = 0 then L else (z, a) # L)"
proof -
  obtain F where core: "zone_core U' Z F s' (if a = 0 then L else (z, a) # L) (reserve z s' + {#struct0 s#})"
      and k: "zkept z s s'" and sp: "space_ok s'" and c: "z_count (zone s' z) = z_count (zone s z) + (if a = 0 then 0 else 1)"
    using assms(3) by (auto simp: handed_def)
  have s0: "struct0 s' = struct0 s" "page_ok s' = page_ok s" by (simp_all add: struct0_def page_ok_def zkept_state [OF k])
  have "zone_core U' Z F s' (if a = 0 then L else (z, a) # L) {#space s', struct0 s'#}"
    by (rule core_mono [where Y = "kmem_blocks (unat (kmem_request z s')) (kmem_results s')"])
      (use core in \<open>simp add: reserve_def s0 add_mset_commute\<close>)
  moreover have "zlist s' (first_zone s) Z = zlist s (first_zone s) Z" by (rule zlist_cong) (rule zkept_fields(7) [OF k])
  moreover have "z_count (zone s' y) = int (length (filter (\<lambda>p. fst p = y) (if a = 0 then L else (z, a) # L)))" if "y \<in> set Z" for y
    using assms(1) that c zkept_other [OF k, of y] by (cases "y = z") (auto simp: zone_inv_def)
  ultimately show ?thesis
    using assms(1) sp s0 unfolding zone_inv_def zkept_state [OF k] zkept_fields(6) [OF k] by auto
qed

lemma zalloc_inv:
  assumes "zone_inv U Z s L" and "z \<in> set Z" and "kmem_fresh U n (kmem_results s)" and "n = unat (kmem_request z s)"
  shows "(\<exists>e. zalloc z s = Inl e \<and> free_elements (zone s z) = 0 \<and> may_panic z s) \<or>
    (\<exists>a s'. zalloc z s = Inr (Some (a, s')) \<and> handed (U \<union> kmem_cells n (kmem_results s)) Z z s L {#struct0 s#} a s' \<and>
       (a = 0 \<longrightarrow> z_exhaustible (zone s z)))"
proof -
  let ?U = "U \<union> kmem_cells n (kmem_results s)"
  obtain F where "zone_core U Z F s L {#space s, struct0 s#}" using assms(1) by (auto simp: zone_inv_def)
  from core_fresh [OF this assms(3)] have core: "zone_core ?U Z F s L (reserve z s + {#struct0 s#})"
    by (simp add: reserve_def assms(4) add_mset_commute)
  have ok: "space_ok s" "page_ok s" "\<not> doing_alloc (zone s z)" using assms(1, 2) by (auto simp: zone_inv_def)
  obtain a t where p: "REMOVE_FROM_ZONE z s = (a, t)" by (cases "REMOVE_FROM_ZONE z s")
  note h = handed_pop [OF core assms(2) ok(1) p]
  have step: "zalloc z s = zalloc_loop (length (kmem_results t) + 3) z a t"
    using inv_zone_nonzero [OF assms(1, 2)] p by (simp add: zalloc_def)
  show ?thesis
  proof (cases "a = 0")
    case True
    then have "free_elements (zone s z) = 0" using p by (auto simp: REMOVE_FROM_ZONE_def Let_def split: if_splits)
    then show ?thesis
      using True step h(2) zalloc_loop_core [OF core assms(2) ok(3, 1, 2), of "length (kmem_results s) + 3"] by auto
  next
    case False
    then have "zalloc z s = Inr (Some (a, t))" using step by (simp add: numeral_eq_Suc)
    then show ?thesis using h(1) False by auto
  qed
qed

subsection \<open>Operations\<close>

text \<open>Freeing an element.\<close>

lemma count_remove1:
  "x \<in> set xs \<Longrightarrow> int (length (filter P (remove1 x xs))) = int (length (filter P xs)) - (if P x then 1 else 0)"
  by (induction xs) auto

lemma core_mset: "mset L = mset L' \<Longrightarrow> zone_core U Z F s L X = zone_core U Z F s L' X"
  by (simp add: zone_core_def blocks_def mset_eq_setD [of L L'])

lemma ADD_kept: "zframe z s (ADD_TO_ZONE z a s)"
  by (simp add: zframe_def hide_zone_def ADD_TO_ZONE_def upd_zone_def Let_def)

lemma zfree_inv:
  assumes "zone_inv U Z s L" and "(z, a) \<in> set L" and "z = zone_zone s \<Longrightarrow> a \<notin> set Z"
  shows "zfree z a s = Inr (ADD_TO_ZONE z a s)" and "zone_inv U Z (ADD_TO_ZONE z a s) (remove1 (z, a) L)"
    and "same_data s (remove1 (z, a) L) (ADD_TO_ZONE z a s)"
proof -
  let ?s = "ADD_TO_ZONE z a s" and ?L = "remove1 (z, a) L"
  obtain F where core: "zone_core U Z F s L {#space s, struct0 s#}" using assms(1) by (auto simp: zone_inv_def)
  have "(z, a) \<in># mset L + frees Z F" using assms(2) by simp
  from core_elem [OF core this] have a: "a \<noteq> 0" and z: "z \<in> set Z" by auto
  show "zfree z a s = Inr ?s" using a by (simp add: zfree_def)
  have "zone_core U Z F s ((z, a) # ?L) {#space s, struct0 s#}"
    using core core_mset [of "(z, a) # ?L" L] assms(2) by simp
  note push = core_push [OF this]
  show "same_data s ?L ?s" by (rule push(2))
  note fr = ADD_kept [of z s a] and kp = zframe_kept [OF ADD_kept [of z s a]]
  have s0: "struct0 ?s = struct0 s" "page_ok ?s = page_ok s" "space ?s = space s" "space_ok ?s = space_ok s"
    by (simp_all add: struct0_def page_ok_def space_def space_ok_def zkept_state [OF kp] zframe_space [OF fr])
  have "zlist ?s (first_zone s) Z = zlist s (first_zone s) Z" by (rule zlist_cong) (rule zkept_fields(7) [OF kp])
  moreover have "z_count (zone ?s y) = int (length (filter (\<lambda>p. fst p = y) ?L))" if "y \<in> set Z" for y
    using assms(1, 2) that by (auto simp: zone_inv_def ADD_TO_ZONE_simps count_remove1)
  moreover have "(zone_zone s, y) \<in> set ?L" if "y \<in> set Z" "y \<noteq> zdata s" for y
  proof -
    have "(zone_zone s, y) \<in> set L" using assms(1) that by (auto simp: zone_inv_def)
    moreover have "(zone_zone s, y) \<noteq> (z, a)" using assms(3) that by auto
    ultimately show ?thesis by simp
  qed
  ultimately show "zone_inv U Z ?s ?L"
    using assms(1) push(1) unfolding zone_inv_def zkept_state [OF kp] zkept_fields(6) [OF kp] s0 by auto
qed

text \<open>Memory given to a zone.\<close>

lemma zcram_inv:
  assumes "zone_inv U Z s L" and "z \<in> set Z" and "kmem_fresh U (unat len) [a]" and "a \<noteq> 0"
  shows "\<exists>s'. zcram z a len s = Inr (Some s') \<and> zone_inv (U \<union> cells (unat a, unat len)) Z s' L \<and> same_data s L s' \<and> zframe z s s' \<and>
    cur_size (zone s' z) = cur_size (zone s z) + len"
proof -
  obtain F where "zone_core U Z F s L {#space s, struct0 s#}" using assms(1) by (auto simp: zone_inv_def)
  from core_fresh [OF this assms(3)]
  have core: "zone_core (U \<union> cells (unat a, unat len)) Z F s L (add_mset (unat a, unat len) {#space s, struct0 s#})"
    using assms(4) by (simp add: kmem_cells_def kmem_blocks_def add_mset_commute)
  obtain F' s' where r: "zcram z a len s = Inr (Some s')" "zone_core (U \<union> cells (unat a, unat len)) Z F' s' L {#space s, struct0 s#}"
      "same_data s L s'" "zframe z s s'" "z_count (zone s' z) = z_count (zone s z)" "cur_size (zone s' z) = cur_size (zone s z) + len"
    using zcram_core [OF core assms(2, 4)] by blast
  note kp = zframe_kept [OF r(4)]
  have s0: "struct0 s' = struct0 s" "page_ok s' = page_ok s" "space s' = space s" "space_ok s' = space_ok s"
    by (simp_all add: struct0_def page_ok_def space_def space_ok_def zkept_state [OF kp] zframe_space [OF r(4)])
  have "zlist s' (first_zone s) Z = zlist s (first_zone s) Z" by (rule zlist_cong) (rule zkept_fields(7) [OF kp])
  moreover have "z_count (zone s' y) = z_count (zone s y)" for y
    using r(5) zkept_other [OF kp, of y] by (cases "y = z") auto
  ultimately have "zone_inv (U \<union> cells (unat a, unat len)) Z s' L"
    using assms(1) r(2) unfolding zone_inv_def zkept_state [OF kp] zkept_fields(6) [OF kp] s0 by auto
  then show ?thesis using r by blast
qed

lemma zget_inv:
  assumes "zone_inv U Z s L" and "z \<in> set Z" and "REMOVE_FROM_ZONE z s = (a, s')"
  shows "zget z s = Inr (a, s')" and "zone_inv U Z s' (if a = 0 then L else (z, a) # L)" and "same_data s L s'"
proof -
  have z: "z \<noteq> 0" using inv_zone_nonzero [OF assms(1, 2)] .
  then show "zget z s = Inr (a, s')" using assms(3) by (simp add: zget_def)
  obtain F where core: "zone_core U Z F s L {#space s, struct0 s#}" using assms(1) by (auto simp: zone_inv_def)
  let ?t = "s\<lparr>kmem_results := []\<rparr>" and ?t' = "s'\<lparr>kmem_results := []\<rparr>"
  have p: "REMOVE_FROM_ZONE z ?t = (a, ?t')"
    using assms(3) by (auto simp: REMOVE_FROM_ZONE_def upd_zone_def Let_def split: if_splits)
  have "zone_core U Z F ?t L (reserve z ?t + {#struct0 s#})"
    using core core_cong [of ?t s] by (simp add: reserve_def kmem_blocks_def space_def add_mset_commute)
  moreover have "space_ok ?t" "struct0 ?t = struct0 s" using assms(1) by (auto simp: zone_inv_def space_ok_def struct0_def)
  ultimately have h: "handed U Z z ?t L {#struct0 ?t#} a ?t'" using handed_pop(1) [OF _ assms(2) _ p] by simp
  have "zone_inv U Z ?t' (if a = 0 then L else (z, a) # L)"
    by (rule inv_handed [OF _ assms(2) h]) (use assms(1) in \<open>simp add: inv_kmem\<close>)
  then show "zone_inv U Z s' (if a = 0 then L else (z, a) # L)" by (simp add: inv_kmem)
  show "same_data s L s'" using h by (simp add: handed_def same_data_def blk_def)
qed

text \<open>Changing the attributes of a zone, and writing to elements one holds.\<close>

lemma zchange_inv: "zone_inv U Z s L \<Longrightarrow> zone_inv U Z (zchange z p q e s) L"
proof -
  assume inv: "zone_inv U Z s L"
  let ?s = "zchange z p q e s"
  have "zlist ?s (first_zone s) Z = zlist s (first_zone s) Z" by (rule zlist_cong) (simp add: zchange_def upd_zone_def)
  moreover have "zone_core U Z F ?s L X = zone_core U Z F s L X" for F X by (simp add: zchange_def core_upd)
  moreover have "struct0 ?s = struct0 s" "page_ok ?s = page_ok s" "space ?s = space s" "space_ok ?s = space_ok s"
    by (simp_all add: struct0_def page_ok_def space_def space_ok_def zchange_def upd_zone_def)
  ultimately show ?thesis using inv by (auto simp: zone_inv_def zchange_def upd_zone_def)
qed

lemma write_inv:
  assumes "zone_inv U Z s L" and "\<And>b. m b \<noteq> mem s b \<Longrightarrow> \<exists>p\<in>set L. unat b \<in> cells (blk s p)"
  shows "zone_inv U Z (s\<lparr>mem := m\<rparr>) L"
proof -
  let ?s = "s\<lparr>mem := m\<rparr>"
  obtain F where core: "zone_core U Z F s L {#space s, struct0 s#}" using assms(1) by (auto simp: zone_inv_def)
  have es: "blocks Z F ?s L = blocks Z F s L" by (rule blocks_cong) simp
  have out: "m b = mem s b" if "(y, x) \<in># frees Z F" "unat b \<in> cells (blk s (y, x))" for x y b
  proof (rule ccontr)
    assume "m b \<noteq> mem s b"
    then obtain p where p: "p \<in> set L" "unat b \<in> cells (blk s p)" using assms(2) by blast
    then obtain M where "mset L = add_mset p M" by (metis multi_member_split set_mset_mset)
    then have "apart (add_mset (blk s p) (image_mset (blk s) (M + frees Z F) + {#space s, struct0 s#}))"
      using core by (simp add: zone_core_def blocks_def add_mset_commute)
    then have "\<forall>c\<in>#image_mset (blk s) (M + frees Z F) + {#space s, struct0 s#}. cells (blk s p) \<inter> cells c = {}"
      unfolding apart_add by blast
    moreover have "blk s (y, x) \<in># image_mset (blk s) (M + frees Z F) + {#space s, struct0 s#}" using that(1) by auto
    ultimately have "cells (blk s p) \<inter> cells (blk s (y, x)) = {}" by blast
    then show False using p(2) that(2) by blast
  qed
  have "load32 m x = load32 (mem s) x" if "y \<in> set Z" "x \<in> set (F y)" for x y
  proof -
    have "(y, x) \<in># frees Z F" using that by (simp add: frees_mem)
    then show ?thesis using core_elem(4, 5) [OF core, of "(y, x)"] out by (intro load_frame) auto
  qed
  then have "flist m (free_elements (zone s y)) (F y)" if "y \<in> set Z" for y
    using flist_cong [of "F y" m "mem s"] core that by (simp add: zone_core_def)
  then have "zone_core U Z F ?s L {#space s, struct0 s#}" using core unfolding zone_core_def es by simp
  moreover have "zlist ?s (first_zone s) Z = zlist s (first_zone s) Z" by (rule zlist_cong) simp
  ultimately show ?thesis using assms(1) by (auto simp: zone_inv_def space_def struct0_def space_ok_def page_ok_def)
qed

subsection \<open>New zones\<close>

text \<open>What \<^verbatim>\<open>zinit\<close> writes into the zone, and the rest of the state.\<close>

definition zone_template :: "u32 \<Rightarrow> u32 \<Rightarrow> u32 \<Rightarrow> bool \<Rightarrow> string \<Rightarrow> zones \<Rightarrow> zone \<Rightarrow> zone" where
  "zone_template len mx alloc pageable name s v =
     v\<lparr>free_elements := 0, cur_size := 0, max_size := snd (zinit_sizes mx alloc s),
       elem_size := (len + zone_alignment) AND NOT zone_alignment, alloc_size := fst (zinit_sizes mx alloc s),
       z_pageable := pageable, zone_name := name, z_count := 0, doing_alloc := False, z_exhaustible := False,
       z_sleepable := False, next_zone := 0\<rparr>"

lemma zinit_at_zone:
  assumes "last_zone s \<noteq> Some z"
  shows "zone (zinit_at z len mx alloc pageable name s) y =
    (if y = z then zone_template len mx alloc pageable name s (zone s z)
     else if last_zone s = Some y then (zone s y)\<lparr>next_zone := z\<rparr> else zone s y)"
  using assms
  by (cases "last_zone s")
    (auto simp: zinit_at_def zone_template_def upd_zone_def Let_def split_beta split: prod.split)

lemma zinit_at_state:
  "mem (zinit_at z len mx alloc pageable name s) = mem s"
  "space (zinit_at z len mx alloc pageable name s) = space s"
  "space_ok (zinit_at z len mx alloc pageable name s) = space_ok s"
  "page_ok (zinit_at z len mx alloc pageable name s) = page_ok s"
  "struct0 (zinit_at z len mx alloc pageable name s) = struct0 s"
  "sizeof_zone (zinit_at z len mx alloc pageable name s) = sizeof_zone s"
  "zdata_size (zinit_at z len mx alloc pageable name s) = zdata_size s"
  "zdata (zinit_at z len mx alloc pageable name s) = zdata s"
  "zone_zone (zinit_at z len mx alloc pageable name s) = zone_zone s"
  "last_zone (zinit_at z len mx alloc pageable name s) = Some z"
  "num_zones (zinit_at z len mx alloc pageable name s) = num_zones s + 1"
  "first_zone (zinit_at z len mx alloc pageable name s) = (if last_zone s = None then z else first_zone s)"
  by (cases "last_zone s"; simp add: zinit_at_def upd_zone_def Let_def split_beta space_def space_ok_def page_ok_def struct0_def)+

lemma elem_size_rounded:
  assumes "0 < unat len" and "unat len \<le> 2 ^ 31 - 8"
  shows "unat len \<le> unat ((len + zone_alignment) AND NOT zone_alignment)" "4 \<le> unat ((len + zone_alignment) AND NOT zone_alignment)"
    "unat ((len + zone_alignment) AND NOT zone_alignment) < unat len + 4" "4 dvd unat ((len + zone_alignment) AND NOT zone_alignment)"
proof -
  have a: "zone_alignment = mask 2" by (simp add: zone_alignment_def mask_eq_exp_minus_1)
  have "unat (len + zone_alignment) = unat len + 3" using assms(2) by (simp add: zone_alignment_def unat_word_ariths)
  then have e: "unat ((len + zone_alignment) AND NOT zone_alignment) = (unat len + 3) div 4 * 4"
    using and_not_mask_unat [of 2 "len + zone_alignment"] by (simp add: a)
  show "unat len \<le> unat ((len + zone_alignment) AND NOT zone_alignment)" "4 \<le> unat ((len + zone_alignment) AND NOT zone_alignment)"
    "unat ((len + zone_alignment) AND NOT zone_alignment) < unat len + 4" "4 dvd unat ((len + zone_alignment) AND NOT zone_alignment)"
    unfolding e using assms(1) by (presburger, presburger, presburger, simp)
qed

text \<open>A zone added to the allocator: it has no elements yet.\<close>

lemma core_new_zone:
  assumes "zone_core U Z F s L X" and "z \<notin> set Z" and "mem t = mem s"
    and "\<And>y. y \<in> set Z \<Longrightarrow> elem_size (zone t y) = elem_size (zone s y) \<and> free_elements (zone t y) = free_elements (zone s y)"
    and "free_elements (zone t z) = 0" and "4 \<le> unat (elem_size (zone t z))" and "unat (elem_size (zone t z)) < 2 ^ 31"
  shows "zone_core U (Z @ [z]) (F(z := [])) t L X"
proof -
  have f: "frees (Z @ [z]) (F(z := [])) = frees Z F"
    unfolding frees_def using assms(2) by (auto intro!: arg_cong [where f = "\<lambda>x. mset (concat x)"] map_cong)
  have "blk t p = blk s p" if "p \<in># mset L + frees Z F" for p
    using core_elem(3) [OF assms(1) that] assms(4) by (simp add: blk_def)
  then have "blocks (Z @ [z]) (F(z := [])) t L = blocks Z F s L"
    unfolding blocks_def f by (intro image_mset_cong) simp
  then show ?thesis
    using assms unfolding zone_core_def by (auto simp: fun_upd_def)
qed

lemma zlist_snoc:
  assumes "zlist s a zs" and "zs \<noteq> []" and "distinct zs" and "z \<notin> set zs"
    and "\<And>y. y \<in> set zs \<Longrightarrow> next_zone (zone t y) = (if y = last zs then z else next_zone (zone s y))" and "next_zone (zone t z) = 0"
  shows "zlist t a (zs @ [z])"
  using assms
proof (induction zs arbitrary: a)
  case (Cons x zs)
  show ?case
  proof (cases "zs = []")
    case False
    then have "x \<noteq> last zs" using Cons.prems(3) last_in_set by fastforce
    then have "next_zone (zone t x) = next_zone (zone s x)" using Cons.prems(5) [of x] False by simp
    moreover have "zlist t (next_zone (zone s x)) (zs @ [z])"
      using Cons.prems False by (intro Cons.IH) auto
    ultimately show ?thesis using Cons.prems(1) by simp
  qed (use Cons.prems in auto)
qed simp

lemma fresh_zone:
  assumes "zone_inv U Z s L" and "zone_inv U' Z s' ((zone_zone s, z) # L)" and "zdata s' = zdata s" and "zone_zone s' = zone_zone s"
    and "sizeof_zone s' = sizeof_zone s"
  shows "z \<notin> set Z"
proof
  assume z: "z \<in> set Z"
  obtain F where core: "zone_core U' Z F s' ((zone_zone s, z) # L) {#space s', struct0 s'#}"
    using assms(2) by (auto simp: zone_inv_def)
  have "4 \<le> unat (elem_size (zone s' (zone_zone s)))" using core by (auto simp: zone_core_def)
  then have c: "unat z \<in> cells (blk s' (zone_zone s, z))" by (simp add: cells_def blk_def)
  have ap: "apart (add_mset (blk s' (zone_zone s, z)) (image_mset (blk s') (mset L + frees Z F) + {#space s', struct0 s'#}))"
    using core by (simp add: zone_core_def blocks_def add_mset_commute)
  show False
  proof (cases "z = zdata s")
    case True
    then have "unat z \<in> cells (struct0 s')" using assms(1, 3, 5) by (auto simp: zone_inv_def struct0_def cells_def)
    moreover have "cells (blk s' (zone_zone s, z)) \<inter> cells (struct0 s') = {}" using ap by (simp add: apart_add)
    ultimately show False using c by blast
  next
    case False
    then have "(zone_zone s, z) \<in> set L" using assms(1) z by (auto simp: zone_inv_def)
    then have "blk s' (zone_zone s, z) \<in># image_mset (blk s') (mset L + frees Z F) + {#space s', struct0 s'#}" by simp
    then have "cells (blk s' (zone_zone s, z)) \<inter> cells (blk s' (zone_zone s, z)) = {}" using ap unfolding apart_add by blast
    then show False using c by blast
  qed
qed

lemma zinit_at_inv:
  assumes "zone_inv U Z s L" and "z \<notin> set Z" and "(zone_zone s, z) \<in> set L" and "0 < unat len" and "unat len \<le> 2 ^ 31 - 8"
  shows "zone_inv U (Z @ [z]) (zinit_at z len mx alloc pageable name s) L"
proof -
  let ?t = "zinit_at z len mx alloc pageable name s"
  obtain F where core: "zone_core U Z F s L {#space s, struct0 s#}" using assms(1) by (auto simp: zone_inv_def)
  have Z: "Z \<noteq> []" "distinct Z" "last_zone s = Some (last Z)" using assms(1) core by (auto simp: zone_inv_def zone_core_def)
  then have ne: "last_zone s \<noteq> Some z" using assms(2) last_in_set [of Z] by auto
  note zs = zinit_at_zone [OF ne]
  have "zone_core U (Z @ [z]) (F(z := [])) ?t L {#space s, struct0 s#}"
    by (rule core_new_zone [OF core assms(2)])
      (use elem_size_rounded [OF assms(4, 5)] assms(2, 5) in \<open>auto simp: zs zinit_at_state zone_template_def\<close>)
  moreover have "zlist ?t (first_zone s) (Z @ [z])"
    by (rule zlist_snoc [where s = s])
      (use assms(1, 2) Z in \<open>auto simp: zone_inv_def zs zone_template_def\<close>)
  moreover have "filter (\<lambda>p. fst p = z) L = []"
    using core assms(2) by (force simp: zone_core_def filter_empty_conv)
  ultimately show ?thesis
    using assms(1, 2, 3) Z by (auto simp: zone_inv_def zinit_at_state zs zone_template_def)
qed

lemma zinit_inv:
  assumes "zone_inv U Z s L" and "kmem_fresh U n (kmem_results s)" and "n = unat (kmem_request (zone_zone s) s)"
    and "0 < unat len" and "unat len \<le> 2 ^ 31 - 8" and "zinit len mx alloc pageable name s = Inr (Some (z, s'))"
  shows "zone_inv (U \<union> kmem_cells n (kmem_results s)) (if z = 0 then Z else Z @ [z]) s' (if z = 0 then L else (zone_zone s, z) # L)"
    and "same_data s L s'"
    and "z \<noteq> 0 \<Longrightarrow> \<exists>v. zone s' z = zone_template len mx alloc pageable name s v"
proof -
  let ?U = "U \<union> kmem_cells n (kmem_results s)"
  have zz: "zone_zone s \<in> set Z" using assms(1) by (auto simp: zone_inv_def)
  have nz: "zone_zone s \<noteq> 0" using inv_zone_nonzero [OF assms(1) zz] .
  obtain t where t: "zalloc (zone_zone s) s = Inr (Some (z, t))"
      and s': "s' = (if z = 0 then t else zinit_at z len mx alloc pageable name t)"
    using assms(6) nz
    by (cases "zalloc (zone_zone s) s") (auto simp: zinit_def rbind_def split: option.splits if_splits)
  have h: "handed ?U Z (zone_zone s) s L {#struct0 s#} z t"
    using zalloc_inv [OF assms(1) zz assms(2, 3)] t by auto
  then have k: "zkept (zone_zone s) s t" and d: "same_data s L t" by (auto simp: handed_def)
  have inv: "zone_inv ?U Z t (if z = 0 then L else (zone_zone s, z) # L)" by (rule inv_handed [OF assms(1) zz h])
  have m: "mem s' = mem t" by (simp add: s' zinit_at_state)
  then show "same_data s L s'" using d by (simp add: same_data_def)
  have new: "z \<notin> set Z" "last_zone t \<noteq> Some z" if "z \<noteq> 0"
  proof -
    show z: "z \<notin> set Z"
      by (rule fresh_zone [OF assms(1), of ?U t]) (use inv that in \<open>auto simp: zkept_state [OF k]\<close>)
    have "Z \<noteq> []" using zz by auto
    then show "last_zone t \<noteq> Some z" using inv z last_in_set [of Z] by (auto simp: zone_inv_def)
  qed
  show "zone_inv ?U (if z = 0 then Z else Z @ [z]) s' (if z = 0 then L else (zone_zone s, z) # L)"
    using inv zinit_at_inv [OF _ new(1) _ assms(4, 5), of ?U t "(zone_zone s, z) # L"]
    by (cases "z = 0") (simp_all add: s' zkept_state [OF k])
  show "\<exists>v. zone s' z = zone_template len mx alloc pageable name s v" if "z \<noteq> 0"
    using that new(2)
    by (intro exI [of _ "zone t z"]) (simp add: s' zinit_at_zone zone_template_def zinit_sizes_def zkept_state [OF k])
qed

text \<open>The first zone.\<close>

definition boot_ok :: "zones \<Rightarrow> bool" where
  "boot_ok s \<longleftrightarrow> page_ok s \<and> 0 < unat (sizeof_zone s) \<and> sizeof_zone s \<le> zdata_size s \<and> unat (zdata_size s) \<le> 2 ^ 31 - 8 \<and>
     usable (cells (unat (zdata s), unat (zdata_size s))) \<and> zalloc_next_space s = 0 \<and> zalloc_end_of_space s = 0"

lemma zone_bootstrap_inv:
  assumes "boot_ok s"
  shows "\<exists>s'. zone_bootstrap s = Inr (Some s') \<and> zone_inv (cells (unat (zdata s), unat (zdata_size s))) [zdata s] s' []"
proof -
  let ?n = "unat (zdata_size s)" and ?z = "zdata s" and ?e = "sizeof_zone s"
  let ?U = "cells (unat ?z, ?n)"
  define r where "r = s\<lparr>first_zone := 0, last_zone := None, num_zones := 0, zone_zone := 0\<rparr>"
  define t where "t = (zinit_at ?z ?e ?e 0 False ''zones'' r)\<lparr>zone_zone := ?z\<rparr>"
  have b: "0 < unat ?e" "unat ?e \<le> ?n" "?n \<le> 2 ^ 31 - 8" "?U \<subseteq> {0 <..< 2 ^ 31}"
    using assms by (auto simp: boot_ok_def usable_def word_le_nat_alt)
  then have "unat ?z \<in> ?U" "unat ?z + ?n - 1 \<in> ?U" by (auto simp: cells_def)
  then have "0 < unat ?z" "unat ?z + ?n - 1 < 2 ^ 31" using b(4) by auto
  then have z: "?z \<noteq> 0" "unat ?z + ?n \<le> 2 ^ 31" by auto
  have ze: "unat (?z + ?e) = unat ?z + unat ?e" using z(2) b(2) by (simp add: unat_word_ariths)
  have ne: "unat (zdata_size s - ?e) = ?n - unat ?e" using b(2) by (simp add: unat_sub word_le_nat_alt)
  have tz: "zone t ?z = zone_template ?e ?e 0 False ''zones'' r (zone s ?z)"
    by (simp add: t_def zinit_at_zone r_def)
  have ts: "space t = space s" "space_ok t = space_ok s" "struct0 t = struct0 s" "page_ok t = page_ok s" "sizeof_zone t = ?e" "zdata t = ?z"
      "zdata_size t = zdata_size s" "first_zone t = ?z" "last_zone t = Some ?z" "num_zones t = 1" "zone_zone t = ?z" "mem t = mem s"
    by (simp_all add: t_def r_def zinit_at_def upd_zone_def Let_def split_beta space_def space_ok_def struct0_def page_ok_def)
  have sp: "cells (space s) = {}" "space_ok s" using assms by (auto simp: boot_ok_def space_def cells_def space_ok_def)
  have "zone_core ?U [?z] (\<lambda>_. []) t [] (add_mset (unat (?z + ?e), unat (zdata_size s - ?e)) {#space t, struct0 t#})"
    using elem_size_rounded [of ?e] b sp(1) assms z
    by (auto simp: zone_core_def tz zone_template_def blocks_def frees_def apart_add ts struct0_def ze ne cells_def boot_ok_def)
  moreover have "?z + ?e \<noteq> 0" using ze z b by auto
  ultimately obtain F s' where r: "zcram ?z (?z + ?e) (zdata_size s - ?e) t = Inr (Some s')"
      "zone_core ?U [?z] F s' [] {#space t, struct0 t#}" "zframe ?z t s'" "z_count (zone s' ?z) = z_count (zone t ?z)"
    using zcram_core [of ?U "[?z]" "\<lambda>_. []" t "[]" "?z + ?e" "zdata_size s - ?e" "{#space t, struct0 t#}" ?z] by auto
  note kp = zframe_kept [OF r(3)]
  have "space s' = space t" "space_ok s' = space_ok t" "struct0 s' = struct0 t" "page_ok s' = page_ok t"
    by (simp_all add: struct0_def page_ok_def space_def space_ok_def zkept_state [OF kp] zframe_space [OF r(3)])
  then have "zone_inv ?U [?z] s' []"
    using r(2, 4) assms sp(2) b(1)
    by (auto simp: zone_inv_def zkept_state [OF kp] zkept_fields [OF kp] ts tz zone_template_def boot_ok_def)
  moreover have "zone_bootstrap s = Inr (Some s')"
    using r(1) by (simp add: zone_bootstrap_def zinit_def rbind_def r_def [symmetric] t_def [symmetric] Let_def)
      (simp add: t_def zinit_at_state r_def)
  ultimately show ?thesis by blast
qed

subsection \<open>Reachable states\<close>

text \<open>
  \<open>zone_reach U Z s L\<close>: the operations lead from \<^verbatim>\<open>zone_bootstrap\<close> to the state \<open>s\<close>, with the memory \<open>U\<close>
  given to the allocator, the zones \<open>Z\<close> in the order of their creation and the elements \<open>L\<close> in use, each
  with its zone.  Whoever holds an element may write to it and free it once; the zones themselves
  stay.  Each allocation comes with the answers of \<^verbatim>\<open>kmem_alloc\<close> during the call.
\<close>

inductive zone_reach :: "nat set \<Rightarrow> u32 list \<Rightarrow> zones \<Rightarrow> (u32 \<times> u32) list \<Rightarrow> bool" where
  boot: "boot_ok s \<Longrightarrow> zone_bootstrap s = Inr (Some s') \<Longrightarrow>
    zone_reach (cells (unat (zdata s), unat (zdata_size s))) [zdata s] s' []"
| alloc: "zone_reach U Z s L \<Longrightarrow> z \<in> set Z \<Longrightarrow> kmem_fresh U (unat (kmem_request z s)) ks \<Longrightarrow>
    zalloc z (s\<lparr>kmem_results := ks\<rparr>) = Inr (Some (a, s')) \<Longrightarrow>
    zone_reach (U \<union> kmem_cells (unat (kmem_request z s)) ks) Z s' (if a = 0 then L else (z, a) # L)"
| get: "zone_reach U Z s L \<Longrightarrow> z \<in> set Z \<Longrightarrow> zget z s = Inr (a, s') \<Longrightarrow>
    zone_reach U Z s' (if a = 0 then L else (z, a) # L)"
| free: "zone_reach U Z s L \<Longrightarrow> (z, a) \<in> set L \<Longrightarrow> \<not> (z = zone_zone s \<and> a \<in> set Z) \<Longrightarrow> zfree z a s = Inr s' \<Longrightarrow>
    zone_reach U Z s' (remove1 (z, a) L)"
| cram: "zone_reach U Z s L \<Longrightarrow> z \<in> set Z \<Longrightarrow> kmem_fresh U (unat len) [a] \<Longrightarrow> zcram z a len s = Inr (Some s') \<Longrightarrow>
    zone_reach (U \<union> cells (unat a, unat len)) Z s' L"
| init: "zone_reach U Z s L \<Longrightarrow> kmem_fresh U (unat (kmem_request (zone_zone s) s)) ks \<Longrightarrow> 0 < unat len \<Longrightarrow> unat len \<le> 2 ^ 31 - 8 \<Longrightarrow>
    zinit len mx alloc pageable name (s\<lparr>kmem_results := ks\<rparr>) = Inr (Some (z, s')) \<Longrightarrow>
    zone_reach (U \<union> kmem_cells (unat (kmem_request (zone_zone s) s)) ks) (if z = 0 then Z else Z @ [z]) s'
      (if z = 0 then L else (zone_zone s, z) # L)"
| change: "zone_reach U Z s L \<Longrightarrow> zone_reach U Z (zchange z p q e s) L"
| store: "zone_reach U Z s L \<Longrightarrow> (\<forall>b. m b \<noteq> mem s b \<longrightarrow> (\<exists>p\<in>set L. unat b \<in> cells (blk s p))) \<Longrightarrow>
    zone_reach U Z (s\<lparr>mem := m\<rparr>) L"

lemma kmem_request_results: "kmem_request z (s\<lparr>kmem_results := ks\<rparr>) = kmem_request z s"
  by (simp add: kmem_request_def space_to_add_def)

lemma zalloc_step:
  assumes "zone_inv U Z s L" and "z \<in> set Z" and "kmem_fresh U (unat (kmem_request z s)) ks"
  shows "(\<exists>e. zalloc z (s\<lparr>kmem_results := ks\<rparr>) = Inl e \<and> free_elements (zone s z) = 0 \<and> may_panic z (s\<lparr>kmem_results := ks\<rparr>)) \<or>
    (\<exists>a s'. zalloc z (s\<lparr>kmem_results := ks\<rparr>) = Inr (Some (a, s')) \<and>
       zone_inv (U \<union> kmem_cells (unat (kmem_request z s)) ks) Z s' (if a = 0 then L else (z, a) # L) \<and>
       zkept z s s' \<and> same_data s L s' \<and> (a = 0 \<longrightarrow> z_exhaustible (zone s z)))"
proof -
  let ?s = "s\<lparr>kmem_results := ks\<rparr>" and ?U = "U \<union> kmem_cells (unat (kmem_request z s)) ks"
  have inv: "zone_inv U Z ?s L" using assms(1) by (simp add: inv_kmem)
  have "kmem_fresh U (unat (kmem_request z s)) (kmem_results ?s)" "unat (kmem_request z s) = unat (kmem_request z ?s)"
    using assms(3) by (simp_all add: kmem_request_results)
  note r = zalloc_inv [OF inv assms(2) this]
  show ?thesis
  proof (cases "\<exists>e. zalloc z ?s = Inl e")
    case False
    then obtain a s' where a: "zalloc z ?s = Inr (Some (a, s'))" "handed ?U Z z ?s L {#struct0 ?s#} a s'"
        "a = 0 \<longrightarrow> z_exhaustible (zone s z)"
      using r by auto
    have "zkept z s ?s" by (simp add: zkept_def hide_space_def hide_zone_def)
    moreover have "zkept z ?s s'" "same_data ?s L s'" using a(2) by (simp_all add: handed_def)
    ultimately have "zkept z s s'" "same_data s L s'" by (blast intro: zkept_trans, simp add: same_data_def blk_def)
    then show ?thesis using a inv_handed [OF inv assms(2) a(2)] by (intro disjI2 exI [of _ a] exI [of _ s']) simp
  next
    case True
    then obtain e where "zalloc z ?s = Inl e" by blast
    then show ?thesis using r by simp
  qed
qed

lemma zcram_nonzero: "zcram z a len s = Inr (Some s') \<Longrightarrow> a \<noteq> 0"
  by (auto simp: zcram_def)

lemma zone_reach_inv: "zone_reach U Z s L \<Longrightarrow> zone_inv U Z s L"
proof (induction rule: zone_reach.induct)
  case (boot s s')
  then show ?case using zone_bootstrap_inv [of s] by auto
next
  case (alloc U Z s L z ks a s')
  then show ?case using zalloc_step [OF alloc.IH alloc.hyps(2, 3)] by auto
next
  case (get U Z s L z a s')
  then show ?case using zget_inv [OF get.IH get.hyps(2)] by (cases "REMOVE_FROM_ZONE z s") auto
next
  case (free U Z s L z a s')
  then show ?case using zfree_inv [OF free.IH free.hyps(2)] by auto
next
  case (cram U Z s L z len a s')
  then show ?case using zcram_inv [OF cram.IH cram.hyps(2, 3) zcram_nonzero [OF cram.hyps(4)]] by auto
next
  case (init U Z s L ks len mx alloc pageable name z s')
  let ?s = "s\<lparr>kmem_results := ks\<rparr>"
  have inv: "zone_inv U Z ?s L" using init.IH by (simp add: inv_kmem)
  show ?case
    using zinit_inv(1) [OF inv _ _ init.hyps(3-5)] init.hyps(2)
    by (cases "z = 0") (simp_all add: kmem_request_results)
next
  case (change U Z s L z p q e)
  then show ?case by (simp add: zchange_inv)
next
  case (store U Z s L m)
  then show ?case by (intro write_inv) auto
qed

subsection \<open>What the allocator promises\<close>

lemma apart_two: "apart M \<Longrightarrow> {#x, y#} \<subseteq># M \<Longrightarrow> cells x \<inter> cells y = {}"
proof -
  assume a: "apart M" and "{#x, y#} \<subseteq># M"
  then obtain N where "M = add_mset x (add_mset y N)" by (metis mset_subset_eq_exists_conv add_mset_add_single union_mset_add_mset_left empty_neutral(1))
  then show ?thesis using a by (simp add: apart_add)
qed

lemma inv_live:
  assumes "zone_inv U Z s L"
  shows "distinct L" and "p \<in> set L \<Longrightarrow> cells (blk s p) \<subseteq> U"
    and "p \<in> set L \<Longrightarrow> q \<in> set L \<Longrightarrow> p \<noteq> q \<Longrightarrow> cells (blk s p) \<inter> cells (blk s q) = {}"
proof -
  obtain F where core: "zone_core U Z F s L {#space s, struct0 s#}" using assms by (auto simp: zone_inv_def)
  show "cells (blk s p) \<subseteq> U" if "p \<in> set L" using core that by (auto simp: zone_core_def blocks_def)
  have two: "cells (blk s p) \<inter> cells (blk s q) = {}" if "{#p, q#} \<subseteq># mset L" for p q
  proof -
    have "image_mset (blk s) {#p, q#} \<subseteq># image_mset (blk s) (mset L)" by (rule image_mset_subseteq_mono [OF that])
    also have "\<dots> \<subseteq># blocks Z F s L + {#space s, struct0 s#}" by (simp add: blocks_def ac_simps)
    finally show ?thesis using core by (intro apart_two [of "blocks Z F s L + {#space s, struct0 s#}"]) (auto simp: zone_core_def)
  qed
  show "cells (blk s p) \<inter> cells (blk s q) = {}" if "p \<in> set L" "q \<in> set L" "p \<noteq> q"
    by (rule two) (use that in \<open>simp add: insert_subset_eq_iff in_diff_count\<close>)
  show "distinct L"
  proof (rule ccontr)
    assume "\<not> distinct L"
    then obtain xs ys zs p where L: "L = xs @ [p] @ ys @ [p] @ zs" using not_distinct_decomp by blast
    have "fst p \<in> set Z" using core L by (auto simp: zone_core_def)
    then have "4 \<le> unat (elem_size (zone s (fst p)))" using core by (simp add: zone_core_def)
    then have "unat (snd p) \<in> cells (blk s p)" by (simp add: blk_def cells_def)
    moreover have "cells (blk s p) \<inter> cells (blk s p) = {}" by (rule two) (simp add: L)
    ultimately show False by blast
  qed
qed

text \<open>C11:
  In every state the operations of the zone allocator reach, the elements in use do not overlap,
  each lies in memory the allocator was given, the count of a zone is the number of its elements
  in use, and the list of all zones holds exactly the zones created, in order.
\<close>

theorem zone_elements_apart:
  assumes "zone_reach U Z s L"
  shows "distinct L \<and> (\<forall>p\<in>set L. cells (blk s p) \<subseteq> U \<and> (\<forall>q\<in>set L. p \<noteq> q \<longrightarrow> cells (blk s p) \<inter> cells (blk s q) = {})) \<and>
    (\<forall>z\<in>set Z. z_count (zone s z) = int (length (filter (\<lambda>p. fst p = z) L))) \<and>
    zlist s (first_zone s) Z \<and> num_zones s = int (length Z)"
proof -
  note inv = zone_reach_inv [OF assms]
  then show ?thesis using inv_live [OF inv] by (auto simp: zone_inv_def)
qed

text \<open>C12:
  \<^verbatim>\<open>zalloc\<close> on a reachable state, with new memory behind it: it always ends.  It panics only when the
  free list is empty and the zone is full, \<^verbatim>\<open>kmem_alloc\<close> fails, or the zone grows by less than an
  element; it returns 0 only from an exhaustible zone.  Otherwise it returns an element that overlaps
  no element in use, the first of the free list if there is one.  No element in use changes its
  contents, and the state reached is a reachable one with the new element in use.
\<close>

theorem zalloc_new_element:
  assumes "zone_reach U Z s L" and "z \<in> set Z" and "kmem_fresh U (unat (kmem_request z s)) ks"
  shows "case zalloc z (s\<lparr>kmem_results := ks\<rparr>) of
      Inl e \<Rightarrow> free_elements (zone s z) = 0 \<and> may_panic z (s\<lparr>kmem_results := ks\<rparr>)
    | Inr None \<Rightarrow> False
    | Inr (Some (a, s')) \<Rightarrow>
        zone_reach (U \<union> kmem_cells (unat (kmem_request z s)) ks) Z s' (if a = 0 then L else (z, a) # L) \<and>
        same_data s L s' \<and> (free_elements (zone s z) \<noteq> 0 \<longrightarrow> a = free_elements (zone s z)) \<and>
        (if a = 0 then z_exhaustible (zone s z) else \<forall>p\<in>set L. cells (blk s (z, a)) \<inter> cells (blk s p) = {})"
proof -
  let ?s = "s\<lparr>kmem_results := ks\<rparr>" and ?U = "U \<union> kmem_cells (unat (kmem_request z s)) ks"
  note inv = zone_reach_inv [OF assms(1)]
  show ?thesis
  proof (cases "\<exists>e. zalloc z ?s = Inl e")
    case True
    then obtain e where e: "zalloc z ?s = Inl e" by blast
    then show ?thesis using zalloc_step [OF inv assms(2, 3)] by simp
  next
    case False
    then obtain a s' where a: "zalloc z ?s = Inr (Some (a, s'))" "zone_inv ?U Z s' (if a = 0 then L else (z, a) # L)"
        "zkept z s s'" "same_data s L s'" "a = 0 \<longrightarrow> z_exhaustible (zone s z)"
      using zalloc_step [OF inv assms(2, 3)] by blast
    have "a = free_elements (zone s z)" if "free_elements (zone s z) \<noteq> 0"
      using a(1) that inv_zone_nonzero [OF inv assms(2)]
      by (simp add: zalloc_def REMOVE_FROM_ZONE_def Let_def numeral_eq_Suc)
    moreover have "cells (blk s (z, a)) \<inter> cells (blk s p) = {}" if "a \<noteq> 0" "p \<in> set L" for p
    proof -
      have d: "zone_inv ?U Z s' ((z, a) # L)" using a(2) that(1) by simp
      have "(z, a) \<noteq> p" using inv_live(1) [OF d] that(2) by auto
      then show ?thesis
        using inv_live(3) [OF d, of "(z, a)" p] that(2) by (simp add: blk_def zkept_fields(1) [OF a(3)])
    qed
    ultimately show ?thesis
      using a(1, 4, 5) zone_reach.alloc [OF assms a(1)] by simp
  qed
qed

text \<open>C22:
  Freeing an element and allocating again from its zone returns the same element: the zone is as
  before, and of all the memory only the first word of the element, the link of the free list, has
  changed.
\<close>

theorem zfree_zget_roundtrip:
  assumes "zone_reach U Z s L" and "(z, a) \<in> set L" and "\<not> (z = zone_zone s \<and> a \<in> set Z)"
  shows "\<exists>s1 s2. zfree z a s = Inr s1 \<and> zone_reach U Z s1 (remove1 (z, a) L) \<and> same_data s (remove1 (z, a) L) s1 \<and>
    zget z s1 = Inr (a, s2) \<and> zone s2 = zone s \<and> (\<forall>b. unat b \<notin> cells (unat a, 4) \<longrightarrow> mem s2 b = mem s b)"
proof -
  let ?s = "ADD_TO_ZONE z a s"
  note inv = zone_reach_inv [OF assms(1)]
  note free = zfree_inv [OF inv assms(2)]
  have ok: "z = zone_zone s \<Longrightarrow> a \<notin> set Z" using assms(3) by blast
  obtain F where core: "zone_core U Z F s L {#space s, struct0 s#}" using inv by (auto simp: zone_inv_def)
  have "(z, a) \<in># mset L + frees Z F" using assms(2) by simp
  from core_elem [OF core this] have a: "a \<noteq> 0" "z \<in> set Z" and r: "unat a + 4 \<le> 2 ^ 32" by auto
  have nz: "z \<noteq> 0" using inv_zone_nonzero [OF inv a(2)] .
  have zs: "free_elements (zone ?s z) = a" "mem ?s = store32 a (free_elements (zone s z)) (mem s)"
    by (simp_all add: ADD_TO_ZONE_simps)
  define t where "t = snd (REMOVE_FROM_ZONE z ?s)"
  have g: "zget z ?s = Inr (a, t)" using nz a zs by (simp add: zget_def REMOVE_FROM_ZONE_def Let_def t_def)
  have t: "zone t = zone s" "mem t = mem ?s"
    using a zs by (auto simp: t_def REMOVE_FROM_ZONE_def Let_def upd_zone_def ADD_TO_ZONE_simps load_store)
  have "mem t b = mem s b" if "unat b \<notin> cells (unat a, 4)" for b
    unfolding t(2) zs(2) by (rule store_frame [OF r that])
  then show ?thesis
    using free [OF ok] g t zone_reach.free [OF assms free(1) [OF ok]]
    by (intro exI [of _ ?s] exI [of _ t]) simp
qed

text \<open>C20:
  A zone \<^verbatim>\<open>zinit\<close> creates is well-formed: a new address, elements of the requested size rounded up to
  a multiple of 4, an allocation size of whole pages, at least one page and at least the one asked
  for, a maximum not below the allocation size; it is empty and the last of the list of zones.
\<close>

theorem zinit_well_formed:
  assumes "zone_reach U Z s L" and "kmem_fresh U (unat (kmem_request (zone_zone s) s)) ks"
    and "0 < unat len" and "unat len \<le> 2 ^ 31 - 8" and "unat alloc \<le> 2 ^ 31"
    and "zinit len mx alloc pageable name (s\<lparr>kmem_results := ks\<rparr>) = Inr (Some (z, s'))" and "z \<noteq> 0"
  shows "z \<notin> set Z \<and> zlist s' (first_zone s') (Z @ [z]) \<and> z_count (zone s' z) = 0 \<and> free_elements (zone s' z) = 0 \<and>
    unat len \<le> unat (elem_size (zone s' z)) \<and> unat (elem_size (zone s' z)) < unat len + 4 \<and> 4 dvd unat (elem_size (zone s' z)) \<and>
    unat (zpage_size s) dvd unat (alloc_size (zone s' z)) \<and> zpage_size s \<le> alloc_size (zone s' z) \<and>
    alloc \<le> alloc_size (zone s' z) \<and> alloc_size (zone s' z) \<le> max_size (zone s' z) \<and> mx \<le> max_size (zone s' z) \<and>
    z_pageable (zone s' z) = pageable"
proof -
  let ?s = "s\<lparr>kmem_results := ks\<rparr>"
  have inv: "zone_inv U Z ?s L" using zone_reach_inv [OF assms(1)] by (simp add: inv_kmem)
  have "kmem_fresh U (unat (kmem_request (zone_zone ?s) ?s)) (kmem_results ?s)" using assms(2) by (simp add: kmem_request_results)
  note new = zinit_inv [OF inv this refl assms(3, 4, 6)]
  have inv': "zone_inv (U \<union> kmem_cells (unat (kmem_request (zone_zone ?s) ?s)) ks) (Z @ [z]) s' ((zone_zone s, z) # L)"
    using new(1) assms(7) by simp
  obtain k where k: "k < 31" "zpage_size s = 2 ^ k" "zpage_mask s = 2 ^ k - 1" using inv by (auto simp: zone_inv_def page_ok_def)
  define al where "al = (if alloc = 0 then zpage_size s else alloc)"
  have "(2 :: nat) ^ k \<le> 2 ^ 31" using k(1) by (intro power_increasing) auto
  then have al: "unat al \<le> 2 ^ 31" "0 < unat al" using assms(5) k unat_2pow [of k] by (auto simp: al_def unat_gt_0)
  note rp = round_page_ge [OF k(1) al(1)]
  have "2 ^ k \<le> unat (round_page (2 ^ k - 1) al)" using rp al(2) by (intro dvd_imp_le) linarith+
  then have pg: "zpage_size s \<le> round_page (2 ^ k - 1) al" "unat (zpage_size s) dvd unat (round_page (2 ^ k - 1) al)" "alloc \<le> round_page (2 ^ k - 1) al"
    using k rp unat_2pow [of k] by (auto simp: word_le_nat_alt al_def)
  have sz: "zinit_sizes mx alloc ?s = (round_page (2 ^ k - 1) al, if mx < round_page (2 ^ k - 1) al then round_page (2 ^ k - 1) al else mx)"
    by (simp add: zinit_sizes_def k al_def Let_def)
  obtain v where v: "zone s' z = zone_template len mx alloc pageable name ?s v" using new(3) [OF assms(7)] by blast
  have f: "free_elements (zone s' z) = 0" "z_count (zone s' z) = 0" "z_pageable (zone s' z) = pageable"
      "elem_size (zone s' z) = (len + zone_alignment) AND NOT zone_alignment"
      "alloc_size (zone s' z) = round_page (2 ^ k - 1) al"
      "max_size (zone s' z) = (if mx < round_page (2 ^ k - 1) al then round_page (2 ^ k - 1) al else mx)"
    by (simp_all add: v zone_template_def sz)
  have "z \<notin> set Z" "zlist s' (first_zone s') (Z @ [z])" using inv' by (auto simp: zone_inv_def zone_core_def)
  then show ?thesis
    using elem_size_rounded [OF assms(3, 4)] pg by (simp add: f less_imp_le not_less)
qed

subsection \<open>An example\<close>

text \<open>A small kernel: room for three zones of 8 bytes in \<^verbatim>\<open>zdata\<close>, pages of 8192 bytes.\<close>

definition zero_zone :: zone where
  "zero_zone = \<lparr>z_count = 0, free_elements = 0, cur_size = 0, max_size = 0, elem_size = 0, alloc_size = 0, doing_alloc = False,
     zone_name = [], z_pageable = False, z_sleepable = False, z_exhaustible = False, next_zone = 0\<rparr>"

definition demo_boot :: zones where
  "demo_boot = \<lparr>mem = \<lambda>_. 0, zone = \<lambda>_. zero_zone, zone_zone = 0, first_zone = 0, last_zone = None, num_zones = 0,
     zalloc_next_space = 0, zalloc_end_of_space = 0, zone_ignore_overflow = False, kmem_results = [], kmem_freed = [],
     zpage_size = 8192, zpage_mask = 8191, zdata = 0x1000, zdata_size = 24, sizeof_zone = 8\<rparr>"

definition demo_zones :: zones where
  "demo_zones = (case zone_bootstrap demo_boot of Inr (Some s) \<Rightarrow> s | _ \<Rightarrow> demo_boot)"

lemma demo_reach: "zone_reach (cells (0x1000, 24)) [0x1000] demo_zones []"
proof -
  have "page_ok demo_boot" unfolding page_ok_def by (intro exI [of _ 13]) (simp add: demo_boot_def)
  then have b: "boot_ok demo_boot"
    by (auto simp: boot_ok_def demo_boot_def usable_def cells_def)
  obtain s' where s': "zone_bootstrap demo_boot = Inr (Some s')" using zone_bootstrap_inv [OF b] by blast
  then have "demo_zones = s'" by (simp add: demo_zones_def)
  then show ?thesis using zone_reach.boot [OF b s'] by (simp add: demo_boot_def)
qed

lemma cram_loop_numeral:
  "cram_loop (numeral n) z e a len s =
     (if len \<ge> e then cram_loop (pred_numeral n) z e (a + e) (len - e)
        (upd_zone z (\<lambda>v. v\<lparr>z_count := z_count v + 1\<rparr>) (ADD_TO_ZONE z a s)) else Some s)"
  by (simp add: numeral_eq_Suc)

lemma demo_zones_eq:
  "demo_zones = demo_boot\<lparr>mem := store32 0x1010 0x1008 (store32 0x1008 0 (\<lambda>_. 0)), zone := (\<lambda>_. zero_zone)(0x1000 :=
     zero_zone\<lparr>free_elements := 0x1010, cur_size := 16, max_size := 8192, elem_size := 8, alloc_size := 8192, zone_name := ''zones''\<rparr>),
     zone_zone := 0x1000, first_zone := 0x1000, last_zone := Some 0x1000, num_zones := 1\<rparr>"
  by (simp add: demo_zones_def demo_boot_def zone_bootstrap_def zinit_def zinit_at_def zinit_sizes_def rbind_def zcram_def
      upd_zone_def ADD_TO_ZONE_def zero_zone_def zone_alignment_def round_page_def cram_loop_numeral Let_def)

text \<open>An element in use, and memory to grow.\<close>

definition demo_live :: zones where
  "demo_live = (case zalloc 0x1000 (demo_zones\<lparr>kmem_results := []\<rparr>) of Inr (Some (a, s)) \<Rightarrow> s | _ \<Rightarrow> demo_zones)"

lemma zalloc_loop_found: "a \<noteq> 0 \<Longrightarrow> zalloc_loop (numeral n) z a s = Inr (Some (a, s))"
  by (simp add: numeral_eq_Suc)

lemma demo_live_eq:
  "zalloc 0x1000 (demo_zones\<lparr>kmem_results := []\<rparr>) = Inr (Some (0x1010, demo_live))"
  "demo_live = demo_zones\<lparr>zone := (zone demo_zones)(0x1000 := (zone demo_zones 0x1000)\<lparr>z_count := 1, free_elements := 0x1008\<rparr>)\<rparr>"
  by (simp_all add: demo_live_def demo_zones_eq demo_boot_def zalloc_def REMOVE_FROM_ZONE_def zero_zone_def upd_zone_def
      load_store zalloc_loop_found)

lemma kmem_none [simp]: "kmem_fresh U n []" "kmem_cells n [] = {}"
  by (simp_all add: kmem_fresh_def kmem_cells_def kmem_blocks_def usable_def)

lemma demo_live_reach: "zone_reach (cells (0x1000, 24)) [0x1000] demo_live [(0x1000, 0x1010)]"
  using zone_reach.alloc [OF demo_reach _ _ demo_live_eq(1)] by simp

theorem zone_elements_apart_witness:
  "zone_reach (cells (0x1000, 24)) [0x1000] demo_live [(0x1000, 0x1010)] \<and> z_count (zone demo_live 0x1000) = 1 \<and>
   zlist demo_live (first_zone demo_live) [0x1000] \<and> cells (blk demo_live (0x1000, 0x1010)) \<subseteq> cells (0x1000, 24)"
  using zone_elements_apart [OF demo_live_reach] demo_live_reach by simp

theorem zalloc_new_element_witness:
  "\<exists>s'. zalloc 0x1000 (demo_live\<lparr>kmem_results := []\<rparr>) = Inr (Some (0x1008, s')) \<and> same_data demo_live [(0x1000, 0x1010)] s' \<and>
     zone_reach (cells (0x1000, 24)) [0x1000] s' [(0x1000, 0x1008), (0x1000, 0x1010)] \<and>
     cells (blk demo_live (0x1000, 0x1008)) \<inter> cells (blk demo_live (0x1000, 0x1010)) = {}"
proof -
  have f: "free_elements (zone demo_live 0x1000) = 0x1008" by (simp add: demo_live_eq(2))
  note r = zalloc_new_element [OF demo_live_reach, of "0x1000" "[]"]
  obtain s' where s': "zalloc 0x1000 (demo_live\<lparr>kmem_results := []\<rparr>) = Inr (Some (0x1008, s'))"
    using r f by (auto split: sum.splits option.splits prod.splits)
  then show ?thesis using r by (intro exI [of _ s']) simp
qed

theorem zfree_zget_roundtrip_witness:
  "\<exists>s1 s2. zfree 0x1000 0x1010 demo_live = Inr s1 \<and> zone_reach (cells (0x1000, 24)) [0x1000] s1 [] \<and>
     zget 0x1000 s1 = Inr (0x1010, s2) \<and> zone s2 = zone demo_live"
  using zfree_zget_roundtrip [OF demo_live_reach, of "0x1000" "0x1010"] by auto

theorem zinit_well_formed_witness:
  "\<exists>s'. zinit 10 100 0 True ''threads'' (demo_zones\<lparr>kmem_results := []\<rparr>) = Inr (Some (0x1010, s')) \<and>
     elem_size (zone s' 0x1010) = 12 \<and> zlist s' (first_zone s') [0x1000, 0x1010] \<and> zpage_size demo_zones \<le> alloc_size (zone s' 0x1010) \<and>
     alloc_size (zone s' 0x1010) \<le> max_size (zone s' 0x1010)"
proof -
  define s' where "s' = zinit_at 0x1010 10 100 0 True ''threads'' demo_live"
  have z: "zinit 10 100 0 True ''threads'' (demo_zones\<lparr>kmem_results := []\<rparr>) = Inr (Some (0x1010, s'))"
    unfolding zinit_def s'_def using demo_live_eq(1) by (simp add: rbind_def demo_zones_eq)
  have "zpage_size demo_zones = 8192" by (simp add: demo_zones_eq demo_boot_def)
  then show ?thesis
    using zinit_well_formed [OF demo_reach, of "[]" 10 0 100 True "''threads''" "0x1010" s'] z
    by (intro exI [of _ s'])
      (simp add: s'_def zinit_at_zone demo_live_eq(2) demo_zones_eq zone_template_def zone_alignment_def)
qed

end
