(* ===== verification/Kalloc.thy ===== *)
theory Kalloc
  imports ZoneSafe
begin

text \<open>
  The general kernel allocator, \<^verbatim>\<open>kern/kalloc.c\<close>: requests of less than a page are rounded up to a
  power of two and served from a zone for that sz, larger ones go to \<^verbatim>\<open>kmem_alloc\<close>.  It is the client
  of the zone allocator; \<open>kz\<close> is the state of the latter.  Sizes are C integers below \<open>2 ^ 31\<close>.
\<close>

subsection \<open>State\<close>

record kheap =
  kz :: zones
  numkallocs :: int
  first_k_zone :: int
  k_zone :: "nat \<Rightarrow> u32"

definition MINSIZE :: int where
  "MINSIZE = 32"

definition k_zone_name :: "nat \<Rightarrow> string" where
  "k_zone_name i = [''kalloc.1'', ''kalloc.2'', ''kalloc.4'', ''kalloc.8'', ''kalloc.16'', ''kalloc.32'', ''kalloc.64'', ''kalloc.128'',
     ''kalloc.256'', ''kalloc.512'', ''kalloc.1024'', ''kalloc.2048'', ''kalloc.4096'', ''kalloc.8192'', ''kalloc.16384'', ''kalloc.32768''] ! i"

definition k_zone_max :: "nat \<Rightarrow> u32" where
  "k_zone_max i = 1024 * 1024 div 2 ^ i"

definition PAGE_SIZE :: "kheap \<Rightarrow> int" where
  "PAGE_SIZE h = uint (zpage_size (kz h))"

subsection \<open>Operations\<close>

fun kallocinit_loop :: "nat \<Rightarrow> nat \<Rightarrow> int \<Rightarrow> kheap \<Rightarrow> kheap option kresult" where
  "kallocinit_loop 0 i sz h = Inr None"
| "kallocinit_loop (Suc n) i sz h =
    (if sz < PAGE_SIZE h
     then if sz < MINSIZE then kallocinit_loop n (i + 1) (sz * 2) (h\<lparr>k_zone := (k_zone h)(i := 0)\<rparr>)
          else
           (let h = (if sz = MINSIZE then h\<lparr>first_k_zone := int i\<rparr> else h) in
            rbind (zinit (word_of_int sz) (k_zone_max i * word_of_int sz) (word_of_int (PAGE_SIZE h)) False (k_zone_name i) (kz h)) (\<lambda>(z, s).
              kallocinit_loop n (i + 1) (sz * 2) (h\<lparr>kz := s, k_zone := (k_zone h)(i := z)\<rparr>)))
     else Inr (Some h))"

text \<open>The size doubles in each turn and stays below \<open>2 ^ 32\<close>: 33 turns are enough.\<close>

definition kallocinit :: "kheap \<Rightarrow> kheap option kresult" where
  "kallocinit h = kallocinit_loop 33 0 1 h"

text \<open>The loop all three routines share: the size of the block and the index of its zone.\<close>

fun size_loop :: "nat \<Rightarrow> int \<Rightarrow> int \<Rightarrow> int \<Rightarrow> (int \<times> int) option" where
  "size_loop 0 allocsize zindex sz = None"
| "size_loop (Suc n) allocsize zindex sz =
    (if allocsize < sz then size_loop n (allocsize * 2) (zindex + 1) sz else Some (allocsize, zindex))"

text \<open>For a page or more the index stays unset and is not used.\<close>

definition size_class :: "int \<Rightarrow> kheap \<Rightarrow> (int \<times> int) option" where
  "size_class sz h = (if sz < PAGE_SIZE h then size_loop 32 MINSIZE (first_k_zone h) sz else Some (sz, 0))"

definition kalloc :: "int \<Rightarrow> kheap \<Rightarrow> (u32 \<times> kheap) option kresult" where
  "kalloc sz h =
    (let h = h\<lparr>numkallocs := numkallocs h + 1\<rparr> in
     if \<not> sz > 0 then Inl ''assert''
     else rbind (Inr (size_class sz h)) (\<lambda>(allocsize, zindex).
       if allocsize < PAGE_SIZE h
       then rbind (zalloc (k_zone h (nat zindex)) (kz h)) (\<lambda>(addr, s). Inr (Some (addr, h\<lparr>kz := s\<rparr>)))
       else (let (addr, s) = kmem_alloc (word_of_int allocsize) (kz h) in Inr (Some (addr, h\<lparr>kz := s\<rparr>)))))"

definition kget :: "int \<Rightarrow> kheap \<Rightarrow> (u32 \<times> kheap) option kresult" where
  "kget sz h =
    (if \<not> sz > 0 then Inl ''assert''
     else rbind (Inr (size_class sz h)) (\<lambda>(allocsize, zindex).
       if allocsize < PAGE_SIZE h
       then kbind (zget (k_zone h (nat zindex)) (kz h)) (\<lambda>(addr, s). Inr (Some (addr, h\<lparr>kz := s\<rparr>)))
       else Inl ''kget: oversized request''))"

definition kfree :: "u32 \<Rightarrow> int \<Rightarrow> kheap \<Rightarrow> kheap option kresult" where
  "kfree data sz h =
    (if \<not> (data \<noteq> 0 \<and> sz > 0) then Inl ''assert''
     else rbind (Inr (size_class sz h)) (\<lambda>(freesize, zindex).
       if freesize < PAGE_SIZE h
       then kbind (zfree (k_zone h (nat zindex)) data (kz h)) (\<lambda>s. Inr (Some (h\<lparr>kz := s\<rparr>)))
       else Inr (Some (h\<lparr>kz := (kz h)\<lparr>kmem_freed := kmem_freed (kz h) @ [(data, word_of_int freesize)]\<rparr>\<rparr>))))"

subsection \<open>The C allocator on top\<close>

definition bzero :: "u32 \<Rightarrow> u32 \<Rightarrow> bytes \<Rightarrow> bytes" where
  "bzero a n m = (\<lambda>b. if b - a < n then 0 else m b)"

definition bcopy :: "u32 \<Rightarrow> u32 \<Rightarrow> u32 \<Rightarrow> bytes \<Rightarrow> bytes" where
  "bcopy from to n m = (\<lambda>b. if b - to < n then m (from + (b - to)) else m b)"

definition upd_mem :: "(bytes \<Rightarrow> bytes) \<Rightarrow> kheap \<Rightarrow> kheap" where
  "upd_mem f h = h\<lparr>kz := (kz h)\<lparr>mem := f (mem (kz h))\<rparr>\<rparr>"

text \<open>An \<^verbatim>\<open>unsigned int\<close> passed for the \<^verbatim>\<open>int\<close> or \<^verbatim>\<open>long\<close> parameter is read as a signed number.\<close>

definition malloc :: "u32 \<Rightarrow> kheap \<Rightarrow> (u32 \<times> kheap) option kresult" where
  "malloc sz h =
    (let sz = sz + 8 in
     rbind (kalloc (sint sz) h) (\<lambda>(addr, h).
       if addr = 0 then Inr (Some (addr, h))
       else
        (let h = upd_mem (bzero addr sz) h;
             h = upd_mem (store32 addr sz) h
         in Inr (Some (addr + 8, h)))))"

definition calloc :: "u32 \<Rightarrow> u32 \<Rightarrow> kheap \<Rightarrow> (u32 \<times> kheap) option kresult" where
  "calloc num sz h = malloc (num * sz) h"

definition realloc :: "u32 \<Rightarrow> u32 \<Rightarrow> kheap \<Rightarrow> (u32 \<times> kheap) option kresult" where
  "realloc addr sz h =
    (let sizep = addr - 8 in
     rbind (kalloc (sint (sz + 8)) h) (\<lambda>(new, h).
       if new = 0 then Inr (Some (new, h))
       else
        (let h = upd_mem (store32 new (sz + 8)) h;
             h = upd_mem (bcopy addr (new + 8) sz) h
         in rbind (kfree sizep (sint (load32 (mem (kz h)) sizep)) h) (\<lambda>h. Inr (Some (new + 8, h))))))"

definition free :: "u32 \<Rightarrow> kheap \<Rightarrow> kheap option kresult" where
  "free data h =
    (let sizep = data - 8 in kfree sizep (sint (load32 (mem (kz h)) sizep)) h)"

end
