(* ===== verification/KallocSafe.thy ===== *)
theory KallocSafe
  imports Kalloc
begin

text \<open>
  The kernel allocator uses the zone allocator correctly: \<^verbatim>\<open>kallocinit\<close> creates one zone for each
  power of two from \<^verbatim>\<open>MINSIZE\<close> to less than a page, and \<^verbatim>\<open>kalloc\<close> and \<^verbatim>\<open>kfree\<close> choose the same one of them.
\<close>

subsection \<open>Size classes\<close>

text \<open>\<open>class_of sz i\<close>: the blocks of \<open>2 ^ i\<close> bytes are the smallest of at least 32 bytes that hold \<open>sz\<close>.\<close>

definition class_of :: "int \<Rightarrow> nat \<Rightarrow> bool" where
  "class_of sz i \<longleftrightarrow> 5 \<le> i \<and> sz \<le> 2 ^ i \<and> (i = 5 \<or> 2 ^ (i - 1) < sz)"

lemma size_loop_class:
  assumes "class_of sz i" and "j \<le> i" and "5 \<le> j" and "i - j < n"
  shows "size_loop n (2 ^ j) (int j) sz = Some (2 ^ i, int i)"
  using assms
proof (induction n arbitrary: j)
  case (Suc n)
  show ?case
  proof (cases "j = i")
    case True
    then show ?thesis using Suc.prems by (auto simp: class_of_def)
  next
    case False
    then have j: "j < i" using Suc.prems(2) by simp
    then have "(2 :: int) ^ j \<le> 2 ^ (i - 1)" by (intro power_increasing) auto
    moreover have "2 ^ (i - 1) < sz" using Suc.prems(1, 3) j by (auto simp: class_of_def)
    ultimately have "(2 :: int) ^ j < sz" by (rule le_less_trans)
    moreover have "i - Suc j < n" using Suc.prems(4) j by linarith
    ultimately show ?thesis using Suc.IH [of "Suc j"] Suc.prems j by (simp add: mult.commute add.commute)
  qed
qed simp

text \<open>The zones of the allocator.\<close>

definition kheap_ok :: "u32 list \<Rightarrow> kheap \<Rightarrow> bool" where
  "kheap_ok Z h \<longleftrightarrow> first_k_zone h = 5 \<and> PAGE_SIZE h \<le> 2 ^ 16 \<and>
     (\<forall>i. 5 \<le> i \<and> 2 ^ i < PAGE_SIZE h \<longrightarrow>
        k_zone h i \<in> set Z \<and> k_zone h i \<noteq> zone_zone (kz h) \<and> unat (elem_size (zone (kz h) (k_zone h i))) = 2 ^ i \<and>
        \<not> z_exhaustible (zone (kz h) (k_zone h i)))"

lemma size_class_eq:
  assumes "class_of sz i" and "kheap_ok Z h" and "sz < PAGE_SIZE h"
  shows "size_class sz h = Some (2 ^ i, int i)"
proof -
  have "i < 32"
  proof (rule ccontr)
    assume "\<not> i < 32"
    then have "(2 :: int) ^ 31 \<le> 2 ^ (i - 1)" by (intro power_increasing) auto
    then show False using assms \<open>\<not> i < 32\<close> by (auto simp: class_of_def kheap_ok_def)
  qed
  moreover have "5 \<le> i" using assms(1) by (simp add: class_of_def)
  ultimately have "size_loop 32 (2 ^ 5) (int 5) sz = Some (2 ^ i, int i)" by (intro size_loop_class [OF assms(1)]) auto
  then show ?thesis using assms(2, 3) by (simp add: size_class_def MINSIZE_def kheap_ok_def)
qed

lemma kheap_ok_kept:
  assumes "kheap_ok Z h" and "zkept z (kz h) s"
  shows "kheap_ok Z (h\<lparr>kz := s\<rparr>)" "kheap_ok Z (h\<lparr>numkallocs := c, kz := s\<rparr>)"
  using assms(1) by (simp_all add: kheap_ok_def PAGE_SIZE_def zkept_state [OF assms(2)] zkept_fields [OF assms(2)])

subsection \<open>Allocation\<close>

lemma kalloc_small:
  assumes "class_of sz i" and "kheap_ok Z h" and "0 < sz" and "2 ^ i < PAGE_SIZE h"
  shows "zpage_size s = zpage_size (kz h) \<Longrightarrow> kalloc sz (h\<lparr>kz := s\<rparr>) =
      rbind (zalloc (k_zone h i) s) (\<lambda>(a, t). Inr (Some (a, h\<lparr>numkallocs := numkallocs h + 1, kz := t\<rparr>)))"
    and "kfree a sz h = (if a = 0 then Inl ''assert'' else kbind (zfree (k_zone h i) a (kz h)) (\<lambda>t. Inr (Some (h\<lparr>kz := t\<rparr>))))"
proof -
  have "sz < PAGE_SIZE h" using assms(1, 4) by (simp add: class_of_def)
  note sc = size_class_eq [OF assms(1, 2) this]
  show "kalloc sz (h\<lparr>kz := s\<rparr>) =
      rbind (zalloc (k_zone h i) s) (\<lambda>(a, t). Inr (Some (a, h\<lparr>numkallocs := numkallocs h + 1, kz := t\<rparr>)))"
    if "zpage_size s = zpage_size (kz h)"
  proof -
    have "size_class sz (h\<lparr>kz := s, numkallocs := numkallocs h + 1\<rparr>) = size_class sz h"
      "PAGE_SIZE (h\<lparr>kz := s, numkallocs := numkallocs h + 1\<rparr>) = PAGE_SIZE h"
      using that by (simp_all add: size_class_def PAGE_SIZE_def)
    then show ?thesis using assms(3, 4) sc by (simp add: kalloc_def rbind_def)
  qed
  show "kfree a sz h = (if a = 0 then Inl ''assert'' else kbind (zfree (k_zone h i) a (kz h)) (\<lambda>t. Inr (Some (h\<lparr>kz := t\<rparr>))))"
    using assms(3, 4) sc by (simp add: kfree_def rbind_def)
qed

lemma kfree_live:
  assumes "class_of sz i" and "kheap_ok Z h" and "0 < sz" and "2 ^ i < PAGE_SIZE h" and "zone_reach U Z (kz h) L"
    and "(k_zone h i, a) \<in> set L"
  shows "\<exists>t. kfree a sz h = Inr (Some (h\<lparr>kz := t\<rparr>)) \<and> zone_reach U Z t (remove1 (k_zone h i, a) L) \<and>
    same_data (kz h) (remove1 (k_zone h i, a) L) t \<and> kheap_ok Z (h\<lparr>kz := t\<rparr>)"
proof -
  let ?t = "ADD_TO_ZONE (k_zone h i) a (kz h)"
  note inv = zone_reach_inv [OF assms(5)]
  have k: "k_zone h i \<noteq> zone_zone (kz h)" using assms(1, 2, 4) by (auto simp: kheap_ok_def class_of_def)
  note f = zfree_inv [OF inv assms(6)]
  have z: "zfree (k_zone h i) a (kz h) = Inr ?t" using f(1) k by blast
  then have a: "a \<noteq> 0" by (auto simp: zfree_def)
  have "zone_reach U Z ?t (remove1 (k_zone h i, a) L)" by (rule zone_reach.free [OF assms(5, 6) _ z]) (use k in blast)
  then show ?thesis
    using f(3) k a z kalloc_small(2) [OF assms(1-4)] kheap_ok_kept(1) [OF assms(2) zframe_kept [OF ADD_kept]]
    by (intro exI [of _ ?t]) simp
qed

text \<open>C13:
  A request of \<^verbatim>\<open>kalloc\<close> whose size, rounded up to a power of two, is below a page.  The call ends; it
  panics only when the zone for the size has no free block and is full or gets no memory; otherwise it
  returns a block of at least the requested size that overlaps no element of any zone in use, leaves the contents
  of all of them alone, and \<^verbatim>\<open>kfree\<close> with that block and size gives it back to the zone it came from.
\<close>

theorem kalloc_correct:
  assumes "zone_reach U Z (kz h) L" and "kheap_ok Z h" and "0 < sz" and "class_of sz i" and "2 ^ i < PAGE_SIZE h"
    and "kmem_fresh U (unat (kmem_request (k_zone h i) (kz h))) ks"
  shows "case kalloc sz (h\<lparr>kz := (kz h)\<lparr>kmem_results := ks\<rparr>\<rparr>) of
      Inl e \<Rightarrow> free_elements (zone (kz h) (k_zone h i)) = 0 \<and> may_panic (k_zone h i) ((kz h)\<lparr>kmem_results := ks\<rparr>)
    | Inr None \<Rightarrow> False
    | Inr (Some (a, h')) \<Rightarrow> a \<noteq> 0 \<and> kheap_ok Z h' \<and> same_data (kz h) L (kz h') \<and>
        (let U' = U \<union> kmem_cells (unat (kmem_request (k_zone h i) (kz h))) ks in
         zone_reach U' Z (kz h') ((k_zone h i, a) # L) \<and>
         (\<forall>p\<in>set L. cells (unat a, nat sz) \<inter> cells (blk (kz h) p) = {}) \<and>
         (\<exists>h''. kfree a sz h' = Inr (Some h'') \<and> zone_reach U' Z (kz h'') L \<and> same_data (kz h) L (kz h'') \<and> kheap_ok Z h''))"
proof -
  let ?z = "k_zone h i" and ?s = "(kz h)\<lparr>kmem_results := ks\<rparr>"
  let ?U = "U \<union> kmem_cells (unat (kmem_request ?z (kz h))) ks"
  have z: "?z \<in> set Z" "\<not> z_exhaustible (zone (kz h) ?z)" and e: "unat (elem_size (zone (kz h) ?z)) = 2 ^ i"
    using assms(2, 4, 5) by (auto simp: kheap_ok_def class_of_def)
  have ks: "kalloc sz (h\<lparr>kz := ?s\<rparr>) = rbind (zalloc ?z ?s) (\<lambda>(a, t). Inr (Some (a, h\<lparr>numkallocs := numkallocs h + 1, kz := t\<rparr>)))"
    by (rule kalloc_small(1) [OF assms(4, 2, 3, 5)]) simp
  note inv = zone_reach_inv [OF assms(1)]
  consider e where "zalloc ?z ?s = Inl e" "free_elements (zone (kz h) ?z) = 0" "may_panic ?z ?s"
    | a t where "zalloc ?z ?s = Inr (Some (a, t))" "zone_inv ?U Z t (if a = 0 then L else (?z, a) # L)"
       "zkept ?z (kz h) t" "same_data (kz h) L t" "a \<noteq> 0"
    using zalloc_step [OF inv z(1) assms(6)] z(2) by blast
  then show ?thesis
  proof cases
    case 1
    then show ?thesis by (simp add: ks rbind_def)
  next
    case (2 a t)
    let ?h = "h\<lparr>numkallocs := numkallocs h + 1, kz := t\<rparr>"
    have reach: "zone_reach ?U Z (kz ?h) ((?z, a) # L)"
      using zone_reach.alloc [OF assms(1) z(1) assms(6) 2(1)] 2(5) by simp
    have ok: "kheap_ok Z ?h" by (rule kheap_ok_kept(2) [OF assms(2) 2(3)])
    have page: "2 ^ i < PAGE_SIZE ?h" using assms(5) by (simp add: PAGE_SIZE_def zkept_state [OF 2(3)])
    obtain u where u: "kfree a sz ?h = Inr (Some (?h\<lparr>kz := u\<rparr>))" "zone_reach ?U Z u L" "same_data t L u" "kheap_ok Z (?h\<lparr>kz := u\<rparr>)"
      using kfree_live [OF assms(4) ok assms(3) page reach, of a] by auto
    have "same_data (kz h) L u" by (rule same_data_trans [OF 2(4) u(3)]) (rule zkept_fields(1) [OF 2(3)])
    moreover have "cells (unat a, nat sz) \<inter> cells (blk (kz h) p) = {}" if "p \<in> set L" for p
    proof -
      have d: "zone_inv ?U Z t ((?z, a) # L)" using zone_reach_inv [OF reach] by simp
      have "(?z, a) \<noteq> p" using inv_live(1) [OF d] that by auto
      then have "cells (blk t (?z, a)) \<inter> cells (blk t p) = {}" using inv_live(3) [OF d, of "(?z, a)" p] that by simp
      moreover have "nat sz \<le> 2 ^ i" using assms(4) by (simp add: class_of_def nat_le_iff)
      then have "cells (unat a, nat sz) \<subseteq> cells (blk t (?z, a))"
        by (auto simp: cells_def blk_def zkept_fields(1) [OF 2(3)] e)
      ultimately show ?thesis by (auto simp: blk_def zkept_fields(1) [OF 2(3)])
    qed
    ultimately show ?thesis
      using 2(1, 4, 5) reach ok u by (simp add: ks rbind_def Let_def)
  qed
qed

subsection \<open>Initialization\<close>

text \<open>A zone created from a free structure of the zone of zones; no memory is asked for.\<close>

lemma zinit_pop:
  assumes "zone_reach U Z s L" and "kmem_results s = []" and "flist (mem s) (free_elements (zone s (zone_zone s))) (x # xs)"
    and "0 < unat len" and "unat len \<le> 2 ^ 31 - 8"
  shows "\<exists>s'. zinit len mx alloc pageable name s = Inr (Some (x, s')) \<and> zone_reach U (Z @ [x]) s' ((zone_zone s, x) # L) \<and>
    kmem_results s' = [] \<and> zone_zone s' = zone_zone s \<and> zpage_size s' = zpage_size s \<and>
    flist (mem s') (free_elements (zone s' (zone_zone s))) xs \<and> x \<notin> set Z \<and>
    (\<forall>y\<in>set Z. elem_size (zone s' y) = elem_size (zone s y) \<and> z_exhaustible (zone s' y) = z_exhaustible (zone s y)) \<and>
    elem_size (zone s' x) = (len + zone_alignment) AND NOT zone_alignment \<and> \<not> z_exhaustible (zone s' x)"
proof -
  let ?zz = "zone_zone s"
  note inv = zone_reach_inv [OF assms(1)]
  have zz: "?zz \<in> set Z" using inv by (auto simp: zone_inv_def)
  have nz: "?zz \<noteq> 0" using inv_zone_nonzero [OF inv zz] .
  have x: "free_elements (zone s ?zz) = x" "x \<noteq> 0" and xs: "flist (mem s) (load32 (mem s) x) xs" using assms(3) by auto
  define t where "t = s\<lparr>zone := (zone s)(?zz := (zone s ?zz)\<lparr>z_count := z_count (zone s ?zz) + 1, free_elements := load32 (mem s) x\<rparr>)\<rparr>"
  have "REMOVE_FROM_ZONE ?zz s = (x, t)" using x by (simp add: REMOVE_FROM_ZONE_def upd_zone_def t_def Let_def)
  then have "zalloc ?zz s = Inr (Some (x, t))" using nz x(2) by (simp add: zalloc_def zalloc_loop_found assms(2) t_def)
  then have z: "zinit len mx alloc pageable name s = Inr (Some (x, zinit_at x len mx alloc pageable name t))"
    using nz x(2) by (simp add: zinit_def rbind_def)
  let ?s = "zinit_at x len mx alloc pageable name t"
  have s: "s\<lparr>kmem_results := []\<rparr> = s" using assms(2) by (cases s) simp
  have reach: "zone_reach U (Z @ [x]) ?s ((?zz, x) # L)"
    using zone_reach.init [OF assms(1) _ assms(4, 5), of "[]" mx alloc pageable name x ?s] z x(2) unfolding s by simp
  then have "distinct (Z @ [x])" using zone_reach_inv [OF reach] by (auto simp: zone_inv_def zone_core_def)
  then have new: "x \<notin> set Z" by simp
  have "last_zone s = Some (last Z)" "Z \<noteq> []" using inv zz by (auto simp: zone_inv_def)
  then have l: "last_zone t \<noteq> Some x" using new last_in_set [of Z] by (auto simp: t_def)
  have zx: "?zz \<noteq> x" using zz new by auto
  note zs = zinit_at_zone [OF l]
  have "kmem_results ?s = []" "zpage_size ?s = zpage_size s" "zone_zone ?s = zone_zone s" "mem ?s = mem s"
    using assms(2) by (simp_all add: zinit_at_def t_def Let_def split_beta upd_zone_def split: option.split)
  moreover have "free_elements (zone ?s ?zz) = load32 (mem s) x" using zx by (simp add: zs) (simp add: t_def)
  moreover have "elem_size (zone ?s y) = elem_size (zone s y)" "z_exhaustible (zone ?s y) = z_exhaustible (zone s y)" if "y \<in> set Z" for y
  proof -
    have "y \<noteq> x" using that new by auto
    then show "elem_size (zone ?s y) = elem_size (zone s y)" "z_exhaustible (zone ?s y) = z_exhaustible (zone s y)"
      by (simp_all add: zs) (simp_all add: t_def)
  qed
  moreover have "elem_size (zone ?s x) = (len + zone_alignment) AND NOT zone_alignment" "\<not> z_exhaustible (zone ?s x)"
    by (simp_all add: zs zone_template_def)
  ultimately show ?thesis using z reach xs new by (intro exI [of _ ?s]) simp
qed

lemma elem_size_pow2:
  assumes "5 \<le> i" and "i < 30"
  shows "unat ((word_of_int (2 ^ i) + zone_alignment) AND NOT zone_alignment :: u32) = 2 ^ i" and "0 < unat (word_of_int (2 ^ i) :: u32)"
    and "unat (word_of_int (2 ^ i) :: u32) \<le> 2 ^ 31 - 8"
proof -
  have u: "unat (word_of_int (2 ^ i) :: u32) = 2 ^ i" using assms(2) unat_2pow [of i] by simp
  have "(2 :: nat) ^ i \<le> 2 ^ 29" using assms(2) by (intro power_increasing) auto
  then show b: "0 < unat (word_of_int (2 ^ i) :: u32)" "unat (word_of_int (2 ^ i) :: u32) \<le> 2 ^ 31 - 8" unfolding u by auto
  have "(2 :: nat) ^ 2 dvd 2 ^ i" using assms(1) by (intro le_imp_power_dvd) simp
  then have "4 dvd unat (word_of_int (2 ^ i) :: u32)" unfolding u by simp
  then show "unat ((word_of_int (2 ^ i) + zone_alignment) AND NOT zone_alignment :: u32) = 2 ^ i"
    using elem_size_rounded [OF b] u by presburger
qed

text \<open>Creating the zones from class \<open>i\<close> on.\<close>

definition classes_below :: "nat \<Rightarrow> u32 list \<Rightarrow> kheap \<Rightarrow> bool" where
  "classes_below i Z h \<longleftrightarrow> (5 < i \<longrightarrow> first_k_zone h = 5) \<and>
     (\<forall>j. 5 \<le> j \<and> j < i \<longrightarrow> k_zone h j \<in> set Z \<and> k_zone h j \<noteq> zone_zone (kz h) \<and>
        unat (elem_size (zone (kz h) (k_zone h j))) = 2 ^ j \<and> \<not> z_exhaustible (zone (kz h) (k_zone h j)))"

lemma kallocinit_turn:
  assumes "zone_reach U Z (kz h) L" and "kmem_results (kz h) = []" and "PAGE_SIZE h = 2 ^ k" and "5 < k" and "k \<le> 16"
    and "flist (mem (kz h)) (free_elements (zone (kz h) (zone_zone (kz h)))) (x # ys)" and "5 \<le> i" and "i < k"
    and "classes_below i Z h"
  shows "\<exists>h1. kallocinit_loop (Suc n) i (2 ^ i) h = kallocinit_loop n (i + 1) (2 ^ Suc i) h1 \<and>
    zone_reach U (Z @ [x]) (kz h1) ((zone_zone (kz h), x) # L) \<and> kmem_results (kz h1) = [] \<and> PAGE_SIZE h1 = PAGE_SIZE h \<and>
    flist (mem (kz h1)) (free_elements (zone (kz h1) (zone_zone (kz h1)))) ys \<and> classes_below (Suc i) (Z @ [x]) h1"
proof -
  have i30: "i < 30" using assms(7, 8) assms(5) by linarith
  note p2 = elem_size_pow2 [OF assms(7) i30]
  define g where "g = (if (2 :: int) ^ i = MINSIZE then h\<lparr>first_k_zone := int i\<rparr> else h)"
  have g: "kz g = kz h" "k_zone g = k_zone h" "PAGE_SIZE g = PAGE_SIZE h" "first_k_zone g = (if i = 5 then 5 else first_k_zone h)"
  proof -
    have "(2 :: int) ^ i = MINSIZE \<longleftrightarrow> i = 5" using power_inject_exp [of "2 :: int" i 5] by (simp add: MINSIZE_def)
    then show "kz g = kz h" "k_zone g = k_zone h" "PAGE_SIZE g = PAGE_SIZE h" "first_k_zone g = (if i = 5 then 5 else first_k_zone h)"
      by (auto simp: g_def PAGE_SIZE_def)
  qed
  obtain t where t: "zinit (word_of_int (2 ^ i)) (k_zone_max i * word_of_int (2 ^ i)) (word_of_int (PAGE_SIZE g)) False (k_zone_name i) (kz g) = Inr (Some (x, t))"
      "zone_reach U (Z @ [x]) t ((zone_zone (kz h), x) # L)" "kmem_results t = []" "zone_zone t = zone_zone (kz h)"
      "zpage_size t = zpage_size (kz h)" "flist (mem t) (free_elements (zone t (zone_zone (kz h)))) ys" "x \<notin> set Z"
      "\<forall>y\<in>set Z. elem_size (zone t y) = elem_size (zone (kz h) y) \<and> z_exhaustible (zone t y) = z_exhaustible (zone (kz h) y)"
      "elem_size (zone t x) = (word_of_int (2 ^ i) + zone_alignment) AND NOT zone_alignment" "\<not> z_exhaustible (zone t x)"
    using zinit_pop [OF assms(1, 2) assms(6) p2(2, 3)] unfolding g(1) by blast
  define h1 where "h1 = g\<lparr>kz := t, k_zone := (k_zone g)(i := x)\<rparr>"
  have h1: "kz h1 = t" "k_zone h1 = (k_zone h)(i := x)" "PAGE_SIZE h1 = PAGE_SIZE h" "first_k_zone h1 = first_k_zone g"
    using g t(5) by (simp_all add: h1_def PAGE_SIZE_def)
  have step: "kallocinit_loop (Suc n) i (2 ^ i) h = kallocinit_loop n (i + 1) (2 ^ Suc i) h1"
  proof -
    have "(2 :: int) ^ i < 2 ^ k" "(2 :: int) ^ 5 \<le> 2 ^ i" using assms(7, 8) by (simp_all only: power_strict_increasing_iff power_increasing_iff)
    then have c: "((2 :: int) ^ i < PAGE_SIZE h) = True" "((2 :: int) ^ i < MINSIZE) = False"
      by (simp_all add: assms(3) MINSIZE_def)
    have "kallocinit_loop (Suc n) i (2 ^ i) h = kallocinit_loop n (i + 1) (2 ^ i * 2) h1"
      unfolding kallocinit_loop.simps c if_True if_False Let_def g_def [symmetric] t(1) by (simp add: rbind_def h1_def)
    then show ?thesis by (simp add: mult.commute)
  qed
  have zz: "zone_zone (kz h) \<in> set Z" using zone_reach_inv [OF assms(1)] by (auto simp: zone_inv_def)
  have cl: "classes_below (Suc i) (Z @ [x]) h1"
    unfolding classes_below_def
  proof (intro conjI allI impI)
    show "first_k_zone h1 = 5" if "5 < Suc i" using that g(4) assms(7, 9) by (auto simp: h1 classes_below_def)
    fix j assume j: "5 \<le> j \<and> j < Suc i"
    show "k_zone h1 j \<in> set (Z @ [x])" "k_zone h1 j \<noteq> zone_zone (kz h1)"
      "unat (elem_size (zone (kz h1) (k_zone h1 j))) = 2 ^ j" "\<not> z_exhaustible (zone (kz h1) (k_zone h1 j))"
      using j assms(9) t(4, 7-10) p2(1) zz by (cases "j = i"; auto simp: h1 classes_below_def)+
  qed
  show ?thesis using step t(2-4, 6) h1 cl by (intro exI [of _ h1]) simp
qed

lemma kallocinit_loop_classes:
  assumes "zone_reach U Z (kz h) L" and "kmem_results (kz h) = []" and "PAGE_SIZE h = 2 ^ k" and "5 < k" and "k \<le> 16"
    and "flist (mem (kz h)) (free_elements (zone (kz h) (zone_zone (kz h)))) xs" and "k - max 5 i \<le> length xs"
    and "classes_below i Z h" and "i \<le> k" and "k - i < n"
  shows "\<exists>h' Z' L'. kallocinit_loop n i (2 ^ i) h = Inr (Some h') \<and> zone_reach U (Z @ Z') (kz h') (L' @ L) \<and>
    length Z' = k - max 5 i \<and> classes_below k (Z @ Z') h' \<and> PAGE_SIZE h' = PAGE_SIZE h"
  using assms
proof (induction n arbitrary: i h Z L xs)
  case (Suc n)
  consider "i = k" | "i < k" "i < 5" | "i < k" "5 \<le> i" using Suc.prems(9) by linarith
  then show ?case
  proof cases
    case 1
    then show ?thesis
      using Suc.prems by (intro exI [of _ h] exI [of _ "[]"]) auto
  next
    case 2
    let ?h = "h\<lparr>k_zone := (k_zone h)(i := 0)\<rparr>"
    have "kallocinit_loop (Suc n) i (2 ^ i) h = kallocinit_loop n (i + 1) (2 ^ Suc i) ?h"
    proof -
      have "(2 :: int) ^ i < 2 ^ k" "(2 :: int) ^ i < 2 ^ 5" using 2 by (simp_all only: power_strict_increasing_iff)
      then show ?thesis using Suc.prems(3) by (simp add: MINSIZE_def mult.commute)
    qed
    moreover have "\<exists>h' Z' L'. kallocinit_loop n (Suc i) (2 ^ Suc i) ?h = Inr (Some h') \<and> zone_reach U (Z @ Z') (kz h') (L' @ L) \<and>
        length Z' = k - max 5 (Suc i) \<and> classes_below k (Z @ Z') h' \<and> PAGE_SIZE h' = PAGE_SIZE ?h"
      by (rule Suc.IH [of Z ?h L xs]) (use Suc.prems 2 in \<open>auto simp: classes_below_def PAGE_SIZE_def\<close>)
    moreover have "max 5 (Suc i) = max 5 i" "PAGE_SIZE ?h = PAGE_SIZE h" using 2 by (auto simp: PAGE_SIZE_def)
    ultimately show ?thesis by simp
  next
    case 3
    then obtain x ys where xs: "xs = x # ys" using Suc.prems(7) by (cases xs) auto
    obtain h1 where h1: "kallocinit_loop (Suc n) i (2 ^ i) h = kallocinit_loop n (i + 1) (2 ^ Suc i) h1"
        "zone_reach U (Z @ [x]) (kz h1) ((zone_zone (kz h), x) # L)" "kmem_results (kz h1) = []" "PAGE_SIZE h1 = PAGE_SIZE h"
        "flist (mem (kz h1)) (free_elements (zone (kz h1) (zone_zone (kz h1)))) ys" "classes_below (Suc i) (Z @ [x]) h1"
      using kallocinit_turn [OF Suc.prems(1-5) Suc.prems(6) [unfolded xs] 3(2, 1) Suc.prems(8)] by blast
    have "\<exists>h' Z' L'. kallocinit_loop n (Suc i) (2 ^ Suc i) h1 = Inr (Some h') \<and>
        zone_reach U ((Z @ [x]) @ Z') (kz h') (L' @ (zone_zone (kz h), x) # L) \<and>
        length Z' = k - max 5 (Suc i) \<and> classes_below k ((Z @ [x]) @ Z') h' \<and> PAGE_SIZE h' = PAGE_SIZE h1"
      by (rule Suc.IH [OF h1(2, 3) _ Suc.prems(4, 5) h1(5) _ h1(6)]) (use Suc.prems(3, 7, 10) 3 xs h1(4) in auto)
    then obtain h' Z' L' where r: "kallocinit_loop n (Suc i) (2 ^ Suc i) h1 = Inr (Some h')"
        "zone_reach U ((Z @ [x]) @ Z') (kz h') (L' @ (zone_zone (kz h), x) # L)"
        "length Z' = k - max 5 (Suc i)" "classes_below k ((Z @ [x]) @ Z') h'" "PAGE_SIZE h' = PAGE_SIZE h1"
      by blast
    have "length (x # Z') = k - max 5 i" using r(3) 3 by simp
    then show ?thesis
      using r h1(1, 4) by (intro exI [of _ h'] exI [of _ "x # Z'"] exI [of _ "L' @ [(zone_zone (kz h), x)]"]) simp
  qed
qed simp

text \<open>C23:
  \<^verbatim>\<open>kallocinit\<close>, with a page of at most 64K and enough free structures in the zone of zones, ends
  without panic and creates one zone for each power of two from 32 to less than a page, stored at the
  index \<^verbatim>\<open>kalloc\<close> computes (so never beyond the 16 places of the array) and with elements of exactly
  that size; the state stays one the zone allocator can reach.
\<close>

theorem kallocinit_classes:
  assumes "zone_reach U Z (kz h) L" and "kmem_results (kz h) = []" and "PAGE_SIZE h = 2 ^ k" and "5 < k" and "k \<le> 16"
    and "flist (mem (kz h)) (free_elements (zone (kz h) (zone_zone (kz h)))) xs" and "k - 5 \<le> length xs"
  shows "\<exists>h' Z' L'. kallocinit h = Inr (Some h') \<and> zone_reach U (Z @ Z') (kz h') (L' @ L) \<and> length Z' = k - 5 \<and>
    kheap_ok (Z @ Z') h' \<and> (\<forall>i. (2 :: int) ^ i < PAGE_SIZE h' \<longrightarrow> i < 16)"
proof -
  have "classes_below 0 Z h" by (simp add: classes_below_def)
  then obtain h' Z' L' where r: "kallocinit_loop 33 0 (2 ^ 0) h = Inr (Some h')" "zone_reach U (Z @ Z') (kz h') (L' @ L)"
      "length Z' = k - max 5 0" "classes_below k (Z @ Z') h'" "PAGE_SIZE h' = PAGE_SIZE h"
    using kallocinit_loop_classes [OF assms(1-6), of 0 33] assms(5, 7) by auto
  have lt: "i < k" if "(2 :: int) ^ i < PAGE_SIZE h'" for i
    using that power_less_imp_less_exp [of "2 :: int" i k] by (simp add: r(5) assms(3))
  have "(2 :: int) ^ k \<le> 2 ^ 16" using assms(5) by (intro power_increasing) auto
  then have "kheap_ok (Z @ Z') h'"
    using r(4, 5) assms(3, 4) lt unfolding kheap_ok_def classes_below_def by auto
  moreover have "i < 16" if "(2 :: int) ^ i < PAGE_SIZE h'" for i using lt [OF that] assms(5) by simp
  ultimately show ?thesis
    using r by (intro exI [of _ h'] exI [of _ Z'] exI [of _ L']) (simp add: kallocinit_def)
qed

text \<open>
  A request of a page or more, or one that rounds up to a page, goes to \<^verbatim>\<open>kmem_alloc\<close>, is never
  accepted by \<^verbatim>\<open>kget\<close>, and \<^verbatim>\<open>kfree\<close> returns exactly the memory asked for.
\<close>

lemma kalloc_large:
  assumes "kheap_ok Z h" and "0 < sz" and "class_of sz i" and "PAGE_SIZE h \<le> 2 ^ i"
  defines "n \<equiv> (if sz < PAGE_SIZE h then 2 ^ i else sz)"
  shows "kalloc sz h = Inr (Some (fst (kmem_alloc (word_of_int n) (kz h)),
      h\<lparr>numkallocs := numkallocs h + 1, kz := snd (kmem_alloc (word_of_int n) (kz h))\<rparr>))"
    and "kget sz h = Inl ''kget: oversized request''"
    and "a \<noteq> 0 \<Longrightarrow> kfree a sz h = Inr (Some (h\<lparr>kz := (kz h)\<lparr>kmem_freed := kmem_freed (kz h) @ [(a, word_of_int n)]\<rparr>\<rparr>))"
proof -
  have sc: "size_class sz h = Some (n, if sz < PAGE_SIZE h then int i else 0)" and n: "\<not> n < PAGE_SIZE h"
    using size_class_eq [OF assms(3, 1)] assms(4) by (auto simp: n_def size_class_def)
  have eq: "size_class sz (h\<lparr>numkallocs := c\<rparr>) = size_class sz h" "PAGE_SIZE (h\<lparr>numkallocs := c\<rparr>) = PAGE_SIZE h" for c
    by (simp_all add: size_class_def PAGE_SIZE_def)
  show "kalloc sz h = Inr (Some (fst (kmem_alloc (word_of_int n) (kz h)),
      h\<lparr>numkallocs := numkallocs h + 1, kz := snd (kmem_alloc (word_of_int n) (kz h))\<rparr>))"
    using assms(2) sc n by (simp add: kalloc_def eq rbind_def split_beta)
  show "kget sz h = Inl ''kget: oversized request''" using assms(2) sc n by (simp add: kget_def rbind_def)
  show "kfree a sz h = Inr (Some (h\<lparr>kz := (kz h)\<lparr>kmem_freed := kmem_freed (kz h) @ [(a, word_of_int n)]\<rparr>\<rparr>))" if "a \<noteq> 0"
    using assms(2) sc n that by (simp add: kfree_def rbind_def)
qed

text \<open>
  \<^verbatim>\<open>malloc\<close> returns cleared memory behind a word that holds the size of the block, and \<^verbatim>\<open>free\<close> passes to
  \<^verbatim>\<open>kfree\<close> the block and the size \<^verbatim>\<open>malloc\<close> asked \<^verbatim>\<open>kalloc\<close> for.
\<close>

lemma malloc_free:
  assumes "kalloc (sint (sz + 8)) h = Inr (Some (a, h1))" and "a \<noteq> 0" and "unat sz + 8 < 2 ^ 32"
  shows "\<exists>h2. malloc sz h = Inr (Some (a + 8, h2)) \<and> free (a + 8) h2 = kfree a (sint (sz + 8)) h2 \<and>
    (\<forall>b. b - (a + 8) < sz \<longrightarrow> mem (kz h2) b = 0)"
proof -
  let ?h = "upd_mem (store32 a (sz + 8)) (upd_mem (bzero a (sz + 8)) h1)"
  have m: "malloc sz h = Inr (Some (a + 8, ?h))" using assms(1, 2) by (simp add: malloc_def rbind_def Let_def)
  have f: "free (a + 8) ?h = kfree a (sint (sz + 8)) ?h" by (simp add: free_def Let_def upd_mem_def load_store)
  have "mem (kz ?h) b = 0" if "b - (a + 8) < sz" for b
  proof -
    define d where "d = b - (a + 8)"
    have b: "b - a = d + 8" by (simp add: d_def)
    have "unat (sz + 8) = unat sz + 8" using assms(3) by (simp add: unat_word_ariths)
    moreover have n: "unat d < unat sz" "unat (d + 8) = unat d + 8"
      using that assms(3) by (simp_all add: d_def [symmetric] word_less_nat_alt unat_word_ariths)
    ultimately have "d + 8 < sz + 8" by (simp add: word_less_nat_alt)
    moreover have "b \<notin> {a, a + 1, a + 2, a + 3}"
    proof
      assume "b \<in> {a, a + 1, a + 2, a + 3}"
      then have "b - a \<in> {0, 1, 2, 3}" by auto
      then have "unat (b - a) \<le> 3" by auto
      then show False using b n(2) by simp
    qed
    ultimately show ?thesis using b by (auto simp: upd_mem_def store32_def bzero_def)
  qed
  then show ?thesis using m f by blast
qed

subsection \<open>An example\<close>

text \<open>Pages of 64 bytes, so that 32 is the only size with a zone of its own.\<close>

definition demo_kboot :: zones where
  "demo_kboot = demo_boot\<lparr>zpage_size := 64, zpage_mask := 63\<rparr>"

definition demo_kz :: zones where
  "demo_kz = (case zone_bootstrap demo_kboot of Inr (Some s) \<Rightarrow> s | _ \<Rightarrow> demo_kboot)"

definition demo_kheap :: kheap where
  "demo_kheap = \<lparr>kz = demo_kz, numkallocs = 0, first_k_zone = -1, k_zone = \<lambda>_. 0\<rparr>"

lemma demo_kz_reach: "zone_reach (cells (0x1000, 24)) [0x1000] demo_kz []"
proof -
  have "page_ok demo_kboot" unfolding page_ok_def by (intro exI [of _ 6]) (simp add: demo_kboot_def)
  then have b: "boot_ok demo_kboot"
    by (auto simp: boot_ok_def demo_kboot_def demo_boot_def usable_def cells_def)
  obtain s' where s': "zone_bootstrap demo_kboot = Inr (Some s')" using zone_bootstrap_inv [OF b] by blast
  then have "demo_kz = s'" by (simp add: demo_kz_def)
  then show ?thesis using zone_reach.boot [OF b s'] by (simp add: demo_kboot_def demo_boot_def)
qed

lemma demo_kz_eq:
  "demo_kz = demo_kboot\<lparr>mem := store32 0x1010 0x1008 (store32 0x1008 0 (\<lambda>_. 0)), zone := (\<lambda>_. zero_zone)(0x1000 :=
     zero_zone\<lparr>free_elements := 0x1010, cur_size := 16, max_size := 64, elem_size := 8, alloc_size := 64, zone_name := ''zones''\<rparr>),
     zone_zone := 0x1000, first_zone := 0x1000, last_zone := Some 0x1000, num_zones := 1\<rparr>"
  by (simp add: demo_kz_def demo_kboot_def demo_boot_def zone_bootstrap_def zinit_def zinit_at_def zinit_sizes_def rbind_def zcram_def
      upd_zone_def ADD_TO_ZONE_def zero_zone_def zone_alignment_def round_page_def cram_loop_numeral Let_def)

lemmas kallocinit_loop_numeral = kallocinit_loop.simps(2) [of "pred_numeral n" for n, folded numeral_eq_Suc]

definition demo_kinit :: kheap where
  "demo_kinit = (case kallocinit demo_kheap of Inr (Some h) \<Rightarrow> h | _ \<Rightarrow> demo_kheap)"

lemma demo_kinit_eq:
  "kallocinit demo_kheap = Inr (Some demo_kinit)"
  "k_zone demo_kinit 5 = 0x1010" "PAGE_SIZE demo_kinit = 64" "kmem_results (kz demo_kinit) = []"
  "zone (kz demo_kinit) 0x1010 = zero_zone\<lparr>max_size := 0x100000, elem_size := 32, alloc_size := 64, zone_name := ''kalloc.32''\<rparr>"
  by (simp_all add: demo_kinit_def kallocinit_def kallocinit_loop_numeral demo_kheap_def demo_kz_eq demo_kboot_def demo_boot_def
     PAGE_SIZE_def MINSIZE_def zinit_def zalloc_def REMOVE_FROM_ZONE_def rbind_def zalloc_loop_found load_store zinit_at_def
     zinit_sizes_def zero_zone_def upd_zone_def zone_alignment_def round_page_def k_zone_max_def k_zone_name_def Let_def)

lemma demo_kheap_facts:
  "kmem_results (kz demo_kheap) = []" "PAGE_SIZE demo_kheap = 2 ^ 6" "zone_reach (cells (0x1000, 24)) [0x1000] (kz demo_kheap) []"
  "flist (mem (kz demo_kheap)) (free_elements (zone (kz demo_kheap) (zone_zone (kz demo_kheap)))) [0x1010, 0x1008]"
proof -
  have "store32 0x1010 0x1008 m b = m b" if "b \<in> {0x1008, 0x1009, 0x100A, 0x100B}" for m b
    using that by (auto simp: store32_def)
  then have "load32 (store32 0x1010 0x1008 (store32 0x1008 0 m)) 0x1008 = load32 (store32 0x1008 0 m) 0x1008" for m
    by (simp add: load32_def)
  then show "flist (mem (kz demo_kheap)) (free_elements (zone (kz demo_kheap) (zone_zone (kz demo_kheap)))) [0x1010, 0x1008]"
    by (simp add: demo_kheap_def demo_kz_eq load_store)
qed (simp_all add: demo_kheap_def demo_kz_reach, simp_all add: demo_kz_eq demo_kboot_def demo_boot_def PAGE_SIZE_def)

theorem kallocinit_classes_witness:
  "\<exists>Z L. kallocinit demo_kheap = Inr (Some demo_kinit) \<and> zone_reach (cells (0x1000, 24)) Z (kz demo_kinit) L \<and> length Z = 2 \<and>
     kheap_ok Z demo_kinit"
proof -
  obtain Z L where "zone_reach (cells (0x1000, 24)) ([0x1000] @ Z) (kz demo_kinit) L" "length Z = 1" "kheap_ok ([0x1000] @ Z) demo_kinit"
    using kallocinit_classes [OF demo_kheap_facts(3, 1, 2) _ _ demo_kheap_facts(4)] demo_kinit_eq(1) by auto
  then show ?thesis using demo_kinit_eq(1) by (intro exI [of _ "[0x1000] @ Z"] exI [of _ L]) simp
qed

lemma demo_kinit_ok: "\<exists>Z L. zone_reach (cells (0x1000, 24)) Z (kz demo_kinit) L \<and> kheap_ok Z demo_kinit"
proof -
  have "classes_below 0 [0x1000] demo_kheap" by (simp add: classes_below_def)
  from kallocinit_loop_classes [OF demo_kheap_facts(3, 1, 2) _ _ demo_kheap_facts(4) _ this, of 33]
  obtain Z L where "zone_reach (cells (0x1000, 24)) Z (kz demo_kinit) L" "classes_below 6 Z demo_kinit"
    using demo_kinit_eq(1) by (auto simp: kallocinit_def)
  moreover from this have "kheap_ok Z demo_kinit"
    using power_less_imp_less_exp [of "2 :: int" _ 6] by (auto simp: kheap_ok_def classes_below_def demo_kinit_eq(3))
  ultimately show ?thesis by blast
qed

theorem kalloc_correct_witness:
  "\<exists>a h' h'' Z L. a \<noteq> 0 \<and> kalloc 20 (demo_kinit\<lparr>kz := (kz demo_kinit)\<lparr>kmem_results := [0x2000]\<rparr>\<rparr>) = Inr (Some (a, h')) \<and>
     zone_reach (cells (0x1000, 24) \<union> cells (0x2000, 64)) Z (kz h') ((0x1010, a) # L) \<and>
     kfree a 20 h' = Inr (Some h'') \<and> zone_reach (cells (0x1000, 24) \<union> cells (0x2000, 64)) Z (kz h'') L"
proof -
  obtain Z L where zl: "zone_reach (cells (0x1000, 24)) Z (kz demo_kinit) L" "kheap_ok Z demo_kinit" using demo_kinit_ok by blast
  have "uint (zpage_size (kz demo_kinit)) = uint (64 :: u32)" using demo_kinit_eq(3) by (simp add: PAGE_SIZE_def)
  then have pg: "zpage_size (kz demo_kinit) = 64" by (simp only: word_uint_eq_iff)
  have r: "kmem_request 0x1010 (kz demo_kinit) = 64"
    by (simp add: kmem_request_def demo_kinit_eq(5) zero_zone_def space_to_add_def pg)
  have fresh: "kmem_fresh (cells (0x1000, 24)) (unat (kmem_request (k_zone demo_kinit 5) (kz demo_kinit))) [0x2000]"
    by (auto simp: demo_kinit_eq(2) r kmem_fresh_def kmem_cells_def kmem_blocks_def apart_add usable_def cells_def)
  have np: "\<not> may_panic 0x1010 ((kz demo_kinit)\<lparr>kmem_results := [0x2000]\<rparr>)"
    by (simp add: may_panic_def zone_full_def demo_kinit_eq(5) zero_zone_def)
  have "class_of 20 5" "2 ^ 5 < PAGE_SIZE demo_kinit" by (simp_all add: class_of_def demo_kinit_eq(3))
  note k = kalloc_correct [OF zl _ this fresh]
  have c: "kmem_cells (unat (kmem_request (k_zone demo_kinit 5) (kz demo_kinit))) [0x2000] = cells (0x2000, 64)"
    by (simp add: demo_kinit_eq(2) r kmem_cells_def)
  obtain a h' where a: "kalloc 20 (demo_kinit\<lparr>kz := (kz demo_kinit)\<lparr>kmem_results := [0x2000]\<rparr>\<rparr>) = Inr (Some (a, h'))"
    using k np by (auto simp: demo_kinit_eq(2) split: sum.splits option.splits)
  then show ?thesis using k unfolding c by (simp add: demo_kinit_eq(2) Let_def) blast
qed

end
