(* ===== verification/Sched.thy ===== *)
theory Sched
  imports Timer VmObject
begin

text \<open>
  Scheduling, \<^verbatim>\<open>kern/sched_prim.c\<close> with \<^verbatim>\<open>kern/sched.h\<close> and the structures of \<^verbatim>\<open>kern/thread.h\<close> and
  \<^verbatim>\<open>kern/processor.h\<close>, the swap-in requests of \<^verbatim>\<open>kern/thread_swap.c\<close> and suspension of \<^verbatim>\<open>kern/thread.c\<close>, in
  the configuration \<^verbatim>\<open>NeXT\<close>, one processor, \<^verbatim>\<open>MACH_FIXPRI\<close>, statistical timing, no \<^verbatim>\<open>MACH_HOST\<close> and no
  \<^verbatim>\<open>FAST_CSW\<close>.  The routines run at \<^verbatim>\<open>splsched\<close> and the simple locks are empty, so each is atomic.

  The queues of threads are lists (theory Queue justifies that).  The state word of a thread is the set
  of its flags.  The one processor is the master; a thread is bound to it (\<open>bound\<close>) or not.
  \<open>timeouts\<close> lists the threads for which \<^verbatim>\<open>timeout(thread_timeout, thread, t)\<close> is pending, \<open>ast\<close> says
  that \<^verbatim>\<open>aston\<close> was called.  Events are the integers the code makes of addresses: \<open>swapping_thread\<close>,
  \<open>wake_active_ev th\<close> for \<^verbatim>\<open>&th->wake_active\<close>, \<open>swap_state_ev th\<close> for \<^verbatim>\<open>&th->swap_state\<close>.
  The unit of the high word of a timer is a parameter, as in theory Timer.

  Left out are the reference counts, the statistics (\<^verbatim>\<open>same_task_count\<close>, \<^verbatim>\<open>no_dispatch_count\<close>, the traces), and what a
  context switch does outside the scheduler: \<^verbatim>\<open>timer_switch\<close> (theory Timer), \<^verbatim>\<open>ast_context\<close> and the change of the
  address space.
\<close>

subsection \<open>Data\<close>

datatype th_flag = TH_WAIT | TH_SUSP | TH_RUN | TH_SWAPPED | TH_IDLE

datatype swap_st = TH_SW_UNSWAPPABLE | TH_SW_IN | TH_SW_GOING_OUT | TH_SW_WANT_IN | TH_SW_OUT | TH_SW_COMING_IN

datatype policy = POLICY_TIMESHARE | POLICY_FIXEDPRI | POLICY_INTERACTIVE

datatype rq_id = Pset_runq | Proc_runq

datatype processor_state = PROCESSOR_OFF_LINE | PROCESSOR_RUNNING | PROCESSOR_IDLE | PROCESSOR_DISPATCHING
  | PROCESSOR_ASSIGN | PROCESSOR_SHUTDOWN

text \<open>\<^verbatim>\<open>TH_SW_MAKE_UNSWAPPABLE\<close> is a flag beside the swap state.\<close>

record thread =
  runq :: "rq_id option"
  wait_event :: int
  suspend_count :: int
  interruptible :: bool
  wait_result :: int
  timer_set :: bool
  wake_active :: bool
  swap_state :: swap_st
  sw_make_unswappable :: bool
  state :: "th_flag set"
  priority :: int
  sched_pri :: int
  sched_data :: int
  policy :: policy
  depress_priority :: int
  cpu_usage :: u32
  sched_usage :: u32
  sched_stamp :: u32
  user_stop_count :: int
  user_timer :: timer
  system_timer :: timer
  user_timer_save :: timer_save
  system_timer_save :: timer_save
  cpu_delta :: u32
  sched_delta :: u32
  halted :: bool
  bound :: bool

record run_queue =
  rqs :: "nat \<Rightarrow> ptr list"
  high :: int
  rcount :: int

record sched =
  thread :: "ptr \<Rightarrow> thread"
  wait_queue :: "nat \<Rightarrow> ptr list"
  rq :: "rq_id \<Rightarrow> run_queue"
  active_thread :: ptr
  idle_thread :: ptr
  next_thread :: ptr
  pstate :: processor_state
  idle_count :: int
  first_quantum :: bool
  quantum :: int
  min_quantum :: int
  set_quantum :: int
  policy_fixedpri :: bool
  sched_load :: u32
  sched_tick :: u32
  ast :: bool
  timeouts :: "ptr list"
  swapin_queue :: "ptr list"
  swapping_thread :: int
  wake_active_ev :: "ptr \<Rightarrow> int"
  swap_state_ev :: "ptr \<Rightarrow> int"
  timer_unit :: u32
  same_thread_count :: int

definition upd_thread :: "ptr \<Rightarrow> (thread \<Rightarrow> thread) \<Rightarrow> sched \<Rightarrow> sched" where
  "upd_thread th f s = s\<lparr>thread := (thread s)(th := f (thread s th))\<rparr>"

definition upd_rq :: "rq_id \<Rightarrow> (run_queue \<Rightarrow> run_queue) \<Rightarrow> sched \<Rightarrow> sched" where
  "upd_rq q f s = s\<lparr>rq := (rq s)(q := f (rq s q))\<rparr>"

definition NUMQUEUES :: int where
  "NUMQUEUES = 59"

definition NRQS :: nat where
  "NRQS = 32"

definition THREAD_AWAKENED :: int where "THREAD_AWAKENED = 0"
definition THREAD_TIMED_OUT :: int where "THREAD_TIMED_OUT = 1"
definition THREAD_INTERRUPTED :: int where "THREAD_INTERRUPTED = 2"

subsection \<open>Priorities\<close>

text \<open>
  With statistical timing \<^verbatim>\<open>PRI_SHIFT\<close> is 18 and \<^verbatim>\<open>SCHED_SHIFT\<close> 7.  The subtraction is unsigned in C and
  its result read as a signed number, which is the difference.
\<close>

definition do_priority_computation :: "thread \<Rightarrow> int" where
  "do_priority_computation th =
    (let pri = priority th - uint (drop_bit (18 + 7) (sched_usage th)) in if pri < 0 then 0 else pri)"

definition thread_timer_delta :: "u32 \<Rightarrow> u32 \<Rightarrow> thread \<Rightarrow> thread option" where
  "thread_timer_delta unit load th =
     Option.bind (TIMER_DELTA unit (system_timer th) (system_timer_save th) 0) (\<lambda>(delta, sys).
     Option.bind (TIMER_DELTA unit (user_timer th) (user_timer_save th) delta) (\<lambda>(delta, usr).
       Some (th\<lparr>system_timer_save := sys, user_timer_save := usr, cpu_delta := cpu_delta th + delta,
                sched_delta := sched_delta th + delta * load\<rparr>)))"

definition wait_shift :: "(nat \<times> int) list" where
  "wait_shift = [(1,1),(1,3),(1,-3),(2,-7),(3,5),(3,-5),(4,-8),(5,7),
     (5,-7),(6,-10),(7,10),(7,-9),(8,-11),(9,12),(9,-11),(10,-13),
     (11,14),(11,-13),(12,-15),(13,17),(13,-15),(14,-17),(15,19),(16,18),
     (16,-19),(17,22),(18,20),(18,-20),(19,26),(20,22),(20,-22),(21,-27)]"

definition shift_usage :: "nat \<times> int \<Rightarrow> u32 \<Rightarrow> u32" where
  "shift_usage shiftp usage =
    (if snd shiftp > 0 then drop_bit (fst shiftp) usage + drop_bit (nat (snd shiftp)) usage
     else drop_bit (fst shiftp) usage - drop_bit (nat (- snd shiftp)) usage)"

definition age_usage :: "u32 \<Rightarrow> thread \<Rightarrow> thread" where
  "age_usage ticks th =
    (if ticks > 30 then th\<lparr>cpu_usage := 0, sched_usage := 0\<rparr>
     else
      (let th = th\<lparr>cpu_usage := cpu_usage th + cpu_delta th, sched_usage := sched_usage th + sched_delta th\<rparr>;
           shiftp = wait_shift ! unat ticks
       in th\<lparr>cpu_usage := shift_usage shiftp (cpu_usage th), sched_usage := shift_usage shiftp (sched_usage th)\<rparr>))"

definition update_priority :: "ptr \<Rightarrow> sched \<Rightarrow> sched option kresult" where
  "update_priority th s =
    (let v = thread s th; ticks = sched_tick s - sched_stamp v in
     if ticks = 0 then Inl ''Bad update''
     else
      (case thread_timer_delta (timer_unit s) (sched_load s) (v\<lparr>sched_stamp := sched_stamp v + ticks\<rparr>) of
         None \<Rightarrow> Inr None
       | Some v \<Rightarrow>
          (let v = (age_usage ticks v)\<lparr>cpu_delta := 0, sched_delta := 0\<rparr>;
               v = (if policy v \<noteq> POLICY_FIXEDPRI \<and> depress_priority v < 0 then v\<lparr>sched_pri := do_priority_computation v\<rparr> else v)
           in Inr (Some (upd_thread th (\<lambda>_. v) s)))))"

subsection \<open>Run queues\<close>

definition whichq :: "thread \<Rightarrow> nat" where
  "whichq v = (if sched_pri v < 0 \<or> sched_pri v \<ge> int NRQS then NRQS - 1 else nat (sched_pri v))"

text \<open>The comparison with the hint is unsigned.\<close>

definition run_queue_enqueue :: "rq_id \<Rightarrow> ptr \<Rightarrow> sched \<Rightarrow> sched" where
  "run_queue_enqueue q th s =
    (let w = whichq (thread s th);
         s = upd_rq q (\<lambda>r. r\<lparr>rqs := (rqs r)(w := rqs r w @ [th])\<rparr>) s;
         s = upd_rq q (\<lambda>r. if (of_nat w :: u32) > word_of_int (high r) \<or> rcount r = 0 then r\<lparr>high := int w\<rparr> else r) s;
         s = upd_rq q (\<lambda>r. r\<lparr>rcount := rcount r + 1\<rparr>) s
     in upd_thread th (\<lambda>v. v\<lparr>runq := Some q\<rparr>) s)"

definition thread_setrun :: "ptr \<Rightarrow> bool \<Rightarrow> sched \<Rightarrow> sched option kresult" where
  "thread_setrun th may_preempt s =
     rbind (if sched_stamp (thread s th) \<noteq> sched_tick s then update_priority th s else Inr (Some s)) (\<lambda>s.
       if runq (thread s th) \<noteq> None then Inl ''assert''
       else if idle_count s > 0
       then Inr (Some (s\<lparr>idle_count := idle_count s - 1, next_thread := th, pstate := PROCESSOR_DISPATCHING\<rparr>))
       else
        (let (q, s) = (if \<not> bound (thread s th) then (Pset_runq, s) else (Proc_runq, s\<lparr>ast := True\<rparr>));
             s = run_queue_enqueue q th s
         in Inr (Some (if may_preempt \<and> sched_pri (thread s (active_thread s)) < sched_pri (thread s th)
                       then s\<lparr>first_quantum := False, ast := True\<rparr> else s))))"

definition rem_runq :: "ptr \<Rightarrow> sched \<Rightarrow> rq_id option \<times> sched" where
  "rem_runq th s =
    (case runq (thread s th) of
       None \<Rightarrow> (None, s)
     | Some q \<Rightarrow>
         (let s = upd_rq q (\<lambda>r. r\<lparr>rqs := (\<lambda>i. remove1 th (rqs r i))\<rparr>) s;
              s = upd_rq q (\<lambda>r. r\<lparr>rcount := rcount r - 1\<rparr>) s
          in (Some q, upd_thread th (\<lambda>v. v\<lparr>runq := None\<rparr>) s)))"

definition set_pri :: "ptr \<Rightarrow> int \<Rightarrow> sched \<Rightarrow> sched option kresult" where
  "set_pri th pri s =
    (let (q, s) = rem_runq th s;
         s = upd_thread th (\<lambda>v. v\<lparr>sched_pri := pri\<rparr>) s
     in if q \<noteq> None then thread_setrun th True s else Inr (Some s))"

definition compute_priority :: "ptr \<Rightarrow> sched \<Rightarrow> sched option kresult" where
  "compute_priority th s =
    (if policy (thread s th) \<noteq> POLICY_FIXEDPRI
     then (let pri = do_priority_computation (thread s th) in
           if depress_priority (thread s th) < 0 then set_pri th pri s
           else Inr (Some (upd_thread th (\<lambda>v. v\<lparr>depress_priority := pri\<rparr>) s)))
     else set_pri th (priority (thread s th)) s)"

definition compute_my_priority :: "ptr \<Rightarrow> sched \<Rightarrow> sched" where
  "compute_my_priority th s = upd_thread th (\<lambda>v. v\<lparr>sched_pri := do_priority_computation v\<rparr>) s"

text \<open>The search for a queue that is not empty, from index \<open>i - 1\<close> downwards.\<close>

fun rq_scan :: "nat \<Rightarrow> (nat \<Rightarrow> ptr list) \<Rightarrow> nat option" where
  "rq_scan 0 r = None"
| "rq_scan (Suc i) r = (if r i \<noteq> [] then Some i else rq_scan i r)"

text \<open>Taking the first thread of queue \<open>i\<close>.\<close>

definition rq_take :: "rq_id \<Rightarrow> nat \<Rightarrow> sched \<Rightarrow> ptr \<times> sched" where
  "rq_take q i s =
    (let th = hd (rqs (rq s q) i);
         s = upd_rq q (\<lambda>r. r\<lparr>rqs := (rqs r)(i := tl (rqs r i))\<rparr>) s;
         s = upd_thread th (\<lambda>v. v\<lparr>runq := None\<rparr>) s
     in (th, upd_rq q (\<lambda>r. r\<lparr>rcount := rcount r - 1\<rparr>) s))"

text \<open>
  For fixed priorities the hint is moved on to a queue that is not empty; \<open>None\<close> stands for a search past
  the end of the array.
\<close>

definition rq_lower :: "nat \<Rightarrow> sched \<Rightarrow> nat option" where
  "rq_lower i s =
    (if rcount (rq s Pset_runq) > 0 \<and> policy_fixedpri s then rq_scan (Suc i) (rqs (rq s Pset_runq)) else Some i)"

definition choose_pset_thread :: "sched \<Rightarrow> (ptr \<times> sched) option kresult" where
  "choose_pset_thread s =
    (if rcount (rq s Pset_runq) > 0
     then (case rq_scan (nat (high (rq s Pset_runq) + 1)) (rqs (rq s Pset_runq)) of
             None \<Rightarrow> Inl ''choose_pset_thread''
           | Some i \<Rightarrow>
              (let (th, s) = rq_take Pset_runq i s in
               case rq_lower i s of None \<Rightarrow> Inr None
               | Some i \<Rightarrow> Inr (Some (th, upd_rq Pset_runq (\<lambda>r. r\<lparr>high := int i\<rparr>) s))))
     else
      (let s = (if pstate s = PROCESSOR_RUNNING then s\<lparr>pstate := PROCESSOR_IDLE, idle_count := idle_count s + 1\<rparr> else s)
       in Inr (Some (idle_thread s, s))))"

definition choose_thread :: "sched \<Rightarrow> (ptr \<times> sched) option kresult" where
  "choose_thread s =
    (if rcount (rq s Proc_runq) > 0
     then (case rq_scan (nat (high (rq s Proc_runq) + 1)) (rqs (rq s Proc_runq)) of
             None \<Rightarrow> Inl ''choose_thread''
           | Some i \<Rightarrow> (let (th, s) = rq_take Proc_runq i s in Inr (Some (th, upd_rq Proc_runq (\<lambda>r. r\<lparr>high := int i\<rparr>) s))))
     else choose_pset_thread s)"

text \<open>\<^verbatim>\<open>_csw_needed\<close> of \<^verbatim>\<open>kern/sched.h\<close>: whether the running thread should give up the processor.\<close>

definition csw_needed :: "ptr \<Rightarrow> sched \<Rightarrow> bool" where
  "csw_needed th s =
    (let v = thread s th; c = rcount (rq s Pset_runq); h = high (rq s Pset_runq) in
     if TH_SUSP \<in> state v \<or> rcount (rq s Proc_runq) > 0 then True
     else if policy v = POLICY_TIMESHARE then \<not> first_quantum s \<and> c > 0 \<and> h \<ge> sched_pri v
     else if c = 0 \<or> h < sched_pri v then False
     else h > sched_pri v \<or> \<not> first_quantum s)"

subsection \<open>Events\<close>

text \<open>\<open>event ^ -1\<close> is the complement.\<close>

definition wait_hash :: "int \<Rightarrow> nat" where
  "wait_hash event = nat ((if event < 0 then - event - 1 else event) mod NUMQUEUES)"

definition wait_queue_init :: "sched \<Rightarrow> sched" where
  "wait_queue_init s = s\<lparr>wait_queue := (\<lambda>i. if i < nat NUMQUEUES then [] else wait_queue s i)\<rparr>"

definition assert_wait :: "int \<Rightarrow> bool \<Rightarrow> sched \<Rightarrow> sched kresult" where
  "assert_wait event intr s =
    (let th = active_thread s in
     if wait_event (thread s th) \<noteq> 0 then Inl ''assert_wait''
     else if event \<noteq> 0
     then
      (let i = wait_hash event;
           s = s\<lparr>wait_queue := (wait_queue s)(i := wait_queue s i @ [th])\<rparr>
       in Inr (upd_thread th (\<lambda>v. v\<lparr>wait_event := event, state := insert TH_WAIT (state v), interruptible := intr\<rparr>) s))
     else Inr (upd_thread th (\<lambda>v. v\<lparr>state := insert TH_WAIT (state v), interruptible := intr\<rparr>) s))"

definition thread_set_timeout :: "sched \<Rightarrow> sched" where
  "thread_set_timeout s =
    (let th = active_thread s in
     if TH_WAIT \<in> state (thread s th)
     then (upd_thread th (\<lambda>v. v\<lparr>timer_set := True\<rparr>) s)\<lparr>timeouts := timeouts s @ [th]\<rparr> else s)"

definition untimeout :: "ptr \<Rightarrow> sched \<Rightarrow> sched" where
  "untimeout th s =
    (if timer_set (thread s th)
     then (upd_thread th (\<lambda>v. v\<lparr>timer_set := False\<rparr>) s)\<lparr>timeouts := remove1 th (timeouts s)\<rparr> else s)"

text \<open>Taking a thread off its wait queue.\<close>

definition unwait :: "ptr \<Rightarrow> sched \<Rightarrow> sched" where
  "unwait th s =
    (let i = wait_hash (wait_event (thread s th));
         s = s\<lparr>wait_queue := (wait_queue s)(i := remove1 th (wait_queue s i))\<rparr>
     in upd_thread th (\<lambda>v. v\<lparr>wait_event := 0\<rparr>) s)"

text \<open>
  \<^verbatim>\<open>thread_swapin\<close> wakes the swapping thread, and waking a thread may ask for its swap-in: \<open>wake\<close> is the
  routine that wakes the threads waiting for an event.
\<close>

definition thread_swapin_with :: "(int \<Rightarrow> sched \<Rightarrow> sched option kresult) \<Rightarrow> ptr \<Rightarrow> bool \<Rightarrow> sched \<Rightarrow> sched option kresult" where
  "thread_swapin_with wake th make_unsw s =
     rbind
       (case swap_state (thread s th) of
          TH_SW_OUT \<Rightarrow>
           (let s = upd_thread th (\<lambda>v. v\<lparr>swap_state := TH_SW_COMING_IN, sw_make_unswappable := False\<rparr>) s
            in wake (swapping_thread s) (s\<lparr>swapin_queue := swapin_queue s @ [th]\<rparr>))
        | TH_SW_GOING_OUT \<Rightarrow> Inr (Some (upd_thread th (\<lambda>v. v\<lparr>swap_state := TH_SW_WANT_IN, sw_make_unswappable := False\<rparr>) s))
        | TH_SW_WANT_IN \<Rightarrow> Inr (Some s)
        | TH_SW_COMING_IN \<Rightarrow> Inr (Some s)
        | _ \<Rightarrow> Inl ''thread_swapin'')
       (\<lambda>s. Inr (Some (if make_unsw then upd_thread th (\<lambda>v. v\<lparr>sw_make_unswappable := True\<rparr>) s else s)))"

text \<open>
  The switch on the state of an awakened thread, shared by \<^verbatim>\<open>clear_wait\<close> and \<^verbatim>\<open>thread_wakeup_prim\<close>; the
  boolean says that the thread was swapped out.
\<close>

definition wake_state :: "(int \<Rightarrow> sched \<Rightarrow> sched option kresult) \<Rightarrow> ptr \<Rightarrow> int \<Rightarrow> sched \<Rightarrow> (bool \<times> sched) option kresult" where
  "wake_state wake th result s =
    (let st = state (thread s th) in
     if st = {TH_WAIT, TH_SUSP} \<and> interruptible (thread s th)
     then Inr (Some (False, upd_thread th (\<lambda>v. v\<lparr>state := {TH_SUSP}, wait_result := result\<rparr>) s))
     else if st = {TH_WAIT, TH_SUSP} \<or> st = {TH_WAIT}
     then rbind (thread_setrun th True (upd_thread th (\<lambda>v. v\<lparr>state := insert TH_RUN (st - {TH_WAIT}), wait_result := result\<rparr>) s))
            (\<lambda>s. Inr (Some (False, s)))
     else if st = {TH_WAIT, TH_SWAPPED}
     then rbind (thread_swapin_with wake th False (upd_thread th (\<lambda>v. v\<lparr>state := {TH_RUN, TH_SWAPPED}, wait_result := result\<rparr>) s))
            (\<lambda>s. Inr (Some (True, s)))
     else Inr (Some (False,
            if TH_WAIT \<in> st then upd_thread th (\<lambda>v. v\<lparr>state := st - {TH_WAIT}, wait_result := result, interruptible := True\<rparr>) s else s)))"

text \<open>The loop of \<^verbatim>\<open>thread_wakeup_prim\<close> over the rest of the wait queue; it starts again after a swap-in.\<close>

fun wakeup_walk :: "nat \<Rightarrow> int \<Rightarrow> bool \<Rightarrow> int \<Rightarrow> ptr list \<Rightarrow> sched \<Rightarrow> sched option kresult" where
  "wakeup_walk 0 event one_thread result ths s = Inr None"
| "wakeup_walk (Suc n) event one_thread result ths s =
    (case ths of
       [] \<Rightarrow> Inr (Some s)
     | th # rest \<Rightarrow>
         if wait_event (thread s th) = event
         then
          (let s = untimeout th (unwait th s) in
           if TH_WAIT \<notin> state (thread s th) then Inl ''thread_wakeup''
           else rbind (wake_state (\<lambda>ev s. wakeup_walk n ev False THREAD_AWAKENED (wait_queue s (wait_hash ev)) s) th result s)
             (\<lambda>(swapped, s).
                if one_thread then Inr (Some s)
                else wakeup_walk n event one_thread result (if swapped then wait_queue s (wait_hash event) else rest) s))
         else wakeup_walk n event one_thread result rest s)"

text \<open>
  Every awakened thread leaves the queues, so that neither the nesting nor the restarts exceed the number
  of waiting threads.
\<close>

definition waiters :: "sched \<Rightarrow> nat" where
  "waiters s = (\<Sum>i<nat NUMQUEUES. length (wait_queue s i))"

definition wakeup_fuel :: "sched \<Rightarrow> nat" where
  "wakeup_fuel s = (waiters s + 1) * (waiters s + 2)"

definition thread_wakeup_prim :: "int \<Rightarrow> bool \<Rightarrow> int \<Rightarrow> sched \<Rightarrow> sched option kresult" where
  "thread_wakeup_prim event one_thread result s =
     wakeup_walk (wakeup_fuel s) event one_thread result (wait_queue s (wait_hash event)) s"

definition thread_wakeup :: "int \<Rightarrow> sched \<Rightarrow> sched option kresult" where
  "thread_wakeup event s = thread_wakeup_prim event False THREAD_AWAKENED s"

definition thread_swapin :: "ptr \<Rightarrow> bool \<Rightarrow> sched \<Rightarrow> sched option kresult" where
  "thread_swapin = thread_swapin_with thread_wakeup"

definition clear_wait :: "ptr \<Rightarrow> int \<Rightarrow> bool \<Rightarrow> sched \<Rightarrow> sched option kresult" where
  "clear_wait th result interrupt_only s =
    (if interrupt_only \<and> \<not> interruptible (thread s th) then Inr (Some s)
     else
      (let s = (if wait_event (thread s th) \<noteq> 0 then unwait th s else s);
           s = untimeout th s
       in rbind (wake_state thread_wakeup th result s) (\<lambda>(_, s). Inr (Some s))))"

definition thread_timeout :: "ptr \<Rightarrow> sched \<Rightarrow> sched option kresult" where
  "thread_timeout th s =
     clear_wait th THREAD_TIMED_OUT False ((upd_thread th (\<lambda>v. v\<lparr>timer_set := False\<rparr>) s)\<lparr>timeouts := remove1 th (timeouts s)\<rparr>)"

subsection \<open>Context switches\<close>

definition thread_continue :: "ptr \<Rightarrow> sched \<Rightarrow> sched option kresult" where
  "thread_continue th s =
    (let st = state (thread s th);
         stop = (\<lambda>st s.
           let s = upd_thread th (\<lambda>v. v\<lparr>state := st\<rparr>) s in
           if wake_active (thread s th)
           then thread_wakeup (wake_active_ev s th) (upd_thread th (\<lambda>v. v\<lparr>wake_active := False\<rparr>) s)
           else Inr (Some s))
     in
     if st = {TH_RUN, TH_SUSP} \<and> interruptible (thread s th) then stop {TH_SUSP} s
     else if st = {TH_RUN, TH_SUSP} \<or> st = {TH_RUN} then thread_setrun th False s
     else if st = {TH_RUN, TH_WAIT, TH_SUSP} \<and> interruptible (thread s th) then stop {TH_WAIT, TH_SUSP} s
     else if st = {TH_RUN, TH_WAIT, TH_SUSP} \<or> st = {TH_RUN, TH_WAIT}
     then Inr (Some (upd_thread th (\<lambda>v. v\<lparr>state := st - {TH_RUN}\<rparr>) s))
     else if st \<noteq> {TH_RUN, TH_IDLE} then Inl ''thread_continue''
     else Inr (Some s))"

text \<open>
  \<^verbatim>\<open>switch_task_context\<close> and \<^verbatim>\<open>switch_thread_context\<close>: the old thread goes where it belongs, then the new
  one runs.
\<close>

definition switch_context :: "ptr \<Rightarrow> ptr \<Rightarrow> sched \<Rightarrow> sched option kresult" where
  "switch_context th new_thread s =
     rbind (thread_continue th s) (\<lambda>s. Inr (Some (s\<lparr>active_thread := new_thread\<rparr>)))"

definition thread_run :: "ptr \<Rightarrow> sched \<Rightarrow> sched option kresult" where
  "thread_run new_thread s =
     switch_context (active_thread s) new_thread (upd_thread new_thread (\<lambda>v. v\<lparr>interruptible := True\<rparr>) s)"

text \<open>The choice of the next thread in \<^verbatim>\<open>thread_block\<close>; \<open>None\<close> when the current one goes on.\<close>

definition block_choice :: "ptr \<Rightarrow> sched \<Rightarrow> (ptr option \<times> sched) option kresult" where
  "block_choice th s =
    (if rcount (rq s Proc_runq) > 0
     then rbind (choose_thread s) (\<lambda>(new, s). Inr (Some (Some new, s\<lparr>quantum := min_quantum s\<rparr>)))
     else rbind
      (if rcount (rq s Pset_runq) = 0
       then if state (thread s th) = {TH_RUN} then Inr (Some (None, s))
            else rbind (choose_pset_thread s) (\<lambda>(new, s). Inr (Some (Some new, s)))
       else
        (let i = nat (high (rq s Pset_runq)) in
         if rqs (rq s Pset_runq) i = []
         then rbind (choose_pset_thread (upd_rq Pset_runq (\<lambda>r. r\<lparr>high := high r - 1\<rparr>) s)) (\<lambda>(new, s). Inr (Some (Some new, s)))
         else
          (let (new, s) = rq_take Pset_runq i s in
           case rq_lower i s of None \<Rightarrow> Inr None
           | Some i \<Rightarrow> Inr (Some (Some new, upd_rq Pset_runq (\<lambda>r. r\<lparr>high := int i\<rparr>) s)))))
      (\<lambda>(new, s). case new of None \<Rightarrow> Inr (Some (None, s))
         | Some n \<Rightarrow> Inr (Some (Some n,
             s\<lparr>quantum := if policy (thread s n) \<noteq> POLICY_FIXEDPRI then set_quantum s else sched_data (thread s n)\<rparr>))))"

definition thread_block :: "sched \<Rightarrow> sched option kresult" where
  "thread_block s =
    (let th = active_thread s; s = s\<lparr>first_quantum := True\<rparr> in
     rbind (block_choice th s) (\<lambda>(new, s).
       case new of
         None \<Rightarrow>
          (let s = s\<lparr>same_thread_count := same_thread_count s + 1\<rparr> in
           if sched_stamp (thread s th) \<noteq> sched_tick s then update_priority th s else Inr (Some s))
       | Some new_thread \<Rightarrow>
           switch_context th new_thread (upd_thread new_thread (\<lambda>v. v\<lparr>interruptible := True\<rparr>) s)))"

definition thread_sleep :: "int \<Rightarrow> bool \<Rightarrow> sched \<Rightarrow> sched option kresult" where
  "thread_sleep event intr s = kbind (assert_wait event intr s) thread_block"

text \<open>One turn of the loop of \<^verbatim>\<open>idle_thread\<close>, when there is something to do.\<close>

definition idle_turn :: "sched \<Rightarrow> sched option kresult" where
  "idle_turn s =
    (if pstate s = PROCESSOR_DISPATCHING
     then
      (let new_thread = next_thread s;
           s = s\<lparr>next_thread := 0, pstate := PROCESSOR_RUNNING,
                 quantum := if policy (thread s new_thread) \<noteq> POLICY_FIXEDPRI then set_quantum s else sched_data (thread s new_thread),
                 first_quantum := True\<rparr>
       in thread_run new_thread s)
     else if pstate s = PROCESSOR_IDLE
     then thread_block (s\<lparr>idle_count := idle_count s - 1, pstate := PROCESSOR_RUNNING\<rparr>)
     else if pstate s = PROCESSOR_ASSIGN \<or> pstate s = PROCESSOR_SHUTDOWN
     then rbind (if next_thread s \<noteq> 0 then thread_setrun (next_thread s) False (s\<lparr>next_thread := 0\<rparr>) else Inr (Some s)) thread_block
     else Inl ''idle_thread'')"

subsection \<open>Suspension and swapping\<close>

definition thread_bind :: "ptr \<Rightarrow> bool \<Rightarrow> sched \<Rightarrow> sched" where
  "thread_bind th b s = upd_thread th (\<lambda>v. v\<lparr>bound := b\<rparr>) s"

definition thread_hold :: "ptr \<Rightarrow> sched \<Rightarrow> sched" where
  "thread_hold th s = upd_thread th (\<lambda>v. v\<lparr>suspend_count := suspend_count v + 1, state := insert TH_SUSP (state v)\<rparr>) s"

definition thread_release :: "ptr \<Rightarrow> sched \<Rightarrow> sched option kresult" where
  "thread_release th s =
    (let s = upd_thread th (\<lambda>v. v\<lparr>suspend_count := suspend_count v - 1\<rparr>) s in
     if suspend_count (thread s th) = 0
     then
      (let s = upd_thread th (\<lambda>v. v\<lparr>halted := False, state := state v - {TH_SUSP}\<rparr>) s;
           st = state (thread s th) \<inter> {TH_WAIT, TH_RUN, TH_SWAPPED}
       in if st = {TH_SWAPPED} then thread_swapin th False (upd_thread th (\<lambda>v. v\<lparr>state := insert TH_RUN (state v)\<rparr>) s)
          else if st = {} then thread_setrun th True (upd_thread th (\<lambda>v. v\<lparr>state := insert TH_RUN (state v)\<rparr>) s)
          else Inr (Some s))
     else Inr (Some s))"

text \<open>
  \<^verbatim>\<open>thread_dowait\<close> up to its first sleep: \<open>True\<close> when the thread is stopped, \<open>False\<close> when the caller went
  to sleep until it is, to look again afterwards.
\<close>

definition thread_dowait :: "ptr \<Rightarrow> sched \<Rightarrow> (bool \<times> sched) option kresult" where
  "thread_dowait th s =
    (if th = active_thread s then rbind (thread_block s) (\<lambda>s. Inr (Some (True, s)))
     else
      (let st = state (thread s th);
           await = (\<lambda>s.
             if \<not> (TH_SUSP \<in> state (thread s th) \<and> TH_RUN \<notin> state (thread s th)) \<or> \<not> interruptible (thread s th)
             then rbind (thread_sleep (wake_active_ev s th) True (upd_thread th (\<lambda>v. v\<lparr>wake_active := True\<rparr>) s))
                    (\<lambda>s. Inr (Some (False, s)))
             else Inr (Some (True, s)))
       in
       if st = {TH_SUSP} \<or> st = {TH_SUSP, TH_SWAPPED} \<or> st = {TH_SUSP, TH_WAIT, TH_SWAPPED} then Inr (Some (True, s))
       else if st = {TH_RUN, TH_SUSP} \<and> interruptible (thread s th) \<and> fst (rem_runq th s) \<noteq> None
       then
        (let s = snd (rem_runq th s);
             s = upd_thread th (\<lambda>v. v\<lparr>state := {TH_SUSP}\<rparr>) s
         in if wake_active (thread s th)
            then rbind (thread_wakeup (wake_active_ev s th) (upd_thread th (\<lambda>v. v\<lparr>wake_active := False\<rparr>) s)) (\<lambda>s. Inr (Some (True, s)))
            else Inr (Some (True, s)))
       else if st = {TH_RUN, TH_SUSP} \<or> st = {TH_RUN, TH_SUSP, TH_SWAPPED} \<or> st = {TH_RUN, TH_WAIT, TH_SUSP} \<or> st = {TH_WAIT, TH_SUSP}
       then await s
       else Inr (Some (True, s))))"

definition thread_suspend :: "ptr \<Rightarrow> sched \<Rightarrow> (kern_return \<times> sched) option kresult" where
  "thread_suspend th s =
    (if th = 0 then Inr (Some (KERN_INVALID_ARGUMENT, s))
     else
      (let hold = (user_stop_count (thread s th) = 0);
           s = upd_thread th (\<lambda>v. v\<lparr>user_stop_count := user_stop_count v + 1\<rparr>) s
       in if hold then rbind (thread_dowait th (thread_hold th s)) (\<lambda>(_, s). Inr (Some (KERN_SUCCESS, s)))
          else Inr (Some (KERN_SUCCESS, s))))"

definition thread_resume :: "ptr \<Rightarrow> sched \<Rightarrow> (kern_return \<times> sched) option kresult" where
  "thread_resume th s =
    (if th = 0 then Inr (Some (KERN_INVALID_ARGUMENT, s))
     else if user_stop_count (thread s th) > 0
     then
      (let s = upd_thread th (\<lambda>v. v\<lparr>user_stop_count := user_stop_count v - 1\<rparr>) s in
       if user_stop_count (thread s th) = 0 then rbind (thread_release th s) (\<lambda>s. Inr (Some (KERN_SUCCESS, s)))
       else Inr (Some (KERN_SUCCESS, s)))
     else Inr (Some (KERN_FAILURE, s)))"

text \<open>\<^verbatim>\<open>thread_doswapin\<close> after the kernel stack is back, and \<^verbatim>\<open>thread_swapout\<close> after it is gone.\<close>

definition thread_doswapin :: "ptr \<Rightarrow> sched \<Rightarrow> sched option kresult" where
  "thread_doswapin th s =
     rbind (if sw_make_unswappable (thread s th)
            then thread_wakeup (swap_state_ev s th) (upd_thread th (\<lambda>v. v\<lparr>swap_state := TH_SW_UNSWAPPABLE, sw_make_unswappable := False\<rparr>) s)
            else Inr (Some (upd_thread th (\<lambda>v. v\<lparr>swap_state := TH_SW_IN\<rparr>) s))) (\<lambda>s.
       let s = upd_thread th (\<lambda>v. v\<lparr>state := state v - {TH_SWAPPED}\<rparr>) s in
       if TH_RUN \<in> state (thread s th) then thread_setrun th True s else Inr (Some s))"

definition thread_swapout :: "ptr \<Rightarrow> sched \<Rightarrow> sched option kresult" where
  "thread_swapout th s =
    (case swap_state (thread s th) of
       TH_SW_GOING_OUT \<Rightarrow> Inr (Some (upd_thread th (\<lambda>v. v\<lparr>swap_state := TH_SW_OUT, sw_make_unswappable := False\<rparr>) s))
     | TH_SW_WANT_IN \<Rightarrow>
        (let make_unsw = sw_make_unswappable (thread s th)
         in thread_swapin th make_unsw (upd_thread th (\<lambda>v. v\<lparr>swap_state := TH_SW_OUT, sw_make_unswappable := False\<rparr>) s))
     | _ \<Rightarrow> Inl ''thread_swapout'')"

text \<open>The decision of \<^verbatim>\<open>swapout_scan\<close> for one thread; \<^verbatim>\<open>thread_swapout\<close> follows.\<close>

definition swapout_mark :: "ptr \<Rightarrow> sched \<Rightarrow> sched" where
  "swapout_mark th s =
    (if state (thread s th) \<inter> {TH_RUN, TH_SWAPPED} = {} \<and> swap_state (thread s th) = TH_SW_IN \<and> interruptible (thread s th) \<and>
        sched_tick s - sched_stamp (thread s th) > 10
     then upd_thread th (\<lambda>v. v\<lparr>state := insert TH_SWAPPED (state v), swap_state := TH_SW_GOING_OUT\<rparr>) s
     else s)"

text \<open>
  \<^verbatim>\<open>swapout_scan\<close> over the threads of the processor set, and \<^verbatim>\<open>thread_swappable\<close> up to its first sleep (\<open>False\<close> when the
  caller went to sleep, to look again afterwards).
\<close>

fun swapout_scan :: "ptr list \<Rightarrow> sched \<Rightarrow> sched option kresult" where
  "swapout_scan [] s = Inr (Some s)"
| "swapout_scan (th # ths) s =
    (if state (thread s th) \<inter> {TH_RUN, TH_SWAPPED} = {} \<and> swap_state (thread s th) = TH_SW_IN \<and> interruptible (thread s th) \<and>
        sched_tick s - sched_stamp (thread s th) > 10
     then rbind (thread_swapout th (swapout_mark th s)) (swapout_scan ths)
     else swapout_scan ths s)"

definition thread_swappable :: "ptr \<Rightarrow> bool \<Rightarrow> sched \<Rightarrow> (bool \<times> sched) option kresult" where
  "thread_swappable th is_swappable s =
    (if is_swappable
     then Inr (Some (True, if swap_state (thread s th) = TH_SW_UNSWAPPABLE \<and> \<not> sw_make_unswappable (thread s th)
                           then upd_thread th (\<lambda>v. v\<lparr>swap_state := TH_SW_IN\<rparr>) s else s))
     else if swap_state (thread s th) = TH_SW_UNSWAPPABLE \<and> \<not> sw_make_unswappable (thread s th) then Inr (Some (True, s))
     else if swap_state (thread s th) = TH_SW_IN \<and> \<not> sw_make_unswappable (thread s th)
     then Inr (Some (True, upd_thread th (\<lambda>v. v\<lparr>swap_state := TH_SW_UNSWAPPABLE\<rparr>) s))
     else rbind (thread_swapin th True s) (\<lambda>s. rbind (thread_sleep (swap_state_ev s th) False s) (\<lambda>s. Inr (Some (False, s)))))"

subsection \<open>The scheduler thread\<close>

text \<open>
  The clock: \<open>lbolt\<close> is the event of the threads that sleep on it, \<open>sched_thread_id\<close> the scheduler thread.  The \<^verbatim>\<open>timeout\<close> that calls
  the routine again and the correction of the clock are left out.
\<close>

definition recompute_priorities :: "int \<Rightarrow> ptr \<Rightarrow> sched \<Rightarrow> sched option kresult" where
  "recompute_priorities lbolt sched_thread_id s =
     rbind (thread_wakeup lbolt (s\<lparr>sched_tick := sched_tick s + 1\<rparr>)) (\<lambda>s.
       if sched_thread_id \<noteq> 0 then clear_wait sched_thread_id THREAD_AWAKENED False s else Inr (Some s))"

definition MAX_STUCK_THREADS :: nat where
  "MAX_STUCK_THREADS = 16"

definition stuck :: "sched \<Rightarrow> ptr \<Rightarrow> bool" where
  "stuck s th \<longleftrightarrow> state (thread s th) = {TH_RUN} \<and> sched_tick s - sched_stamp (thread s th) > 1"

text \<open>
  Pass one, over one queue and over the queues from the hint downwards: \<open>st\<close> is the array of stuck threads, \<open>c\<close>
  the number of threads still to come; the boolean says that the array was full, \<open>None\<close> that the search left the
  array of queues.
\<close>

fun scan_queue :: "sched \<Rightarrow> ptr list \<Rightarrow> ptr list \<Rightarrow> int \<Rightarrow> bool \<times> ptr list \<times> int" where
  "scan_queue s [] st c = (False, st, c)"
| "scan_queue s (th # ths) st c =
    (if stuck s th
     then if length st = MAX_STUCK_THREADS then (True, st, c) else scan_queue s ths (st @ [th]) (c - 1)
     else scan_queue s ths st (c - 1))"

fun scan_queues :: "sched \<Rightarrow> (nat \<Rightarrow> ptr list) \<Rightarrow> nat \<Rightarrow> ptr list \<Rightarrow> int \<Rightarrow> (bool \<times> ptr list) option" where
  "scan_queues s r 0 st c = (if c > 0 then None else Some (False, st))"
| "scan_queues s r (Suc i) st c =
    (if c > 0
     then (let (full, st, c) = scan_queue s (r i) st c in if full then Some (True, st) else scan_queues s r i st c)
     else Some (False, st))"

definition do_runq_scan :: "rq_id \<Rightarrow> ptr list \<Rightarrow> sched \<Rightarrow> (bool \<times> ptr list) option" where
  "do_runq_scan q st s =
    (if rcount (rq s q) > 0 then scan_queues s (rqs (rq s q)) (nat (high (rq s q)) + 1) st (rcount (rq s q)) else Some (False, st))"

text \<open>Pass two, from the end of the array.\<close>

fun fix_stuck :: "ptr list \<Rightarrow> sched \<Rightarrow> sched option kresult" where
  "fix_stuck [] s = Inr (Some s)"
| "fix_stuck (th # ths) s =
     rbind (if stuck s th
            then rbind (update_priority th s) (\<lambda>s.
                   if policy (thread s th) \<noteq> POLICY_FIXEDPRI then set_pri th (sched_pri (thread s th)) s else Inr (Some s))
            else Inr (Some s)) (fix_stuck ths)"

fun thread_scan_loop :: "nat \<Rightarrow> sched \<Rightarrow> sched option kresult" where
  "thread_scan_loop 0 s = Inr None"
| "thread_scan_loop (Suc n) s =
    (case do_runq_scan Pset_runq [] s of None \<Rightarrow> Inr None
     | Some (full, st) \<Rightarrow>
        (case (if \<not> full then do_runq_scan Proc_runq st s else Some (full, st)) of None \<Rightarrow> Inr None
         | Some (full, st) \<Rightarrow> rbind (fix_stuck (rev st) s) (\<lambda>s. if full then thread_scan_loop n s else Inr (Some s))))"

definition do_thread_scan :: "sched \<Rightarrow> sched option kresult" where
  "do_thread_scan s = thread_scan_loop (nat (rcount (rq s Pset_runq) + rcount (rq s Proc_runq)) + 1) s"

end
