(* ===== verification/SchedInv.thy ===== *)
theory SchedInv
  imports Sched
begin

text \<open>
  The invariant of the scheduler: a thread that waits for an event is in the wait queue of the event,
  a thread on a run queue is in the queue of its priority, the counts and hints of the run queues are
  right, and every thread that can run is running, on exactly one run queue, or about to be dispatched.
\<close>

subsection \<open>The invariant\<close>

definition timers_ok :: "thread \<Rightarrow> bool" where
  "timers_ok v \<longleftrightarrow> high_bits (system_timer v) = high_bits_check (system_timer v) \<and>
     high_bits (user_timer v) = high_bits_check (user_timer v)"

definition runnable :: "thread \<Rightarrow> bool" where
  "runnable v \<longleftrightarrow> state v = {TH_RUN} \<or> state v = {TH_RUN, TH_SUSP}"

text \<open>A swapped thread that could run has asked to come in.\<close>

definition sw_ok :: "th_flag set \<Rightarrow> swap_st \<Rightarrow> bool" where
  "sw_ok st sw \<longleftrightarrow>
     (if TH_SWAPPED \<in> st
      then (TH_RUN \<in> st \<longrightarrow> TH_WAIT \<notin> st) \<and> (sw \<in> {TH_SW_WANT_IN, TH_SW_COMING_IN} \<or> TH_RUN \<notin> st \<and> sw \<in> {TH_SW_GOING_OUT, TH_SW_OUT})
      else sw \<in> {TH_SW_UNSWAPPABLE, TH_SW_IN})"

definition st_ok :: "thread \<Rightarrow> bool" where
  "st_ok v \<longleftrightarrow> (wait_event v \<noteq> 0 \<longrightarrow> TH_WAIT \<in> state v) \<and> (runq v \<noteq> None \<longrightarrow> runnable v) \<and>
     sw_ok (state v) (swap_state v) \<and> timers_ok v"

definition wq_ok :: "sched \<Rightarrow> bool" where
  "wq_ok s \<longleftrightarrow> (\<forall>i. distinct (wait_queue s i)) \<and>
     (\<forall>i t. t \<in> set (wait_queue s i) \<longleftrightarrow> wait_event (thread s t) \<noteq> 0 \<and> i = wait_hash (wait_event (thread s t)))"

definition hint_ok :: "run_queue \<Rightarrow> bool" where
  "hint_ok r \<longleftrightarrow> rcount r = (\<Sum>i<NRQS. int (length (rqs r i))) \<and> 0 \<le> high r \<and> high r < int NRQS \<and>
     (\<forall>i. high r < int i \<longrightarrow> rqs r i = [])"

definition rq_ok :: "sched \<Rightarrow> bool" where
  "rq_ok s \<longleftrightarrow> (\<forall>q. hint_ok (rq s q)) \<and> (\<forall>q i. distinct (rqs (rq s q) i)) \<and>
     (\<forall>q i t. t \<in> set (rqs (rq s q) i) \<longleftrightarrow> runq (thread s t) = Some q \<and> i = whichq (thread s t))"

text \<open>
  \<open>proc_ok a s\<close>: the processor, with \<open>a\<close> the thread that runs.  An idle or dispatching processor runs the idle
  thread; one that is dispatching has a thread to run next.
\<close>

definition idle_ok :: "sched \<Rightarrow> bool" where
  "idle_ok s \<longleftrightarrow> idle_thread s \<noteq> 0 \<and> state (thread s (idle_thread s)) = {TH_RUN, TH_IDLE} \<and> state (thread s 0) = {} \<and>
     (\<forall>t. TH_IDLE \<in> state (thread s t) \<longrightarrow> t = idle_thread s)"

definition cpu_ok :: "ptr \<Rightarrow> sched \<Rightarrow> bool" where
  "cpu_ok a s \<longleftrightarrow> pstate s \<in> {PROCESSOR_RUNNING, PROCESSOR_IDLE, PROCESSOR_DISPATCHING} \<and>
     idle_count s = (if pstate s = PROCESSOR_IDLE then 1 else 0) \<and> (pstate s \<noteq> PROCESSOR_RUNNING \<longrightarrow> a = idle_thread s) \<and>
     (pstate s = PROCESSOR_DISPATCHING \<longleftrightarrow> next_thread s \<noteq> 0)"

definition run_ok :: "thread \<Rightarrow> bool" where
  "run_ok v \<longleftrightarrow> TH_RUN \<in> state v \<and> TH_SWAPPED \<notin> state v \<and> runq v = None"

definition next_ok :: "sched \<Rightarrow> bool" where
  "next_ok s \<longleftrightarrow> (next_thread s \<noteq> 0 \<longrightarrow> runnable (thread s (next_thread s)) \<and> runq (thread s (next_thread s)) = None)"

definition proc_ok :: "ptr \<Rightarrow> sched \<Rightarrow> bool" where
  "proc_ok a s \<longleftrightarrow> idle_ok s \<and> cpu_ok a s \<and> run_ok (thread s a) \<and> next_ok s"

text \<open>No runnable thread is lost.\<close>

definition placed :: "ptr \<Rightarrow> sched \<Rightarrow> ptr \<Rightarrow> bool" where
  "placed a s t \<longleftrightarrow> (TH_RUN \<in> state (thread s t) \<and> TH_SWAPPED \<notin> state (thread s t) \<and> t \<noteq> idle_thread s \<longrightarrow>
     t = a \<or> runq (thread s t) \<noteq> None \<or> t = next_thread s)"

definition inv_at :: "ptr \<Rightarrow> ptr set \<Rightarrow> sched \<Rightarrow> bool" where
  "inv_at a E s \<longleftrightarrow> wq_ok s \<and> rq_ok s \<and> (\<forall>t. st_ok (thread s t)) \<and> proc_ok a s \<and> (\<forall>t. t \<notin> E \<longrightarrow> placed a s t)"

definition sched_inv :: "sched \<Rightarrow> bool" where
  "sched_inv s \<longleftrightarrow> inv_at (active_thread s) {} s"

lemma runnable_flags: "runnable v \<Longrightarrow> TH_RUN \<in> state v \<and> TH_WAIT \<notin> state v \<and> TH_SWAPPED \<notin> state v \<and> TH_IDLE \<notin> state v"
  by (auto simp: runnable_def)

lemma upd_thread_simps [simp]:
  "thread (upd_thread t f s) = (thread s)(t := f (thread s t))"
  "wait_queue (upd_thread t f s) = wait_queue s" "rq (upd_thread t f s) = rq s"
  "active_thread (upd_thread t f s) = active_thread s" "idle_thread (upd_thread t f s) = idle_thread s"
  "next_thread (upd_thread t f s) = next_thread s" "pstate (upd_thread t f s) = pstate s"
  "idle_count (upd_thread t f s) = idle_count s" "sched_tick (upd_thread t f s) = sched_tick s"
  "timer_unit (upd_thread t f s) = timer_unit s" "sched_load (upd_thread t f s) = sched_load s"
  by (simp_all add: upd_thread_def)

lemma upd_rq_simps [simp]:
  "thread (upd_rq q f s) = thread s" "wait_queue (upd_rq q f s) = wait_queue s"
  "rq (upd_rq q f s) = (rq s)(q := f (rq s q))"
  "active_thread (upd_rq q f s) = active_thread s" "idle_thread (upd_rq q f s) = idle_thread s"
  "next_thread (upd_rq q f s) = next_thread s" "pstate (upd_rq q f s) = pstate s"
  "idle_count (upd_rq q f s) = idle_count s" "policy_fixedpri (upd_rq q f s) = policy_fixedpri s"
  by (simp_all add: upd_rq_def)

text \<open>States that agree in everything the invariant speaks about.\<close>

definition same_sched :: "sched \<Rightarrow> sched \<Rightarrow> bool" where
  "same_sched s t \<longleftrightarrow> thread t = thread s \<and> wait_queue t = wait_queue s \<and> rq t = rq s \<and> idle_thread t = idle_thread s \<and>
     next_thread t = next_thread s \<and> pstate t = pstate s \<and> idle_count t = idle_count s"

lemma inv_at_same: "same_sched s t \<Longrightarrow> inv_at a E t = inv_at a E s"
  by (simp add: same_sched_def inv_at_def wq_ok_def rq_ok_def proc_ok_def idle_ok_def cpu_ok_def next_ok_def placed_def)

subsection \<open>Changes of one thread\<close>

lemma whichq_lt: "whichq v < NRQS"
  by (auto simp: whichq_def NRQS_def)

text \<open>A change of a thread that leaves its event and its queue alone.\<close>

lemma inv_upd:
  assumes "inv_at a E s" and "wait_event v = wait_event (thread s t)" and "runq v = runq (thread s t)"
    and "runq v \<noteq> None \<Longrightarrow> whichq v = whichq (thread s t)" and "st_ok v"
    and "t = a \<Longrightarrow> TH_RUN \<in> state v \<and> TH_SWAPPED \<notin> state v" and "t = idle_thread s \<Longrightarrow> state v = state (thread s t)"
    and "t = 0 \<Longrightarrow> state v = {}" and "TH_IDLE \<in> state v \<Longrightarrow> TH_IDLE \<in> state (thread s t)"
    and "t = next_thread s \<Longrightarrow> t \<noteq> 0 \<Longrightarrow> runnable v"
    and "t \<notin> E' \<Longrightarrow> TH_RUN \<in> state v \<Longrightarrow> TH_SWAPPED \<notin> state v \<Longrightarrow> t \<noteq> idle_thread s \<Longrightarrow>
      t = a \<or> runq v \<noteq> None \<or> t = next_thread s"
    and "E - {t} \<subseteq> E'"
  shows "inv_at a E' (upd_thread t (\<lambda>_. v) s)"
proof -
  let ?s = "upd_thread t (\<lambda>_. v) s"
  have wq: "wq_ok s" and rq: "rq_ok s" and st: "\<And>x. st_ok (thread s x)" and pr: "proc_ok a s" and pl: "\<And>x. x \<notin> E \<Longrightarrow> placed a s x"
    using assms(1) by (auto simp: inv_at_def)
  have "wq_ok ?s" using wq assms(2) by (auto simp: wq_ok_def)
  moreover have "rq_ok ?s"
    unfolding rq_ok_def
  proof (intro conjI allI)
    show "hint_ok (rq ?s q)" "distinct (rqs (rq ?s q) i)" for q i using rq by (auto simp: rq_ok_def)
    show "x \<in> set (rqs (rq ?s q) i) \<longleftrightarrow> runq (thread ?s x) = Some q \<and> i = whichq (thread ?s x)" for q i x
      using rq assms(3, 4) by (cases "x = t") (auto simp: rq_ok_def)
  qed
  moreover have "st_ok (thread ?s x)" for x using st assms(5) by simp
  moreover have "proc_ok a ?s"
  proof -
    have "TH_IDLE \<in> state (thread ?s x) \<longrightarrow> x = idle_thread s" for x
      using pr assms(9) by (cases "x = t") (auto simp: proc_ok_def idle_ok_def)
    moreover have "state (thread ?s (idle_thread s)) = state (thread s (idle_thread s))" "state (thread ?s 0) = {}"
      using pr assms(7, 8) by (auto simp: proc_ok_def idle_ok_def)
    ultimately have "idle_ok ?s" using pr by (simp add: proc_ok_def idle_ok_def)
    moreover have "run_ok (thread ?s a)" using pr assms(3, 6) by (cases "t = a") (simp_all add: proc_ok_def run_ok_def)
    moreover have "next_ok ?s" using pr assms(3, 10) by (cases "t = next_thread s") (simp_all add: proc_ok_def next_ok_def)
    moreover have "cpu_ok a ?s = cpu_ok a s" by (simp add: cpu_ok_def)
    ultimately show ?thesis using pr by (simp add: proc_ok_def)
  qed
  moreover have "placed a ?s x" if "x \<notin> E'" for x
  proof (cases "x = t")
    case True
    then show ?thesis using assms(11) that by (simp add: placed_def)
  next
    case False
    then have "placed a s x" using pl assms(12) that by auto
    then show ?thesis using False by (simp add: placed_def)
  qed
  ultimately show ?thesis by (simp add: inv_at_def)
qed

lemma upd_thread_const: "upd_thread t f s = upd_thread t (\<lambda>_. f (thread s t)) s"
  by (simp add: upd_thread_def)

text \<open>A change of fields the invariant does not mention.\<close>

definition same_core :: "thread \<Rightarrow> thread \<Rightarrow> bool" where
  "same_core v w \<longleftrightarrow> wait_event w = wait_event v \<and> runq w = runq v \<and> sched_pri w = sched_pri v \<and> state w = state v \<and>
     swap_state w = swap_state v \<and> system_timer w = system_timer v \<and> user_timer w = user_timer v"

lemma same_core_facts:
  "same_core v w \<Longrightarrow> st_ok w = st_ok v \<and> whichq w = whichq v \<and> runnable w = runnable v"
  by (simp add: same_core_def st_ok_def whichq_def runnable_def timers_ok_def)

text \<open>What the parts of the invariant depend on.\<close>

definition same_places :: "sched \<Rightarrow> sched \<Rightarrow> bool" where
  "same_places s t \<longleftrightarrow> rq t = rq s \<and> idle_thread t = idle_thread s \<and> next_thread t = next_thread s \<and> pstate t = pstate s \<and>
     idle_count t = idle_count s \<and> (\<forall>x. state (thread t x) = state (thread s x) \<and> runq (thread t x) = runq (thread s x) \<and>
       sched_pri (thread t x) = sched_pri (thread s x))"

lemma places_cong:
  assumes "same_places s t"
  shows "rq_ok t = rq_ok s" "proc_ok a t = proc_ok a s" "placed a t x = placed a s x"
proof -
  have e: "state (thread t x) = state (thread s x)" "runq (thread t x) = runq (thread s x)"
    "sched_pri (thread t x) = sched_pri (thread s x)" for x
    using assms by (simp_all add: same_places_def)
  have "rq t = rq s" "idle_thread t = idle_thread s" "next_thread t = next_thread s" "pstate t = pstate s" "idle_count t = idle_count s"
    using assms by (simp_all add: same_places_def)
  then show "rq_ok t = rq_ok s" "proc_ok a t = proc_ok a s" "placed a t x = placed a s x"
    by (simp_all add: rq_ok_def whichq_def proc_ok_def idle_ok_def cpu_ok_def run_ok_def next_ok_def runnable_def placed_def e)
qed

lemma inv_upd_core:
  assumes "inv_at a E s" and "same_core (thread s t) (f (thread s t))"
  shows "inv_at a E (upd_thread t f s)"
proof -
  have pl: "same_places s (upd_thread t f s)" using assms(2) by (simp add: same_places_def same_core_def)
  have "wait_event (thread (upd_thread t f s) x) = wait_event (thread s x)" "st_ok (thread (upd_thread t f s) x) = st_ok (thread s x)" for x
    using assms(2) same_core_facts [OF assms(2)] by (simp_all add: same_core_def)
  then show ?thesis using assms(1) by (simp add: inv_at_def places_cong [OF pl] wq_ok_def del: upd_thread_simps(1))
qed

lemma untimeout_inv: "inv_at a E s \<Longrightarrow> inv_at a E (untimeout t s)"
proof -
  assume "inv_at a E s"
  then have "inv_at a E (upd_thread t (\<lambda>v. v\<lparr>timer_set := False\<rparr>) s)" by (rule inv_upd_core) (simp add: same_core_def)
  then show ?thesis
    using inv_at_same [of "upd_thread t (\<lambda>v. v\<lparr>timer_set := False\<rparr>) s" "(upd_thread t (\<lambda>v. v\<lparr>timer_set := False\<rparr>) s)\<lparr>timeouts := remove1 t (timeouts s)\<rparr>"]
      \<open>inv_at a E s\<close>
    by (simp add: untimeout_def same_sched_def)
qed

lemma untimeout_frame:
  "wait_queue (untimeout t s) = wait_queue s" "rq (untimeout t s) = rq s" "active_thread (untimeout t s) = active_thread s"
  "idle_thread (untimeout t s) = idle_thread s" "next_thread (untimeout t s) = next_thread s"
  "x \<noteq> t \<Longrightarrow> thread (untimeout t s) x = thread s x"
  "thread (untimeout t s) t = (thread s t)\<lparr>timer_set := False\<rparr>"
  by (simp_all add: untimeout_def)

lemma unwait_frame:
  "rq (unwait t s) = rq s" "active_thread (unwait t s) = active_thread s"
  "idle_thread (unwait t s) = idle_thread s" "next_thread (unwait t s) = next_thread s"
  "thread (unwait t s) = (thread s)(t := (thread s t)\<lparr>wait_event := 0\<rparr>)"
  "wait_queue (unwait t s) = (wait_queue s)(wait_hash (wait_event (thread s t)) := remove1 t (wait_queue s (wait_hash (wait_event (thread s t)))))"
  by (simp_all add: unwait_def Let_def)

lemma unwait_inv:
  assumes "inv_at a E s" and "wait_event (thread s t) \<noteq> 0"
  shows "inv_at a E (unwait t s)"
proof -
  let ?i = "wait_hash (wait_event (thread s t))"
  have wq: "wq_ok s" and st: "\<And>x. st_ok (thread s x)" using assms(1) by (auto simp: inv_at_def)
  have d: "distinct (wait_queue s ?i)" using wq by (simp add: wq_ok_def)
  have "wq_ok (unwait t s)"
    unfolding wq_ok_def
  proof (intro conjI allI)
    show "distinct (wait_queue (unwait t s) i)" for i using wq by (simp add: unwait_frame wq_ok_def)
    show "x \<in> set (wait_queue (unwait t s) i) \<longleftrightarrow>
        wait_event (thread (unwait t s) x) \<noteq> 0 \<and> i = wait_hash (wait_event (thread (unwait t s) x))" for i x
      using wq d by (auto simp: unwait_frame wq_ok_def)
  qed
  moreover have "same_places s (unwait t s)" by (simp add: same_places_def unwait_def Let_def)
  moreover have "st_ok (thread (unwait t s) x)" for x
    using st [of x] by (cases "x = t") (simp_all add: unwait_frame st_ok_def timers_ok_def runnable_def)
  ultimately show ?thesis using assms(1) by (simp add: inv_at_def places_cong)
qed

subsection \<open>Run queues\<close>

lemma timer_delta_ok: "high_bits t = high_bits_check t \<Longrightarrow> \<exists>d sv. TIMER_DELTA unit t save r = Some (d, sv)"
  by (simp add: TIMER_DELTA_def timer_delta_def timer_grab_def Let_def)

text \<open>\<open>sched_pri\<close> and the usage of a thread can change, nothing else the scheduler uses.\<close>

definition requeued :: "thread \<Rightarrow> thread \<Rightarrow> bool" where
  "requeued v w \<longleftrightarrow> wait_event w = wait_event v \<and> state w = state v \<and> swap_state w = swap_state v \<and>
     system_timer w = system_timer v \<and> user_timer w = user_timer v \<and> interruptible w = interruptible v \<and>
     wait_result w = wait_result v \<and> timer_set w = timer_set v \<and> wake_active w = wake_active v \<and> bound w = bound v \<and>
     suspend_count w = suspend_count v \<and> user_stop_count w = user_stop_count v \<and> sw_make_unswappable w = sw_make_unswappable v"

definition repri :: "thread \<Rightarrow> thread \<Rightarrow> bool" where
  "repri v w \<longleftrightarrow> requeued v w \<and> runq w = runq v"

lemma age_repri: "repri v (age_usage ticks v)"
  by (simp add: age_usage_def repri_def requeued_def Let_def)

lemma delta_repri: "thread_timer_delta unit load v = Some w \<Longrightarrow> repri v w"
  by (auto simp: thread_timer_delta_def repri_def requeued_def split: Option.bind_splits)

lemma repri_trans: "repri u v \<Longrightarrow> repri v w \<Longrightarrow> repri u w"
  by (simp add: repri_def requeued_def)

lemma update_priority_ok:
  assumes "timers_ok (thread s t)" and "sched_stamp (thread s t) \<noteq> sched_tick s"
  shows "\<exists>w. update_priority t s = Inr (Some (upd_thread t (\<lambda>_. w) s)) \<and> repri (thread s t) w \<and> sched_stamp w = sched_tick s \<and>
     policy w = policy (thread s t) \<and> (policy w = POLICY_FIXEDPRI \<longrightarrow> sched_pri w = sched_pri (thread s t))"
proof -
  let ?v = "thread s t" and ?n = "sched_tick s - sched_stamp (thread s t)"
  let ?u = "?v\<lparr>sched_stamp := sched_stamp ?v + ?n\<rparr>"
  obtain d sys where 1: "TIMER_DELTA (timer_unit s) (system_timer ?v) (system_timer_save ?v) 0 = Some (d, sys)"
    using assms(1) timer_delta_ok [of "system_timer ?v" "timer_unit s" "system_timer_save ?v" 0] by (auto simp: timers_ok_def)
  obtain e usr where 2: "TIMER_DELTA (timer_unit s) (user_timer ?v) (user_timer_save ?v) d = Some (e, usr)"
    using assms(1) timer_delta_ok [of "user_timer ?v" "timer_unit s" "user_timer_save ?v" d] by (auto simp: timers_ok_def)
  obtain w where w: "thread_timer_delta (timer_unit s) (sched_load s) ?u = Some w"
    using 1 2 by (simp add: thread_timer_delta_def)
  define x where "x = (age_usage ?n w)\<lparr>cpu_delta := 0, sched_delta := 0\<rparr>"
  define y where "y = (if policy x \<noteq> POLICY_FIXEDPRI \<and> depress_priority x < 0 then x\<lparr>sched_pri := do_priority_computation x\<rparr> else x)"
  have "update_priority t s = Inr (Some (upd_thread t (\<lambda>_. y) s))"
    using assms(2) w by (simp add: update_priority_def Let_def x_def y_def)
  moreover have "repri ?v ?u" by (simp add: repri_def requeued_def)
  moreover have "repri w x" using age_repri [of w ?n] by (simp add: x_def repri_def requeued_def)
  moreover have "repri x y" by (simp add: y_def repri_def requeued_def)
  moreover have "sched_stamp w = sched_tick s" "policy w = policy ?v" "sched_pri w = sched_pri ?v" using w by (auto simp: thread_timer_delta_def split: Option.bind_splits)
  then have "sched_stamp y = sched_tick s" "policy y = policy ?v" "policy y = POLICY_FIXEDPRI \<longrightarrow> sched_pri y = sched_pri ?v"
    by (auto simp: y_def x_def age_usage_def Let_def)
  ultimately show ?thesis using delta_repri [OF w] repri_trans by blast
qed

lemma inv_repri:
  assumes "inv_at a E s" and "runq (thread s t) = None" and "repri (thread s t) w"
  shows "inv_at a E (upd_thread t (\<lambda>_. w) s)"
proof -
  have st: "st_ok (thread s t)" and pr: "proc_ok a s" and pl: "t \<notin> E \<Longrightarrow> placed a s t" using assms(1) by (auto simp: inv_at_def)
  have e: "wait_event w = wait_event (thread s t)" "runq w = None" "state w = state (thread s t)" "st_ok w = st_ok (thread s t)"
      "runnable w = runnable (thread s t)"
    using assms(2, 3) by (simp_all add: repri_def requeued_def st_ok_def timers_ok_def runnable_def)
  show ?thesis
  proof (rule inv_upd [OF assms(1)])
    show "t = a \<Longrightarrow> TH_RUN \<in> state w \<and> TH_SWAPPED \<notin> state w" using pr by (simp add: e proc_ok_def run_ok_def)
    show "t = 0 \<Longrightarrow> state w = {}" using pr by (simp add: e proc_ok_def idle_ok_def)
    show "runnable w" if "t = next_thread s" "t \<noteq> 0" using pr that by (simp add: e proc_ok_def next_ok_def)
    show "t = a \<or> runq w \<noteq> None \<or> t = next_thread s"
      if "t \<notin> E" "TH_RUN \<in> state w" "TH_SWAPPED \<notin> state w" "t \<noteq> idle_thread s"
      using pl that assms(2) by (simp add: e placed_def)
  qed (use st assms(2) in \<open>simp_all add: e\<close>)
qed

lemma sum_upd:
  fixes g :: "'b \<Rightarrow> int"
  assumes "finite A" and "w \<in> A"
  shows "(\<Sum>i\<in>A. g ((f(w := x)) i)) = (\<Sum>i\<in>A. g (f i)) - g (f w) + g x"
  using assms by (simp add: sum.remove)

lemma hint_enqueue:
  assumes "hint_ok r" and "w < NRQS"
  shows "hint_ok ((if (of_nat w :: u32) > word_of_int (high r) \<or> rcount r = 0 then (r\<lparr>rqs := (rqs r)(w := rqs r w @ [t])\<rparr>)\<lparr>high := int w\<rparr>
     else r\<lparr>rqs := (rqs r)(w := rqs r w @ [t])\<rparr>)\<lparr>rcount := rcount r + 1\<rparr>)"
proof -
  have h: "0 \<le> high r" "high r < 32" "rcount r = (\<Sum>i<NRQS. int (length (rqs r i)))" "\<And>i. high r < int i \<Longrightarrow> rqs r i = []"
    using assms(1) by (auto simp: hint_ok_def NRQS_def)
  have w: "unat (of_nat w :: u32) = w" using assms(2) by (simp add: NRQS_def unat_of_nat take_bit_nat_eq_self)
  have n: "unat (word_of_nat (nat (high r)) :: u32) = nat (high r)"
    using h(2) by (simp add: unat_of_nat take_bit_nat_eq_self nat_less_iff)
  have "(word_of_int (high r) :: u32) = of_nat (nat (high r))" using h(1) by simp
  then have "(of_nat w :: u32) > word_of_int (high r) \<longleftrightarrow> int w > high r"
    using h(1) w n by (simp add: word_less_nat_alt nat_less_iff)
  moreover have "(\<Sum>i<NRQS. int (length (((rqs r)(w := rqs r w @ [t])) i))) = rcount r + 1"
    using sum_upd [of "{..<NRQS}" w "\<lambda>x. int (length x)" "rqs r" "rqs r w @ [t]"] assms(2) h(3) by simp
  moreover have "rqs r i = []" if "rcount r = 0" for i
  proof (cases "i < NRQS")
    case True
    have "\<forall>i\<in>{..<NRQS}. int (length (rqs r i)) = 0"
      using that h(3) sum_nonneg_eq_0_iff [of "{..<NRQS}" "\<lambda>i. int (length (rqs r i))"] by simp
    then show ?thesis using True by simp
  next
    case False
    then show ?thesis using h(2) h(4) [of i] by (simp add: NRQS_def)
  qed
  ultimately show ?thesis using h assms(2) by (auto simp: hint_ok_def NRQS_def)
qed


text \<open>The threads of a run queue and its hint do not depend on the order of the updates.\<close>

lemma enqueue_frame:
  "thread (run_queue_enqueue q t s) = (thread s)(t := (thread s t)\<lparr>runq := Some q\<rparr>)"
  "wait_queue (run_queue_enqueue q t s) = wait_queue s" "next_thread (run_queue_enqueue q t s) = next_thread s"
  "active_thread (run_queue_enqueue q t s) = active_thread s" "idle_thread (run_queue_enqueue q t s) = idle_thread s"
  "pstate (run_queue_enqueue q t s) = pstate s" "idle_count (run_queue_enqueue q t s) = idle_count s"
  "x \<noteq> q \<Longrightarrow> rq (run_queue_enqueue q t s) x = rq s x"
  "rqs (rq (run_queue_enqueue q t s) q) =
     (rqs (rq s q))(whichq (thread s t) := rqs (rq s q) (whichq (thread s t)) @ [t])"
  by (simp_all add: run_queue_enqueue_def Let_def)

lemma enqueue_hint: "hint_ok (rq s q) \<Longrightarrow> hint_ok (rq (run_queue_enqueue q t s) q)"
  using hint_enqueue [OF _ whichq_lt, of "rq s q" "thread s t" t]
  by (auto simp: run_queue_enqueue_def Let_def split: if_split_asm)

lemma inv_parts:
  assumes "inv_at a E s"
  shows "wq_ok s" "rq_ok s" "st_ok (thread s x)" "proc_ok a s" "x \<notin> E \<Longrightarrow> placed a s x"
  using assms by (simp_all add: inv_at_def)

lemma inv_mono: "inv_at a E s \<Longrightarrow> E \<subseteq> F \<Longrightarrow> inv_at a F s"
  by (auto simp: inv_at_def)

lemma inv_idle:
  assumes "inv_at a E s" and "t = 0 \<or> t = idle_thread s"
  shows "TH_WAIT \<notin> state (thread s t)" "TH_SUSP \<notin> state (thread s t)" "TH_SWAPPED \<notin> state (thread s t)" "\<not> runnable (thread s t)"
    "wait_event (thread s t) = 0" "runq (thread s t) = None"
proof -
  have 1: "state (thread s t) = {} \<or> state (thread s t) = {TH_RUN, TH_IDLE}"
    using assms inv_parts(4) [OF assms(1)] by (auto simp: proc_ok_def idle_ok_def)
  then show "TH_WAIT \<notin> state (thread s t)" "TH_SUSP \<notin> state (thread s t)" "TH_SWAPPED \<notin> state (thread s t)" by auto
  show nr: "\<not> runnable (thread s t)" using 1 by (auto simp: runnable_def)
  show "wait_event (thread s t) = 0" "runq (thread s t) = None"
    using inv_parts(3) [OF assms(1), of t] nr \<open>TH_WAIT \<notin> state (thread s t)\<close> by (auto simp: st_ok_def)
qed

lemma enqueue_inv:
  assumes inv: "inv_at a E s" and run: "runnable (thread s t)" and out: "runq (thread s t) = None" and "t \<noteq> a" and "t \<noteq> next_thread s"
  shows "inv_at a (E - {t}) (run_queue_enqueue q t s)"
proof -
  let ?s = "run_queue_enqueue q t s"
  note ip = inv_parts [OF inv]
  have rqo: "hint_ok (rq s q')" "distinct (rqs (rq s q') i)"
    "x \<in> set (rqs (rq s q') i) \<longleftrightarrow> runq (thread s x) = Some q' \<and> i = whichq (thread s x)" for q' i x
    using ip(2) by (auto simp: rq_ok_def)
  have notin: "t \<notin> set (rqs (rq s q') i)" for q' i using rqo(3) out by simp
  have wh: "whichq ((thread s t)\<lparr>runq := Some q\<rparr>) = whichq (thread s t)" by (simp add: whichq_def)
  have "wq_ok ?s" using ip(1) by (auto simp: wq_ok_def enqueue_frame)
  moreover have "rq_ok ?s"
    unfolding rq_ok_def
  proof (intro conjI allI)
    show "hint_ok (rq ?s q')" for q' by (cases "q' = q") (simp_all add: enqueue_hint rqo(1) enqueue_frame)
    show "distinct (rqs (rq ?s q') i)" for q' i by (cases "q' = q") (simp_all add: rqo(2) enqueue_frame notin)
    show "x \<in> set (rqs (rq ?s q') i) \<longleftrightarrow> runq (thread ?s x) = Some q' \<and> i = whichq (thread ?s x)" for q' i x
      using notin by (cases "q' = q"; cases "x = t") (auto simp: rqo(3) enqueue_frame wh)
  qed
  moreover have "st_ok (thread ?s x)" for x
    using ip(3) [of x] run by (cases "x = t") (simp_all add: enqueue_frame st_ok_def runnable_def timers_ok_def)
  moreover have "proc_ok a ?s"
  proof -
    have e: "state (thread ?s x) = state (thread s x)" "x \<noteq> t \<Longrightarrow> thread ?s x = thread s x" for x by (simp_all add: enqueue_frame)
    have "idle_ok ?s = idle_ok s" "cpu_ok a ?s = cpu_ok a s"
      by (simp_all add: idle_ok_def cpu_ok_def e(1) enqueue_frame(4-7) enqueue_frame(3))
    moreover have "next_ok ?s = next_ok s" using e(2) [of "next_thread s"] assms(5) by (simp add: next_ok_def enqueue_frame(3))
    moreover have "run_ok (thread ?s a) = run_ok (thread s a)" using e(2) [of a] assms(4) by simp
    ultimately show ?thesis using ip(4) by (simp add: proc_ok_def)
  qed
  moreover have "placed a ?s x" if "x \<notin> E - {t}" for x
    using ip(5) [of x] that by (cases "x = t") (simp_all add: placed_def enqueue_frame)
  ultimately show ?thesis by (simp add: inv_at_def)
qed

lemma dispatch_inv:
  assumes inv: "inv_at a E s" and run: "runnable (thread s t)" and out: "runq (thread s t) = None" and idle: "idle_count s > 0"
  shows "inv_at a (E - {t}) (s\<lparr>idle_count := idle_count s - 1, next_thread := t, pstate := PROCESSOR_DISPATCHING\<rparr>)"
proof -
  let ?s = "s\<lparr>idle_count := idle_count s - 1, next_thread := t, pstate := PROCESSOR_DISPATCHING\<rparr>"
  note ip = inv_parts [OF inv]
  have t0: "t \<noteq> 0" using inv_idle(4) [OF inv, of 0] run by (cases "t = 0") simp_all
  have cpu: "cpu_ok a s" and ido: "idle_ok s" and ro: "run_ok (thread s a)" using ip(4) by (auto simp: proc_ok_def)
  have p: "pstate s = PROCESSOR_IDLE" "idle_count s = 1" "next_thread s = 0" "a = idle_thread s"
    using cpu idle by (auto simp: cpu_ok_def split: if_split_asm)
  have "wq_ok ?s = wq_ok s" "rq_ok ?s = rq_ok s" "idle_ok ?s = idle_ok s" by (simp_all add: wq_ok_def rq_ok_def idle_ok_def)
  moreover have "cpu_ok a ?s" using p t0 by (simp add: cpu_ok_def)
  moreover have "next_ok ?s" using run out by (simp add: next_ok_def)
  moreover have "placed a ?s x" if "x \<notin> E - {t}" for x
  proof (cases "x = t")
    case False
    then have "placed a s x" using that ip(5) by auto
    moreover have "TH_RUN \<notin> state (thread s 0)" using ido by (simp add: idle_ok_def)
    ultimately show ?thesis using p(3) by (auto simp: placed_def)
  qed (simp add: placed_def)
  ultimately show ?thesis using ip ro ido by (simp add: inv_at_def proc_ok_def)
qed

text \<open>What an operation on the scheduler's queues leaves alone.\<close>

definition same_env :: "sched \<Rightarrow> sched \<Rightarrow> bool" where
  "same_env s t \<longleftrightarrow> active_thread t = active_thread s \<and> idle_thread t = idle_thread s \<and> swapping_thread t = swapping_thread s \<and>
     wake_active_ev t = wake_active_ev s \<and> swap_state_ev t = swap_state_ev s \<and> sched_tick t = sched_tick s"

lemma same_env_refl [simp]: "same_env s s"
  by (simp add: same_env_def)

lemma same_env_trans: "same_env s t \<Longrightarrow> same_env t u \<Longrightarrow> same_env s u"
  by (simp add: same_env_def)

lemma same_env_upd [simp]: "same_env s (upd_thread t f s)" "same_env s (upd_rq q g s)" "same_env s (run_queue_enqueue q t s)"
  by (simp_all add: same_env_def upd_thread_def upd_rq_def run_queue_enqueue_def Let_def)

definition only_thread :: "ptr \<Rightarrow> sched \<Rightarrow> sched \<Rightarrow> bool" where
  "only_thread t s s' \<longleftrightarrow> same_env s s' \<and> wait_queue s' = wait_queue s \<and> (\<forall>x. x \<noteq> t \<longrightarrow> thread s' x = thread s x)"

lemma stamp_step:
  assumes "timers_ok (thread s t)"
  obtains w where "(if sched_stamp (thread s t) \<noteq> sched_tick s then update_priority t s else Inr (Some s)) = Inr (Some (upd_thread t (\<lambda>_. w) s))"
    and "repri (thread s t) w" and "sched_stamp w = sched_tick s"
proof (cases "sched_stamp (thread s t) = sched_tick s")
  case True
  have "upd_thread t (\<lambda>_. thread s t) s = s" by (simp add: upd_thread_def)
  then show ?thesis using True that [of "thread s t"] by (simp add: repri_def requeued_def)
next
  case False
  then show ?thesis using update_priority_ok [OF assms False] that by auto
qed

lemma setrun_inv:
  assumes inv: "inv_at a E s" and run: "runnable (thread s t)" and out: "runq (thread s t) = None" and "t \<noteq> a" and "t \<noteq> next_thread s"
  shows "\<exists>s'. thread_setrun t p s = Inr (Some s') \<and> inv_at a (E - {t}) s' \<and> only_thread t s s' \<and> requeued (thread s t) (thread s' t) \<and>
     sched_stamp (thread s' t) = sched_tick s"
proof -
  have "timers_ok (thread s t)" using inv_parts(3) [OF inv] by (simp add: st_ok_def)
  then obtain w where u: "(if sched_stamp (thread s t) \<noteq> sched_tick s then update_priority t s else Inr (Some s)) = Inr (Some (upd_thread t (\<lambda>_. w) s))"
    and w: "repri (thread s t) w" "sched_stamp w = sched_tick s" by (rule stamp_step)
  define s1 where "s1 = upd_thread t (\<lambda>_. w) s"
  have inv1: "inv_at a E s1" unfolding s1_def by (rule inv_repri [OF inv out w(1)])
  have s1: "thread s1 t = w" "next_thread s1 = next_thread s" "runq w = None" "runnable w" "only_thread t s s1"
    using w out run by (simp_all add: s1_def repri_def requeued_def runnable_def only_thread_def)
  have rw: "requeued (thread s t) w" using w by (simp add: repri_def)
  show ?thesis
  proof (cases "idle_count s1 > 0")
    case True
    let ?s = "s1\<lparr>idle_count := idle_count s1 - 1, next_thread := t, pstate := PROCESSOR_DISPATCHING\<rparr>"
    have "thread_setrun t p s = Inr (Some ?s)" using u True s1 by (simp add: thread_setrun_def s1_def rbind_def)
    moreover have "inv_at a (E - {t}) ?s" using dispatch_inv [OF inv1 _ _ True, of t] s1 by simp
    moreover have "only_thread t s ?s" using s1(5) by (simp add: only_thread_def same_env_def)
    ultimately show ?thesis using rw s1(1) w(2) by auto
  next
    case False
    define q where "q = (if bound w then Proc_runq else Pset_runq)"
    define s2 where "s2 = (if bound w then s1\<lparr>ast := True\<rparr> else s1)"
    define s3 where "s3 = run_queue_enqueue q t s2"
    define s4 where "s4 = (if p \<and> sched_pri (thread s3 (active_thread s3)) < sched_pri (thread s3 t) then s3\<lparr>first_quantum := False, ast := True\<rparr> else s3)"
    have eq: "thread s2 = thread s1" "next_thread s2 = next_thread s1" by (simp_all add: s2_def)
    have "thread_setrun t p s = Inr (Some s4)"
      using u False s1(1, 3) by (simp add: thread_setrun_def Let_def s4_def s3_def s2_def q_def s1_def rbind_def)
    moreover have "same_sched s1 s2" "same_sched s3 s4" by (simp_all add: s2_def s4_def same_sched_def)
    then have "inv_at a E s2" "inv_at a (E - {t}) s4 = inv_at a (E - {t}) s3" using inv1 inv_at_same by auto
    moreover have "inv_at a (E - {t}) s3"
      unfolding s3_def using enqueue_inv [OF \<open>inv_at a E s2\<close>, of t q] assms(4, 5) by (simp add: eq s1)
    moreover have "same_env s1 s2" "same_env s3 s4" "same_env s2 s3" by (simp_all add: s2_def s4_def s3_def same_env_def run_queue_enqueue_def upd_rq_def upd_thread_def Let_def)
    then have "same_env s1 s4" using same_env_trans by blast
    moreover have "thread s4 = (thread s1)(t := w\<lparr>runq := Some q\<rparr>)" "wait_queue s4 = wait_queue s1"
      using s1(1) by (simp_all add: s4_def s3_def s2_def enqueue_frame)
    ultimately show ?thesis
      using s1(5) rw w(2) same_env_trans by (auto simp: only_thread_def requeued_def)
  qed
qed

subsection \<open>Taking a thread off a run queue\<close>

declare rbind_simps [simp]

lemma hint_remove:
  assumes "hint_ok r" and "w < NRQS" and "t \<in> set (rqs r w)" and "\<And>i. i \<noteq> w \<Longrightarrow> t \<notin> set (rqs r i)"
  shows "hint_ok (r\<lparr>rqs := (\<lambda>i. remove1 t (rqs r i)), rcount := rcount r - 1\<rparr>)"
proof -
  have e: "(\<lambda>i. remove1 t (rqs r i)) = (rqs r)(w := remove1 t (rqs r w))"
    using assms(4) by (auto simp: fun_eq_iff remove1_idem)
  have "int (length (remove1 t (rqs r w))) = int (length (rqs r w)) - 1"
    using assms(3) length_pos_if_in_set [OF assms(3)] by (simp add: length_remove1 of_nat_diff del: length_greater_0_conv)
  then have "(\<Sum>i<NRQS. int (length (((rqs r)(w := remove1 t (rqs r w))) i))) = (\<Sum>i<NRQS. int (length (rqs r i))) - 1"
    using sum_upd [of "{..<NRQS}" w "\<lambda>x. int (length x)" "rqs r" "remove1 t (rqs r w)"] assms(2) by simp
  moreover have "remove1 t (rqs r i) = []" if "high r < int i" for i using that assms(1) by (simp add: hint_ok_def)
  ultimately show ?thesis using assms(1) e by (simp add: hint_ok_def)
qed

lemma rem_runq_frame:
  assumes "runq (thread s t) = Some q"
  shows "fst (rem_runq t s) = Some q" "only_thread t s (snd (rem_runq t s))"
    "thread (snd (rem_runq t s)) = (thread s)(t := (thread s t)\<lparr>runq := None\<rparr>)"
    "rq (snd (rem_runq t s)) = (rq s)(q := (rq s q)\<lparr>rqs := (\<lambda>i. remove1 t (rqs (rq s q) i)), rcount := rcount (rq s q) - 1\<rparr>)"
    "next_thread (snd (rem_runq t s)) = next_thread s" "pstate (snd (rem_runq t s)) = pstate s"
    "idle_count (snd (rem_runq t s)) = idle_count s" "idle_thread (snd (rem_runq t s)) = idle_thread s"
    "wait_queue (snd (rem_runq t s)) = wait_queue s" "policy_fixedpri (snd (rem_runq t s)) = policy_fixedpri s"
  using assms by (simp_all add: rem_runq_def Let_def only_thread_def same_env_def upd_rq_def upd_thread_def)

lemma rem_runq_inv:
  assumes inv: "inv_at a E s" and q: "runq (thread s t) = Some q"
  shows "inv_at a (insert t E) (snd (rem_runq t s))"
proof -
  let ?s = "snd (rem_runq t s)"
  note ip = inv_parts [OF inv] and fr = rem_runq_frame [OF q]
  have rqo: "hint_ok (rq s q')" "distinct (rqs (rq s q') i)"
    "x \<in> set (rqs (rq s q') i) \<longleftrightarrow> runq (thread s x) = Some q' \<and> i = whichq (thread s x)" for q' i x
    using ip(2) by (auto simp: rq_ok_def)
  have wh: "whichq ((thread s t)\<lparr>runq := None\<rparr>) = whichq (thread s t)" by (simp add: whichq_def)
  have "wq_ok ?s" using ip(1) by (auto simp: wq_ok_def fr(3, 9))
  moreover have "rq_ok ?s"
    unfolding rq_ok_def
  proof (intro conjI allI)
    show "hint_ok (rq ?s q')" for q'
      using hint_remove [where r = "rq s q" and w = "whichq (thread s t)" and t = t] whichq_lt q by (cases "q' = q") (simp_all add: rqo(1, 3) fr(4))
    show "distinct (rqs (rq ?s q') i)" for q' i by (cases "q' = q") (simp_all add: rqo(2) fr(4))
    show "x \<in> set (rqs (rq ?s q') i) \<longleftrightarrow> runq (thread ?s x) = Some q' \<and> i = whichq (thread ?s x)" for q' i x
      using q by (cases "q' = q"; cases "x = t") (simp_all add: rqo fr(3, 4) set_remove1_eq)
  qed
  moreover have "st_ok (thread ?s x)" for x
    using ip(3) [of x] by (cases "x = t") (simp_all add: fr(3) st_ok_def runnable_def timers_ok_def)
  moreover have "proc_ok a ?s"
  proof -
    have e: "state (thread ?s x) = state (thread s x)" "runq (thread s x) = None \<Longrightarrow> runq (thread ?s x) = None" for x by (simp_all add: fr(3))
    have "idle_ok ?s = idle_ok s" "cpu_ok a ?s = cpu_ok a s" by (simp_all add: idle_ok_def cpu_ok_def e fr(5-8))
    moreover have "next_ok s \<Longrightarrow> next_ok ?s" "run_ok (thread s a) \<Longrightarrow> run_ok (thread ?s a)" by (simp_all add: next_ok_def run_ok_def runnable_def e fr(5))
    ultimately show ?thesis using ip(4) by (simp add: proc_ok_def)
  qed
  moreover have "placed a ?s x" if "x \<notin> insert t E" for x
    using ip(5) [of x] that by (simp add: placed_def fr(3, 5, 8))
  ultimately show ?thesis by (simp add: inv_at_def)
qed

lemma inv_high:
  assumes "inv_at a E s" and "\<And>j. i < j \<Longrightarrow> rqs (rq s q) j = []" and "i < NRQS"
  shows "inv_at a E (upd_rq q (\<lambda>r. r\<lparr>high := int i\<rparr>) s)"
proof -
  let ?s = "upd_rq q (\<lambda>r. r\<lparr>high := int i\<rparr>) s"
  have "hint_ok (rq s q)" "rq_ok s" using inv_parts(2) [OF assms(1)] by (simp_all add: rq_ok_def)
  then have "hint_ok ((rq s q)\<lparr>high := int i\<rparr>)" using assms(2, 3) by (simp add: hint_ok_def)
  then have "rq_ok ?s" using \<open>rq_ok s\<close> by (simp add: rq_ok_def)
  moreover have "wq_ok ?s = wq_ok s" "proc_ok a ?s = proc_ok a s" "placed a ?s = placed a s"
    by (simp_all add: wq_ok_def proc_ok_def idle_ok_def cpu_ok_def next_ok_def placed_def fun_eq_iff)
  ultimately show ?thesis using assms(1) by (simp add: inv_at_def)
qed

lemma rq_take_eq:
  assumes "inv_at a E s" and "rqs (rq s q) i = t # ts"
  shows "rq_take q i s = (t, snd (rem_runq t s))" "runq (thread s t) = Some q" "i = whichq (thread s t)"
proof -
  have m: "x \<in> set (rqs (rq s q') j) \<longleftrightarrow> runq (thread s x) = Some q' \<and> j = whichq (thread s x)" for q' j x
    using inv_parts(2) [OF assms(1)] by (auto simp: rq_ok_def)
  show q: "runq (thread s t) = Some q" "i = whichq (thread s t)" using m [of t q i] assms(2) by auto
  have "(rqs (rq s q))(i := tl (rqs (rq s q) i)) = (\<lambda>j. remove1 t (rqs (rq s q) j))"
    using m [of t q] assms(2) q by (auto simp: fun_eq_iff remove1_idem)
  then show "rq_take q i s = (t, snd (rem_runq t s))"
    using q(1) assms(2) by (simp add: rq_take_def rem_runq_def Let_def upd_rq_def upd_thread_def)
qed

text \<open>The search for a queue.\<close>

lemma rq_scan_Some: "rq_scan n r = Some i \<longleftrightarrow> i < n \<and> r i \<noteq> [] \<and> (\<forall>j. i < j \<and> j < n \<longrightarrow> r j = [])"
proof (induction n)
  case (Suc n)
  then show ?case by (auto simp: less_Suc_eq)
qed simp

lemma rq_scan_None: "rq_scan n r = None \<longleftrightarrow> (\<forall>j<n. r j = [])"
  by (induction n) (auto simp: less_Suc_eq)

lemma hint_nonempty:
  assumes "hint_ok r" and "rcount r > 0"
  shows "\<exists>i. int i \<le> high r \<and> rqs r i \<noteq> []"
proof (rule ccontr)
  assume "\<not> ?thesis"
  then have "rqs r i = []" for i using assms(1) by (cases "int i \<le> high r") (auto simp: hint_ok_def)
  then show False using assms by (simp add: hint_ok_def)
qed

lemma hint_empty:
  assumes "hint_ok r" and "rcount r \<le> 0"
  shows "rqs r i = []"
proof (cases "i < NRQS")
  case True
  have "(\<Sum>i<NRQS. int (length (rqs r i))) = 0" using assms sum_nonneg [of "{..<NRQS}" "\<lambda>i. int (length (rqs r i))"] by (simp add: hint_ok_def)
  then have "\<forall>i\<in>{..<NRQS}. int (length (rqs r i)) = 0"
    using sum_nonneg_eq_0_iff [of "{..<NRQS}" "\<lambda>i. int (length (rqs r i))"] by simp
  then show ?thesis using True by simp
qed (use assms(1) in \<open>simp add: hint_ok_def\<close>)

subsection \<open>Choosing a thread\<close>

text \<open>\<open>front q s t\<close>: \<open>t\<close> is the first thread of the highest queue that is not empty.\<close>

definition front :: "rq_id \<Rightarrow> sched \<Rightarrow> ptr \<Rightarrow> bool" where
  "front q s t \<longleftrightarrow> (\<exists>ts. rqs (rq s q) (whichq (thread s t)) = t # ts) \<and> (\<forall>j. whichq (thread s t) < j \<longrightarrow> rqs (rq s q) j = [])"

definition took :: "ptr \<Rightarrow> sched \<Rightarrow> sched \<Rightarrow> bool" where
  "took t s s' \<longleftrightarrow> only_thread t s s' \<and> runq (thread s t) \<noteq> None \<and> thread s' t = (thread s t)\<lparr>runq := None\<rparr> \<and>
     next_thread s' = next_thread s \<and> pstate s' = pstate s \<and> idle_count s' = idle_count s"

lemma took_rem_runq: "runq (thread s t) = Some q \<Longrightarrow> took t s (snd (rem_runq t s))"
  by (simp add: took_def rem_runq_frame)

lemma took_high: "took t s s' \<Longrightarrow> took t s (upd_rq q (\<lambda>r. r\<lparr>high := h\<rparr>) s')"
  by (simp add: took_def only_thread_def same_env_def upd_rq_def)

lemma pick:
  assumes inv: "inv_at a E s" and i: "rqs (rq s q) i = t # ts" and top: "\<And>j. i < j \<Longrightarrow> rqs (rq s q) j = []"
    and lo: "\<And>j. i' < j \<Longrightarrow> rqs (rq (snd (rem_runq t s)) q) j = []" "i' < NRQS"
  shows "front q s t" "inv_at a (insert t E) (upd_rq q (\<lambda>r. r\<lparr>high := int i'\<rparr>) (snd (rem_runq t s)))"
    "took t s (upd_rq q (\<lambda>r. r\<lparr>high := int i'\<rparr>) (snd (rem_runq t s)))"
proof -
  note te = rq_take_eq [OF inv i]
  show "front q s t" using i te(3) top by (auto simp: front_def)
  show "took t s (upd_rq q (\<lambda>r. r\<lparr>high := int i'\<rparr>) (snd (rem_runq t s)))" by (rule took_high [OF took_rem_runq [OF te(2)]])
  show "inv_at a (insert t E) (upd_rq q (\<lambda>r. r\<lparr>high := int i'\<rparr>) (snd (rem_runq t s)))"
    by (rule inv_high [OF rem_runq_inv [OF inv te(2)] lo])
qed

lemma rem_runq_above:
  assumes "runq (thread s t) = Some q" and "rqs (rq s q) j = []"
  shows "rqs (rq (snd (rem_runq t s)) q) j = []"
  using assms by (simp add: rem_runq_frame)

text \<open>The search below the queue of a thread that was taken succeeds.\<close>

lemma rq_lower_ok:
  assumes "inv_at a E s" and "\<And>j. i < j \<Longrightarrow> rqs (rq s Pset_runq) j = []" and "i < NRQS"
  shows "\<exists>i'. rq_lower i s = Some i' \<and> i' < NRQS \<and> (\<forall>j. i' < j \<longrightarrow> rqs (rq s Pset_runq) j = [])"
proof (cases "rcount (rq s Pset_runq) > 0 \<and> policy_fixedpri s")
  case True
  have h: "hint_ok (rq s Pset_runq)" using inv_parts(2) [OF assms(1)] by (simp add: rq_ok_def)
  then obtain k where k: "rqs (rq s Pset_runq) k \<noteq> []" using hint_nonempty [OF h] True by auto
  then have "k < Suc i" using assms(2) [of k] by (cases "i < k") auto
  then have "rq_scan (Suc i) (rqs (rq s Pset_runq)) \<noteq> None" unfolding rq_scan_None using k by blast
  then obtain i' where i': "rq_scan (Suc i) (rqs (rq s Pset_runq)) = Some i'" by blast
  then have b: "i' < Suc i" "\<forall>j. i' < j \<and> j < Suc i \<longrightarrow> rqs (rq s Pset_runq) j = []" unfolding rq_scan_Some by blast+
  have "rqs (rq s Pset_runq) j = []" if "i' < j" for j
    using assms(2) [of j] b(2) that by (cases "i < j") (simp_all add: less_Suc_eq_le)
  then show ?thesis using True i' b(1) assms(3) by (simp add: rq_lower_def del: rq_scan.simps)
next
  case False
  then have "rq_lower i s = Some i" by (auto simp: rq_lower_def)
  then show ?thesis using assms(2, 3) by auto
qed

lemma scan_ok:
  assumes "inv_at a E s" and "rcount (rq s q) > 0"
  obtains i t ts where "rq_scan (nat (high (rq s q) + 1)) (rqs (rq s q)) = Some i" and "rqs (rq s q) i = t # ts"
    and "\<And>j. i < j \<Longrightarrow> rqs (rq s q) j = []" and "i < NRQS" and "i \<le> nat (high (rq s q))"
proof -
  have h: "hint_ok (rq s q)" using inv_parts(2) [OF assms(1)] by (simp add: rq_ok_def)
  obtain k where k: "int k \<le> high (rq s q)" "rqs (rq s q) k \<noteq> []" using hint_nonempty [OF h assms(2)] by auto
  then have "rq_scan (nat (high (rq s q) + 1)) (rqs (rq s q)) \<noteq> None"
    by (auto simp: rq_scan_None intro!: exI [of _ k])
  then obtain i where i: "rq_scan (nat (high (rq s q) + 1)) (rqs (rq s q)) = Some i" by auto
  then have i': "i < nat (high (rq s q) + 1)" "rqs (rq s q) i \<noteq> []" "\<forall>j. i < j \<and> j < nat (high (rq s q) + 1) \<longrightarrow> rqs (rq s q) j = []"
    by (auto simp: rq_scan_Some)
  moreover have "rqs (rq s q) j = []" if "i < j" for j
  proof (cases "high (rq s q) < int j")
    case True
    then show ?thesis using h by (simp add: hint_ok_def)
  next
    case False
    then show ?thesis using i'(3) that by auto
  qed
  moreover have "high (rq s q) < int NRQS" using h by (simp add: hint_ok_def)
  ultimately show ?thesis using that [OF i, of "hd (rqs (rq s q) i)" "tl (rqs (rq s q) i)"] by auto
qed

lemma take_pset:
  assumes inv: "inv_at a E s" and i: "rqs (rq s Pset_runq) i = t # ts" "i < NRQS" and top: "\<And>j. i < j \<Longrightarrow> rqs (rq s Pset_runq) j = []"
  shows "\<exists>i'. rq_lower i (snd (rem_runq t s)) = Some i' \<and> front Pset_runq s t \<and>
     inv_at a (insert t E) (upd_rq Pset_runq (\<lambda>r. r\<lparr>high := int i'\<rparr>) (snd (rem_runq t s))) \<and>
     took t s (upd_rq Pset_runq (\<lambda>r. r\<lparr>high := int i'\<rparr>) (snd (rem_runq t s)))"
proof -
  note te = rq_take_eq [OF inv i(1)]
  have "rqs (rq (snd (rem_runq t s)) Pset_runq) j = []" if "i < j" for j by (rule rem_runq_above [OF te(2) top [OF that]])
  then obtain i' where i': "rq_lower i (snd (rem_runq t s)) = Some i'" "i' < NRQS"
      "\<And>j. i' < j \<Longrightarrow> rqs (rq (snd (rem_runq t s)) Pset_runq) j = []"
    using rq_lower_ok [OF rem_runq_inv [OF inv te(2)], of i] i(2) by blast
  then show ?thesis using pick [OF inv i(1) top i'(3, 2)] by blast
qed

lemma choose_pset_ok:
  assumes inv: "inv_at a E s" and "rcount (rq s Pset_runq) > 0"
  shows "\<exists>t s'. choose_pset_thread s = Inr (Some (t, s')) \<and> front Pset_runq s t \<and> inv_at a (insert t E) s' \<and> took t s s'"
proof -
  obtain i t ts where i: "rq_scan (nat (high (rq s Pset_runq) + 1)) (rqs (rq s Pset_runq)) = Some i" "rqs (rq s Pset_runq) i = t # ts"
      "\<And>j. i < j \<Longrightarrow> rqs (rq s Pset_runq) j = []" "i < NRQS"
    using scan_ok [OF assms] by metis
  obtain i' where "rq_lower i (snd (rem_runq t s)) = Some i'" "front Pset_runq s t"
     "inv_at a (insert t E) (upd_rq Pset_runq (\<lambda>r. r\<lparr>high := int i'\<rparr>) (snd (rem_runq t s)))"
     "took t s (upd_rq Pset_runq (\<lambda>r. r\<lparr>high := int i'\<rparr>) (snd (rem_runq t s)))"
    using take_pset [OF inv i(2, 4, 3)] by blast
  then show ?thesis using assms(2) i(1) by (simp add: choose_pset_thread_def rq_take_eq(1) [OF inv i(2)])
qed

lemma choose_proc_ok:
  assumes inv: "inv_at a E s" and "rcount (rq s Proc_runq) > 0"
  shows "\<exists>t s'. choose_thread s = Inr (Some (t, s')) \<and> front Proc_runq s t \<and> inv_at a (insert t E) s' \<and> took t s s'"
proof -
  obtain i t ts where i: "rq_scan (nat (high (rq s Proc_runq) + 1)) (rqs (rq s Proc_runq)) = Some i" "rqs (rq s Proc_runq) i = t # ts"
      "\<And>j. i < j \<Longrightarrow> rqs (rq s Proc_runq) j = []" "i < NRQS"
    using scan_ok [OF assms] by metis
  note te = rq_take_eq [OF inv i(2)]
  have "rqs (rq (snd (rem_runq t s)) Proc_runq) j = []" if "i < j" for j by (rule rem_runq_above [OF te(2) i(3) [OF that]])
  then show ?thesis using pick [OF inv i(2, 3) _ i(4)] assms(2) i(1) by (simp add: choose_thread_def te(1))
qed

end
