(* ===== verification/SchedWake.thy ===== *)
theory SchedWake
  imports SchedInv
begin

text \<open>
  Awakening threads: \<^verbatim>\<open>thread_wakeup_prim\<close> returns, wakes the threads that wait for the event (or the first of
  them) and no others but those that wait for the swapper, and keeps the invariant of the scheduler.
\<close>

subsection \<open>The specification of a wake-up\<close>

text \<open>
  The state of a thread after its wait has ended: it can run, unless it is suspended (and can be
  interrupted, or is swapped out).
\<close>

definition awake :: "thread \<Rightarrow> th_flag set" where
  "awake v = state v - {TH_WAIT} \<union> (if TH_SUSP \<in> state v \<and> (interruptible v \<or> TH_SWAPPED \<in> state v) then {} else {TH_RUN})"

definition woken :: "int \<Rightarrow> thread \<Rightarrow> thread \<Rightarrow> bool" where
  "woken r v w \<longleftrightarrow> wait_event w = 0 \<and> state w = awake v \<and> wait_result w = r \<and> \<not> timer_set w \<and>
     suspend_count w = suspend_count v \<and> wake_active w = wake_active v \<and>
     interruptible w = (interruptible v \<or> TH_RUN \<in> state v \<or> TH_SUSP \<in> state v \<and> TH_SWAPPED \<in> state v)"

text \<open>
  The threads that changed waited for one of the events \<open>Q\<close>, given with the results, and have been woken;
  they have left the wait queues.
\<close>

definition wakes :: "(int \<times> int) set \<Rightarrow> sched \<Rightarrow> sched \<Rightarrow> bool" where
  "wakes Q s s' \<longleftrightarrow> same_env s s' \<and>
     (\<forall>x. thread s' x = thread s x \<or>
        wait_event (thread s x) \<noteq> 0 \<and> (\<exists>r. (wait_event (thread s x), r) \<in> Q \<and> woken r (thread s x) (thread s' x))) \<and>
     (\<forall>i. wait_queue s' i = filter (\<lambda>x. wait_event (thread s' x) \<noteq> 0) (wait_queue s i))"

lemma wakes_refl: "wq_ok s \<Longrightarrow> wakes Q s s"
  by (auto simp: wakes_def wq_ok_def intro!: filter_True [symmetric])

lemma wakes_cases:
  assumes "wakes Q s s'"
  shows "thread s' x = thread s x \<or> wait_event (thread s x) \<noteq> 0 \<and> (\<exists>r. (wait_event (thread s x), r) \<in> Q \<and> woken r (thread s x) (thread s' x))"
  using assms by (simp add: wakes_def)

lemma wakes_mono: "wakes Q s s' \<Longrightarrow> Q \<subseteq> R \<Longrightarrow> wakes R s s'"
  by (auto simp: wakes_def) (meson subset_iff)+

lemma wakes_gone: "wakes Q s s' \<Longrightarrow> wait_event (thread s x) = 0 \<Longrightarrow> thread s' x = thread s x"
  using wakes_cases [of Q s s' x] by simp

lemma wakes_trans:
  assumes "wakes Q s t" and "wakes Q t u"
  shows "wakes Q s u"
proof -
  note gone = wakes_gone [OF assms(2)]
  have "thread u x = thread s x \<or> wait_event (thread s x) \<noteq> 0 \<and> (\<exists>r. (wait_event (thread s x), r) \<in> Q \<and> woken r (thread s x) (thread u x))" for x
    using wakes_cases [OF assms(1), of x] wakes_cases [OF assms(2), of x] gone [of x] by (metis woken_def)
  moreover have "wait_queue u i = filter (\<lambda>x. wait_event (thread u x) \<noteq> 0) (wait_queue s i)" for i
  proof -
    have "wait_queue u i = filter (\<lambda>x. wait_event (thread u x) \<noteq> 0) (filter (\<lambda>x. wait_event (thread t x) \<noteq> 0) (wait_queue s i))"
      using assms(1, 2) by (simp add: wakes_def)
    moreover have "wait_event (thread u x) \<noteq> 0 \<Longrightarrow> wait_event (thread t x) \<noteq> 0" for x using gone [of x] by auto
    ultimately show ?thesis by (auto simp: filter_filter intro!: filter_cong)
  qed
  ultimately show ?thesis using assms(1, 2) same_env_trans by (auto simp: wakes_def)
qed

lemma waiters_mono:
  assumes "wakes Q s s'"
  shows "waiters s' \<le> waiters s"
  unfolding waiters_def using assms by (intro sum_mono) (simp add: wakes_def)

lemma wait_hash_lt: "wait_hash ev < nat NUMQUEUES"
  by (simp add: wait_hash_def NUMQUEUES_def nat_less_iff)

lemma queue_le_waiters: "length (wait_queue s (wait_hash ev)) \<le> waiters s"
  unfolding waiters_def using wait_hash_lt [of ev] member_le_sum [of "wait_hash ev" "{..<nat NUMQUEUES}" "\<lambda>i. length (wait_queue s i)"]
  by simp

lemma unwait_waiters:
  assumes "wq_ok s" and "wait_event (thread s t) \<noteq> 0"
  shows "waiters s = Suc (waiters (unwait t s))"
proof -
  let ?i = "wait_hash (wait_event (thread s t))"
  have t: "t \<in> set (wait_queue s ?i)" using assms by (simp add: wq_ok_def)
  have i: "?i \<in> {..<nat NUMQUEUES}" using wait_hash_lt by simp
  have "waiters s = length (wait_queue s ?i) + (\<Sum>i\<in>{..<nat NUMQUEUES} - {?i}. length (wait_queue s i))"
    unfolding waiters_def by (rule sum.remove [OF _ i]) simp
  moreover have "waiters (unwait t s) = length (remove1 t (wait_queue s ?i)) + (\<Sum>i\<in>{..<nat NUMQUEUES} - {?i}. length (wait_queue s i))"
    unfolding waiters_def using sum.remove [OF _ i, of "\<lambda>i. length (wait_queue (unwait t s) i)"] by (simp add: unwait_frame)
  ultimately show ?thesis using t length_pos_if_in_set [OF t] by (simp add: length_remove1)
qed

subsection \<open>One thread\<close>

lemma flag_set_eq:
  "A = B \<longleftrightarrow> (TH_WAIT \<in> A \<longleftrightarrow> TH_WAIT \<in> B) \<and> (TH_SUSP \<in> A \<longleftrightarrow> TH_SUSP \<in> B) \<and> (TH_RUN \<in> A \<longleftrightarrow> TH_RUN \<in> B) \<and>
     (TH_SWAPPED \<in> A \<longleftrightarrow> TH_SWAPPED \<in> B) \<and> (TH_IDLE \<in> A \<longleftrightarrow> TH_IDLE \<in> B)" (is "_ \<longleftrightarrow> ?r")
proof
  assume r: ?r
  show "A = B"
  proof (rule set_eqI)
    show "f \<in> A \<longleftrightarrow> f \<in> B" for f using r by (cases f) simp_all
  qed
qed simp

text \<open>The step for one thread \<open>t\<close>; \<open>b\<close> says that it was swapped out, so that the swapper may have been woken.\<close>

definition wakes_one :: "bool \<Rightarrow> ptr \<Rightarrow> int \<Rightarrow> sched \<Rightarrow> sched \<Rightarrow> bool" where
  "wakes_one b t r s s' \<longleftrightarrow> same_env s s' \<and> woken r (thread s t) (thread s' t) \<and>
     (\<forall>x. x \<noteq> t \<longrightarrow> thread s' x = thread s x \<or>
        b \<and> wait_event (thread s x) \<noteq> 0 \<and> wait_event (thread s x) = swapping_thread s \<and> woken THREAD_AWAKENED (thread s x) (thread s' x)) \<and>
     (\<forall>i. wait_queue s' i = filter (\<lambda>x. wait_event (thread s' x) \<noteq> 0) (wait_queue s i))"

text \<open>What is needed of the routine that wakes the swapper.\<close>

definition wake_ok :: "ptr \<Rightarrow> ptr set \<Rightarrow> (nat \<Rightarrow> ptr list) \<Rightarrow> (int \<Rightarrow> sched \<Rightarrow> sched option kresult) \<Rightarrow> bool" where
  "wake_ok a E wq wake \<longleftrightarrow> (\<forall>s. inv_at a E s \<longrightarrow> wait_queue s = wq \<longrightarrow>
     (\<exists>s'. wake (swapping_thread s) s = Inr (Some s') \<and> inv_at a E s' \<and> wakes {(swapping_thread s, THREAD_AWAKENED)} s s'))"

lemma wake_okD:
  "wake_ok a E wq wake \<Longrightarrow> inv_at a E s \<Longrightarrow> wait_queue s = wq \<Longrightarrow>
     \<exists>s'. wake (swapping_thread s) s = Inr (Some s') \<and> inv_at a E s' \<and> wakes {(swapping_thread s, THREAD_AWAKENED)} s s'"
  unfolding wake_ok_def by blast

lemma waiting_facts:
  assumes "inv_at a E s" and "TH_WAIT \<in> state (thread s t)"
  shows "t \<noteq> 0" "t \<noteq> idle_thread s" "runq (thread s t) = None" "t \<noteq> next_thread s" "TH_IDLE \<notin> state (thread s t)"
    "TH_RUN \<notin> state (thread s t) \<Longrightarrow> t \<noteq> a"
proof -
  note ip = inv_parts [OF assms(1)]
  have "\<not> (t = 0 \<or> t = idle_thread s)" using inv_idle(1) [OF assms(1), of t] assms(2) by blast
  then show "t \<noteq> 0" "t \<noteq> idle_thread s" by simp_all
  show "runq (thread s t) = None" using ip(3) [of t] runnable_flags [of "thread s t"] assms(2) by (auto simp: st_ok_def)
  have "next_ok s" "run_ok (thread s a)" using ip(4) by (simp_all add: proc_ok_def)
  then show "t \<noteq> next_thread s" "TH_RUN \<notin> state (thread s t) \<Longrightarrow> t \<noteq> a"
    using \<open>t \<noteq> 0\<close> runnable_flags [of "thread s t"] assms(2) by (auto simp: next_ok_def run_ok_def)
  show "TH_IDLE \<notin> state (thread s t)" using ip(4) \<open>t \<noteq> idle_thread s\<close> by (auto simp: proc_ok_def idle_ok_def)
qed

text \<open>A thread that waits changes its state.\<close>

lemma inv_unwaiting:
  assumes "inv_at a E s" and "TH_WAIT \<in> state (thread s t)" and "wait_event v = wait_event (thread s t)" and "runq v = None" and "st_ok v"
    and "TH_IDLE \<notin> state v" and "t = a \<Longrightarrow> TH_RUN \<in> state v \<and> TH_SWAPPED \<notin> state v"
    and "t \<notin> E' \<Longrightarrow> TH_RUN \<in> state v \<Longrightarrow> TH_SWAPPED \<notin> state v \<Longrightarrow> t = a" and "E - {t} \<subseteq> E'"
  shows "inv_at a E' (upd_thread t (\<lambda>_. v) s)"
proof (rule inv_upd [OF assms(1)])
  show "t = a \<or> runq v \<noteq> None \<or> t = next_thread s" if "t \<notin> E'" "TH_RUN \<in> state v" "TH_SWAPPED \<notin> state v" "t \<noteq> idle_thread s"
    using assms(8) that by simp
qed (use assms waiting_facts [OF assms(1, 2)] in simp_all)

text \<open>A request to bring a thread back in.\<close>

lemma swapin_ok:
  assumes inv: "inv_at a E s" and t: "t \<noteq> a" "t \<noteq> 0" "t \<noteq> idle_thread s" "t \<noteq> next_thread s"
    and v: "runq v = None" "runq (thread s t) = None" "wait_event v = wait_event (thread s t)" "wait_event v \<noteq> 0 \<Longrightarrow> TH_WAIT \<in> state v"
      "timers_ok v" "TH_SWAPPED \<in> state v" "TH_IDLE \<notin> state v" "swap_state v \<notin> {TH_SW_UNSWAPPABLE, TH_SW_IN}"
      "TH_RUN \<in> state v \<Longrightarrow> TH_WAIT \<notin> state v"
    and wake: "wake_ok a E (wait_queue s) wake"
  shows "\<exists>s' sw u. thread_swapin_with wake t False (upd_thread t (\<lambda>_. v) s) = Inr (Some s') \<and> inv_at a E s' \<and>
     wakes {(swapping_thread s, THREAD_AWAKENED)} (upd_thread t (\<lambda>_. v\<lparr>swap_state := sw, sw_make_unswappable := u\<rparr>) s) s'"
proof -
  define st where "st = (\<lambda>sw u. upd_thread t (\<lambda>_. v\<lparr>swap_state := sw, sw_make_unswappable := u\<rparr>) s)"
  have inv1: "inv_at a E (st sw u)" if "sw \<in> {TH_SW_WANT_IN, TH_SW_COMING_IN}" for sw u
  proof -
    have "st_ok (v\<lparr>swap_state := sw, sw_make_unswappable := u\<rparr>)"
      using v that by (simp add: st_ok_def sw_ok_def timers_ok_def)
    then show ?thesis unfolding st_def by (intro inv_upd [OF inv]) (use v t in simp_all)
  qed
  have wq: "wait_queue (st sw u) = wait_queue s" "swapping_thread (st sw u) = swapping_thread s" for sw u
    by (simp_all add: st_def) (simp add: upd_thread_def)
  have refl: "wakes Q (st sw u) (st sw u)" if "sw \<in> {TH_SW_WANT_IN, TH_SW_COMING_IN}" for sw u Q
    using inv_parts(1) [OF inv1 [OF that]] by (rule wakes_refl)
  have up: "upd_thread t (\<lambda>v. v\<lparr>swap_state := sw, sw_make_unswappable := u\<rparr>) (upd_thread t (\<lambda>_. v) s) = st sw u" for sw u
    by (simp add: st_def upd_thread_def)
  have sw: "swap_state (thread (st sw u) t) = sw" for sw u by (simp add: st_def)
  have same: "upd_thread t (\<lambda>_. v) s = st (swap_state v) (sw_make_unswappable v)" by (simp add: st_def upd_thread_def)
  have "\<exists>s' sw u. thread_swapin_with wake t False (upd_thread t (\<lambda>_. v) s) = Inr (Some s') \<and> inv_at a E s' \<and>
     wakes {(swapping_thread s, THREAD_AWAKENED)} (st sw u) s'"
  proof (cases "swap_state v = TH_SW_OUT")
    case True
    let ?s = "(st TH_SW_COMING_IN False)\<lparr>swapin_queue := swapin_queue s @ [t]\<rparr>"
    have "inv_at a E ?s" using inv1 [of TH_SW_COMING_IN False] inv_at_same [of "st TH_SW_COMING_IN False" ?s] by (simp add: same_sched_def)
    moreover have "wait_queue ?s = wait_queue s" "swapping_thread ?s = swapping_thread s" using wq by simp_all
    ultimately obtain s' where s': "wake (swapping_thread s) ?s = Inr (Some s')" "inv_at a E s'" "wakes {(swapping_thread s, THREAD_AWAKENED)} ?s s'"
      using wake_okD [OF wake, of ?s] by auto
    have "wakes {(swapping_thread s, THREAD_AWAKENED)} (st TH_SW_COMING_IN False) s'"
      using s'(3) by (simp add: wakes_def same_env_def)
    moreover have "swapin_queue (st TH_SW_COMING_IN False) = swapin_queue s" by (simp add: st_def upd_thread_def)
    then have "thread_swapin_with wake t False (upd_thread t (\<lambda>_. v) s) = Inr (Some s')"
      using True s'(1) wq by (simp add: thread_swapin_with_def up)
    ultimately show ?thesis using s'(2) by blast
  next
    case False
    then consider "swap_state v = TH_SW_GOING_OUT" | "swap_state v = TH_SW_WANT_IN" | "swap_state v = TH_SW_COMING_IN"
      using v(8) by (cases "swap_state v") auto
    then show ?thesis
    proof cases
      case 1
      then have "thread_swapin_with wake t False (upd_thread t (\<lambda>_. v) s) = Inr (Some (st TH_SW_WANT_IN False))"
        by (simp add: thread_swapin_with_def up)
      then show ?thesis using refl [of TH_SW_WANT_IN] inv1 [of TH_SW_WANT_IN] by blast
    next
      case 2
      then have "thread_swapin_with wake t False (upd_thread t (\<lambda>_. v) s) = Inr (Some (st TH_SW_WANT_IN (sw_make_unswappable v)))"
        by (simp add: thread_swapin_with_def same sw)
      then show ?thesis using refl [of TH_SW_WANT_IN] inv1 [of TH_SW_WANT_IN] by blast
    next
      case 3
      then have "thread_swapin_with wake t False (upd_thread t (\<lambda>_. v) s) = Inr (Some (st TH_SW_COMING_IN (sw_make_unswappable v)))"
        by (simp add: thread_swapin_with_def same sw)
      then show ?thesis using refl [of TH_SW_COMING_IN] inv1 [of TH_SW_COMING_IN] by blast
    qed
  qed
  then show ?thesis by (simp add: st_def)
qed

lemma wakes_one_wait_queue:
  assumes "only_thread t s s'" and "woken r (thread s t) (thread s' t)" and "wq_ok s'"
  shows "wakes_one False t r s s'"
proof -
  have "wait_queue s' i = filter (\<lambda>x. wait_event (thread s' x) \<noteq> 0) (wait_queue s' i)" for i
    using assms(3) by (auto simp: wq_ok_def intro!: filter_True [symmetric])
  then show ?thesis using assms(1, 2) by (simp add: wakes_one_def only_thread_def)
qed

lemma only_upd: "only_thread t s (upd_thread t f s)"
  by (simp add: only_thread_def)

lemma only_trans: "only_thread t s u \<Longrightarrow> only_thread t u w \<Longrightarrow> only_thread t s w"
  by (auto simp: only_thread_def same_env_def)

lemma st_ok_state:
  assumes "st_ok v" and "TH_WAIT \<in> state v" and "wait_event v = 0" and "TH_SWAPPED \<in> st \<longleftrightarrow> TH_SWAPPED \<in> state v"
    and "TH_SWAPPED \<in> st \<Longrightarrow> TH_RUN \<in> st \<Longrightarrow> TH_RUN \<in> state v"
  shows "st_ok (v\<lparr>state := st, wait_result := r, interruptible := i\<rparr>)" "st_ok (v\<lparr>state := st, wait_result := r\<rparr>)"
proof -
  have "runq v = None" using assms(1, 2) runnable_flags [of v] by (auto simp: st_ok_def)
  moreover have "sw_ok st (swap_state v)" using assms by (auto simp: st_ok_def sw_ok_def split: if_split_asm)
  ultimately show "st_ok (v\<lparr>state := st, wait_result := r, interruptible := i\<rparr>)" "st_ok (v\<lparr>state := st, wait_result := r\<rparr>)"
    using assms(1, 3) by (simp_all add: st_ok_def timers_ok_def)
qed

lemma wake_state_setrun:
  assumes inv: "inv_at a E s" and we: "wait_event (thread s t) = 0" "\<not> timer_set (thread s t)" and st: "state (thread s t) \<in> {{TH_WAIT}, {TH_WAIT, TH_SUSP}}"
  shows "\<exists>s'. thread_setrun t True (upd_thread t (\<lambda>v. v\<lparr>state := insert TH_RUN (state (thread s t) - {TH_WAIT}), wait_result := r\<rparr>) s) = Inr (Some s') \<and>
     inv_at a E s' \<and> only_thread t s s' \<and> state (thread s' t) = insert TH_RUN (state (thread s t) - {TH_WAIT}) \<and> wait_event (thread s' t) = 0 \<and>
     wait_result (thread s' t) = r \<and> \<not> timer_set (thread s' t) \<and> suspend_count (thread s' t) = suspend_count (thread s t) \<and>
     wake_active (thread s' t) = wake_active (thread s t) \<and> interruptible (thread s' t) = interruptible (thread s t)"
proof -
  let ?v = "(thread s t)\<lparr>state := insert TH_RUN (state (thread s t) - {TH_WAIT}), wait_result := r\<rparr>"
  have w: "TH_WAIT \<in> state (thread s t)" "TH_RUN \<notin> state (thread s t)" "TH_SWAPPED \<notin> state (thread s t)" "TH_IDLE \<notin> state (thread s t)"
    using st by auto
  note wf = waiting_facts [OF inv w(1)]
  have "st_ok ?v" using inv_parts(3) [OF inv, of t] w we by (intro st_ok_state(2)) simp_all
  then have "inv_at a (insert t E) (upd_thread t (\<lambda>_. ?v) s)"
    using wf w by (intro inv_unwaiting [OF inv w(1)]) auto
  moreover have "runnable ?v" using st by (auto simp: runnable_def)
  ultimately obtain s' where s': "thread_setrun t True (upd_thread t (\<lambda>_. ?v) s) = Inr (Some s')" "inv_at a (insert t E - {t}) s'"
      "only_thread t (upd_thread t (\<lambda>_. ?v) s) s'" "requeued ?v (thread s' t)"
    using setrun_inv [of a "insert t E" "upd_thread t (\<lambda>_. ?v) s" t True] wf w(2) by auto
  have "upd_thread t (\<lambda>v. v\<lparr>state := insert TH_RUN (state (thread s t) - {TH_WAIT}), wait_result := r\<rparr>) s = upd_thread t (\<lambda>_. ?v) s"
    by (simp add: upd_thread_def)
  moreover have "inv_at a E s'" using s'(2) by (rule inv_mono) auto
  ultimately show ?thesis using s'(1, 4) only_trans [OF only_upd s'(3)] we by (auto simp: requeued_def)
qed

lemma wake_state_swapped:
  assumes inv: "inv_at a E s" and we: "wait_event (thread s t) = 0" "\<not> timer_set (thread s t)" and st: "state (thread s t) = {TH_WAIT, TH_SWAPPED}"
    and wake: "wake_ok a E (wait_queue s) wake"
  shows "\<exists>s'. thread_swapin_with wake t False (upd_thread t (\<lambda>v. v\<lparr>state := {TH_RUN, TH_SWAPPED}, wait_result := r\<rparr>) s) = Inr (Some s') \<and>
     inv_at a E s' \<and> wakes_one True t r s s'"
proof -
  let ?v = "(thread s t)\<lparr>state := {TH_RUN, TH_SWAPPED}, wait_result := r\<rparr>"
  have w: "TH_WAIT \<in> state (thread s t)" "TH_RUN \<notin> state (thread s t)" using st by auto
  note wf = waiting_facts [OF inv w(1)]
  have ok: "timers_ok (thread s t)" "swap_state (thread s t) \<notin> {TH_SW_UNSWAPPABLE, TH_SW_IN}"
    using inv_parts(3) [OF inv, of t] by (simp_all add: st_ok_def sw_ok_def st) auto
  have v: "runq ?v = None" "wait_event ?v = wait_event (thread s t)" "wait_event ?v \<noteq> 0 \<Longrightarrow> TH_WAIT \<in> state ?v"
      "timers_ok ?v" "TH_SWAPPED \<in> state ?v" "TH_IDLE \<notin> state ?v" "swap_state ?v \<notin> {TH_SW_UNSWAPPABLE, TH_SW_IN}"
      "TH_RUN \<in> state ?v \<Longrightarrow> TH_WAIT \<notin> state ?v"
    using ok wf(3) we by (simp_all add: timers_ok_def)
  obtain s' sw u where s': "thread_swapin_with wake t False (upd_thread t (\<lambda>_. ?v) s) = Inr (Some s')" "inv_at a E s'"
      "wakes {(swapping_thread s, THREAD_AWAKENED)} (upd_thread t (\<lambda>_. ?v\<lparr>swap_state := sw, sw_make_unswappable := u\<rparr>) s) s'"
    using swapin_ok [OF inv wf(6) [OF w(2)] wf(1, 2, 4) v(1) wf(3) v(2-8) wake] by blast
  let ?m = "upd_thread t (\<lambda>_. ?v\<lparr>swap_state := sw, sw_make_unswappable := u\<rparr>) s"
  have "thread s' t = thread ?m t" using wakes_gone [OF s'(3), of t] we by simp
  then have "woken r (thread s t) (thread s' t)" using we st by (simp add: woken_def awake_def insert_Diff_if insert_commute)
  moreover have "same_env s s'" using s'(3) same_env_trans [of s ?m s'] by (simp add: wakes_def)
  moreover have "thread s' x = thread s x \<or> wait_event (thread s x) \<noteq> 0 \<and> wait_event (thread s x) = swapping_thread s \<and>
      woken THREAD_AWAKENED (thread s x) (thread s' x)" if "x \<noteq> t" for x
    using wakes_cases [OF s'(3), of x] that by auto
  moreover have "wait_queue s' i = filter (\<lambda>x. wait_event (thread s' x) \<noteq> 0) (wait_queue s i)" for i
    using s'(3) by (simp add: wakes_def)
  ultimately have "wakes_one True t r s s'" by (simp add: wakes_one_def)
  moreover have "upd_thread t (\<lambda>v. v\<lparr>state := {TH_RUN, TH_SWAPPED}, wait_result := r\<rparr>) s = upd_thread t (\<lambda>_. ?v) s" by (simp add: upd_thread_def)
  ultimately show ?thesis using s'(1, 2) by auto
qed

lemma wake_state_stay:
  assumes inv: "inv_at a E s" and we: "wait_event (thread s t) = 0" "\<not> timer_set (thread s t)" and w: "TH_WAIT \<in> state (thread s t)"
    and v: "v = (thread s t)\<lparr>state := state (thread s t) - {TH_WAIT}, wait_result := r, interruptible := True\<rparr>"
    and aw: "state v = awake (thread s t)" and it: "interruptible (thread s t) \<or> TH_RUN \<in> state (thread s t) \<or> TH_SUSP \<in> state (thread s t) \<and> TH_SWAPPED \<in> state (thread s t)"
  shows "inv_at a E (upd_thread t (\<lambda>_. v) s)" "wakes_one False t r s (upd_thread t (\<lambda>_. v) s)"
proof -
  note wf = waiting_facts [OF inv w] and ip = inv_parts [OF inv]
  have "st_ok v" unfolding v by (rule st_ok_state(1) [OF ip(3) w we(1)]) auto
  moreover have "t = a \<Longrightarrow> TH_RUN \<in> state v \<and> TH_SWAPPED \<notin> state v" using ip(4) by (auto simp: v proc_ok_def run_ok_def)
  moreover have "t = a" if "t \<notin> E" "TH_RUN \<in> state v" "TH_SWAPPED \<notin> state v"
    using ip(5) [OF that(1)] that(2, 3) wf by (auto simp: v placed_def)
  ultimately show "inv_at a E (upd_thread t (\<lambda>_. v) s)" using wf by (intro inv_unwaiting [OF inv w]) (auto simp: v)
  then have "wq_ok (upd_thread t (\<lambda>_. v) s)" by (rule inv_parts)
  moreover have "woken r (thread s t) v" using we aw it by (simp add: woken_def v)
  ultimately show "wakes_one False t r s (upd_thread t (\<lambda>_. v) s)" by (intro wakes_one_wait_queue [OF only_upd]) simp_all
qed

lemma wake_state_ok:
  assumes inv: "inv_at a E s" and we: "wait_event (thread s t) = 0" "\<not> timer_set (thread s t)" and w: "TH_WAIT \<in> state (thread s t)"
    and wake: "wake_ok a E (wait_queue s) wake"
  shows "\<exists>b s'. wake_state wake t r s = Inr (Some (b, s')) \<and> inv_at a E s' \<and> wakes_one b t r s s'"
proof -
  let ?st = "state (thread s t)"
  note wf = waiting_facts [OF inv w]
  consider (stop) "?st = {TH_WAIT, TH_SUSP}" "interruptible (thread s t)"
    | (run) "?st = {TH_WAIT, TH_SUSP} \<and> \<not> interruptible (thread s t) \<or> ?st = {TH_WAIT}"
    | (swapped) "?st = {TH_WAIT, TH_SWAPPED}" | (other) "?st \<notin> {{TH_WAIT, TH_SUSP}, {TH_WAIT}, {TH_WAIT, TH_SWAPPED}}"
    by blast
  then show ?thesis
  proof cases
    case stop
    let ?v = "(thread s t)\<lparr>state := state (thread s t) - {TH_WAIT}, wait_result := r, interruptible := True\<rparr>"
    have "?st - {TH_WAIT} = {TH_SUSP}" "state ?v = awake (thread s t)" using stop by (auto simp: awake_def)
    moreover have "?v = (thread s t)\<lparr>state := {TH_SUSP}, wait_result := r\<rparr>"
      using \<open>?st - {TH_WAIT} = {TH_SUSP}\<close> stop(2) by (cases "thread s t") simp
    moreover have "wake_state wake t r s = Inr (Some (False, upd_thread t (\<lambda>_. (thread s t)\<lparr>state := {TH_SUSP}, wait_result := r\<rparr>) s))"
      using stop by (simp add: wake_state_def upd_thread_def)
    ultimately show ?thesis using wake_state_stay [OF inv we w HOL.refl, where r = r] stop(2) by metis
  next
    case run
    have "TH_SWAPPED \<notin> {TH_WAIT, TH_SUSP}" by simp
    then have aw: "awake (thread s t) = insert TH_RUN (?st - {TH_WAIT})" using run by (auto simp: awake_def)
    have st: "?st \<in> {{TH_WAIT}, {TH_WAIT, TH_SUSP}}" using run by blast
    then have nr: "TH_RUN \<notin> ?st" "TH_SWAPPED \<notin> ?st" by auto
    obtain s' where s': "thread_setrun t True (upd_thread t (\<lambda>v. v\<lparr>state := insert TH_RUN (?st - {TH_WAIT}), wait_result := r\<rparr>) s) = Inr (Some s')"
        "inv_at a E s'" "only_thread t s s'" "woken r (thread s t) (thread s' t)"
      using wake_state_setrun [OF inv we st, of r] aw nr by (auto simp: woken_def)
    have c: "\<not> (?st = {TH_WAIT, TH_SUSP} \<and> interruptible (thread s t))" "?st = {TH_WAIT, TH_SUSP} \<or> ?st = {TH_WAIT}"
      using run by (auto simp: flag_set_eq)
    have "wake_state wake t r s = Inr (Some (False, s'))"
      unfolding wake_state_def Let_def if_not_P [OF c(1)] if_P [OF c(2)] using s'(1) by simp
    then show ?thesis using s'(2) wakes_one_wait_queue [OF s'(3, 4)] inv_parts(1) [OF s'(2)] by blast
  next
    case swapped
    have "\<not> (?st = {TH_WAIT, TH_SUSP} \<and> interruptible (thread s t))" "\<not> (?st = {TH_WAIT, TH_SUSP} \<or> ?st = {TH_WAIT})"
      using swapped by (auto simp: flag_set_eq)
    then show ?thesis using wake_state_swapped [OF inv we swapped wake, of r] swapped by (auto simp: wake_state_def Let_def)
  next
    case other
    let ?v = "(thread s t)\<lparr>state := state (thread s t) - {TH_WAIT}, wait_result := r, interruptible := True\<rparr>"
    have "state ?v = awake (thread s t)" using other w wf(5) by (auto simp: awake_def flag_set_eq)
    moreover have "TH_RUN \<in> ?st \<or> TH_SUSP \<in> ?st \<and> TH_SWAPPED \<in> ?st" using other w wf(5) by (auto simp: flag_set_eq)
    moreover have "wake_state wake t r s = Inr (Some (False, upd_thread t (\<lambda>_. ?v) s))"
      using other w by (simp add: wake_state_def upd_thread_def)
    ultimately show ?thesis using wake_state_stay [OF inv we w HOL.refl, where r = r] by blast
  qed
qed

subsection \<open>All the threads of a queue\<close>

lemma unwait_step:
  assumes inv: "inv_at a E s" and we: "wait_event (thread s t) \<noteq> 0"
  defines "u \<equiv> untimeout t (unwait t s)"
  shows "inv_at a E u" "wait_event (thread u t) = 0" "\<not> timer_set (thread u t)" "TH_WAIT \<in> state (thread u t)" "waiters s = Suc (waiters u)"
    "wakes_one b t r u s' \<Longrightarrow> wakes_one b t r s s'"
proof -
  note ip = inv_parts [OF inv]
  show "inv_at a E u" unfolding u_def by (intro untimeout_inv unwait_inv inv we)
  have v: "thread u t = (thread s t)\<lparr>wait_event := 0, timer_set := False\<rparr>" by (simp add: u_def untimeout_frame unwait_frame)
  show "wait_event (thread u t) = 0" "\<not> timer_set (thread u t)" using v by simp_all
  show "TH_WAIT \<in> state (thread u t)" using ip(3) [of t] we v by (simp add: st_ok_def)
  show "waiters s = Suc (waiters u)" using unwait_waiters [OF ip(1) we] by (simp add: u_def waiters_def untimeout_frame)
  have wq: "wait_queue u = (wait_queue s)(wait_hash (wait_event (thread s t)) := remove1 t (wait_queue s (wait_hash (wait_event (thread s t)))))"
    by (simp add: u_def untimeout_frame unwait_frame)
  have oth: "x \<noteq> t \<Longrightarrow> thread u x = thread s x" for x by (simp add: u_def untimeout_frame unwait_frame)
  have fr: "filter P (remove1 t l) = filter P l" if "\<not> P t" for P and l :: "ptr list" using that by (induction l) auto
  have env: "same_env s u" by (simp add: u_def same_env_def untimeout_def unwait_def Let_def upd_thread_def)
  show "wakes_one b t r s s'" if w: "wakes_one b t r u s'"
  proof -
    have "woken r (thread s t) (thread s' t)" using w v by (simp add: wakes_one_def woken_def awake_def)
    moreover from this have "filter (\<lambda>x. wait_event (thread s' x) \<noteq> 0) (remove1 t l) = filter (\<lambda>x. wait_event (thread s' x) \<noteq> 0) l" for l
      by (intro fr) (simp add: woken_def)
    then have "wait_queue s' i = filter (\<lambda>x. wait_event (thread s' x) \<noteq> 0) (wait_queue s i)" for i
      using w wq by (simp add: wakes_one_def)
    moreover have "swapping_thread u = swapping_thread s" using env by (simp add: same_env_def)
    ultimately show ?thesis using w oth same_env_trans [OF env] by (simp add: wakes_one_def)
  qed
qed

lemma wakes_one_wakes:
  assumes "wakes_one b t r s s'" and "wait_event (thread s t) \<noteq> 0"
    and "(wait_event (thread s t), r) \<in> Q" and "(swapping_thread s, THREAD_AWAKENED) \<in> Q"
  shows "wakes Q s s'"
  unfolding wakes_def
proof (intro conjI allI)
  show "thread s' x = thread s x \<or> wait_event (thread s x) \<noteq> 0 \<and> (\<exists>r. (wait_event (thread s x), r) \<in> Q \<and> woken r (thread s x) (thread s' x))" for x
    using assms unfolding wakes_one_def by (cases "x = t") metis+
qed (use assms in \<open>simp_all add: wakes_one_def\<close>)

lemma walk_none:
  assumes "\<forall>x\<in>set ths. wait_event (thread s x) \<noteq> event" and "length ths < n"
  shows "wakeup_walk n event one r ths s = Inr (Some s)"
  using assms
proof (induction n arbitrary: ths)
  case (Suc n)
  then show ?case by (cases ths) auto
qed simp

text \<open>The fuel: a nested call and a restart both see fewer waiting threads.\<close>

definition walk_fuel :: "ptr list \<Rightarrow> sched \<Rightarrow> nat" where
  "walk_fuel ths s = length ths + waiters s * (waiters s + 1) + 1"

lemma walk_fuel_queue:
  assumes "walk_fuel ths s \<le> Suc n" and "Suc (waiters u) \<le> waiters s"
  shows "walk_fuel (wait_queue u (wait_hash ev)) u \<le> n"
proof -
  have "Suc (waiters u) * Suc (waiters u) \<le> waiters s * waiters s" using assms(2) by (intro mult_le_mono)
  then show ?thesis using assms queue_le_waiters [of u ev] by (simp add: walk_fuel_def)
qed

lemma wakeup_fuel_enough: "walk_fuel (wait_queue s (wait_hash event)) s \<le> wakeup_fuel s"
  using queue_le_waiters [of s event] by (simp add: walk_fuel_def wakeup_fuel_def)

text \<open>
  The outcome of the loop: with \<open>one_thread\<close> the first thread of the list that waits for the event is woken,
  without it no thread waits for the event any longer.
\<close>

definition walk_post :: "int \<Rightarrow> bool \<Rightarrow> int \<Rightarrow> ptr list \<Rightarrow> sched \<Rightarrow> sched \<Rightarrow> bool" where
  "walk_post event one r ths s s' \<longleftrightarrow> wakes {(event, r), (swapping_thread s, THREAD_AWAKENED)} s s' \<and>
     (if one then (case filter (\<lambda>x. wait_event (thread s x) = event) ths of [] \<Rightarrow> s' = s | t # ts \<Rightarrow> \<exists>b. wakes_one b t r s s')
      else (\<forall>x. wait_event (thread s x) = event \<longrightarrow> x \<in> set ths \<longrightarrow> wait_event (thread s' x) = 0))"

lemma walk_post_skip:
  "wait_event (thread s t) \<noteq> event \<Longrightarrow> walk_post event one r ths s s' \<Longrightarrow> walk_post event one r (t # ths) s s'"
  by (auto simp: walk_post_def)

text \<open>After the first thread the loop goes on with a list that holds the other waiting threads.\<close>

lemma walk_post_next:
  assumes one: "wakes_one b t r s u" and t: "wait_event (thread s t) = event" "event \<noteq> 0"
    and sub: "\<And>x. x \<in> set rest \<Longrightarrow> wait_event (thread u x) = event \<Longrightarrow> x \<in> set ths"
    and post: "walk_post event False r ths u s'"
  shows "walk_post event False r (t # rest) s s'"
proof -
  let ?Q = "{(event, r), (swapping_thread s, THREAD_AWAKENED)}"
  have su: "wakes ?Q s u" by (rule wakes_one_wakes [OF one]) (use t in auto)
  moreover have "swapping_thread u = swapping_thread s" using one by (simp add: wakes_one_def same_env_def)
  moreover from this have us: "wakes ?Q u s'" using post by (simp add: walk_post_def)
  ultimately have "wakes ?Q s s'" using wakes_trans by blast
  moreover have "wait_event (thread s' x) = 0" if x: "wait_event (thread s x) = event" "x \<in> set (t # rest)" for x
  proof (cases "wait_event (thread u x) = 0")
    case True
    then show ?thesis using wakes_gone [OF us] by simp
  next
    case False
    then have "x \<noteq> t" "wait_event (thread u x) = event"
      using one x wakes_cases [OF su, of x] by (auto simp: wakes_one_def woken_def)
    then show ?thesis using sub [of x] x(2) post by (simp add: walk_post_def)
  qed
  ultimately show ?thesis by (simp add: walk_post_def)
qed

lemma walk_ok:
  assumes "inv_at a E s" and "event \<noteq> 0" and "walk_fuel ths s \<le> n"
  shows "\<exists>s'. wakeup_walk n event one r ths s = Inr (Some s') \<and> inv_at a E s' \<and> walk_post event one r ths s s'"
  using assms
proof (induction n arbitrary: event one r ths s)
  case 0
  then show ?case by (simp add: walk_fuel_def)
next
  case (Suc n)
  note inv = Suc.prems(1) and ip = inv_parts [OF Suc.prems(1)]
  show ?case
  proof (cases ths)
    case Nil
    then show ?thesis using inv wakes_refl [OF ip(1)] by (auto simp: walk_post_def)
  next
    case (Cons t rest)
    show ?thesis
    proof (cases "wait_event (thread s t) = event")
      case False
      have "walk_fuel rest s \<le> n" using Suc.prems(3) Cons by (simp add: walk_fuel_def)
      then show ?thesis
        using Suc.IH [OF inv Suc.prems(2), of rest one r] walk_post_skip [OF False] Cons False by auto
    next
      case True
      define u where "u = untimeout t (unwait t s)"
      have we: "wait_event (thread s t) \<noteq> 0" using True Suc.prems(2) by simp
      note us = unwait_step [OF inv we, folded u_def]
      let ?wake = "\<lambda>ev s. wakeup_walk n ev False THREAD_AWAKENED (wait_queue s (wait_hash ev)) s"
      have wake: "wake_ok a E (wait_queue u) ?wake"
        unfolding wake_ok_def
      proof (intro allI impI)
        fix w assume w: "inv_at a E w" "wait_queue w = wait_queue u"
        have "waiters w = waiters u" using w(2) by (simp add: waiters_def)
        then have f: "walk_fuel (wait_queue w (wait_hash (swapping_thread w))) w \<le> n"
          using walk_fuel_queue [OF Suc.prems(3), of w "swapping_thread w"] us(5) by simp
        show "\<exists>s'. ?wake (swapping_thread w) w = Inr (Some s') \<and> inv_at a E s' \<and> wakes {(swapping_thread w, THREAD_AWAKENED)} w s'"
        proof (cases "swapping_thread w = 0")
          case True
          have "\<forall>x\<in>set (wait_queue w (wait_hash 0)). wait_event (thread w x) \<noteq> 0" using inv_parts(1) [OF w(1)] by (auto simp: wq_ok_def)
          then have "?wake 0 w = Inr (Some w)" using f True by (intro walk_none) (simp_all add: walk_fuel_def)
          then show ?thesis using True w(1) wakes_refl [OF inv_parts(1) [OF w(1)]] by simp
        next
          case False
          show ?thesis using Suc.IH [OF w(1) False f, of False THREAD_AWAKENED] by (auto simp: walk_post_def)
        qed
      qed
      obtain b w where w: "wake_state ?wake t r u = Inr (Some (b, w))" "inv_at a E w" "wakes_one b t r u w"
        using wake_state_ok [OF us(1-4) wake, of r] by blast
      have sw: "wakes_one b t r s w" using us(6) [OF w(3)] .
      have step: "wakeup_walk (Suc n) event one r ths s = (if one then Inr (Some w) else wakeup_walk n event one r (if b then wait_queue w (wait_hash event) else rest) w)"
        using Cons True w(1) us(4) by (simp add: u_def [symmetric] Let_def)
      show ?thesis
      proof (cases one)
        case True
        have "wakes {(event, r), (swapping_thread s, THREAD_AWAKENED)} s w"
          by (rule wakes_one_wakes [OF sw we]) (use \<open>wait_event (thread s t) = event\<close> in simp_all)
        then show ?thesis using step True w(2) sw Cons \<open>wait_event (thread s t) = event\<close> by (auto simp: walk_post_def)
      next
        case False
        define ts where "ts = (if b then wait_queue w (wait_hash event) else rest)"
        have uw: "wakes {(swapping_thread s, THREAD_AWAKENED), (event, r)} s w"
          by (rule wakes_one_wakes [OF sw we]) (use True in simp_all)
        have "waiters w \<le> waiters u"
          unfolding waiters_def using w(3) by (intro sum_mono) (simp add: wakes_one_def)
        then have "Suc (waiters w) \<le> waiters s" using us(5) by simp
        then have "walk_fuel ts w \<le> n"
          using walk_fuel_queue [OF Suc.prems(3), of w event] Suc.prems(3) Cons mult_le_mono [of "waiters w" "waiters s" "Suc (waiters w)" "Suc (waiters s)"]
          by (auto simp: ts_def walk_fuel_def)
        then obtain s' where s': "wakeup_walk n event False r ts w = Inr (Some s')" "inv_at a E s'" "walk_post event False r ts w s'"
          using Suc.IH [OF w(2) Suc.prems(2), of ts False r] by blast
        have "x \<in> set ts" if "x \<in> set rest" "wait_event (thread w x) = event" for x
          using that inv_parts(1) [OF w(2)] Suc.prems(2) by (auto simp: ts_def wq_ok_def)
        then have "walk_post event False r (t # rest) s s'" using walk_post_next [OF sw True Suc.prems(2) _ s'(3)] by blast
        then show ?thesis using step s' False Cons by (auto simp: ts_def)
      qed
    qed
  qed
qed

lemma wakeup_prim_ok:
  assumes inv: "inv_at a E s"
  shows "\<exists>s'. thread_wakeup_prim event one r s = Inr (Some s') \<and> inv_at a E s' \<and> walk_post event one r (wait_queue s (wait_hash event)) s s'"
proof (cases "event = 0")
  case True
  have wq: "wq_ok s" by (rule inv_parts [OF inv])
  then have n: "\<forall>x\<in>set (wait_queue s (wait_hash event)). wait_event (thread s x) \<noteq> event" using True by (auto simp: wq_ok_def)
  then have "thread_wakeup_prim event one r s = Inr (Some s)"
    unfolding thread_wakeup_prim_def using wakeup_fuel_enough [of s event] by (intro walk_none) (simp_all add: walk_fuel_def)
  moreover have "filter (\<lambda>x. wait_event (thread s x) = event) (wait_queue s (wait_hash event)) = []" using n by (simp add: filter_empty_conv)
  ultimately show ?thesis using inv wakes_refl [OF wq] True n by (auto simp: walk_post_def)
next
  case False
  show ?thesis unfolding thread_wakeup_prim_def by (rule walk_ok [OF inv False wakeup_fuel_enough])
qed

end
