(* ===== verification/SchedOps.thy ===== *)
theory SchedOps
  imports SchedWake
begin

text \<open>
  The invariant of the scheduler under the remaining operations: ending a wait, context switches,
  suspension and swapping.
\<close>

subsection \<open>Ending the wait of a thread\<close>

lemma wakeup_wake_ok: "wake_ok a E wq thread_wakeup"
  unfolding wake_ok_def
proof (intro allI impI)
  fix s assume "inv_at a E s"
  then show "\<exists>s'. thread_wakeup (swapping_thread s) s = Inr (Some s') \<and> inv_at a E s' \<and> wakes {(swapping_thread s, THREAD_AWAKENED)} s s'"
    using wakeup_prim_ok [of a E s "swapping_thread s" False THREAD_AWAKENED] by (auto simp: thread_wakeup_def walk_post_def)
qed

lemma thread_wakeup_ok:
  assumes "inv_at a E s"
  shows "\<exists>s'. thread_wakeup ev s = Inr (Some s') \<and> inv_at a E s' \<and> wakes {(ev, THREAD_AWAKENED), (swapping_thread s, THREAD_AWAKENED)} s s'"
  using wakeup_prim_ok [OF assms, of ev False THREAD_AWAKENED] by (auto simp: thread_wakeup_def walk_post_def)

lemma wakes_env: "wakes Q s s' \<Longrightarrow> same_env s s'"
  by (simp add: wakes_def)

lemma untimeout_step:
  assumes inv: "inv_at a E s" and we: "wait_event (thread s t) = 0"
  defines "u \<equiv> untimeout t s"
  shows "inv_at a E u" "wait_event (thread u t) = 0" "\<not> timer_set (thread u t)" "state (thread u t) = state (thread s t)"
    "wakes_one b t r u s' \<Longrightarrow> wakes_one b t r s s'"
proof -
  show "inv_at a E u" unfolding u_def by (rule untimeout_inv [OF inv])
  have v: "thread u t = (thread s t)\<lparr>timer_set := False\<rparr>" by (simp add: u_def untimeout_frame)
  show "wait_event (thread u t) = 0" "\<not> timer_set (thread u t)" "state (thread u t) = state (thread s t)" using v we by simp_all
  have oth: "x \<noteq> t \<Longrightarrow> thread u x = thread s x" for x by (simp add: u_def untimeout_frame)
  have env: "same_env s u" "wait_queue u = wait_queue s" by (simp_all add: u_def same_env_def untimeout_def upd_thread_def)
  show "wakes_one b t r s s'" if w: "wakes_one b t r u s'"
  proof -
    have "woken r (thread s t) (thread s' t)" using w v by (simp add: wakes_one_def woken_def awake_def)
    moreover have "swapping_thread u = swapping_thread s" using env by (simp add: same_env_def)
    ultimately show ?thesis using w oth env(2) same_env_trans [OF env(1)] by (simp add: wakes_one_def)
  qed
qed

lemma clear_wait_ok:
  assumes inv: "inv_at a E s" and w: "TH_WAIT \<in> state (thread s t)" and i: "\<not> (io \<and> \<not> interruptible (thread s t))"
  shows "\<exists>b s'. clear_wait t r io s = Inr (Some s') \<and> inv_at a E s' \<and> wakes_one b t r s s'"
proof (cases "wait_event (thread s t) = 0")
  case True
  note us = untimeout_step [OF inv True]
  have "TH_WAIT \<in> state (thread (untimeout t s) t)" using us(4) w by simp
  then obtain b s' where "wake_state thread_wakeup t r (untimeout t s) = Inr (Some (b, s'))" "inv_at a E s'" "wakes_one b t r (untimeout t s) s'"
    using wake_state_ok [OF us(1-3) _ wakeup_wake_ok, of r] by blast
  then show ?thesis using us(5) True i by (auto simp: clear_wait_def Let_def)
next
  case False
  note us = unwait_step [OF inv False]
  obtain b s' where "wake_state thread_wakeup t r (untimeout t (unwait t s)) = Inr (Some (b, s'))" "inv_at a E s'"
      "wakes_one b t r (untimeout t (unwait t s)) s'"
    using wake_state_ok [OF us(1-4) wakeup_wake_ok, of r] by blast
  then show ?thesis using us(6) False i by (auto simp: clear_wait_def Let_def)
qed

text \<open>Nothing happens to a thread that does not wait, or may not be interrupted.\<close>

lemma clear_wait_idle:
  assumes inv: "inv_at a E s" and "TH_WAIT \<notin> state (thread s t) \<or> io \<and> \<not> interruptible (thread s t)"
  shows "clear_wait t r io s = Inr (Some (if io \<and> \<not> interruptible (thread s t) then s else untimeout t s))"
proof (cases "io \<and> \<not> interruptible (thread s t)")
  case False
  then have w: "TH_WAIT \<notin> state (thread s t)" using assms(2) by blast
  then have "wait_event (thread s t) = 0" using inv_parts(3) [OF inv, of t] by (auto simp: st_ok_def)
  moreover have "state (thread (untimeout t s) t) = state (thread s t)" by (simp add: untimeout_frame)
  moreover have "state (thread s t) \<notin> {{TH_WAIT, TH_SUSP}, {TH_WAIT}, {TH_WAIT, TH_SWAPPED}}" using w by auto
  ultimately show ?thesis
    unfolding clear_wait_def if_not_P [OF False] using w by (simp add: wake_state_def Let_def)
qed (simp add: clear_wait_def)

lemma clear_wait_inv:
  assumes "inv_at a E s"
  shows "\<exists>s'. clear_wait t r io s = Inr (Some s') \<and> inv_at a E s' \<and> same_env s s'"
proof (cases "TH_WAIT \<notin> state (thread s t) \<or> io \<and> \<not> interruptible (thread s t)")
  case True
  have "same_env s (untimeout t s)" by (simp add: same_env_def untimeout_def upd_thread_def)
  then show ?thesis using clear_wait_idle [OF assms True] untimeout_inv [OF assms] assms by auto
next
  case False
  then show ?thesis using clear_wait_ok [OF assms] unfolding wakes_one_def by blast
qed

lemma inv_at_eq:
  assumes "inv_at a E s" and "thread t = thread s" "wait_queue t = wait_queue s" "rq t = rq s" "idle_thread t = idle_thread s"
    "next_thread t = next_thread s" "pstate t = pstate s" "idle_count t = idle_count s"
  shows "inv_at a E t"
  using assms inv_at_same [of s t] by (simp add: same_sched_def)

lemma thread_timeout_inv:
  assumes "inv_at a E s"
  shows "\<exists>s'. thread_timeout t s = Inr (Some s') \<and> inv_at a E s' \<and> same_env s s'"
proof -
  let ?s = "(upd_thread t (\<lambda>v. v\<lparr>timer_set := False\<rparr>) s)\<lparr>timeouts := remove1 t (timeouts s)\<rparr>"
  have "inv_at a E (upd_thread t (\<lambda>v. v\<lparr>timer_set := False\<rparr>) s)" by (rule inv_upd_core [OF assms]) (simp add: same_core_def)
  then have "inv_at a E ?s" by (rule inv_at_eq) simp_all
  then obtain u where "clear_wait t THREAD_TIMED_OUT False ?s = Inr (Some u)" "inv_at a E u" "same_env ?s u" using clear_wait_inv by blast
  moreover have "same_env s ?s" by (simp add: same_env_def upd_thread_def)
  ultimately show ?thesis using same_env_trans by (auto simp: thread_timeout_def)
qed

subsection \<open>Leaving the processor\<close>

lemma running_states:
  assumes "TH_RUN \<in> st" and "TH_SWAPPED \<notin> st" and "TH_IDLE \<notin> st"
  shows "st = {TH_RUN} \<or> st = {TH_RUN, TH_SUSP} \<or> st = {TH_RUN, TH_WAIT} \<or> st = {TH_RUN, TH_WAIT, TH_SUSP}"
  using assms by (simp add: flag_set_eq) blast

text \<open>The state of a thread after it has given up the processor.\<close>

definition leave :: "thread \<Rightarrow> th_flag set" where
  "leave v = (if state v = {TH_RUN} \<or> state v = {TH_RUN, TH_SUSP} \<and> \<not> interruptible v then state v else state v - {TH_RUN})"

text \<open>A thread that is not placed anywhere leaves the processor; \<open>n\<close> runs.\<close>

lemma continue_stop:
  assumes inv: "inv_at n {t} s" and t: "t \<noteq> n" "t \<noteq> idle_thread s" "t \<noteq> next_thread s" "runq (thread s t) = None"
    and st: "TH_RUN \<in> state (thread s t)" "TH_SWAPPED \<notin> state (thread s t)" "TH_IDLE \<notin> state (thread s t)"
  shows "inv_at n {} (upd_thread t (\<lambda>v. v\<lparr>state := state v - {TH_RUN}\<rparr>) s)"
proof -
  let ?v = "(thread s t)\<lparr>state := state (thread s t) - {TH_RUN}\<rparr>"
  have "st_ok ?v" using inv_parts(3) [OF inv, of t] st t(4) by (simp add: st_ok_def sw_ok_def timers_ok_def)
  moreover have "t \<noteq> 0" using inv_parts(4) [OF inv] st(1) by (cases "t = 0") (simp_all add: proc_ok_def idle_ok_def)
  ultimately have "inv_at n {} (upd_thread t (\<lambda>_. ?v) s)" using t st by (intro inv_upd [OF inv]) simp_all
  then show ?thesis by (simp add: upd_thread_def)
qed

lemma continue_setrun:
  assumes inv: "inv_at n {t} s" and t: "t \<noteq> n" "t \<noteq> next_thread s" "runq (thread s t) = None" and st: "runnable (thread s t)"
  shows "\<exists>s'. thread_setrun t False s = Inr (Some s') \<and> inv_at n {} s' \<and> same_env s s' \<and> state (thread s' t) = state (thread s t) \<and>
     interruptible (thread s' t) = interruptible (thread s t)"
  using setrun_inv [OF inv st t(3) t(1, 2), of False] by (auto simp: only_thread_def requeued_def)

lemma continue_ok:
  assumes inv: "inv_at n {t} s" and t: "t = idle_thread s \<or> t \<noteq> n" "t \<noteq> next_thread s" "runq (thread s t) = None"
    and st: "TH_RUN \<in> state (thread s t)" "TH_SWAPPED \<notin> state (thread s t)"
  shows "\<exists>s'. thread_continue t s = Inr (Some s') \<and> inv_at n {} s' \<and> same_env s s' \<and>
     (t \<noteq> idle_thread s \<and> \<not> wake_active (thread s t) \<longrightarrow> state (thread s' t) = leave (thread s t) \<and> interruptible (thread s' t) = interruptible (thread s t))"
proof (cases "t = idle_thread s")
  case True
  have "state (thread s t) = {TH_RUN, TH_IDLE}" using inv_parts(4) [OF inv] True by (simp add: proc_ok_def idle_ok_def)
  then have "thread_continue t s = Inr (Some s)" by (simp add: thread_continue_def Let_def insert_commute flag_set_eq)
  moreover have "placed n s t" using True by (simp add: placed_def)
  then have "inv_at n {} s" using inv by (auto simp: inv_at_def)
  ultimately show ?thesis using True by simp
next
  case False
  have ni: "TH_IDLE \<notin> state (thread s t)" using inv_parts(4) [OF inv] False by (auto simp: proc_ok_def idle_ok_def)
  define u where "u = upd_thread t (\<lambda>v. v\<lparr>state := state (thread s t) - {TH_RUN}\<rparr>) s"
  have tn: "t \<noteq> n" using t(1) False by simp
  have invu: "inv_at n {} u" using continue_stop [OF inv tn False t(2, 3) st ni] by (simp add: u_def upd_thread_def)
  have env: "same_env s u" by (simp add: u_def)
  have stop: "\<exists>s'. (if wake_active (thread u t) then thread_wakeup (wake_active_ev u t) (upd_thread t (\<lambda>v. v\<lparr>wake_active := False\<rparr>) u)
      else Inr (Some u)) = Inr (Some s') \<and> inv_at n {} s' \<and> same_env s s' \<and> (\<not> wake_active (thread s t) \<longrightarrow> s' = u)"
  proof (cases "wake_active (thread u t)")
    case True
    have "inv_at n {} (upd_thread t (\<lambda>v. v\<lparr>wake_active := False\<rparr>) u)" by (rule inv_upd_core [OF invu]) (simp add: same_core_def)
    then obtain s' where "thread_wakeup (wake_active_ev u t) (upd_thread t (\<lambda>v. v\<lparr>wake_active := False\<rparr>) u) = Inr (Some s')" "inv_at n {} s'"
        "same_env (upd_thread t (\<lambda>v. v\<lparr>wake_active := False\<rparr>) u) s'"
      using thread_wakeup_ok wakes_env by blast
    moreover have "wake_active (thread s t)" using True by (simp add: u_def)
    ultimately show ?thesis using True same_env_trans [OF same_env_trans [OF env same_env_upd(1)]] by auto
  qed (use invu env in simp)
  have ut: "state (thread u t) = state (thread s t) - {TH_RUN}" "interruptible (thread u t) = interruptible (thread s t)" by (simp_all add: u_def)
  have stop2: "\<exists>s'. (if wake_active (thread u t) then thread_wakeup (wake_active_ev u t) (upd_thread t (\<lambda>v. v\<lparr>wake_active := False\<rparr>) u)
      else Inr (Some u)) = Inr (Some s') \<and> inv_at n {} s' \<and> same_env s s' \<and>
      (t \<noteq> idle_thread s \<and> \<not> wake_active (thread s t) \<longrightarrow> state (thread s' t) = state (thread s t) - {TH_RUN} \<and> interruptible (thread s' t) = interruptible (thread s t))"
    using stop ut by metis
  consider "state (thread s t) = {TH_RUN} \<or> state (thread s t) = {TH_RUN, TH_SUSP} \<and> \<not> interruptible (thread s t)"
    | "state (thread s t) = {TH_RUN, TH_SUSP}" "interruptible (thread s t)"
    | "state (thread s t) = {TH_RUN, TH_WAIT} \<or> state (thread s t) = {TH_RUN, TH_WAIT, TH_SUSP} \<and> \<not> interruptible (thread s t)"
    | "state (thread s t) = {TH_RUN, TH_WAIT, TH_SUSP}" "interruptible (thread s t)"
    using running_states [OF st ni] by blast
  then show ?thesis
  proof cases
    case 1
    then have l: "leave (thread s t) = state (thread s t)" unfolding leave_def by (rule if_P)
    have r: "runnable (thread s t)" using 1 by (auto simp: runnable_def)
    have c: "\<not> (state (thread s t) = {TH_RUN, TH_SUSP} \<and> interruptible (thread s t))" "state (thread s t) = {TH_RUN, TH_SUSP} \<or> state (thread s t) = {TH_RUN}"
      using 1 by (auto simp: flag_set_eq)
    show ?thesis unfolding thread_continue_def Let_def if_not_P [OF c(1)] if_P [OF c(2)] l
      using continue_setrun [OF inv tn t(2, 3) r] by blast
  next
    case 2
    have l: "leave (thread s t) = state (thread s t) - {TH_RUN}" unfolding leave_def by (rule if_not_P) (use 2 in \<open>auto simp: flag_set_eq\<close>)
    have u: "upd_thread t (\<lambda>v. v\<lparr>state := {TH_SUSP}\<rparr>) s = u" using 2 by (simp add: u_def)
    have c: "state (thread s t) = {TH_RUN, TH_SUSP} \<and> interruptible (thread s t)" using 2 by blast
    show ?thesis unfolding thread_continue_def Let_def if_P [OF c] u l by (rule stop2)
  next
    case 3
    have l: "leave (thread s t) = state (thread s t) - {TH_RUN}" unfolding leave_def by (rule if_not_P) (use 3 in \<open>auto simp: flag_set_eq\<close>)
    have c: "\<not> (state (thread s t) = {TH_RUN, TH_SUSP} \<and> interruptible (thread s t))" "\<not> (state (thread s t) = {TH_RUN, TH_SUSP} \<or> state (thread s t) = {TH_RUN})"
        "\<not> (state (thread s t) = {TH_RUN, TH_WAIT, TH_SUSP} \<and> interruptible (thread s t))"
        "state (thread s t) = {TH_RUN, TH_WAIT, TH_SUSP} \<or> state (thread s t) = {TH_RUN, TH_WAIT}"
      using 3 by (auto simp: flag_set_eq)
    show ?thesis unfolding thread_continue_def Let_def if_not_P [OF c(1)] if_not_P [OF c(2)] if_not_P [OF c(3)] if_P [OF c(4)] l
      using invu env ut by (simp add: u_def)
  next
    case 4
    have l: "leave (thread s t) = state (thread s t) - {TH_RUN}" unfolding leave_def by (rule if_not_P) (use 4 in \<open>auto simp: flag_set_eq\<close>)
    have "state (thread s t) - {TH_RUN} = {TH_WAIT, TH_SUSP}" using 4 by auto
    then have u: "upd_thread t (\<lambda>v. v\<lparr>state := {TH_WAIT, TH_SUSP}\<rparr>) s = u" by (simp add: u_def)
    have c: "\<not> (state (thread s t) = {TH_RUN, TH_SUSP} \<and> interruptible (thread s t))" "\<not> (state (thread s t) = {TH_RUN, TH_SUSP} \<or> state (thread s t) = {TH_RUN})"
        "state (thread s t) = {TH_RUN, TH_WAIT, TH_SUSP} \<and> interruptible (thread s t)"
      using 4 by (auto simp: flag_set_eq)
    show ?thesis unfolding thread_continue_def Let_def if_not_P [OF c(1)] if_not_P [OF c(2)] if_P [OF c(3)] u l by (rule stop2)
  qed
qed

subsection \<open>Giving up the processor\<close>

lemma running_facts:
  assumes "inv_at a E s" and "pstate s = PROCESSOR_RUNNING"
  shows "next_thread s = 0" "idle_count s = 0" "a \<noteq> 0" "TH_RUN \<in> state (thread s a)" "TH_SWAPPED \<notin> state (thread s a)" "runq (thread s a) = None"
proof -
  note pr = inv_parts(4) [OF assms(1)]
  have cpu: "cpu_ok a s" and run: "run_ok (thread s a)" and "state (thread s 0) = {}" using pr by (simp_all add: proc_ok_def idle_ok_def)
  then show "next_thread s = 0" "idle_count s = 0" using assms(2) by (simp_all add: cpu_ok_def)
  show "TH_RUN \<in> state (thread s a)" "TH_SWAPPED \<notin> state (thread s a)" "runq (thread s a) = None" using run by (simp_all add: run_ok_def)
  then show "a \<noteq> 0" using \<open>state (thread s 0) = {}\<close> by (cases "a = 0") simp_all
qed

text \<open>The running thread \<open>a\<close> is replaced by \<open>n\<close> and is to be placed.\<close>

lemma inv_switch:
  assumes inv: "inv_at a {n} s" and n: "runnable (thread s n)" "runq (thread s n) = None" and p: "pstate s = PROCESSOR_RUNNING"
  shows "inv_at n {a} s"
proof -
  note ip = inv_parts [OF inv]
  have "run_ok (thread s n)" using n runnable_flags [OF n(1)] by (simp add: run_ok_def)
  moreover have "cpu_ok n s" using ip(4) p by (simp add: proc_ok_def cpu_ok_def)
  moreover have "placed n s x" if "x \<noteq> a" for x
    using ip(5) [of x] that by (cases "x = n") (simp_all add: placed_def)
  ultimately show ?thesis using ip by (simp add: inv_at_def proc_ok_def)
qed

lemma inv_switch_idle:
  assumes inv: "inv_at a {} s" and p: "pstate s = PROCESSOR_RUNNING"
  shows "inv_at (idle_thread s) {a} (s\<lparr>pstate := PROCESSOR_IDLE, idle_count := idle_count s + 1\<rparr>)"
proof -
  let ?s = "s\<lparr>pstate := PROCESSOR_IDLE, idle_count := idle_count s + 1\<rparr>"
  note ip = inv_parts [OF inv] and rf = running_facts [OF inv p]
  have "idle_ok s" "next_ok s" using ip(4) by (simp_all add: proc_ok_def)
  then have "run_ok (thread s (idle_thread s))" using inv_idle(6) [OF inv] by (simp add: idle_ok_def run_ok_def)
  moreover have "cpu_ok (idle_thread s) ?s" using rf by (simp add: cpu_ok_def)
  moreover have "wq_ok ?s = wq_ok s" "rq_ok ?s = rq_ok s" "idle_ok ?s = idle_ok s" "next_ok ?s = next_ok s"
    by (simp_all add: wq_ok_def rq_ok_def idle_ok_def next_ok_def)
  moreover have "placed (idle_thread s) ?s x" if "x \<noteq> a" for x using ip(5) [of x] that by (simp add: placed_def)
  ultimately show ?thesis using ip \<open>idle_ok s\<close> \<open>next_ok s\<close> by (simp add: inv_at_def proc_ok_def)
qed

text \<open>
  \<open>block_spec s n\<close>: the thread \<open>n\<close> is the one to run after the current thread of \<open>s\<close> gives up the processor.
\<close>

definition block_spec :: "sched \<Rightarrow> ptr \<Rightarrow> bool" where
  "block_spec s n \<longleftrightarrow>
    (if \<exists>x. runq (thread s x) = Some Proc_runq then front Proc_runq s n
     else if \<exists>x. runq (thread s x) = Some Pset_runq then front Pset_runq s n
     else if state (thread s (active_thread s)) = {TH_RUN} then n = active_thread s
     else n = idle_thread s)"

lemma rcount_pos:
  assumes "inv_at a E s"
  shows "rcount (rq s q) > 0 \<longleftrightarrow> (\<exists>x. runq (thread s x) = Some q)" "rcount (rq s q) \<ge> 0"
proof -
  have h: "hint_ok (rq s q)" and m: "\<And>x i. x \<in> set (rqs (rq s q) i) \<longleftrightarrow> runq (thread s x) = Some q \<and> i = whichq (thread s x)"
    using inv_parts(2) [OF assms] by (auto simp: rq_ok_def)
  show "rcount (rq s q) \<ge> 0" using h sum_nonneg [of "{..<NRQS}" "\<lambda>i. int (length (rqs (rq s q) i))"] by (simp add: hint_ok_def)
  show "rcount (rq s q) > 0 \<longleftrightarrow> (\<exists>x. runq (thread s x) = Some q)"
  proof
    assume "rcount (rq s q) > 0"
    then obtain i where "rqs (rq s q) i \<noteq> []" using hint_nonempty [OF h] by blast
    then have "hd (rqs (rq s q) i) \<in> set (rqs (rq s q) i)" by simp
    then show "\<exists>x. runq (thread s x) = Some q" using m by blast
  next
    assume "\<exists>x. runq (thread s x) = Some q"
    then obtain x where "x \<in> set (rqs (rq s q) (whichq (thread s x)))" using m by blast
    then show "rcount (rq s q) > 0" using hint_empty [OF h, of "whichq (thread s x)"] by (cases "rcount (rq s q) > 0") auto
  qed
qed

definition chosen :: "ptr \<Rightarrow> ptr \<Rightarrow> sched \<Rightarrow> sched \<Rightarrow> bool" where
  "chosen a n s s' \<longleftrightarrow> inv_at n {a} s' \<and> same_env s s' \<and> (n \<noteq> a \<or> a = idle_thread s) \<and> thread s' a = thread s a \<and> next_thread s' = 0"

lemma chosen_took:
  assumes inv: "inv_at a {} s" and p: "pstate s = PROCESSOR_RUNNING" and t: "inv_at a {n} s'" "took n s s'"
  shows "chosen a n s s'"
proof -
  note rf = running_facts [OF inv p]
  have tk: "same_env s s'" "\<And>x. x \<noteq> n \<Longrightarrow> thread s' x = thread s x" "runq (thread s n) \<noteq> None" "thread s' n = (thread s n)\<lparr>runq := None\<rparr>"
      "next_thread s' = next_thread s" "pstate s' = pstate s"
    using t(2) by (simp_all add: took_def only_thread_def)
  have na: "n \<noteq> a" using tk(3) rf(6) by (cases "n = a") simp_all
  have "runnable (thread s n)" using tk(3) inv_parts(3) [OF inv, of n] by (simp add: st_ok_def)
  then have "runnable (thread s' n)" "runq (thread s' n) = None" using tk(4) by (simp_all add: runnable_def)
  then have "inv_at n {a} s'" using inv_switch [OF t(1)] p tk(6) by simp
  then show ?thesis using tk na rf(1) by (simp add: chosen_def)
qed

lemma chosen_idle:
  assumes inv: "inv_at a {} s" and p: "pstate s = PROCESSOR_RUNNING" and c: "\<not> rcount (rq s Pset_runq) > 0"
  shows "\<exists>s'. choose_pset_thread s = Inr (Some (idle_thread s, s')) \<and> chosen a (idle_thread s) s s'"
proof -
  let ?s = "s\<lparr>pstate := PROCESSOR_IDLE, idle_count := idle_count s + 1\<rparr>"
  have "choose_pset_thread s = Inr (Some (idle_thread s, ?s))" using p c by (simp add: choose_pset_thread_def)
  moreover have "chosen a (idle_thread s) s ?s"
    using inv_switch_idle [OF inv p] running_facts [OF inv p] by (simp add: chosen_def same_env_def)
  ultimately show ?thesis by blast
qed

lemma chosen_eq:
  assumes "chosen a n s s'" and "thread t = thread s'" "wait_queue t = wait_queue s'" "rq t = rq s'" "idle_thread t = idle_thread s'"
    "next_thread t = next_thread s'" "pstate t = pstate s'" "idle_count t = idle_count s'" "same_env s' t"
  shows "chosen a n s t"
  using assms inv_at_eq [of n "{a}" s' t] same_env_trans [of s s' t] by (simp add: chosen_def)

text \<open>The hint of the set's queue may be stale; then the search starts one below it.\<close>

lemma choose_below:
  assumes inv: "inv_at a E s" and c: "rcount (rq s Pset_runq) > 0" and e: "rqs (rq s Pset_runq) (nat (high (rq s Pset_runq))) = []"
  shows "\<exists>t s'. choose_pset_thread (upd_rq Pset_runq (\<lambda>r. r\<lparr>high := high r - 1\<rparr>) s) = Inr (Some (t, s')) \<and> front Pset_runq s t \<and>
     inv_at a (insert t E) s' \<and> took t s s'"
proof -
  let ?h = "high (rq s Pset_runq)" and ?s = "upd_rq Pset_runq (\<lambda>r. r\<lparr>high := high r - 1\<rparr>) s"
  have h: "hint_ok (rq s Pset_runq)" using inv_parts(2) [OF inv] by (simp add: rq_ok_def)
  obtain k where k: "int k \<le> ?h" "rqs (rq s Pset_runq) k \<noteq> []" using hint_nonempty [OF h c] by blast
  then have "k \<noteq> nat ?h" using e by auto
  then have h1: "?h \<ge> 1" using k(1) by linarith
  have above: "rqs (rq s Pset_runq) j = []" if "nat (?h - 1) < j" for j
  proof (cases "j = nat ?h")
    case False
    then have "?h < int j" using that h1 by linarith
    then show ?thesis using h by (simp add: hint_ok_def)
  qed (simp add: e)
  have "nat (?h - 1) < NRQS" using h h1 by (simp add: hint_ok_def nat_less_iff)
  then have "inv_at a E (upd_rq Pset_runq (\<lambda>r. r\<lparr>high := int (nat (?h - 1))\<rparr>) s)" using inv_high [OF inv above] by blast
  moreover have "upd_rq Pset_runq (\<lambda>r. r\<lparr>high := int (nat (?h - 1))\<rparr>) s = ?s" using h1 by (simp add: upd_rq_def)
  ultimately have "inv_at a E ?s" by simp
  moreover have "rcount (rq ?s Pset_runq) > 0" using c by simp
  ultimately obtain t s' where t: "choose_pset_thread ?s = Inr (Some (t, s'))" "front Pset_runq ?s t" "inv_at a (insert t E) s'" "took t ?s s'"
    using choose_pset_ok by blast
  have "front Pset_runq s t" using t(2) by (simp add: front_def)
  moreover have "took t s s'" using t(4) same_env_trans [of s ?s s'] by (simp add: took_def only_thread_def)
  ultimately show ?thesis using t(1, 3) by blast
qed

lemma take_top:
  assumes inv: "inv_at a E s" and c: "rcount (rq s Pset_runq) > 0" and i: "rqs (rq s Pset_runq) (nat (high (rq s Pset_runq))) = t # ts"
  shows "\<exists>i'. rq_take Pset_runq (nat (high (rq s Pset_runq))) s = (t, snd (rem_runq t s)) \<and>
     rq_lower (nat (high (rq s Pset_runq))) (snd (rem_runq t s)) = Some i' \<and> front Pset_runq s t \<and>
     inv_at a (insert t E) (upd_rq Pset_runq (\<lambda>r. r\<lparr>high := int i'\<rparr>) (snd (rem_runq t s))) \<and>
     took t s (upd_rq Pset_runq (\<lambda>r. r\<lparr>high := int i'\<rparr>) (snd (rem_runq t s)))"
proof -
  have h: "hint_ok (rq s Pset_runq)" using inv_parts(2) [OF inv] by (simp add: rq_ok_def)
  then have "nat (high (rq s Pset_runq)) < NRQS" by (simp add: hint_ok_def nat_less_iff)
  moreover have "rqs (rq s Pset_runq) j = []" if "nat (high (rq s Pset_runq)) < j" for j using h that by (simp add: hint_ok_def)
  ultimately show ?thesis using take_pset [OF inv i] rq_take_eq(1) [OF inv i] by blast
qed

lemma block_choice_ok:
  assumes inv: "inv_at a {} s" and p: "pstate s = PROCESSOR_RUNNING" and a: "a = active_thread s"
  shows "block_choice a s = Inr (Some (None, s)) \<and> block_spec s a \<and> state (thread s a) = {TH_RUN} \<or>
     (\<exists>n s'. block_choice a s = Inr (Some (Some n, s')) \<and> block_spec s n \<and> chosen a n s s')"
proof -
  note pos = rcount_pos(1) [OF inv] and nn = rcount_pos(2) [OF inv]
  define set_q :: "ptr \<Rightarrow> sched \<Rightarrow> sched" where "set_q = (\<lambda>n s. s\<lparr>quantum := if policy (thread s n) \<noteq> POLICY_FIXEDPRI then set_quantum s else sched_data (thread s n)\<rparr>)"
  have quant: "chosen a n s (set_q n s')" if "chosen a n s s'" for n s'
    using that by (rule chosen_eq) (simp_all add: set_q_def same_env_def)
  consider (proc) "rcount (rq s Proc_runq) > 0" | (empty) "\<not> rcount (rq s Proc_runq) > 0" "rcount (rq s Pset_runq) = 0"
    | (pset) "\<not> rcount (rq s Proc_runq) > 0" "rcount (rq s Pset_runq) > 0" "rcount (rq s Pset_runq) \<noteq> 0"
    using nn [of Pset_runq] by force
  then show ?thesis
  proof cases
    case proc
    then obtain t s' where t: "choose_thread s = Inr (Some (t, s'))" "front Proc_runq s t" "inv_at a {t} s'" "took t s s'"
      using choose_proc_ok [OF inv] by blast
    have "block_choice a s = Inr (Some (Some t, s'\<lparr>quantum := min_quantum s'\<rparr>))" using proc t(1) by (simp add: block_choice_def)
    moreover have "chosen a t s (s'\<lparr>quantum := min_quantum s'\<rparr>)"
      by (rule chosen_eq [OF chosen_took [OF inv p t(3, 4)]]) (simp_all add: same_env_def)
    moreover have "block_spec s t" using t(2) proc pos by (simp add: block_spec_def)
    ultimately show ?thesis by blast
  next
    case empty
    then have none: "\<not> (\<exists>x. runq (thread s x) = Some Proc_runq)" "\<not> (\<exists>x. runq (thread s x) = Some Pset_runq)"
      using pos [of Proc_runq] pos [of Pset_runq] by auto
    show ?thesis
    proof (cases "state (thread s a) = {TH_RUN}")
      case True
      then have "block_choice a s = Inr (Some (None, s))" using empty by (simp add: block_choice_def)
      moreover have "block_spec s a" unfolding block_spec_def if_not_P [OF none(1)] if_not_P [OF none(2)] using True a by simp
      ultimately show ?thesis using True by blast
    next
      case False
      obtain s' where s': "choose_pset_thread s = Inr (Some (idle_thread s, s'))" "chosen a (idle_thread s) s s'"
        using chosen_idle [OF inv p] empty by auto
      have "block_choice a s = Inr (Some (Some (idle_thread s), set_q (idle_thread s) s'))"
        using empty False s'(1) by (simp add: block_choice_def set_q_def)
      moreover have "block_spec s (idle_thread s)" unfolding block_spec_def if_not_P [OF none(1)] if_not_P [OF none(2)] using False a by simp
      ultimately show ?thesis using quant [OF s'(2)] by blast
    qed
  next
    case pset
    then have q: "\<not> (\<exists>x. runq (thread s x) = Some Proc_runq)" "\<exists>x. runq (thread s x) = Some Pset_runq"
      using pos [of Proc_runq] pos [of Pset_runq] by auto
    have spec: "block_spec s t" if "front Pset_runq s t" for t
      unfolding block_spec_def if_not_P [OF q(1)] if_P [OF q(2)] by (rule that)
    show ?thesis
    proof (cases "rqs (rq s Pset_runq) (nat (high (rq s Pset_runq)))")
      case Nil
      then obtain t s' where t: "choose_pset_thread (upd_rq Pset_runq (\<lambda>r. r\<lparr>high := high r - 1\<rparr>) s) = Inr (Some (t, s'))"
          "front Pset_runq s t" "inv_at a {t} s'" "took t s s'"
        using choose_below [OF inv pset(2)] by blast
      have "block_choice a s = Inr (Some (Some t, set_q t s'))" using pset Nil t(1) by (simp add: block_choice_def set_q_def Let_def)
      then show ?thesis using spec [OF t(2)] quant [OF chosen_took [OF inv p t(3, 4)]] by blast
    next
      case (Cons t ts)
      then obtain i' where i': "rq_take Pset_runq (nat (high (rq s Pset_runq))) s = (t, snd (rem_runq t s))"
          "rq_lower (nat (high (rq s Pset_runq))) (snd (rem_runq t s)) = Some i'" "front Pset_runq s t"
          "inv_at a {t} (upd_rq Pset_runq (\<lambda>r. r\<lparr>high := int i'\<rparr>) (snd (rem_runq t s)))"
          "took t s (upd_rq Pset_runq (\<lambda>r. r\<lparr>high := int i'\<rparr>) (snd (rem_runq t s)))"
        using take_top [OF inv pset(2)] by blast
      have "block_choice a s = Inr (Some (Some t, set_q t (upd_rq Pset_runq (\<lambda>r. r\<lparr>high := int i'\<rparr>) (snd (rem_runq t s)))))"
        using pset Cons i'(1, 2) by (simp add: block_choice_def set_q_def Let_def)
      then show ?thesis using spec [OF i'(3)] quant [OF chosen_took [OF inv p i'(4, 5)]] by blast
    qed
  qed
qed

end
