(* ===== verification/SchedSafe.thy ===== *)
theory SchedSafe
  imports SchedOps
begin

text \<open>
  The reachable states of the scheduler and what holds of them.
\<close>

subsection \<open>Context switches\<close>

lemma switch_ok:
  assumes inv: "inv_at n {a} s" and a: "n \<noteq> a \<or> a = idle_thread s" "next_thread s = 0" "a \<noteq> 0" and r: "run_ok (thread s a)"
  shows "\<exists>u. switch_context a n (upd_thread n (\<lambda>v. v\<lparr>interruptible := True\<rparr>) s) = Inr (Some u) \<and> sched_inv u \<and> active_thread u = n \<and>
     (a \<noteq> idle_thread s \<and> \<not> wake_active (thread s a) \<longrightarrow> state (thread u a) = leave (thread s a) \<and> interruptible (thread u a) = interruptible (thread s a))"
proof -
  let ?s = "upd_thread n (\<lambda>v. v\<lparr>interruptible := True\<rparr>) s"
  have "inv_at n {a} ?s" by (rule inv_upd_core [OF inv]) (simp add: same_core_def)
  moreover have "run_ok (thread ?s a)" using r by (cases "a = n") (simp_all add: run_ok_def)
  ultimately obtain u where u: "thread_continue a ?s = Inr (Some u)" "inv_at n {} u"
      "a \<noteq> idle_thread s \<and> \<not> wake_active (thread ?s a) \<longrightarrow> state (thread u a) = leave (thread ?s a) \<and> interruptible (thread u a) = interruptible (thread ?s a)"
    using continue_ok [of n a ?s] a by (auto simp: run_ok_def)
  have "a \<noteq> idle_thread s \<Longrightarrow> thread ?s a = thread s a" using a(1) by auto
  moreover have "inv_at n {} (u\<lparr>active_thread := n\<rparr>)" using u(2) by (rule inv_at_eq) simp_all
  ultimately show ?thesis using u(1, 3) by (auto simp: switch_context_def sched_inv_def)
qed

lemma block_ok:
  assumes inv: "sched_inv s" and p: "pstate s = PROCESSOR_RUNNING"
  shows "\<exists>u. thread_block s = Inr (Some u) \<and> sched_inv u \<and> block_spec s (active_thread u) \<and>
     (active_thread s \<noteq> idle_thread s \<and> \<not> wake_active (thread s (active_thread s)) \<longrightarrow>
       (state (thread u (active_thread s)) = leave (thread s (active_thread s)) \<and> interruptible (thread u (active_thread s)) = interruptible (thread s (active_thread s))))"
proof -
  let ?a = "active_thread s" and ?s = "s\<lparr>first_quantum := True\<rparr>"
  have inv1: "inv_at ?a {} ?s" using inv inv_at_eq [of ?a "{}" s ?s] by (simp add: sched_inv_def)
  have p1: "pstate ?s = PROCESSOR_RUNNING" using p by simp
  have spec: "block_spec ?s = block_spec s" by (simp add: block_spec_def front_def fun_eq_iff)
  note rf = running_facts [OF inv1 p1]
  consider "block_choice ?a ?s = Inr (Some (None, ?s))" "block_spec ?s ?a" "state (thread s ?a) = {TH_RUN}"
    | n s' where "block_choice ?a ?s = Inr (Some (Some n, s'))" "block_spec ?s n" "chosen ?a n ?s s'"
    using block_choice_ok [OF inv1 p1] by auto
  then show ?thesis
  proof cases
    case 1
    let ?t = "?s\<lparr>same_thread_count := same_thread_count ?s + 1\<rparr>"
    have inv2: "inv_at ?a {} ?t" using inv1 by (rule inv_at_eq) simp_all
    have "timers_ok (thread ?t ?a)" using inv_parts(3) [OF inv2] by (simp add: st_ok_def)
    then obtain w where w: "(if sched_stamp (thread ?t ?a) \<noteq> sched_tick ?t then update_priority ?a ?t else Inr (Some ?t)) = Inr (Some (upd_thread ?a (\<lambda>_. w) ?t))"
        "repri (thread ?t ?a) w" by (rule stamp_step)
    have "inv_at ?a {} (upd_thread ?a (\<lambda>_. w) ?t)" using rf(6) by (intro inv_repri [OF inv2 _ w(2)]) simp
    then have "sched_inv (upd_thread ?a (\<lambda>_. w) ?t)" by (simp add: sched_inv_def)
    moreover have "thread_block s = Inr (Some (upd_thread ?a (\<lambda>_. w) ?t))"
      using 1(1) w(1) by (simp add: thread_block_def Let_def)
    moreover have "leave (thread s ?a) = state (thread s ?a)" using 1(3) by (simp add: leave_def)
    moreover have "state w = state (thread s ?a)" "interruptible w = interruptible (thread s ?a)" using w(2) by (simp_all add: repri_def requeued_def)
    ultimately show ?thesis using 1(2) spec by simp
  next
    case 2
    have "run_ok (thread s' ?a)" using 2(3) rf by (simp add: chosen_def run_ok_def)
    moreover have "inv_at n {?a} s'" "n \<noteq> ?a \<or> ?a = idle_thread s'" "next_thread s' = 0" using 2(3) by (auto simp: chosen_def same_env_def)
    ultimately obtain u where "switch_context ?a n (upd_thread n (\<lambda>v. v\<lparr>interruptible := True\<rparr>) s') = Inr (Some u)" "sched_inv u" "active_thread u = n"
        "?a \<noteq> idle_thread s' \<and> \<not> wake_active (thread s' ?a) \<longrightarrow> state (thread u ?a) = leave (thread s' ?a) \<and> interruptible (thread u ?a) = interruptible (thread s' ?a)"
      using switch_ok rf(3) by blast
    moreover have "thread s' ?a = thread s ?a" "idle_thread s' = idle_thread s" using 2(3) by (simp_all add: chosen_def same_env_def)
    ultimately show ?thesis using 2(1, 2) spec by (simp add: thread_block_def Let_def)
  qed
qed

text \<open>The idle thread: it runs the thread dispatched to it, or gives up the processor.\<close>

lemma dispatch_ok:
  assumes inv: "sched_inv s" and p: "pstate s = PROCESSOR_DISPATCHING"
  shows "\<exists>u. idle_turn s = Inr (Some u) \<and> sched_inv u \<and> active_thread u = next_thread s"
proof -
  let ?n = "next_thread s" and ?a = "active_thread s"
  define t where "t = s\<lparr>next_thread := 0, pstate := PROCESSOR_RUNNING,
     quantum := if policy (thread s ?n) \<noteq> POLICY_FIXEDPRI then set_quantum s else sched_data (thread s ?n), first_quantum := True\<rparr>"
  have inv1: "inv_at ?a {} s" using inv by (simp add: sched_inv_def)
  note ip = inv_parts [OF inv1]
  have pr: "idle_ok s" "cpu_ok ?a s" "run_ok (thread s ?a)" "next_ok s" using ip(4) by (simp_all add: proc_ok_def)
  have n: "?n \<noteq> 0" "?a = idle_thread s" "idle_count s = 0" using pr(2) p by (simp_all add: cpu_ok_def)
  have run: "runnable (thread s ?n)" "runq (thread s ?n) = None" using pr(4) n(1) by (simp_all add: next_ok_def)
  have tt: "thread t = thread s" "next_thread t = 0" "pstate t = PROCESSOR_RUNNING" "idle_count t = idle_count s"
      "active_thread t = ?a" "idle_thread t = idle_thread s" by (simp_all add: t_def)
  have "wq_ok t = wq_ok s" "rq_ok t = rq_ok s" "idle_ok t = idle_ok s" by (simp_all add: t_def wq_ok_def rq_ok_def idle_ok_def)
  moreover have "cpu_ok ?a t" "next_ok t" using tt n(3) by (simp_all add: cpu_ok_def next_ok_def)
  moreover have "placed ?a t x" if "x \<noteq> ?n" for x using ip(5) [of x] that tt by (simp add: placed_def) blast
  ultimately have "inv_at ?a {?n} t" using ip pr tt(1) by (simp add: inv_at_def proc_ok_def)
  from inv_switch [OF this] have inv2: "inv_at ?n {?a} t" using run tt(1, 3) by simp
  have a0: "?a \<noteq> 0" using n(2) pr(1) by (simp add: idle_ok_def)
  have "\<exists>u. switch_context ?a ?n (upd_thread ?n (\<lambda>v. v\<lparr>interruptible := True\<rparr>) t) = Inr (Some u) \<and> sched_inv u \<and> active_thread u = ?n"
    using switch_ok [OF inv2] n(2) tt a0 pr(3) by auto
  moreover have "idle_turn s = switch_context ?a ?n (upd_thread ?n (\<lambda>v. v\<lparr>interruptible := True\<rparr>) t)"
    using p by (simp add: idle_turn_def thread_run_def t_def [symmetric] Let_def tt)
  ultimately show ?thesis by simp
qed

lemma idle_block_ok:
  assumes inv: "sched_inv s" and p: "pstate s = PROCESSOR_IDLE"
  shows "\<exists>u. idle_turn s = Inr (Some u) \<and> sched_inv u"
proof -
  let ?a = "active_thread s"
  define t where "t = s\<lparr>idle_count := idle_count s - 1, pstate := PROCESSOR_RUNNING\<rparr>"
  have inv1: "inv_at ?a {} s" using inv by (simp add: sched_inv_def)
  note ip = inv_parts [OF inv1]
  have pr: "idle_ok s" "cpu_ok ?a s" "run_ok (thread s ?a)" "next_ok s" using ip(4) by (simp_all add: proc_ok_def)
  have "wq_ok t = wq_ok s" "rq_ok t = rq_ok s" "idle_ok t = idle_ok s" "next_ok t = next_ok s" "placed ?a t = placed ?a s"
    by (simp_all add: t_def wq_ok_def rq_ok_def idle_ok_def next_ok_def placed_def fun_eq_iff)
  moreover have "cpu_ok ?a t" using pr(2) p by (simp add: t_def cpu_ok_def)
  ultimately have "inv_at ?a {} t" using ip pr by (simp add: inv_at_def proc_ok_def t_def)
  then have "sched_inv t" "pstate t = PROCESSOR_RUNNING" by (simp_all add: sched_inv_def t_def)
  then show ?thesis using block_ok [of t] p by (auto simp: idle_turn_def t_def)
qed

subsection \<open>Waiting\<close>

lemma assert_wait_ok:
  assumes inv: "sched_inv s" and p: "pstate s = PROCESSOR_RUNNING" "active_thread s \<noteq> idle_thread s" and w: "wait_event (thread s (active_thread s)) = 0"
  shows "\<exists>u. assert_wait event intr s = Inr u \<and> sched_inv u \<and> pstate u = PROCESSOR_RUNNING \<and> active_thread u = active_thread s"
proof -
  let ?a = "active_thread s" and ?v = "thread s (active_thread s)"
  have inv1: "inv_at ?a {} s" using inv by (simp add: sched_inv_def)
  note ip = inv_parts [OF inv1] and rf = running_facts [OF inv1 p(1)]
  let ?w = "?v\<lparr>state := insert TH_WAIT (state ?v), interruptible := intr\<rparr>"
  have "st_ok ?w" using ip(3) [of ?a] rf(5, 6) w by (simp add: st_ok_def sw_ok_def timers_ok_def)
  then have inv2: "inv_at ?a {} (upd_thread ?a (\<lambda>_. ?w) s)"
    using rf p(2) by (intro inv_upd [OF inv1]) simp_all
  show ?thesis
  proof (cases "event = 0")
    case True
    then have "assert_wait event intr s = Inr (upd_thread ?a (\<lambda>_. ?w) s)" using w by (simp add: assert_wait_def upd_thread_def Let_def)
    then show ?thesis using inv2 p(1) by (simp add: sched_inv_def)
  next
    case False
    let ?s = "upd_thread ?a (\<lambda>_. ?w) s" and ?i = "wait_hash event"
    define u where "u = upd_thread ?a (\<lambda>v. v\<lparr>wait_event := event, state := insert TH_WAIT (state v), interruptible := intr\<rparr>)
      (s\<lparr>wait_queue := (wait_queue s)(?i := wait_queue s ?i @ [?a])\<rparr>)"
    have th: "thread u = (thread s)(?a := ?v\<lparr>wait_event := event, state := insert TH_WAIT (state ?v), interruptible := intr\<rparr>)" by (simp add: u_def)
    have wq: "wait_queue u = (wait_queue s)(?i := wait_queue s ?i @ [?a])" by (simp add: u_def)
    have m: "x \<in> set (wait_queue s j) \<longleftrightarrow> wait_event (thread s x) \<noteq> 0 \<and> j = wait_hash (wait_event (thread s x))" "distinct (wait_queue s j)" for x j
      using ip(1) by (auto simp: wq_ok_def)
    have na: "?a \<notin> set (wait_queue s j)" for j using m(1) w by simp
    have "wq_ok u"
      unfolding wq_ok_def
    proof (intro conjI allI)
      show "distinct (wait_queue u j)" for j using m(2) na by (simp add: wq)
      show "x \<in> set (wait_queue u j) \<longleftrightarrow> wait_event (thread u x) \<noteq> 0 \<and> j = wait_hash (wait_event (thread u x))" for j x
        using na False by (cases "x = ?a"; cases "j = ?i") (simp_all add: wq th m(1))
    qed
    moreover have "same_places ?s u" by (simp add: same_places_def u_def)
    then have "rq_ok u" "proc_ok ?a u" "placed ?a u x" for x
      using inv_parts(2, 4) [OF inv2] inv_parts(5) [OF inv2, of x] by (simp_all add: places_cong)
    moreover have "st_ok (thread u x)" for x
    proof (cases "x = ?a")
      case True
      then show ?thesis using ip(3) [of ?a] rf(5, 6) by (simp add: th st_ok_def sw_ok_def timers_ok_def)
    qed (use ip(3) [of x] in \<open>simp add: th\<close>)
    ultimately have "inv_at ?a {} u" by (simp add: inv_at_def)
    moreover have "assert_wait event intr s = Inr u" using w False by (simp add: assert_wait_def u_def Let_def)
    ultimately show ?thesis using p(1) by (simp add: sched_inv_def u_def)
  qed
qed

lemma thread_sleep_ok:
  assumes "sched_inv s" and "pstate s = PROCESSOR_RUNNING" "active_thread s \<noteq> idle_thread s" and "wait_event (thread s (active_thread s)) = 0"
  shows "\<exists>u. thread_sleep event intr s = Inr (Some u) \<and> sched_inv u"
proof -
  obtain t where "assert_wait event intr s = Inr t" "sched_inv t" "pstate t = PROCESSOR_RUNNING" using assert_wait_ok [OF assms] by blast
  then show ?thesis using block_ok [of t] by (auto simp: thread_sleep_def kbind_def)
qed

lemma sched_inv_core: "sched_inv s \<Longrightarrow> same_core (thread s t) (f (thread s t)) \<Longrightarrow> sched_inv (upd_thread t f s)"
  unfolding sched_inv_def by (simp add: inv_upd_core)

lemma set_timeout_inv: "sched_inv s \<Longrightarrow> sched_inv (thread_set_timeout s)"
proof -
  let ?a = "active_thread s"
  assume inv: "sched_inv s"
  then have "inv_at ?a {} (upd_thread ?a (\<lambda>v. v\<lparr>timer_set := True\<rparr>) s)"
    unfolding sched_inv_def by (rule inv_upd_core) (simp add: same_core_def)
  then have "inv_at ?a {} ((upd_thread ?a (\<lambda>v. v\<lparr>timer_set := True\<rparr>) s)\<lparr>timeouts := timeouts s @ [?a]\<rparr>)"
    by (rule inv_at_eq) simp_all
  then show ?thesis using inv by (simp add: thread_set_timeout_def sched_inv_def Let_def)
qed

subsection \<open>Priorities\<close>

lemma set_pri_ok:
  assumes inv: "inv_at a {} s"
  shows "\<exists>u. set_pri t pri s = Inr (Some u) \<and> inv_at a {} u \<and> same_env s u"
proof (cases "runq (thread s t)")
  case None
  let ?v = "(thread s t)\<lparr>sched_pri := pri\<rparr>"
  have "inv_at a {} (upd_thread t (\<lambda>_. ?v) s)" by (rule inv_repri [OF inv None]) (simp add: repri_def requeued_def)
  then show ?thesis using None by (simp add: set_pri_def rem_runq_def upd_thread_def same_env_def)
next
  case (Some q)
  let ?s = "snd (rem_runq t s)"
  let ?v = "(thread ?s t)\<lparr>sched_pri := pri\<rparr>"
  note fr = rem_runq_frame [OF Some] and ip = inv_parts [OF inv]
  have run: "runnable (thread s t)" using ip(3) [of t] Some by (simp add: st_ok_def)
  have pr: "run_ok (thread s a)" "next_ok s" using ip(4) by (simp_all add: proc_ok_def)
  have "t \<noteq> 0" using inv_idle(4) [OF inv, of 0] run by (cases "t = 0") simp_all
  then have ne: "t \<noteq> a" "t \<noteq> next_thread s" using pr Some by (auto simp: run_ok_def next_ok_def)
  have "inv_at a {t} ?s" using rem_runq_inv [OF inv Some] by simp
  then have "inv_at a {t} (upd_thread t (\<lambda>_. ?v) ?s)" by (rule inv_repri) (simp_all add: fr repri_def requeued_def)
  moreover have "runnable ?v" using run by (simp add: fr runnable_def)
  ultimately obtain u where u: "thread_setrun t True (upd_thread t (\<lambda>_. ?v) ?s) = Inr (Some u)" "inv_at a ({t} - {t}) u"
      "only_thread t (upd_thread t (\<lambda>_. ?v) ?s) u"
    using setrun_inv [of a "{t}" "upd_thread t (\<lambda>_. ?v) ?s" t True] ne by (auto simp: fr)
  have "set_pri t pri s = Inr (Some u)" using u(1) fr(1) by (simp add: set_pri_def split_beta Let_def upd_thread_def)
  moreover have "same_env s u" using fr(2) u(3) by (auto simp: only_thread_def same_env_def upd_thread_def)
  ultimately show ?thesis using u(2) by simp
qed

lemma compute_priority_ok:
  assumes inv: "inv_at a {} s"
  shows "\<exists>u. compute_priority t s = Inr (Some u) \<and> inv_at a {} u \<and> same_env s u"
proof -
  have "inv_at a {} (upd_thread t (\<lambda>v. v\<lparr>depress_priority := x\<rparr>) s)" for x
    by (rule inv_upd_core [OF inv]) (simp add: same_core_def)
  then show ?thesis using set_pri_ok [OF inv, of t] by (auto simp: compute_priority_def Let_def)
qed

lemma compute_my_priority_inv:
  assumes "sched_inv s"
  shows "sched_inv (compute_my_priority (active_thread s) s)"
proof -
  let ?a = "active_thread s"
  have inv: "inv_at ?a {} s" using assms by (simp add: sched_inv_def)
  have "runq (thread s ?a) = None" using inv_parts(4) [OF inv] by (simp add: proc_ok_def run_ok_def)
  then have "inv_at ?a {} (upd_thread ?a (\<lambda>_. (thread s ?a)\<lparr>sched_pri := do_priority_computation (thread s ?a)\<rparr>) s)"
    by (intro inv_repri [OF inv]) (simp_all add: repri_def requeued_def)
  then show ?thesis by (simp add: compute_my_priority_def sched_inv_def upd_thread_def)
qed

subsection \<open>Suspension\<close>

text \<open>A change of the flag \<open>TH_SUSP\<close> moves no thread.\<close>

lemma runnable_susp: "TH_IDLE \<notin> state v \<Longrightarrow> runnable v \<longleftrightarrow> TH_RUN \<in> state v \<and> TH_WAIT \<notin> state v \<and> TH_SWAPPED \<notin> state v"
  by (simp add: runnable_def flag_set_eq) blast

lemma inv_susp:
  assumes inv: "inv_at a {} s" and t: "t \<noteq> 0" "t \<noteq> idle_thread s" and v: "requeued (thread s t) (v\<lparr>state := state (thread s t), suspend_count := suspend_count (thread s t)\<rparr>)"
      "runq v = runq (thread s t)" "sched_pri v = sched_pri (thread s t)"
    and st: "state v - {TH_SUSP} = state (thread s t) - {TH_SUSP}"
  shows "inv_at a {} (upd_thread t (\<lambda>_. v) s)"
proof -
  note ip = inv_parts [OF inv]
  have f: "x \<in> state v \<longleftrightarrow> x \<in> state (thread s t)" if "x \<noteq> TH_SUSP" for x using st that by blast
  have pr: "idle_ok s" "run_ok (thread s a)" "next_ok s" using ip(4) by (simp_all add: proc_ok_def)
  have ni: "TH_IDLE \<notin> state (thread s t)" using pr(1) t(2) by (auto simp: idle_ok_def)
  have rn: "runnable v \<longleftrightarrow> runnable (thread s t)" using runnable_susp [of v] runnable_susp [OF ni] ni f by simp
  have e: "wait_event v = wait_event (thread s t)" "swap_state v = swap_state (thread s t)" "timers_ok v = timers_ok (thread s t)" "whichq v = whichq (thread s t)"
    using v by (simp_all add: requeued_def timers_ok_def whichq_def)
  have "sw_ok (state v) (swap_state v) = sw_ok (state (thread s t)) (swap_state (thread s t))" using f e(2) by (simp add: sw_ok_def)
  then have ok: "st_ok v" using ip(3) [of t] e rn f v(2) by (simp add: st_ok_def)
  show ?thesis
  proof (rule inv_upd [OF inv e(1) v(2) e(4) ok])
    show "t = a \<Longrightarrow> TH_RUN \<in> state v \<and> TH_SWAPPED \<notin> state v" using pr(2) f by (simp add: run_ok_def)
    show "t = next_thread s \<Longrightarrow> t \<noteq> 0 \<Longrightarrow> runnable v" using pr(3) rn by (simp add: next_ok_def)
    show "t = a \<or> runq v \<noteq> None \<or> t = next_thread s" if "TH_RUN \<in> state v" "TH_SWAPPED \<notin> state v" "t \<noteq> idle_thread s"
      using ip(5) [of t] that f v(2) by (simp add: placed_def)
  qed (use t ni f in simp_all)
qed

lemma hold_inv:
  assumes inv: "inv_at a {} s" and t: "t \<noteq> 0" "t \<noteq> idle_thread s"
  shows "inv_at a {} (thread_hold t s)"
proof -
  let ?v = "(thread s t)\<lparr>suspend_count := suspend_count (thread s t) + 1, state := insert TH_SUSP (state (thread s t))\<rparr>"
  have "inv_at a {} (upd_thread t (\<lambda>_. ?v) s)" by (rule inv_susp [OF inv t]) (simp_all add: requeued_def)
  then show ?thesis by (simp add: thread_hold_def upd_thread_def)
qed

lemma flags_none: "st \<inter> {TH_WAIT, TH_RUN, TH_SWAPPED} = {} \<longleftrightarrow> TH_WAIT \<notin> st \<and> TH_RUN \<notin> st \<and> TH_SWAPPED \<notin> st"
  "st \<inter> {TH_WAIT, TH_RUN, TH_SWAPPED} = {TH_SWAPPED} \<longleftrightarrow> TH_WAIT \<notin> st \<and> TH_RUN \<notin> st \<and> TH_SWAPPED \<in> st"
  by (simp_all add: flag_set_eq)

lemma upd_thread_twice: "upd_thread t f (upd_thread t g s) = upd_thread t (\<lambda>_. f (g (thread s t))) s"
  by (simp add: upd_thread_def)

definition released :: "thread \<Rightarrow> th_flag set" where
  "released v = (if TH_WAIT \<notin> state v \<and> TH_RUN \<notin> state v then insert TH_RUN (state v - {TH_SUSP}) else state v - {TH_SUSP})"

lemma release_ok:
  assumes inv: "inv_at a {} s" and t: "t \<noteq> 0" "t \<noteq> idle_thread s"
  shows "\<exists>u. thread_release t s = Inr (Some u) \<and> inv_at a {} u \<and> same_env s u \<and>
     (suspend_count (thread s t) = 1 \<longrightarrow> interruptible (thread u t) = interruptible (thread s t) \<and> state (thread u t) = released (thread s t))"
proof -
  let ?v = "thread s t"
  note ip = inv_parts [OF inv]
  define v1 where "v1 = ?v\<lparr>suspend_count := suspend_count ?v - 1\<rparr>"
  define v2 where "v2 = v1\<lparr>halted := False, state := state ?v - {TH_SUSP}\<rparr>"
  define v3 where "v3 = v2\<lparr>state := insert TH_RUN (state ?v - {TH_SUSP})\<rparr>"
  have r1: "inv_at a {} (upd_thread t (\<lambda>_. v1) s)" "inv_at a {} (upd_thread t (\<lambda>_. v2) s)"
    by (rule inv_susp [OF inv t]; simp add: v1_def v2_def requeued_def)+
  have env: "same_env s (upd_thread t (\<lambda>_. v) s)" for v by simp
  have pr: "idle_ok s" "run_ok (thread s a)" "next_ok s" using ip(4) by (simp_all add: proc_ok_def)
  have ni: "TH_IDLE \<notin> state ?v" using pr(1) t(2) by (auto simp: idle_ok_def)
  have away: "t \<noteq> a" "t \<noteq> next_thread s" "runq ?v = None" if "TH_RUN \<notin> state ?v"
  proof -
    show "t \<noteq> a" using that pr(2) by (auto simp: run_ok_def)
    show "t \<noteq> next_thread s" using that pr(3) t(1) runnable_flags [of ?v] by (auto simp: next_ok_def)
    show "runq ?v = None" using that ip(3) [of t] runnable_flags [of ?v] by (auto simp: st_ok_def)
  qed
  have w: "TH_WAIT \<notin> state ?v \<Longrightarrow> wait_event ?v = 0" using ip(3) [of t] by (auto simp: st_ok_def)
  have def: "thread_release t s =
      (if suspend_count v1 = 0
       then if state v2 \<inter> {TH_WAIT, TH_RUN, TH_SWAPPED} = {TH_SWAPPED} then thread_swapin t False (upd_thread t (\<lambda>_. v3) s)
         else if state v2 \<inter> {TH_WAIT, TH_RUN, TH_SWAPPED} = {} then thread_setrun t True (upd_thread t (\<lambda>_. v3) s)
         else Inr (Some (upd_thread t (\<lambda>_. v2) s))
       else Inr (Some (upd_thread t (\<lambda>_. v1) s)))"
    by (simp add: thread_release_def Let_def upd_thread_twice v1_def v2_def v3_def
      upd_thread_const [of t "\<lambda>v. v\<lparr>suspend_count := suspend_count v - 1\<rparr>" s])
  consider (held) "suspend_count v1 \<noteq> 0" | (swapped) "suspend_count v1 = 0" "TH_WAIT \<notin> state ?v" "TH_RUN \<notin> state ?v" "TH_SWAPPED \<in> state ?v"
    | (run) "suspend_count v1 = 0" "TH_WAIT \<notin> state ?v" "TH_RUN \<notin> state ?v" "TH_SWAPPED \<notin> state ?v"
    | (other) "suspend_count v1 = 0" "TH_WAIT \<in> state ?v \<or> TH_RUN \<in> state ?v" by blast
  then show ?thesis
  proof cases
    case swapped
    have k: "runq v3 = None" "wait_event v3 = wait_event ?v" "wait_event v3 \<noteq> 0 \<Longrightarrow> TH_WAIT \<in> state v3" "timers_ok v3" "TH_SWAPPED \<in> state v3"
        "TH_IDLE \<notin> state v3" "swap_state v3 \<notin> {TH_SW_UNSWAPPABLE, TH_SW_IN}" "TH_RUN \<in> state v3 \<Longrightarrow> TH_WAIT \<notin> state v3"
      using swapped away w ni ip(3) [of t] by (simp_all add: v3_def v2_def v1_def st_ok_def timers_ok_def sw_ok_def) auto
    obtain u sw i where u: "thread_swapin_with thread_wakeup t False (upd_thread t (\<lambda>_. v3) s) = Inr (Some u)" "inv_at a {} u"
        "wakes {(swapping_thread s, THREAD_AWAKENED)} (upd_thread t (\<lambda>_. v3\<lparr>swap_state := sw, sw_make_unswappable := i\<rparr>) s) u"
      using swapin_ok [OF inv away(1) [OF swapped(3)] t away(2) [OF swapped(3)] k(1) away(3) [OF swapped(3)] k(2-8) wakeup_wake_ok] by blast
    have "thread u t = v3\<lparr>swap_state := sw, sw_make_unswappable := i\<rparr>" using wakes_gone [OF u(3), of t] w [OF swapped(2)] k(2) by simp
    then have f: "interruptible (thread u t) = interruptible ?v" "state (thread u t) = released ?v"
      using swapped by (simp_all add: released_def v3_def v2_def v1_def)
    have "state v2 \<inter> {TH_WAIT, TH_RUN, TH_SWAPPED} = {TH_SWAPPED}" unfolding flags_none using swapped by (simp add: v2_def)
    then show ?thesis using def swapped(1) u(1, 2) same_env_trans [OF env wakes_env [OF u(3)]] f by (simp add: thread_swapin_def)
  next
    case run
    have "runnable v3" using run ni by (simp add: runnable_def flag_set_eq v3_def)
    moreover have "st_ok v3" using run away w ip(3) [of t] ni \<open>runnable v3\<close> by (simp add: st_ok_def v3_def v2_def v1_def timers_ok_def sw_ok_def)
    moreover have "inv_at a {t} (upd_thread t (\<lambda>_. v3) s)"
      using run away t ni by (intro inv_upd [OF inv _ _ _ \<open>st_ok v3\<close>]) (simp_all add: v3_def v2_def v1_def)
    moreover have "runq v3 = None" using away(3) [OF run(3)] by (simp add: v3_def v2_def v1_def)
    ultimately obtain u where u: "thread_setrun t True (upd_thread t (\<lambda>_. v3) s) = Inr (Some u)" "inv_at a ({t} - {t}) u" "only_thread t (upd_thread t (\<lambda>_. v3) s) u" "requeued v3 (thread u t)"
      using setrun_inv [of a "{t}" "upd_thread t (\<lambda>_. v3) s" t True] away [OF run(3)] by auto
    have "state v2 \<inter> {TH_WAIT, TH_RUN, TH_SWAPPED} = {}" "state v2 \<inter> {TH_WAIT, TH_RUN, TH_SWAPPED} \<noteq> {TH_SWAPPED}"
      unfolding flags_none using run by (simp_all add: v2_def)
    moreover have "same_env s u" using u(3) same_env_trans [OF env] by (auto simp: only_thread_def)
    moreover have "interruptible (thread u t) = interruptible ?v" "state (thread u t) = released ?v"
      using u(4) run by (simp_all add: requeued_def released_def v3_def v2_def v1_def)
    ultimately show ?thesis using def run(1) u(1, 2) by simp
  next
    case other
    have "state v2 \<inter> {TH_WAIT, TH_RUN, TH_SWAPPED} \<noteq> {}" "state v2 \<inter> {TH_WAIT, TH_RUN, TH_SWAPPED} \<noteq> {TH_SWAPPED}"
      unfolding flags_none using other by (simp_all add: v2_def) blast+
    then have "thread_release t s = Inr (Some (upd_thread t (\<lambda>_. v2) s))" using def other(1) by argo
    moreover have "interruptible v2 = interruptible ?v" "state v2 = released ?v" using other by (auto simp: released_def v2_def v1_def)
    ultimately show ?thesis using r1(2) by simp
  next
    case held
    then have "suspend_count ?v \<noteq> 1" by (simp add: v1_def)
    then show ?thesis using def held r1(1) by simp
  qed
qed

text \<open>Waiting for a thread to stop.\<close>

lemma dowait_stop_ok:
  assumes inv: "inv_at a {} s" and q: "runq (thread s t) = Some q"
  defines "u \<equiv> upd_thread t (\<lambda>v. v\<lparr>state := {TH_SUSP}\<rparr>) (snd (rem_runq t s))"
  shows "inv_at a {} u" "same_env s u"
proof -
  let ?s = "snd (rem_runq t s)"
  note fr = rem_runq_frame [OF q] and ip = inv_parts [OF inv]
  have run: "runnable (thread s t)" using ip(3) [of t] q by (simp add: st_ok_def)
  have pr: "idle_ok s" "run_ok (thread s a)" "next_ok s" using ip(4) by (simp_all add: proc_ok_def)
  have "\<not> (t = 0 \<or> t = idle_thread s)" using inv_idle(4) [OF inv, of t] run by blast
  then have t: "t \<noteq> 0" "t \<noteq> idle_thread s" by simp_all
  then have ne: "t \<noteq> a" "t \<noteq> next_thread s" using pr q by (auto simp: run_ok_def next_ok_def)
  let ?v = "(thread ?s t)\<lparr>state := {TH_SUSP}\<rparr>"
  have "wait_event (thread s t) = 0" using ip(3) [of t] runnable_flags [OF run] by (auto simp: st_ok_def)
  then have "st_ok ?v" using ip(3) [of t] runnable_flags [OF run] by (simp add: fr st_ok_def sw_ok_def timers_ok_def)
  then have "inv_at a {} (upd_thread t (\<lambda>_. ?v) ?s)"
    using ne t by (intro inv_upd [OF rem_runq_inv [OF inv q]]) (simp_all add: fr)
  moreover have "u = upd_thread t (\<lambda>_. ?v) ?s" unfolding u_def by (rule upd_thread_const)
  ultimately show "inv_at a {} u" by simp
  show "same_env s u" unfolding u_def using same_env_trans [OF _ same_env_upd(1)] fr(2) by (auto simp: only_thread_def)
qed

lemma wake_active_ok:
  assumes inv: "inv_at a {} s"
  shows "\<exists>u. (if wake_active (thread s t) then rbind (thread_wakeup (wake_active_ev s t) (upd_thread t (\<lambda>v. v\<lparr>wake_active := False\<rparr>) s)) (\<lambda>s. Inr (Some (True, s)))
     else Inr (Some (True, s))) = Inr (Some (True, u)) \<and> inv_at a {} u \<and> same_env s u"
proof (cases "wake_active (thread s t)")
  case True
  let ?s = "upd_thread t (\<lambda>v. v\<lparr>wake_active := False\<rparr>) s"
  have "inv_at a {} ?s" by (rule inv_upd_core [OF inv]) (simp add: same_core_def)
  then obtain u where "thread_wakeup (wake_active_ev s t) ?s = Inr (Some u)" "inv_at a {} u" "same_env ?s u"
    using thread_wakeup_ok wakes_env by blast
  then show ?thesis using True same_env_trans [of s ?s u] by simp
qed (use inv in simp)

lemma if_returns:
  assumes "c \<Longrightarrow> \<exists>b u. x = Inr (Some (b, u)) \<and> sched_inv u" and "\<not> c \<Longrightarrow> \<exists>b u. y = Inr (Some (b, u)) \<and> sched_inv u"
  shows "\<exists>b u. (if c then x else y) = Inr (Some (b, u)) \<and> sched_inv u"
  using assms by (cases c) simp_all

definition can_sleep_now :: "sched \<Rightarrow> bool" where
  "can_sleep_now s \<longleftrightarrow> pstate s = PROCESSOR_RUNNING \<and> active_thread s \<noteq> idle_thread s \<and> wait_event (thread s (active_thread s)) = 0"

lemma dowait_ok:
  assumes inv: "sched_inv s" and c: "can_sleep_now s"
  shows "\<exists>b u. thread_dowait t s = Inr (Some (b, u)) \<and> sched_inv u"
proof -
  let ?st = "state (thread s t)"
  have inv1: "inv_at (active_thread s) {} s" using inv by (simp add: sched_inv_def)
  have sleep: "\<exists>u. thread_sleep (wake_active_ev s t) True (upd_thread t (\<lambda>v. v\<lparr>wake_active := True\<rparr>) s) = Inr (Some u) \<and> sched_inv u"
    by (rule thread_sleep_ok [OF sched_inv_core [OF inv]]) (use c in \<open>auto simp: same_core_def can_sleep_now_def\<close>)
  define await where "await = (if \<not> (TH_SUSP \<in> ?st \<and> TH_RUN \<notin> ?st) \<or> \<not> interruptible (thread s t)
      then rbind (thread_sleep (wake_active_ev s t) True (upd_thread t (\<lambda>v. v\<lparr>wake_active := True\<rparr>) s)) (\<lambda>s. Inr (Some (False, s))) else Inr (Some (True, s)))"
  have aw: "\<exists>b u. await = Inr (Some (b, u)) \<and> sched_inv u" using sleep inv by (auto simp: await_def)
  define u where "u = upd_thread t (\<lambda>v. v\<lparr>state := {TH_SUSP}\<rparr>) (snd (rem_runq t s))"
  define stop where "stop = (if wake_active (thread u t) then rbind (thread_wakeup (wake_active_ev u t) (upd_thread t (\<lambda>v. v\<lparr>wake_active := False\<rparr>) u)) (\<lambda>s. Inr (Some (True, s))) else Inr (Some (True, u)))"
  have st: "\<exists>b w. stop = Inr (Some (b, w)) \<and> sched_inv w" if r: "fst (rem_runq t s) \<noteq> None"
  proof -
    obtain q where q: "runq (thread s t) = Some q" using r by (auto simp: rem_runq_def split: option.splits)
    note iu = dowait_stop_ok [OF inv1 q, folded u_def]
    show ?thesis using wake_active_ok [OF iu(1), of t] iu(2) by (auto simp: stop_def same_env_def sched_inv_def)
  qed
  have blk: "\<exists>u. thread_block s = Inr (Some u) \<and> sched_inv u" using block_ok [OF inv] c by (auto simp: can_sleep_now_def)
  have "thread_dowait t s = (if t = active_thread s then rbind (thread_block s) (\<lambda>s. Inr (Some (True, s)))
     else if ?st = {TH_SUSP} \<or> ?st = {TH_SUSP, TH_SWAPPED} \<or> ?st = {TH_SUSP, TH_WAIT, TH_SWAPPED} then Inr (Some (True, s))
     else if ?st = {TH_RUN, TH_SUSP} \<and> interruptible (thread s t) \<and> fst (rem_runq t s) \<noteq> None then stop
     else if ?st = {TH_RUN, TH_SUSP} \<or> ?st = {TH_RUN, TH_SUSP, TH_SWAPPED} \<or> ?st = {TH_RUN, TH_WAIT, TH_SUSP} \<or> ?st = {TH_WAIT, TH_SUSP} then await
     else Inr (Some (True, s)))"
    by (simp only: thread_dowait_def Let_def stop_def await_def u_def)
  moreover have "\<exists>b u. rbind (thread_block s) (\<lambda>s. Inr (Some (True, s))) = Inr (Some (b, u)) \<and> sched_inv u" using blk by auto
  moreover have "\<exists>b u. Inr (Some (True, s)) = Inr (Some (b, u)) \<and> sched_inv u" using inv by blast
  ultimately show ?thesis using aw st by (simp only:) (intro if_returns; blast)
qed

lemma user_stop_inv: "sched_inv s \<Longrightarrow> sched_inv (upd_thread t (\<lambda>v. v\<lparr>user_stop_count := n v\<rparr>) s)"
  by (rule sched_inv_core) (simp_all add: same_core_def)

lemma suspend_ok:
  assumes inv: "sched_inv s" and c: "can_sleep_now s" and t: "t \<noteq> idle_thread s"
  shows "\<exists>r u. thread_suspend t s = Inr (Some (r, u)) \<and> sched_inv u"
proof -
  define s1 where "s1 = upd_thread t (\<lambda>v. v\<lparr>user_stop_count := user_stop_count v + 1\<rparr>) s"
  have inv1: "sched_inv s1" unfolding s1_def by (rule user_stop_inv [OF inv])
  have "\<exists>b u. thread_dowait t (thread_hold t s1) = Inr (Some (b, u)) \<and> sched_inv u" if "t \<noteq> 0"
  proof (rule dowait_ok)
    show "sched_inv (thread_hold t s1)"
      using hold_inv [of "active_thread s" s1 t] inv1 that t by (simp add: sched_inv_def s1_def thread_hold_def)
    show "can_sleep_now (thread_hold t s1)" using c by (auto simp: can_sleep_now_def thread_hold_def s1_def)
  qed
  then show ?thesis using inv inv1 by (auto simp: thread_suspend_def Let_def s1_def [symmetric])
qed

lemma resume_ok:
  assumes inv: "sched_inv s" and t: "t \<noteq> idle_thread s"
  shows "\<exists>r u. thread_resume t s = Inr (Some (r, u)) \<and> sched_inv u"
proof -
  define s1 where "s1 = upd_thread t (\<lambda>v. v\<lparr>user_stop_count := user_stop_count v - 1\<rparr>) s"
  have inv1: "sched_inv s1" unfolding s1_def by (rule user_stop_inv [OF inv])
  have "\<exists>u. thread_release t s1 = Inr (Some u) \<and> sched_inv u" if "t \<noteq> 0"
    using release_ok [of "active_thread s1" s1 t] inv1 that t by (auto simp: sched_inv_def s1_def same_env_def)
  then show ?thesis using inv inv1 by (auto simp: thread_resume_def Let_def s1_def [symmetric])
qed

subsection \<open>Swapping\<close>

lemma rbind_unit: "rbind x (\<lambda>s. Inr (Some s)) = x"
  by (cases x) (auto simp: rbind_def kbind_def split: option.splits)

lemma swapin_flag:
  "thread_swapin_with wake t mu s = rbind (thread_swapin_with wake t False s) (\<lambda>s. Inr (Some (if mu then upd_thread t (\<lambda>v. v\<lparr>sw_make_unswappable := True\<rparr>) s else s)))"
  by (simp add: thread_swapin_with_def rbind_unit)

lemma swapped_away:
  assumes inv: "inv_at a {} s" and "TH_SWAPPED \<in> state (thread s t)"
  shows "t \<noteq> a" "t \<noteq> next_thread s" "runq (thread s t) = None" "t \<noteq> 0" "t \<noteq> idle_thread s" "TH_IDLE \<notin> state (thread s t)"
proof -
  note ip = inv_parts [OF inv]
  have pr: "idle_ok s" "run_ok (thread s a)" "next_ok s" using ip(4) by (simp_all add: proc_ok_def)
  have "\<not> (t = 0 \<or> t = idle_thread s)" using inv_idle(3) [OF inv, of t] assms(2) by blast
  then show t: "t \<noteq> 0" "t \<noteq> idle_thread s" by simp_all
  show "t \<noteq> a" using assms(2) pr(2) by (auto simp: run_ok_def)
  show "t \<noteq> next_thread s" using assms(2) pr(3) t(1) runnable_flags [of "thread s t"] by (auto simp: next_ok_def)
  show "runq (thread s t) = None" using assms(2) ip(3) [of t] runnable_flags [of "thread s t"] by (auto simp: st_ok_def)
  show "TH_IDLE \<notin> state (thread s t)" using pr(1) t(2) by (auto simp: idle_ok_def)
qed

lemma swap_flags:
  assumes "inv_at a {} s" and "swap_state (thread s t) \<notin> {TH_SW_UNSWAPPABLE, TH_SW_IN}"
  shows "TH_SWAPPED \<in> state (thread s t)"
  using inv_parts(3) [OF assms(1), of t] assms(2) by (auto simp: st_ok_def sw_ok_def split: if_split_asm)

lemma swapout_ok:
  assumes inv: "inv_at a {} s" and sw: "swap_state (thread s t) \<in> {TH_SW_GOING_OUT, TH_SW_WANT_IN}"
  shows "\<exists>u. thread_swapout t s = Inr (Some u) \<and> inv_at a {} u \<and> same_env s u"
proof -
  let ?v = "(thread s t)\<lparr>swap_state := TH_SW_OUT, sw_make_unswappable := False\<rparr>"
  note ip = inv_parts [OF inv]
  have w: "TH_SWAPPED \<in> state (thread s t)" using sw by (intro swap_flags [OF inv]) auto
  note aw = swapped_away [OF inv w]
  have c: "upd_thread t (\<lambda>v. v\<lparr>swap_state := TH_SW_OUT, sw_make_unswappable := False\<rparr>) s = upd_thread t (\<lambda>_. ?v) s" by (rule upd_thread_const)
  show ?thesis
  proof (cases "swap_state (thread s t) = TH_SW_GOING_OUT")
    case True
    have "st_ok ?v" using ip(3) [of t] True by (auto simp: st_ok_def sw_ok_def timers_ok_def runnable_def split: if_split_asm)
    then have "inv_at a {} (upd_thread t (\<lambda>_. ?v) s)" using aw w by (intro inv_upd [OF inv]) simp_all
    then show ?thesis using True c by (simp add: thread_swapout_def)
  next
    case False
    then have want: "swap_state (thread s t) = TH_SW_WANT_IN" using sw by simp
    have k: "runq ?v = None" "wait_event ?v = wait_event (thread s t)" "wait_event ?v \<noteq> 0 \<Longrightarrow> TH_WAIT \<in> state ?v" "timers_ok ?v" "TH_SWAPPED \<in> state ?v"
        "TH_IDLE \<notin> state ?v" "swap_state ?v \<notin> {TH_SW_UNSWAPPABLE, TH_SW_IN}" "TH_RUN \<in> state ?v \<Longrightarrow> TH_WAIT \<notin> state ?v"
      using aw w ip(3) [of t] by (simp_all add: st_ok_def timers_ok_def sw_ok_def)
    obtain u sw i where u: "thread_swapin_with thread_wakeup t False (upd_thread t (\<lambda>_. ?v) s) = Inr (Some u)" "inv_at a {} u"
        "wakes {(swapping_thread s, THREAD_AWAKENED)} (upd_thread t (\<lambda>_. ?v\<lparr>swap_state := sw, sw_make_unswappable := i\<rparr>) s) u"
      using swapin_ok [OF inv aw(1, 4, 5, 2) k(1) aw(3) k(2-8) wakeup_wake_ok] by blast
    let ?u = "if sw_make_unswappable (thread s t) then upd_thread t (\<lambda>v. v\<lparr>sw_make_unswappable := True\<rparr>) u else u"
    have "thread_swapout t s = Inr (Some ?u)"
      using want u(1) c by (simp add: thread_swapout_def thread_swapin_def swapin_flag [of thread_wakeup t "sw_make_unswappable (thread s t)"])
    moreover have "inv_at a {} ?u" using u(2) inv_upd_core [OF u(2)] by (simp add: same_core_def)
    moreover have "same_env s u" using same_env_trans [OF same_env_upd(1) wakes_env [OF u(3)]] .
    then have "same_env s ?u" using same_env_trans by auto
    ultimately show ?thesis by blast
  qed
qed

lemma swapout_mark_inv:
  assumes inv: "inv_at a {} s" and t0: "t \<noteq> 0"
  shows "inv_at a {} (swapout_mark t s)"
proof (cases "state (thread s t) \<inter> {TH_RUN, TH_SWAPPED} = {} \<and> swap_state (thread s t) = TH_SW_IN \<and> interruptible (thread s t) \<and>
    sched_tick s - sched_stamp (thread s t) > 10")
  case True
  let ?v = "(thread s t)\<lparr>state := insert TH_SWAPPED (state (thread s t)), swap_state := TH_SW_GOING_OUT\<rparr>"
  note ip = inv_parts [OF inv]
  have f: "TH_RUN \<notin> state (thread s t)" "TH_SWAPPED \<notin> state (thread s t)" using True by auto
  have pr: "idle_ok s" "run_ok (thread s a)" "next_ok s" using ip(4) by (simp_all add: proc_ok_def)
  have ne: "t \<noteq> a" "t \<noteq> next_thread s" "t \<noteq> idle_thread s"
    using f pr t0 runnable_flags [of "thread s t"] by (auto simp: run_ok_def next_ok_def idle_ok_def)
  have "st_ok ?v" using ip(3) [of t] f runnable_flags [of "thread s t"] by (auto simp: st_ok_def sw_ok_def timers_ok_def)
  then have "inv_at a {} (upd_thread t (\<lambda>_. ?v) s)" using ne f t0 by (intro inv_upd [OF inv]) (simp_all add: whichq_def)
  then show ?thesis using True by (simp add: swapout_mark_def upd_thread_def)
next
  case False
  then show ?thesis unfolding swapout_mark_def if_not_P [OF False] using inv by simp
qed

end
