(* ===== verification/SchedScan.thy ===== *)
theory SchedScan
  imports SchedSafe
begin

text \<open>
  The scan for stuck threads (\<^verbatim>\<open>do_thread_scan\<close>): it ends, and then no thread on a run queue has a priority more
  than one tick old.
\<close>

definition stuck_queued :: "sched \<Rightarrow> ptr set" where
  "stuck_queued s = {t. runq (thread s t) \<noteq> None \<and> stuck s t}"

subsection \<open>The second pass\<close>

lemma rem_runq_upd:
  assumes "runq (thread s t) = Some q" and "runq w = Some q"
  shows "rem_runq t (upd_thread t (\<lambda>_. w) s) = (Some q, upd_thread t (\<lambda>_. w\<lparr>runq := None\<rparr>) (snd (rem_runq t s)))"
  using assms by (simp add: rem_runq_def Let_def upd_thread_def upd_rq_def)

lemma fix_one:
  assumes inv: "inv_at a {} s" and st: "stuck s t"
  shows "\<exists>u. rbind (update_priority t s) (\<lambda>s. if policy (thread s t) \<noteq> POLICY_FIXEDPRI then set_pri t (sched_pri (thread s t)) s else Inr (Some s)) = Inr (Some u) \<and>
     inv_at a {} u \<and> only_thread t s u \<and> \<not> stuck u t"
proof -
  note ip = inv_parts [OF inv]
  have "timers_ok (thread s t)" using ip(3) [of t] by (simp add: st_ok_def)
  moreover have "sched_stamp (thread s t) \<noteq> sched_tick s" using st by (cases "sched_stamp (thread s t) = sched_tick s") (simp_all add: stuck_def)
  ultimately obtain w where up: "update_priority t s = Inr (Some (upd_thread t (\<lambda>_. w) s))" and w: "repri (thread s t) w" "sched_stamp w = sched_tick s"
      "policy w = policy (thread s t)" "policy w = POLICY_FIXEDPRI \<longrightarrow> sched_pri w = sched_pri (thread s t)"
    using update_priority_ok by blast
  have rw: "runq w = runq (thread s t)" using w(1) by (simp add: repri_def)
  have fixed: "\<not> stuck (upd_thread t (\<lambda>_. w) s) t" using w(2) by (simp add: stuck_def)
  consider "policy w = POLICY_FIXEDPRI" | "policy w \<noteq> POLICY_FIXEDPRI" "runq w = None" | q where "policy w \<noteq> POLICY_FIXEDPRI" "runq w = Some q" by auto
  then show ?thesis
  proof cases
    case 1
    have "inv_at a {} (upd_thread t (\<lambda>_. w) s)"
      by (rule inv_upd_core [OF inv]) (use w 1 in \<open>simp add: same_core_def repri_def requeued_def\<close>)
    then show ?thesis using up 1 only_upd fixed by simp
  next
    case 2
    have "inv_at a {} (upd_thread t (\<lambda>_. w) s)" using 2(2) rw by (intro inv_repri [OF inv _ w(1)]) simp
    moreover have "set_pri t (sched_pri w) (upd_thread t (\<lambda>_. w) s) = Inr (Some (upd_thread t (\<lambda>_. w) s))"
      using 2(2) by (simp add: set_pri_def rem_runq_def upd_thread_def)
    ultimately show ?thesis using up 2 only_upd fixed by simp
  next
    case 3
    then have q: "runq (thread s t) = Some q" using rw by simp
    note fr = rem_runq_frame [OF q]
    let ?s = "upd_thread t (\<lambda>_. w\<lparr>runq := None\<rparr>) (snd (rem_runq t s))"
    have run: "runnable (thread s t)" using ip(3) [of t] q by (simp add: st_ok_def)
    have pr: "run_ok (thread s a)" "next_ok s" using ip(4) by (simp_all add: proc_ok_def)
    have "t \<noteq> 0" using inv_idle(4) [OF inv, of 0] run by (cases "t = 0") simp_all
    then have ne: "t \<noteq> a" "t \<noteq> next_thread s" using pr q by (auto simp: run_ok_def next_ok_def)
    have "inv_at a {t} (snd (rem_runq t s))" using rem_runq_inv [OF inv q] by simp
    then have "inv_at a {t} ?s" by (rule inv_repri) (use w(1) in \<open>simp_all add: fr repri_def requeued_def\<close>)
    moreover have "runnable (w\<lparr>runq := None\<rparr>)" using run w(1) by (simp add: runnable_def repri_def requeued_def)
    ultimately obtain u where u: "thread_setrun t True ?s = Inr (Some u)" "inv_at a ({t} - {t}) u" "only_thread t ?s u"
        "sched_stamp (thread u t) = sched_tick ?s"
      using setrun_inv [of a "{t}" ?s t True] ne by (auto simp: fr)
    have e: "upd_thread t (\<lambda>v. v\<lparr>sched_pri := sched_pri w\<rparr>) ?s = ?s" by (simp add: upd_thread_def)
    have "set_pri t (sched_pri w) (upd_thread t (\<lambda>_. w) s) = Inr (Some u)"
      using u(1) e by (simp add: set_pri_def rem_runq_upd [OF q 3(2)])
    moreover have o: "only_thread t s u"
      using fr(2) u(3) same_env_trans [of s ?s u] same_env_trans [of s "snd (rem_runq t s)" ?s] by (simp add: only_thread_def)
    moreover have "sched_tick ?s = sched_tick u" using u(3) by (simp add: only_thread_def same_env_def)
    then have "\<not> stuck u t" using u(4) by (simp add: stuck_def)
    ultimately show ?thesis using up 3(1) u(2) by simp
  qed
qed

lemma stuck_other: "only_thread t s u \<Longrightarrow> x \<noteq> t \<Longrightarrow> stuck u x = stuck s x"
  by (simp add: only_thread_def stuck_def same_env_def)

text \<open>Only the threads of a set changed.\<close>

definition only_threads :: "ptr set \<Rightarrow> sched \<Rightarrow> sched \<Rightarrow> bool" where
  "only_threads T s u \<longleftrightarrow> same_env s u \<and> wait_queue u = wait_queue s \<and> (\<forall>x. x \<notin> T \<longrightarrow> thread u x = thread s x)"

lemma fix_stuck_ok:
  assumes "inv_at a {} s"
  shows "\<exists>u. fix_stuck ts s = Inr (Some u) \<and> inv_at a {} u \<and> only_threads (set ts) s u \<and> stuck_queued u \<subseteq> stuck_queued s - set ts"
  using assms
proof (induction ts arbitrary: s)
  case (Cons t ts)
  obtain u where u: "(if stuck s t then rbind (update_priority t s) (\<lambda>s. if policy (thread s t) \<noteq> POLICY_FIXEDPRI then set_pri t (sched_pri (thread s t)) s else Inr (Some s))
      else Inr (Some s)) = Inr (Some u)" "inv_at a {} u" "only_thread t s u" "\<not> stuck u t"
    using fix_one [OF Cons.prems, of t] Cons.prems by (cases "stuck s t") (auto simp: only_thread_def)
  obtain w where w: "fix_stuck ts u = Inr (Some w)" "inv_at a {} w" "only_threads (set ts) u w" "stuck_queued w \<subseteq> stuck_queued u - set ts"
    using Cons.IH [OF u(2)] by blast
  have "fix_stuck (t # ts) s = Inr (Some w)" using u(1) w(1) by (simp del: rbind_simps(1)) simp
  moreover have "only_threads (set (t # ts)) s w" using u(3) w(3) same_env_trans [of s u w] by (simp add: only_thread_def only_threads_def)
  moreover have "stuck_queued u \<subseteq> stuck_queued s - {t}"
    using u(3, 4) stuck_other [OF u(3)] by (auto simp: stuck_queued_def only_thread_def) metis+
  then have "stuck_queued w \<subseteq> stuck_queued s - set (t # ts)" using w(4) by auto
  ultimately show ?case using w(2) by blast
qed (simp add: only_threads_def)

subsection \<open>The first pass\<close>

lemma scan_queue_ok:
  assumes "length st \<le> MAX_STUCK_THREADS" and "scan_queue s ths st c = (full, st', c')"
  shows "length st' \<le> MAX_STUCK_THREADS" "set st \<subseteq> set st'" "set st' \<subseteq> set st \<union> {x \<in> set ths. stuck s x}"
    "full \<Longrightarrow> length st' = MAX_STUCK_THREADS" "\<not> full \<Longrightarrow> set st' = set st \<union> {x \<in> set ths. stuck s x} \<and> c' = c - int (length ths)"
  using assms
proof (induction ths arbitrary: st c)
  case (Cons t ths)
  {
    case 1
    then show ?case using Cons.IH(1) [of "st @ [t]" "c - 1"] Cons.IH(1) [of st "c - 1"] by (simp split: if_split_asm)
  next
    case 2
    then show ?case using Cons.IH(2) [of "st @ [t]" "c - 1"] Cons.IH(2) [of st "c - 1"] by (auto split: if_split_asm)
  next
    case 3
    then show ?case using Cons.IH(3) [of "st @ [t]" "c - 1"] Cons.IH(3) [of st "c - 1"] by (auto split: if_split_asm)
  next
    case 4
    then show ?case using Cons.IH(4) [of "st @ [t]" "c - 1"] Cons.IH(4) [of st "c - 1"] by (simp split: if_split_asm)
  next
    case 5
    then show ?case using Cons.IH(5) [of "st @ [t]" "c - 1"] Cons.IH(5) [of st "c - 1"] by (auto split: if_split_asm)
  }
qed auto

lemma scan_queues_ok:
  assumes "length st \<le> MAX_STUCK_THREADS" and "c = (\<Sum>i<n. int (length (r i)))"
  shows "\<exists>full st'. scan_queues s r n st c = Some (full, st') \<and> length st' \<le> MAX_STUCK_THREADS \<and>
     set st' \<subseteq> set st \<union> {x. \<exists>i. x \<in> set (r i) \<and> stuck s x} \<and> (full \<longrightarrow> length st' = MAX_STUCK_THREADS) \<and>
     (\<not> full \<longrightarrow> set st \<union> {x. \<exists>i<n. x \<in> set (r i) \<and> stuck s x} \<subseteq> set st')"
  using assms
proof (induction n arbitrary: st c)
  case (Suc n)
  show ?case
  proof (cases "c > 0")
    case False
    have nn: "(\<Sum>i<Suc n. int (length (r i))) \<ge> 0" by (rule sum_nonneg) simp
    then have "(\<Sum>i<Suc n. int (length (r i))) = 0" using False Suc.prems(2) by linarith
    then have "\<forall>i\<in>{..<Suc n}. int (length (r i)) = 0" by (subst (asm) sum_nonneg_eq_0_iff) simp_all
    then have "r i = []" if "i < Suc n" for i using that by simp
    then have "{x. \<exists>i<Suc n. x \<in> set (r i) \<and> stuck s x} = {}" by fastforce
    moreover have "scan_queues s r (Suc n) st c = Some (False, st)" using False by simp
    ultimately show ?thesis using Suc.prems(1) by blast
  next
    case True
    obtain full st' c' where sq: "scan_queue s (r n) st c = (full, st', c')" by (metis prod_cases3)
    note so = scan_queue_ok [OF Suc.prems(1) sq]
    show ?thesis
    proof (cases full)
      case True
      then have "scan_queues s r (Suc n) st c = Some (True, st')" using \<open>c > 0\<close> sq by simp
      then show ?thesis using so(1, 3) so(4) [OF True] by blast
    next
      case False
      then have "c' = (\<Sum>i<n. int (length (r i)))" using so(5) Suc.prems(2) by simp
      from Suc.IH [OF so(1) this] obtain full2 st2 where i: "scan_queues s r n st' c' = Some (full2, st2)" "length st2 \<le> MAX_STUCK_THREADS"
          "set st2 \<subseteq> set st' \<union> {x. \<exists>i. x \<in> set (r i) \<and> stuck s x}" "full2 \<longrightarrow> length st2 = MAX_STUCK_THREADS"
          "\<not> full2 \<longrightarrow> set st' \<union> {x. \<exists>i<n. x \<in> set (r i) \<and> stuck s x} \<subseteq> set st2" by blast
      have "scan_queues s r (Suc n) st c = Some (full2, st2)" using \<open>c > 0\<close> False sq i(1) by simp
      moreover have "set st2 \<subseteq> set st \<union> {x. \<exists>i. x \<in> set (r i) \<and> stuck s x}" using i(3) so(3) by blast
      moreover have "\<not> full2 \<longrightarrow> set st \<union> {x. \<exists>i<Suc n. x \<in> set (r i) \<and> stuck s x} \<subseteq> set st2"
      proof
        assume "\<not> full2"
        then have "set st' \<union> {x. \<exists>i<n. x \<in> set (r i) \<and> stuck s x} \<subseteq> set st2" using i(5) by blast
        moreover have "set st' = set st \<union> {x \<in> set (r n). stuck s x}" using so(5) [OF False] by blast
        ultimately show "set st \<union> {x. \<exists>i<Suc n. x \<in> set (r i) \<and> stuck s x} \<subseteq> set st2" unfolding less_Suc_eq by blast
      qed
      ultimately show ?thesis using i(2, 4) by blast
    qed
  qed
qed auto

lemma do_runq_scan_ok:
  assumes inv: "inv_at a {} s" and st: "length st \<le> MAX_STUCK_THREADS"
  shows "\<exists>full st'. do_runq_scan q st s = Some (full, st') \<and> length st' \<le> MAX_STUCK_THREADS \<and>
     set st' \<subseteq> set st \<union> {x. runq (thread s x) = Some q \<and> stuck s x} \<and> (full \<longrightarrow> length st' = MAX_STUCK_THREADS) \<and>
     (\<not> full \<longrightarrow> set st \<union> {x. runq (thread s x) = Some q \<and> stuck s x} \<subseteq> set st')"
proof (cases "rcount (rq s q) > 0")
  case True
  let ?r = "rqs (rq s q)" and ?n = "nat (high (rq s q)) + 1"
  have h: "hint_ok (rq s q)" and m: "\<And>x i. x \<in> set (?r i) \<longleftrightarrow> runq (thread s x) = Some q \<and> i = whichq (thread s x)"
    using inv_parts(2) [OF inv] by (auto simp: rq_ok_def)
  have e: "?r i = []" if "\<not> i < ?n" for i using h that by (simp add: hint_ok_def)
  have "nat (high (rq s q)) < NRQS" using h by (simp add: hint_ok_def nat_less_iff)
  then have n: "?n \<le> NRQS" by simp
  have "(\<Sum>i<?n. int (length (?r i))) = (\<Sum>i<NRQS. int (length (?r i)))"
    by (rule sum.mono_neutral_left) (use n e in auto)
  then have "rcount (rq s q) = (\<Sum>i<?n. int (length (?r i)))" using h by (simp add: hint_ok_def)
  from scan_queues_ok [OF st this] obtain full st' where o: "scan_queues s ?r ?n st (rcount (rq s q)) = Some (full, st')" "length st' \<le> MAX_STUCK_THREADS"
      "set st' \<subseteq> set st \<union> {x. \<exists>i. x \<in> set (?r i) \<and> stuck s x}" "full \<longrightarrow> length st' = MAX_STUCK_THREADS"
      "\<not> full \<longrightarrow> set st \<union> {x. \<exists>i<?n. x \<in> set (?r i) \<and> stuck s x} \<subseteq> set st'" by blast
  have "do_runq_scan q st s = Some (full, st')" using True o(1) by (simp add: do_runq_scan_def del: scan_queues.simps)
  moreover have "{x. runq (thread s x) = Some q \<and> stuck s x} \<subseteq> {x. \<exists>i<?n. x \<in> set (?r i) \<and> stuck s x}"
  proof
    fix x assume x: "x \<in> {x. runq (thread s x) = Some q \<and> stuck s x}"
    then have "x \<in> set (?r (whichq (thread s x)))" using m by simp
    moreover from this have "whichq (thread s x) < ?n" using e [of "whichq (thread s x)"] by (cases "whichq (thread s x) < ?n") simp_all
    ultimately show "x \<in> {x. \<exists>i<?n. x \<in> set (?r i) \<and> stuck s x}" using x by blast
  qed
  moreover have "{x. \<exists>i. x \<in> set (?r i) \<and> stuck s x} \<subseteq> {x. runq (thread s x) = Some q \<and> stuck s x}" using m by blast
  ultimately show ?thesis using o(2-5) by blast
next
  case False
  have "runq (thread s x) \<noteq> Some q" for x using rcount_pos(1) [OF inv, of q] False by blast
  then show ?thesis using False st by (auto simp: do_runq_scan_def)
qed

subsection \<open>The loop\<close>

lemma queued_finite:
  assumes inv: "inv_at a {} s"
  shows "finite {x. runq (thread s x) = Some q}" "int (card {x. runq (thread s x) = Some q}) \<le> rcount (rq s q)"
proof -
  let ?r = "rqs (rq s q)"
  have h: "hint_ok (rq s q)" and m: "\<And>x i. x \<in> set (?r i) \<longleftrightarrow> runq (thread s x) = Some q \<and> i = whichq (thread s x)"
    using inv_parts(2) [OF inv] by (auto simp: rq_ok_def)
  have e: "{x. runq (thread s x) = Some q} = (\<Union>i<NRQS. set (?r i))" using m whichq_lt by blast
  then show "finite {x. runq (thread s x) = Some q}" by simp
  have "card (\<Union>i<NRQS. set (?r i)) \<le> (\<Sum>i<NRQS. card (set (?r i)))" by (rule card_UN_le) simp
  also have "\<dots> \<le> (\<Sum>i<NRQS. length (?r i))" by (intro sum_mono card_length)
  finally show "int (card {x. runq (thread s x) = Some q}) \<le> rcount (rq s q)" using h e by (simp add: hint_ok_def of_nat_sum [symmetric] del: of_nat_sum)
qed

lemma stuck_queued_split: "stuck_queued s = {x. runq (thread s x) = Some Pset_runq \<and> stuck s x} \<union> {x. runq (thread s x) = Some Proc_runq \<and> stuck s x}"
proof (rule set_eqI)
  fix x
  have "runq (thread s x) = None \<or> runq (thread s x) = Some Pset_runq \<or> runq (thread s x) = Some Proc_runq"
    by (metis option.exhaust rq_id.exhaust)
  then show "x \<in> stuck_queued s \<longleftrightarrow> x \<in> {x. runq (thread s x) = Some Pset_runq \<and> stuck s x} \<union> {x. runq (thread s x) = Some Proc_runq \<and> stuck s x}"
    unfolding stuck_queued_def by (elim disjE) simp_all
qed

lemma stuck_queued_card:
  assumes inv: "inv_at a {} s"
  shows "finite (stuck_queued s)" "card (stuck_queued s) \<le> nat (rcount (rq s Pset_runq) + rcount (rq s Proc_runq))"
proof -
  let ?A = "{x. runq (thread s x) = Some Pset_runq}" and ?B = "{x. runq (thread s x) = Some Proc_runq}"
  note f = queued_finite [OF inv]
  have sub: "stuck_queued s \<subseteq> ?A \<union> ?B" unfolding stuck_queued_split by blast
  then show "finite (stuck_queued s)" by (rule finite_subset) (simp add: f(1))
  have "card (stuck_queued s) \<le> card (?A \<union> ?B)" using sub by (rule card_mono [rotated]) (simp add: f(1))
  also have "\<dots> \<le> card ?A + card ?B" by (rule card_Un_le)
  finally show "card (stuck_queued s) \<le> nat (rcount (rq s Pset_runq) + rcount (rq s Proc_runq))"
    using f(2) [of Pset_runq] f(2) [of Proc_runq] by linarith
qed

text \<open>Both scans of one round.\<close>

lemma scan_round:
  assumes inv: "inv_at a {} s"
  shows "\<exists>full st full' st'. do_runq_scan Pset_runq [] s = Some (full, st) \<and>
     (if \<not> full then do_runq_scan Proc_runq st s else Some (full, st)) = Some (full', st') \<and> set st' \<subseteq> stuck_queued s \<and>
     (full' \<longrightarrow> st' \<noteq> []) \<and> (\<not> full' \<longrightarrow> stuck_queued s \<subseteq> set st')"
proof -
  have max: "length st = MAX_STUCK_THREADS \<Longrightarrow> st \<noteq> []" for st :: "ptr list" by (auto simp: MAX_STUCK_THREADS_def)
  obtain full st where 1: "do_runq_scan Pset_runq [] s = Some (full, st)" "length st \<le> MAX_STUCK_THREADS"
      "set st \<subseteq> {x. runq (thread s x) = Some Pset_runq \<and> stuck s x}" "full \<longrightarrow> length st = MAX_STUCK_THREADS"
      "\<not> full \<longrightarrow> {x. runq (thread s x) = Some Pset_runq \<and> stuck s x} \<subseteq> set st"
    using do_runq_scan_ok [OF inv, of "[]" Pset_runq] by auto
  obtain full' st' where 2: "do_runq_scan Proc_runq st s = Some (full', st')"
      "set st' \<subseteq> set st \<union> {x. runq (thread s x) = Some Proc_runq \<and> stuck s x}" "full' \<longrightarrow> length st' = MAX_STUCK_THREADS"
      "\<not> full' \<longrightarrow> set st \<union> {x. runq (thread s x) = Some Proc_runq \<and> stuck s x} \<subseteq> set st'"
    using do_runq_scan_ok [OF inv 1(2), of Proc_runq] by auto
  show ?thesis
  proof (cases full)
    case True
    then show ?thesis using 1 max [of st] unfolding stuck_queued_split by auto
  next
    case False
    have "set st' \<subseteq> stuck_queued s" using 1(3) 2(2) unfolding stuck_queued_split by blast
    moreover have "\<not> full' \<longrightarrow> stuck_queued s \<subseteq> set st'" using 1(5) 2(4) False unfolding stuck_queued_split by blast
    ultimately show ?thesis using False 1(1) 2(1) 2(3) max [of st'] by auto
  qed
qed

lemma scan_loop_ok:
  assumes "inv_at a {} s" and "card (stuck_queued s) < n"
  shows "\<exists>u. thread_scan_loop n s = Inr (Some u) \<and> inv_at a {} u \<and> stuck_queued u = {} \<and> only_threads (stuck_queued s) s u"
  using assms
proof (induction n arbitrary: s)
  case (Suc n)
  obtain full st full' st' where sc: "do_runq_scan Pset_runq [] s = Some (full, st)"
      "(if \<not> full then do_runq_scan Proc_runq st s else Some (full, st)) = Some (full', st')" "set st' \<subseteq> stuck_queued s"
      "full' \<longrightarrow> st' \<noteq> []" "\<not> full' \<longrightarrow> stuck_queued s \<subseteq> set st'"
    using scan_round [OF Suc.prems(1)] by blast
  obtain u where u: "fix_stuck (rev st') s = Inr (Some u)" "inv_at a {} u" "only_threads (set st') s u" "stuck_queued u \<subseteq> stuck_queued s - set st'"
    using fix_stuck_ok [OF Suc.prems(1), of "rev st'"] by auto
  have step: "thread_scan_loop (Suc n) s = (if full' then thread_scan_loop n u else Inr (Some u))" using sc(1, 2) u(1) by simp
  have o: "only_threads (stuck_queued s) s u" using u(3) sc(3) by (auto simp: only_threads_def)
  show ?case
  proof (cases full')
    case True
    have "stuck_queued u \<subset> stuck_queued s" using u(4) sc(3, 4) True by (cases st') auto
    then have "card (stuck_queued u) < card (stuck_queued s)" by (rule psubset_card_mono [OF stuck_queued_card(1) [OF Suc.prems(1)]])
    then have "card (stuck_queued u) < n" using Suc.prems(2) by simp
    from Suc.IH [OF u(2) this] obtain w where w: "thread_scan_loop n u = Inr (Some w)" "inv_at a {} w" "stuck_queued w = {}" "only_threads (stuck_queued u) u w" by blast
    have "only_threads (stuck_queued s) s w"
      using o w(4) u(4) same_env_trans [of s u w] by (auto simp: only_threads_def)
    then show ?thesis using step True w by simp
  next
    case False
    then show ?thesis using step u(2, 4) sc(5) o by auto
  qed
qed simp

lemma do_thread_scan_ok:
  assumes inv: "inv_at a {} s"
  shows "\<exists>u. do_thread_scan s = Inr (Some u) \<and> inv_at a {} u \<and> stuck_queued u = {} \<and> only_threads (stuck_queued s) s u"
  unfolding do_thread_scan_def by (rule scan_loop_ok [OF inv]) (use stuck_queued_card(2) [OF inv] in simp)

end
