(* ===== verification/SchedReach.thy ===== *)
theory SchedReach
  imports SchedScan
begin

text \<open>
  The reachable states of the scheduler, from a start with one running thread, and what holds of them.
\<close>

subsection \<open>Swapping in\<close>

lemma doswapin_ok:
  assumes inv: "inv_at a {} s" and sw: "swap_state (thread s t) = TH_SW_COMING_IN" "\<not> sw_make_unswappable (thread s t)"
  shows "\<exists>u. thread_doswapin t s = Inr (Some u) \<and> inv_at a {} u \<and> same_env s u \<and> state (thread u t) = state (thread s t) - {TH_SWAPPED} \<and>
     interruptible (thread u t) = interruptible (thread s t)"
proof -
  note ip = inv_parts [OF inv]
  have w: "TH_SWAPPED \<in> state (thread s t)" using sw by (intro swap_flags [OF inv]) simp
  note aw = swapped_away [OF inv w]
  let ?v = "(thread s t)\<lparr>swap_state := TH_SW_IN, state := state (thread s t) - {TH_SWAPPED}\<rparr>"
  have eq: "thread_doswapin t s = (if TH_RUN \<in> state (thread s t) then thread_setrun t True (upd_thread t (\<lambda>_. ?v) s) else Inr (Some (upd_thread t (\<lambda>_. ?v) s)))"
    using sw by (simp add: thread_doswapin_def Let_def upd_thread_twice)
  have ok: "st_ok ?v" using ip(3) [of t] aw(3) by (simp add: st_ok_def sw_ok_def timers_ok_def)
  have inv1: "inv_at a {t} (upd_thread t (\<lambda>_. ?v) s)" using aw by (intro inv_upd [OF inv _ _ _ ok]) simp_all
  show ?thesis
  proof (cases "TH_RUN \<in> state (thread s t)")
    case True
    have "TH_WAIT \<notin> state (thread s t)" using ip(3) [of t] w True by (simp add: st_ok_def sw_ok_def)
    then have "runnable ?v" using True aw(6) by (simp add: runnable_def flag_set_eq)
    then obtain u where u: "thread_setrun t True (upd_thread t (\<lambda>_. ?v) s) = Inr (Some u)" "inv_at a ({t} - {t}) u" "only_thread t (upd_thread t (\<lambda>_. ?v) s) u" "requeued ?v (thread u t)"
      using setrun_inv [OF inv1, of t True] aw by auto
    then show ?thesis using eq True same_env_trans [OF same_env_upd(1), of t "\<lambda>_. ?v" s u] by (simp add: only_thread_def requeued_def)
  next
    case False
    then have "placed a (upd_thread t (\<lambda>_. ?v) s) t" by (simp add: placed_def)
    then have "inv_at a {} (upd_thread t (\<lambda>_. ?v) s)" using inv1 by (auto simp: inv_at_def)
    then show ?thesis using eq False by simp
  qed
qed

lemma swapout_scan_ok:
  assumes "inv_at a {} s" and "0 \<notin> set ths"
  shows "\<exists>u. swapout_scan ths s = Inr (Some u) \<and> inv_at a {} u \<and> same_env s u"
  using assms
proof (induction ths arbitrary: s)
  case (Cons t ths)
  define c where "c \<longleftrightarrow> state (thread s t) \<inter> {TH_RUN, TH_SWAPPED} = {} \<and> swap_state (thread s t) = TH_SW_IN \<and> interruptible (thread s t) \<and>
      sched_tick s - sched_stamp (thread s t) > 10"
  show ?case
  proof (cases c)
    case True
    have m: "inv_at a {} (swapout_mark t s)" using swapout_mark_inv [OF Cons.prems(1)] Cons.prems(2) by simp
    have "swap_state (thread (swapout_mark t s) t) = TH_SW_GOING_OUT" "same_env s (swapout_mark t s)"
      using True by (simp_all add: c_def swapout_mark_def)
    then obtain u where u: "thread_swapout t (swapout_mark t s) = Inr (Some u)" "inv_at a {} u" "same_env s u"
      using swapout_ok [OF m, of t] same_env_trans by auto
    then obtain w where "swapout_scan ths u = Inr (Some w)" "inv_at a {} w" "same_env s w" using Cons.IH [OF u(2)] Cons.prems(2) same_env_trans [OF u(3)] by auto
    then show ?thesis unfolding swapout_scan.simps if_P [OF True [unfolded c_def]] using u(1) by simp
  next
    case False
    then show ?thesis unfolding swapout_scan.simps if_not_P [OF False [unfolded c_def]] using Cons.IH [OF Cons.prems(1)] Cons.prems(2) by simp
  qed
qed simp

lemma recompute_ok:
  assumes inv: "inv_at a {} s"
  shows "\<exists>u. recompute_priorities lbolt i s = Inr (Some u) \<and> inv_at a {} u \<and> active_thread u = active_thread s"
proof -
  let ?s = "s\<lparr>sched_tick := sched_tick s + 1\<rparr>"
  have "inv_at a {} ?s" using inv by (rule inv_at_eq) simp_all
  then obtain t where t: "thread_wakeup lbolt ?s = Inr (Some t)" "inv_at a {} t" "same_env ?s t" using thread_wakeup_ok wakes_env by blast
  obtain u where u: "clear_wait i THREAD_AWAKENED False t = Inr (Some u)" "inv_at a {} u" "same_env t u" using clear_wait_inv [OF t(2)] by blast
  show ?thesis using t u by (cases "i = 0") (simp_all add: recompute_priorities_def same_env_def)
qed

subsection \<open>Reachable states\<close>

text \<open>
  At the start one thread runs, the idle thread exists and every other thread is as \<^verbatim>\<open>thread_create\<close> leaves it:
  suspended, waiting for nothing and on no queue.  \<open>0\<close> is no thread.
\<close>

definition sched_start :: "sched \<Rightarrow> bool" where
  "sched_start s \<longleftrightarrow> (\<forall>i. wait_queue s i = []) \<and>
     (\<forall>q. rcount (rq s q) = 0 \<and> 0 \<le> high (rq s q) \<and> high (rq s q) < int NRQS \<and> (\<forall>i. rqs (rq s q) i = [])) \<and>
     pstate s = PROCESSOR_RUNNING \<and> idle_count s = 0 \<and> next_thread s = 0 \<and> idle_thread s \<noteq> 0 \<and> active_thread s \<noteq> 0 \<and> active_thread s \<noteq> idle_thread s \<and>
     (\<forall>t. wait_event (thread s t) = 0 \<and> runq (thread s t) = None \<and> swap_state (thread s t) \<in> {TH_SW_IN, TH_SW_UNSWAPPABLE} \<and> timers_ok (thread s t) \<and>
       state (thread s t) = (if t = 0 then {} else if t = idle_thread s then {TH_RUN, TH_IDLE} else if t = active_thread s then {TH_RUN} else {TH_SUSP}))"

lemma start_inv:
  assumes "sched_start s"
  shows "sched_inv s"
proof -
  have q: "wait_queue s i = []" "rcount (rq s q) = 0" "0 \<le> high (rq s q)" "high (rq s q) < int NRQS" "rqs (rq s q) i = []" for i q
    using assms by (simp_all add: sched_start_def)
  have t: "wait_event (thread s t) = 0" "runq (thread s t) = None" "swap_state (thread s t) \<in> {TH_SW_IN, TH_SW_UNSWAPPABLE}" "timers_ok (thread s t)"
    "state (thread s t) = (if t = 0 then {} else if t = idle_thread s then {TH_RUN, TH_IDLE} else if t = active_thread s then {TH_RUN} else {TH_SUSP})" for t
    using assms unfolding sched_start_def by blast+
  have p: "pstate s = PROCESSOR_RUNNING" "idle_count s = 0" "next_thread s = 0" "idle_thread s \<noteq> 0" "active_thread s \<noteq> 0" "active_thread s \<noteq> idle_thread s"
    using assms by (simp_all add: sched_start_def)
  have "wq_ok s" "rq_ok s" using q t by (simp_all add: wq_ok_def rq_ok_def hint_ok_def)
  moreover have "st_ok (thread s x)" for x using t(1-4) [of x] by (auto simp: st_ok_def sw_ok_def t(5))
  moreover have "proc_ok (active_thread s) s" using p t by (auto simp: proc_ok_def idle_ok_def cpu_ok_def run_ok_def next_ok_def split: if_split_asm)
  moreover have "placed (active_thread s) s x" for x by (simp add: placed_def t(5))
  ultimately show ?thesis by (simp add: sched_inv_def inv_at_def)
qed

inductive sched_reach :: "sched \<Rightarrow> bool" where
  start: "sched_start s \<Longrightarrow> sched_reach s"
| wait: "sched_reach s \<Longrightarrow> can_sleep_now s \<Longrightarrow> assert_wait event intr s = Inr s' \<Longrightarrow> sched_reach s'"
| set_timeout: "sched_reach s \<Longrightarrow> sched_reach (thread_set_timeout s)"
| wakeup: "sched_reach s \<Longrightarrow> thread_wakeup_prim event one r s = Inr (Some s') \<Longrightarrow> sched_reach s'"
| clear: "sched_reach s \<Longrightarrow> clear_wait t r io s = Inr (Some s') \<Longrightarrow> sched_reach s'"
| expire: "sched_reach s \<Longrightarrow> thread_timeout t s = Inr (Some s') \<Longrightarrow> sched_reach s'"
| block: "sched_reach s \<Longrightarrow> pstate s = PROCESSOR_RUNNING \<Longrightarrow> thread_block s = Inr (Some s') \<Longrightarrow> sched_reach s'"
| idle: "sched_reach s \<Longrightarrow> pstate s \<noteq> PROCESSOR_RUNNING \<Longrightarrow> idle_turn s = Inr (Some s') \<Longrightarrow> sched_reach s'"
| pri: "sched_reach s \<Longrightarrow> set_pri t p s = Inr (Some s') \<Longrightarrow> sched_reach s'"
| compute: "sched_reach s \<Longrightarrow> compute_priority t s = Inr (Some s') \<Longrightarrow> sched_reach s'"
| compute_my: "sched_reach s \<Longrightarrow> sched_reach (compute_my_priority (active_thread s) s)"
| clock: "sched_reach s \<Longrightarrow> recompute_priorities lbolt i s = Inr (Some s') \<Longrightarrow> sched_reach s'"
| scan: "sched_reach s \<Longrightarrow> do_thread_scan s = Inr (Some s') \<Longrightarrow> sched_reach s'"
| bind: "sched_reach s \<Longrightarrow> sched_reach (thread_bind t b s)"
| hold: "sched_reach s \<Longrightarrow> t \<noteq> 0 \<Longrightarrow> t \<noteq> idle_thread s \<Longrightarrow> sched_reach (thread_hold t s)"
| release: "sched_reach s \<Longrightarrow> t \<noteq> 0 \<Longrightarrow> t \<noteq> idle_thread s \<Longrightarrow> thread_release t s = Inr (Some s') \<Longrightarrow> sched_reach s'"
| dowait: "sched_reach s \<Longrightarrow> can_sleep_now s \<Longrightarrow> thread_dowait t s = Inr (Some (b, s')) \<Longrightarrow> sched_reach s'"
| suspend: "sched_reach s \<Longrightarrow> can_sleep_now s \<Longrightarrow> t \<noteq> idle_thread s \<Longrightarrow> thread_suspend t s = Inr (Some (k, s')) \<Longrightarrow> sched_reach s'"
| resume: "sched_reach s \<Longrightarrow> t \<noteq> idle_thread s \<Longrightarrow> thread_resume t s = Inr (Some (k, s')) \<Longrightarrow> sched_reach s'"
| swapout: "sched_reach s \<Longrightarrow> 0 \<notin> set ths \<Longrightarrow> swapout_scan ths s = Inr (Some s') \<Longrightarrow> sched_reach s'"
| swapin: "sched_reach s \<Longrightarrow> swap_state (thread s t) = TH_SW_COMING_IN \<Longrightarrow> \<not> sw_make_unswappable (thread s t) \<Longrightarrow>
    thread_doswapin t s = Inr (Some s') \<Longrightarrow> sched_reach s'"

lemma sched_inv_env: "inv_at (active_thread s) {} u \<Longrightarrow> same_env s u \<Longrightarrow> sched_inv u"
  by (simp add: sched_inv_def same_env_def)

lemma bind_inv: "sched_inv s \<Longrightarrow> sched_inv (thread_bind t b s)"
  unfolding thread_bind_def by (rule sched_inv_core) (simp_all add: same_core_def)

lemma reach_inv:
  assumes "sched_reach s"
  shows "sched_inv s"
  using assms
proof (induction rule: sched_reach.induct)
  case (start s)
  then show ?case by (rule start_inv)
next
  case (wait s event intr s')
  then show ?case using assert_wait_ok [of s event intr] by (auto simp: can_sleep_now_def)
next
  case (set_timeout s)
  then show ?case by (intro set_timeout_inv)
next
  case (wakeup s event one r s')
  then show ?case using wakeup_prim_ok [of "active_thread s" "{}" s event one r] sched_inv_env [of s s'] by (auto simp: sched_inv_def walk_post_def wakes_def)
next
  case (clear s t r io s')
  then show ?case using clear_wait_inv [of "active_thread s" "{}" s t r io] sched_inv_env [of s s'] by (auto simp: sched_inv_def)
next
  case (expire s t s')
  then show ?case using thread_timeout_inv [of "active_thread s" "{}" s t] sched_inv_env [of s s'] by (auto simp: sched_inv_def)
next
  case (block s s')
  then show ?case using block_ok [of s] by auto
next
  case (idle s s')
  then have "pstate s = PROCESSOR_DISPATCHING \<or> pstate s = PROCESSOR_IDLE" by (auto simp: sched_inv_def inv_at_def proc_ok_def cpu_ok_def)
  then show ?case using idle dispatch_ok [of s] idle_block_ok [of s] by auto
next
  case (pri s t p s')
  then show ?case using set_pri_ok [of "active_thread s" s t p] sched_inv_env [of s s'] by (auto simp: sched_inv_def)
next
  case (compute s t s')
  then show ?case using compute_priority_ok [of "active_thread s" s t] sched_inv_env [of s s'] by (auto simp: sched_inv_def)
next
  case (compute_my s)
  then show ?case by (intro compute_my_priority_inv)
next
  case (clock s lbolt i s')
  then show ?case using recompute_ok [of "active_thread s" s lbolt i] by (auto simp: sched_inv_def)
next
  case (scan s s')
  then show ?case using do_thread_scan_ok [of "active_thread s" s] sched_inv_env [of s s'] by (auto simp: sched_inv_def only_threads_def)
next
  case (bind s t b)
  then show ?case by (intro bind_inv)
next
  case (hold s t)
  then show ?case using hold_inv [of "active_thread s" s t] by (simp add: sched_inv_def thread_hold_def)
next
  case (release s t s')
  then show ?case using release_ok [of "active_thread s" s t] sched_inv_env [of s s'] by (auto simp: sched_inv_def)
next
  case (dowait s t b s')
  then show ?case using dowait_ok [of s t] by auto
next
  case (suspend s t k s')
  then show ?case using suspend_ok [of s t] by auto
next
  case (resume s t k s')
  then show ?case using resume_ok [of s t] by auto
next
  case (swapout s ths s')
  then show ?case using swapout_scan_ok [of "active_thread s" s ths] sched_inv_env [of s s'] by (auto simp: sched_inv_def)
next
  case (swapin s t s')
  then show ?case using doswapin_ok [of "active_thread s" s t] sched_inv_env [of s s'] by (auto simp: sched_inv_def)
qed

end
