(* ===== verification/SchedDemo.thy ===== *)
theory SchedDemo
  imports SchedReach
begin

text \<open>A small system for the witnesses: the idle thread 1, the running thread 2 and suspended threads.\<close>

definition demo_thread :: "th_flag set \<Rightarrow> thread" where
  "demo_thread st = \<lparr>runq = None, wait_event = 0, suspend_count = (if TH_SUSP \<in> st then 1 else 0), interruptible = True, wait_result = 0,
     timer_set = False, wake_active = False, swap_state = TH_SW_IN, sw_make_unswappable = False, state = st, priority = 10, sched_pri = 10,
     sched_data = 0, policy = POLICY_TIMESHARE, depress_priority = -1, cpu_usage = 0, sched_usage = 0, sched_stamp = 0, user_stop_count = 0,
     user_timer = timer_init, system_timer = timer_init, user_timer_save = \<lparr>ts_low = 0, ts_high = 0\<rparr>,
     system_timer_save = \<lparr>ts_low = 0, ts_high = 0\<rparr>, cpu_delta = 0, sched_delta = 0, halted = False, bound = False\<rparr>"

definition demo :: sched where
  "demo = \<lparr>thread = (\<lambda>t. demo_thread (if t = 0 then {} else if t = 1 then {TH_RUN, TH_IDLE} else if t = 2 then {TH_RUN} else {TH_SUSP})),
     wait_queue = (\<lambda>i. []), rq = (\<lambda>q. \<lparr>rqs = (\<lambda>i. []), high = 0, rcount = 0\<rparr>), active_thread = 2, idle_thread = 1, next_thread = 0,
     pstate = PROCESSOR_RUNNING, idle_count = 0, first_quantum = True, quantum = 10, min_quantum = 5, set_quantum = 10, policy_fixedpri = False,
     sched_load = 0, sched_tick = 0, ast = False, timeouts = [], swapin_queue = [], swapping_thread = 7, wake_active_ev = (\<lambda>t. int t + 1000),
     swap_state_ev = (\<lambda>t. int t + 2000), timer_unit = 0x80000000, same_thread_count = 0\<rparr>"

lemma sched_demo_start: "sched_start demo"
  by (simp add: sched_start_def demo_def demo_thread_def NRQS_def timers_ok_def timer_init_def)

text \<open>Thread 3 is released and goes to its run queue; the running thread then decides to wait for event 100.\<close>

definition demo_run :: sched where
  "demo_run = run_queue_enqueue Pset_runq 3 (upd_thread 3 (\<lambda>v. v\<lparr>suspend_count := 0, halted := False, state := {TH_RUN}\<rparr>) demo)"

lemma demo_release: "thread_release 3 demo = Inr (Some demo_run)"
  by (simp add: thread_release_def thread_setrun_def demo_def demo_thread_def demo_run_def upd_thread_def Let_def whichq_def NRQS_def run_queue_enqueue_def upd_rq_def)

lemma demo_run_reach: "sched_reach demo_run"
proof (rule sched_reach.release [OF sched_reach.start [OF sched_demo_start] _ _ demo_release])
  show "(3 :: ptr) \<noteq> 0" "3 \<noteq> idle_thread demo" by (simp_all add: demo_def)
qed

definition demo_wait :: sched where
  "demo_wait = (case assert_wait 100 True demo of Inr u \<Rightarrow> u | Inl _ \<Rightarrow> demo)"

lemma demo_wait_eq: "assert_wait 100 True demo = Inr demo_wait"
  by (simp add: demo_wait_def assert_wait_def demo_def demo_thread_def Let_def upd_thread_def)

lemma demo_wait_reach: "sched_reach demo_wait"
proof (rule sched_reach.wait [OF sched_reach.start [OF sched_demo_start] _ demo_wait_eq])
  show "can_sleep_now demo" by (simp add: can_sleep_now_def demo_def demo_thread_def)
qed

text \<open>Two ticks later the priority of thread 3 is out of date.\<close>

lemma demo_clock:
  assumes "sched_reach s" and "\<And>i. wait_queue s i = []"
  shows "sched_reach (s\<lparr>sched_tick := sched_tick s + 1\<rparr>)"
proof -
  let ?s = "s\<lparr>sched_tick := sched_tick s + 1\<rparr>"
  have "thread_wakeup 0 ?s = Inr (Some ?s)"
    using assms(2) by (simp add: thread_wakeup_def thread_wakeup_prim_def wakeup_fuel_def waiters_def)
  then have "recompute_priorities 0 0 s = Inr (Some ?s)" by (simp add: recompute_priorities_def)
  then show ?thesis by (rule sched_reach.clock [OF assms(1)])
qed

definition demo_late :: sched where
  "demo_late = demo_run\<lparr>sched_tick := 2\<rparr>"

lemma demo_late_reach: "sched_reach demo_late"
proof -
  have wq: "wait_queue demo_run i = []" for i by (simp add: demo_run_def enqueue_frame demo_def)
  have tk: "sched_tick demo_run = 0" by (simp add: demo_run_def demo_def run_queue_enqueue_def Let_def upd_thread_def upd_rq_def)
  have "sched_reach (demo_run\<lparr>sched_tick := 1\<rparr>)" using demo_clock [OF demo_run_reach wq] tk by simp
  from demo_clock [OF this] show ?thesis using wq by (simp add: demo_late_def)
qed

text \<open>Thread 3 is suspended again while it is on the run queue.\<close>

definition demo_hold :: sched where
  "demo_hold = thread_hold 3 demo_run"

lemma demo_hold_reach: "sched_reach demo_hold"
  unfolding demo_hold_def by (rule sched_reach.hold [OF demo_run_reach]) (simp_all add: demo_run_def enqueue_frame demo_def)

end
