(* ===== verification/SchedProps.thy ===== *)
theory SchedProps
  imports SchedDemo
begin

text \<open>
  The properties of the scheduler, each on the states its operations reach, and the table of thread states of the
  comment in \<^verbatim>\<open>kern/sched_prim.c\<close> as a specification of the operations.
\<close>

subsection \<open>Counting\<close>

lemma rcount_card:
  assumes inv: "inv_at a E s"
  shows "rcount (rq s q) = int (card {t. runq (thread s t) = Some q})"
proof -
  let ?r = "rqs (rq s q)"
  have h: "hint_ok (rq s q)" and d: "\<And>i. distinct (?r i)" and m: "\<And>x i. x \<in> set (?r i) \<longleftrightarrow> runq (thread s x) = Some q \<and> i = whichq (thread s x)"
    using inv_parts(2) [OF inv] by (auto simp: rq_ok_def)
  have "{t. runq (thread s t) = Some q} = (\<Union>i<NRQS. set (?r i))" using m whichq_lt by blast
  also have "card \<dots> = (\<Sum>i<NRQS. card (set (?r i)))" by (rule card_UN_disjoint) (use m in auto)
  also have "\<dots> = (\<Sum>i<NRQS. length (?r i))" by (simp add: distinct_card [OF d])
  finally show ?thesis using h by (simp add: hint_ok_def)
qed

lemma front_best:
  assumes inv: "inv_at a E s" and f: "front q s n"
  shows "runq (thread s n) = Some q" "\<And>x. runq (thread s x) = Some q \<Longrightarrow> whichq (thread s x) \<le> whichq (thread s n)"
    "hd (rqs (rq s q) (whichq (thread s n))) = n"
proof -
  have m: "x \<in> set (rqs (rq s q) i) \<longleftrightarrow> runq (thread s x) = Some q \<and> i = whichq (thread s x)" for x i
    using inv_parts(2) [OF inv] by (auto simp: rq_ok_def)
  obtain ts where ts: "rqs (rq s q) (whichq (thread s n)) = n # ts" and top: "\<And>j. whichq (thread s n) < j \<Longrightarrow> rqs (rq s q) j = []"
    using f by (auto simp: front_def)
  show "runq (thread s n) = Some q" using m [of n "whichq (thread s n)"] ts by simp
  show "hd (rqs (rq s q) (whichq (thread s n))) = n" using ts by simp
  show "whichq (thread s x) \<le> whichq (thread s n)" if "runq (thread s x) = Some q" for x
  proof (rule ccontr)
    assume "\<not> ?thesis"
    then have "rqs (rq s q) (whichq (thread s x)) = []" using top by simp
    then show False using m [of x "whichq (thread s x)"] that by simp
  qed
qed

lemma reach_inv_at: "sched_reach s \<Longrightarrow> inv_at (active_thread s) {} s"
  using reach_inv by (simp add: sched_inv_def)

subsection \<open>No thread is lost\<close>

text \<open>C3: No thread is lost, in every state the scheduler's operations reach.  A thread that is marked running and is
  not swapped out is the current thread, on a run queue, or dispatched to the idle processor; the run queues hold
  exactly the threads that say so, each once in the queue of its priority, all of them runnable and none of them the
  current one, and their counts are exact; the wait queues hold exactly the threads that wait for an event, each once in
  the bucket of its event, all of them marked waiting.\<close>

theorem sched_no_thread_lost:
  assumes "sched_reach s"
  shows "(\<forall>t. TH_RUN \<in> state (thread s t) \<and> TH_SWAPPED \<notin> state (thread s t) \<and> t \<noteq> idle_thread s \<longrightarrow>
       t = active_thread s \<or> runq (thread s t) \<noteq> None \<or> pstate s = PROCESSOR_DISPATCHING \<and> t = next_thread s) \<and>
     (\<forall>q i t. t \<in> set (rqs (rq s q) i) \<longleftrightarrow> runq (thread s t) = Some q \<and> i = whichq (thread s t)) \<and>
     (\<forall>q i. distinct (rqs (rq s q) i)) \<and> (\<forall>q. rcount (rq s q) = int (card {t. runq (thread s t) = Some q})) \<and>
     (\<forall>t. runq (thread s t) \<noteq> None \<longrightarrow> TH_RUN \<in> state (thread s t) \<and> TH_WAIT \<notin> state (thread s t) \<and> TH_SWAPPED \<notin> state (thread s t) \<and>
       t \<noteq> active_thread s \<and> t \<noteq> idle_thread s) \<and>
     (\<forall>i t. t \<in> set (wait_queue s i) \<longleftrightarrow> wait_event (thread s t) \<noteq> 0 \<and> i = wait_hash (wait_event (thread s t))) \<and>
     (\<forall>i. distinct (wait_queue s i)) \<and> (\<forall>t. wait_event (thread s t) \<noteq> 0 \<longrightarrow> TH_WAIT \<in> state (thread s t))"
proof (intro conjI allI impI)
  note inv = reach_inv_at [OF assms] and ip = inv_parts [OF reach_inv_at [OF assms]]
  have pr: "idle_ok s" "cpu_ok (active_thread s) s" "run_ok (thread s (active_thread s))" using ip(4) by (simp_all add: proc_ok_def)
  show "t \<in> set (rqs (rq s q) i) \<longleftrightarrow> runq (thread s t) = Some q \<and> i = whichq (thread s t)" "distinct (rqs (rq s q) i)" for q i t
    using ip(2) by (auto simp: rq_ok_def)
  show "t \<in> set (wait_queue s i) \<longleftrightarrow> wait_event (thread s t) \<noteq> 0 \<and> i = wait_hash (wait_event (thread s t))" "distinct (wait_queue s i)" for i t
    using ip(1) by (auto simp: wq_ok_def)
  show "rcount (rq s q) = int (card {t. runq (thread s t) = Some q})" for q by (rule rcount_card [OF inv])
  show "TH_WAIT \<in> state (thread s t)" if "wait_event (thread s t) \<noteq> 0" for t using ip(3) [of t] that by (simp add: st_ok_def)
  show "t = active_thread s \<or> runq (thread s t) \<noteq> None \<or> pstate s = PROCESSOR_DISPATCHING \<and> t = next_thread s"
    if "TH_RUN \<in> state (thread s t) \<and> TH_SWAPPED \<notin> state (thread s t) \<and> t \<noteq> idle_thread s" for t
  proof -
    have "t \<noteq> 0" using pr(1) that by (cases "t = 0") (simp_all add: idle_ok_def)
    then show ?thesis using ip(5) [of t] that pr(2) by (auto simp: placed_def cpu_ok_def)
  qed
  fix t assume q: "runq (thread s t) \<noteq> None"
  then have r: "runnable (thread s t)" using ip(3) [of t] by (simp add: st_ok_def)
  then show "TH_RUN \<in> state (thread s t)" "TH_WAIT \<notin> state (thread s t)" "TH_SWAPPED \<notin> state (thread s t)" using runnable_flags by blast+
  show "t \<noteq> active_thread s" using q pr(3) by (auto simp: run_ok_def)
  show "t \<noteq> idle_thread s" using q inv_idle(6) [OF inv, of t] by auto
qed

lemma demo_run_simps:
  "thread demo_run t = (if t = 3 then (demo_thread {TH_SUSP})\<lparr>suspend_count := 0, halted := False, state := {TH_RUN}, runq := Some Pset_runq\<rparr>
     else demo_thread (if t = 0 then {} else if t = 1 then {TH_RUN, TH_IDLE} else if t = 2 then {TH_RUN} else {TH_SUSP}))"
  "pstate demo_run = PROCESSOR_RUNNING" "active_thread demo_run = 2" "idle_thread demo_run = 1" "wait_queue demo_run i = []"
  by (simp_all add: demo_run_def enqueue_frame demo_def)

theorem sched_no_thread_lost_witness:
  "sched_reach demo_run \<and> 3 \<in> set (rqs (rq demo_run Pset_runq) 10) \<and> rcount (rq demo_run Pset_runq) = int (card {t. runq (thread demo_run t) = Some Pset_runq})"
proof -
  have "runq (thread demo_run 3) = Some Pset_runq \<and> 10 = whichq (thread demo_run 3)"
    by (simp add: demo_run_simps whichq_def NRQS_def demo_thread_def)
  then show ?thesis using sched_no_thread_lost [OF demo_run_reach] demo_run_reach by blast
qed

subsection \<open>Choosing the next thread\<close>

text \<open>C6: Giving up the processor (\<^verbatim>\<open>thread_block\<close>) always succeeds, and the thread that runs next is the right one: the
  first thread, in order of arrival, among those of the highest priority on the processor's own run queue; if that
  queue is empty, on the run queue of the processor set; if that is empty too, the caller if it can go on running, and
  the idle thread otherwise.\<close>

theorem thread_block_picks:
  assumes "sched_reach s" and "pstate s = PROCESSOR_RUNNING"
  shows "\<exists>u. thread_block s = Inr (Some u) \<and>
     (let n = active_thread u;
          best = (\<lambda>q. runq (thread s n) = Some q \<and> (\<forall>x. runq (thread s x) = Some q \<longrightarrow> whichq (thread s x) \<le> whichq (thread s n)) \<and>
                   hd (rqs (rq s q) (whichq (thread s n))) = n)
      in if \<exists>x. runq (thread s x) = Some Proc_runq then best Proc_runq
         else if \<exists>x. runq (thread s x) = Some Pset_runq then best Pset_runq
         else if state (thread s (active_thread s)) = {TH_RUN} then n = active_thread s
         else n = idle_thread s)"
proof -
  obtain u where u: "thread_block s = Inr (Some u)" "block_spec s (active_thread u)" using block_ok [OF reach_inv [OF assms(1)] assms(2)] by blast
  note best = front_best [OF reach_inv_at [OF assms(1)], of _ "active_thread u"]
  consider "\<exists>x. runq (thread s x) = Some Proc_runq" | "\<nexists>x. runq (thread s x) = Some Proc_runq" "\<exists>x. runq (thread s x) = Some Pset_runq"
    | "\<nexists>x. runq (thread s x) = Some Proc_runq" "\<nexists>x. runq (thread s x) = Some Pset_runq" by blast
  then show ?thesis
  proof cases
    case 1
    then have "front Proc_runq s (active_thread u)" using u(2) unfolding block_spec_def if_P [OF 1] by simp
    then show ?thesis using u(1) 1 best [of Proc_runq] by (simp add: Let_def)
  next
    case 2
    then have "front Pset_runq s (active_thread u)" using u(2) unfolding block_spec_def if_not_P [OF 2(1)] if_P [OF 2(2)] by simp
    then show ?thesis using u(1) 2 best [of Pset_runq] by (simp add: Let_def)
  next
    case 3
    then show ?thesis using u unfolding block_spec_def if_not_P [OF 3(1)] if_not_P [OF 3(2)] Let_def by blast
  qed
qed

theorem thread_block_picks_witness:
  "sched_reach demo_run \<and> pstate demo_run = PROCESSOR_RUNNING \<and> (\<exists>u. thread_block demo_run = Inr (Some u) \<and> active_thread u = 3)"
proof -
  have q: "runq (thread demo_run x) = Some Pset_runq \<longleftrightarrow> x = 3" "runq (thread demo_run x) \<noteq> Some Proc_runq" for x
    by (simp_all add: demo_run_simps demo_thread_def)
  have p: "pstate demo_run = PROCESSOR_RUNNING" by (rule demo_run_simps)
  have "\<exists>u. thread_block demo_run = Inr (Some u) \<and> runq (thread demo_run (active_thread u)) = Some Pset_runq"
    using thread_block_picks [OF demo_run_reach p] q by (auto simp: Let_def)
  then show ?thesis using q(1) p demo_run_reach by blast
qed

subsection \<open>Waking the threads that wait for an event\<close>

lemma wakeup_nobody:
  assumes inv: "inv_at a E s" and "filter (\<lambda>t. wait_event (thread s t) = event) (wait_queue s (wait_hash event)) = []"
  shows "thread_wakeup_prim event one r s = Inr (Some s)"
  unfolding thread_wakeup_prim_def
  by (rule walk_none) (use assms(2) wakeup_fuel_enough [of s event] in \<open>auto simp: walk_fuel_def filter_empty_conv\<close>)

lemma wakes_waiter:
  assumes "wakes {(event, r), (swapping_thread s, THREAD_AWAKENED)} s u" and "wait_event (thread s t) = event" "event \<noteq> 0" "wait_event (thread u t) = 0"
  shows "\<not> timer_set (thread u t)" "state (thread u t) = awake (thread s t)" "event \<noteq> swapping_thread s \<or> r = THREAD_AWAKENED \<Longrightarrow> wait_result (thread u t) = r"
  using wakes_cases [OF assms(1), of t] assms(2-4) by (auto simp: woken_def)

text \<open>C5: \<^verbatim>\<open>thread_wakeup_prim\<close> ends without panic and wakes exactly the right threads.  Without \<^verbatim>\<open>one_thread\<close> every thread
  that waits for the event is woken; with it only the first of them, if there is one.  A woken thread waits for nothing,
  has its timer cancelled and can run, unless it is suspended.  No other thread changes, except that the
  swapper is woken when a swapped-out thread is to come back.\<close>

theorem thread_wakeup_prim_exact:
  assumes "sched_reach s" and "event \<noteq> 0"
  shows "\<exists>u. thread_wakeup_prim event one result s = Inr (Some u) \<and>
     (let waiting = filter (\<lambda>t. wait_event (thread s t) = event) (wait_queue s (wait_hash event));
          wakened = (if one then take 1 waiting else waiting)
      in (\<forall>t \<in> set wakened. wait_event (thread u t) = 0 \<and> \<not> timer_set (thread u t) \<and> state (thread u t) = awake (thread s t) \<and>
            (event \<noteq> swapping_thread s \<or> result = THREAD_AWAKENED \<longrightarrow> wait_result (thread u t) = result)) \<and>
         (\<forall>t. t \<notin> set wakened \<longrightarrow> wait_event (thread s t) \<noteq> swapping_thread s \<or> waiting = [] \<longrightarrow> thread u t = thread s t))"
proof -
  note inv = reach_inv_at [OF assms(1)]
  let ?W = "filter (\<lambda>t. wait_event (thread s t) = event) (wait_queue s (wait_hash event))"
  have mem: "t \<in> set ?W \<longleftrightarrow> wait_event (thread s t) = event" for t using inv_parts(1) [OF inv] assms(2) by (auto simp: wq_ok_def)
  obtain u where u: "thread_wakeup_prim event one result s = Inr (Some u)" "walk_post event one result (wait_queue s (wait_hash event)) s u"
    using wakeup_prim_ok [OF inv] by blast
  have w: "wakes {(event, result), (swapping_thread s, THREAD_AWAKENED)} s u" using u(2) by (simp add: walk_post_def)
  have other: "thread u t = thread s t" if "wait_event (thread s t) \<noteq> event" "wait_event (thread s t) \<noteq> swapping_thread s" for t
    using wakes_cases [OF w, of t] that by auto
  show ?thesis
  proof (cases "?W = []")
    case True
    then show ?thesis using wakeup_nobody [OF inv True] by (auto simp: Let_def)
  next
    case False
    then obtain t0 ts where W: "?W = t0 # ts" by (cases ?W) auto
    have t0: "wait_event (thread s t0) = event" using mem [of t0] W by simp
    show ?thesis
    proof (cases one)
      case True
      obtain b where b: "wakes_one b t0 result s u" using u(2) True W by (auto simp: walk_post_def)
      have 1: "wait_event (thread u t0) = 0" "\<not> timer_set (thread u t0)" "state (thread u t0) = awake (thread s t0)" "wait_result (thread u t0) = result"
        using b by (simp_all add: wakes_one_def woken_def)
      have "thread u t = thread s t" if "t \<noteq> t0" "wait_event (thread s t) \<noteq> swapping_thread s" for t
        using b that unfolding wakes_one_def by blast
      then show ?thesis using u(1) True W 1 by (simp add: Let_def)
    next
      case False
      have 0: "wait_event (thread u t) = 0" if "t \<in> set ?W" for t using u(2) False that by (simp add: walk_post_def)
      have A: "\<forall>t \<in> set ?W. wait_event (thread u t) = 0 \<and> \<not> timer_set (thread u t) \<and> state (thread u t) = awake (thread s t) \<and>
          (event \<noteq> swapping_thread s \<or> result = THREAD_AWAKENED \<longrightarrow> wait_result (thread u t) = result)"
      proof
        fix t assume t: "t \<in> set ?W"
        then have "wait_event (thread s t) = event" using mem by blast
        then show "wait_event (thread u t) = 0 \<and> \<not> timer_set (thread u t) \<and> state (thread u t) = awake (thread s t) \<and>
          (event \<noteq> swapping_thread s \<or> result = THREAD_AWAKENED \<longrightarrow> wait_result (thread u t) = result)"
          using wakes_waiter [OF w _ assms(2) 0 [OF t]] 0 [OF t] by blast
      qed
      have B: "\<forall>t. t \<notin> set ?W \<longrightarrow> wait_event (thread s t) \<noteq> swapping_thread s \<or> ?W = [] \<longrightarrow> thread u t = thread s t"
        using other mem \<open>?W \<noteq> []\<close> by blast
      show ?thesis unfolding Let_def if_not_P [OF False] using u(1) A B by blast
    qed
  qed
qed

theorem thread_wakeup_prim_exact_witness:
  "sched_reach demo_wait \<and> (100 :: int) \<noteq> 0 \<and> wait_event (thread demo_wait 2) = 100 \<and>
     (\<exists>u. thread_wakeup_prim 100 False 0 demo_wait = Inr (Some u) \<and> wait_event (thread u 2) = 0 \<and> state (thread u 2) = {TH_RUN})"
proof -
  have w: "wait_event (thread demo_wait 2) = 100" "wait_queue demo_wait (wait_hash 100) = [2]" "awake (thread demo_wait 2) = {TH_RUN}"
    by (simp_all add: demo_wait_def assert_wait_def demo_def demo_thread_def Let_def upd_thread_def awake_def)
  then show ?thesis using thread_wakeup_prim_exact [OF demo_wait_reach, of 100 False 0] demo_wait_reach by (auto simp: Let_def)
qed

subsection \<open>The table of thread states\<close>

text \<open>
  The table of the comment at the head of \<^verbatim>\<open>kern/sched_prim.c\<close>: for every state the outcomes of \<^verbatim>\<open>assert_wait\<close>,
  \<^verbatim>\<open>thread_block\<close>, \<^verbatim>\<open>clear_wait\<close>, suspend, resume, swap-out and swap-in.  A dash is an operation that changes nothing, an empty
  cell one that does not apply.  R is running, W waiting, S suspended, N not interruptible, O swapped out.
\<close>

definition state_table :: "(string \<times> string list \<times> string \<times> string \<times> string \<times> string \<times> string \<times> string) list" where
  "state_table =
    [(''R'', [''RW'', ''RWN''], ''R'', ''-'', ''RS'', ''-'', ''-'', ''''),
     (''RS'', [''RWS'', ''RWNS''], ''S'', ''-'', ''-'', ''R'', ''-'', ''''),
     (''RN'', [''RWN''], ''RN'', ''-'', ''RNS'', ''-'', ''-'', ''''),
     (''RNS'', [''RWNS''], ''RNS'', ''-'', ''-'', ''RN'', ''-'', ''''),
     (''RW'', [], ''W'', ''R'', ''RWS'', ''-'', ''-'', ''''),
     (''RWN'', [], ''WN'', ''RN'', ''RWNS'', ''-'', ''-'', ''''),
     (''RWS'', [], ''WS'', ''RS'', ''-'', ''RW'', ''-'', ''''),
     (''RWNS'', [], ''WNS'', ''RNS'', ''-'', ''RWN'', ''-'', ''''),
     (''W'', [], '''', ''R'', ''WS'', ''-'', ''WO'', ''''),
     (''WN'', [], '''', ''RN'', ''WNS'', ''-'', ''-'', ''''),
     (''WNS'', [], '''', ''RNS'', ''-'', ''WN'', ''-'', ''''),
     (''WO'', [], '''', ''RO'', ''WSO'', ''-'', ''-'', ''''),
     (''S'', [], '''', ''-'', ''-'', ''R'', ''SO'', ''''),
     (''SO'', [], '''', ''-'', ''-'', ''RO'', ''-'', ''''),
     (''WS'', [], '''', ''S'', ''-'', ''W'', ''WSO'', ''''),
     (''WSO'', [], '''', ''SO'', ''-'', ''WO'', ''-'', ''''),
     (''RO'', [], '''', ''-'', ''RSO'', ''-'', '''', ''R''),
     (''RSO'', [], '''', ''-'', ''-'', ''RO'', '''', ''RS'')]"

definition letter_flags :: "char \<Rightarrow> th_flag set" where
  "letter_flags c = (if c = CHR ''R'' then {TH_RUN} else if c = CHR ''W'' then {TH_WAIT} else if c = CHR ''S'' then {TH_SUSP}
     else if c = CHR ''O'' then {TH_SWAPPED} else {})"

definition letters :: "string \<Rightarrow> th_flag set \<times> bool" where
  "letters cs = (\<Union>(set (map letter_flags cs)), CHR ''N'' \<in> set cs)"

definition view :: "thread \<Rightarrow> th_flag set \<times> bool" where
  "view v = (state v, \<not> interruptible v)"

definition cell :: "string \<Rightarrow> string \<Rightarrow> string" where
  "cell i c = (if c = ''-'' then i else c)"

text \<open>The operations on what the table shows of a thread.\<close>

definition clear_view :: "th_flag set \<times> bool \<Rightarrow> th_flag set \<times> bool" where
  "clear_view x = (let (st, n) = x in
     if TH_WAIT \<in> st
     then (st - {TH_WAIT} \<union> (if TH_SUSP \<in> st \<and> (\<not> n \<or> TH_SWAPPED \<in> st) then {} else {TH_RUN}), n \<and> TH_RUN \<notin> st \<and> \<not> (TH_SUSP \<in> st \<and> TH_SWAPPED \<in> st))
     else x)"

definition release_view :: "th_flag set \<times> bool \<Rightarrow> th_flag set \<times> bool" where
  "release_view x = (let (st, n) = x in (if TH_WAIT \<notin> st \<and> TH_RUN \<notin> st then insert TH_RUN (st - {TH_SUSP}) else st - {TH_SUSP}, n))"

definition swapout_view :: "th_flag set \<times> bool \<Rightarrow> th_flag set \<times> bool" where
  "swapout_view x = (let (st, n) = x in (if TH_RUN \<notin> st \<and> TH_SWAPPED \<notin> st \<and> \<not> n then insert TH_SWAPPED st else st, n))"

definition leave_view :: "th_flag set \<times> bool \<Rightarrow> th_flag set \<times> bool" where
  "leave_view x = (let (st, n) = x in (if st = {TH_RUN} \<or> st = {TH_RUN, TH_SUSP} \<and> n then st else st - {TH_RUN}, n))"

definition row_ok :: "string \<times> string list \<times> string \<times> string \<times> string \<times> string \<times> string \<times> string \<Rightarrow> bool" where
  "row_ok = (\<lambda>(i, wt, blk, clr, sus, res, out, inn). fst (letters i) \<noteq> {} \<and> TH_IDLE \<notin> fst (letters i) \<and>
     (\<forall>c\<in>set wt. letters c = (insert TH_WAIT (fst (letters i)), CHR ''N'' \<in> set c)) \<and>
     clear_view (letters i) = letters (filter (\<lambda>c. c \<noteq> CHR ''N'' \<or> i \<notin> {''RWN'', ''RWNS''}) (cell i clr)) \<and>
     (insert TH_SUSP (fst (letters i)), snd (letters i)) = letters (cell i sus) \<and> release_view (letters i) = letters (cell i res) \<and>
     (out \<noteq> '''' \<longrightarrow> swapout_view (letters i) = letters (cell i out)) \<and>
     (inn \<noteq> '''' \<longrightarrow> (fst (letters i) - {TH_SWAPPED}, snd (letters i)) = letters inn) \<and>
     (blk \<noteq> '''' \<longrightarrow> leave_view (letters i) = letters (cell i blk)))"

lemma rows_ok: "\<forall>row \<in> set state_table. row_ok row"
  by code_simp

text \<open>Each operation does to a thread what the functions above say.\<close>

lemma view_eqs:
  "TH_WAIT \<in> state v \<Longrightarrow> clear_view (view v) =
     (awake v, \<not> (interruptible v \<or> TH_RUN \<in> state v \<or> TH_SUSP \<in> state v \<and> TH_SWAPPED \<in> state v))"
  "release_view (view v) = (released v, \<not> interruptible v)" "leave_view (view v) = (leave v, \<not> interruptible v)"
  by (auto simp: clear_view_def view_def awake_def release_view_def released_def) (auto simp: leave_view_def leave_def)

lemma clear_wait_view:
  assumes inv: "inv_at a {} s"
  shows "\<exists>u. clear_wait t r False s = Inr (Some u) \<and> view (thread u t) = clear_view (view (thread s t))"
proof (cases "TH_WAIT \<in> state (thread s t)")
  case True
  obtain b u where u: "clear_wait t r False s = Inr (Some u)" "wakes_one b t r s u" using clear_wait_ok [OF inv True, of False r] by blast
  then have "state (thread u t) = awake (thread s t)"
      "interruptible (thread u t) = (interruptible (thread s t) \<or> TH_RUN \<in> state (thread s t) \<or> TH_SUSP \<in> state (thread s t) \<and> TH_SWAPPED \<in> state (thread s t))"
    by (simp_all add: wakes_one_def woken_def)
  then have "view (thread u t) = clear_view (view (thread s t))" unfolding view_eqs(1) [OF True] by (simp add: view_def)
  then show ?thesis using u(1) by blast
next
  case False
  have "view (thread (untimeout t s) t) = view (thread s t)" by (simp add: view_def untimeout_frame)
  then show ?thesis using clear_wait_idle [OF inv, of t False r] False by (simp add: clear_view_def view_def)
qed

lemma release_view:
  assumes inv: "inv_at a {} s" and "t \<noteq> 0" "t \<noteq> idle_thread s" "suspend_count (thread s t) = 1"
  shows "\<exists>u. thread_release t s = Inr (Some u) \<and> view (thread u t) = release_view (view (thread s t))"
  using release_ok [OF inv assms(2, 3)] assms(4) unfolding view_eqs by (auto simp: view_def)

lemma swapout_mark_view:
  assumes "swap_state (thread s t) = TH_SW_IN" "sched_tick s - sched_stamp (thread s t) > 10"
  shows "view (thread (swapout_mark t s) t) = swapout_view (view (thread s t))"
  using assms by (simp add: swapout_mark_def view_def swapout_view_def)

lemma block_view:
  assumes "sched_inv s" "pstate s = PROCESSOR_RUNNING" "active_thread s \<noteq> idle_thread s" "\<not> wake_active (thread s (active_thread s))"
  shows "\<exists>u. thread_block s = Inr (Some u) \<and> view (thread u (active_thread s)) = leave_view (view (thread s (active_thread s)))"
proof -
  obtain u where "thread_block s = Inr (Some u)" "state (thread u (active_thread s)) = leave (thread s (active_thread s))"
      "interruptible (thread u (active_thread s)) = interruptible (thread s (active_thread s))"
    using block_ok [OF assms(1, 2)] assms(3, 4) by blast
  then show ?thesis unfolding view_eqs by (simp add: view_def)
qed

lemma assert_wait_view:
  assumes "wait_event (thread s (active_thread s)) = 0"
  shows "\<exists>u. assert_wait event intr s = Inr u \<and> view (thread u (active_thread s)) = (insert TH_WAIT (state (thread s (active_thread s))), \<not> intr)"
  using assms by (simp add: assert_wait_def Let_def view_def)

text \<open>C4: The operations implement the table of thread states in the comment of \<^verbatim>\<open>sched_prim.c\<close>.  For a thread of a
  reachable state that is in the state of a row, asserting a wait, giving up the processor, ending the wait, suspending,
  resuming the last suspension, marking for swap-out and swapping in succeed and leave the thread in the state of the
  column, with one exception: ending the wait of a thread that still runs (rows RWN and RWNS) also makes it interruptible.\<close>

theorem sched_state_table:
  assumes "sched_reach s" and row: "(i, wt, blk, clr, sus, res, out, inn) \<in> set state_table" and v: "view (thread s t) = letters i"
  shows "(\<exists>u. clear_wait t r False s = Inr (Some u) \<and>
            view (thread u t) = letters (filter (\<lambda>c. c \<noteq> CHR ''N'' \<or> i \<notin> {''RWN'', ''RWNS''}) (cell i clr))) \<and>
     view (thread (thread_hold t s) t) = letters (cell i sus) \<and>
     (suspend_count (thread s t) = 1 \<longrightarrow> (\<exists>u. thread_release t s = Inr (Some u) \<and> view (thread u t) = letters (cell i res))) \<and>
     (out \<noteq> '''' \<and> swap_state (thread s t) = TH_SW_IN \<and> sched_tick s - sched_stamp (thread s t) > 10 \<longrightarrow>
        view (thread (swapout_mark t s) t) = letters (cell i out)) \<and>
     (inn \<noteq> '''' \<and> swap_state (thread s t) = TH_SW_COMING_IN \<and> \<not> sw_make_unswappable (thread s t) \<longrightarrow>
        (\<exists>u. thread_doswapin t s = Inr (Some u) \<and> view (thread u t) = letters inn)) \<and>
     (blk \<noteq> '''' \<and> t = active_thread s \<and> pstate s = PROCESSOR_RUNNING \<and> \<not> wake_active (thread s t) \<longrightarrow>
        (\<exists>u. thread_block s = Inr (Some u) \<and> view (thread u t) = letters (cell i blk))) \<and>
     (\<forall>c \<in> set wt. t = active_thread s \<and> wait_event (thread s t) = 0 \<longrightarrow>
        (\<exists>u. assert_wait event (CHR ''N'' \<notin> set c) s = Inr u \<and> view (thread u t) = letters c))"
proof -
  note inv = reach_inv_at [OF assms(1)]
  have ok: "row_ok (i, wt, blk, clr, sus, res, out, inn)" using rows_ok row by blast
  have st: "state (thread s t) = fst (letters i)" "\<not> interruptible (thread s t) \<longleftrightarrow> snd (letters i)" using arg_cong [OF v, of fst] arg_cong [OF v, of snd] by (simp_all add: view_def)
  have "idle_ok s" using inv_parts(4) [OF inv] by (simp add: proc_ok_def)
  moreover have "state (thread s t) \<noteq> {}" "TH_IDLE \<notin> state (thread s t)" using ok st by (simp_all add: row_ok_def)
  ultimately have t: "t \<noteq> 0" "t \<noteq> idle_thread s" by (auto simp: idle_ok_def)
  show ?thesis
  proof (intro conjI impI ballI)
    show "\<exists>u. clear_wait t r False s = Inr (Some u) \<and> view (thread u t) = letters (filter (\<lambda>c. c \<noteq> CHR ''N'' \<or> i \<notin> {''RWN'', ''RWNS''}) (cell i clr))"
      using clear_wait_view [OF inv, of t r] ok v by (simp add: row_ok_def)
    show "view (thread (thread_hold t s) t) = letters (cell i sus)" using ok st by (simp add: row_ok_def thread_hold_def view_def)
    show "\<exists>u. thread_release t s = Inr (Some u) \<and> view (thread u t) = letters (cell i res)" if "suspend_count (thread s t) = 1"
      using release_view [OF inv t that] ok v by (simp add: row_ok_def)
    show "view (thread (swapout_mark t s) t) = letters (cell i out)"
      if "out \<noteq> '''' \<and> swap_state (thread s t) = TH_SW_IN \<and> sched_tick s - sched_stamp (thread s t) > 10"
      using swapout_mark_view [of s t] that ok v by (simp add: row_ok_def)
    show "\<exists>u. thread_doswapin t s = Inr (Some u) \<and> view (thread u t) = letters inn"
      if "inn \<noteq> '''' \<and> swap_state (thread s t) = TH_SW_COMING_IN \<and> \<not> sw_make_unswappable (thread s t)"
      using doswapin_ok [OF inv, of t] that ok st by (auto simp: row_ok_def view_def)
    show "\<exists>u. thread_block s = Inr (Some u) \<and> view (thread u t) = letters (cell i blk)"
      if "blk \<noteq> '''' \<and> t = active_thread s \<and> pstate s = PROCESSOR_RUNNING \<and> \<not> wake_active (thread s t)"
    proof -
      have t': "t = active_thread s" using that by blast
      show ?thesis using block_view [OF reach_inv [OF assms(1)]] that t(2) ok v unfolding t' by (simp add: row_ok_def)
    qed
    show "\<exists>u. assert_wait event (CHR ''N'' \<notin> set c) s = Inr u \<and> view (thread u t) = letters c"
      if "c \<in> set wt" "t = active_thread s \<and> wait_event (thread s t) = 0" for c
    proof -
      have t': "t = active_thread s" "wait_event (thread s (active_thread s)) = 0" using that by auto
      show ?thesis using assert_wait_view [OF t'(2), of event "CHR ''N'' \<notin> set c"] that(1) ok st(1) unfolding t'(1) by (simp add: row_ok_def)
    qed
  qed
qed

theorem sched_state_table_witness:
  "sched_reach demo \<and> (''S'', [], '''', ''-'', ''-'', ''R'', ''SO'', '''') \<in> set state_table \<and> view (thread demo 3) = letters ''S'' \<and>
     (\<exists>u. thread_release 3 demo = Inr (Some u) \<and> view (thread u 3) = letters ''R'')"
proof -
  have r: "(''S'', [], '''', ''-'', ''-'', ''R'', ''SO'', '''') \<in> set state_table" by (simp add: state_table_def)
  have v: "view (thread demo 3) = letters ''S''" "suspend_count (thread demo 3) = 1"
    by (simp_all add: demo_def demo_thread_def view_def letters_def letter_flags_def)
  have d: "sched_reach demo" by (rule sched_reach.start [OF sched_demo_start])
  have "cell ''S'' ''R'' = ''R''" by (simp add: cell_def)
  then show ?thesis using sched_state_table [OF d r v(1), of 0 0] r v d by simp
qed

subsection \<open>Stuck threads\<close>



subsection \<open>Suspension\<close>

lemma dowait_stopped:
  assumes inv: "inv_at a {} s" and t: "t \<noteq> active_thread s" and susp: "TH_SUSP \<in> state (thread s t)" and d: "thread_dowait t s = Inr (Some (True, u))"
  shows "TH_SUSP \<in> state (thread u t)" "TH_RUN \<notin> state (thread u t)"
proof -
  let ?st = "state (thread s t)" and ?w = "snd (rem_runq t s)"
  let ?v = "upd_thread t (\<lambda>v. v\<lparr>state := {TH_SUSP}\<rparr>) ?w"
  have sw: "TH_SWAPPED \<in> ?st \<Longrightarrow> TH_RUN \<in> ?st \<Longrightarrow> TH_WAIT \<notin> ?st" using inv_parts(3) [OF inv, of t] by (simp add: st_ok_def sw_ok_def)
  have "t \<noteq> idle_thread s" using inv_idle(2) [OF inv, of t] susp by auto
  then have ni: "TH_IDLE \<notin> ?st" using inv_parts(4) [OF inv] by (auto simp: proc_ok_def idle_ok_def)
  have "TH_SUSP \<in> state (thread u t) \<and> TH_RUN \<notin> state (thread u t)"
  proof (cases "?st = {TH_RUN, TH_SUSP} \<and> interruptible (thread s t) \<and> fst (rem_runq t s) \<noteq> None")
    case True
    then obtain q where q: "runq (thread s t) = Some q" by (cases "runq (thread s t)") (auto simp: rem_runq_def)
    note fr = rem_runq_frame [OF q]
    have w0: "wait_event (thread s t) = 0" using inv_parts(3) [OF inv, of t] q runnable_flags [of "thread s t"] by (auto simp: st_ok_def)
    have c1: "\<not> (?st = {TH_SUSP} \<or> ?st = {TH_SUSP, TH_SWAPPED} \<or> ?st = {TH_SUSP, TH_WAIT, TH_SWAPPED})" using True by (auto simp: flag_set_eq)
    have d': "(if wake_active (thread ?v t)
            then rbind (thread_wakeup (wake_active_ev ?v t) (upd_thread t (\<lambda>v. v\<lparr>wake_active := False\<rparr>) ?v)) (\<lambda>s. Inr (Some (True, s)))
            else Inr (Some (True, ?v))) = Inr (Some (True, u))"
      using d t unfolding thread_dowait_def Let_def if_not_P [OF t] if_not_P [OF c1] if_P [OF True] by simp
    have iv: "inv_at a {} ?v" by (rule dowait_stop_ok(1) [OF inv q])
    show ?thesis
    proof (cases "wake_active (thread ?v t)")
      case True
      let ?x = "upd_thread t (\<lambda>v. v\<lparr>wake_active := False\<rparr>) ?v"
      have "inv_at a {} ?x" by (rule inv_upd_core [OF iv]) (simp add: same_core_def)
      then obtain y where y: "thread_wakeup (wake_active_ev ?v t) ?x = Inr (Some y)" "wakes {(wake_active_ev ?v t, THREAD_AWAKENED), (swapping_thread ?x, THREAD_AWAKENED)} ?x y"
        using thread_wakeup_ok by blast
      have "thread y t = thread ?x t" using wakes_gone [OF y(2), of t] w0 by (simp add: fr)
      moreover have "u = y" using d' True y(1) by simp
      ultimately show ?thesis by simp
    next
      case False
      then have "u = ?v" using d' by simp
      then show ?thesis by simp
    qed
  next
    case False
    let ?sleep = "rbind (thread_sleep (wake_active_ev s t) True (upd_thread t (\<lambda>v. v\<lparr>wake_active := True\<rparr>) s)) (\<lambda>s. Inr (Some (False, s)))"
    have nosleep: "?sleep \<noteq> Inr (Some (True, u))" by (auto simp: rbind_def kbind_def split: sum.splits option.splits)
    have d': "(if ?st = {TH_SUSP} \<or> ?st = {TH_SUSP, TH_SWAPPED} \<or> ?st = {TH_SUSP, TH_WAIT, TH_SWAPPED} then Inr (Some (True, s))
       else if ?st = {TH_RUN, TH_SUSP} \<or> ?st = {TH_RUN, TH_SUSP, TH_SWAPPED} \<or> ?st = {TH_RUN, TH_WAIT, TH_SUSP} \<or> ?st = {TH_WAIT, TH_SUSP}
       then if \<not> (TH_SUSP \<in> ?st \<and> TH_RUN \<notin> ?st) \<or> \<not> interruptible (thread s t) then ?sleep else Inr (Some (True, s))
       else Inr (Some (True, s))) = Inr (Some (True, u))"
      using d unfolding thread_dowait_def Let_def if_not_P [OF t] if_not_P [OF False] .
    have us: "u = s" using d' nosleep by (auto split: if_split_asm)
    have "TH_RUN \<notin> ?st"
    proof
      assume r: "TH_RUN \<in> ?st"
      then have "?st = {TH_RUN, TH_SUSP} \<or> ?st = {TH_RUN, TH_SUSP, TH_SWAPPED} \<or> ?st = {TH_RUN, TH_WAIT, TH_SUSP}"
        using susp ni sw by (simp add: flag_set_eq) blast
      moreover have "\<not> (?st = {TH_SUSP} \<or> ?st = {TH_SUSP, TH_SWAPPED} \<or> ?st = {TH_SUSP, TH_WAIT, TH_SWAPPED})" using r by auto
      ultimately show False using d' r nosleep by (simp only: if_False if_True) argo
    qed
    then show ?thesis using us susp by simp
  qed
  then show "TH_SUSP \<in> state (thread u t)" "TH_RUN \<notin> state (thread u t)" by blast+
qed

text \<open>C25: Waiting for a suspended thread to stop (\<^verbatim>\<open>thread_dowait\<close>, called by another thread) never panics; when it reports that the
  thread has stopped, the thread is suspended, not running and on no run queue, so that it cannot run before it is
  released; otherwise the caller has gone to sleep.\<close>

theorem thread_dowait_stops:
  assumes "sched_reach s" and "can_sleep_now s" and "t \<noteq> active_thread s" and "TH_SUSP \<in> state (thread s t)"
  shows "\<exists>stopped u. thread_dowait t s = Inr (Some (stopped, u)) \<and>
     (stopped \<longrightarrow> TH_SUSP \<in> state (thread u t) \<and> TH_RUN \<notin> state (thread u t) \<and> runq (thread u t) = None)"
proof -
  obtain b u where u: "thread_dowait t s = Inr (Some (b, u))" "sched_inv u" using dowait_ok [OF reach_inv [OF assms(1)] assms(2)] by blast
  have "TH_SUSP \<in> state (thread u t) \<and> TH_RUN \<notin> state (thread u t)" if b
    using dowait_stopped [OF reach_inv_at [OF assms(1)] assms(3, 4)] u(1) that by simp
  moreover have "st_ok (thread u t)" using u(2) by (simp add: sched_inv_def inv_at_def)
  ultimately show ?thesis using u(1) runnable_flags [of "thread u t"] by (auto simp: st_ok_def)
qed

theorem thread_dowait_stops_witness:
  "sched_reach demo_hold \<and> can_sleep_now demo_hold \<and> 3 \<noteq> active_thread demo_hold \<and> TH_SUSP \<in> state (thread demo_hold 3) \<and>
     (\<exists>stopped u. thread_dowait 3 demo_hold = Inr (Some (stopped, u)) \<and> (stopped \<longrightarrow> TH_RUN \<notin> state (thread u 3)))"
proof -
  have "can_sleep_now demo_hold" "3 \<noteq> active_thread demo_hold" "TH_SUSP \<in> state (thread demo_hold 3)"
    by (simp_all add: demo_hold_def thread_hold_def demo_run_simps can_sleep_now_def demo_thread_def)
  then show ?thesis using thread_dowait_stops [OF demo_hold_reach] demo_hold_reach by blast
qed

end
