(* ===== verification/Spec2Isabelle.thy ===== *)
theory Spec2Isabelle
  imports Queue Lock Timer VmMapFork KallocSafe SchedProps
begin

text \<open>
  A verification of the machine-independent core of the NeXT Mach kernel, \<^verbatim>\<open>src/mk-108.1\<close>: the
  synchronization and accounting primitives of \<^verbatim>\<open>kern\<close>, its scheduler, its memory allocators, and the virtual memory
  system of \<^verbatim>\<open>vm\<close>, in the configuration the kernel is built with (uniprocessor, \<^verbatim>\<open>NeXT\<close> defined,
  \<^verbatim>\<open>MACH_XP\<close> not defined).

  \<^bold>\<open>Parts and theories.\<close>

  \<^item> \<^verbatim>\<open>kern/queue.c\<close>, \<^verbatim>\<open>kern/queue.h\<close>: theory Queue.  Doubly-linked rings on a store of pointers; every
    routine and macro is the list operation it stands for (locale \<open>fifo_queue\<close>, interpreted for the
    macros and for the \<^verbatim>\<open>mpqueue\<close> routines), queues in disjoint memory do not disturb each other.
  \<^item> \<^verbatim>\<open>kern/lock.c\<close>, \<^verbatim>\<open>kern/lock.h\<close>: theory Lock.  The structure is a record with its 16-bit and 12-bit
    fields; each routine is a function from the lock to the lock and an outcome (got, sleeping at a
    program point, refused, panic).  The inductive relation of the theory interleaves the routines of
    any number of threads; mutual exclusion and the absence of lost wakeups are invariants of it.
  \<^item> \<^verbatim>\<open>kern/timer.c\<close>, \<^verbatim>\<open>kern/timer.h\<close>: theory Timer.  32-bit counters with normalization, the exact value
    they stand for, and the lock-free read against a writer that runs store by store.
  \<^item> \<^verbatim>\<open>kern/sched_prim.c\<close>, \<^verbatim>\<open>kern/sched.h\<close>, suspension in \<^verbatim>\<open>kern/thread.c\<close>, \<^verbatim>\<open>kern/thread_swap.c\<close>: theories Sched
    (definitions), SchedInv (the invariant of threads, run queues and wait queues), SchedWake (waking an event),
    SchedOps (ending a wait, continuing, the choice of the next thread), SchedSafe (giving up the processor,
    priorities, suspension, swapping), SchedScan (stuck threads), SchedReach (the reachable states, as an
    inductive relation over all operations), SchedDemo (a small system for the witnesses) and SchedProps.
    A thread is a record whose state word is a set of flags; the events, the sleepers and the swapper
    meet in the wait queues, which the operations hash as the code does.  The CPU usage that drives the
    priorities is read from the timers of theory Timer.
  \<^item> \<^verbatim>\<open>kern/zalloc.c\<close>, \<^verbatim>\<open>kern/zalloc.h\<close>: theories Zalloc (definitions), ZoneInv (the invariant on blocks of
    memory), ZoneSafe (reachable states and what the operations promise).  Memory is a function from
    addresses to bytes, because the free lists run through the elements.
  \<^item> \<^verbatim>\<open>kern/kalloc.c\<close>: theories Kalloc and KallocSafe.  The client of the zone allocator: size classes,
    \<^verbatim>\<open>kalloc\<close>, \<^verbatim>\<open>kfree\<close>, and \<^verbatim>\<open>malloc\<close> on top.
  \<^item> \<^verbatim>\<open>vm/vm_resident.c\<close>, \<^verbatim>\<open>vm/vm_page.h\<close>: theory VmResident.  Physical pages, the hash table from object
    and offset to page, the paging queues and their counters.
  \<^item> \<^verbatim>\<open>vm/vm_object.c\<close>: theories VmObject, VmObjLife and VmObjCopy.  Memory objects with shadow and copy chains;
    \<open>visible\<close> says which page (or pager) supplies the data of an object at an offset, and every
    operation is stated by what it does to that.
  \<^item> \<^verbatim>\<open>vm/vm_map.c\<close>, \<^verbatim>\<open>vm/vm_map.h\<close>: theories VmMap and VmMapCopy (definitions), VmMapInv (the invariant:
    a sorted, linked, counted list of entries; \<open>mview\<close>, what a map shows at an address), VmMapObj (the
    object layer leaves maps alone), VmMapRange (operations over a range, one locale \<open>range_walk\<close>
    interpreted for four loops), VmMapQuery, VmMapAlloc, VmMapDelete, VmMapFault, VmMapWorld (all maps of
    a system together), VmMapInherit and VmMapFork (the child of a fork).
  \<^item> \<^verbatim>\<open>vm/vm_fault.c\<close>: \<^verbatim>\<open>vm_fault_copy_entry\<close> only, in VmMapCopy.

  The maps refer to objects, the objects to pages: the records extend one another (\<open>vm_pages\<close>,
  \<open>vm_objs\<close>, \<open>vm_maps\<close>), so that a routine of the lower layer runs unchanged in the state of the upper
  one.  Theory Prelude holds the machine types, the return codes and the shared lemmas.

  \<^bold>\<open>How the code is read.\<close>  A structure is a record with the field names of the source (with a prefix
  where they clash), a pointer is a number into a store, an address or size is a 32-bit word.  Every
  routine is one definition with the branches of the source; auxiliary definitions name its loops and
  long branches.  A call of \<^verbatim>\<open>panic\<close> or a failed \<^verbatim>\<open>assert\<close> is the left value of the result.  A loop is
  recursion on fuel and yields \<open>None\<close> when the fuel runs out; the definition that starts the loop supplies
  fuel that the theorems show to be enough (the length of the list the loop runs along, the number of
  pages of a range, the number of results of \<^verbatim>\<open>kmem_alloc\<close> still to come, 33 turns for a loop that
  doubles a 32-bit number, one more than the number of queued threads for the scan for stuck threads, (W + 1) (W + 2) turns for
  waking an event when W threads wait for any event, since the walk along the queue restarts and may wake the swapper in turn), and the theorems about such a routine say that it returns.  Simple
  locks are empty on a uniprocessor and the routines run at interrupt level \<^verbatim>\<open>splsched\<close>, so they are
  atomic; where the code sleeps in the middle the model has a step for each part (theory Lock) or a
  parameter for what happened meanwhile (\<^verbatim>\<open>vm_map_lookup\<close>).

  Code the kernel only calls is a parameter: \<^verbatim>\<open>pmap\<close> and the pagers are calls recorded in the state,
  \<^verbatim>\<open>kmem_alloc\<close> is the list of its results, which the theorems require to be new memory, the constants of
  \<^verbatim>\<open>machine/timer.h\<close> are arguments.

  \<^bold>\<open>What is shown.\<close>  Invariants of every reachable state (locks, threads, pages, zones), refinement of an abstract
  view (queues to lists, page table to a partial function, maps to a function from addresses, objects
  to the data they show, the scheduler to the table of thread states in the comment of \<^verbatim>\<open>sched_prim.c\<close>), the functional behaviour and the errors of each map operation over a range, exactness of reference
  counts under collapse, deallocation and removal, non-overlap of everything the allocators hand out,
  the child of a fork (what each inheritance gives it, with exact reference counts over all maps), round trips of allocation and freeing, termination of all loops above, and arithmetic at machine width
  (timers, page rounding, wrap-around in searches).

  \<^bold>\<open>Not modelled.\<close>  Inter-process communication, tasks and processor sets, the creation, termination and
  aborting of threads, the endless loops of the idle, scheduler and swapping threads (the work of their turns is
  in definitions), the multiprocessor branches, the
  pageout daemon and \<^verbatim>\<open>vm_fault\<close> itself (they wait for pagers and pages), the physical maps, the stubs
  generated from interface definitions, device drivers, and the BSD part of the kernel with its file
  systems and networks.  Of the routines modelled, \<^verbatim>\<open>vm_map_copy\<close>, \<^verbatim>\<open>vm_fault_copy_entry\<close> and \<^verbatim>\<open>thread_swappable\<close> have definitions
  but no theorem; the theorem about \<^verbatim>\<open>vm_map_fork\<close> leaves out submaps (where it panics) and copied regions that are wired or
  shared, for which it calls the first two; the theorems about swapping take a thread to be swapped in only when nobody
  has asked to make it unswappable.
\<close>

end
